(* ===== verification/Prelude.thy ===== *)
theory Prelude
  imports "HOL-Library.Word" "HOL-Library.Signed_Division"
begin

text \<open>
  Shared vocabulary of the development.

  A C++ \<^verbatim>\<open>char\<close> or \<^verbatim>\<open>uint8_t\<close> is a \<open>byte\<close> (an 8-bit word, read with \<open>unat\<close> where the
  code casts to \<^verbatim>\<open>uint8_t\<close> and with signed comparisons where it compares plain \<^verbatim>\<open>char\<close>s);
  \<^verbatim>\<open>std::string\<close>, \<^verbatim>\<open>String::SubString\<close> and a half open pointer range \<^verbatim>\<open>[begin, end)\<close> are
  lists of bytes; a NUL terminated \<^verbatim>\<open>const char*\<close> is the list of the bytes before its
  terminator.  A \<^verbatim>\<open>throw\<close> is the left injection of a sum type.  The theory also collects
  the lemmas on words, byte enumeration and option/sum case analysis that the component
  theories share.
\<close>

unbundle bit_operations_syntax

subsection \<open>Types\<close>

type_synonym byte = "8 word"
type_synonym bytes = "byte list"

text \<open>
  The exceptions of the library that the modelled code throws, with the text the code
  streams into them; \<open>OutOfBounds\<close> is not an exception but a read outside the memory the
  caller passed (undefined behaviour in C++), \<open>AssertionFailed\<close> is a failing \<^verbatim>\<open>assert\<close>
  and \<open>DivisionByZero\<close> the fault of the processor.
\<close>

datatype error =
    InvalidFormat string
  | RangeException string
  | TimeException string
  | InvalidArgument string
  | InvalidURL bytes
  | Overflow
  | NotNumber
  | Sign
  | OutOfBounds
  | AssertionFailed
  | DivisionByZero

type_synonym 'a result = "error + 'a"

definition rbind :: "'a result \<Rightarrow> ('a \<Rightarrow> 'b result) \<Rightarrow> 'b result" where
  "rbind r f = (case r of Inl e \<Rightarrow> Inl e | Inr x \<Rightarrow> f x)"

definition rmap :: "('a \<Rightarrow> 'b) \<Rightarrow> 'a result \<Rightarrow> 'b result" where
  "rmap f r = rbind r (\<lambda>x. Inr (f x))"

lemma rbind_simps [simp]: "rbind (Inl e) f = Inl e" "rbind (Inr x) f = f x"
  by (simp_all add: rbind_def)

lemma rbind_cong [fundef_cong]:
  "r = s \<Longrightarrow> (\<And>x. s = Inr x \<Longrightarrow> f x = g x) \<Longrightarrow> rbind r f = rbind s g"
  by (cases s) auto

lemma rmap_simps [simp]: "rmap f (Inl e) = Inl e" "rmap f (Inr x) = Inr (f x)"
  by (simp_all add: rmap_def)

lemma rbind_eq_Inr [simp]: "rbind r f = Inr y \<longleftrightarrow> (\<exists>x. r = Inr x \<and> f x = Inr y)"
  by (cases r) auto

lemma rmap_eq_Inr [simp]: "rmap f r = Inr y \<longleftrightarrow> (\<exists>x. r = Inr x \<and> y = f x)"
  by (cases r) auto

text \<open>Code that may also not return: \<open>None\<close> is a loop without an end.\<close>

definition then_do :: "'a result option \<Rightarrow> ('a \<Rightarrow> 'b result option) \<Rightarrow> 'b result option" where
  "then_do r f = Option.bind r (case_sum (\<lambda>e. Some (Inl e)) f)"

lemma then_do_simps [simp]:
  "then_do None f = None" "then_do (Some (Inl e)) f = Some (Inl e)" "then_do (Some (Inr x)) f = f x"
  by (simp_all add: then_do_def)

lemma then_do_cases: "then_do r f = (case r of None \<Rightarrow> None | Some (Inl e) \<Rightarrow> Some (Inl e) | Some (Inr x) \<Rightarrow> f x)"
  by (simp split: option.split sum.split)

lemma then_do_mono [partial_function_mono]:
  assumes "mono_option B" "\<And>x. mono_option (\<lambda>f. C x f)"
  shows "mono_option (\<lambda>f. then_do (B f) (\<lambda>x. C x f))"
  unfolding then_do_def
proof (rule bind_mono [OF assms(1)])
  show "mono_option (\<lambda>f. case y of Inl e \<Rightarrow> Some (Inl e) | Inr x \<Rightarrow> C x f)" for y
    using assms(2) by (cases y) (simp_all add: option.const_mono)
qed

text \<open>Character constants and literals of the source, as bytes.\<close>

abbreviation ch :: "char \<Rightarrow> byte" where
  "ch c \<equiv> of_char c"

definition chars :: "string \<Rightarrow> bytes" where
  "chars s = map of_char s"

lemma chars_simps [simp]: "chars [] = []" "chars (c # cs) = ch c # chars cs"
  by (simp_all add: chars_def)

subsection \<open>Theorem collections\<close>

named_theorems category_simps \<open>what the character categories own\<close>
named_theorems codec_simps \<open>one-step facts of the encoders and decoders\<close>
named_theorems time_simps \<open>facts that move time values to microseconds\<close>

subsection \<open>Enumerating bytes\<close>

lemma unat_byte_less [simp]: "unat (b :: byte) < 256"
  using unsigned_less [of b] by simp

lemma upt_256:
  "[0..<256] =
   [0, 1, 2, 3, 4, 5, 6, 7, 8, 9, 10, 11, 12, 13, 14, 15, 16, 17, 18, 19, 20, 21, 22, 23,
    24, 25, 26, 27, 28, 29, 30, 31, 32, 33, 34, 35, 36, 37, 38, 39, 40, 41, 42, 43, 44, 45,
    46, 47, 48, 49, 50, 51, 52, 53, 54, 55, 56, 57, 58, 59, 60, 61, 62, 63, 64, 65, 66, 67,
    68, 69, 70, 71, 72, 73, 74, 75, 76, 77, 78, 79, 80, 81, 82, 83, 84, 85, 86, 87, 88, 89,
    90, 91, 92, 93, 94, 95, 96, 97, 98, 99, 100, 101, 102, 103, 104, 105, 106, 107, 108,
    109, 110, 111, 112, 113, 114, 115, 116, 117, 118, 119, 120, 121, 122, 123, 124, 125,
    126, 127, 128, 129, 130, 131, 132, 133, 134, 135, 136, 137, 138, 139, 140, 141, 142,
    143, 144, 145, 146, 147, 148, 149, 150, 151, 152, 153, 154, 155, 156, 157, 158, 159,
    160, 161, 162, 163, 164, 165, 166, 167, 168, 169, 170, 171, 172, 173, 174, 175, 176,
    177, 178, 179, 180, 181, 182, 183, 184, 185, 186, 187, 188, 189, 190, 191, 192, 193,
    194, 195, 196, 197, 198, 199, 200, 201, 202, 203, 204, 205, 206, 207, 208, 209, 210,
    211, 212, 213, 214, 215, 216, 217, 218, 219, 220, 221, 222, 223, 224, 225, 226, 227,
    228, 229, 230, 231, 232, 233, 234, 235, 236, 237, 238, 239, 240, 241, 242, 243, 244,
    245, 246, 247, 248, 249, 250, 251, 252, 253, 254, 255]"
  by code_simp

lemma all_byte: "(\<forall>b::byte. P b) \<longleftrightarrow> list_all (\<lambda>n. P (word_of_nat n)) [0..<256]"
proof
  assume "\<forall>b::byte. P b"
  then show "list_all (\<lambda>n. P (word_of_nat n)) [0..<256]"
    by (simp add: list_all_iff)
next
  assume *: "list_all (\<lambda>n. P (word_of_nat n)) [0..<256]"
  show "\<forall>b::byte. P b"
  proof
    fix b :: byte
    have "unat b \<in> set [0..<256]"
      by simp
    with * have "P (word_of_nat (unat b))"
      unfolding list_all_iff by blast
    then show "P b" by simp
  qed
qed

text \<open>A predicate that holds of all bytes, in the form in which it is used.\<close>

lemma all_byteD:
  assumes "list_all (\<lambda>n. P (word_of_nat n)) [0..<256]"
  shows "P (b :: byte)"
  using assms all_byte [of P] by blast

subsection \<open>Bits of words\<close>

lemma sint_inject [simp]: "sint a = sint b \<longleftrightarrow> a = b"
  for a b :: "'a::len word"
  by (auto intro: signed_word_eqI)

lemma word_and_mask_unat: "unat (w AND mask n) = unat w mod 2 ^ n"
  for w :: "'a::len word"
  by (simp add: unsigned_take_bit_eq flip: take_bit_eq_mask take_bit_eq_mod)

lemma unat_drop_bit_div: "unat (drop_bit n w) = unat w div 2 ^ n"
  for w :: "'a::len word"
  by (metis unat_drop_bit_eq drop_bit_eq_div)

lemma word_less_power_iff_bits:
  fixes w :: "'a::len word"
  assumes "k < LENGTH('a)"
  shows "w < 2 ^ k \<longleftrightarrow> (\<forall>n. bit w n \<longrightarrow> n < k)"
proof -
  have "w < 2 ^ k \<longleftrightarrow> take_bit k w = w"
  proof -
    have "unat ((2 :: 'a word) ^ k) = 2 ^ k"
      using assms by (metis mod_less of_nat_numeral of_nat_power one_less_numeral_iff
          power_strict_increasing_iff semiring_norm(76) unat_of_nat)
    then have "w < 2 ^ k \<longleftrightarrow> take_bit k (unat w) = unat w"
      by (simp add: word_less_nat_alt take_bit_nat_eq_self_iff)
    also have "\<dots> \<longleftrightarrow> take_bit k w = w"
      by (metis unsigned_take_bit_eq unsigned_word_eqI)
    finally show ?thesis .
  qed
  also have "\<dots> \<longleftrightarrow> (\<forall>n. bit w n \<longrightarrow> n < k)"
    by (metis bit_take_bit_iff bit_eqI)
  finally show ?thesis .
qed

lemma scast_less_power:
  fixes w :: "32 word"
  assumes "k < 32"
  shows "(scast w :: 64 word) < 2 ^ k \<longleftrightarrow> w < 2 ^ k"
proof -
  have "(\<forall>n. bit (scast w :: 64 word) n \<longrightarrow> n < k) \<longleftrightarrow> (\<forall>n. bit w n \<longrightarrow> n < k)"
  proof
    assume *: "\<forall>n. bit (scast w :: 64 word) n \<longrightarrow> n < k"
    show "\<forall>n. bit w n \<longrightarrow> n < k"
    proof (intro allI impI)
      fix n assume n: "bit w n"
      then have "n \<le> 31" by (auto dest: bit_imp_le_length)
      with n have "bit (scast w :: 64 word) n" by (simp add: bit_simps min_absorb2)
      with * show "n < k" by blast
    qed
  next
    assume "\<forall>n. bit w n \<longrightarrow> n < k"
    then show "\<forall>n. bit (scast w :: 64 word) n \<longrightarrow> n < k"
      using assms by (auto simp: bit_simps split: if_splits)
  qed
  then show ?thesis using assms by (simp add: word_less_power_iff_bits)
qed

lemma unat_or_disjoint:
  "a AND b = 0 \<Longrightarrow> unat a + unat b < 2 ^ LENGTH('a) \<Longrightarrow> unat (a OR b) = unat a + unat b"
  for a b :: "'a::len word"
  by (metis disjunctive_add_eq_or unat_word_ariths(1) mod_less)

text \<open>The signed reading of a 32-bit word.\<close>

lemma sint_small:
  fixes w :: "32 word"
  shows "unat w < 2 ^ 31 \<Longrightarrow> sint w = int (unat w)" and "2 ^ 31 \<le> unat w \<Longrightarrow> sint w < 0"
proof -
  have bit: "bit w 31 \<longleftrightarrow> \<not> unat w < 2 ^ 31"
  proof -
    have "w < 2 ^ 31 \<longleftrightarrow> (\<forall>n. bit w n \<longrightarrow> n < 31)"
      by (rule word_less_power_iff_bits) simp
    also have "\<dots> \<longleftrightarrow> \<not> bit w 31"
    proof
      assume "\<not> bit w 31"
      show "\<forall>n. bit w n \<longrightarrow> n < 31"
      proof (intro allI impI)
        fix n assume n: "bit w n"
        then have "n < 32" by (auto dest: bit_imp_le_length)
        moreover have "n \<noteq> 31" using n \<open>\<not> bit w 31\<close> by auto
        ultimately show "n < 31" by simp
      qed
    qed auto
    finally show ?thesis by (simp add: word_less_nat_alt)
  qed
  show "sint w = int (unat w)" if "unat w < 2 ^ 31"
  proof -
    have "int (unat w) < int (2 ^ 31)" using that by (rule of_nat_less_iff [THEN iffD2])
    then have "uint w < 2 ^ 31" by (simp only: of_nat_unat) simp
    then have "signed_take_bit 31 (uint w) = uint w"
      by (intro signed_take_bit_int_eq_self) (auto intro: order_trans [of _ 0])
    then show ?thesis by (simp add: sint_uint)
  qed
  show "2 ^ 31 \<le> unat w \<Longrightarrow> sint w < 0"
    using bit bit_last_iff [of w] by simp
qed

lemma sint_le_iff:
  fixes w :: "32 word"
  assumes "unat w < 2 ^ 31"
  shows "sint w \<le> numeral k \<longleftrightarrow> unat w \<le> numeral k"
  unfolding sint_small(1) [OF assms] by (metis of_nat_le_iff of_nat_numeral)

lemma sint_less_iff:
  fixes w :: "32 word"
  assumes "unat w < 2 ^ 31"
  shows "sint w < numeral k \<longleftrightarrow> unat w < numeral k"
  unfolding sint_small(1) [OF assms] by (metis of_nat_less_iff of_nat_numeral)

text \<open>Division and remainder of C round towards zero.\<close>

lemma sdiv_nonneg [simp]: "0 \<le> a \<Longrightarrow> 0 \<le> b \<Longrightarrow> a sdiv b = a div b" for a b :: int
  by (auto simp: signed_divide_int_def sgn_if)

lemma smod_nonneg [simp]: "0 \<le> a \<Longrightarrow> 0 \<le> b \<Longrightarrow> a smod b = a mod b" for a b :: int
  by (auto simp: signed_modulo_int_def sgn_if)

subsection \<open>Reading memory\<close>

text \<open>
  A pointer into a block of memory is the list of the bytes of the block from that pointer
  on; reading outside the block has no defined result.
\<close>

definition rd :: "bytes \<Rightarrow> nat \<Rightarrow> byte result" where
  "rd m i = (if i < length m then Inr (m ! i) else Inl OutOfBounds)"

lemma rd_simps [simp]:
  "rd [] i = Inl OutOfBounds"
  "rd (b # m) 0 = Inr b"
  "rd (b # m) (Suc i) = rd m i"
  by (simp_all add: rd_def)

lemma rd_numeral [simp]: "rd (b # m) (numeral k) = rd m (pred_numeral k)"
  by (simp add: numeral_eq_Suc)

subsection \<open>Codecs that work symbol by symbol\<close>

text \<open>
  The text encoders of the library write every symbol on its own, and their decoders take
  the encoding of one symbol off the front.  From the law of one step the whole text is
  decoded again; \<open>out1\<close> is what the decoder writes for a symbol and \<open>ok\<close> says which symbols
  the encoder is for.
\<close>

locale stream_codec =
  fixes enc1 :: "'a \<Rightarrow> 'b list"
    and out1 :: "'a \<Rightarrow> 'c list"
    and dec :: "'b list \<Rightarrow> 'c list result"
    and ok :: "'a \<Rightarrow> bool"
  assumes dec_Nil: "dec [] = Inr []"
    and dec_step: "ok c \<Longrightarrow> dec (enc1 c @ rest) = rmap (append (out1 c)) (dec rest)"
begin

lemma dec_append:
  "list_all ok s \<Longrightarrow>
   dec (concat (map enc1 s) @ rest) = rmap (append (concat (map out1 s))) (dec rest)"
proof (induction s)
  case Nil
  then show ?case by (cases "dec rest") simp_all
next
  case (Cons c s)
  then show ?case by (cases "dec rest") (simp_all add: dec_step)
qed

lemma dec_all: "list_all ok s \<Longrightarrow> dec (concat (map enc1 s)) = Inr (concat (map out1 s))"
  using dec_append [of s "[]"] by (simp add: dec_Nil)

text \<open>Different texts have different encodings.\<close>

lemma enc_inj:
  assumes "list_all ok s" and "list_all ok t" and "concat (map enc1 s) = concat (map enc1 t)"
  shows "concat (map out1 s) = concat (map out1 t)"
  using dec_all [OF assms(1)] dec_all [OF assms(2)] assms(3) by simp

end

end
