(* ===== verification/Ascii_String_Manip.thy ===== *)
theory Ascii_String_Manip
  imports Prelude
begin

text \<open>
  \<^verbatim>\<open>src/src/String/AsciiStringManip.hpp\<close> and \<^verbatim>\<open>AsciiStringManip.cpp\<close>: the case tables, the
  character categories (\<^verbatim>\<open>CharTable\<close>, \<^verbatim>\<open>Char1\<close>, \<^verbatim>\<open>Char2\<close>, \<^verbatim>\<open>Char3\<close>) with their search
  functions, \<^verbatim>\<open>flatten\<close>, caseless comparison and the hexadecimal helpers.

  A category is its membership predicate, a function from bytes to truth values (the
  \<^verbatim>\<open>bool table_[256]\<close> indexed by \<^verbatim>\<open>uint8_t\<close>).  A search over \<^verbatim>\<open>[begin, end)\<close> returns the offset
  of its result from \<^verbatim>\<open>begin\<close>, so that the length of the range stands for \<^verbatim>\<open>end\<close>; a search
  over a NUL terminated string returns \<open>None\<close> for the null pointer.
\<close>

section \<open>Tables and categories\<close>

subsection \<open>The case tables\<close>

definition ASCII_TOLOWER_TABLE :: "byte list" where
  "ASCII_TOLOWER_TABLE =
   [0x00, 0x01, 0x02, 0x03, 0x04, 0x05, 0x06, 0x07,
    0x08, 0x09, 0x0A, 0x0B, 0x0C, 0x0D, 0x0E, 0x0F,
    0x10, 0x11, 0x12, 0x13, 0x14, 0x15, 0x16, 0x17,
    0x18, 0x19, 0x1A, 0x1B, 0x1C, 0x1D, 0x1E, 0x1F,
    0x20, 0x21, 0x22, 0x23, 0x24, 0x25, 0x26, 0x27,
    0x28, 0x29, 0x2A, 0x2B, 0x2C, 0x2D, 0x2E, 0x2F,
    0x30, 0x31, 0x32, 0x33, 0x34, 0x35, 0x36, 0x37,
    0x38, 0x39, 0x3A, 0x3B, 0x3C, 0x3D, 0x3E, 0x3F,
    0x40, 0x61, 0x62, 0x63, 0x64, 0x65, 0x66, 0x67,
    0x68, 0x69, 0x6A, 0x6B, 0x6C, 0x6D, 0x6E, 0x6F,
    0x70, 0x71, 0x72, 0x73, 0x74, 0x75, 0x76, 0x77,
    0x78, 0x79, 0x7A, 0x5B, 0x5C, 0x5D, 0x5E, 0x5F,
    0x60, 0x61, 0x62, 0x63, 0x64, 0x65, 0x66, 0x67,
    0x68, 0x69, 0x6A, 0x6B, 0x6C, 0x6D, 0x6E, 0x6F,
    0x70, 0x71, 0x72, 0x73, 0x74, 0x75, 0x76, 0x77,
    0x78, 0x79, 0x7A, 0x7B, 0x7C, 0x7D, 0x7E, 0x7F,
    0x80, 0x81, 0x82, 0x83, 0x84, 0x85, 0x86, 0x87,
    0x88, 0x89, 0x8A, 0x8B, 0x8C, 0x8D, 0x8E, 0x8F,
    0x90, 0x91, 0x92, 0x93, 0x94, 0x95, 0x96, 0x97,
    0x98, 0x99, 0x9A, 0x9B, 0x9C, 0x9D, 0x9E, 0x9F,
    0xA0, 0xA1, 0xA2, 0xA3, 0xA4, 0xA5, 0xA6, 0xA7,
    0xA8, 0xA9, 0xAA, 0xAB, 0xAC, 0xAD, 0xAE, 0xAF,
    0xB0, 0xB1, 0xB2, 0xB3, 0xB4, 0xB5, 0xB6, 0xB7,
    0xB8, 0xB9, 0xBA, 0xBB, 0xBC, 0xBD, 0xBE, 0xBF,
    0xC0, 0xC1, 0xC2, 0xC3, 0xC4, 0xC5, 0xC6, 0xC7,
    0xC8, 0xC9, 0xCA, 0xCB, 0xCC, 0xCD, 0xCE, 0xCF,
    0xD0, 0xD1, 0xD2, 0xD3, 0xD4, 0xD5, 0xD6, 0xD7,
    0xD8, 0xD9, 0xDA, 0xDB, 0xDC, 0xDD, 0xDE, 0xDF,
    0xE0, 0xE1, 0xE2, 0xE3, 0xE4, 0xE5, 0xE6, 0xE7,
    0xE8, 0xE9, 0xEA, 0xEB, 0xEC, 0xED, 0xEE, 0xEF,
    0xF0, 0xF1, 0xF2, 0xF3, 0xF4, 0xF5, 0xF6, 0xF7,
    0xF8, 0xF9, 0xFA, 0xFB, 0xFC, 0xFD, 0xFE, 0xFF]"

definition ASCII_TOUPPER_TABLE :: "byte list" where
  "ASCII_TOUPPER_TABLE =
   [0x00, 0x01, 0x02, 0x03, 0x04, 0x05, 0x06, 0x07,
    0x08, 0x09, 0x0A, 0x0B, 0x0C, 0x0D, 0x0E, 0x0F,
    0x10, 0x11, 0x12, 0x13, 0x14, 0x15, 0x16, 0x17,
    0x18, 0x19, 0x1A, 0x1B, 0x1C, 0x1D, 0x1E, 0x1F,
    0x20, 0x21, 0x22, 0x23, 0x24, 0x25, 0x26, 0x27,
    0x28, 0x29, 0x2A, 0x2B, 0x2C, 0x2D, 0x2E, 0x2F,
    0x30, 0x31, 0x32, 0x33, 0x34, 0x35, 0x36, 0x37,
    0x38, 0x39, 0x3A, 0x3B, 0x3C, 0x3D, 0x3E, 0x3F,
    0x40, 0x41, 0x42, 0x43, 0x44, 0x45, 0x46, 0x47,
    0x48, 0x49, 0x4A, 0x4B, 0x4C, 0x4D, 0x4E, 0x4F,
    0x50, 0x51, 0x52, 0x53, 0x54, 0x55, 0x56, 0x57,
    0x58, 0x59, 0x5A, 0x5B, 0x5C, 0x5D, 0x5E, 0x5F,
    0x60, 0x41, 0x42, 0x43, 0x44, 0x45, 0x46, 0x47,
    0x48, 0x49, 0x4A, 0x4B, 0x4C, 0x4D, 0x4E, 0x4F,
    0x50, 0x51, 0x52, 0x53, 0x54, 0x55, 0x56, 0x57,
    0x58, 0x59, 0x5A, 0x7B, 0x7C, 0x7D, 0x7E, 0x7F,
    0x80, 0x81, 0x82, 0x83, 0x84, 0x85, 0x86, 0x87,
    0x88, 0x89, 0x8A, 0x8B, 0x8C, 0x8D, 0x8E, 0x8F,
    0x90, 0x91, 0x92, 0x93, 0x94, 0x95, 0x96, 0x97,
    0x98, 0x99, 0x9A, 0x9B, 0x9C, 0x9D, 0x9E, 0x9F,
    0xA0, 0xA1, 0xA2, 0xA3, 0xA4, 0xA5, 0xA6, 0xA7,
    0xA8, 0xA9, 0xAA, 0xAB, 0xAC, 0xAD, 0xAE, 0xAF,
    0xB0, 0xB1, 0xB2, 0xB3, 0xB4, 0xB5, 0xB6, 0xB7,
    0xB8, 0xB9, 0xBA, 0xBB, 0xBC, 0xBD, 0xBE, 0xBF,
    0xC0, 0xC1, 0xC2, 0xC3, 0xC4, 0xC5, 0xC6, 0xC7,
    0xC8, 0xC9, 0xCA, 0xCB, 0xCC, 0xCD, 0xCE, 0xCF,
    0xD0, 0xD1, 0xD2, 0xD3, 0xD4, 0xD5, 0xD6, 0xD7,
    0xD8, 0xD9, 0xDA, 0xDB, 0xDC, 0xDD, 0xDE, 0xDF,
    0xE0, 0xE1, 0xE2, 0xE3, 0xE4, 0xE5, 0xE6, 0xE7,
    0xE8, 0xE9, 0xEA, 0xEB, 0xEC, 0xED, 0xEE, 0xEF,
    0xF0, 0xF1, 0xF2, 0xF3, 0xF4, 0xF5, 0xF6, 0xF7,
    0xF8, 0xF9, 0xFA, 0xFB, 0xFC, 0xFD, 0xFE, 0xFF]"

definition to_lower :: "byte \<Rightarrow> byte" where
  "to_lower c = ASCII_TOLOWER_TABLE ! unat c"

definition to_upper :: "byte \<Rightarrow> byte" where
  "to_upper c = ASCII_TOUPPER_TABLE ! unat c"

text \<open>The overloads on iterator ranges and on \<^verbatim>\<open>std::string\<close> rewrite every character in place.\<close>

fun to_lower_range :: "bytes \<Rightarrow> bytes" where
  "to_lower_range [] = []"
| "to_lower_range (c # cs) = ASCII_TOLOWER_TABLE ! unat c # to_lower_range cs"

fun to_upper_range :: "bytes \<Rightarrow> bytes" where
  "to_upper_range [] = []"
| "to_upper_range (c # cs) = ASCII_TOUPPER_TABLE ! unat c # to_upper_range cs"

definition to_lower_string :: "bytes \<Rightarrow> bytes" where
  "to_lower_string dest = (if dest \<noteq> [] then to_lower_range dest else dest)"

definition to_upper_string :: "bytes \<Rightarrow> bytes" where
  "to_upper_string dest = (if dest \<noteq> [] then to_upper_range dest else dest)"

definition HEX_DIGITS :: bytes where
  "HEX_DIGITS = chars ''0123456789ABCDEF''"

subsection \<open>CharTable\<close>

type_synonym category = "byte \<Rightarrow> bool"

text \<open>
  The inner loop of the constructor sets every entry from \<open>c\<close> up to \<open>till\<close>; the \<^verbatim>\<open>char\<close>
  counter wraps around at the top of its range.
\<close>

function fill_range :: "category \<Rightarrow> byte \<Rightarrow> byte \<Rightarrow> category" where
  "fill_range t c till =
     (let t' = t(c := True)
      in if c = till then t' else fill_range t' (c + 1) till)"
  by pat_completeness auto
termination
proof (relation "measure (\<lambda>(t, c, till). unat (till - c))")
  fix t t' :: category and c till :: byte
  assume "c \<noteq> till"
  then have "till - c \<noteq> 0" by simp
  then have "unat (till - c - 1) < unat (till - c)"
    by (simp add: unat_minus_one unat_gt_0)
  then show "((t', c + 1, till), t, c, till) \<in> measure (\<lambda>(t, c, till). unat (till - c))"
    by (simp add: algebra_simps)
qed simp

declare fill_range.simps [simp del]

fun char_table_loop :: "category \<Rightarrow> byte \<Rightarrow> bytes \<Rightarrow> category" where
  "char_table_loop t lst [] = t"
| "char_table_loop t lst [c] = t(c := True)"
| "char_table_loop t lst (c # d # cs) =
     (if c = ch CHR ''-'' \<and> lst \<noteq> 0
      then char_table_loop (fill_range t lst d) d cs
      else char_table_loop (t(c := True)) c (d # cs))"

definition char_table :: "bytes option \<Rightarrow> bool \<Rightarrow> category" where
  "char_table str check_zero =
     (let t = (\<lambda>_. False);
          t = (if check_zero then t(0 := True) else t)
      in case str of None \<Rightarrow> t | Some s \<Rightarrow> char_table_loop t 0 s)"

definition char_table_union2 :: "category \<Rightarrow> category \<Rightarrow> category" where
  "char_table_union2 first second = (\<lambda>i. first i \<or> second i)"

definition char_table_union3 :: "category \<Rightarrow> category \<Rightarrow> category \<Rightarrow> category" where
  "char_table_union3 first second third = (\<lambda>i. first i \<or> second i \<or> third i)"

definition char_table_predicate :: "(int \<Rightarrow> bool) \<Rightarrow> category" where
  "char_table_predicate p = (\<lambda>i. p (uint i))"

definition char1 :: "byte \<Rightarrow> category" where
  "char1 s = (\<lambda>c. c = s)"

definition char2 :: "byte \<Rightarrow> byte \<Rightarrow> category" where
  "char2 s1 s2 = (\<lambda>c. c = s1 \<or> c = s2)"

definition char3 :: "byte \<Rightarrow> byte \<Rightarrow> byte \<Rightarrow> category" where
  "char3 s1 s2 s3 = (\<lambda>c. c = s1 \<or> c = s2 \<or> c = s3)"

text \<open>\<^verbatim>\<open>isspace\<close> of the C standard library, in the C locale.\<close>

definition isspace :: "int \<Rightarrow> bool" where
  "isspace c \<longleftrightarrow> c = 0x20 \<or> 0x09 \<le> c \<and> c \<le> 0x0D"

definition ALPHA :: category where
  "ALPHA = char_table (Some (chars ''A-Za-z'')) False"

definition NUMBER :: category where
  "NUMBER = char_table (Some (chars ''0-9'')) False"

definition ALPHA_NUM :: category where
  "ALPHA_NUM = char_table_union2 ALPHA NUMBER"

definition OCTAL_NUMBER :: category where
  "OCTAL_NUMBER = char_table (Some (chars ''0-7'')) False"

definition HEX_NUMBER :: category where
  "HEX_NUMBER = char_table (Some (chars ''0-9A-Fa-f'')) False"

definition SPACE :: category where
  "SPACE = char_table_predicate isspace"

definition REGEX_META :: category where
  "REGEX_META = char_table (Some (chars ''^.$'' @ [0x5C] @ chars ''|()[]*+?{}'')) False"

subsection \<open>Searching for owned and non-owned characters\<close>

definition category_empty :: "category \<Rightarrow> bool" where
  "category_empty p = list_all (\<lambda>n. \<not> p (word_of_int n)) [-128..127]"

fun find_owned :: "category \<Rightarrow> bytes \<Rightarrow> nat" where
  "find_owned p [] = 0"
| "find_owned p (c # cs) = (if p c then 0 else Suc (find_owned p cs))"

fun find_nonowned :: "category \<Rightarrow> bytes \<Rightarrow> nat" where
  "find_nonowned p [] = 0"
| "find_nonowned p (c # cs) = (if \<not> p c then 0 else Suc (find_nonowned p cs))"

text \<open>The one-argument overloads stop at the terminator, which the category may own.\<close>

fun find_owned_cstr :: "category \<Rightarrow> bytes \<Rightarrow> nat option" where
  "find_owned_cstr p [] = (if p 0 then Some 0 else None)"
| "find_owned_cstr p (c # cs) =
     (if p c then Some 0 else map_option Suc (find_owned_cstr p cs))"

fun find_nonowned_cstr :: "category \<Rightarrow> bytes \<Rightarrow> nat option" where
  "find_nonowned_cstr p [] = (if \<not> p 0 then Some 0 else None)"
| "find_nonowned_cstr p (c # cs) =
     (if \<not> p c then Some 0 else map_option Suc (find_nonowned_cstr p cs))"

text \<open>The backward searches return their first argument, the end, when nothing is found.\<close>

fun rfind_owned_loop :: "category \<Rightarrow> bytes \<Rightarrow> nat \<Rightarrow> nat" where
  "rfind_owned_loop p cs 0 = length cs"
| "rfind_owned_loop p cs (Suc pos) =
     (if p (cs ! pos) then pos else rfind_owned_loop p cs pos)"

definition rfind_owned :: "category \<Rightarrow> bytes \<Rightarrow> nat" where
  "rfind_owned p cs = rfind_owned_loop p cs (length cs)"

fun rfind_nonowned_loop :: "category \<Rightarrow> bytes \<Rightarrow> nat \<Rightarrow> nat" where
  "rfind_nonowned_loop p cs 0 = length cs"
| "rfind_nonowned_loop p cs (Suc pos) =
     (if \<not> p (cs ! pos) then pos else rfind_nonowned_loop p cs pos)"

definition rfind_nonowned :: "category \<Rightarrow> bytes \<Rightarrow> nat" where
  "rfind_nonowned p cs = rfind_nonowned_loop p cs (length cs)"

section \<open>The contract of a searching category\<close>

text \<open>
  What the clients of a category (\<^verbatim>\<open>flatten\<close>, \<^verbatim>\<open>trim\<close>, the splitters) rely on: a search stops
  at the first character of its kind and returns the end when there is none.
\<close>

locale search_category =
  fixes owned :: category
    and find_own :: "bytes \<Rightarrow> nat"
    and find_non :: "bytes \<Rightarrow> nat"
  assumes find_own_le: "find_own cs \<le> length cs"
    and find_own_before: "i < find_own cs \<Longrightarrow> \<not> owned (cs ! i)"
    and find_own_hit: "find_own cs < length cs \<Longrightarrow> owned (cs ! find_own cs)"
    and find_non_le: "find_non cs \<le> length cs"
    and find_non_before: "i < find_non cs \<Longrightarrow> owned (cs ! i)"
    and find_non_hit: "find_non cs < length cs \<Longrightarrow> \<not> owned (cs ! find_non cs)"
begin

lemma find_own_takeWhile: "take (find_own cs) cs = takeWhile (\<lambda>c. \<not> owned c) cs"
proof -
  have "takeWhile (\<lambda>c. \<not> owned c) cs = take (find_own cs) cs"
    using find_own_le [of cs] find_own_before [of _ cs] find_own_hit [of cs]
    by (intro takeWhile_eq_take_P_nth) auto
  then show ?thesis by simp
qed

lemma find_own_length: "find_own cs = length (takeWhile (\<lambda>c. \<not> owned c) cs)"
proof -
  have "length (take (find_own cs) cs) = find_own cs"
    using find_own_le by simp
  then show ?thesis by (simp add: find_own_takeWhile)
qed

lemma find_non_takeWhile: "take (find_non cs) cs = takeWhile owned cs"
proof -
  have "takeWhile owned cs = take (find_non cs) cs"
    using find_non_le [of cs] find_non_before [of _ cs] find_non_hit [of cs]
    by (intro takeWhile_eq_take_P_nth) auto
  then show ?thesis by simp
qed

lemma find_non_length: "find_non cs = length (takeWhile owned cs)"
proof -
  have "length (take (find_non cs) cs) = find_non cs"
    using find_non_le by simp
  then show ?thesis by (simp add: find_non_takeWhile)
qed

lemma find_own_drop: "drop (find_own cs) cs = dropWhile (\<lambda>c. \<not> owned c) cs"
  by (simp add: find_own_length dropWhile_eq_drop)

lemma find_non_drop: "drop (find_non cs) cs = dropWhile owned cs"
  by (simp add: find_non_length dropWhile_eq_drop)

lemma find_own_eq_length: "find_own cs = length cs \<longleftrightarrow> (\<forall>c\<in>set cs. \<not> owned c)"
proof
  assume "find_own cs = length cs"
  then have "takeWhile (\<lambda>c. \<not> owned c) cs = cs"
    using find_own_takeWhile [of cs] by simp
  then show "\<forall>c\<in>set cs. \<not> owned c"
    by (simp add: takeWhile_eq_all_conv)
next
  assume "\<forall>c\<in>set cs. \<not> owned c"
  then show "find_own cs = length cs"
    by (simp add: find_own_length takeWhile_eq_all_conv [THEN iffD2])
qed

text \<open>After a hit the opposite search makes progress: the loops of the clients end.\<close>

lemma find_non_progress: "find_own cs < length cs \<Longrightarrow> 0 < find_non (drop (find_own cs) cs)"
  using find_own_hit [of cs] find_non_hit [of "drop (find_own cs) cs"] by (cases "find_non (drop (find_own cs) cs)") auto

end

lemma find_owned_le: "find_owned p cs \<le> length cs"
  by (induction cs) auto

lemma find_nonowned_le: "find_nonowned p cs \<le> length cs"
  by (induction cs) auto

interpretation scan: search_category p "find_owned p" "find_nonowned p" for p
proof (standard, goal_cases)
  case (1 cs) then show ?case by (rule find_owned_le)
next
  case (2 i cs) then show ?case
    by (induction cs arbitrary: i) (auto simp: nth_Cons split: if_splits nat.splits)
next
  case (3 cs) then show ?case by (induction cs) (auto split: if_splits)
next
  case (4 cs) then show ?case by (rule find_nonowned_le)
next
  case (5 i cs) then show ?case
    by (induction cs arbitrary: i) (auto simp: nth_Cons split: if_splits nat.splits)
next
  case (6 cs) then show ?case by (induction cs) (auto split: if_splits)
qed

section \<open>flatten\<close>

function flatten_loop :: "bytes \<Rightarrow> category \<Rightarrow> bytes \<Rightarrow> bytes" where
  "flatten_loop repl p first =
     (if first = [] then []
      else let current = find_owned p first
           in if current = length first then take current first
              else let rest = drop current first
                   in take current first @ repl @
                      flatten_loop repl p (drop (find_nonowned p rest) rest))"
  by pat_completeness auto
termination
proof (relation "measure (\<lambda>(repl, p, first). length first)", goal_cases)
  case 1 then show ?case by simp
next
  case (2 repl p first x y)
  then have "find_owned p first < length first"
    using find_owned_le [of p first] by simp
  then show ?case using 2 scan.find_non_progress [of p first] by simp
qed

declare flatten_loop.simps [simp del]

definition flatten :: "bytes \<Rightarrow> bytes \<Rightarrow> category \<Rightarrow> bytes" where
  "flatten str replacement to_replace = flatten_loop replacement to_replace str"

text \<open>The buffer the code allocates for the result.\<close>

definition flatten_capacity :: "bytes \<Rightarrow> bytes \<Rightarrow> nat" where
  "flatten_capacity str replacement =
     length str * (if length replacement \<noteq> 0 then length replacement else 1)"

text \<open>
  The reference: every maximal run of owned characters becomes one copy of the replacement.
\<close>

function flatten_ref :: "bytes \<Rightarrow> category \<Rightarrow> bytes \<Rightarrow> bytes" where
  "flatten_ref repl p [] = []"
| "flatten_ref repl p (c # cs) =
     (if p c then repl @ flatten_ref repl p (dropWhile p cs)
      else c # flatten_ref repl p cs)"
  by pat_completeness auto
termination
  by (relation "measure (\<lambda>(repl, p, cs). length cs)")
    (auto simp: le_imp_less_Suc length_dropWhile_le)

lemma flatten_ref_nonowned:
  "\<forall>c\<in>set xs. \<not> p c \<Longrightarrow> flatten_ref repl p (xs @ ys) = xs @ flatten_ref repl p ys"
  by (induction xs) auto

lemma flatten_ref_owned:
  assumes "xs \<noteq> []" and "p (hd xs)"
  shows "flatten_ref repl p xs = repl @ flatten_ref repl p (dropWhile p xs)"
  using assms by (cases xs) auto

lemma flatten_loop_ref: "flatten_loop repl p cs = flatten_ref repl p cs"
proof (induction repl p cs rule: flatten_loop.induct)
  case (1 repl p cs)
  let ?k = "find_owned p cs"
  have split: "cs = take ?k cs @ drop ?k cs" by simp
  have pre: "\<forall>c\<in>set (take ?k cs). \<not> p c"
    unfolding scan.find_own_takeWhile by (auto dest: set_takeWhileD)
  show ?case
  proof (cases "cs = [] \<or> ?k = length cs")
    case True
    then show ?thesis
      using flatten_ref_nonowned [OF pre, of repl "[]"]
      by (auto simp: flatten_loop.simps [of repl p cs] Let_def)
  next
    case False
    then have k: "?k < length cs" using find_owned_le [of p cs] by simp
    then have "drop ?k cs \<noteq> []" "p (hd (drop ?k cs))"
      using scan.find_own_hit [of p cs] by (auto simp: hd_drop_conv_nth)
    then have "flatten_ref repl p (drop ?k cs) =
        repl @ flatten_ref repl p (dropWhile p (drop ?k cs))"
      by (rule flatten_ref_owned)
    moreover have "flatten_ref repl p cs = take ?k cs @ flatten_ref repl p (drop ?k cs)"
      using flatten_ref_nonowned [OF pre, of repl "drop ?k cs"] by simp
    ultimately show ?thesis
      using False 1
      by (simp add: flatten_loop.simps [of repl p cs] Let_def scan.find_non_drop del: drop_drop)
  qed
qed

lemma length_flatten_ref:
  "length (flatten_ref repl p cs) \<le> length cs * (if length repl \<noteq> 0 then length repl else 1)"
proof (induction repl p cs rule: flatten_ref.induct)
  case (1 repl p)
  then show ?case by simp
next
  case (2 repl p c cs)
  define r where "r = (if length repl \<noteq> 0 then length repl else 1)"
  note IH = "2.IH" [folded r_def]
  have r: "length repl \<le> r" "1 \<le> r" by (auto simp: r_def Suc_le_eq)
  have mono: "length (dropWhile p cs) * r \<le> length cs * r"
    by (intro mult_right_mono) (auto simp: length_dropWhile_le)
  have "length (flatten_ref repl p (c # cs)) \<le> length (c # cs) * r"
  proof (cases "p c")
    case True
    with IH(1) mono have "length (flatten_ref repl p (dropWhile p cs)) \<le> length cs * r"
      by (meson order_trans)
    with True r(1) show ?thesis by simp
  next
    case False
    with IH(2) r(2) show ?thesis by simp
  qed
  then show ?case by (simp only: r_def)
qed

lemma set_flatten_ref: "set (flatten_ref repl p cs) \<subseteq> set repl \<union> {c \<in> set cs. \<not> p c}"
proof (induction repl p cs rule: flatten_ref.induct)
  case (2 repl p c cs)
  have "set (dropWhile p cs) \<subseteq> set cs" using set_dropWhileD by fast
  then show ?case using 2 by (cases "p c") auto
qed simp

section \<open>Caseless comparison\<close>

text \<open>
  \<^verbatim>\<open>Caseless\<close> keeps a substring.  The pointer comparisons of the source only skip loops over
  two views of the same bytes, on which the loops find no difference.
\<close>

record Caseless =
  caseless_str :: bytes

fun caseless_compare_loop :: "nat \<Rightarrow> bytes \<Rightarrow> bytes \<Rightarrow> int" where
  "caseless_compare_loop 0 s1 s2 = 0"
| "caseless_compare_loop (Suc len) s1 s2 =
     (let result = sint (ASCII_TOLOWER_TABLE ! unat (hd s1)) -
                   sint (ASCII_TOLOWER_TABLE ! unat (hd s2))
      in if result \<noteq> 0 then result else caseless_compare_loop len (tl s1) (tl s2))"

definition caseless_compare :: "Caseless \<Rightarrow> bytes \<Rightarrow> int" where
  "caseless_compare this str =
     (let len1 = length (caseless_str this); len2 = length str; len = min len1 len2;
          result = (if len \<noteq> 0 then caseless_compare_loop len (caseless_str this) str else 0)
      in if result \<noteq> 0 then result
         else if len1 \<noteq> len2 then (if len1 < len2 then -1 else 1) else 0)"

fun caseless_equal_loop :: "nat \<Rightarrow> bytes \<Rightarrow> bytes \<Rightarrow> bool" where
  "caseless_equal_loop 0 s1 s2 = True"
| "caseless_equal_loop (Suc len) s1 s2 =
     (if ASCII_TOLOWER_TABLE ! unat (hd s1) = ASCII_TOLOWER_TABLE ! unat (hd s2)
      then caseless_equal_loop len (tl s1) (tl s2) else False)"

definition caseless_equal :: "Caseless \<Rightarrow> bytes \<Rightarrow> bool" where
  "caseless_equal this str =
     (if length str \<noteq> length (caseless_str this) then False
      else if length str = 0 then True
      else caseless_equal_loop (length str) str (caseless_str this))"

definition caseless_start :: "Caseless \<Rightarrow> bytes \<Rightarrow> bool" where
  "caseless_start this str = caseless_equal this (take (length (caseless_str this)) str)"

lemma caseless_equal_loop_eq:
  "length s1 = n \<Longrightarrow> length s2 = n \<Longrightarrow>
   caseless_equal_loop n s1 s2 \<longleftrightarrow> map to_lower s1 = map to_lower s2"
proof (induction n arbitrary: s1 s2)
  case (Suc n)
  then obtain a as b bs where "s1 = a # as" "s2 = b # bs"
    by (metis length_Suc_conv)
  with Suc show ?case by (simp add: to_lower_def)
qed simp

lemma caseless_equal_iff:
  "caseless_equal this str \<longleftrightarrow> map to_lower str = map to_lower (caseless_str this)"
proof (cases "length str = length (caseless_str this)")
  case True
  then show ?thesis by (auto simp: caseless_equal_def caseless_equal_loop_eq)
next
  case False
  then have "map to_lower str \<noteq> map to_lower (caseless_str this)"
    by (metis length_map)
  with False show ?thesis by (simp add: caseless_equal_def)
qed

lemma caseless_compare_loop_eq_0:
  "n \<le> length s1 \<Longrightarrow> n \<le> length s2 \<Longrightarrow>
   caseless_compare_loop n s1 s2 = 0 \<longleftrightarrow> map to_lower (take n s1) = map to_lower (take n s2)"
proof (induction n arbitrary: s1 s2)
  case (Suc n)
  then obtain a as b bs where "s1 = a # as" "s2 = b # bs"
    by (metis Suc_le_length_iff)
  with Suc show ?case by (simp add: to_lower_def Let_def)
qed simp

lemma caseless_compare_loop_swap:
  "caseless_compare_loop n s1 s2 = - caseless_compare_loop n s2 s1"
  by (induction n s1 s2 rule: caseless_compare_loop.induct) (auto simp: Let_def)

lemma caseless_compare_eq_0:
  "caseless_compare this str = 0 \<longleftrightarrow> map to_lower str = map to_lower (caseless_str this)"
proof (cases "length str = length (caseless_str this)")
  case True
  then show ?thesis
    by (auto simp: caseless_compare_def Let_def caseless_compare_loop_eq_0)
next
  case False
  then have "map to_lower str \<noteq> map to_lower (caseless_str this)"
    by (metis length_map)
  with False show ?thesis by (auto simp: caseless_compare_def Let_def)
qed

lemma caseless_compare_swap:
  "caseless_compare \<lparr>caseless_str = s\<rparr> t = - caseless_compare \<lparr>caseless_str = t\<rparr> s"
  using caseless_compare_loop_swap [of "min (length s) (length t)" s t]
  by (auto simp: caseless_compare_def Let_def min.commute)

section \<open>Hexadecimal digits\<close>

definition hex_to_int :: "byte \<Rightarrow> byte" where
  "hex_to_int c = (if c \<le>s ch CHR ''9'' then c - ch CHR ''0'' else (c AND 0x0F) + 9)"

definition hex_to_char :: "byte \<Rightarrow> byte \<Rightarrow> byte" where
  "hex_to_char major minor = push_bit 4 (hex_to_int major) OR hex_to_int minor"

fun hex_to_integer_loop :: "nat \<Rightarrow> nat \<Rightarrow> bytes \<Rightarrow> 'a::len word \<Rightarrow> 'a word" where
  "hex_to_integer_loop 0 i dat value = value"
| "hex_to_integer_loop (Suc n) i dat value =
     (let value = value OR push_bit (i + 4) (ucast (hex_to_int (hd dat)));
          value = value OR push_bit i (ucast (hex_to_int (hd (tl dat))))
      in hex_to_integer_loop n (i + 8) (tl (tl dat)) value)"

definition hex_to_integer :: "bytes \<Rightarrow> 'a::len word" where
  "hex_to_integer dat = hex_to_integer_loop (LENGTH('a) div 8) 0 dat 0"

fun hex_to_buf :: "bytes \<Rightarrow> bytes" where
  "hex_to_buf (a # b # dat) = hex_to_char a b # hex_to_buf dat"
| "hex_to_buf dat = []"

section \<open>Facts about the tables and categories\<close>

lemma fill_range_step:
  assumes "c \<noteq> (till :: byte)"
  shows "x = c \<or> x - (c + 1) \<le> till - (c + 1) \<longleftrightarrow> x - c \<le> till - c"
proof (cases "x = c")
  case False
  then have "x - c \<noteq> 0" "till - c \<noteq> 0" using assms by auto
  then have "unat (x - c - 1) = unat (x - c) - 1" "unat (till - c - 1) = unat (till - c) - 1"
    and "0 < unat (x - c)" "0 < unat (till - c)"
    by (simp_all add: unat_minus_one unat_gt_0)
  then have "x - c - 1 \<le> till - c - 1 \<longleftrightarrow> x - c \<le> till - c"
    unfolding word_le_nat_alt by linarith
  with False show ?thesis by (simp add: algebra_simps)
qed simp

lemma fill_range_iff: "fill_range t c till x \<longleftrightarrow> t x \<or> x - c \<le> till - c"
proof (induction t c till rule: fill_range.induct)
  case (1 t c till)
  show ?case
  proof (cases "c = till")
    case True
    then show ?thesis by (auto simp: fill_range.simps [of t till till])
  next
    case False
    then show ?thesis
      using 1 [OF refl False] fill_range_step [OF False, of x]
      by (simp add: fill_range.simps [of t c till] Let_def fun_upd_def) blast
  qed
qed

lemma fill_range_eq: "fill_range t c till = (\<lambda>x. t x \<or> x - c \<le> till - c)"
  by (rule ext) (rule fill_range_iff)

lemma byte_interval: "a \<le> b \<Longrightarrow> x - a \<le> b - a \<longleftrightarrow> a \<le> x \<and> x \<le> b"
  for a b x :: byte
  by unat_arith

lemmas range_0_9 = byte_interval [of "0x30" "0x39", simplified]
lemmas range_A_F = byte_interval [of "0x41" "0x46", simplified]
lemmas range_A_Z = byte_interval [of "0x41" "0x5A", simplified]
lemmas range_a_f = byte_interval [of "0x61" "0x66", simplified]
lemmas range_a_z = byte_interval [of "0x61" "0x7A", simplified]
lemmas ranges = range_0_9 range_A_F range_A_Z range_a_f range_a_z
lemmas char_table_simps = char_table_def fill_range_eq ranges

lemma ALPHA_iff [category_simps]:
  "ALPHA c \<longleftrightarrow> 0x41 \<le> c \<and> c \<le> 0x5A \<or> 0x61 \<le> c \<and> c \<le> 0x7A"
  by (auto simp: ALPHA_def char_table_simps)

lemma NUMBER_iff [category_simps]: "NUMBER c \<longleftrightarrow> 0x30 \<le> c \<and> c \<le> 0x39"
  by (auto simp: NUMBER_def char_table_simps)

lemma HEX_NUMBER_iff [category_simps]:
  "HEX_NUMBER c \<longleftrightarrow> 0x30 \<le> c \<and> c \<le> 0x39 \<or> 0x41 \<le> c \<and> c \<le> 0x46 \<or> 0x61 \<le> c \<and> c \<le> 0x66"
  by (auto simp: HEX_NUMBER_def char_table_simps)

lemma SPACE_iff [category_simps]: "SPACE c \<longleftrightarrow> c = 0x20 \<or> 0x09 \<le> c \<and> c \<le> 0x0D"
  by (simp add: SPACE_def char_table_predicate_def isspace_def word_le_def word_uint_eq_iff)

lemma ASCII_TOLOWER_TABLE_eq:
  "ASCII_TOLOWER_TABLE =
   map (\<lambda>n. word_of_nat (if 0x41 \<le> n \<and> n \<le> 0x5A then n + 0x20 else n)) [0..<256]"
  unfolding upt_256 ASCII_TOLOWER_TABLE_def by simp

lemma ASCII_TOUPPER_TABLE_eq:
  "ASCII_TOUPPER_TABLE =
   map (\<lambda>n. word_of_nat (if 0x61 \<le> n \<and> n \<le> 0x7A then n - 0x20 else n)) [0..<256]"
  unfolding upt_256 ASCII_TOUPPER_TABLE_def by simp

lemma to_lower_eq: "to_lower c = (if 0x41 \<le> c \<and> c \<le> 0x5A then c + 0x20 else c)"
  by (simp add: to_lower_def ASCII_TOLOWER_TABLE_eq word_le_nat_alt)

lemma to_upper_eq: "to_upper c = (if 0x61 \<le> c \<and> c \<le> 0x7A then c - 0x20 else c)"
  by (simp add: to_upper_def ASCII_TOUPPER_TABLE_eq word_le_nat_alt of_nat_diff)

lemma hex_digit_roundtrip:
  assumes "v < 16"
  shows "HEX_NUMBER (HEX_DIGITS ! v)" and "hex_to_int (HEX_DIGITS ! v) = word_of_nat v"
proof -
  have "list_all (\<lambda>v. HEX_NUMBER (HEX_DIGITS ! v) \<and> hex_to_int (HEX_DIGITS ! v) = word_of_nat v)
      [0..<16]"
    by (simp add: upt_rec HEX_DIGITS_def HEX_NUMBER_iff hex_to_int_def)
  with assms show "HEX_NUMBER (HEX_DIGITS ! v)" "hex_to_int (HEX_DIGITS ! v) = word_of_nat v"
    by (simp_all add: list_all_iff)
qed

lemma hex_to_char_digits:
  "hex_to_char (HEX_DIGITS ! unat (drop_bit 4 c)) (HEX_DIGITS ! unat (c AND 0x0F)) = c"
proof -
  have "unat (drop_bit 4 c) < 16"
    by (simp only: unat_drop_bit_div) (simp add: less_mult_imp_div_less)
  moreover have "unat (c AND 0x0F) < 16"
    using word_and_mask_unat [of c 4] by (simp add: mask_eq_decr_exp)
  moreover have "push_bit 4 (drop_bit 4 c) OR (c AND 0x0F) = c"
    by (rule bit_word_eqI, simp add: bit_simps) (auto simp: less_Suc_eq numeral_eq_Suc)
  ultimately show ?thesis
    by (simp add: hex_to_char_def hex_digit_roundtrip)
qed

section \<open>Properties\<close>

text \<open>
  \<^verbatim>\<open>flatten\<close> replaces every maximal run of owned characters by one copy of the replacement
  (the reference definition), the result fits in the buffer the code allocates for it, and no
  owned character of the source survives.
\<close>

lemma flatten_correct:
  "flatten str repl p = flatten_ref repl p str \<and>
   length (flatten str repl p) \<le> flatten_capacity str repl \<and>
   set (flatten str repl p) \<subseteq> set repl \<union> {c \<in> set str. \<not> p c}"
  by (simp add: flatten_def flatten_loop_ref flatten_capacity_def set_flatten_ref
      length_flatten_ref [simplified])

lemma map_to_lower_take_eq_iff:
  "map to_lower (take (length p) s) = map to_lower p \<longleftrightarrow>
   (\<exists>q r. s = q @ r \<and> map to_lower q = map to_lower p)"
proof
  assume "map to_lower (take (length p) s) = map to_lower p"
  then show "\<exists>q r. s = q @ r \<and> map to_lower q = map to_lower p"
    by (intro exI [of _ "take (length p) s"] exI [of _ "drop (length p) s"]) simp
next
  assume "\<exists>q r. s = q @ r \<and> map to_lower q = map to_lower p"
  then obtain q r where "s = q @ r" and q: "map to_lower q = map to_lower p" by blast
  moreover from q have "length q = length p" by (metis length_map)
  ultimately show "map to_lower (take (length p) s) = map to_lower p" by simp
qed

text \<open>
  The caseless comparison is zero exactly when the caseless equality holds, which is
  equality after lower-casing A--Z alone; swapping the operands negates it; and \<^verbatim>\<open>start\<close> holds
  exactly when some prefix of the argument equals the stored string up to case.
\<close>

lemma caseless_comparison:
  "(caseless_compare \<lparr>caseless_str = s\<rparr> t = 0 \<longleftrightarrow> caseless_equal \<lparr>caseless_str = s\<rparr> t) \<and>
   (caseless_equal \<lparr>caseless_str = s\<rparr> t \<longleftrightarrow>
      map (\<lambda>c. if 0x41 \<le> c \<and> c \<le> 0x5A then c + 0x20 else c) s =
      map (\<lambda>c. if 0x41 \<le> c \<and> c \<le> 0x5A then c + 0x20 else c) t) \<and>
   caseless_compare \<lparr>caseless_str = s\<rparr> t = - caseless_compare \<lparr>caseless_str = t\<rparr> s \<and>
   (caseless_start \<lparr>caseless_str = s\<rparr> t \<longleftrightarrow>
      (\<exists>q r. t = q @ r \<and> caseless_equal \<lparr>caseless_str = s\<rparr> q))"
proof (intro conjI)
  show "caseless_compare \<lparr>caseless_str = s\<rparr> t = 0 \<longleftrightarrow> caseless_equal \<lparr>caseless_str = s\<rparr> t"
    by (simp add: caseless_compare_eq_0 caseless_equal_iff)
  have "map to_lower = map (\<lambda>c. if 0x41 \<le> c \<and> c \<le> 0x5A then c + 0x20 else c)"
    by (simp add: to_lower_eq fun_eq_iff)
  then show "caseless_equal \<lparr>caseless_str = s\<rparr> t \<longleftrightarrow>
      map (\<lambda>c. if 0x41 \<le> c \<and> c \<le> 0x5A then c + 0x20 else c) s =
      map (\<lambda>c. if 0x41 \<le> c \<and> c \<le> 0x5A then c + 0x20 else c) t"
    by (metis caseless_equal_iff Caseless.select_convs(1))
  show "caseless_compare \<lparr>caseless_str = s\<rparr> t = - caseless_compare \<lparr>caseless_str = t\<rparr> s"
    by (rule caseless_compare_swap)
  show "caseless_start \<lparr>caseless_str = s\<rparr> t \<longleftrightarrow>
      (\<exists>q r. t = q @ r \<and> caseless_equal \<lparr>caseless_str = s\<rparr> q)"
    by (simp add: caseless_start_def caseless_equal_iff map_to_lower_take_eq_iff)
qed

end
