(* ===== verification/Base64.thy ===== *)
theory Base64
  imports Ascii_String_Manip
begin

text \<open>
  The Base64 part of \<^verbatim>\<open>src/src/String/StringManip.cpp\<close> and \<^verbatim>\<open>StringManip.ipp\<close>: the two alphabets
  and the decoding table, the encoder \<^verbatim>\<open>func_encode\<close> with its two instances, the decoding
  iterator (a suffix of the source: its \<^verbatim>\<open>ptr_\<close> and \<^verbatim>\<open>length_\<close>), the decoder with its
  padding check, and the three size functions.  \<open>base64_alphabet\<close> and \<open>base64_codec\<close> state
  what the decoder needs of an alphabet and of a padding character; both encoders of the
  library are interpretations.
\<close>

section \<open>Tables\<close>

definition STD_ENCODE :: bytes where
  "STD_ENCODE = chars ''ABCDEFGHIJKLMNOPQRSTUVWXYZabcdefghijklmnopqrstuvwxyz0123456789+/''"

definition MOD_ENCODE :: bytes where
  "MOD_ENCODE = chars ''ABCDEFGHIJKLMNOPQRSTUVWXYZabcdefghijklmnopqrstuvwxyz0123456789-_''"

definition PADDING :: byte where
  "PADDING = ch CHR ''.''"

definition std_encode :: "byte \<Rightarrow> byte" where
  "std_encode c = STD_ENCODE ! unat (c AND 0x3F)"

definition mod_encode :: "byte \<Rightarrow> byte" where
  "mod_encode c = MOD_ENCODE ! unat (c AND 0x3F)"

definition DECODE :: "byte list" where
  "DECODE =
   [0x40, 0x7F, 0x7F, 0x7F, 0x7F, 0x7F, 0x7F, 0x7F, 0x7F, 0x7F, 0x7F, 0x7F, 0x7F, 0x7F, 0x7F, 0x7F,
    0x7F, 0x7F, 0x7F, 0x7F, 0x7F, 0x7F, 0x7F, 0x7F, 0x7F, 0x7F, 0x7F, 0x7F, 0x7F, 0x7F, 0x7F, 0x7F,
    0x7F, 0x7F, 0x7F, 0x7F, 0x7F, 0x7F, 0x7F, 0x7F, 0x7F, 0x7F, 0x7F, 0x3E, 0x7F, 0x3E, 0x40, 0x3F,
    0x34, 0x35, 0x36, 0x37, 0x38, 0x39, 0x3A, 0x3B, 0x3C, 0x3D, 0x7F, 0x7F, 0x7F, 0x7F, 0x7F, 0x7F,
    0x7F, 0x00, 0x01, 0x02, 0x03, 0x04, 0x05, 0x06, 0x07, 0x08, 0x09, 0x0A, 0x0B, 0x0C, 0x0D, 0x0E,
    0x0F, 0x10, 0x11, 0x12, 0x13, 0x14, 0x15, 0x16, 0x17, 0x18, 0x19, 0x7F, 0x7F, 0x7F, 0x7F, 0x3F,
    0x7F, 0x1A, 0x1B, 0x1C, 0x1D, 0x1E, 0x1F, 0x20, 0x21, 0x22, 0x23, 0x24, 0x25, 0x26, 0x27, 0x28,
    0x29, 0x2A, 0x2B, 0x2C, 0x2D, 0x2E, 0x2F, 0x30, 0x31, 0x32, 0x33, 0x7F, 0x40, 0x7F, 0x7F, 0x7F,
    0x7F, 0x7F, 0x7F, 0x7F, 0x7F, 0x7F, 0x7F, 0x7F, 0x7F, 0x7F, 0x7F, 0x7F, 0x7F, 0x7F, 0x7F, 0x7F,
    0x7F, 0x7F, 0x7F, 0x7F, 0x7F, 0x7F, 0x7F, 0x7F, 0x7F, 0x7F, 0x7F, 0x7F, 0x7F, 0x7F, 0x7F, 0x7F,
    0x7F, 0x7F, 0x7F, 0x7F, 0x7F, 0x7F, 0x7F, 0x7F, 0x7F, 0x7F, 0x7F, 0x7F, 0x7F, 0x7F, 0x7F, 0x7F,
    0x7F, 0x7F, 0x7F, 0x7F, 0x7F, 0x7F, 0x7F, 0x7F, 0x7F, 0x7F, 0x7F, 0x7F, 0x7F, 0x7F, 0x7F, 0x7F,
    0x7F, 0x7F, 0x7F, 0x7F, 0x7F, 0x7F, 0x7F, 0x7F, 0x7F, 0x7F, 0x7F, 0x7F, 0x7F, 0x7F, 0x7F, 0x7F,
    0x7F, 0x7F, 0x7F, 0x7F, 0x7F, 0x7F, 0x7F, 0x7F, 0x7F, 0x7F, 0x7F, 0x7F, 0x7F, 0x7F, 0x7F, 0x7F,
    0x7F, 0x7F, 0x7F, 0x7F, 0x7F, 0x7F, 0x7F, 0x7F, 0x7F, 0x7F, 0x7F, 0x7F, 0x7F, 0x7F, 0x7F, 0x7F,
    0x7F, 0x7F, 0x7F, 0x7F, 0x7F, 0x7F, 0x7F, 0x7F, 0x7F, 0x7F, 0x7F, 0x7F, 0x7F, 0x7F, 0x7F, 0x7F]"

section \<open>Encoding\<close>

fun func_encode_loop :: "bool \<Rightarrow> (byte \<Rightarrow> byte) \<Rightarrow> byte \<Rightarrow> byte \<Rightarrow> bytes \<Rightarrow> bytes" where
  "func_encode_loop padding encode PAD fill (p0 # p1 # p2 # p) =
     [encode (drop_bit 2 p0),
      encode ((push_bit 4 p0 AND 0x30) OR (drop_bit 4 p1 AND 0x0F)),
      encode ((push_bit 2 p1 AND 0x3C) OR (drop_bit 6 p2 AND 0x03)),
      encode (p2 AND 0x3F)] @ func_encode_loop padding encode PAD fill p"
| "func_encode_loop padding encode PAD fill [c1] =
     take (if padding then 4 else 2)
       [encode (drop_bit 2 c1), encode ((push_bit 4 c1 AND 0x30) OR (fill AND 0x0F)), PAD, PAD]"
| "func_encode_loop padding encode PAD fill [c1, c2] =
     take (if padding then 4 else 3)
       [encode (drop_bit 2 c1),
        encode ((push_bit 4 c1 AND 0x30) OR (drop_bit 4 c2 AND 0x0F)),
        encode ((push_bit 2 c2 AND 0x3C) OR (fill AND 0x03)), PAD]"
| "func_encode_loop padding encode PAD fill [] = []"

definition func_encode :: "bytes \<Rightarrow> bool \<Rightarrow> (byte \<Rightarrow> byte) \<Rightarrow> byte \<Rightarrow> byte \<Rightarrow> bytes" where
  "func_encode src padding encode PAD fill =
     (if length src = 0 then [] else func_encode_loop padding encode PAD fill src)"

definition base64_encode :: "bytes \<Rightarrow> bool \<Rightarrow> bytes" where
  "base64_encode src padding = func_encode src padding std_encode (ch CHR ''='') 0"

definition base64mod_encode :: "bytes \<Rightarrow> bool \<Rightarrow> byte \<Rightarrow> bytes" where
  "base64mod_encode src padding fill = func_encode src padding mod_encode PADDING fill"

section \<open>Decoding\<close>

text \<open>\<^verbatim>\<open>Iterator::operator *\<close>: the null character's entry stands for the end of the source.\<close>

definition iter_deref :: "bytes \<Rightarrow> byte" where
  "iter_deref p = DECODE ! (if length p = 0 then 0 else unat (hd p))"

lemma iter_deref_simps [simp]: "iter_deref [] = 0x40" "iter_deref (c # p) = DECODE ! unat c"
  by (simp_all add: iter_deref_def DECODE_def)

function skip_blanks :: "bytes \<Rightarrow> byte \<times> bytes" where
  "skip_blanks p =
     (let c = iter_deref p in if c = 0x7F then skip_blanks (tl p) else (c, p))"
  by pat_completeness auto
termination
proof (relation "measure length", goal_cases)
  case (2 p c)
  then show ?case by (cases p) auto
qed simp

declare skip_blanks.simps [simp del]

text \<open>\<^verbatim>\<open>strncmp(s, t, n) == 0\<close> for readable \<open>s\<close> of at least \<open>n\<close> bytes and a literal \<open>t\<close>.\<close>

fun strncmp_eq :: "bytes \<Rightarrow> bytes \<Rightarrow> nat \<Rightarrow> bool" where
  "strncmp_eq s t 0 = True"
| "strncmp_eq (a # s) [] (Suc n) = (a = 0)"
| "strncmp_eq (a # s) (b # t) (Suc n) = (a = b \<and> (a = 0 \<or> strncmp_eq s t n))"
| "strncmp_eq [] t (Suc n) = False"

definition PAD1 :: bytes where "PAD1 = chars ''......''"

definition PAD2 :: bytes where "PAD2 = chars ''||||||''"

definition PAD3 :: bytes where "PAD3 = chars ''======''"

text \<open>\<open>offset\<close> is \<^verbatim>\<open>ptr_ - src\<close>; the code takes the negated difference modulo four.\<close>

definition check_padding :: "nat \<Rightarrow> bytes \<Rightarrow> unit result" where
  "check_padding offset p =
     (let pad_size = nat ((- int offset) mod 4); len = length p
      in if (len \<noteq> pad_size \<and> len \<noteq> pad_size + 4) \<or>
            (\<not> strncmp_eq p PAD1 len \<and> \<not> strncmp_eq p PAD2 len \<and> \<not> strncmp_eq p PAD3 len)
         then Inl (InvalidFormat ''invalid format. Padding characters expected.'')
         else Inr ())"

lemma skip_blanks_length: "length (snd (skip_blanks p)) \<le> length p"
proof (induction p rule: skip_blanks.induct)
  case (1 p)
  show ?case
    using 1 by (cases "iter_deref p = 0x7F") (auto simp: skip_blanks.simps [of p] Let_def)
qed

lemma skip_blanks_nonempty: "skip_blanks p = (c, q) \<Longrightarrow> c \<noteq> 0x40 \<Longrightarrow> q \<noteq> []"
proof (induction p rule: skip_blanks.induct)
  case (1 p)
  show ?case
  proof (cases "iter_deref p = 0x7F")
    case True
    with 1 show ?thesis by (simp add: skip_blanks.simps [of p] Let_def)
  next
    case False
    with 1(2-) show ?thesis by (auto simp: skip_blanks.simps [of p] Let_def)
  qed
qed

function base64mod_decode_loop ::
  "bytes \<Rightarrow> byte option \<Rightarrow> bytes \<Rightarrow> (bytes \<times> byte option \<times> bytes) result" where
  "base64mod_decode_loop dst fill p =
     (if length p = 0 then Inr (dst, fill, p)
      else let (c1, p) = skip_blanks p
        in if c1 = 0x40 then Inr (dst, fill, p)
           else let (c2, p) = skip_blanks (tl p)
             in if c2 = 0x40 then Inl (InvalidFormat ''invalid format. Unexpected symbol.'')
                else let (c3, p) = skip_blanks (tl p)
                  in if c3 = 0x40 then
                       (if fill = None \<and> c2 AND 0x0F \<noteq> 0
                        then Inl (InvalidFormat ''invalid format. Unexpected end of data.'')
                        else Inr (dst @ [push_bit 2 c1 OR drop_bit 4 c2],
                                  map_option (\<lambda>_. c2 AND 0x0F) fill, p))
                     else let (c4, p) = skip_blanks (tl p);
                              dst = dst @ [push_bit 2 c1 OR drop_bit 4 c2, push_bit 4 c2 OR drop_bit 2 c3]
                       in if c4 = 0x40 then
                            (if fill = None \<and> c3 AND 0x03 \<noteq> 0
                             then Inl (InvalidFormat ''invalid format. Unexpected end of data.'')
                             else Inr (dst, map_option (\<lambda>_. c3 AND 0x03) fill, p))
                          else base64mod_decode_loop (dst @ [push_bit 6 c3 OR c4]) fill (tl p))"
  by pat_completeness auto
termination
proof (relation "measure (\<lambda>(dst, fill, p). length p)", goal_cases)
  case (2 dst fill p x1 c1 p1 x2 c2 p2 x3 c3 p3 x4 c4 p4 dst')
  have le: "length q' \<le> length q" if "(c, q') = skip_blanks q" for c q q'
    using skip_blanks_length [of q] that by (metis snd_conv)
  have "length (tl p4) \<le> length p4" "length (tl p3) \<le> length p3" "length (tl p2) \<le> length p2" by simp_all
  moreover have "p1 \<noteq> []" using 2 skip_blanks_nonempty by metis
  then have "length (tl p1) < length p1" by simp
  moreover have "length p4 \<le> length (tl p3)" "length p3 \<le> length (tl p2)"
    "length p2 \<le> length (tl p1)" "length p1 \<le> length p"
    using 2 le by metis+
  ultimately show ?case by simp
qed simp

declare base64mod_decode_loop.simps [simp del]

text \<open>
  \<open>fill\<close> is the optional out parameter: \<open>None\<close> for the null pointer.  The result is the
  decoded text and the new content of \<open>fill\<close>; on an exception \<^verbatim>\<open>dest\<close> is untouched.
\<close>

definition base64mod_decode :: "bytes \<Rightarrow> bool \<Rightarrow> byte option \<Rightarrow> (bytes \<times> byte option) result" where
  "base64mod_decode src padding fill =
     rbind (base64mod_decode_loop [] fill src) (\<lambda>(dst, fill, p).
       if padding \<or> 0 < length p
       then rmap (\<lambda>_. (dst, fill)) (check_padding (length src - length p) p)
       else Inr (dst, fill))"

section \<open>Sizes\<close>

definition base64mod_encoded_size :: "nat \<Rightarrow> bool \<Rightarrow> nat" where
  "base64mod_encoded_size original_size padding =
     (if padding then (original_size + 2) div 3 * 4
      else original_size div 3 * 4 +
        (if original_size mod 3 \<noteq> 0 then original_size mod 3 + 1 else 0))"

definition base64mod_max_decoded_size :: "nat \<Rightarrow> nat" where
  "base64mod_max_decoded_size original_size = (original_size + 3) div 4 * 3"

definition base64mod_fill_size :: "nat \<Rightarrow> nat" where
  "base64mod_fill_size original_size = (drop_bit (original_size mod 3) 8) AND 6"

section \<open>Correctness\<close>

lemma unat_and_3F: "unat (x AND 0x3F) < 64" for x :: byte
  using word_and_mask_unat [of x 6] by (simp add: mask_eq_decr_exp)

lemma DECODE_alphabets:
  "map (\<lambda>c. DECODE ! unat c) STD_ENCODE = map word_of_nat [0..<64]"
  "map (\<lambda>c. DECODE ! unat c) MOD_ENCODE = map word_of_nat [0..<64]"
  by (simp_all add: STD_ENCODE_def MOD_ENCODE_def DECODE_def upt_rec)

lemma length_alphabets [simp]: "length STD_ENCODE = 64" "length MOD_ENCODE = 64"
  by (simp_all add: STD_ENCODE_def MOD_ENCODE_def)

lemma DECODE_encode:
  "DECODE ! unat (std_encode x) = x AND 0x3F" "DECODE ! unat (mod_encode x) = x AND 0x3F"
proof -
  have "map (\<lambda>c. DECODE ! unat c) STD_ENCODE ! unat (x AND 0x3F) = x AND 0x3F"
    "map (\<lambda>c. DECODE ! unat c) MOD_ENCODE ! unat (x AND 0x3F) = x AND 0x3F"
    unfolding DECODE_alphabets using unat_and_3F [of x] by simp_all
  then show "DECODE ! unat (std_encode x) = x AND 0x3F" "DECODE ! unat (mod_encode x) = x AND 0x3F"
    using unat_and_3F [of x] by (simp_all add: std_encode_def mod_encode_def)
qed

text \<open>What the decoder needs of an alphabet: the table inverts it.\<close>

locale base64_alphabet =
  fixes encode :: "byte \<Rightarrow> byte"
  assumes decode_encode: "DECODE ! unat (encode x) = x AND 0x3F"
begin

lemma encode_not_special: "DECODE ! unat (encode x) \<noteq> 0x40" "DECODE ! unat (encode x) \<noteq> 0x7F"
proof -
  have "unat (x AND 0x3F) \<noteq> unat (0x40 :: byte)" "unat (x AND 0x3F) \<noteq> unat (0x7F :: byte)"
    using unat_and_3F [of x] by simp_all
  then show "DECODE ! unat (encode x) \<noteq> 0x40" "DECODE ! unat (encode x) \<noteq> 0x7F"
    unfolding decode_encode by metis+
qed

lemma skip_blanks_encode [simp]: "skip_blanks (encode x # p) = (x AND 0x3F, encode x # p)"
  using encode_not_special [of x]
  by (simp add: skip_blanks.simps [of "encode x # p"] Let_def decode_encode)

lemma and_3F_not_end [simp]: "x AND 0x3F \<noteq> (0x40 :: byte)"
  using encode_not_special(1) [of x] by (simp add: decode_encode)

end

interpretation std_alphabet: base64_alphabet std_encode
  by unfold_locales (rule DECODE_encode)

interpretation mod_alphabet: base64_alphabet mod_encode
  by unfold_locales (rule DECODE_encode)

subsection \<open>Putting the octets together again\<close>

text \<open>The shifted pieces of an octet, in the form the simplifier leaves them in.\<close>

lemma octets_joined [codec_simps]:
  "push_bit 2 (drop_bit 2 a) AND 252 OR drop_bit 4 (push_bit 4 a) AND 3 = (a :: byte)"
  "(push_bit 4 (drop_bit 4 a) AND 240) AND 1008 OR drop_bit 2 (push_bit 2 a) AND 15 = (a :: byte)"
  "(push_bit 6 (drop_bit 6 a) AND 192) AND 4032 OR a AND 63 = (a :: byte)"
  by (rule bit_word_eqI, simp add: bit_simps, (auto simp: less_Suc_eq numeral_eq_Suc)[1])+

lemma fill_left [codec_simps]:
  "((push_bit 4 a AND 0x30 OR f AND 0x0F) AND 0x3F) AND 0x0F = (f :: byte) AND 0x0F"
  "((push_bit 2 a AND 0x3C OR f AND 0x03) AND 0x3F) AND 0x03 = (f :: byte) AND 0x03"
  by (rule bit_word_eqI, simp add: bit_simps, auto simp: less_Suc_eq numeral_eq_Suc)+

subsection \<open>The codec\<close>

text \<open>The spare bits of the last character, as the encoder stores and the decoder returns them.\<close>

definition fill_out :: "nat \<Rightarrow> byte \<Rightarrow> byte option \<Rightarrow> byte option" where
  "fill_out n fill f =
     (if base64mod_fill_size n = 0 then f
      else map_option (\<lambda>_. fill AND mask (base64mod_fill_size n)) f)"

definition fill_ok :: "nat \<Rightarrow> byte \<Rightarrow> byte option \<Rightarrow> bool" where
  "fill_ok n fill f \<longleftrightarrow> f \<noteq> None \<or> fill AND mask (base64mod_fill_size n) = 0"

lemma base64mod_fill_size_step: "base64mod_fill_size (Suc (Suc (Suc n))) = base64mod_fill_size n"
proof -
  have "Suc (Suc (Suc n)) mod 3 = n mod 3"
    by presburger
  then show ?thesis by (simp add: base64mod_fill_size_def)
qed

lemma base64mod_fill_size_small [simp]:
  "base64mod_fill_size 0 = 0" "base64mod_fill_size (Suc 0) = 4" "base64mod_fill_size (Suc (Suc 0)) = 2"
  by (simp_all add: base64mod_fill_size_def drop_bit_eq_div numeral_2_eq_2 [symmetric])

lemma fill_simps [simp]:
  "fill_out (Suc (Suc (Suc n))) = fill_out n" "fill_ok (Suc (Suc (Suc n))) = fill_ok n"
  "fill_out 0 fill f = f" "fill_ok 0 fill f"
  "fill_out (Suc 0) fill f = map_option (\<lambda>_. fill AND 0x0F) f"
  "fill_out (Suc (Suc 0)) fill f = map_option (\<lambda>_. fill AND 0x03) f"
  "fill_ok (Suc 0) fill f \<longleftrightarrow> f \<noteq> None \<or> fill AND 0x0F = 0"
  "fill_ok (Suc (Suc 0)) fill f \<longleftrightarrow> f \<noteq> None \<or> fill AND 0x03 = 0"
  by (simp_all add: fill_out_def fill_ok_def base64mod_fill_size_step mask_eq_decr_exp fun_eq_iff)

lemma list_triple_induct [case_names 0 1 2 3]:
  assumes "P []" and "\<And>a. P [a]" and "\<And>a b. P [a, b]"
    and "\<And>a b c xs. P xs \<Longrightarrow> P (a # b # c # xs)"
  shows "P xs"
proof (induction xs rule: length_induct)
  case (1 xs)
  then show ?case
    using assms by (cases xs; cases "tl xs"; cases "tl (tl xs)") auto
qed

text \<open>What the decoder leaves of the padding: nothing when its character is a blank.\<close>

definition pads_left :: "byte \<Rightarrow> bytes \<Rightarrow> bytes" where
  "pads_left PAD q = (if PAD = PADDING then q else [])"

locale base64_codec = base64_alphabet +
  fixes PAD :: byte
  assumes pad: "DECODE ! unat PAD = 0x7F \<or> PAD = PADDING"
begin

text \<open>A tail of padding characters ends the data.\<close>

lemma skip_blanks_pads [simp]:
  "skip_blanks [] = (0x40, [])"
  "skip_blanks [PAD] = (0x40, pads_left PAD [PAD])"
  "skip_blanks [PAD, PAD] = (0x40, pads_left PAD [PAD, PAD])"
  using pad by (auto simp: skip_blanks.simps pads_left_def DECODE_def PADDING_def Let_def)

lemma pads_left_replicate:
  assumes "n \<le> 2"
  obtains k where "k \<le> 2" and "pads_left PAD (replicate n PAD) = replicate k PAD"
    and "k \<noteq> 0 \<longrightarrow> PAD = PADDING"
proof (cases "PAD = PADDING")
  case True
  then show ?thesis using assms that [of n] by (simp add: pads_left_def)
next
  case False
  then show ?thesis by (intro that [of 0]) (simp_all add: pads_left_def)
qed

lemma decode_loop_encode:
  assumes "fill_ok (length src) fill f"
  shows "\<exists>k\<le>2. base64mod_decode_loop dst f (func_encode_loop padding encode PAD fill src) =
      Inr (dst @ src, fill_out (length src) fill f, replicate k PAD) \<and>
    (padding \<longrightarrow> length (func_encode_loop padding encode PAD fill src) mod 4 = 0) \<and>
    k \<le> length (func_encode_loop padding encode PAD fill src) \<and>
    (k \<noteq> 0 \<longrightarrow> padding \<and> PAD = PADDING)"
  using assms
proof (induction src arbitrary: dst rule: list_triple_induct)
  case 0
  then show ?case by (intro exI [of _ 0]) (simp add: base64mod_decode_loop.simps)
next
  case (1 a)
  show ?case
  proof (cases padding)
    case True
    obtain k where "k \<le> 2" "pads_left PAD [PAD, PAD] = replicate k PAD" "k \<noteq> 0 \<longrightarrow> PAD = PADDING"
      using pads_left_replicate [of 2] by (auto simp: numeral_2_eq_2)
    with True 1 show ?thesis
      by (intro exI [of _ k]) (simp add: base64mod_decode_loop.simps codec_simps)
  next
    case False
    with 1 show ?thesis
      by (intro exI [of _ 0]) (simp add: base64mod_decode_loop.simps codec_simps)
  qed
next
  case (2 a b)
  show ?case
  proof (cases padding)
    case True
    obtain k where "k \<le> 2" "pads_left PAD [PAD] = replicate k PAD" "k \<noteq> 0 \<longrightarrow> PAD = PADDING"
      using pads_left_replicate [of 1] by auto
    with True 2 show ?thesis
      by (intro exI [of _ k]) (simp add: base64mod_decode_loop.simps codec_simps)
  next
    case False
    with 2 show ?thesis
      by (intro exI [of _ 0]) (simp add: base64mod_decode_loop.simps codec_simps)
  qed
next
  case (3 a b c xs)
  have "fill_ok (length xs) fill f" using 3(2) by simp
  from "3.IH" [OF this, of "dst @ [a, b, c]"] obtain k where "k \<le> 2"
    "base64mod_decode_loop (dst @ [a, b, c]) f (func_encode_loop padding encode PAD fill xs) =
      Inr (dst @ a # b # c # xs, fill_out (length xs) fill f, replicate k PAD)"
    "padding \<longrightarrow> length (func_encode_loop padding encode PAD fill xs) mod 4 = 0"
    "k \<le> length (func_encode_loop padding encode PAD fill xs)" "k \<noteq> 0 \<longrightarrow> padding \<and> PAD = PADDING"
    by auto
  then show ?case
    by (intro exI [of _ k]) (simp add: base64mod_decode_loop.simps [of dst] codec_simps)
qed

lemma check_padding_left:
  assumes "k \<le> 2" and "k \<noteq> 0 \<longrightarrow> PAD = PADDING" and "n mod 4 = 0" and "k \<le> n"
  shows "check_padding (n - k) (replicate k PAD) = Inr ()"
proof -
  obtain j where j: "n = 4 * j" using assms(3) by auto
  have "(- int (n - k)) mod 4 = (int k + (- int j) * 4) mod 4"
    using assms(4) j by (simp add: algebra_simps)
  also have "\<dots> = int k" using assms(1) by (simp only: mod_mult_self1) simp
  finally have "nat ((- int (n - k)) mod 4) = k" by simp
  moreover have "strncmp_eq (replicate k PAD) PAD1 k"
    using assms(1,2) by (auto simp: le_Suc_eq numeral_2_eq_2 PAD1_def PADDING_def)
  ultimately show ?thesis by (simp add: check_padding_def Let_def)
qed

lemma decode_encode_all:
  assumes "fill_ok (length src) fill f" and "dpad \<longrightarrow> padding"
  shows "base64mod_decode (func_encode src padding encode PAD fill) dpad f =
    Inr (src, fill_out (length src) fill f)"
proof -
  let ?e = "func_encode_loop padding encode PAD fill src"
  have e: "func_encode src padding encode PAD fill = ?e"
    by (cases src) (simp_all add: func_encode_def)
  obtain k where k: "k \<le> 2" "base64mod_decode_loop [] f ?e =
      Inr (src, fill_out (length src) fill f, replicate k PAD)"
    "padding \<longrightarrow> length ?e mod 4 = 0" "k \<le> length ?e" "k \<noteq> 0 \<longrightarrow> padding \<and> PAD = PADDING"
    using decode_loop_encode [OF assms(1), of "[]" padding] by auto
  show ?thesis
  proof (cases "padding \<and> (dpad \<or> k \<noteq> 0)")
    case True
    with k have "check_padding (length ?e - k) (replicate k PAD) = Inr ()"
      by (intro check_padding_left) auto
    with True show ?thesis unfolding e base64mod_decode_def k(2) rbind_simps by simp
  next
    case False
    then have "k = 0" "\<not> dpad" using k(5) assms(2) by blast+
    then show ?thesis unfolding e base64mod_decode_def k(2) rbind_simps by simp
  qed
qed

end

interpretation base64_std: base64_codec std_encode "0x3D"
  by unfold_locales (simp add: DECODE_def)

interpretation base64_mod: base64_codec mod_encode PADDING
  by unfold_locales simp

lemma length_func_encode: "length (func_encode src padding encode PAD fill) =
    base64mod_encoded_size (length src) padding"
proof -
  have "length (func_encode_loop padding encode PAD fill src) =
      base64mod_encoded_size (length src) padding"
  proof (induction src rule: list_triple_induct)
    case (3 a b c xs)
    have "(Suc (Suc (Suc n)) + 2) div 3 = (n + 2) div 3 + 1" "Suc (Suc (Suc n)) div 3 = n div 3 + 1"
      "Suc (Suc (Suc n)) mod 3 = n mod 3" for n :: nat by presburger+
    with 3 show ?case by (simp add: base64mod_encoded_size_def)
  qed (auto simp: base64mod_encoded_size_def)
  then show ?thesis by (cases src) (simp_all add: func_encode_def base64mod_encoded_size_def)
qed

text \<open>
  C15: \<^verbatim>\<open>base64mod_decode\<close> gives back what \<^verbatim>\<open>base64mod_encode\<close> and \<^verbatim>\<open>base64_encode\<close> encoded, for every
  combination of the padding flags in which the decoder only asks for padding that was
  written, and the spare bits of the last character with it; the encoded size is
  \<^verbatim>\<open>base64mod_encoded_size\<close>.
\<close>

theorem base64_roundtrip:
  assumes "dpad \<longrightarrow> padding"
    and "f \<noteq> None \<or> fill AND mask (base64mod_fill_size (length src)) = 0"
  shows "base64mod_decode (base64mod_encode src padding fill) dpad f =
      Inr (src, if base64mod_fill_size (length src) = 0 then f
                else map_option (\<lambda>_. fill AND mask (base64mod_fill_size (length src))) f) \<and>
    rmap fst (base64mod_decode (base64_encode src padding) dpad f) = Inr src \<and>
    length (base64mod_encode src padding fill) = base64mod_encoded_size (length src) padding \<and>
    length (base64_encode src padding) = base64mod_encoded_size (length src) padding"
proof -
  have "fill_ok (length src) fill f" "fill_ok (length src) 0 f"
    using assms(2) by (simp_all add: fill_ok_def)
  then show ?thesis
    using assms(1)
    by (simp add: base64mod_encode_def base64_encode_def length_func_encode
        base64_mod.decode_encode_all base64_std.decode_encode_all fill_out_def rmap_def)
qed

theorem base64_roundtrip_witness:
  "base64mod_encode [0x66, 0x6F] True 3 = chars ''Zm_.'' \<and>
   base64mod_decode (chars ''Zm_.'') True (Some 0) = Inr ([0x66, 0x6F], Some 3)"
proof -
  have e: "base64mod_encode [0x66, 0x6F] True 3 = chars ''Zm_.''"
    by (simp add: base64mod_encode_def func_encode_def mod_encode_def MOD_ENCODE_def PADDING_def)
  moreover have "base64mod_decode (base64mod_encode [0x66, 0x6F] True 3) True (Some 0) =
      Inr ([0x66, 0x6F], Some (3 AND mask (base64mod_fill_size 2)))"
    using base64_roundtrip [of True True "Some 0" 3 "[0x66, 0x6F]"]
    by (simp add: numeral_2_eq_2)
  ultimately show ?thesis
    by (simp add: base64mod_fill_size_def mask_eq_decr_exp drop_bit_eq_div)
qed

end
