(* ===== verification/Utf8_Handler.thy ===== *)
theory Utf8_Handler
  imports Ascii_String_Manip
begin

text \<open>
  \<^verbatim>\<open>src/src/String/UTF8Handler.hpp\<close> (classification, decoding and encoding of UTF-8
  sequences) and \<^verbatim>\<open>UnicodeSymbol.hpp\<close>, \<^verbatim>\<open>UnicodeSymbol.cpp\<close> (a code point with a null state).

  \<^verbatim>\<open>wchar_t\<close> is the 32-bit signed type of the platform, a \<open>32 word\<close> read with \<open>sint\<close>;
  \<^verbatim>\<open>unsigned long\<close> is a \<open>64 word\<close>.  A function that reads through a \<^verbatim>\<open>const char*\<close> without a
  length takes the memory block the pointer points into, so that a read past the block is
  visible in the result.
\<close>

section \<open>UTF8Handler\<close>

type_synonym wchar = "32 word"
type_synonym ulong = "64 word"

subsection \<open>Checking a sequence\<close>

text \<open>The \<^verbatim>\<open>switch\<close> on the first byte of a sequence of three or four bytes.\<close>

definition second_octet_ok :: "byte \<Rightarrow> byte \<Rightarrow> bool" where
  "second_octet_ok B1 B2 =
     (if B1 = 0xE0 then B2 AND 0xE0 = 0xA0
      else if B1 = 0xED then B2 AND 0xE0 = 0x80
      else if B1 = 0xF0 then B2 \<ge> 0x90 \<and> B2 \<le> 0xBF
      else if B1 = 0xF4 then B2 AND 0xF0 = 0x80
      else if B1 \<le> 0xEF then B2 AND 0xC0 = 0x80
      else B2 AND 0xC0 = 0x80)"

definition is_correct_utf8_sequence :: "bytes \<Rightarrow> (bool \<times> nat) result" where
  "is_correct_utf8_sequence src =
     rbind (rd src 0) (\<lambda>B1.
       if B1 \<le> 0x7F then Inr (True, 1)
       else if B1 < 0xC2 \<or> B1 > 0xF4 then Inr (False, 0)
       else rbind (rd src 1) (\<lambda>B2.
         if B1 \<le> 0xDF then
           (if B2 AND 0xC0 = 0x80 then Inr (True, 2) else Inr (False, 0))
         else if \<not> second_octet_ok B1 B2 then Inr (False, 0)
         else if B1 < 0xF0 then
           rbind (rd src 2) (\<lambda>B3. if B3 AND 0xC0 \<noteq> 0x80 then Inr (False, 0) else Inr (True, 3))
         else
           rbind (rd src 3) (\<lambda>B4. if B4 AND 0xC0 \<noteq> 0x80 then Inr (False, 0) else Inr (True, 4))))"

text \<open>
  The loop over a whole string gets the block that holds the string and its terminator; it
  returns the offset of the first wrong symbol, or \<open>None\<close>.  Each round that goes on advances by at
  least one byte.
\<close>

function utf8_string_loop :: "bytes \<Rightarrow> nat \<Rightarrow> nat option result" where
  "utf8_string_loop m pos =
     rbind (rd m pos) (\<lambda>c.
       if c = 0 then Inr None
       else rbind (is_correct_utf8_sequence (drop pos m)) (\<lambda>(correct, octets_count).
         if \<not> correct then Inr (Some pos) else utf8_string_loop m (pos + octets_count)))"
  by pat_completeness auto

termination
proof (relation "measure (\<lambda>(m, pos). length m - pos)")
  fix m :: bytes and pos c x correct octets_count
  assume "rd m pos = Inr c" "is_correct_utf8_sequence (drop pos m) = Inr x" "(correct, octets_count) = x" "\<not> \<not> correct"
  then have "pos < length m" "is_correct_utf8_sequence (drop pos m) = Inr (True, octets_count)"
    by (auto simp: rd_def split: if_splits)
  moreover from this(2) have "0 < octets_count"
    by (auto simp: is_correct_utf8_sequence_def rd_def split: if_splits)
  ultimately show "((m, pos + octets_count), m, pos) \<in> measure (\<lambda>(m, pos). length m - pos)" by simp
qed simp

declare utf8_string_loop.simps [simp del]

definition is_correct_utf8_string :: "bytes \<Rightarrow> nat option result" where
  "is_correct_utf8_string str = utf8_string_loop str 0"

subsection \<open>Decoding\<close>

definition TRAILING_BYTES_FOR_UTF8 :: "nat list" where
  "TRAILING_BYTES_FOR_UTF8 =
   [1, 1, 1, 1, 1, 1, 1, 1, 1, 1, 1, 1, 1, 1, 1, 1, 1, 1, 1, 1, 1, 1, 1, 1, 1, 1, 1, 1, 1, 1, 1, 1,
    1, 1, 1, 1, 1, 1, 1, 1, 1, 1, 1, 1, 1, 1, 1, 1, 1, 1, 1, 1, 1, 1, 1, 1, 1, 1, 1, 1, 1, 1, 1, 1,
    1, 1, 1, 1, 1, 1, 1, 1, 1, 1, 1, 1, 1, 1, 1, 1, 1, 1, 1, 1, 1, 1, 1, 1, 1, 1, 1, 1, 1, 1, 1, 1,
    1, 1, 1, 1, 1, 1, 1, 1, 1, 1, 1, 1, 1, 1, 1, 1, 1, 1, 1, 1, 1, 1, 1, 1, 1, 1, 1, 1, 1, 1, 1, 1,
    0, 0, 0, 0, 0, 0, 0, 0, 0, 0, 0, 0, 0, 0, 0, 0, 0, 0, 0, 0, 0, 0, 0, 0, 0, 0, 0, 0, 0, 0, 0, 0,
    0, 0, 0, 0, 0, 0, 0, 0, 0, 0, 0, 0, 0, 0, 0, 0, 0, 0, 0, 0, 0, 0, 0, 0, 0, 0, 0, 0, 0, 0, 0, 0,
    0, 0, 2, 2, 2, 2, 2, 2, 2, 2, 2, 2, 2, 2, 2, 2, 2, 2, 2, 2, 2, 2, 2, 2, 2, 2, 2, 2, 2, 2, 2, 2,
    3, 3, 3, 3, 3, 3, 3, 3, 3, 3, 3, 3, 3, 3, 3, 3, 4, 4, 4, 4, 4, 4, 4, 4, 5, 5, 5, 5, 6, 6, 0, 0]"

definition get_octet_count :: "byte \<Rightarrow> nat" where
  "get_octet_count c = TRAILING_BYTES_FOR_UTF8 ! unat c"

definition FIRST_BYTE_MASKS :: "byte list" where
  "FIRST_BYTE_MASKS = [0, 0x7F, 0x1F, 0x0F, 0x07, 0x03, 0x01]"

fun utf8_tail_loop :: "nat \<Rightarrow> bytes \<Rightarrow> wchar \<Rightarrow> (bool \<times> wchar) result" where
  "utf8_tail_loop 0 src dest = Inr (True, dest)"
| "utf8_tail_loop (Suc n) src dest =
     rbind (rd src 0) (\<lambda>CH.
       if CH AND 0xC0 \<noteq> 0x80 then Inr (False, dest)
       else utf8_tail_loop n (tl src) (push_bit 6 dest OR ucast (CH AND 0x3F)))"

text \<open>\<open>None\<close> is the null pointer.\<close>

definition utf8_char_to_wchar :: "bytes option \<Rightarrow> nat \<Rightarrow> (bool \<times> wchar) result" where
  "utf8_char_to_wchar src octets_count =
     (case src of
        None \<Rightarrow> Inr (False, 0)
      | Some s \<Rightarrow>
          if octets_count \<noteq> 0 \<and> octets_count \<le> 6
          then rbind (rd s 0) (\<lambda>CH.
                 utf8_tail_loop (octets_count - 1) (tl s)
                   (ucast (CH AND FIRST_BYTE_MASKS ! octets_count)))
          else Inr (False, 0))"

subsection \<open>Encoding\<close>

text \<open>\<open>None\<close> is the result \<^verbatim>\<open>false\<close>, on which nothing is written.\<close>

definition wchar_to_utf8_char :: "wchar \<Rightarrow> bytes option" where
  "wchar_to_utf8_char src =
     (let ul4wc = (scast src :: ulong)
      in if ul4wc < 0x80 then
           Some [ucast (ul4wc AND 0x0000007F)]
         else if ul4wc < 0x800 then
           Some [ucast ((drop_bit 6 ul4wc AND 0x0000001F) OR 0x000000C0),
                 ucast ((ul4wc AND 0x0000003F) OR 0x00000080)]
         else if ul4wc < 0x10000 then
           Some [ucast ((drop_bit 12 ul4wc AND 0x0000000F) OR 0x000000E0),
                 ucast ((drop_bit 6 ul4wc AND 0x0000003F) OR 0x00000080),
                 ucast ((ul4wc AND 0x0000003F) OR 0x00000080)]
         else if ul4wc < 0x200000 then
           Some [ucast ((drop_bit 18 ul4wc AND 0x00000007) OR 0x000000F0),
                 ucast ((drop_bit 12 ul4wc AND 0x0000003F) OR 0x00000080),
                 ucast ((drop_bit 6 ul4wc AND 0x0000003F) OR 0x00000080),
                 ucast ((ul4wc AND 0x0000003F) OR 0x00000080)]
         else None)"

definition ulong_to_utf8_char :: "ulong \<Rightarrow> bytes option" where
  "ulong_to_utf8_char ul4wc =
     (if ul4wc < 0x80 then
        Some [ucast (ul4wc AND 0x0000007F)]
      else if ul4wc < 0x800 then
        Some [ucast ((drop_bit 6 ul4wc AND 0x0000001F) OR 0x000000C0),
              ucast ((ul4wc AND 0x0000003F) OR 0x00000080)]
      else if ul4wc < 0x10000 then
        Some [ucast ((drop_bit 12 ul4wc AND 0x0000000F) OR 0x000000E0),
              ucast ((drop_bit 6 ul4wc AND 0x0000003F) OR 0x00000080),
              ucast ((ul4wc AND 0x0000003F) OR 0x00000080)]
      else if ul4wc < 0x200000 then
        Some [ucast ((drop_bit 18 ul4wc AND 0x00000007) OR 0x000000F0),
              ucast ((drop_bit 12 ul4wc AND 0x0000003F) OR 0x00000080),
              ucast ((drop_bit 6 ul4wc AND 0x0000003F) OR 0x00000080),
              ucast ((ul4wc AND 0x0000003F) OR 0x00000080)]
      else if ul4wc < 0x4000000 then
        Some [ucast ((drop_bit 24 ul4wc AND 0x00000003) OR 0x000000F8),
              ucast ((drop_bit 18 ul4wc AND 0x0000003F) OR 0x00000080),
              ucast ((drop_bit 12 ul4wc AND 0x0000003F) OR 0x00000080),
              ucast ((drop_bit 6 ul4wc AND 0x0000003F) OR 0x00000080),
              ucast ((ul4wc AND 0x0000003F) OR 0x00000080)]
      else if ul4wc < 0x80000000 then
        Some [ucast ((drop_bit 30 ul4wc AND 0x00000001) OR 0x000000FC),
              ucast ((drop_bit 24 ul4wc AND 0x0000003F) OR 0x00000080),
              ucast ((drop_bit 18 ul4wc AND 0x0000003F) OR 0x00000080),
              ucast ((drop_bit 12 ul4wc AND 0x0000003F) OR 0x00000080),
              ucast ((drop_bit 6 ul4wc AND 0x0000003F) OR 0x00000080),
              ucast ((ul4wc AND 0x0000003F) OR 0x00000080)]
      else None)"

subsection \<open>Finding the start of a sequence\<close>

text \<open>
  \<open>src\<close> and \<open>limit\<close> are offsets in the block \<open>m\<close>; \<open>p\<close> walks backwards.  The last two
  arguments are the current values of the two output parameters.
\<close>

fun sequence_start_loop :: "bytes \<Rightarrow> nat option \<Rightarrow> nat \<Rightarrow> nat option result" where
  "sequence_start_loop m limit p =
     rbind (rd m p) (\<lambda>c.
       if c AND 0xC0 = 0x80 then
         (if limit = Some p then Inr None
          else case p of 0 \<Rightarrow> Inl OutOfBounds | Suc q \<Rightarrow> sequence_start_loop m limit q)
       else Inr (Some p))"

declare sequence_start_loop.simps [simp del]

definition distance_to_sequence_beginning ::
  "bytes \<Rightarrow> nat \<Rightarrow> nat option \<Rightarrow> nat \<Rightarrow> nat \<Rightarrow> (bool \<times> nat \<times> nat) result" where
  "distance_to_sequence_beginning m src limit octets_count distance =
     rbind (rd m src) (\<lambda>c.
       if c AND 0x80 = 0 then Inr (True, 1, 0)
       else rbind (sequence_start_loop m limit src) (\<lambda>start.
         case start of
           None \<Rightarrow> Inr (False, octets_count, distance)
         | Some p \<Rightarrow>
             rbind (rd m p) (\<lambda>b.
               let dist = src - p; count = get_octet_count b
               in if count = 0 \<or> count \<le> dist then Inr (False, count, dist)
                  else Inr (True, count, dist))))"

subsection \<open>Reference\<close>

text \<open>The reference: the octets of a code point by division, independent of the bit operations.\<close>

definition utf8_ref :: "nat \<Rightarrow> nat list" where
  "utf8_ref n =
     (if n < 0x80 then [n]
      else if n < 0x800 then [0xC0 + n div 64, 0x80 + n mod 64]
      else if n < 0x10000 then [0xE0 + n div 4096, 0x80 + n div 64 mod 64, 0x80 + n mod 64]
      else [0xF0 + n div 262144, 0x80 + n div 4096 mod 64, 0x80 + n div 64 mod 64, 0x80 + n mod 64])"

text \<open>The Unicode scalar values: the code points without the surrogates.\<close>

definition is_scalar :: "nat \<Rightarrow> bool" where
  "is_scalar n \<longleftrightarrow> n \<le> 0xD7FF \<or> 0xE000 \<le> n \<and> n \<le> 0x10FFFF"

section \<open>Correctness\<close>

subsection \<open>From bit operations to arithmetic\<close>

lemma octet_unat:
  fixes x c :: "'a::len word"
  assumes "8 \<le> LENGTH('a)" and "mask n AND c = 0" and "unat c + 2 ^ n \<le> 256"
  shows "unat (ucast ((x AND mask n) OR c) :: byte) = unat c + unat x mod 2 ^ n"
proof -
  have less: "unat x mod 2 ^ n < 2 ^ n" by simp
  have "(x AND mask n) AND c = 0"
    using assms(2) by (simp add: and.assoc)
  moreover have small: "unat x mod 2 ^ n + unat c < 256"
    using assms(3) less by linarith
  moreover have "unat (x AND mask n) + unat c < 2 ^ LENGTH('a)"
    unfolding word_and_mask_unat
  proof (rule less_le_trans [OF small])
    show "256 \<le> (2 :: nat) ^ LENGTH('a)"
      using assms(1) power_increasing [of 8 "LENGTH('a)" "2 :: nat"] by simp
  qed
  ultimately have "unat ((x AND mask n) OR c) = unat (x AND mask n) + unat c"
    by (intro unat_or_disjoint)
  then have "unat ((x AND mask n) OR c) = unat x mod 2 ^ n + unat c"
    by (simp only: word_and_mask_unat)
  with small show ?thesis
    by (simp add: unsigned_ucast_eq take_bit_nat_eq_self)
qed

lemmas octet_unats =
  octet_unat [where 'a = 64, of 6 "0x80", simplified mask_eq_decr_exp, simplified]
  octet_unat [where 'a = 64, of 5 "0xC0", simplified mask_eq_decr_exp, simplified]
  octet_unat [where 'a = 64, of 4 "0xE0", simplified mask_eq_decr_exp, simplified]
  octet_unat [where 'a = 64, of 3 "0xF0", simplified mask_eq_decr_exp, simplified]

lemmas octet_unats_wchar =
  octet_unat [where 'a = 32, of 6 "0x80", simplified mask_eq_decr_exp, simplified]
  octet_unat [where 'a = 32, of 5 "0xC0", simplified mask_eq_decr_exp, simplified]
  octet_unat [where 'a = 32, of 4 "0xE0", simplified mask_eq_decr_exp, simplified]
  octet_unat [where 'a = 32, of 3 "0xF0", simplified mask_eq_decr_exp, simplified]

lemma tail_octet_iff: "b AND 0xC0 = (0x80 :: byte) \<longleftrightarrow> unat b div 64 = 2"
  by (rule all_byteD [of "\<lambda>b. b AND 0xC0 = 0x80 \<longleftrightarrow> unat b div 64 = 2"]) (unfold upt_256, simp)

lemma octet7_unat: "unat (ucast (x AND 0x7F) :: byte) = unat x mod 128" for x :: ulong
  using word_and_mask_unat [of x 7] by (simp add: mask_eq_decr_exp unsigned_ucast_eq take_bit_nat_eq_self)


lemma unat_scast_small: "(scast (w :: wchar) :: ulong) < 0x200000 \<Longrightarrow> unat (scast w :: ulong) = unat w"
proof -
  assume "(scast w :: ulong) < 0x200000"
  then have "\<forall>n. bit w n \<longrightarrow> n < 21"
    using scast_less_power [of 21 w] word_less_power_iff_bits [of 21 w] by simp
  then have "(scast w :: ulong) = ucast w"
    by (intro bit_word_eqI) (auto simp: bit_simps min_def)
  moreover have "unat w < 2 ^ 64"
    using unsigned_less [of w, where 'a = nat] by simp
  ultimately show ?thesis by (simp add: unsigned_ucast_eq take_bit_nat_eq_self)
qed

lemma scast_less_iff:
  "(scast (w :: wchar) :: ulong) < 0x80 \<longleftrightarrow> unat w < 0x80"
  "(scast (w :: wchar) :: ulong) < 0x800 \<longleftrightarrow> unat w < 0x800"
  "(scast (w :: wchar) :: ulong) < 0x10000 \<longleftrightarrow> unat w < 0x10000"
  "(scast (w :: wchar) :: ulong) < 0x200000 \<longleftrightarrow> unat w < 0x200000"
  using scast_less_power [of 7 w] scast_less_power [of 11 w] scast_less_power [of 16 w]
    scast_less_power [of 21 w]
  by (simp_all add: word_less_nat_alt)

lemma wchar_to_utf8_char_None: "wchar_to_utf8_char w = None \<longleftrightarrow> 0x200000 \<le> unat w"
  by (auto simp: wchar_to_utf8_char_def Let_def scast_less_iff)

lemma wchar_to_utf8_char_ref:
  assumes "unat w < 0x200000"
  shows "map_option (map unat) (wchar_to_utf8_char w) = Some (utf8_ref (unat w))"
proof -
  define u where "u = (scast w :: ulong)"
  have u: "unat u = unat w"
    using assms by (simp add: u_def unat_scast_small scast_less_iff)
  have "u < 0x80 \<longleftrightarrow> unat w < 0x80" "u < 0x800 \<longleftrightarrow> unat w < 0x800"
    "u < 0x10000 \<longleftrightarrow> unat w < 0x10000" "u < 0x200000"
    using assms by (simp_all add: u_def scast_less_iff)
  then show ?thesis
    using assms unfolding wchar_to_utf8_char_def u_def [symmetric]
    by (auto simp: Let_def utf8_ref_def octet_unats octet7_unat unat_drop_bit_div u
        div_mult2_eq [symmetric])
qed

lemma nth_map_upt_byte: "map f [0..<256] ! unat (c :: byte) = f (unat c)"
  by simp

lemma TRAILING_BYTES_FOR_UTF8_eq:
  "TRAILING_BYTES_FOR_UTF8 =
     map (\<lambda>n. if n < 0x80 then 1 else if n < 0xC2 then 0 else if n < 0xE0 then 2
         else if n < 0xF0 then 3 else if n < 0xF8 then 4 else if n < 0xFC then 5
         else if n < 0xFE then 6 else 0) [0..<256]"
  unfolding upt_256 TRAILING_BYTES_FOR_UTF8_def by simp

lemma get_octet_count_eq:
  "get_octet_count c =
     (if unat c < 0x80 then 1 else if unat c < 0xC2 then 0 else if unat c < 0xE0 then 2
      else if unat c < 0xF0 then 3 else if unat c < 0xF8 then 4 else if unat c < 0xFC then 5
      else if unat c < 0xFE then 6 else 0)"
  unfolding get_octet_count_def TRAILING_BYTES_FOR_UTF8_eq nth_map_upt_byte ..

lemma and_prefix_iff:
  "b AND 0xE0 = (0xA0 :: byte) \<longleftrightarrow> unat b div 32 = 5"
  "b AND 0xE0 = (0x80 :: byte) \<longleftrightarrow> unat b div 32 = 4"
  "b AND 0xF0 = (0x80 :: byte) \<longleftrightarrow> unat b div 16 = 8"
  by (rule all_byteD [of "\<lambda>b. b AND 0xE0 = 0xA0 \<longleftrightarrow> unat b div 32 = 5"], unfold upt_256, simp)
    (rule all_byteD [of "\<lambda>b. b AND 0xE0 = 0x80 \<longleftrightarrow> unat b div 32 = 4"], unfold upt_256, simp,
     rule all_byteD [of "\<lambda>b. b AND 0xF0 = 0x80 \<longleftrightarrow> unat b div 16 = 8"], unfold upt_256, simp)

lemma second_octet_ok_iff:
  "second_octet_ok B1 B2 \<longleftrightarrow>
     (if unat B1 = 0xE0 then unat B2 div 32 = 5
      else if unat B1 = 0xED then unat B2 div 32 = 4
      else if unat B1 = 0xF0 then 0x90 \<le> unat B2 \<and> unat B2 \<le> 0xBF
      else if unat B1 = 0xF4 then unat B2 div 16 = 8
      else unat B2 div 64 = 2)"
  unfolding second_octet_ok_def and_prefix_iff tail_octet_iff
  by (simp add: word_le_nat_alt word_unat_eq_iff)

lemma utf8_tail_step:
  fixes dest :: wchar and c :: byte
  assumes "unat dest < 2 ^ 26"
  shows "unat (push_bit 6 dest OR ucast (c AND 0x3F)) = unat dest * 64 + unat c mod 64"
proof -
  have c: "unat (ucast (c AND 0x3F) :: wchar) = unat c mod 64"
    using word_and_mask_unat [of c 6]
    by (simp add: mask_eq_decr_exp unsigned_ucast_eq take_bit_nat_eq_self)
  have d: "unat (push_bit 6 dest) = unat dest * 64"
    using assms by (simp add: push_bit_eq_mult unat_word_ariths)
  have "push_bit 6 dest AND ucast (c AND 0x3F) = (0 :: wchar)"
    by (rule bit_word_eqI, simp add: bit_simps) (auto simp: less_Suc_eq numeral_eq_Suc)
  then show ?thesis
    using assms by (subst unat_or_disjoint) (simp_all add: c d)
qed

lemma first_octet_unat:
  "unat (c AND 0x7F) = unat (c :: byte) mod 128"
  "unat (c AND 0x1F) = unat (c :: byte) mod 32"
  "unat (c AND 0x0F) = unat (c :: byte) mod 16"
  "unat (c AND 0x07) = unat (c :: byte) mod 8"
  using word_and_mask_unat [of c 7] word_and_mask_unat [of c 5] word_and_mask_unat [of c 4]
    word_and_mask_unat [of c 3]
  by (simp_all add: mask_eq_decr_exp)

subsection \<open>The digits of the reference\<close>

lemma digits64:
  fixes n :: nat
  shows "n = (n div 4096 * 64 + n div 64 mod 64) * 64 + n mod 64" (is ?three)
    and "n = ((n div 262144 * 64 + n div 4096 mod 64) * 64 + n div 64 mod 64) * 64 + n mod 64"
      (is ?four)
proof -
  have e1: "n div 4096 * 64 + n div 64 mod 64 = n div 64"
    using div_mult_mod_eq [of "n div 64" 64] div_mult2_eq [of n 64 64] by simp
  then show ?three by (simp only: e1 div_mult_mod_eq)
  have "n div 262144 * 64 + n div 4096 mod 64 = n div 4096"
    using div_mult_mod_eq [of "n div 4096" 64] div_mult2_eq [of n 4096 64] by simp
  with e1 show ?four by (simp only: div_mult_mod_eq)
qed

lemma octet_arith:
  fixes y :: nat
  shows "y < 64 \<Longrightarrow> (128 + y) div 64 = 2" "y < 64 \<Longrightarrow> (128 + y) mod 64 = y"
    "y < 32 \<Longrightarrow> (192 + y) mod 32 = y" "y < 16 \<Longrightarrow> (224 + y) mod 16 = y"
    "y < 8 \<Longrightarrow> (240 + y) mod 8 = y"
  using mod_mult_self1 [of y 2 64] mod_mult_self1 [of y 6 32] mod_mult_self1 [of y 14 16]
    mod_mult_self1 [of y 30 8]
  by (simp_all add: add.commute div_nat_eqI)

lemma utf8_ref_cases:
  assumes "n < 0x200000"
  obtains (1) "n < 0x80" "utf8_ref n = [n]"
  | (2) x y where "n = x * 64 + y" "x < 32" "y < 64" "2 \<le> x" "utf8_ref n = [0xC0 + x, 0x80 + y]"
  | (3) x y z where "n = (x * 64 + y) * 64 + z" "x < 16" "y < 64" "z < 64" "0x800 \<le> n"
      "utf8_ref n = [0xE0 + x, 0x80 + y, 0x80 + z]"
  | (4) v x y z where "n = ((v * 64 + x) * 64 + y) * 64 + z" "v < 8" "x < 64" "y < 64" "z < 64"
      "0x10000 \<le> n" "utf8_ref n = [0xF0 + v, 0x80 + x, 0x80 + y, 0x80 + z]"
proof -
  consider "n < 0x80" | "0x80 \<le> n" "n < 0x800" | "0x800 \<le> n" "n < 0x10000" | "0x10000 \<le> n"
    by linarith
  then show thesis
  proof cases
    case 1 then show thesis by (intro that(1)) (simp_all add: utf8_ref_def)
  next
    case 2 then show thesis
      by (intro that(2) [of "n div 64" "n mod 64"]) (auto simp: utf8_ref_def)
  next
    case 3 then show thesis
      by (intro that(3) [OF digits64(1)]) (auto simp: utf8_ref_def)
  next
    case 4 with assms show thesis
      by (intro that(4) [OF digits64(2)]) (auto simp: utf8_ref_def)
  qed
qed

subsection \<open>Decoding inverts encoding\<close>

lemma utf8_tail_loop_numeral [simp]:
  "utf8_tail_loop (numeral k) src dest =
     rbind (rd src 0) (\<lambda>CH.
       if CH AND 0xC0 \<noteq> 0x80 then Inr (False, dest)
       else utf8_tail_loop (pred_numeral k) (tl src) (push_bit 6 dest OR ucast (CH AND 0x3F)))"
  by (simp add: numeral_eq_Suc)

lemma utf8_tail_loop_ok:
  assumes "\<forall>c\<in>set ts. unat c div 64 = 2" and "(unat dest + 1) * 64 ^ length ts \<le> 2 ^ 32"
  shows "\<exists>w. utf8_tail_loop (length ts) (ts @ rest) dest = Inr (True, w) \<and>
    unat w = foldl (\<lambda>a c. a * 64 + unat c mod 64) (unat dest) ts"
  using assms
proof (induction ts arbitrary: dest)
  case (Cons c ts)
  let ?d = "push_bit 6 dest OR ucast (c AND 0x3F) :: wchar"
  have "(unat dest + 1) * 64 \<le> (unat dest + 1) * 64 ^ length (c # ts)"
    by (intro mult_left_mono) simp_all
  then have "unat dest < 2 ^ 26"
    using Cons.prems(2) by simp
  then have d: "unat ?d = unat dest * 64 + unat c mod 64"
    by (rule utf8_tail_step)
  have "unat ?d + 1 \<le> (unat dest + 1) * 64"
    using mod_less_divisor [of 64 "unat c"] by (simp add: d)
  then have "(unat ?d + 1) * 64 ^ length ts \<le> (unat dest + 1) * 64 * 64 ^ length ts"
    by (rule mult_right_mono) simp
  also have "\<dots> \<le> 2 ^ 32"
    using Cons.prems(2) by (simp add: algebra_simps)
  finally have "(unat ?d + 1) * 64 ^ length ts \<le> 2 ^ 32" .
  then show ?case
    using Cons.IH [of ?d] Cons.prems(1) by (simp add: tail_octet_iff d)
qed simp

lemma unat_ucast_byte [simp]: "unat (ucast (b :: byte) :: wchar) = unat b"
  using less_trans [OF unat_byte_less, of "2 ^ 32" b]
  by (simp add: unsigned_ucast_eq take_bit_nat_eq_self)

lemma utf8_decode_tail:
  assumes "length ts < 6" and "\<forall>c\<in>set ts. unat c div 64 = 2"
    and "m = FIRST_BYTE_MASKS ! Suc (length ts)"
    and "(unat (a AND m) + 1) * 64 ^ length ts \<le> 2 ^ 32"
  shows "\<exists>w. utf8_char_to_wchar (Some (a # ts @ rest)) (Suc (length ts)) = Inr (True, w) \<and>
    unat w = foldl (\<lambda>a c. a * 64 + unat c mod 64) (unat (a AND m)) ts"
  using utf8_tail_loop_ok [of ts "ucast (a AND m)" rest] assms
  by (simp add: utf8_char_to_wchar_def)

lemma utf8_decode_ref:
  assumes "n < 0x200000" and "map unat bs = utf8_ref n"
  shows "\<exists>w. utf8_char_to_wchar (Some (bs @ rest)) (length bs) = Inr (True, w) \<and> unat w = n"
  using assms(1)
proof (cases n rule: utf8_ref_cases)
  case 1
  then obtain a where "bs = [a]" "unat a = n" using assms(2) by auto
  with 1 show ?thesis
    using utf8_decode_tail [of "[]" "0x7F" a rest]
    by (simp add: FIRST_BYTE_MASKS_def first_octet_unat)
next
  case (2 x y)
  then obtain a b where "bs = [a, b]" "unat a = 0xC0 + x" "unat b = 0x80 + y"
    using assms(2) by (auto simp: map_eq_Cons_conv)
  with 2 show ?thesis
    using utf8_decode_tail [of "[b]" "0x1F" a rest]
    by (simp add: FIRST_BYTE_MASKS_def first_octet_unat octet_arith)
next
  case (3 x y z)
  then obtain a b c where "bs = [a, b, c]" "unat a = 0xE0 + x" "unat b = 0x80 + y" "unat c = 0x80 + z"
    using assms(2) by (auto simp: map_eq_Cons_conv)
  with 3 show ?thesis
    using utf8_decode_tail [of "[b, c]" "0x0F" a rest]
    by (simp add: FIRST_BYTE_MASKS_def first_octet_unat octet_arith)
next
  case (4 v x y z)
  then obtain a b c d where "bs = [a, b, c, d]" "unat a = 0xF0 + v" "unat b = 0x80 + x"
      "unat c = 0x80 + y" "unat d = 0x80 + z"
    using assms(2) by (auto simp: map_eq_Cons_conv)
  with 4 show ?thesis
    using utf8_decode_tail [of "[b, c, d]" "0x07" a rest]
    by (simp add: FIRST_BYTE_MASKS_def first_octet_unat octet_arith)
qed

subsection \<open>The check accepts the encodings\<close>

lemma utf8_ref_digits:
  "x < 32 \<Longrightarrow> y < 64 \<Longrightarrow> 2 \<le> x \<Longrightarrow> utf8_ref (x * 64 + y) = [0xC0 + x, 0x80 + y]"
  "x < 16 \<Longrightarrow> y < 64 \<Longrightarrow> z < 64 \<Longrightarrow> 0x800 \<le> (x * 64 + y) * 64 + z \<Longrightarrow>
   utf8_ref ((x * 64 + y) * 64 + z) = [0xE0 + x, 0x80 + y, 0x80 + z]"
  "v < 8 \<Longrightarrow> x < 64 \<Longrightarrow> y < 64 \<Longrightarrow> z < 64 \<Longrightarrow> 0x10000 \<le> ((v * 64 + x) * 64 + y) * 64 + z \<Longrightarrow>
   utf8_ref (((v * 64 + x) * 64 + y) * 64 + z) = [0xF0 + v, 0x80 + x, 0x80 + y, 0x80 + z]"
proof -
  have low: "(a * 64 + b) mod 64 = b" "(a * 64 + b) div 64 = a" if "b < 64" for a b :: nat
    using that by simp_all
  have d: "n div 4096 = n div 64 div 64" "n div 262144 = n div 64 div 64 div 64" for n :: nat
    by (simp_all flip: div_mult2_eq)
  show "x < 32 \<Longrightarrow> y < 64 \<Longrightarrow> 2 \<le> x \<Longrightarrow> utf8_ref (x * 64 + y) = [0xC0 + x, 0x80 + y]"
    by (simp add: utf8_ref_def)
  show "utf8_ref ((x * 64 + y) * 64 + z) = [0xE0 + x, 0x80 + y, 0x80 + z]"
    if "x < 16" "y < 64" "z < 64" "0x800 \<le> (x * 64 + y) * 64 + z"
  proof -
    have "x \<le> 15" "y \<le> 63" "z \<le> 63" using that by simp_all
    then have "x * 64 + y \<le> 1023" by linarith
    then have "(x * 64 + y) * 64 \<le> 1023 * 64" by (rule mult_right_mono) simp
    with \<open>z \<le> 63\<close> have "(x * 64 + y) * 64 + z < 0x10000" by linarith
    with that show ?thesis unfolding utf8_ref_def d by (simp only: low) simp
  qed
  show "utf8_ref (((v * 64 + x) * 64 + y) * 64 + z) = [0xF0 + v, 0x80 + x, 0x80 + y, 0x80 + z]"
    if "v < 8" "x < 64" "y < 64" "z < 64" "0x10000 \<le> ((v * 64 + x) * 64 + y) * 64 + z"
    using that unfolding utf8_ref_def d by (simp only: low) simp
qed

lemma div_32_iff:
  fixes y :: nat
  assumes "y < 64"
  shows "(128 + y) div 32 = 5 \<longleftrightarrow> 32 \<le> y" "(128 + y) div 32 = 4 \<longleftrightarrow> y < 32"
    "(128 + y) div 16 = 8 \<longleftrightarrow> y < 16"
proof -
  have "(128 + y) div 32 = 4 + y div 32" "(128 + y) div 16 = 8 + y div 16"
    using div_mult_self1 [of 32 y 4] div_mult_self1 [of 16 y 8] by (simp_all add: add.commute)
  moreover have "y div 32 = (if y < 32 then 0 else 1)"
    using assms by (auto intro: div_nat_eqI)
  ultimately show "(128 + y) div 32 = 5 \<longleftrightarrow> 32 \<le> y" "(128 + y) div 32 = 4 \<longleftrightarrow> y < 32"
    "(128 + y) div 16 = 8 \<longleftrightarrow> y < 16"
    by (simp_all add: div_eq_0_iff)
qed

lemma second_octet_ok_ref:
  assumes "unat a = 0xE0 + x" "unat b = 0x80 + y" "x < 16" "y < 64" "z < 64"
    and "0x800 \<le> (x * 64 + y) * 64 + z"
  shows "second_octet_ok a b \<longleftrightarrow> is_scalar ((x * 64 + y) * 64 + z)"
proof (cases "x = 0 \<or> x = 13")
  case True
  with assms show ?thesis by (auto simp: second_octet_ok_iff is_scalar_def div_32_iff)
next
  case False
  then have "x \<le> 12 \<or> 14 \<le> x" by linarith
  with False assms show ?thesis
    by (auto simp: second_octet_ok_iff is_scalar_def octet_arith)
qed

lemma second_octet_ok_ref4:
  assumes "unat a = 0xF0 + v" "unat b = 0x80 + x" "v < 5" "x < 64" "y < 64" "z < 64"
  shows "second_octet_ok a b \<longleftrightarrow>
    0x10000 \<le> ((v * 64 + x) * 64 + y) * 64 + z \<and> is_scalar (((v * 64 + x) * 64 + y) * 64 + z)"
proof -
  consider "v = 0" | "1 \<le> v" "v \<le> 3" | "v = 4" using assms(3) by linarith
  then show ?thesis
    using assms by cases (auto simp: second_octet_ok_iff is_scalar_def octet_arith div_32_iff)
qed

lemmas utf8_check_simps = is_correct_utf8_sequence_def word_le_nat_alt word_less_nat_alt
  tail_octet_iff octet_arith

lemma is_correct_utf8_sequence_complete:
  assumes "is_scalar n" and "map unat bs = utf8_ref n"
  shows "is_correct_utf8_sequence (bs @ rest) = Inr (True, length bs)"
proof -
  have "n < 0x200000" using assms(1) by (auto simp: is_scalar_def)
  then show ?thesis
  proof (cases n rule: utf8_ref_cases)
    case 1
    then obtain a where "bs = [a]" "unat a = n" using assms(2) by auto
    with 1 show ?thesis by (simp add: utf8_check_simps)
  next
    case (2 x y)
    then obtain a b where "bs = [a, b]" "unat a = 0xC0 + x" "unat b = 0x80 + y"
      using assms(2) by (auto simp: map_eq_Cons_conv)
    with 2 show ?thesis by (simp add: utf8_check_simps)
  next
    case (3 x y z)
    then obtain a b c where bs: "bs = [a, b, c]" "unat a = 0xE0 + x" "unat b = 0x80 + y"
        "unat c = 0x80 + z"
      using assms(2) by (auto simp: map_eq_Cons_conv)
    moreover have "second_octet_ok a b"
      using 3 bs assms(1) second_octet_ok_ref [of a x b y z] by simp
    ultimately show ?thesis using 3 by (simp add: utf8_check_simps)
  next
    case (4 v x y z)
    then obtain a b c d where bs: "bs = [a, b, c, d]" "unat a = 0xF0 + v" "unat b = 0x80 + x"
        "unat c = 0x80 + y" "unat d = 0x80 + z"
      using assms(2) by (auto simp: map_eq_Cons_conv)
    have "v < 5" using assms(1) 4 by (auto simp: is_scalar_def)
    moreover from this have "second_octet_ok a b"
      using 4 bs assms(1) second_octet_ok_ref4 [of a v b x y z] by simp
    ultimately show ?thesis using bs 4 by (simp add: utf8_check_simps)
  qed
qed

lemma unat_octet:
  "unat (b :: byte) div 64 = 2 \<Longrightarrow> \<exists>y<64. unat b = 0x80 + y"
  by (intro exI [of _ "unat b mod 64"]) (metis div_mult_mod_eq mod_less_divisor mult_2 numeral_Bit0 zero_less_numeral)

lemma take_1_nth: "m \<noteq> [] \<Longrightarrow> take (Suc 0) m = [m ! 0]"
  by (cases m) simp_all

lemma take_nth:
  "2 \<le> length m \<Longrightarrow> take 2 m = [m ! 0, m ! 1]"
  "3 \<le> length m \<Longrightarrow> take 3 m = [m ! 0, m ! 1, m ! 2]"
  "4 \<le> length m \<Longrightarrow> take 4 m = [m ! 0, m ! 1, m ! 2, m ! 3]"
  by (cases "m = []"; simp add: numeral_eq_Suc take_Suc_conv_app_nth take_1_nth)+

lemma is_correct_utf8_sequence_cases:
  assumes "is_correct_utf8_sequence m = Inr (True, k)"
  obtains (1) "unat (m ! 0) < 0x80" "k = 1" "m \<noteq> []"
    | (2) "0xC2 \<le> unat (m ! 0)" "unat (m ! 0) < 0xE0" "unat (m ! 1) div 64 = 2" "k = 2" "2 \<le> length m"
    | (3) "0xE0 \<le> unat (m ! 0)" "unat (m ! 0) < 0xF0" "second_octet_ok (m ! 0) (m ! 1)"
        "unat (m ! 2) div 64 = 2" "k = 3" "3 \<le> length m"
    | (4) "0xF0 \<le> unat (m ! 0)" "unat (m ! 0) < 0xF5" "second_octet_ok (m ! 0) (m ! 1)"
        "unat (m ! 3) div 64 = 2" "k = 4" "4 \<le> length m"
  using assms that unfolding is_correct_utf8_sequence_def rd_def
  by (auto simp: word_le_nat_alt word_less_nat_alt tail_octet_iff split: if_splits)

lemma second_octet_ok_tail: "second_octet_ok a b \<Longrightarrow> unat b div 64 = 2"
proof -
  have "n div 32 = 5 \<Longrightarrow> n div 64 = 2" "n div 32 = 4 \<Longrightarrow> n div 64 = 2"
    "n div 16 = 8 \<Longrightarrow> n div 64 = 2" "0x90 \<le> n \<Longrightarrow> n \<le> 0xBF \<Longrightarrow> n div 64 = 2" for n :: nat
    by (simp_all add: div_nat_eqI dividend_less_times_div)
  then show "second_octet_ok a b \<Longrightarrow> unat b div 64 = 2"
    by (auto simp: second_octet_ok_iff split: if_splits)
qed

lemma is_correct_utf8_sequence_sound:
  assumes "is_correct_utf8_sequence m = Inr (True, k)"
    and "k = 4 \<Longrightarrow> m ! 2 AND 0xC0 = 0x80"
  shows "k \<le> length m \<and> (\<exists>n. is_scalar n \<and> map unat (take k m) = utf8_ref n)"
  using assms(1)
proof (cases rule: is_correct_utf8_sequence_cases)
  case 1
  then show ?thesis
    by (intro conjI exI [of _ "unat (m ! 0)"])
      (auto simp: is_scalar_def utf8_ref_def take_1_nth Suc_le_eq)
next
  case 2
  obtain y where y: "unat (m ! 1) = 0x80 + y" "y < 64" using unat_octet 2(3) by blast
  obtain x where x: "unat (m ! 0) = 0xC0 + x" "x < 32" "2 \<le> x"
    using 2(1,2) by (intro that [of "unat (m ! 0) - 0xC0"]) auto
  have "is_scalar (x * 64 + y)" using x y by (simp add: is_scalar_def)
  with x y 2 show ?thesis by (auto simp: take_nth utf8_ref_digits)
next
  case 3
  obtain x where x: "unat (m ! 0) = 0xE0 + x" "x < 16"
    using 3(1,2) by (intro that [of "unat (m ! 0) - 0xE0"]) auto
  obtain y where y: "unat (m ! 1) = 0x80 + y" "y < 64"
    using unat_octet second_octet_ok_tail 3(3) by blast
  obtain z where z: "unat (m ! 2) = 0x80 + z" "z < 64" using unat_octet 3(4) by blast
  have "0x800 \<le> (x * 64 + y) * 64 + z"
    using 3(3) x y z by (cases "x = 0") (auto simp: second_octet_ok_iff div_32_iff)
  moreover from this have "is_scalar ((x * 64 + y) * 64 + z)"
    using second_octet_ok_ref x y z 3(3) by blast
  moreover from calculation have "utf8_ref ((x * 64 + y) * 64 + z) = [0xE0 + x, 0x80 + y, 0x80 + z]"
    using x y z by (intro utf8_ref_digits)
  moreover have "map unat (take 3 m) = [0xE0 + x, 0x80 + y, 0x80 + z]"
    using x y z 3(6) by (simp add: take_nth del: One_nat_def)
  ultimately show ?thesis using 3(5,6) by metis
next
  case 4
  obtain v where v: "unat (m ! 0) = 0xF0 + v" "v < 5"
    using 4(1,2) by (intro that [of "unat (m ! 0) - 0xF0"]) auto
  obtain x where x: "unat (m ! 1) = 0x80 + x" "x < 64"
    using unat_octet second_octet_ok_tail 4(3) by blast
  have "unat (m ! 2) div 64 = 2" using assms(2) 4(5) by (simp add: tail_octet_iff)
  then obtain y where y: "unat (m ! 2) = 0x80 + y" "y < 64" using unat_octet by blast
  obtain z where z: "unat (m ! 3) = 0x80 + z" "z < 64" using unat_octet 4(4) by blast
  have "0x10000 \<le> ((v * 64 + x) * 64 + y) * 64 + z \<and> is_scalar (((v * 64 + x) * 64 + y) * 64 + z)"
    using second_octet_ok_ref4 v x y z 4(3) by blast
  moreover from this
  have "utf8_ref (((v * 64 + x) * 64 + y) * 64 + z) = [0xF0 + v, 0x80 + x, 0x80 + y, 0x80 + z]"
    using v x y z by (intro utf8_ref_digits) auto
  moreover have "map unat (take 4 m) = [0xF0 + v, 0x80 + x, 0x80 + y, 0x80 + z]"
    using v x y z 4(6) by (simp add: take_nth del: One_nat_def)
  ultimately show ?thesis using 4(5,6) by metis
qed

lemma utf8_char_roundtrip_ref:
  assumes "wchar_to_utf8_char w = Some bs"
  shows "utf8_char_to_wchar (Some (bs @ rest)) (length bs) = Inr (True, w)"
proof -
  have n: "unat w < 0x200000"
    using assms wchar_to_utf8_char_None [of w] by (cases "0x200000 \<le> unat w") auto
  then have "map unat bs = utf8_ref (unat w)"
    using wchar_to_utf8_char_ref [OF n] assms by simp
  then obtain w' where w': "utf8_char_to_wchar (Some (bs @ rest)) (length bs) = Inr (True, w')"
    and "unat w' = unat w"
    using utf8_decode_ref [OF n] by blast
  then have "w' = w" by (simp add: word_unat_eq_iff)
  with w' show ?thesis by simp
qed

lemma get_octet_count_ref:
  assumes "n < 0x200000" and "map unat bs = utf8_ref n"
  shows "get_octet_count (hd bs) = length bs"
  using assms(1)
proof (cases n rule: utf8_ref_cases)
qed (use assms(2) in \<open>auto simp: map_eq_Cons_conv get_octet_count_eq\<close>)

text \<open>
  Decoding what \<^verbatim>\<open>wchar_to_utf8_char\<close> wrote gives the character back, with the length the
  encoder reported and whatever bytes follow, and \<^verbatim>\<open>get_octet_count\<close> of the first octet is that
  length.
\<close>

lemma utf8_char_roundtrip:
  assumes "wchar_to_utf8_char w = Some bs"
  shows "utf8_char_to_wchar (Some (bs @ rest)) (length bs) = Inr (True, w) \<and>
    get_octet_count (hd bs) = length bs"
proof -
  have n: "unat w < 0x200000"
    using assms wchar_to_utf8_char_None [of w] by (cases "0x200000 \<le> unat w") auto
  with assms wchar_to_utf8_char_ref [OF n] show ?thesis
    by (simp add: utf8_char_roundtrip_ref get_octet_count_ref)
qed

lemma utf8_char_roundtrip_example:
  "wchar_to_utf8_char 0x20AC = Some [0xE2, 0x82, 0xAC] \<and>
   utf8_char_to_wchar (Some [0xE2, 0x82, 0xAC, 0x21]) 3 = Inr (True, 0x20AC) \<and>
   get_octet_count 0xE2 = 3"
proof -
  have e: "wchar_to_utf8_char 0x20AC = Some [0xE2, 0x82, 0xAC]"
    by (simp add: wchar_to_utf8_char_def)
  from e utf8_char_roundtrip [OF e, of "[0x21]"] show ?thesis
    by (simp add: eval_nat_numeral del: utf8_tail_loop_numeral)
qed

text \<open>
  C14: \<^verbatim>\<open>is_correct_utf8_sequence\<close> accepts exactly the encodings of the Unicode scalar values
  (no overlong form, no surrogate, nothing above U+10FFFF), provided the third byte of a
  four byte sequence, which the code does not look at, is a continuation byte.
\<close>

theorem utf8_check_exact:
  assumes "k = 4 \<Longrightarrow> m ! 2 AND 0xC0 = 0x80"
  shows "is_correct_utf8_sequence m = Inr (True, k) \<longleftrightarrow>
    (\<exists>n bs rest. is_scalar n \<and> m = bs @ rest \<and> length bs = k \<and> map unat bs = utf8_ref n)"
proof
  assume "is_correct_utf8_sequence m = Inr (True, k)"
  then obtain n where "k \<le> length m" "is_scalar n" "map unat (take k m) = utf8_ref n"
    using is_correct_utf8_sequence_sound assms by blast
  then show "\<exists>n bs rest. is_scalar n \<and> m = bs @ rest \<and> length bs = k \<and> map unat bs = utf8_ref n"
    by (intro exI [of _ n] exI [of _ "take k m"] exI [of _ "drop k m"]) simp
qed (auto intro: is_correct_utf8_sequence_complete)

theorem utf8_check_exact_witness:
  "[0xF0, 0x9F, 0x98, 0x80 :: byte] ! 2 AND 0xC0 = 0x80 \<and>
   is_correct_utf8_sequence [0xF0, 0x9F, 0x98, 0x80] = Inr (True, 4)"
proof -
  have h: "[0xF0, 0x9F, 0x98, 0x80 :: byte] ! 2 AND 0xC0 = 0x80" by simp
  have "is_scalar 0x1F600 \<and> [0xF0, 0x9F, 0x98, 0x80 :: byte] = [0xF0, 0x9F, 0x98, 0x80] @ [] \<and>
      length [0xF0, 0x9F, 0x98, 0x80 :: byte] = 4 \<and>
      map unat [0xF0, 0x9F, 0x98, 0x80 :: byte] = utf8_ref 0x1F600"
    by (simp add: is_scalar_def utf8_ref_def)
  then have "is_correct_utf8_sequence [0xF0, 0x9F, 0x98, 0x80] = Inr (True, 4)"
    using utf8_check_exact [OF h, THEN iffD2] by blast
  with h show ?thesis by blast
qed

text \<open>A string of encoded scalar values up to its terminator is accepted as a whole.\<close>

lemma utf8_ref_hd: "is_scalar n \<Longrightarrow> n \<noteq> 0 \<Longrightarrow> map unat bs = utf8_ref n \<Longrightarrow> bs \<noteq> [] \<and> hd bs \<noteq> 0"
  by (cases bs) (auto simp: utf8_ref_def is_scalar_def split: if_splits)

lemma utf8_string_loop_accepts:
  assumes "\<forall>n\<in>set ns. is_scalar n \<and> n \<noteq> 0" "map unat bs = concat (map utf8_ref ns)"
  shows "utf8_string_loop (pre @ bs @ 0 # rest) (length pre) = Inr None"
  using assms
proof (induction ns arbitrary: pre bs)
  case Nil
  then show ?case by (simp add: utf8_string_loop.simps rd_def)
next
  case (Cons n ns)
  define b1 b2 where "b1 = take (length (utf8_ref n)) bs" and "b2 = drop (length (utf8_ref n)) bs"
  have b: "bs = b1 @ b2" "map unat b1 = utf8_ref n" "map unat b2 = concat (map utf8_ref ns)"
    using Cons.prems(2) by (simp_all add: b1_def b2_def flip: take_map drop_map)
  have n: "is_scalar n" "n \<noteq> 0" using Cons.prems(1) by simp_all
  note h = utf8_ref_hd [OF n b(2)]
  then obtain c cs where "b1 = c # cs" "c \<noteq> 0" by (cases b1) auto
  moreover have "is_correct_utf8_sequence (b1 @ b2 @ 0 # rest) = Inr (True, length b1)"
    by (rule is_correct_utf8_sequence_complete [OF n(1) b(2)])
  moreover have "utf8_string_loop ((pre @ b1) @ b2 @ 0 # rest) (length (pre @ b1)) = Inr None"
    by (rule Cons.IH [OF _ b(3)]) (use Cons.prems(1) in simp)
  ultimately show ?case
    by (subst utf8_string_loop.simps) (simp add: b(1) rd_def nth_append)
qed

lemma utf8_string_accepts:
  assumes "\<forall>n\<in>set ns. is_scalar n \<and> n \<noteq> 0" "map unat bs = concat (map utf8_ref ns)"
  shows "is_correct_utf8_string (bs @ 0 # rest) = Inr None"
  using utf8_string_loop_accepts [OF assms, of "[]"] by (simp add: is_correct_utf8_string_def)

text \<open>
  The third byte of a four byte sequence is never checked: whatever it is, the sequence
  \<^verbatim>\<open>F0 90 xx 80\<close> passes the check, although the decoder refuses it unless \<^verbatim>\<open>xx\<close> is a continuation
  byte; and on a string that ends after the second byte the check reads behind the
  terminator.
\<close>

lemma utf8_check_skips_third_octet:
  "is_correct_utf8_sequence (0xF0 # 0x90 # c # 0x80 # rest) = Inr (True, 4) \<and>
   (\<exists>w. utf8_char_to_wchar (Some (0xF0 # 0x90 # c # 0x80 # rest)) 4 = Inr (c AND 0xC0 = 0x80, w)) \<and>
   is_correct_utf8_sequence [0xF0, 0x90, 0] = Inl OutOfBounds"
  by (simp add: is_correct_utf8_sequence_def second_octet_ok_def utf8_char_to_wchar_def
      FIRST_BYTE_MASKS_def)

end
