(* ===== verification/Utf8_Convert.thy ===== *)
theory Utf8_Convert
  imports Utf8_Handler
begin

text \<open>
  The conversions between UTF-8 text and wide strings of \<^verbatim>\<open>src/src/String/StringManip.cpp\<close> and
  \<^verbatim>\<open>StringManip.ipp\<close>: \<^verbatim>\<open>wchar_to_utf8\<close> of a character and of a string, \<^verbatim>\<open>utf8_to_wchar\<close>, and
  \<^verbatim>\<open>utf8_substr\<close>, which cuts a text at a symbol boundary.
\<close>

section \<open>Operations\<close>

text \<open>What \<^verbatim>\<open>wchar_to_utf8(wchar_t, std::string&)\<close> appends.\<close>

definition wchar_to_utf8 :: "wchar \<Rightarrow> bytes" where
  "wchar_to_utf8 ucs4_char =
     (if ucs4_char < 0x80 then [ucast (ucs4_char AND 0x7F)]
      else if ucs4_char < 0x10000 then
        (if ucs4_char < 0x800 then
           [ucast (drop_bit 6 ucs4_char AND 0x1F OR 0xC0), ucast (ucs4_char AND 0x3F OR 0x80)]
         else
           [ucast (drop_bit 12 ucs4_char AND 0x0F OR 0xE0),
            ucast (drop_bit 6 ucs4_char AND 0x3F OR 0x80), ucast (ucs4_char AND 0x3F OR 0x80)])
      else
        (if ucs4_char < 0x200000 then
           [ucast (drop_bit 18 ucs4_char AND 0x07 OR 0xF0),
            ucast (drop_bit 12 ucs4_char AND 0x3F OR 0x80),
            ucast (drop_bit 6 ucs4_char AND 0x3F OR 0x80), ucast (ucs4_char AND 0x3F OR 0x80)]
         else if ucs4_char < 0x04000000 then
           [ucast (drop_bit 24 ucs4_char AND 0x03 OR 0xF8),
            ucast (drop_bit 18 ucs4_char AND 0x3F OR 0x80),
            ucast (drop_bit 12 ucs4_char AND 0x3F OR 0x80),
            ucast (drop_bit 6 ucs4_char AND 0x3F OR 0x80), ucast (ucs4_char AND 0x3F OR 0x80)]
         else
           [ucast (drop_bit 30 ucs4_char AND 0x01 OR 0xFC),
            ucast (drop_bit 24 ucs4_char AND 0x3F OR 0x80),
            ucast (drop_bit 18 ucs4_char AND 0x3F OR 0x80),
            ucast (drop_bit 12 ucs4_char AND 0x3F OR 0x80),
            ucast (drop_bit 6 ucs4_char AND 0x3F OR 0x80), ucast (ucs4_char AND 0x3F OR 0x80)]))"

text \<open>The overload on a terminated wide string; \<open>None\<close> is the null pointer.\<close>

fun wchar_to_utf8_loop :: "wchar list \<Rightarrow> bytes result" where
  "wchar_to_utf8_loop [] = Inl OutOfBounds"
| "wchar_to_utf8_loop (current # src) =
     (if current = 0 then Inr [] else rmap (append (wchar_to_utf8 current)) (wchar_to_utf8_loop src))"

definition wchar_to_utf8_wcstr :: "wchar list option \<Rightarrow> bytes result" where
  "wchar_to_utf8_wcstr src =
     (case src of None \<Rightarrow> Inr [] | Some src \<Rightarrow> wchar_to_utf8_loop src)"

text \<open>The overload on a \<^verbatim>\<open>WSubString\<close>.\<close>

fun wchar_to_utf8_string :: "wchar list \<Rightarrow> bytes" where
  "wchar_to_utf8_string [] = []"
| "wchar_to_utf8_string (current # src) = wchar_to_utf8 current @ wchar_to_utf8_string src"

text \<open>The result array holds the terminator.\<close>

function utf8_to_wchar_loop :: "bytes \<Rightarrow> wchar list result" where
  "utf8_to_wchar_loop cur =
     (if length cur = 0 then Inr [0]
      else let len = get_octet_count (hd cur)
        in if length cur < len then
             Inl (InvalidFormat ''Incomplete octet sequence in UTF-8 string'')
           else if len = 0 then Inl (InvalidFormat ''Invalid octet in UTF-8 string'')
           else rbind (utf8_char_to_wchar (Some cur) len) (\<lambda>(decoded, wch).
             if \<not> decoded then Inl (InvalidFormat ''Invalid octet in UTF-8 string'')
             else rmap ((#) wch) (utf8_to_wchar_loop (drop len cur))))"
  by pat_completeness auto
termination by (relation "measure length") auto

declare utf8_to_wchar_loop.simps [simp del]

definition utf8_to_wchar :: "bytes \<Rightarrow> wchar list result" where
  "utf8_to_wchar src = utf8_to_wchar_loop src"

function utf8_substr_loop :: "bytes \<Rightarrow> nat \<Rightarrow> nat \<Rightarrow> nat option" where
  "utf8_substr_loop src max_octets len =
     (if max_octets = 0 \<or> \<not> len < length src then Some len
      else let octets = get_octet_count (src ! len)
        in if octets > max_octets then Some len
           else if octets = 0 \<or> len + octets > length src then None
           else if list_all (\<lambda>c. c AND 0xC0 = 0x80) (take (octets - 1) (drop (len + 1) src))
           then utf8_substr_loop src (max_octets - octets) (len + octets)
           else None)"
  by pat_completeness auto
termination by (relation "measure (\<lambda>(src, max_octets, len). max_octets)") auto

declare utf8_substr_loop.simps [simp del]

definition utf8_substr :: "bytes \<Rightarrow> nat \<Rightarrow> bytes option" where
  "utf8_substr src max_octets =
     map_option (\<lambda>len. take len src) (utf8_substr_loop src max_octets 0)"

section \<open>Correctness\<close>

text \<open>The codes with an encoding of at most four octets.\<close>

definition encodable :: "wchar \<Rightarrow> bool" where
  "encodable w \<longleftrightarrow> unat w < 0x200000"

lemma octet7_unat_wchar: "unat (ucast (x AND 0x7F) :: byte) = unat x mod 128" for x :: wchar
  using word_and_mask_unat [of x 7] by (simp add: mask_eq_decr_exp unsigned_ucast_eq take_bit_nat_eq_self)

lemma wchar_to_utf8_ref:
  assumes "encodable w"
  shows "map unat (wchar_to_utf8 w) = utf8_ref (unat w)"
  using assms unfolding wchar_to_utf8_def encodable_def
  by (simp add: word_less_nat_alt utf8_ref_def octet_unats_wchar octet7_unat_wchar unat_drop_bit_div
      div_mult2_eq [symmetric])

text \<open>Both encoders of the library write the same octets.\<close>

lemma wchar_to_utf8_char_eq:
  assumes "encodable w"
  shows "wchar_to_utf8_char w = Some (wchar_to_utf8 w)"
proof -
  obtain bs where bs: "wchar_to_utf8_char w = Some bs" "map unat bs = utf8_ref (unat w)"
    using wchar_to_utf8_char_ref [of w] assms by (auto simp: encodable_def)
  then have "map unat bs = map unat (wchar_to_utf8 w)"
    using wchar_to_utf8_ref [OF assms] by simp
  then have "bs = wchar_to_utf8 w"
    by (rule map_injective) (auto simp: inj_def word_unat_eq_iff)
  with bs(1) show ?thesis by simp
qed

lemma wchar_to_utf8_nonempty [simp]: "wchar_to_utf8 w \<noteq> []"
  by (simp add: wchar_to_utf8_def)

lemma get_octet_count_utf8:
  assumes "encodable w"
  shows "get_octet_count (hd (wchar_to_utf8 w)) = length (wchar_to_utf8 w)"
  using get_octet_count_ref [of "unat w" "wchar_to_utf8 w"] wchar_to_utf8_ref [OF assms] assms
  by (simp add: encodable_def)

lemma wchar_to_utf8_string_concat: "wchar_to_utf8_string ws = concat (map wchar_to_utf8 ws)"
  by (induction ws) simp_all

lemma wchar_to_utf8_loop_string:
  "0 \<notin> set ws \<Longrightarrow> wchar_to_utf8_loop (ws @ 0 # rest) = Inr (wchar_to_utf8_string ws)"
  by (induction ws) auto

lemma utf8_to_wchar_step:
  assumes "encodable w"
  shows "utf8_to_wchar_loop (wchar_to_utf8 w @ rest) = rmap (append [w]) (utf8_to_wchar_loop rest)"
proof -
  have "hd (wchar_to_utf8 w @ rest) = hd (wchar_to_utf8 w)" by (simp add: hd_append)
  then have "get_octet_count (hd (wchar_to_utf8 w @ rest)) = length (wchar_to_utf8 w)"
    using get_octet_count_utf8 [OF assms] by simp
  moreover have "utf8_char_to_wchar (Some (wchar_to_utf8 w @ rest)) (length (wchar_to_utf8 w)) = Inr (True, w)"
    by (rule utf8_char_roundtrip_ref) (rule wchar_to_utf8_char_eq [OF assms])
  ultimately show ?thesis
    by (cases "utf8_to_wchar_loop rest")
      (simp_all add: utf8_to_wchar_loop.simps [of "wchar_to_utf8 w @ rest"] Let_def)
qed

text \<open>The terminator is what the decoder of a text leaves at the end.\<close>

definition utf8_to_wchar_text :: "bytes \<Rightarrow> wchar list result" where
  "utf8_to_wchar_text src = rmap butlast (utf8_to_wchar_loop src)"

lemma utf8_to_wchar_loop_nonempty: "utf8_to_wchar_loop cur = Inr ws \<Longrightarrow> ws \<noteq> []"
  by (subst (asm) utf8_to_wchar_loop.simps) (auto simp: Let_def split: if_splits)

interpretation utf8_codec: stream_codec wchar_to_utf8 "\<lambda>w. [w]" utf8_to_wchar_text encodable
proof (unfold_locales, goal_cases)
  case 1
  show ?case by (simp add: utf8_to_wchar_text_def utf8_to_wchar_loop.simps)
next
  case (2 w rest)
  then show ?case
    using utf8_to_wchar_step [of w rest] utf8_to_wchar_loop_nonempty [of rest]
    by (cases "utf8_to_wchar_loop rest") (auto simp: utf8_to_wchar_text_def)
qed

lemma wchar_to_utf8_tail:
  assumes "encodable w"
  shows "list_all (\<lambda>c. c AND 0xC0 = 0x80) (tl (wchar_to_utf8 w))"
proof -
  have "unat w < 0x200000" using assms by (simp add: encodable_def)
  then have "\<forall>n\<in>set (tl (utf8_ref (unat w))). n div 64 = 2"
    by (cases "unat w" rule: utf8_ref_cases) (auto simp: octet_arith)
  then have "\<forall>n\<in>set (map unat (tl (wchar_to_utf8 w))). n div 64 = 2"
    by (simp only: map_tl wchar_to_utf8_ref [OF assms])
  then show ?thesis by (simp add: list_all_iff tail_octet_iff)
qed

lemma utf8_substr_loop_fit:
  assumes "list_all encodable ws"
  shows "\<exists>k\<le>length ws.
    utf8_substr_loop (pre @ wchar_to_utf8_string ws) max_octets (length pre) =
      Some (length pre + length (wchar_to_utf8_string (take k ws))) \<and>
    length (wchar_to_utf8_string (take k ws)) \<le> max_octets \<and>
    (k < length ws \<longrightarrow> max_octets < length (wchar_to_utf8_string (take (Suc k) ws)))"
  using assms
proof (induction ws arbitrary: pre max_octets)
  case Nil
  then show ?case by (simp add: utf8_substr_loop.simps)
next
  case (Cons w ws)
  let ?u = "wchar_to_utf8 w" and ?r = "wchar_to_utf8_string ws"
  have w: "encodable w" using Cons.prems by simp
  have n: "0 < length ?u" by simp
  have nth: "(pre @ ?u @ ?r) ! length pre = hd ?u"
    by (simp add: nth_append hd_conv_nth)
  note loop = utf8_substr_loop.simps [of "pre @ ?u @ ?r" max_octets "length pre"]
  show ?case
  proof (cases "length ?u \<le> max_octets")
    case False
    then show ?thesis
      using n by (intro exI [of _ 0]) (simp add: loop nth get_octet_count_utf8 [OF w] Let_def)
  next
    case True
    have tail: "take (length ?u - 1) (drop (length pre + 1) (pre @ ?u @ ?r)) = tl ?u"
      by (cases ?u) auto
    obtain k where "k \<le> length ws"
      "utf8_substr_loop ((pre @ ?u) @ ?r) (max_octets - length ?u) (length (pre @ ?u)) =
        Some (length (pre @ ?u) + length (wchar_to_utf8_string (take k ws)))"
      "length (wchar_to_utf8_string (take k ws)) \<le> max_octets - length ?u"
      "k < length ws \<longrightarrow> max_octets - length ?u < length (wchar_to_utf8_string (take (Suc k) ws))"
      using Cons.IH [of "pre @ ?u" "max_octets - length ?u"] Cons.prems by auto
    moreover have "utf8_substr_loop (pre @ ?u @ ?r) max_octets (length pre) =
        utf8_substr_loop (pre @ ?u @ ?r) (max_octets - length ?u) (length pre + length ?u)"
      using True n wchar_to_utf8_tail [OF w] order.strict_trans2 [OF n True]
      unfolding loop Let_def nth get_octet_count_utf8 [OF w] tail by simp
    ultimately show ?thesis using True by (intro exI [of _ "Suc k"]) auto
  qed
qed

text \<open>
  C17: \<^verbatim>\<open>utf8_to_wchar\<close> gives back, with its terminator, the wide string that \<^verbatim>\<open>wchar_to_utf8\<close>
  wrote, for all codes below 0x200000; the overload on a terminated wide string writes the
  same text; and on each of these codes it agrees with \<^verbatim>\<open>UTF8Handler::wchar_to_utf8_char\<close>.
\<close>

theorem utf8_string_roundtrip:
  assumes "list_all (\<lambda>w. unat w < 0x200000) ws"
  shows "utf8_to_wchar (wchar_to_utf8_string ws) = Inr (ws @ [0]) \<and>
    (0 \<notin> set ws \<longrightarrow> wchar_to_utf8_wcstr (Some (ws @ 0 # rest)) = Inr (wchar_to_utf8_string ws)) \<and>
    list_all (\<lambda>w. wchar_to_utf8_char w = Some (wchar_to_utf8 w)) ws"
proof (intro conjI impI)
  have e: "list_all encodable ws" using assms by (simp add: list_all_iff encodable_def)
  have "utf8_to_wchar_loop (wchar_to_utf8_string ws) = Inr (ws @ [0])"
    using e
  proof (induction ws)
    case Nil
    then show ?case by (simp add: utf8_to_wchar_loop.simps)
  next
    case (Cons w ws)
    then show ?case by (simp add: utf8_to_wchar_step)
  qed
  then show "utf8_to_wchar (wchar_to_utf8_string ws) = Inr (ws @ [0])"
    by (simp add: utf8_to_wchar_def)
  show "list_all (\<lambda>w. wchar_to_utf8_char w = Some (wchar_to_utf8 w)) ws"
    using e by (auto simp: list_all_iff wchar_to_utf8_char_eq)
qed (simp add: wchar_to_utf8_wcstr_def wchar_to_utf8_loop_string)

theorem utf8_string_roundtrip_witness:
  "list_all (\<lambda>w. unat w < 0x200000) [0x41, 0x20AC :: wchar] \<and>
   utf8_to_wchar [0x41, 0xE2, 0x82, 0xAC] = Inr [0x41, 0x20AC, 0]"
proof -
  have h: "list_all (\<lambda>w. unat w < 0x200000) [0x41, 0x20AC :: wchar]" by simp
  have "wchar_to_utf8_string [0x41, 0x20AC] = [0x41, 0xE2, 0x82, 0xAC]"
    by (simp add: wchar_to_utf8_def)
  with h utf8_string_roundtrip [OF h] show ?thesis by simp
qed

text \<open>
  \<^verbatim>\<open>utf8_substr\<close> of a well-formed text cuts it between two symbols and keeps as many
  symbols as fit into the given number of octets.
\<close>

lemma utf8_substr_maximal:
  assumes "list_all (\<lambda>w. unat w < 0x200000) ws"
  shows "\<exists>k\<le>length ws. utf8_substr (wchar_to_utf8_string ws) max_octets =
      Some (wchar_to_utf8_string (take k ws)) \<and>
    length (wchar_to_utf8_string (take k ws)) \<le> max_octets \<and>
    (k < length ws \<longrightarrow> max_octets < length (wchar_to_utf8_string (take (Suc k) ws)))"
proof -
  have "list_all encodable ws" using assms by (simp add: list_all_iff encodable_def)
  then obtain k where k: "k \<le> length ws"
    "utf8_substr_loop (wchar_to_utf8_string ws) max_octets 0 =
      Some (length (wchar_to_utf8_string (take k ws)))"
    "length (wchar_to_utf8_string (take k ws)) \<le> max_octets"
    "k < length ws \<longrightarrow> max_octets < length (wchar_to_utf8_string (take (Suc k) ws))"
    using utf8_substr_loop_fit [of ws "[]" max_octets] by auto
  have "wchar_to_utf8_string ws = wchar_to_utf8_string (take k ws) @ wchar_to_utf8_string (drop k ws)"
    unfolding wchar_to_utf8_string_concat by (metis append_take_drop_id concat_append map_append)
  then have "take (length (wchar_to_utf8_string (take k ws))) (wchar_to_utf8_string ws) =
      wchar_to_utf8_string (take k ws)" by simp
  with k show ?thesis by (intro exI [of _ k]) (simp add: utf8_substr_def)
qed

lemma utf8_substr_maximal_example:
  "utf8_substr [0x41, 0xE2, 0x82, 0xAC] 3 = Some [0x41] \<and>
   (\<exists>k\<le>2. utf8_substr [0x41, 0xE2, 0x82, 0xAC] 3 = Some (wchar_to_utf8_string (take k [0x41, 0x20AC])))"
proof -
  have h: "list_all (\<lambda>w. unat w < 0x200000) [0x41, 0x20AC :: wchar]" by simp
  have e: "wchar_to_utf8_string [0x41, 0x20AC] = [0x41, 0xE2, 0x82, 0xAC]"
    by (simp add: wchar_to_utf8_def)
  have "utf8_substr [0x41, 0xE2, 0x82, 0xAC] 3 = Some [0x41]"
    by (simp add: utf8_substr_def utf8_substr_loop.simps get_octet_count_eq Let_def)
  moreover have "\<exists>k\<le>2. utf8_substr [0x41, 0xE2, 0x82, 0xAC] 3 =
      Some (wchar_to_utf8_string (take k [0x41, 0x20AC]))"
    using utf8_substr_maximal [OF h, of 3] unfolding e by (metis length_Cons list.size(3) numeral_2_eq_2)
  ultimately show ?thesis by blast
qed

end
