(* ===== verification/Xml_Codec.thy ===== *)
theory Xml_Codec
  imports Utf8_Convert
begin

text \<open>
  \<^verbatim>\<open>xml_encode\<close> (of UTF-8 text and of wide strings) and \<^verbatim>\<open>xml_decode\<close> of
  \<^verbatim>\<open>src/src/String/StringManip.cpp\<close> with their helpers in the \<^verbatim>\<open>XmlEncode\<close> namespace.  A
  terminated source is the memory from its first character on, the terminator and what
  lies behind it included.
\<close>

section \<open>Encoding\<close>

definition XU_TEXT :: ulong where "XU_TEXT = 0x1"

definition XU_ATTRIBUTE :: ulong where "XU_ATTRIBUTE = 0x2"

definition XU_PRESERVE_UTF8 :: ulong where "XU_PRESERVE_UTF8 = 0x4"

text \<open>The units a call works with: none given stands for the default ones.\<close>

definition xml_encode_units :: "ulong \<Rightarrow> ulong" where
  "xml_encode_units units = (if units = 0 then XU_TEXT OR XU_ATTRIBUTE else units)"

definition xml_special :: "ulong \<Rightarrow> byte \<Rightarrow> bytes" where
  "xml_special units symbol =
     (if symbol = ch CHR ''<'' then chars ''&lt;''
      else if symbol = ch CHR ''>'' then chars ''&gt;''
      else if symbol = ch CHR ''&'' then chars ''&amp;''
      else if units AND XU_ATTRIBUTE \<noteq> 0 \<and> symbol = 0x27 then chars ''&apos;''
      else if units AND XU_ATTRIBUTE \<noteq> 0 \<and> symbol = 0x22 then chars ''&quot;''
      else [symbol])"

text \<open>
  \<^verbatim>\<open>wchar_to_hex\<close>: the position \<open>k\<close> of a hexadecimal digit stands for \<^verbatim>\<open>shift = 4 * k\<close> and
  \<^verbatim>\<open>mask = 0xF << shift\<close>.  The first loop finds the first digit that is not zero, the second
  writes the digits from there on, into a buffer of eleven characters.
\<close>

fun hex_skip_loop :: "wchar \<Rightarrow> nat \<Rightarrow> nat" where
  "hex_skip_loop ucs 0 = 0"
| "hex_skip_loop ucs (Suc k) =
     (if ucs AND push_bit (4 * Suc k) 0xF = 0 then hex_skip_loop ucs k else Suc k)"

fun hex_emit_loop :: "wchar \<Rightarrow> nat \<Rightarrow> bytes" where
  "hex_emit_loop ucs 0 = [HEX_DIGITS ! unat (ucs AND 0xF)]"
| "hex_emit_loop ucs (Suc k) =
     HEX_DIGITS ! unat (drop_bit (4 * Suc k) (ucs AND push_bit (4 * Suc k) 0xF)) #
     hex_emit_loop ucs k"

definition wchar_to_hex :: "wchar \<Rightarrow> bytes result" where
  "wchar_to_hex ucs =
     (if \<not> ucs > 0 then Inl AssertionFailed
      else let buf = chars ''&#x'' @ hex_emit_loop ucs (hex_skip_loop ucs 7) @ chars '';''
           in if length buf > 11 then Inl OutOfBounds else Inr buf)"

definition xml_encode_symbol :: "ulong \<Rightarrow> bytes \<Rightarrow> nat \<Rightarrow> bytes result" where
  "xml_encode_symbol units src octets_count =
     rbind (rd src 0) (\<lambda>current.
       if octets_count = 1 \<and> 0x20 \<le>s current \<and> current \<le>s 0x7E
       then Inr (xml_special units current)
       else if units AND XU_PRESERVE_UTF8 \<noteq> 0 then Inr (take octets_count src)
       else rbind (utf8_char_to_wchar (Some src) octets_count) (\<lambda>(_, ucs). wchar_to_hex ucs))"

lemma is_correct_utf8_sequence_pos: "is_correct_utf8_sequence m = Inr (True, k) \<Longrightarrow> 0 < k \<and> m \<noteq> []"
  by (erule is_correct_utf8_sequence_cases) auto

function xml_encode_loop :: "ulong \<Rightarrow> bytes \<Rightarrow> bytes result" where
  "xml_encode_loop units src =
     rbind (rd src 0) (\<lambda>current.
       if current = 0 then Inr []
       else rbind (is_correct_utf8_sequence src) (\<lambda>(correct, octets_count).
         if \<not> correct then Inl (InvalidFormat ''Invalid source UTF-8 string'')
         else rbind (xml_encode_symbol units src octets_count) (\<lambda>piece.
           rmap (append piece) (xml_encode_loop units (drop octets_count src)))))"
  by pat_completeness auto
termination
  by (relation "measure (\<lambda>(units, src). length src)") (auto dest: is_correct_utf8_sequence_pos)

declare xml_encode_loop.simps [simp del]

definition xml_encode :: "bytes option \<Rightarrow> ulong \<Rightarrow> bytes result" where
  "xml_encode src units =
     (case src of
        None \<Rightarrow> Inr []
      | Some src \<Rightarrow> xml_encode_loop (xml_encode_units units) src)"

definition xml_encode_wsymbol :: "ulong \<Rightarrow> wchar \<Rightarrow> bytes result" where
  "xml_encode_wsymbol units current =
     (let l_byte = (ucast current :: byte)
      in if drop_bit 8 current = 0 \<and> 0x20 \<le>s l_byte \<and> l_byte \<le>s 0x7E
         then Inr (xml_special units l_byte)
         else if units AND XU_PRESERVE_UTF8 \<noteq> 0 then Inr (wchar_to_utf8 current)
         else wchar_to_hex current)"

fun xml_encode_wloop :: "ulong \<Rightarrow> wchar list \<Rightarrow> bytes result" where
  "xml_encode_wloop units [] = Inl OutOfBounds"
| "xml_encode_wloop units (current # src) =
     (if current = 0 then Inr []
      else rbind (xml_encode_wsymbol units current) (\<lambda>piece.
        rmap (append piece) (xml_encode_wloop units src)))"

definition xml_encode_wchar :: "wchar list option \<Rightarrow> ulong \<Rightarrow> bytes result" where
  "xml_encode_wchar src units =
     (case src of
        None \<Rightarrow> Inr []
      | Some src \<Rightarrow> xml_encode_wloop (xml_encode_units units) src)"

section \<open>Decoding\<close>

fun hex_value_loop :: "wchar \<Rightarrow> bytes \<Rightarrow> wchar result" where
  "hex_value_loop value [] = Inr value"
| "hex_value_loop value (c # cs) =
     (if \<not> HEX_NUMBER c then Inl (InvalidFormat ''invalid char code'')
      else hex_value_loop (push_bit 4 value OR ucast (hex_to_int c)) cs)"

text \<open>The text that a tag, what stands between the ampersand and the semicolon, is replaced by.\<close>

definition xml_char_code :: "bytes \<Rightarrow> bytes result" where
  "xml_char_code digits =
     (let found = dropWhile (\<lambda>c. c = ch CHR ''0'') digits
      in if found = [] then Inr [0]
         else if length found > 6 then Inl (InvalidFormat ''invalid char code'')
         else rbind (hex_value_loop 0 found) (\<lambda>value.
           case wchar_to_utf8_char value of
             None \<Rightarrow> Inl (InvalidFormat ''invalid char code'')
           | Some buf \<Rightarrow> Inr buf))"

definition xml_entity :: "bytes \<Rightarrow> bytes result" where
  "xml_entity tag =
     (if hd tag = ch CHR ''#'' \<and> 1 < length tag \<and> tag ! 1 = ch CHR ''x'' \<and> 2 < length tag
      then xml_char_code (drop 2 tag)
      else if tag = chars ''amp'' then Inr (chars ''&'')
      else if tag = chars ''apos'' then Inr [0x27]
      else if tag = chars ''gt'' then Inr (chars ''>'')
      else if tag = chars ''lt'' then Inr (chars ''<'')
      else if tag = chars ''quot'' then Inr [0x22]
      else Inl (InvalidFormat ''unknown sequence''))"

function xml_decode :: "bytes \<Rightarrow> bytes result" where
  "xml_decode src =
     (let pre = takeWhile (\<lambda>c. c \<noteq> ch CHR ''&'') src; found = drop (length pre) src
      in if found = [] then Inr pre
         else let tag = takeWhile (\<lambda>c. c \<noteq> ch CHR '';'') (tl found);
                  cur = drop (length tag) (tl found)
           in if cur = [] then Inl (InvalidFormat ''absent semicolon'')
              else if tag = [] then Inl (InvalidFormat ''empty sequence'')
              else rbind (xml_entity tag) (\<lambda>bs. rmap (append (pre @ bs)) (xml_decode (tl cur))))"
  by pat_completeness auto
termination by (relation "measure length") auto

declare xml_decode.simps [simp del]

section \<open>Correctness\<close>

subsection \<open>Hexadecimal character codes\<close>

lemma hex_digit_at: "unat (drop_bit n (ucs AND push_bit n 0xF)) = unat ucs div 2 ^ n mod 16"
  for ucs :: wchar
proof -
  have "drop_bit n (ucs AND push_bit n 0xF) = drop_bit n ucs AND mask 4"
  proof (rule bit_word_eqI)
    fix i assume "i < LENGTH(32)"
    have "n + i < 32" if "bit ucs (n + i)" using that by (auto dest: bit_imp_le_length)
    moreover have "(0xF :: wchar) = mask 4" by (simp add: mask_eq_decr_exp)
    ultimately show "bit (drop_bit n (ucs AND push_bit n 0xF)) i \<longleftrightarrow> bit (drop_bit n ucs AND mask 4) i"
      by (auto simp: bit_simps)
  qed
  then have "unat (drop_bit n (ucs AND push_bit n 0xF)) = unat (drop_bit n ucs) mod 2 ^ 4"
    by (simp only: word_and_mask_unat)
  then show ?thesis by (simp add: unat_drop_bit_div)
qed

lemma hex_digit_zero: "ucs AND push_bit n 0xF = 0 \<longleftrightarrow> unat ucs div 2 ^ n mod 16 = 0"
  for ucs :: wchar
proof
  assume "unat ucs div 2 ^ n mod 16 = 0"
  then have d: "drop_bit n (ucs AND push_bit n 0xF) = 0"
    using hex_digit_at [of n ucs] by (metis unat_eq_0)
  show "ucs AND push_bit n 0xF = 0"
  proof (rule bit_word_eqI)
    fix i
    have "\<not> bit (drop_bit n (ucs AND push_bit n 0xF)) (i - n)" unfolding d by simp
    then show "bit (ucs AND push_bit n 0xF) i \<longleftrightarrow> bit (0 :: wchar) i"
      by (auto simp: bit_simps)
  qed
qed (use hex_digit_at [of n ucs] in simp)

lemma power_16: "(16 :: nat) ^ k = 2 ^ (4 * k)"
  by (simp add: power_mult)

lemma hex_emit_loop_ref:
  "hex_emit_loop ucs k = map (\<lambda>i. HEX_DIGITS ! (unat ucs div 16 ^ i mod 16)) (rev [0..<Suc k])"
proof (induction k)
  case 0
  show ?case using word_and_mask_unat [of ucs 4] by (simp add: mask_eq_decr_exp)
next
  case (Suc k)
  have "hex_emit_loop ucs (Suc k) = HEX_DIGITS ! (unat ucs div 16 ^ Suc k mod 16) # hex_emit_loop ucs k"
    by (simp only: hex_emit_loop.simps hex_digit_at power_16)
  with Suc show ?case by simp
qed

lemma hex_skip_loop_le: "unat ucs < 16 ^ Suc k \<Longrightarrow> unat ucs < 16 ^ Suc (hex_skip_loop ucs k)"
proof (induction k)
  case (Suc k)
  show ?case
  proof (cases "ucs AND push_bit (4 * Suc k) 0xF = 0")
    case True
    then have "unat ucs div 16 ^ Suc k mod 16 = 0"
      by (simp only: power_16 hex_digit_zero)
    moreover have "unat ucs div 16 ^ Suc k < 16"
      using Suc.prems by (intro less_mult_imp_div_less) simp
    ultimately have "unat ucs div 16 ^ Suc k = 0" by simp
    then have "unat ucs < 16 ^ Suc k" by (simp add: div_eq_0_iff)
    with True Suc.IH show ?thesis by simp
  qed (use Suc.prems in simp)
qed simp

lemma hex_skip_loop_bound: "hex_skip_loop ucs k \<le> k"
  by (induction k) auto

lemma hex_skip_loop_digit:
  "hex_skip_loop ucs k \<noteq> 0 \<Longrightarrow> unat ucs div 16 ^ hex_skip_loop ucs k mod 16 \<noteq> 0"
proof (induction k)
  case (Suc k)
  show ?case
  proof (cases "ucs AND push_bit (4 * Suc k) 0xF = 0")
    case False
    then have "hex_skip_loop ucs (Suc k) = Suc k" by simp
    with False show ?thesis by (simp only: power_16 hex_digit_zero not_False_eq_True)
  qed (use Suc in simp)
qed simp

lemma hex_value_step:
  fixes "value" :: wchar and b :: byte
  assumes "unat value < 2 ^ 28" and "unat b < 16"
  shows "unat (push_bit 4 value OR ucast b) = unat value * 16 + unat b"
proof -
  have "b < 2 ^ 4" using assms(2) by (simp add: word_less_nat_alt)
  then have "\<forall>n. bit b n \<longrightarrow> n < 4" using word_less_power_iff_bits [of 4 b] by simp
  then have "push_bit 4 value AND ucast b = (0 :: wchar)"
    by (intro bit_word_eqI) (auto simp: bit_simps)
  moreover have "unat (push_bit 4 value) = unat value * 16"
    using assms(1) by (simp add: push_bit_eq_mult unat_word_ariths)
  ultimately show ?thesis
    using assms by (subst unat_or_disjoint) simp_all
qed

lemma hex_value_loop_emit:
  fixes ucs :: wchar
  assumes "unat ucs < 16 ^ 6" and "unat value = unat ucs div 16 ^ k"
  shows "hex_value_loop value (map (\<lambda>i. HEX_DIGITS ! (unat ucs div 16 ^ i mod 16)) (rev [0..<k])) = Inr ucs"
  using assms(2)
proof (induction k arbitrary: "value")
  case 0
  then show ?case by (simp add: word_unat_eq_iff)
next
  case (Suc k)
  define d where "d = unat ucs div 16 ^ k mod 16"
  have d: "d < 16" by (simp add: d_def)
  have "unat value \<le> unat ucs" unfolding Suc.prems by (rule div_le_dividend)
  with assms(1) have "unat value < 2 ^ 28" by simp
  then have "unat (push_bit 4 value OR ucast (hex_to_int (HEX_DIGITS ! d))) = unat value * 16 + d"
    using d by (subst hex_value_step) (simp_all add: hex_digit_roundtrip unat_of_nat)
  also have "\<dots> = unat ucs div 16 ^ k"
    unfolding Suc.prems d_def by (simp add: div_mult2_eq mult.commute [of 16])
  finally have "unat (push_bit 4 value OR ucast (hex_to_int (HEX_DIGITS ! d))) = unat ucs div 16 ^ k" .
  from Suc.IH [OF this] show ?case
    using hex_digit_roundtrip(1) [OF d] by (simp add: d_def)
qed

lemma HEX_DIGITS_zero: "v < 16 \<Longrightarrow> HEX_DIGITS ! v = ch CHR ''0'' \<longleftrightarrow> v = 0"
proof
  assume v: "v < 16" and "HEX_DIGITS ! v = ch CHR ''0''"
  then have "(word_of_nat v :: byte) = 0"
    using hex_digit_roundtrip(2) [of v] by (simp add: hex_to_int_def)
  then have "unat (word_of_nat v :: byte) = 0" by simp
  with v show "v = 0" by (simp add: unat_of_nat)
qed (simp add: HEX_DIGITS_def)

lemma hex_skip_loop_leading:
  assumes "ucs \<noteq> 0"
  shows "unat ucs div 16 ^ hex_skip_loop ucs 7 mod 16 \<noteq> 0"
proof (cases "hex_skip_loop ucs 7 = 0")
  case True
  have "unat ucs < 16 ^ Suc (hex_skip_loop ucs 7)"
    using unsigned_less [of ucs] by (intro hex_skip_loop_le) simp
  with True have "unat ucs div 16 ^ hex_skip_loop ucs 7 mod 16 = unat ucs" by simp
  with assms show ?thesis by (simp add: unat_eq_0)
qed (rule hex_skip_loop_digit)

lemma hex_skip_loop_small:
  assumes "unat ucs < 16 ^ n" and "ucs \<noteq> 0"
  shows "hex_skip_loop ucs 7 < n"
proof (rule ccontr)
  let ?k = "hex_skip_loop ucs 7"
  assume "\<not> ?k < n"
  then have "(16 :: nat) ^ n \<le> 16 ^ ?k" by (intro power_increasing) simp_all
  with assms(1) have "unat ucs < 16 ^ ?k" by (rule less_le_trans)
  then have "unat ucs div 16 ^ ?k = 0" by (simp add: div_eq_0_iff)
  with hex_skip_loop_leading [OF assms(2)] show False by simp
qed

lemma xml_char_code_hex:
  assumes "unat ucs < 0x200000" and "ucs \<noteq> 0"
  shows "xml_char_code (hex_emit_loop ucs (hex_skip_loop ucs 7)) = Inr (wchar_to_utf8 ucs)"
proof -
  let ?k = "hex_skip_loop ucs 7" and ?digits = "hex_emit_loop ucs (hex_skip_loop ucs 7)"
  have less: "unat ucs < 16 ^ Suc ?k"
    using assms(1) by (intro hex_skip_loop_le) simp
  have nz: "unat ucs div 16 ^ ?k mod 16 \<noteq> 0" using assms(2) by (rule hex_skip_loop_leading)
  have k6: "?k < 6" using assms by (intro hex_skip_loop_small) simp_all
  have digits: "?digits = map (\<lambda>i. HEX_DIGITS ! (unat ucs div 16 ^ i mod 16)) (rev [0..<Suc ?k])"
    by (rule hex_emit_loop_ref)
  have "dropWhile (\<lambda>c. c = ch CHR ''0'') ?digits = ?digits"
    using nz HEX_DIGITS_zero [of "unat ucs div 16 ^ ?k mod 16"] by (simp add: digits)
  moreover have "?digits \<noteq> []" "length ?digits \<le> 6" using k6 by (simp_all add: digits)
  moreover have "hex_value_loop 0 ?digits = Inr ucs"
    unfolding digits
    using assms(1) less by (intro hex_value_loop_emit) simp_all
  moreover have "wchar_to_utf8_char ucs = Some (wchar_to_utf8 ucs)"
    using assms(1) by (simp add: wchar_to_utf8_char_eq encodable_def)
  ultimately show ?thesis by (simp add: xml_char_code_def Let_def)
qed

subsection \<open>Decoding one symbol\<close>

lemma xml_decode_plain:
  assumes "list_all (\<lambda>c. c \<noteq> 0x26) bs"
  shows "xml_decode (bs @ rest) = rmap (append bs) (xml_decode rest)"
proof -
  have "takeWhile (\<lambda>c. c \<noteq> 0x26) (bs @ rest) = bs @ takeWhile (\<lambda>c. c \<noteq> 0x26) rest"
    using assms by (intro takeWhile_append2) (simp add: list_all_iff)
  then show ?thesis
    by (simp add: xml_decode.simps [of "bs @ rest"] xml_decode.simps [of rest] Let_def rmap_def
        rbind_def split: sum.splits)
qed

lemma xml_decode_entity:
  assumes "xml_entity tag = Inr bs" and "tag \<noteq> []" and "0x3B \<notin> set tag"
  shows "xml_decode (0x26 # tag @ 0x3B # rest) = rmap (append bs) (xml_decode rest)"
proof -
  have "takeWhile (\<lambda>c. c \<noteq> 0x3B) (tag @ 0x3B # rest) = tag"
    using assms(3) by (subst takeWhile_append2) auto
  with assms(1,2) show ?thesis
    by (simp add: xml_decode.simps [of "0x26 # tag @ 0x3B # rest"] Let_def)
qed

definition xml_plain :: "wchar \<Rightarrow> bool" where
  "xml_plain w \<longleftrightarrow> 0x20 \<le> unat w \<and> unat w \<le> 0x7E"

text \<open>The encoding of one symbol.\<close>

definition xml_symbol :: "ulong \<Rightarrow> wchar \<Rightarrow> bytes" where
  "xml_symbol units w =
     (if xml_plain w then xml_special units (ucast w)
      else if units AND XU_PRESERVE_UTF8 \<noteq> 0 then wchar_to_utf8 w
      else chars ''&#x'' @ hex_emit_loop w (hex_skip_loop w 7) @ chars '';'')"

definition xml_char :: "wchar \<Rightarrow> bool" where
  "xml_char w \<longleftrightarrow> is_scalar (unat w) \<and> w \<noteq> 0"

lemma xml_char_encodable: "xml_char w \<Longrightarrow> encodable w"
  by (auto simp: xml_char_def is_scalar_def encodable_def)

lemma wchar_to_utf8_ascii: "unat w < 0x80 \<Longrightarrow> wchar_to_utf8 w = [ucast w]"
proof -
  assume w: "unat w < 0x80"
  then have "w AND mask 7 = w"
    using word_and_mask_unat [of w 7] by (simp add: word_unat_eq_iff)
  with w show ?thesis by (simp add: wchar_to_utf8_def word_less_nat_alt mask_eq_decr_exp)
qed

lemma wchar_to_utf8_high:
  assumes "encodable w" and "0x80 \<le> unat w"
  shows "\<forall>c\<in>set (wchar_to_utf8 w). 0x80 \<le> unat c"
proof -
  have "\<forall>n\<in>set (utf8_ref (unat w)). 0x80 \<le> n"
    using assms(2) by (simp add: utf8_ref_def)
  then have "\<forall>n\<in>set (map unat (wchar_to_utf8 w)). 0x80 \<le> n"
    by (simp only: wchar_to_utf8_ref [OF assms(1)])
  then show ?thesis by simp
qed

lemma unat_ucast_ascii: "unat w < 0x80 \<Longrightarrow> unat (ucast (w :: wchar) :: byte) = unat w"
  by (simp add: unsigned_ucast_eq take_bit_nat_eq_self)

lemma wchar_to_utf8_no_ampersand:
  assumes "encodable w" and "unat w \<noteq> 0x26"
  shows "list_all (\<lambda>c. c \<noteq> 0x26) (wchar_to_utf8 w)"
proof (cases "unat w < 0x80")
  case True
  then have "unat (ucast w :: byte) \<noteq> unat (0x26 :: byte)"
    using assms(2) by (simp add: unat_ucast_ascii)
  then have "(ucast w :: byte) \<noteq> 0x26" by metis
  with True show ?thesis by (simp add: wchar_to_utf8_ascii)
next
  case False
  then have "\<forall>c\<in>set (wchar_to_utf8 w). 0x80 \<le> unat c"
    using assms(1) by (intro wchar_to_utf8_high) simp_all
  then show ?thesis by (auto simp: list_all_iff)
qed

lemma HEX_NUMBER_emit: "\<forall>c\<in>set (hex_emit_loop ucs k). HEX_NUMBER c"
  by (auto simp: hex_emit_loop_ref hex_digit_roundtrip simp del: upt_Suc)

lemma xml_decode_hex:
  assumes "xml_char w"
  shows "xml_decode (chars ''&#x'' @ hex_emit_loop w (hex_skip_loop w 7) @ chars '';'' @ rest) =
    rmap (append (wchar_to_utf8 w)) (xml_decode rest)"
proof -
  let ?d = "hex_emit_loop w (hex_skip_loop w 7)"
  have "?d \<noteq> []" by (simp add: hex_emit_loop_ref)
  moreover have "xml_char_code ?d = Inr (wchar_to_utf8 w)"
    using assms by (intro xml_char_code_hex) (auto simp: xml_char_def is_scalar_def)
  ultimately have "xml_entity (0x23 # 0x78 # ?d) = Inr (wchar_to_utf8 w)"
    by (simp add: xml_entity_def)
  moreover have "0x3B \<notin> set (0x23 # 0x78 # ?d)"
    using HEX_NUMBER_emit [of w "hex_skip_loop w 7"] by (auto simp: HEX_NUMBER_iff)
  ultimately show ?thesis
    using xml_decode_entity [of "0x23 # 0x78 # ?d"] by simp
qed

lemma xml_decode_special:
  "xml_decode (xml_special units c @ rest) = rmap (append [c]) (xml_decode rest)"
  unfolding xml_special_def
  using xml_decode_entity [of "chars ''lt''" "[0x3C]" rest] xml_decode_entity [of "chars ''gt''" "[0x3E]" rest]
    xml_decode_entity [of "chars ''amp''" "[0x26]" rest] xml_decode_entity [of "chars ''apos''" "[0x27]" rest]
    xml_decode_entity [of "chars ''quot''" "[0x22]" rest] xml_decode_plain [of "[c]" rest]
  by (simp add: xml_entity_def)

interpretation xml_codec: stream_codec "xml_symbol units" wchar_to_utf8 xml_decode xml_char
  for units
proof (unfold_locales, goal_cases)
  case 1
  show ?case by (simp add: xml_decode.simps)
next
  case (2 w rest)
  show ?case
  proof (cases "xml_plain w")
    case True
    then show ?thesis
      using xml_decode_special [of units "ucast w"]
      by (simp add: xml_symbol_def wchar_to_utf8_ascii xml_plain_def)
  next
    case False
    then have "unat w \<noteq> 0x26" by (auto simp: xml_plain_def)
    then have "list_all (\<lambda>c. c \<noteq> 0x26) (wchar_to_utf8 w)"
      by (intro wchar_to_utf8_no_ampersand xml_char_encodable [OF 2])
    with False 2 show ?thesis
      by (simp add: xml_symbol_def xml_decode_plain xml_decode_hex [simplified])
  qed
qed

subsection \<open>The two encoders\<close>

lemma signed_plain: "0x20 \<le>s b \<and> b \<le>s 0x7E \<longleftrightarrow> 0x20 \<le> unat b \<and> unat b \<le> 0x7E" for b :: byte
  by (rule all_byteD [of "\<lambda>b. 0x20 \<le>s b \<and> b \<le>s 0x7E \<longleftrightarrow> 0x20 \<le> unat b \<and> unat b \<le> 0x7E"])
    (unfold upt_256, simp add: word_sle_eq)

lemma wchar_to_hex_symbol:
  assumes "xml_char w"
  shows "wchar_to_hex w = Inr (chars ''&#x'' @ hex_emit_loop w (hex_skip_loop w 7) @ chars '';'')"
proof -
  have "hex_skip_loop w 7 < 6"
    using assms by (intro hex_skip_loop_small) (auto simp: xml_char_def is_scalar_def)
  with assms show ?thesis by (simp add: wchar_to_hex_def word_gt_0 hex_emit_loop_ref xml_char_def)
qed

text \<open>A wide character with eight hexadecimal digits does not fit in the buffer.\<close>

lemma wchar_to_hex_overflow:
  assumes "0x10000000 \<le> unat w"
  shows "wchar_to_hex w = Inl OutOfBounds"
proof -
  have "unat w < 16 ^ Suc (hex_skip_loop w 7)"
    using unsigned_less [of w] by (intro hex_skip_loop_le) simp
  with assms have less: "(16 :: nat) ^ 7 < 16 ^ Suc (hex_skip_loop w 7)" by simp
  then have "7 < Suc (hex_skip_loop w 7)" by (rule power_less_imp_less_exp [rotated]) simp
  with assms show ?thesis
    by (simp add: wchar_to_hex_def hex_emit_loop_ref word_less_nat_alt)
qed

lemma xml_encode_wsymbol_eq:
  assumes "xml_char w"
  shows "xml_encode_wsymbol units w = Inr (xml_symbol units w)"
proof -
  have z: "drop_bit 8 w = 0 \<longleftrightarrow> unat w < 256"
  proof -
    have "drop_bit 8 w = 0 \<longleftrightarrow> unat (drop_bit 8 w) = 0" by (simp only: unat_eq_0)
    also have "\<dots> \<longleftrightarrow> unat w < 256" by (simp only: unat_drop_bit_div) (simp add: div_eq_0_iff)
    finally show ?thesis .
  qed
  have "drop_bit 8 w = 0 \<and> 0x20 \<le>s (ucast w :: byte) \<and> (ucast w :: byte) \<le>s 0x7E \<longleftrightarrow> xml_plain w"
  proof (cases "unat w < 256")
    case True
    then have "unat (ucast w :: byte) = unat w" by (simp add: unsigned_ucast_eq take_bit_nat_eq_self)
    with True show ?thesis unfolding signed_plain xml_plain_def z by simp
  next
    case False
    then show ?thesis unfolding xml_plain_def z by simp
  qed
  then show ?thesis
    using assms unfolding xml_encode_wsymbol_def Let_def xml_symbol_def
    by (simp add: wchar_to_hex_symbol)
qed

lemma xml_encode_symbol_eq:
  assumes "xml_char w"
  shows "xml_encode_symbol units (wchar_to_utf8 w @ rest) (length (wchar_to_utf8 w)) =
    Inr (xml_symbol units w)"
proof (cases "unat w < 0x80")
  case True
  then have a: "wchar_to_utf8 w = [ucast w]" by (rule wchar_to_utf8_ascii)
  have "0x20 \<le>s (ucast w :: byte) \<and> (ucast w :: byte) \<le>s 0x7E \<longleftrightarrow> xml_plain w"
    unfolding signed_plain xml_plain_def using True by (simp add: unat_ucast_ascii)
  moreover have "utf8_char_to_wchar (Some (wchar_to_utf8 w @ rest)) (length (wchar_to_utf8 w)) = Inr (True, w)"
    by (intro utf8_char_roundtrip_ref wchar_to_utf8_char_eq xml_char_encodable assms)
  ultimately show ?thesis
    using assms by (simp add: a xml_encode_symbol_def xml_symbol_def wchar_to_hex_symbol)
next
  case False
  have e: "encodable w" using assms by (rule xml_char_encodable)
  have "utf8_ref (unat w) = map unat (wchar_to_utf8 w)" by (simp add: wchar_to_utf8_ref e)
  then have "length (wchar_to_utf8 w) = length (utf8_ref (unat w))" by simp
  then have l: "length (wchar_to_utf8 w) \<noteq> 1" using False by (simp add: utf8_ref_def)
  moreover have "utf8_char_to_wchar (Some (wchar_to_utf8 w @ rest)) (length (wchar_to_utf8 w)) = Inr (True, w)"
    by (intro utf8_char_roundtrip_ref wchar_to_utf8_char_eq e)
  moreover have "rd (wchar_to_utf8 w @ rest) 0 = Inr (hd (wchar_to_utf8 w))"
    by (cases "wchar_to_utf8 w") simp_all
  moreover have "\<not> xml_plain w" using False by (simp add: xml_plain_def)
  ultimately show ?thesis
    using assms by (simp add: xml_encode_symbol_def xml_symbol_def wchar_to_hex_symbol)
qed

lemma hd_wchar_to_utf8_nonzero:
  assumes "xml_char w"
  shows "hd (wchar_to_utf8 w) \<noteq> 0"
proof (cases "unat w < 0x80")
  case True
  have "unat (ucast w :: byte) \<noteq> 0"
    using assms True by (simp only: unat_ucast_ascii) (simp add: xml_char_def unat_eq_0)
  with True show ?thesis by (auto simp: wchar_to_utf8_ascii)
next
  case False
  then have "0x80 \<le> unat (hd (wchar_to_utf8 w))"
    using wchar_to_utf8_high [OF xml_char_encodable [OF assms]] by (simp add: list.set_sel(1))
  then show ?thesis by auto
qed

lemma xml_encode_loop_eq:
  "list_all xml_char ws \<Longrightarrow>
   xml_encode_loop units (wchar_to_utf8_string ws @ 0 # rest) = Inr (concat (map (xml_symbol units) ws))"
proof (induction ws)
  case Nil
  then show ?case by (simp add: xml_encode_loop.simps)
next
  case (Cons w ws)
  then have w: "xml_char w" by simp
  let ?r = "wchar_to_utf8_string ws @ 0 # rest"
  have "rd (wchar_to_utf8 w @ ?r) 0 = Inr (hd (wchar_to_utf8 w))"
    by (cases "wchar_to_utf8 w") simp_all
  moreover have "is_correct_utf8_sequence (wchar_to_utf8 w @ ?r) = Inr (True, length (wchar_to_utf8 w))"
    using w by (intro is_correct_utf8_sequence_complete [of "unat w"] wchar_to_utf8_ref)
      (simp_all add: xml_char_encodable, simp add: xml_char_def)
  ultimately show ?case
    using Cons hd_wchar_to_utf8_nonzero [OF w] xml_encode_symbol_eq [OF w]
    by (simp add: xml_encode_loop.simps [of units "wchar_to_utf8 w @ ?r"])
qed

lemma xml_encode_wloop_eq:
  "list_all xml_char ws \<Longrightarrow> xml_encode_wloop units (ws @ 0 # rest) = Inr (concat (map (xml_symbol units) ws))"
proof (induction ws)
  case (Cons w ws)
  then have "w \<noteq> 0" by (simp add: xml_char_def)
  with Cons show ?case by (simp add: xml_encode_wsymbol_eq)
qed simp

text \<open>
  C18: For every choice of the units, \<^verbatim>\<open>xml_encode\<close> of a terminated well-formed UTF-8 text succeeds,
  the overload on the wide string with the same characters gives the same result, and
  \<^verbatim>\<open>xml_decode\<close> gives the UTF-8 text back.
\<close>

theorem xml_roundtrip:
  assumes "list_all (\<lambda>w. is_scalar (unat w) \<and> w \<noteq> 0) ws"
  shows "\<exists>enc. xml_encode (Some (wchar_to_utf8_string ws @ 0 # rest)) units = Inr enc \<and>
    xml_encode_wchar (Some (ws @ 0 # wrest)) units = Inr enc \<and>
    xml_decode enc = Inr (wchar_to_utf8_string ws)"
proof -
  have ws: "list_all xml_char ws" using assms by (simp add: list_all_iff xml_char_def)
  let ?enc = "concat (map (xml_symbol (xml_encode_units units)) ws)"
  have "xml_decode ?enc = Inr (wchar_to_utf8_string ws)"
    using xml_codec.dec_all [OF ws] by (simp add: wchar_to_utf8_string_concat)
  then show ?thesis
    by (intro exI [of _ ?enc])
      (simp add: xml_encode_def xml_encode_wchar_def xml_encode_loop_eq [OF ws] xml_encode_wloop_eq [OF ws])
qed

lemma hex_loops_numeral [simp]:
  "hex_skip_loop ucs (numeral k) =
     (if ucs AND push_bit (4 * numeral k) 0xF = 0 then hex_skip_loop ucs (pred_numeral k) else numeral k)"
  "hex_emit_loop ucs (numeral k) =
     HEX_DIGITS ! unat (drop_bit (4 * numeral k) (ucs AND push_bit (4 * numeral k) 0xF)) #
     hex_emit_loop ucs (pred_numeral k)"
  by (simp_all only: numeral_eq_Suc hex_skip_loop.simps hex_emit_loop.simps)

theorem xml_roundtrip_witness:
  "xml_encode (Some [0x3C, 0xE2, 0x82, 0xAC, 0]) 0 = Inr (chars ''&lt;&#x20AC;'') \<and>
   xml_decode (chars ''&lt;&#x20AC;'') = Inr [0x3C, 0xE2, 0x82, 0xAC]"
proof -
  have h: "list_all (\<lambda>w. is_scalar (unat w) \<and> w \<noteq> 0) [0x3C, 0x20AC :: wchar]"
    by (simp add: is_scalar_def)
  have hex: "wchar_to_hex 0x20AC = Inr (chars ''&#x20AC;'')"
    by (simp add: wchar_to_hex_def HEX_DIGITS_def)
  have "xml_encode_wchar (Some [0x3C, 0x20AC, 0]) 0 = Inr (chars ''&lt;&#x20AC;'')"
    by (simp add: xml_encode_wchar_def xml_encode_wsymbol_def xml_encode_units_def XU_TEXT_def
        XU_ATTRIBUTE_def XU_PRESERVE_UTF8_def xml_special_def hex word_sle_eq)
  with xml_roundtrip [OF h, of "[]" 0 "[]"] show ?thesis by (auto simp: wchar_to_utf8_def)
qed

end
