(* ===== verification/Mime_Url.thy ===== *)
theory Mime_Url
  imports Ascii_String_Manip
begin

text \<open>
  \<^verbatim>\<open>mime_url_encode\<close> and the two \<^verbatim>\<open>mime_url_decode\<close> of \<^verbatim>\<open>src/src/String/StringManip.cpp\<close>.  The
  encoder copies the runs of characters that need no escape; it is shown equal to escaping
  every character on its own.  The in-place decoder writes into the buffer it reads from:
  its model keeps the buffer and both positions.
\<close>

section \<open>Encoding\<close>

definition MIME :: category where
  "MIME = char_table (Some (chars ''A-Za-z0-9_*.,-'')) False"

function mime_url_encode_loop :: "bytes \<Rightarrow> bytes" where
  "mime_url_encode_loop cur =
     (let ptr = find_nonowned MIME cur
      in take ptr cur @
         (if ptr = length cur then []
          else let c = cur ! ptr; cur = drop (ptr + 1) cur
               in (if c = ch CHR '' '' then [ch CHR ''+'']
                   else [ch CHR ''%'', HEX_DIGITS ! unat (drop_bit 4 c AND 0x0F),
                         HEX_DIGITS ! unat (c AND 0x0F)]) @ mime_url_encode_loop cur))"
  by pat_completeness auto
termination
proof (relation "measure length", goal_cases)
  case (2 cur ptr c cur')
  then have "ptr < length cur" using find_nonowned_le [of MIME cur] by simp
  with 2 show ?case by simp
qed simp

declare mime_url_encode_loop.simps [simp del]

definition mime_url_encode :: "bytes \<Rightarrow> bytes" where
  "mime_url_encode src = mime_url_encode_loop src"

section \<open>Decoding\<close>

fun mime_url_decode_loop :: "bool \<Rightarrow> bytes \<Rightarrow> bytes result" where
  "mime_url_decode_loop strict [] = Inr []"
| "mime_url_decode_loop strict (c # cur) =
     (if c = ch CHR ''+'' then rmap ((#) (ch CHR '' '')) (mime_url_decode_loop strict cur)
      else if c = ch CHR ''%'' then
        (case cur of
           a # b # rest \<Rightarrow>
             if HEX_NUMBER a \<and> HEX_NUMBER b
             then rmap ((#) (hex_to_char a b)) (mime_url_decode_loop strict rest)
             else if strict then Inl (InvalidFormat ''broken encoding'')
             else rmap ((#) c) (mime_url_decode_loop strict cur)
         | _ \<Rightarrow>
             if strict then Inl (InvalidFormat ''broken encoding'')
             else rmap ((#) c) (mime_url_decode_loop strict cur))
      else rmap ((#) c) (mime_url_decode_loop strict cur))"

definition mime_url_decode :: "bytes \<Rightarrow> bool \<Rightarrow> bytes result" where
  "mime_url_decode src strict = mime_url_decode_loop strict src"

text \<open>
  The in-place decoder: \<open>dest\<close> and \<open>src\<close> are positions in \<open>text\<close>, \<open>sz\<close> the number of bytes
  left.  The result is the error, if one was thrown, with the buffer as it was left.
\<close>

function mime_url_decode_inplace_loop ::
  "bytes \<Rightarrow> nat \<Rightarrow> nat \<Rightarrow> nat \<Rightarrow> error option \<times> bytes \<times> nat" where
  "mime_url_decode_inplace_loop text dest src sz =
     (if sz = 0 then (None, text, dest)
      else let sz = sz - 1; c = text ! src
        in if c = ch CHR ''+'' then
             mime_url_decode_inplace_loop (text[dest := ch CHR '' '']) (dest + 1) (src + 1) sz
           else if c = ch CHR ''%'' then
             (if sz < 2 \<or> \<not> HEX_NUMBER (text ! (src + 1)) \<or> \<not> HEX_NUMBER (text ! (src + 2))
              then (Some (InvalidFormat ''broken encoding''), text, dest)
              else mime_url_decode_inplace_loop
                     (text[dest := hex_to_char (text ! (src + 1)) (text ! (src + 2))])
                     (dest + 1) (src + 3) (sz - 2))
           else mime_url_decode_inplace_loop (text[dest := c]) (dest + 1) (src + 1) sz)"
  by pat_completeness auto
termination
  by (relation "measure (\<lambda>(text, dest, src, sz). sz)") auto

declare mime_url_decode_inplace_loop.simps [simp del]

definition mime_url_decode_inplace :: "bytes \<Rightarrow> error option \<times> bytes" where
  "mime_url_decode_inplace text =
     (if length text = 0 then (None, text)
      else case mime_url_decode_inplace_loop text 0 0 (length text) of
             (None, text, dest) \<Rightarrow> (None, take dest text)
           | (Some e, text, dest) \<Rightarrow> (Some e, text))"

section \<open>Correctness\<close>

text \<open>The reference encoder: every character on its own.\<close>

definition mime_escape :: "byte \<Rightarrow> bytes" where
  "mime_escape c =
     (if MIME c then [c]
      else if c = ch CHR '' '' then [ch CHR ''+'']
      else [ch CHR ''%'', HEX_DIGITS ! unat (drop_bit 4 c), HEX_DIGITS ! unat (c AND 0x0F)])"

lemma MIME_iff [category_simps]:
  "MIME c \<longleftrightarrow> ALPHA c \<or> NUMBER c \<or> c \<in> {0x5F, 0x2A, 0x2E, 0x2C, 0x2D}"
  by (auto simp: MIME_def ALPHA_iff NUMBER_iff char_table_simps)

lemma drop_bit_4_and: "drop_bit 4 c AND 0x0F = drop_bit 4 (c :: byte)"
  by (rule bit_word_eqI, simp add: bit_simps)
    (auto simp: less_Suc_eq numeral_eq_Suc dest: bit_imp_le_length)

lemma mime_escape_owned: "\<forall>c\<in>set s. MIME c \<Longrightarrow> concat (map mime_escape s) = s"
  by (induction s) (auto simp: mime_escape_def)

lemma mime_url_encode_ref: "mime_url_encode s = concat (map mime_escape s)"
proof -
  have "mime_url_encode_loop s = concat (map mime_escape s)"
  proof (induction s rule: mime_url_encode_loop.induct)
    case (1 s)
    let ?k = "find_nonowned MIME s"
    have pre: "concat (map mime_escape (take ?k s)) = take ?k s"
      by (rule mime_escape_owned) (auto simp: scan.find_non_takeWhile dest: set_takeWhileD)
    show ?case
    proof (cases "?k = length s")
      case True
      then show ?thesis using pre by (simp add: mime_url_encode_loop.simps [of s])
    next
      case False
      then have k: "?k < length s" using find_nonowned_le [of MIME s] by simp
      then have n: "\<not> MIME (s ! ?k)" by (rule scan.find_non_hit)
      have "concat (map mime_escape s) =
          concat (map mime_escape (take ?k s @ s ! ?k # drop (Suc ?k) s))"
        using k by (simp only: id_take_nth_drop [symmetric])
      also have "\<dots> = mime_url_encode_loop s"
        using 1 [OF refl False refl refl] False n pre
        by (simp add: mime_url_encode_loop.simps [of s] Let_def mime_escape_def [of "s ! ?k"] drop_bit_4_and)
      finally show ?thesis by simp
    qed
  qed
  then show ?thesis by (simp add: mime_url_encode_def)
qed

lemma HEX_DIGITS_pair:
  "HEX_NUMBER (HEX_DIGITS ! unat (drop_bit 4 c))" "HEX_NUMBER (HEX_DIGITS ! unat (c AND 0x0F))"
  for c :: byte
proof -
  have "unat (drop_bit 4 c) < 16"
    by (simp only: unat_drop_bit_div) (simp add: less_mult_imp_div_less)
  moreover have "unat (c AND 0x0F) < 16"
    using word_and_mask_unat [of c 4] by (simp add: mask_eq_decr_exp)
  ultimately show "HEX_NUMBER (HEX_DIGITS ! unat (drop_bit 4 c))"
    "HEX_NUMBER (HEX_DIGITS ! unat (c AND 0x0F))"
    by (simp_all add: hex_digit_roundtrip)
qed

interpretation mime_codec: stream_codec mime_escape "\<lambda>c. [c]" "mime_url_decode_loop strict" "\<lambda>_. True"
  for strict
proof (unfold_locales, goal_cases)
  case (2 c rest)
  show ?case
  proof (cases "MIME c")
    case True
    then have "c \<noteq> 0x2B" "c \<noteq> 0x25" by (auto simp: category_simps)
    with True show ?thesis by (cases "mime_url_decode_loop strict rest") (simp_all add: mime_escape_def)
  next
    case False
    then show ?thesis
      by (cases "mime_url_decode_loop strict rest")
        (simp_all add: mime_escape_def HEX_DIGITS_pair hex_to_char_digits)
  qed
qed simp

subsection \<open>The in-place decoder\<close>

lemma nth_drop_Cons: "drop i xs = y # ys \<Longrightarrow> i < length xs \<and> xs ! i = y \<and> drop (Suc i) xs = ys"
  by (metis Cons_nth_drop_Suc drop_all leI list.distinct(1) list.sel(1,3))

definition inplace_matches :: "bytes \<Rightarrow> nat \<Rightarrow> nat \<Rightarrow> bool" where
  "inplace_matches buf d s \<longleftrightarrow>
     (case mime_url_decode_loop True (drop s buf) of
        Inl e \<Rightarrow> fst (mime_url_decode_inplace_loop buf d s (length buf - s)) = Some e
      | Inr out \<Rightarrow> \<exists>buf' d'.
          mime_url_decode_inplace_loop buf d s (length buf - s) = (None, buf', d') \<and>
          take d' buf' = take d buf @ out)"

text \<open>Writing one byte at \<open>d\<close> and reading on after \<open>s\<close> touches nothing that is still unread.\<close>

lemma inplace_matches_step:
  assumes "inplace_matches (buf[d := x]) (Suc d) (s + k)" and "d \<le> s" and "s < length buf" and "0 < k"
    and "mime_url_decode_inplace_loop buf d s (length buf - s) =
      mime_url_decode_inplace_loop (buf[d := x]) (Suc d) (s + k) (length buf - (s + k))"
    and "mime_url_decode_loop True (drop s buf) =
      rmap ((#) x) (mime_url_decode_loop True (drop (s + k) buf))"
  shows "inplace_matches buf d s"
proof -
  have "take (Suc d) (buf[d := x]) = take d buf @ [x]"
    using assms(2,3) by (simp add: take_Suc_conv_app_nth)
  moreover have "drop (s + k) (buf[d := x]) = drop (s + k) buf"
    using assms(2,4) by simp
  ultimately show ?thesis
    using assms(1) unfolding inplace_matches_def assms(5,6)
    by (cases "mime_url_decode_loop True (drop (s + k) buf)") simp_all
qed

lemma mime_url_decode_inplace_loop_ref:
  assumes "d \<le> s"
  shows "inplace_matches buf d s"
  using assms
proof (induction "length buf - s" arbitrary: buf d s rule: less_induct)
  case less
  show ?case
  proof (cases "s < length buf")
    case False
    then show ?thesis by (simp add: inplace_matches_def mime_url_decode_inplace_loop.simps)
  next
    case True
    define c cur where "c = buf ! s" and "cur = drop (Suc s) buf"
    have d: "drop s buf = c # cur" using True by (simp add: c_def cur_def Cons_nth_drop_Suc)
    have next': "inplace_matches (buf[d := x]) (Suc d) (s + k)" if "0 < k" for x k
      using less that True by simp
    note step = inplace_matches_step [OF next' less.prems True]
    note simps = mime_url_decode_inplace_loop.simps [of buf d s] d c_def [symmetric] Let_def
    have nth: "buf ! Suc s = cur ! 0" "buf ! Suc (Suc s) = cur ! 1" if "2 \<le> length cur"
      using that by (simp_all add: cur_def)
    have len: "length buf - s = Suc (length cur)" using True by (simp add: cur_def)
    have drop3: "drop 2 cur = drop (s + 3) buf" by (simp add: cur_def numeral_eq_Suc)
    consider (plus) "c = 0x2B" | (other) "c \<noteq> 0x2B" "c \<noteq> 0x25"
      | (hex) a b rest where "c = 0x25" "cur = a # b # rest" "HEX_NUMBER a" "HEX_NUMBER b"
      | (broken) "c = 0x25" "length cur < 2 \<or> \<not> HEX_NUMBER (cur ! 0) \<or> \<not> HEX_NUMBER (cur ! 1)"
      by (cases cur; cases "tl cur") auto
    then show ?thesis
    proof cases
      case plus
      then show ?thesis by (intro step [of 1 "0x20"]) (simp_all add: simps len cur_def)
    next
      case other
      then show ?thesis by (intro step [of 1 c]) (simp_all add: simps len cur_def)
    next
      case (hex a b rest)
      then have "buf ! Suc s = a" "buf ! Suc (Suc s) = b" using nth by simp_all
      moreover have "length buf - (s + 3) = length rest" "drop (s + 3) buf = rest"
        using hex len drop3 by simp_all
      ultimately show ?thesis
        using hex by (intro step [of 3 "hex_to_char a b"]) (simp_all add: simps len)
    next
      case broken
      then show ?thesis
        by (cases cur; cases "tl cur") (auto simp: inplace_matches_def simps len nth)
    qed
  qed
qed

text \<open>
  C16: \<^verbatim>\<open>mime_url_decode\<close>, strict or not, gives back what \<^verbatim>\<open>mime_url_encode\<close> encoded; the encoder is
  the character by character escape, its result fits in the reserved three bytes for each
  character and holds unreserved characters, plus signs and percent escapes only.
\<close>

theorem mime_url_roundtrip:
  "mime_url_decode (mime_url_encode s) strict = Inr s \<and>
   mime_url_encode s = concat (map mime_escape s) \<and>
   length (mime_url_encode s) \<le> length s * 3 \<and>
   set (mime_url_encode s) \<subseteq> {c. MIME c \<or> HEX_NUMBER c \<or> c = ch CHR ''+'' \<or> c = ch CHR ''%''}"
proof (intro conjI)
  have "list_all (\<lambda>_. True) s" by (simp add: list_all_iff)
  from mime_codec.dec_all [OF this, of strict]
  show "mime_url_decode (mime_url_encode s) strict = Inr s"
    by (simp add: mime_url_decode_def mime_url_encode_ref)
  show "length (mime_url_encode s) \<le> length s * 3"
    unfolding mime_url_encode_ref by (induction s) (auto simp: mime_escape_def)
  show "set (mime_url_encode s) \<subseteq> {c. MIME c \<or> HEX_NUMBER c \<or> c = ch CHR ''+'' \<or> c = ch CHR ''%''}"
    unfolding mime_url_encode_ref by (auto simp: mime_escape_def HEX_DIGITS_pair split: if_splits)
qed (rule mime_url_encode_ref)

text \<open>
  The in-place decoder, which overwrites the buffer while reading it, throws exactly when the
  strict two-buffer decoder does and leaves the same text otherwise.
\<close>

lemma mime_url_decode_inplace_equiv:
  "case mime_url_decode text True of
     Inl e \<Rightarrow> fst (mime_url_decode_inplace text) = Some e
   | Inr out \<Rightarrow> mime_url_decode_inplace text = (None, out)"
proof -
  have "inplace_matches text 0 0" by (rule mime_url_decode_inplace_loop_ref) simp
  then show ?thesis
    by (cases "mime_url_decode_loop True text"; cases "text = []")
      (auto simp: inplace_matches_def mime_url_decode_def mime_url_decode_inplace_def
        split: prod.splits option.splits)
qed

end
