(* ===== verification/Js_Codec.thy ===== *)
theory Js_Codec
  imports Xml_Codec Mime_Url
begin

text \<open>
  The JavaScript and JSON escapes of \<^verbatim>\<open>src/src/String/StringManip.cpp\<close>: \<^verbatim>\<open>js_unicode_encode\<close> and
  \<^verbatim>\<open>js_unicode_decode\<close> with the helpers of the namespace \<^verbatim>\<open>JS\<close>, \<^verbatim>\<open>json_escape\<close> and
  \<^verbatim>\<open>js_encode\<close>.  A terminated source is the memory from its first character on.
\<close>

section \<open>Operations\<close>

subsection \<open>Unicode escapes\<close>

definition add_unicode_symbol :: "wchar \<Rightarrow> bytes" where
  "add_unicode_symbol dest =
     [0x5C, ch CHR ''u'', HEX_DIGITS ! unat (drop_bit 12 dest AND 0x0F),
      HEX_DIGITS ! unat (drop_bit 8 dest AND 0x0F), HEX_DIGITS ! unat (drop_bit 4 dest AND 0x0F),
      HEX_DIGITS ! unat (dest AND 0x0F)]"

definition add_wchar :: "wchar \<Rightarrow> bool \<Rightarrow> bytes result" where
  "add_wchar c strict =
     (case wchar_to_utf8_char c of
        Some buf \<Rightarrow> Inr buf
      | None \<Rightarrow> if strict then Inl (InvalidFormat ''invalid symbol'') else Inr [])"

definition add_surrogate :: "wchar \<Rightarrow> bool \<Rightarrow> bytes result" where
  "add_surrogate surrogate strict =
     (if strict then Inl (InvalidFormat ''unpaired surrogate'') else add_wchar surrogate strict)"

definition js_unicode_units :: "wchar \<Rightarrow> bytes" where
  "js_unicode_units dest =
     (if sint dest < 0x10000 then add_unicode_symbol dest
      else add_unicode_symbol (0xD7C0 + drop_bit 10 dest) @
           add_unicode_symbol (0xDC00 + (dest AND 0x3FF)))"

function js_unicode_encode_loop :: "bytes \<Rightarrow> bytes result" where
  "js_unicode_encode_loop src =
     (let run = takeWhile ALPHA_NUM src; ptr = drop (length run) src
      in rbind (rd ptr 0) (\<lambda>c.
           if c = 0 then Inr run
           else let octets_count = get_octet_count c
             in if octets_count = 0 then Inl (InvalidFormat ''found non-unicode symbol'')
                else rbind (utf8_char_to_wchar (Some ptr) octets_count) (\<lambda>(_, dest).
                  rmap (append (run @ js_unicode_units dest))
                    (js_unicode_encode_loop (drop octets_count ptr)))))"
  by pat_completeness auto
termination
  by (relation "measure length") (auto simp: rd_def split: if_splits)

declare js_unicode_encode_loop.simps [simp del]

definition js_unicode_encode :: "bytes \<Rightarrow> bytes result" where
  "js_unicode_encode src =
     rbind (rd src 0) (\<lambda>c. if c = 0 then Inr [] else js_unicode_encode_loop src)"

definition js_hex4 :: "bytes \<Rightarrow> wchar result" where
  "js_hex4 src =
     rbind (rd src 2) (\<lambda>a. rbind (rd src 3) (\<lambda>b. rbind (rd src 4) (\<lambda>c. rbind (rd src 5) (\<lambda>d.
       Inr (foldl (\<lambda>v x. push_bit 4 v OR ucast (hex_to_int x)) 0 [a, b, c, d])))))"

text \<open>
  The decoder appends to its destination; the result is what it appends.  \<open>last_surrogate\<close> is
  a high surrogate that waits for its partner, or zero.
\<close>

function js_unicode_decode_loop :: "bool \<Rightarrow> byte \<Rightarrow> wchar \<Rightarrow> bytes \<Rightarrow> bytes result" where
  "js_unicode_decode_loop strict special last_surrogate src =
     (if src = [] then
        (if last_surrogate \<noteq> 0 then add_surrogate last_surrogate strict else Inr [])
      else if hd src = special \<and> 5 \<le> length src \<and> src ! 1 = ch CHR ''u'' then
        rbind (js_hex4 src) (\<lambda>c.
          let rest = drop 6 src
          in if last_surrogate \<noteq> 0 then
               (if 0xDC00 \<le> c \<and> c < 0xE000 then
                  rbind (add_wchar (push_bit 10 (last_surrogate - 0xD7C0) OR (c - 0xDC00)) strict) (\<lambda>bs.
                    rmap (append bs) (js_unicode_decode_loop strict special 0 rest))
                else
                  rbind (add_surrogate last_surrogate strict) (\<lambda>bs1.
                    rbind (add_wchar c strict) (\<lambda>bs2.
                      rmap (append (bs1 @ bs2)) (js_unicode_decode_loop strict special 0 rest))))
             else if 0xD700 \<le> c \<and> c < 0xDC00 then js_unicode_decode_loop strict special c rest
             else if 0xDC00 \<le> c \<and> c < 0xE000 then
               rbind (add_surrogate c strict) (\<lambda>bs.
                 rmap (append bs) (js_unicode_decode_loop strict special 0 rest))
             else
               rbind (add_wchar c strict) (\<lambda>bs.
                 rmap (append bs) (js_unicode_decode_loop strict special 0 rest)))
      else if hd src = special \<and> strict then Inl (InvalidFormat ''broken encoding'')
      else
        rbind (if last_surrogate \<noteq> 0 then add_surrogate last_surrogate strict else Inr []) (\<lambda>bs.
          rmap (append (bs @ [hd src])) (js_unicode_decode_loop strict special 0 (tl src))))"
  by pat_completeness auto
termination
  by (relation "measure (\<lambda>(strict, special, last_surrogate, src). length src)") auto

declare js_unicode_decode_loop.simps [simp del]

definition js_unicode_decode :: "bytes \<Rightarrow> bool \<Rightarrow> byte \<Rightarrow> bytes result" where
  "js_unicode_decode src strict special = js_unicode_decode_loop strict special 0 src"

subsection \<open>JSON strings\<close>

definition NON_JSON :: category where
  "NON_JSON = char_table (Some ([0x5C, 0x22, 0x0A, 0x0D, 0x01, 0x2D, 0x1F])) True"

definition JSON_REPL :: "bytes list" where
  "JSON_REPL =
   [0x5C # chars ''u0000'', 0x5C # chars ''u0001'', 0x5C # chars ''u0002'', 0x5C # chars ''u0003'',
    0x5C # chars ''u0004'', 0x5C # chars ''u0005'', 0x5C # chars ''u0006'', 0x5C # chars ''u0007'',
    0x5C # chars ''b'', 0x5C # chars ''t'', 0x5C # chars ''n'', 0x5C # chars ''u000B'',
    0x5C # chars ''f'', 0x5C # chars ''r'', 0x5C # chars ''u000E'', 0x5C # chars ''u000F'',
    0x5C # chars ''u0010'', 0x5C # chars ''u0011'', 0x5C # chars ''u0012'', 0x5C # chars ''u0013'',
    0x5C # chars ''u0014'', 0x5C # chars ''u0015'', 0x5C # chars ''u0016'', 0x5C # chars ''u0017'',
    0x5C # chars ''u0018'', 0x5C # chars ''u0019'', 0x5C # chars ''u001A'', 0x5C # chars ''u001B'',
    0x5C # chars ''u001C'', 0x5C # chars ''u001D'', 0x5C # chars ''u001E'', 0x5C # chars ''u001F'',
    [], [], [0x5C, 0x22]]"

function json_escape_loop :: "bytes \<Rightarrow> bytes" where
  "json_escape_loop cur =
     (let ptr = find_owned NON_JSON cur
      in take ptr cur @
         (if ptr = length cur then []
          else let c = cur ! ptr
               in (if c = 0x5C then [0x5C, 0x5C] else JSON_REPL ! unat c) @
                  json_escape_loop (drop (ptr + 1) cur)))"
  by pat_completeness auto
termination
proof (relation "measure length", goal_cases)
  case (2 cur ptr c)
  then have "ptr < length cur" using find_owned_le [of NON_JSON cur] by simp
  with 2 show ?case by simp
qed simp

declare json_escape_loop.simps [simp del]

definition json_escape :: "bytes \<Rightarrow> bytes" where
  "json_escape src = json_escape_loop src"

subsection \<open>JavaScript strings\<close>

definition NON_JS :: category where
  "NON_JS = char_table (Some [0x5C, 0x22, 0x27, 0x2F, 0x0A, 0x0D, 0x3C, 0x3E, 0xE2]) True"

text \<open>
  \<open>k\<close> is \<^verbatim>\<open>from - src\<close>: the search goes on at \<^verbatim>\<open>from\<close>, the text not yet copied begins at
  \<^verbatim>\<open>src\<close>.
\<close>

function js_encode_loop :: "bytes \<Rightarrow> nat \<Rightarrow> bytes result" where
  "js_encode_loop src k =
     (let p = k + find_owned NON_JS (drop k src); ptr = drop p src
      in rbind (rd ptr 0) (\<lambda>c.
           if c = 0 then Inr (take p src)
           else if c = 0xE2 then
             rbind (rd ptr 1) (\<lambda>c1.
               if c1 = 0x80 then
                 rbind (rd ptr 2) (\<lambda>c2.
                   if c2 = 0xA9 \<or> c2 = 0xA8 then
                     rmap (append (take p src @
                         (if c2 = 0xA9 then 0x5C # chars ''u2029'' else 0x5C # chars ''u2028'')))
                       (js_encode_loop (drop 3 ptr) 0)
                   else rmap (append (take p src)) (js_encode_loop ptr 1))
               else rmap (append (take p src)) (js_encode_loop ptr 1))
           else
             rmap (append (take p src @ [0x5C, ch CHR ''x'',
                 HEX_DIGITS ! unat (drop_bit 4 c AND 0x0F), HEX_DIGITS ! unat (c AND 0x0F)]))
               (js_encode_loop (drop 1 ptr) 0)))"
  by pat_completeness auto
termination
  by (relation "measure (\<lambda>(src, k). length (drop k src))") (auto simp: rd_def split: if_splits)

declare js_encode_loop.simps [simp del]

definition js_encode :: "bytes \<Rightarrow> bytes result" where
  "js_encode src = js_encode_loop src 0"

section \<open>Correctness\<close>

subsection \<open>Unicode escapes\<close>

lemma hex_value_loop_foldl:
  "\<forall>c\<in>set cs. HEX_NUMBER c \<Longrightarrow>
   hex_value_loop v cs = Inr (foldl (\<lambda>v x. push_bit 4 v OR ucast (hex_to_int x)) v cs)"
  by (induction cs arbitrary: v) auto

lemma rev_upt_4: "rev [0..<4] = [3, 2, 1, 0 :: nat]"
  by (simp add: upt_rec)

lemma add_unicode_symbol_digits:
  "add_unicode_symbol w =
     0x5C # ch CHR ''u'' # map (\<lambda>i. HEX_DIGITS ! (unat w div 16 ^ i mod 16)) (rev [0..<4])"
proof -
  have "unat (drop_bit n w AND 0x0F) = unat w div 2 ^ n mod 16" for n
    using word_and_mask_unat [of "drop_bit n w" 4] by (simp add: mask_eq_decr_exp unat_drop_bit_div)
  from this [of 12] this [of 8] this [of 4] this [of 0] show ?thesis
    by (simp add: add_unicode_symbol_def rev_upt_4)
qed

lemma js_hex4_add_unicode_symbol:
  assumes "unat w < 0x10000"
  shows "js_hex4 (add_unicode_symbol w @ rest) = Inr w"
proof -
  let ?ds = "map (\<lambda>i. HEX_DIGITS ! (unat w div 16 ^ i mod 16)) (rev [0..<4])"
  have "\<forall>c\<in>set ?ds. HEX_NUMBER c" by (auto simp: hex_digit_roundtrip simp del: upt_Suc)
  moreover have "hex_value_loop 0 ?ds = Inr w"
    using assms by (intro hex_value_loop_emit) simp_all
  ultimately have "foldl (\<lambda>v x. push_bit 4 v OR ucast (hex_to_int x)) 0 ?ds = w"
    by (simp add: hex_value_loop_foldl)
  moreover obtain a b c d where "?ds = [a, b, c, d]"
    by (simp add: rev_upt_4)
  ultimately show ?thesis unfolding add_unicode_symbol_digits by (simp add: js_hex4_def)
qed

definition js_plain :: "wchar \<Rightarrow> bool" where
  "js_plain w \<longleftrightarrow> unat w < 0x80 \<and> ALPHA_NUM (ucast w)"

text \<open>The encoding of one symbol, and the symbols that survive the decoder.\<close>

definition js_symbol :: "wchar \<Rightarrow> bytes" where
  "js_symbol w = (if js_plain w then [ucast w] else js_unicode_units w)"

definition js_char :: "wchar \<Rightarrow> bool" where
  "js_char w \<longleftrightarrow> xml_char w \<and> \<not> (0xD700 \<le> unat w \<and> unat w \<le> 0xD7FF)"

lemma ALPHA_NUM_iff [category_simps]: "ALPHA_NUM c \<longleftrightarrow> ALPHA c \<or> NUMBER c"
  by (simp add: ALPHA_NUM_def char_table_union2_def)

lemma add_unicode_symbol_shape [simp]:
  "add_unicode_symbol w \<noteq> []" "length (add_unicode_symbol w) = 6"
  "hd (add_unicode_symbol w) = 0x5C" "add_unicode_symbol w ! Suc 0 = 0x75"
  by (simp_all add: add_unicode_symbol_def)

lemma js_decode_unit:
  assumes "unat w < 0x10000"
  shows "js_unicode_decode_loop strict 0x5C 0 (add_unicode_symbol w @ rest) =
    (if 0xD700 \<le> w \<and> w < 0xDC00 then js_unicode_decode_loop strict 0x5C w rest
     else if 0xDC00 \<le> w \<and> w < 0xE000
     then rbind (add_surrogate w strict) (\<lambda>bs. rmap (append bs) (js_unicode_decode_loop strict 0x5C 0 rest))
     else rbind (add_wchar w strict) (\<lambda>bs. rmap (append bs) (js_unicode_decode_loop strict 0x5C 0 rest)))"
  using js_hex4_add_unicode_symbol [OF assms, of rest]
  unfolding js_unicode_decode_loop.simps [of strict "0x5C" 0 "add_unicode_symbol w @ rest"]
  by (simp add: nth_append)

lemma js_decode_low:
  assumes "unat w < 0x10000" and "0xDC00 \<le> w \<and> w < 0xE000" and "hi \<noteq> 0"
  shows "js_unicode_decode_loop strict 0x5C hi (add_unicode_symbol w @ rest) =
    rbind (add_wchar (push_bit 10 (hi - 0xD7C0) OR (w - 0xDC00)) strict)
      (\<lambda>bs. rmap (append bs) (js_unicode_decode_loop strict 0x5C 0 rest))"
  using js_hex4_add_unicode_symbol [OF assms(1), of rest] assms(2,3)
  unfolding js_unicode_decode_loop.simps [of strict "0x5C" hi "add_unicode_symbol w @ rest"]
  by (simp add: nth_append)

lemma add_wchar_encodable: "encodable w \<Longrightarrow> add_wchar w strict = Inr (wchar_to_utf8 w)"
  by (simp add: add_wchar_def wchar_to_utf8_char_eq)

lemma join_surrogates: "push_bit 10 (drop_bit 10 w) OR (w AND 0x3FF) = w" for w :: wchar
proof (rule bit_word_eqI)
  fix n assume "n < LENGTH(32)"
  have m: "(0x3FF :: wchar) = mask 10" by (simp add: mask_eq_decr_exp)
  show "bit (push_bit 10 (drop_bit 10 w) OR (w AND 0x3FF)) n \<longleftrightarrow> bit w n"
    using \<open>n < LENGTH(32)\<close> unfolding m by (auto simp: bit_simps)
qed

lemma js_decode_pair:
  assumes "0x10000 \<le> unat w" and "unat w \<le> 0x10FFFF"
  shows "js_unicode_decode_loop strict 0x5C 0
      (add_unicode_symbol (0xD7C0 + drop_bit 10 w) @ add_unicode_symbol (0xDC00 + (w AND 0x3FF)) @ rest) =
    rmap (append (wchar_to_utf8 w)) (js_unicode_decode_loop strict 0x5C 0 rest)"
proof -
  let ?hi = "0xD7C0 + drop_bit 10 w" and ?lo = "0xDC00 + (w AND 0x3FF)"
  have q: "0x40 \<le> unat w div 1024" "unat w div 1024 \<le> 0x43F"
    using div_le_mono [OF assms(1), of 1024] div_le_mono [OF assms(2), of 1024] by simp_all
  have "unat (drop_bit 10 w) = unat w div 1024" by (simp add: unat_drop_bit_div)
  with q have hi: "unat ?hi = 0xD7C0 + unat w div 1024" by (simp add: unat_word_ariths)
  have "unat (w AND 0x3FF) = unat w mod 1024"
    using word_and_mask_unat [of w 10] by (simp add: mask_eq_decr_exp)
  moreover have r: "unat w mod 1024 < 1024" by simp
  ultimately have lo: "unat ?lo = 0xDC00 + unat w mod 1024" by (simp add: unat_word_ariths)
  have "0xD700 \<le> ?hi" "?hi < 0xDC00" using q hi by (simp_all add: word_le_nat_alt word_less_nat_alt)
  moreover have "unat ?hi < 0x10000" using hi q by simp
  moreover have "?hi \<noteq> 0" using hi by (metis add_is_0 numeral_eq_iff unat_0 zero_neq_numeral)
  moreover have "0xDC00 \<le> ?lo \<and> ?lo < 0xE000" "unat ?lo < 0x10000"
    using lo r by (simp_all add: word_le_nat_alt word_less_nat_alt)
  moreover have "encodable w" using assms(2) by (simp add: encodable_def)
  ultimately show ?thesis
    by (simp add: js_decode_unit js_decode_low join_surrogates add_wchar_encodable)
qed

lemma js_unicode_units_scalar:
  assumes "unat w \<le> 0x10FFFF"
  shows "js_unicode_units w =
    (if unat w < 0x10000 then add_unicode_symbol w
     else add_unicode_symbol (0xD7C0 + drop_bit 10 w) @ add_unicode_symbol (0xDC00 + (w AND 0x3FF)))"
proof -
  have "unat w < 2 ^ 31" using assms by simp
  then show ?thesis by (simp add: js_unicode_units_def sint_less_iff)
qed

interpretation js_unicode_codec:
  stream_codec js_symbol wchar_to_utf8 "js_unicode_decode_loop strict 0x5C 0" js_char
  for strict
proof (unfold_locales, goal_cases)
  case 1
  show ?case by (simp add: js_unicode_decode_loop.simps)
next
  case (2 w rest)
  then have w: "is_scalar (unat w)" "encodable w" "unat w \<le> 0x10FFFF"
    and r: "\<not> (0xD700 \<le> w \<and> w < 0xDC00)" "\<not> (0xDC00 \<le> w \<and> w < 0xE000)"
    by (auto simp: js_char_def xml_char_encodable xml_char_def is_scalar_def word_le_nat_alt word_less_nat_alt)
  show ?case
  proof (cases "js_plain w")
    case True
    then have "(ucast w :: byte) \<noteq> 0x5C" by (auto simp: js_plain_def category_simps)
    with True show ?thesis
      by (simp add: js_symbol_def js_plain_def wchar_to_utf8_ascii
          js_unicode_decode_loop.simps [of strict "0x5C" 0 "ucast w # rest"])
  next
    case False
    show ?thesis
    proof (cases "unat w < 0x10000")
      case True
      then have "js_unicode_decode_loop strict 0x5C 0 (add_unicode_symbol w @ rest) =
          rbind (add_wchar w strict) (\<lambda>bs. rmap (append bs) (js_unicode_decode_loop strict 0x5C 0 rest))"
        by (simp only: js_decode_unit r if_False)
      with True False w show ?thesis
        by (simp add: js_symbol_def js_unicode_units_scalar add_wchar_encodable)
    next
      case F: False
      with False w js_decode_pair [of w strict rest] show ?thesis
        by (simp add: js_symbol_def js_unicode_units_scalar)
    qed
  qed
qed

lemma js_unicode_encode_loop_plain:
  "ALPHA_NUM c \<Longrightarrow> js_unicode_encode_loop (c # src) = rmap ((#) c) (js_unicode_encode_loop src)"
  unfolding js_unicode_encode_loop.simps [of "c # src"] js_unicode_encode_loop.simps [of src]
  by (simp add: Let_def rmap_def rbind_def split: sum.splits)

lemma js_unicode_encode_loop_symbol:
  assumes "xml_char w" and "\<not> js_plain w"
  shows "js_unicode_encode_loop (wchar_to_utf8 w @ src) =
    rmap (append (js_unicode_units w)) (js_unicode_encode_loop src)"
proof -
  obtain c cs where c: "wchar_to_utf8 w = c # cs" by (cases "wchar_to_utf8 w") simp_all
  have e: "encodable w" using assms(1) by (rule xml_char_encodable)
  have "\<not> ALPHA_NUM c"
  proof (cases "unat w < 0x80")
    case True
    with assms(2) c show ?thesis by (simp add: js_plain_def wchar_to_utf8_ascii)
  next
    case False
    then have "0x80 \<le> unat c" using wchar_to_utf8_high [OF e] c by simp
    then show ?thesis by (simp add: category_simps word_le_nat_alt)
  qed
  moreover have "c \<noteq> 0" using hd_wchar_to_utf8_nonzero [OF assms(1)] c by simp
  moreover have "get_octet_count c = length (wchar_to_utf8 w)"
    using get_octet_count_utf8 [OF e] c by simp
  moreover have "utf8_char_to_wchar (Some (wchar_to_utf8 w @ src)) (length (wchar_to_utf8 w)) = Inr (True, w)"
    by (intro utf8_char_roundtrip_ref wchar_to_utf8_char_eq e)
  ultimately show ?thesis
    unfolding c by (simp add: js_unicode_encode_loop.simps [of "c # cs @ src"] Let_def)
qed

lemma js_unicode_encode_eq:
  assumes "list_all xml_char ws"
  shows "js_unicode_encode (wchar_to_utf8_string ws @ 0 # rest) = Inr (concat (map js_symbol ws))"
proof -
  have "js_unicode_encode_loop (wchar_to_utf8_string ws @ 0 # rest) = Inr (concat (map js_symbol ws))"
    using assms
  proof (induction ws)
    case Nil
    have "\<not> ALPHA_NUM 0" by (simp add: category_simps)
    then show ?case by (simp add: js_unicode_encode_loop.simps Let_def)
  next
    case (Cons w ws)
    show ?case
    proof (cases "js_plain w")
      case True
      then have "wchar_to_utf8 w = [ucast w]" "ALPHA_NUM (ucast w)" "js_symbol w = [ucast w]"
        by (simp_all add: js_plain_def wchar_to_utf8_ascii js_symbol_def)
      with Cons show ?thesis by (simp add: js_unicode_encode_loop_plain)
    next
      case False
      with Cons show ?thesis by (simp add: js_unicode_encode_loop_symbol js_symbol_def)
    qed
  qed
  then show ?thesis
    using assms hd_wchar_to_utf8_nonzero
    by (cases ws) (auto simp: js_unicode_encode_def rd_def hd_conv_nth nth_append)
qed

text \<open>
  C19: \<^verbatim>\<open>js_unicode_decode\<close>, strict or not, gives back the UTF-8 text that \<^verbatim>\<open>js_unicode_encode\<close>
  escaped, surrogate pairs of the characters above U+FFFF included, for all characters but
  U+D700 to U+D7FF.
\<close>

theorem js_unicode_roundtrip:
  assumes "list_all (\<lambda>w. is_scalar (unat w) \<and> w \<noteq> 0 \<and> \<not> (0xD700 \<le> unat w \<and> unat w \<le> 0xD7FF)) ws"
  shows "\<exists>enc. js_unicode_encode (wchar_to_utf8_string ws @ 0 # rest) = Inr enc \<and>
    js_unicode_decode enc strict 0x5C = Inr (wchar_to_utf8_string ws)"
proof -
  have x: "list_all xml_char ws" and j: "list_all js_char ws"
    using assms by (simp_all add: list_all_iff xml_char_def js_char_def)
  have "js_unicode_decode (concat (map js_symbol ws)) strict 0x5C = Inr (wchar_to_utf8_string ws)"
    using js_unicode_codec.dec_all [OF j] by (simp add: js_unicode_decode_def wchar_to_utf8_string_concat)
  with js_unicode_encode_eq [OF x] show ?thesis by blast
qed

theorem js_unicode_roundtrip_witness:
  "js_unicode_encode [0x61, 0xF0, 0x9F, 0x98, 0x80, 0] =
     Inr (ch CHR ''a'' # 0x5C # chars ''uD83D'' @ 0x5C # chars ''uDE00'') \<and>
   js_unicode_decode (ch CHR ''a'' # 0x5C # chars ''uD83D'' @ 0x5C # chars ''uDE00'') True 0x5C =
     Inr [0x61, 0xF0, 0x9F, 0x98, 0x80]"
proof -
  have h: "list_all (\<lambda>w. is_scalar (unat w) \<and> w \<noteq> 0 \<and> \<not> (0xD700 \<le> unat w \<and> unat w \<le> 0xD7FF))
      [0x61, 0x1F600 :: wchar]"
    by (simp add: is_scalar_def)
  have x: "list_all xml_char [0x61, 0x1F600]" by (simp add: xml_char_def is_scalar_def)
  have s: "wchar_to_utf8 0x61 = [0x61]" "wchar_to_utf8 0x1F600 = [0xF0, 0x9F, 0x98, 0x80]"
    by (simp_all add: wchar_to_utf8_def)
  have "js_unicode_encode [0x61, 0xF0, 0x9F, 0x98, 0x80, 0] =
      Inr (ch CHR ''a'' # 0x5C # chars ''uD83D'' @ 0x5C # chars ''uDE00'')"
    using js_unicode_encode_eq [OF x, of "[]"]
    by (simp add: s js_symbol_def js_plain_def js_unicode_units_def add_unicode_symbol_def
        HEX_DIGITS_def category_simps)
  with js_unicode_roundtrip [OF h, of "[]" True] show ?thesis by (auto simp: s)
qed

text \<open>
  U+D700 to U+D7FF, which are ordinary characters, are taken for high surrogates: the strict
  decoder throws on the escape that the encoder wrote for them.
\<close>

lemma js_unicode_decode_refuses_D700:
  "js_unicode_encode (wchar_to_utf8 0xD700 @ [0]) = Inr (0x5C # chars ''uD700'') \<and>
   js_unicode_decode (0x5C # chars ''uD700'') True 0x5C = Inl (InvalidFormat ''unpaired surrogate'')"
proof
  have u: "add_unicode_symbol 0xD700 = 0x5C # chars ''uD700''"
    by (simp add: add_unicode_symbol_def HEX_DIGITS_def)
  have "list_all xml_char [0xD700]" by (simp add: xml_char_def is_scalar_def)
  from js_unicode_encode_eq [OF this, of "[]"]
  show "js_unicode_encode (wchar_to_utf8 0xD700 @ [0]) = Inr (0x5C # chars ''uD700'')"
    by (simp add: js_symbol_def js_plain_def js_unicode_units_scalar u)
  show "js_unicode_decode (0x5C # chars ''uD700'') True 0x5C = Inl (InvalidFormat ''unpaired surrogate'')"
    using js_decode_unit [of "0xD700" True "[]"]
    by (simp add: u js_unicode_decode_def js_unicode_decode_loop.simps [of True "0x5C" "0xD700" "[]"]
        add_surrogate_def)
qed

text \<open>An escape cut off after its third digit is read behind the end of the source.\<close>

lemma js_unicode_decode_overread:
  "js_unicode_decode (0x5C # chars ''u123'') strict 0x5C = Inl OutOfBounds"
  by (simp add: js_unicode_decode_def js_unicode_decode_loop.simps js_hex4_def)

subsection \<open>JSON strings\<close>

lemma NON_JSON_iff [category_simps]: "NON_JSON c \<longleftrightarrow> c \<le> 0x1F \<or> c = 0x22 \<or> c = 0x5C"
proof -
  have "NON_JSON c \<longleftrightarrow> c = 0 \<or> c = 0x5C \<or> c = 0x22 \<or> 1 \<le> c \<and> c \<le> 0x1F"
    using byte_interval [of 1 "0x1F" c]
    by (auto simp: NON_JSON_def char_table_simps word_le_nat_alt)
  moreover have "c = 0 \<or> 1 \<le> c \<and> c \<le> 0x1F \<longleftrightarrow> c \<le> 0x1F" by (cases "c = 0") (auto simp: word_gt_0 word_le_nat_alt Suc_le_eq unat_gt_0)
  ultimately show ?thesis by blast
qed

definition json_symbol :: "byte \<Rightarrow> bytes" where
  "json_symbol c =
     (if NON_JSON c then (if c = 0x5C then [0x5C, 0x5C] else JSON_REPL ! unat c) else [c])"

lemma json_symbol_plain: "\<forall>c\<in>set s. \<not> NON_JSON c \<Longrightarrow> concat (map json_symbol s) = s"
  by (induction s) (auto simp: json_symbol_def)

lemma json_escape_ref: "json_escape s = concat (map json_symbol s)"
proof -
  have "json_escape_loop s = concat (map json_symbol s)"
  proof (induction s rule: json_escape_loop.induct)
    case (1 s)
    let ?k = "find_owned NON_JSON s"
    have pre: "concat (map json_symbol (take ?k s)) = take ?k s"
      by (rule json_symbol_plain) (auto simp: scan.find_own_takeWhile dest: set_takeWhileD)
    show ?case
    proof (cases "?k = length s")
      case True
      then show ?thesis using pre by (simp add: json_escape_loop.simps [of s])
    next
      case False
      then have k: "?k < length s" using find_owned_le [of NON_JSON s] by simp
      then have n: "NON_JSON (s ! ?k)" by (rule scan.find_own_hit)
      have "concat (map json_symbol s) =
          concat (map json_symbol (take ?k s @ s ! ?k # drop (Suc ?k) s))"
        using k by (simp only: id_take_nth_drop [symmetric])
      also have "\<dots> = json_escape_loop s"
        using 1 [OF refl False refl] False n pre
        by (simp add: json_escape_loop.simps [of s] Let_def json_symbol_def [of "s ! ?k"])
      finally show ?thesis by simp
    qed
  qed
  then show ?thesis by (simp add: json_escape_def)
qed

text \<open>
  A reader of JSON string contents for the specification: control characters and quotes must
  be escaped, and the escapes are those of the JSON grammar (with \<^verbatim>\<open>u\<close> escapes of ASCII only).
\<close>

fun json_unescape :: "bytes \<Rightarrow> bytes result" where
  "json_unescape [] = Inr []"
| "json_unescape (c # cs) =
     (if c = 0x5C then
        (case cs of
           [] \<Rightarrow> Inl (InvalidFormat ''unterminated escape'')
         | e # rest \<Rightarrow>
             if e = 0x75 then
               (case rest of
                  h1 # h2 # h3 # h4 # rest' \<Rightarrow>
                    if h1 = 0x30 \<and> h2 = 0x30 \<and> h3 \<in> {0x30..0x37} \<and> HEX_NUMBER h4
                    then rmap ((#) (hex_to_char h3 h4)) (json_unescape rest')
                    else Inl (InvalidFormat ''unsupported escape'')
                | _ \<Rightarrow> Inl (InvalidFormat ''short escape''))
             else if e = 0x22 \<or> e = 0x5C \<or> e = 0x2F then rmap ((#) e) (json_unescape rest)
             else if e = 0x62 then rmap ((#) 0x08) (json_unescape rest)
             else if e = 0x66 then rmap ((#) 0x0C) (json_unescape rest)
             else if e = 0x6E then rmap ((#) 0x0A) (json_unescape rest)
             else if e = 0x72 then rmap ((#) 0x0D) (json_unescape rest)
             else if e = 0x74 then rmap ((#) 0x09) (json_unescape rest)
             else Inl (InvalidFormat ''unknown escape''))
      else if c \<le> 0x1F \<or> c = 0x22 then Inl (InvalidFormat ''raw control character'')
      else rmap ((#) c) (json_unescape cs))"

lemma json_unescape_REPL:
  assumes "n \<le> 0x1F \<or> n = 0x22"
  shows "json_unescape (JSON_REPL ! n @ rest) = rmap ((#) (word_of_nat n)) (json_unescape rest)"
proof -
  have "list_all (\<lambda>n. json_unescape (JSON_REPL ! n @ rest) = rmap ((#) (word_of_nat n)) (json_unescape rest))
      (34 # [0..<32])"
    by (simp add: upt_rec JSON_REPL_def category_simps hex_to_char_def hex_to_int_def)
  with assms show ?thesis by (auto simp: list_all_iff)
qed

interpretation json_codec: stream_codec json_symbol "\<lambda>c. [c]" json_unescape "\<lambda>_. True"
proof (unfold_locales, goal_cases)
  case (2 c rest)
  consider "c = 0x5C" | "c \<le> 0x1F \<or> c = 0x22" "c \<noteq> 0x5C" | "\<not> NON_JSON c"
    by (auto simp: NON_JSON_iff)
  then show ?case
  proof cases
    case 1
    then show ?thesis by (simp add: json_symbol_def NON_JSON_iff rmap_def)
  next
    case 2
    then have "unat c \<le> 0x1F \<or> unat c = 0x22" by (auto simp: word_le_nat_alt)
    with 2 show ?thesis
      using json_unescape_REPL [of "unat c" rest] by (simp add: json_symbol_def NON_JSON_iff rmap_def)
  next
    case 3
    then show ?thesis by (simp add: json_symbol_def NON_JSON_iff rmap_def)
  qed
qed simp

text \<open>
  \<^verbatim>\<open>json_escape\<close> writes string contents that a JSON reader, which refuses raw quotes and
  control characters, reads back as the source; the result fits into the reserved six bytes
  for each character.
\<close>

lemma json_escape_correct:
  "json_unescape (json_escape s) = Inr s \<and> length (json_escape s) \<le> length s * 6"
proof
  have "list_all (\<lambda>_. True) s" by (simp add: list_all_iff)
  from json_codec.dec_all [OF this] show "json_unescape (json_escape s) = Inr s"
    by (simp add: json_escape_ref)
  have "list_all (\<lambda>r. length r \<le> 6) JSON_REPL" by (simp add: JSON_REPL_def)
  then have "n < 35 \<Longrightarrow> length (JSON_REPL ! n) \<le> 6" for n
    by (simp add: list_all_length JSON_REPL_def)
  then have "length (json_symbol c) \<le> 6" for c
    by (auto simp: json_symbol_def NON_JSON_iff word_le_nat_alt)
  then have "length (concat (map json_symbol s)) \<le> length s * 6"
    by (induction s) (auto intro: add_mono simp: add.commute)
  then show "length (json_escape s) \<le> length s * 6" by (simp only: json_escape_ref)
qed

subsection \<open>JavaScript strings\<close>

lemma NON_JS_iff [category_simps]:
  "NON_JS c \<longleftrightarrow> c \<in> {0, 0x5C, 0x22, 0x27, 0x2F, 0x0A, 0x0D, 0x3C, 0x3E, 0xE2}"
  by (auto simp: NON_JS_def char_table_def)

text \<open>
  The reference: the line separators U+2028 and U+2029 and the characters with a meaning in
  JavaScript or HTML are escaped, every other byte is copied.
\<close>

definition js_line_separator :: "bytes \<Rightarrow> bool" where
  "js_line_separator s \<longleftrightarrow> take 2 s = [0xE2, 0x80] \<and> 2 < length s \<and> s ! 2 \<in> {0xA8, 0xA9}"

function js_escape_ref :: "bytes \<Rightarrow> bytes" where
  "js_escape_ref s =
     (if s = [] then []
      else if js_line_separator s then
        (if s ! 2 = 0xA9 then 0x5C # chars ''u2029'' else 0x5C # chars ''u2028'') @ js_escape_ref (drop 3 s)
      else if NON_JS (hd s) \<and> hd s \<noteq> 0xE2 then
        [0x5C, ch CHR ''x'', HEX_DIGITS ! unat (drop_bit 4 (hd s)), HEX_DIGITS ! unat (hd s AND 0x0F)] @
        js_escape_ref (tl s)
      else hd s # js_escape_ref (tl s))"
  by pat_completeness auto
termination by (relation "measure length") auto

declare js_escape_ref.simps [simp del]

lemma js_escape_ref_plain:
  "\<forall>c\<in>set x. \<not> NON_JS c \<Longrightarrow> js_escape_ref (x @ s) = x @ js_escape_ref s"
proof (induction x)
  case (Cons c x)
  then have "c \<noteq> 0xE2" by (auto simp: NON_JS_iff)
  then have "\<not> js_line_separator (c # x @ s)" by (simp add: js_line_separator_def numeral_2_eq_2)
  with Cons show ?case by (simp add: js_escape_ref.simps [of "c # x @ s"])
qed simp

lemma find_owned_terminated:
  assumes "p 0"
  obtains x y where "s = x @ y" and "\<forall>c\<in>set x. \<not> p c" and "y = [] \<or> p (hd y)"
    and "find_owned p (s @ 0 # rest) = length x"
proof (rule that)
  show "s = takeWhile (\<lambda>c. \<not> p c) s @ dropWhile (\<lambda>c. \<not> p c) s" by simp
  show "\<forall>c\<in>set (takeWhile (\<lambda>c. \<not> p c) s). \<not> p c" by (auto dest: set_takeWhileD)
  show "dropWhile (\<lambda>c. \<not> p c) s = [] \<or> p (hd (dropWhile (\<lambda>c. \<not> p c) s))"
    using hd_dropWhile by blast
  show "find_owned p (s @ 0 # rest) = length (takeWhile (\<lambda>c. \<not> p c) s)"
    using assms by (induction s) auto
qed

lemma js_encode_loop_ref:
  assumes "0 \<notin> set s"
  shows "js_encode_loop (pre @ s @ 0 # rest) (length pre) = Inr (pre @ js_escape_ref s)"
  using assms
proof (induction "length s" arbitrary: pre s rule: less_induct)
  case less
  obtain x y where s: "s = x @ y" and x: "\<forall>c\<in>set x. \<not> NON_JS c" and y: "y = [] \<or> NON_JS (hd y)"
    and f: "find_owned NON_JS (s @ 0 # rest) = length x"
    using find_owned_terminated [of NON_JS s rest] by (auto simp: NON_JS_iff)
  have IH: "js_encode_loop (p @ s' @ 0 # rest) (length p) = Inr (p @ js_escape_ref s')"
    if "length s' < length s" "0 \<notin> set s'" for p s' using less that by blast
  note IH0 = IH [of _ "[]", simplified] and IH1 = IH [of _ "[0xE2]", simplified]
  note loop = js_encode_loop.simps [of "pre @ s @ 0 # rest" "length pre"]
  have p: "length pre + find_owned NON_JS (drop (length pre) (pre @ s @ 0 # rest)) = length pre + length x"
    "drop (length pre + length x) (pre @ s @ 0 # rest) = y @ 0 # rest"
    "take (length pre + length x) (pre @ s @ 0 # rest) = pre @ x"
    using f by (simp_all add: s)
  have ref: "js_escape_ref s = x @ js_escape_ref y" using x by (simp add: s js_escape_ref_plain)
  show ?case
  proof (cases y)
    case Nil
    then show ?thesis unfolding loop p Let_def ref by (simp add: js_escape_ref.simps)
  next
    case (Cons c z)
    then have c: "NON_JS c" "c \<noteq> 0" "0 \<notin> set z" "length z < length s"
      using y less.prems by (auto simp: s)
    show ?thesis
    proof (cases "c = 0xE2")
      case False
      then have "js_escape_ref y = [0x5C, 0x78, HEX_DIGITS ! unat (drop_bit 4 c), HEX_DIGITS ! unat (c AND 0x0F)] @
          js_escape_ref z"
        using Cons c(1) by (simp add: js_escape_ref.simps [of "c # z"] js_line_separator_def numeral_2_eq_2)
      with False c show ?thesis
        unfolding loop p Let_def ref Cons by (simp add: IH0 drop_bit_4_and)
    next
      case True
      show ?thesis
      proof (cases "js_line_separator y")
        case sep: True
        then obtain d z' where z: "z = 0x80 # d # z'" "d = 0xA8 \<or> d = 0xA9"
          using Cons by (cases z; cases "tl z") (auto simp: js_line_separator_def)
        have "js_escape_ref y =
            (if d = 0xA9 then 0x5C # chars ''u2029'' else 0x5C # chars ''u2028'') @ js_escape_ref z'"
          using sep Cons z(1) by (simp add: js_escape_ref.simps [of "c # 0x80 # d # z'"])
        with True c z show ?thesis unfolding loop p Let_def ref Cons by (auto simp: IH0)
      next
        case sep: False
        have "js_escape_ref y = 0xE2 # js_escape_ref z"
          using sep Cons True by (simp add: js_escape_ref.simps [of "0xE2 # z"])
        moreover have "\<not> (\<exists>d z'. z = 0x80 # d # z' \<and> (d = 0xA8 \<or> d = 0xA9))"
          using sep Cons True by (auto simp: js_line_separator_def)
        ultimately show ?thesis
          using True c IH1 [of z] unfolding loop p Let_def ref Cons
          by (cases z; cases "tl z") auto
      qed
    qed
  qed
qed

text \<open>
  \<^verbatim>\<open>js_encode\<close> of a terminated string is the escape of the reference, in which the two line
  separators and the characters with a meaning in JavaScript or HTML are escaped and every
  other byte is copied; it never reads behind the terminator, and none of the characters it
  escapes is left in the result but the backslash of the escapes.
\<close>

lemma js_encode_correct:
  assumes "0 \<notin> set s"
  shows "js_encode (s @ 0 # rest) = Inr (js_escape_ref s) \<and>
    set (js_escape_ref s) \<inter> {0, 0x22, 0x27, 0x2F, 0x0A, 0x0D, 0x3C, 0x3E} = {}"
proof
  show "js_encode (s @ 0 # rest) = Inr (js_escape_ref s)"
    using js_encode_loop_ref [OF assms, of "[]" rest] by (simp add: js_encode_def)
  have hex: "HEX_NUMBER c \<Longrightarrow> c \<notin> {0, 0x22, 0x27, 0x2F, 0x0A, 0x0D, 0x3C, 0x3E}" for c
    by (auto simp: HEX_NUMBER_iff)
  show "set (js_escape_ref s) \<inter> {0, 0x22, 0x27, 0x2F, 0x0A, 0x0D, 0x3C, 0x3E} = {}"
  proof (induction s rule: js_escape_ref.induct)
    case (1 s)
    let ?hex = "[0x5C, 0x78, HEX_DIGITS ! unat (drop_bit 4 (hd s)), HEX_DIGITS ! unat (hd s AND 0x0F)]"
    consider "s = []" | (sep) "s \<noteq> []" "js_line_separator s"
      | (esc) "s \<noteq> []" "\<not> js_line_separator s" "NON_JS (hd s) \<and> hd s \<noteq> 0xE2"
      | (plain) "s \<noteq> []" "\<not> js_line_separator s" "\<not> (NON_JS (hd s) \<and> hd s \<noteq> 0xE2)"
      by blast
    then show ?case
    proof cases
      case sep
      with 1(1) show ?thesis by (simp add: js_escape_ref.simps [of s])
    next
      case esc
      have "set ?hex \<inter> {0, 0x22, 0x27, 0x2F, 0x0A, 0x0D, 0x3C, 0x3E} = {}"
        using hex [OF HEX_DIGITS_pair(1) [of "hd s"]] hex [OF HEX_DIGITS_pair(2) [of "hd s"]] by simp
      moreover have "js_escape_ref s = ?hex @ js_escape_ref (tl s)"
        using esc by (simp add: js_escape_ref.simps [of s])
      ultimately show ?thesis using 1(2) [OF esc] by (simp only: set_append Int_Un_distrib2 Un_empty)
    next
      case plain
      then have "hd s \<notin> {0, 0x22, 0x27, 0x2F, 0x0A, 0x0D, 0x3C, 0x3E}" by (auto simp: NON_JS_iff)
      moreover have "js_escape_ref s = hd s # js_escape_ref (tl s)"
        using plain by (simp add: js_escape_ref.simps [of s])
      ultimately show ?thesis
        using 1(3) [OF plain] by (simp only: list.set Int_insert_left if_False)
    qed (simp add: js_escape_ref.simps)
  qed
qed

lemma js_encode_correct_example:
  "js_encode [0x3C, 0xE2, 0x80, 0xA8, 0] = Inr (0x5C # chars ''x3C'' @ 0x5C # chars ''u2028'')"
proof -
  have "js_escape_ref [0x3C, 0xE2, 0x80, 0xA8] = 0x5C # chars ''x3C'' @ 0x5C # chars ''u2028''"
    by (simp add: js_escape_ref.simps js_line_separator_def NON_JS_iff HEX_DIGITS_def)
  with js_encode_correct [of "[0x3C, 0xE2, 0x80, 0xA8]" "[]"] show ?thesis by simp
qed

end
