(* ===== verification/String_Misc.thy ===== *)
theory String_Misc
  imports Mime_Url
begin

text \<open>
  The remaining string manipulations of \<^verbatim>\<open>src/src/String/StringManip.cpp\<close>: \<^verbatim>\<open>hex_encode\<close> and
  \<^verbatim>\<open>hex_decode\<close>, \<^verbatim>\<open>csv_encode\<close>, \<^verbatim>\<open>trim\<close>, \<^verbatim>\<open>mark\<close>, \<^verbatim>\<open>replace\<close>, the class \<^verbatim>\<open>Translit\<close>, and
  from \<^verbatim>\<open>StringManip.tpp\<close> the class \<^verbatim>\<open>InverseCategory\<close>.  A \<^verbatim>\<open>const char*\<close> is the list of the
  characters before its terminator, \<open>None\<close> the null pointer.
\<close>

section \<open>Hexadecimal text\<close>

fun hex_encode_loop :: "bytes \<Rightarrow> bytes" where
  "hex_encode_loop [] = []"
| "hex_encode_loop (c # data) =
     [HEX_DIGITS ! unat (drop_bit 4 c), HEX_DIGITS ! unat (c AND 0xF)] @ hex_encode_loop data"

fun skip_zeroes :: "bytes \<Rightarrow> bytes" where
  "skip_zeroes [] = []"
| "skip_zeroes (c # data) = (if c = 0 then skip_zeroes data else c # data)"

definition hex_encode :: "bytes \<Rightarrow> bool \<Rightarrow> bytes" where
  "hex_encode data skip_leading_zeroes =
     (if data = [] then []
      else let data = (if skip_leading_zeroes then skip_zeroes data else data)
        in if data = [] then chars ''0''
           else if skip_leading_zeroes \<and> hd data AND 0xF0 = 0
           then HEX_DIGITS ! unat (hd data) # hex_encode_loop (tl data)
           else hex_encode_loop data)"

definition hex_decode :: "bytes \<Rightarrow> bool \<Rightarrow> bytes result" where
  "hex_decode src allow_odd_string =
     (let odd_string = odd (length src)
      in if odd_string \<and> \<not> allow_odd_string then Inl (InvalidFormat ''odd length of hex string'')
         else if odd_string then Inr (hex_to_int (hd src) # hex_to_buf (tl src))
         else Inr (hex_to_buf src))"

section \<open>CSV fields\<close>

definition C_NON_CSV :: category where
  "C_NON_CSV = char_table (Some [ch CHR '','', 0x22, 0x0A, 0x0D]) False"

definition PC_NON_CSV :: category where
  "PC_NON_CSV = char_table (Some [ch CHR '';'', 0x22, 0x0A, 0x0D]) False"

definition csv_category :: "byte \<Rightarrow> category" where
  "csv_category separator =
     (if separator = ch CHR '','' then C_NON_CSV
      else if separator = ch CHR '';'' then PC_NON_CSV
      else char_table (Some (takeWhile (\<lambda>c. c \<noteq> 0) [separator, 0x22, 0x0A, 0x0D])) False)"

text \<open>\<open>seg\<close> is the text from \<^verbatim>\<open>src\<close> to \<^verbatim>\<open>ptr\<close>, seen and not yet copied.\<close>

fun csv_encode_loop :: "bytes \<Rightarrow> bytes \<Rightarrow> bytes" where
  "csv_encode_loop seg [] = seg"
| "csv_encode_loop seg (c # cs) =
     (if c = 0x22 then seg @ [0x22, 0x22] @ csv_encode_loop [] cs
      else csv_encode_loop (seg @ [c]) cs)"

definition csv_encode :: "bytes option \<Rightarrow> byte \<Rightarrow> bytes" where
  "csv_encode src separator =
     (case src of
        None \<Rightarrow> []
      | Some src \<Rightarrow>
          if find_owned_cstr (csv_category separator) src = None then src
          else [0x22] @ csv_encode_loop [] src @ [0x22])"

section \<open>Trimming, marking, replacing\<close>

text \<open>\<^verbatim>\<open>while (trim_set(*--end)); ++end;\<close>\<close>

fun trim_end_loop :: "category \<Rightarrow> bytes \<Rightarrow> nat \<Rightarrow> nat" where
  "trim_end_loop trim_set str 0 = 0"
| "trim_end_loop trim_set str (Suc end) =
     (if trim_set (str ! end) then trim_end_loop trim_set str end else Suc end)"

definition trim :: "bytes \<Rightarrow> category \<Rightarrow> bytes" where
  "trim str trim_set =
     (let begin = find_nonowned trim_set str
      in if begin = length str then []
         else let end = trim_end_loop trim_set str (length str)
              in take (end - begin) (drop begin str))"

function mark_loop :: "category \<Rightarrow> byte \<Rightarrow> bytes \<Rightarrow> bytes" where
  "mark_loop predicate marker src =
     (case find_owned_cstr predicate src of
        None \<Rightarrow> src
      | Some ptr \<Rightarrow>
          if ptr < length src
          then take ptr src @ [marker, src ! ptr] @ mark_loop predicate marker (drop (ptr + 1) src)
          else take ptr src @ [marker, 0])"
  by pat_completeness auto
termination by (relation "measure (\<lambda>(predicate, marker, src). length src)") auto

declare mark_loop.simps [simp del]

definition mark :: "bytes option \<Rightarrow> category \<Rightarrow> byte \<Rightarrow> bytes" where
  "mark src predicate marker =
     (case src of None \<Rightarrow> [] | Some src \<Rightarrow> mark_loop predicate marker src)"

text \<open>\<^verbatim>\<open>SubString::find\<close> of a substring: the first position where it stands.\<close>

fun find_substr :: "bytes \<Rightarrow> bytes \<Rightarrow> nat option" where
  "find_substr to_find [] = (if to_find = [] then Some 0 else None)"
| "find_substr to_find (c # cs) =
     (if take (length to_find) (c # cs) = to_find then Some 0
      else map_option Suc (find_substr to_find cs))"

function replace_loop :: "bytes \<Rightarrow> bytes \<Rightarrow> bytes \<Rightarrow> bytes" where
  "replace_loop to_find to_replace str =
     (if to_find = [] then str
      else case find_substr to_find str of
        None \<Rightarrow> str
      | Some pos \<Rightarrow>
          take pos str @ to_replace @
          replace_loop to_find to_replace (drop (pos + length to_find) str))"
  by pat_completeness auto
termination
proof (relation "measure (\<lambda>(to_find, to_replace, str). length str)", goal_cases)
  case (2 to_find to_replace str pos)
  then have "str \<noteq> []" by (cases str) auto
  with 2 show ?case by (cases to_find) auto
qed simp

declare replace_loop.simps [simp del]

definition replace :: "bytes \<Rightarrow> bytes \<Rightarrow> bytes \<Rightarrow> bytes" where
  "replace str to_find to_replace =
     (if to_find = [] then str else replace_loop to_find to_replace str)"

section \<open>Translit and InverseCategory\<close>

record Translit =
  replacement :: "byte \<Rightarrow> byte"

fun translit_table_loop :: "(byte \<Rightarrow> byte) \<Rightarrow> bytes \<Rightarrow> bytes \<Rightarrow> nat \<Rightarrow> (byte \<Rightarrow> byte)" where
  "translit_table_loop t valid [] i = t"
| "translit_table_loop t valid (c # invalid) i =
     translit_table_loop (t(c := valid ! (i mod length valid))) valid invalid (i + 1)"

definition translit_create :: "bytes option \<Rightarrow> bytes option \<Rightarrow> Translit" where
  "translit_create invalid valid =
     (case (invalid, valid) of
        (Some invalid, Some valid) \<Rightarrow>
          if length valid = 0 then \<lparr>replacement = (\<lambda>i. i)\<rparr>
          else \<lparr>replacement = translit_table_loop (\<lambda>i. i) valid invalid 0\<rparr>
      | _ \<Rightarrow> \<lparr>replacement = (\<lambda>i. i)\<rparr>)"

fun translit :: "Translit \<Rightarrow> bytes \<Rightarrow> bytes" where
  "translit t [] = []"
| "translit t (c # src) = replacement t c # translit t src"

definition inverse_category :: "category \<Rightarrow> category" where
  "inverse_category p = (\<lambda>c. \<not> p c)"

definition inverse_find_owned :: "category \<Rightarrow> bytes \<Rightarrow> nat" where
  "inverse_find_owned p cs = find_nonowned p cs"

definition inverse_find_nonowned :: "category \<Rightarrow> bytes \<Rightarrow> nat" where
  "inverse_find_nonowned p cs = find_owned p cs"

definition inverse_rfind_owned :: "category \<Rightarrow> bytes \<Rightarrow> nat" where
  "inverse_rfind_owned p cs = rfind_nonowned p cs"

definition inverse_rfind_nonowned :: "category \<Rightarrow> bytes \<Rightarrow> nat" where
  "inverse_rfind_nonowned p cs = rfind_owned p cs"

definition base_name :: "bytes \<Rightarrow> bytes" where
  "base_name path =
     (let i = rfind_owned (char1 (ch CHR ''/'')) path
      in if i < length path then drop (i + 1) path else path)"

section \<open>Correctness\<close>

text \<open>The inverse of a searching category is one.\<close>

interpretation inverse_scan:
  search_category "inverse_category p" "inverse_find_owned p" "inverse_find_nonowned p" for p
  unfolding inverse_category_def inverse_find_owned_def inverse_find_nonowned_def
  by unfold_locales
    (simp_all add: scan.find_own_before scan.find_own_hit scan.find_non_before scan.find_non_hit
      find_owned_le find_nonowned_le)

subsection \<open>Hexadecimal text\<close>

lemma hex_encode_loop_concat:
  "hex_encode_loop s = concat (map (\<lambda>c. [HEX_DIGITS ! unat (drop_bit 4 c), HEX_DIGITS ! unat (c AND 0xF)]) s)"
  by (induction s) simp_all

interpretation hex_codec: stream_codec
  "\<lambda>c. [HEX_DIGITS ! unat (drop_bit 4 c), HEX_DIGITS ! unat (c AND 0xF)]" "\<lambda>c. [c]"
  "\<lambda>s. Inr (hex_to_buf s)" "\<lambda>_. True"
  by unfold_locales (simp_all add: hex_to_char_digits)

lemma hex_to_buf_encode [simp]: "hex_to_buf (hex_encode_loop s) = s"
  using hex_codec.dec_all [of s] by (simp add: hex_encode_loop_concat list_all_iff)

lemma length_hex_encode_loop [simp]: "length (hex_encode_loop s) = 2 * length s"
  by (induction s) simp_all

lemma skip_zeroes_eq: "skip_zeroes s = dropWhile (\<lambda>c. c = 0) s"
  by (induction s) simp_all

lemma hex_to_int_low_digit:
  assumes "c AND 0xF0 = (0 :: byte)"
  shows "hex_to_int (HEX_DIGITS ! unat c) = c"
proof -
  have "c AND 0xF0 = 0 \<longrightarrow> unat c < 16"
    by (rule all_byteD [of "\<lambda>c. c AND 0xF0 = 0 \<longrightarrow> unat c < 16"]) (unfold upt_256, simp)
  with assms have "unat c < 16" by simp
  then show ?thesis by (simp add: hex_digit_roundtrip)
qed

text \<open>
  \<^verbatim>\<open>hex_decode\<close> gives back the bytes that \<^verbatim>\<open>hex_encode\<close> wrote; when the leading zeroes are
  skipped (and odd lengths allowed) it gives back the bytes from the first that is not zero
  on, one zero byte standing for data that is all zero.
\<close>

lemma hex_roundtrip:
  "hex_decode (hex_encode data False) allow = Inr data \<and>
   hex_decode (hex_encode data True) True =
     Inr (if data \<noteq> [] \<and> list_all (\<lambda>c. c = 0) data then [0] else dropWhile (\<lambda>c. c = 0) data)"
  unfolding list_all_iff
proof
  show "hex_decode (hex_encode data False) allow = Inr data"
    by (cases data) (simp_all add: hex_decode_def hex_encode_def hex_to_char_digits)
  show "hex_decode (hex_encode data True) True =
     Inr (if data \<noteq> [] \<and> (\<forall>c\<in>set data. c = 0) then [0] else dropWhile (\<lambda>c. c = 0) data)"
  proof (cases "dropWhile (\<lambda>c. c = 0) data")
    case Nil
    then have "\<forall>c\<in>set data. c = 0" by (simp add: dropWhile_eq_Nil_conv)
    with Nil show ?thesis
      by (cases "data = []") (simp_all add: hex_encode_def skip_zeroes_eq hex_decode_def hex_to_int_def)
  next
    case (Cons c cs)
    then have "\<not> (\<forall>c\<in>set data. c = 0)" "data \<noteq> []"
      using dropWhile_eq_Nil_conv [of "\<lambda>c. c = 0" data] by auto
    moreover have "hex_encode data True =
        (if c AND 0xF0 = 0 then HEX_DIGITS ! unat c # hex_encode_loop cs else hex_encode_loop (c # cs))"
      using Cons \<open>data \<noteq> []\<close> by (simp add: hex_encode_def skip_zeroes_eq)
    ultimately show ?thesis
      using Cons by (auto simp: hex_decode_def hex_to_int_low_digit hex_to_char_digits)
  qed
qed

subsection \<open>CSV fields\<close>

lemma csv_category_iff:
  assumes "separator \<notin> {0, 0x22, 0x0A, 0x0D}"
  shows "csv_category separator c \<longleftrightarrow> c \<in> {separator, 0x22, 0x0A, 0x0D}"
  using assms by (auto simp: csv_category_def C_NON_CSV_def PC_NON_CSV_def char_table_def)

lemma csv_encode_loop_eq:
  "csv_encode_loop seg s = seg @ concat (map (\<lambda>c. if c = 0x22 then [0x22, 0x22] else [c]) s)"
  by (induction seg s rule: csv_encode_loop.induct) auto

text \<open>
  The reader of one field for the specification: a field that begins with a quote goes to the
  quote that is not doubled, any other field to the next separator or line end.
\<close>

fun csv_read_quoted :: "bytes \<Rightarrow> (bytes \<times> bytes) option" where
  "csv_read_quoted [] = None"
| "csv_read_quoted (c # cs) =
     (if c \<noteq> 0x22 then map_option (\<lambda>(f, r). (c # f, r)) (csv_read_quoted cs)
      else case cs of
        d # ds \<Rightarrow>
          if d = 0x22 then map_option (\<lambda>(f, r). (0x22 # f, r)) (csv_read_quoted ds) else Some ([], cs)
      | [] \<Rightarrow> Some ([], []))"

definition csv_read :: "byte \<Rightarrow> bytes \<Rightarrow> (bytes \<times> bytes) option" where
  "csv_read separator s =
     (if s \<noteq> [] \<and> hd s = 0x22 then csv_read_quoted (tl s)
      else Some (takeWhile (\<lambda>c. c \<notin> {separator, 0x0A, 0x0D}) s,
                 dropWhile (\<lambda>c. c \<notin> {separator, 0x0A, 0x0D}) s))"

lemma csv_read_quoted_encode:
  assumes "d \<noteq> 0x22"
  shows "csv_read_quoted (concat (map (\<lambda>c. if c = 0x22 then [0x22, 0x22] else [c]) s) @ 0x22 # d # rest) =
    Some (s, d # rest)"
  using assms by (induction s) auto

lemma find_owned_cstr_None: "find_owned_cstr p s = None \<longleftrightarrow> \<not> p 0 \<and> (\<forall>c\<in>set s. \<not> p c)"
  by (induction s) auto

text \<open>
  A field that \<^verbatim>\<open>csv_encode\<close> wrote, followed by the separator or a line end, is read back as
  the source, whatever it contains.
\<close>

lemma csv_roundtrip:
  assumes "separator \<notin> {0, 0x22, 0x0A, 0x0D}" and "d \<in> {separator, 0x0A, 0x0D}"
  shows "csv_read separator (csv_encode (Some s) separator @ d # rest) = Some (s, d # rest)"
proof (cases "\<forall>c\<in>set s. c \<notin> {separator, 0x22, 0x0A, 0x0D}")
  case True
  then have "find_owned_cstr (csv_category separator) s = None"
    using assms(1) by (auto simp: find_owned_cstr_None csv_category_iff)
  then have e: "csv_encode (Some s) separator = s" by (simp add: csv_encode_def)
  have "d \<noteq> 0x22" using assms by auto
  then have "hd (s @ d # rest) \<noteq> 0x22" using True by (cases s) auto
  moreover have "takeWhile (\<lambda>c. c \<notin> {separator, 0x0A, 0x0D}) (s @ d # rest) = s"
    "dropWhile (\<lambda>c. c \<notin> {separator, 0x0A, 0x0D}) (s @ d # rest) = d # rest"
    using True assms(2) by (auto simp: takeWhile_append2 dropWhile_append2)
  ultimately show ?thesis by (simp add: csv_read_def e)
next
  case False
  then have "find_owned_cstr (csv_category separator) s \<noteq> None"
    using assms(1) by (auto simp: find_owned_cstr_None csv_category_iff)
  moreover have "d \<noteq> 0x22" using assms by auto
  ultimately show ?thesis
    by (auto simp: csv_read_def csv_encode_def csv_encode_loop_eq csv_read_quoted_encode)
qed

lemma csv_roundtrip_example:
  "csv_encode (Some (chars ''a,'' @ [0x22])) (ch CHR '','') = [0x22, 0x61, 0x2C, 0x22, 0x22, 0x22] \<and>
   csv_read (ch CHR '','') ([0x22, 0x61, 0x2C, 0x22, 0x22, 0x22] @ chars '',x'') =
     Some (chars ''a,'' @ [0x22], chars '',x'')"
proof -
  have "csv_encode (Some (chars ''a,'' @ [0x22])) (ch CHR '','') = [0x22, 0x61, 0x2C, 0x22, 0x22, 0x22]"
    by (simp add: csv_encode_def csv_category_iff)
  with csv_roundtrip [of "ch CHR '',''" "ch CHR '',''" "chars ''a,'' @ [0x22]" "chars ''x''"]
  show ?thesis by simp
qed

subsection \<open>Trimming, marking, replacing\<close>

lemma trim_end_loop_eq:
  "n \<le> length s \<Longrightarrow> trim_end_loop p s n = length (dropWhile p (rev (take n s)))"
  by (induction n) (simp_all add: take_Suc_conv_app_nth)

lemma trim_ref: "trim s p = rev (dropWhile p (rev (dropWhile p s)))"
proof -
  let ?b = "takeWhile p s" and ?d = "dropWhile p s"
  have b: "find_nonowned p s = length ?b" by (rule scan.find_non_length)
  show ?thesis
  proof (cases "?d = []")
    case True
    then have "length ?b = length s" by (metis append_Nil2 takeWhile_dropWhile_id)
    with True show ?thesis unfolding True by (simp add: trim_def b)
  next
    case False
    then have "\<not> p (hd ?d)" by (rule hd_dropWhile)
    then have "dropWhile p (rev ?d @ rev ?b) = dropWhile p (rev ?d) @ rev ?b"
      using False by (intro dropWhile_append1 [of "hd ?d"]) simp_all
    then have e: "trim_end_loop p s (length s) = length (dropWhile p (rev ?d)) + length ?b"
      by (simp add: trim_end_loop_eq) (metis length_append length_rev rev_append takeWhile_dropWhile_id)
    have "?d = rev (dropWhile p (rev ?d)) @ rev (takeWhile p (rev ?d))"
      by (metis rev_append rev_rev_ident takeWhile_dropWhile_id)
    then have "take (length (dropWhile p (rev ?d))) ?d = rev (dropWhile p (rev ?d))"
      by (metis append_eq_conv_conj length_rev)
    moreover have "length ?b \<noteq> length s"
      using False by (metis append_self_conv length_append length_0_conv add_cancel_left_right takeWhile_dropWhile_id)
    ultimately show ?thesis
      by (simp add: trim_def b e Let_def dropWhile_eq_drop [symmetric])
  qed
qed

lemma mark_loop_ref:
  "mark_loop p m s = concat (map (\<lambda>c. if p c then [m, c] else [c]) s) @ (if p 0 then [m, 0] else [])"
proof (induction "length s" arbitrary: s rule: less_induct)
  case less
  show ?case
  proof (cases s)
    case Nil
    then show ?thesis by (simp add: mark_loop.simps)
  next
    case (Cons c cs)
    have "mark_loop p m (c # cs) = (if p c then m # c # mark_loop p m cs else c # mark_loop p m cs)"
    proof (cases "p c")
      case True
      then show ?thesis by (simp add: mark_loop.simps [of p m "c # cs"])
    next
      case False
      then show ?thesis
        unfolding mark_loop.simps [of p m "c # cs"] mark_loop.simps [of p m cs]
        by (simp split: option.splits)
    qed
    with less Cons show ?thesis by simp
  qed
qed

function replace_ref :: "bytes \<Rightarrow> bytes \<Rightarrow> bytes \<Rightarrow> bytes" where
  "replace_ref pat repl s =
     (if pat = [] \<or> s = [] then s
      else if take (length pat) s = pat then repl @ replace_ref pat repl (drop (length pat) s)
      else hd s # replace_ref pat repl (tl s))"
  by pat_completeness auto
termination by (relation "measure (\<lambda>(pat, repl, s). length s)") auto

declare replace_ref.simps [simp del]

lemma replace_ref_find:
  assumes "pat \<noteq> []"
  shows "case find_substr pat s of
      None \<Rightarrow> replace_ref pat repl s = s
    | Some k \<Rightarrow> replace_ref pat repl s = take k s @ repl @ replace_ref pat repl (drop (k + length pat) s)"
proof (induction s)
  case Nil
  then show ?case using assms by (simp add: replace_ref.simps)
next
  case (Cons c s)
  show ?case
  proof (cases "take (length pat) (c # s) = pat")
    case True
    then show ?thesis using assms by (simp add: replace_ref.simps [of pat repl "c # s"])
  next
    case False
    then have "replace_ref pat repl (c # s) = c # replace_ref pat repl s"
      using assms by (simp add: replace_ref.simps [of pat repl "c # s"])
    with Cons False show ?thesis by (cases "find_substr pat s") simp_all
  qed
qed

lemma replace_loop_ref: "replace_loop pat repl s = replace_ref pat repl s"
proof (induction pat repl s rule: replace_loop.induct)
  case (1 pat repl s)
  show ?case
  proof (cases "pat = []")
    case True
    then show ?thesis by (simp add: replace_loop.simps replace_ref.simps)
  next
    case False
    with 1 replace_ref_find [OF False, of repl s] show ?thesis
      by (cases "find_substr pat s") (simp_all add: replace_loop.simps [of pat repl s])
  qed
qed

lemma translit_map: "translit t s = map (replacement t) s"
  by (induction s) simp_all

text \<open>
  \<^verbatim>\<open>trim\<close> removes exactly the characters of the set at both ends; \<^verbatim>\<open>mark\<close> puts the marker before
  every owned character, the terminator included when the category owns it; \<^verbatim>\<open>replace\<close> replaces
  the occurrences from left to right without overlap; and \<^verbatim>\<open>translit\<close> maps every character
  through the table.
\<close>

lemma string_edits_correct:
  "trim s p = rev (dropWhile p (rev (dropWhile p s))) \<and>
   mark (Some s) p m =
     concat (map (\<lambda>c. if p c then [m, c] else [c]) s) @ (if p 0 then [m, 0] else []) \<and>
   replace s pat repl = replace_ref pat repl s \<and>
   translit t s = map (replacement t) s"
  by (simp add: trim_ref mark_def mark_loop_ref replace_def replace_loop_ref translit_map
      replace_ref.simps [of "[]"])

end
