(* ===== verification/Int_To_Str.thy ===== *)
theory Int_To_Str
  imports Ascii_String_Manip
begin

text \<open>
  \<^verbatim>\<open>int_to_str\<close> and \<^verbatim>\<open>str_to_int\<close> of \<^verbatim>\<open>src/src/String/StringManip.tpp\<close>, for any integer type
  given by its signedness and its number of bits; \<^verbatim>\<open>strlcpy\<close>, \<^verbatim>\<open>strlcat\<close> and the variadic
  \<^verbatim>\<open>concat\<close> with its \<^verbatim>\<open>append\<close> overloads of \<^verbatim>\<open>StringManip.ipp\<close>.
\<close>

section \<open>Operations\<close>

subsection \<open>Integer types\<close>

record int_type =
  it_signed :: bool
  it_bits :: nat

definition it_max :: "int_type \<Rightarrow> int" where
  "it_max T = 2 ^ (it_bits T - (if it_signed T then 1 else 0)) - 1"

definition it_min :: "int_type \<Rightarrow> int" where
  "it_min T = (if it_signed T then - (2 ^ (it_bits T - 1)) else 0)"

text \<open>\<^verbatim>\<open>*ptr++ = '0' + value % 10\<close> while \<^verbatim>\<open>value /= 10\<close>: the digits from the last to the first.\<close>

fun digits_loop :: "nat \<Rightarrow> bytes" where
  "digits_loop value =
     (word_of_nat (48 + value mod 10) :: byte) #
     (if value div 10 \<noteq> 0 then digits_loop (value div 10) else [])"

declare digits_loop.simps [simp del]

text \<open>\<^verbatim>\<open>digits10\<close>: every number of so many digits fits into the type.\<close>

definition it_digits10 :: "int_type \<Rightarrow> nat" where
  "it_digits10 T = length (digits_loop (nat (it_max T))) - 1"

subsection \<open>int_to_str\<close>

function swap_loop :: "bytes \<Rightarrow> nat \<Rightarrow> nat \<Rightarrow> bytes" where
  "swap_loop buf str ptr =
     (if str < ptr then swap_loop (buf[str := buf ! ptr, ptr := buf ! str]) (str + 1) (ptr - 1)
      else buf)"
  by pat_completeness auto
termination by (relation "measure (\<lambda>(buf, str, ptr). ptr)") auto

declare swap_loop.simps [simp del]

definition convert_unsigned :: "nat \<Rightarrow> bytes" where
  "convert_unsigned value =
     (let buf = digits_loop value in swap_loop buf 0 (length buf - 1))"

definition convert_signed :: "int_type \<Rightarrow> int \<Rightarrow> bytes" where
  "convert_signed T value =
     (if value < - it_max T then []
      else if value < 0 then ch CHR ''-'' # convert_unsigned (nat (- value))
      else convert_unsigned (nat value))"

text \<open>
  The text written before the terminator; its length is the result, and a result of zero
  means that nothing was written.
\<close>

definition int_to_str :: "int_type \<Rightarrow> int \<Rightarrow> nat \<Rightarrow> bytes" where
  "int_to_str T value sz =
     (if sz < it_digits10 T + 3 then []
      else if it_signed T then convert_signed T value
      else convert_unsigned (nat value))"

subsection \<open>str_to_int\<close>

definition digit_of :: "byte \<Rightarrow> nat" where
  "digit_of c = unat (c - 48)"

fun str_to_int_neg_loop :: "int_type \<Rightarrow> int \<Rightarrow> bytes \<Rightarrow> int option" where
  "str_to_int_neg_loop T value [] = Some value"
| "str_to_int_neg_loop T value (c # src) =
     (let LIMIT = it_max T div 10; d = digit_of c
      in if d > 9 \<or> value < - LIMIT \<or> value = - LIMIT \<and> d > nat (- (it_min T + LIMIT * 10))
         then None
         else str_to_int_neg_loop T (value * 10 - int d) src)"

fun str_to_int_pos_loop :: "int_type \<Rightarrow> int \<Rightarrow> bytes \<Rightarrow> int option" where
  "str_to_int_pos_loop T value [] = Some value"
| "str_to_int_pos_loop T value (c # src) =
     (let LIMIT = it_max T div 10; d = digit_of c
      in if d > 9 \<or> value > LIMIT \<or> value = LIMIT \<and> d > nat (it_max T - LIMIT * 10)
         then None
         else str_to_int_pos_loop T (value * 10 + int d) src)"

text \<open>\<open>None\<close> is the result \<^verbatim>\<open>false\<close>; the loops are run on at least one character.\<close>

definition str_to_int :: "int_type \<Rightarrow> bytes \<Rightarrow> int option" where
  "str_to_int T str =
     (case str of
        [] \<Rightarrow> None
      | c # src \<Rightarrow>
          if c = ch CHR ''-'' then
            (if \<not> it_signed T then None
             else if src = [] then None else str_to_int_neg_loop T 0 src)
          else if c = ch CHR ''+'' then
            (if src = [] then None else str_to_int_pos_loop T 0 src)
          else str_to_int_pos_loop T 0 str)"

subsection \<open>Bounded copies\<close>

text \<open>
  A destination is the list of the bytes of its memory.  \<open>copy_loop n src\<close> is what the loop
  \<^verbatim>\<open>while (--size)\<close> and the statement behind it write when \<open>n\<close> rounds are left.
\<close>

fun copy_loop :: "nat \<Rightarrow> bytes \<Rightarrow> bytes" where
  "copy_loop 0 src = [0]"
| "copy_loop (Suc n) [] = [0]"
| "copy_loop (Suc n) (c # src) = c # copy_loop n src"

definition overwrite :: "bytes \<Rightarrow> nat \<Rightarrow> bytes \<Rightarrow> bytes" where
  "overwrite dst pos bs = take pos dst @ bs @ drop (pos + length bs) dst"

definition strlcpy :: "bytes \<Rightarrow> bytes \<Rightarrow> nat \<Rightarrow> bytes \<times> nat" where
  "strlcpy dst src sz =
     (if sz \<noteq> 0 then (overwrite dst 0 (copy_loop (sz - 1) src), length src)
      else (dst, length src))"

text \<open>\<^verbatim>\<open>while (size-- && *dst) dst++;\<close>: how far the terminator of the destination is, at most \<^verbatim>\<open>size\<close>.\<close>

fun strnlen :: "bytes \<Rightarrow> nat \<Rightarrow> nat" where
  "strnlen dst 0 = 0"
| "strnlen [] (Suc n) = 0"
| "strnlen (c # dst) (Suc n) = (if c = 0 then 0 else Suc (strnlen dst n))"

definition strlcat :: "bytes \<Rightarrow> bytes \<Rightarrow> nat \<Rightarrow> bytes \<times> nat" where
  "strlcat dst src sz =
     (let dst_len = strnlen dst sz; left = sz - dst_len
      in if left \<noteq> 0 then (overwrite dst dst_len (copy_loop (left - 1) src), length src + dst_len)
         else (dst, length src + dst_len))"

subsection \<open>append and concat\<close>

datatype piece = CStr bytes | Sub bytes | Integer int_type int

text \<open>
  Every overload writes at the front of \<open>buffer\<close>, of which \<open>sz\<close> bytes may be used, and returns
  how far the text goes (\<open>sz\<close> when it does not fit).
\<close>

definition append_cstr :: "bytes \<Rightarrow> nat \<Rightarrow> bytes \<Rightarrow> bytes \<times> nat" where
  "append_cstr buffer sz str =
     (let (buffer, length) = strlcpy buffer str sz
      in (buffer, if length < sz then length else sz))"

definition append_substr :: "bytes \<Rightarrow> nat \<Rightarrow> bytes \<Rightarrow> bytes \<times> nat" where
  "append_substr buffer sz str =
     (if length str \<ge> sz then (overwrite buffer 0 (take (sz - 1) str @ [0]), sz)
      else (overwrite buffer 0 str, length str))"

definition append_integer :: "bytes \<Rightarrow> nat \<Rightarrow> int_type \<Rightarrow> int \<Rightarrow> bytes \<times> nat" where
  "append_integer buffer sz T integer =
     (let str = int_to_str T integer sz; res = length str
      in if res = 0 then (overwrite buffer 0 [0], sz)
         else (overwrite buffer 0 (str @ [0]), res - 1))"

definition append_piece :: "bytes \<Rightarrow> nat \<Rightarrow> piece \<Rightarrow> bytes \<times> nat" where
  "append_piece buffer sz p =
     (case p of
        CStr str \<Rightarrow> append_cstr buffer sz str
      | Sub str \<Rightarrow> append_substr buffer sz str
      | Integer T i \<Rightarrow> append_integer buffer sz T i)"

fun concat_pieces :: "bytes \<Rightarrow> nat \<Rightarrow> piece list \<Rightarrow> bytes" where
  "concat_pieces buffer sz [] = overwrite buffer 0 [0]"
| "concat_pieces buffer sz (f # args) =
     (let (buffer, length) = append_piece buffer sz f
      in if length < sz
         then take length buffer @ concat_pieces (drop length buffer) (sz - length) args
         else buffer)"

section \<open>Correctness\<close>

subsection \<open>The digits of a number\<close>

lemma swap_loop_rev:
  "swap_loop (a @ m @ b) (length a) (length a + length m - 1) = a @ rev m @ b"
proof (induction "length m" arbitrary: a m b rule: less_induct)
  case less
  show ?case
  proof (cases "2 \<le> length m")
    case False
    then have "m = [] \<or> (\<exists>x. m = [x])" by (cases m; cases "tl m") auto
    then show ?thesis by (subst swap_loop.simps) auto
  next
    case True
    then obtain x m' y where m: "m = x # m' @ [y]"
      by (cases m; cases "tl m" rule: rev_cases) auto
    have "(a @ m @ b)[length a := (a @ m @ b) ! (length a + length m - 1),
        length a + length m - 1 := (a @ m @ b) ! length a] = (a @ [y]) @ m' @ (x # b)"
      by (simp add: m list_update_append nth_append)
    then have "swap_loop (a @ m @ b) (length a) (length a + length m - 1) =
        swap_loop ((a @ [y]) @ m' @ (x # b)) (length (a @ [y])) (length (a @ [y]) + length m' - 1)"
      using True by (subst swap_loop.simps) (simp add: m)
    also have "\<dots> = a @ rev m @ b" using less [of m' "a @ [y]" "x # b"] by (simp add: m)
    finally show ?thesis .
  qed
qed

lemma convert_unsigned_rev: "convert_unsigned n = rev (digits_loop n)"
  using swap_loop_rev [of "[]" "digits_loop n" "[]"] by (simp add: convert_unsigned_def Let_def)

lemma digit_of_number: "v < 10 \<Longrightarrow> digit_of (word_of_nat (48 + v)) = v"
  by (simp add: digit_of_def unat_of_nat)

lemma digits_loop_digits: "c \<in> set (digits_loop n) \<Longrightarrow> digit_of c \<le> 9"
proof (induction n rule: digits_loop.induct)
  case (1 n)
  then show ?case
    using digit_of_number [of "n mod 10"]
    by (auto simp: digits_loop.simps [of n] simp del: of_nat_add split: if_splits)
qed

lemma digits_loop_value: "foldr (\<lambda>c v. v * 10 + int (digit_of c)) (digits_loop n) 0 = int n"
proof (induction n rule: digits_loop.induct)
  case (1 n)
  have "int (n div 10) * 10 + int (n mod 10) = int n"
    by (metis div_mult_mod_eq of_nat_add of_nat_mult of_nat_numeral)
  then show ?case
    using 1 digit_of_number [of "n mod 10"]
    by (cases "n div 10 = 0") (simp_all add: digits_loop.simps [of n] del: of_nat_add)
qed

lemma length_digits_loop_mono: "m \<le> n \<Longrightarrow> length (digits_loop m) \<le> length (digits_loop n)"
proof (induction n arbitrary: m rule: digits_loop.induct)
  case (1 n)
  have le: "m div 10 \<le> n div 10" using 1(2) by (rule div_le_mono)
  show ?case
  proof (cases "m div 10 = 0")
    case True
    then show ?thesis by (simp add: digits_loop.simps [of m] digits_loop.simps [of n])
  next
    case False
    with le have "n div 10 \<noteq> 0" by simp
    with False 1(1) [OF _ le] show ?thesis
      by (simp add: digits_loop.simps [of m] digits_loop.simps [of n])
  qed
qed

lemma digits_loop_nonempty [simp]: "digits_loop n \<noteq> []"
  by (simp add: digits_loop.simps)

subsection \<open>Reading a number\<close>

text \<open>The value of a string of decimal digits.\<close>

definition decimal_value :: "int \<Rightarrow> bytes \<Rightarrow> int" where
  "decimal_value v ds = foldl (\<lambda>v c. v * 10 + int (digit_of c)) v ds"

definition all_digits :: "bytes \<Rightarrow> bool" where
  "all_digits ds \<longleftrightarrow> (\<forall>c\<in>set ds. digit_of c \<le> 9)"

lemma decimal_value_simps [simp]:
  "decimal_value v [] = v" "decimal_value v (c # ds) = decimal_value (v * 10 + int (digit_of c)) ds"
  by (simp_all add: decimal_value_def)

lemma all_digits_simps [simp]:
  "all_digits []" "all_digits (c # ds) \<longleftrightarrow> digit_of c \<le> 9 \<and> all_digits ds"
  by (simp_all add: all_digits_def)

lemma decimal_value_ge: "0 \<le> v \<Longrightarrow> v \<le> decimal_value v ds"
proof (induction ds arbitrary: v)
  case (Cons c ds)
  then have "v \<le> v * 10 + int (digit_of c)" "0 \<le> v * 10 + int (digit_of c)" by simp_all
  from Cons.IH [OF this(2)] this(1) show ?case by simp
qed simp

lemma pos_step:
  fixes v m :: int
  assumes "0 \<le> v" "d \<le> 9"
  shows "v > m div 10 \<or> v = m div 10 \<and> d > nat (m - m div 10 * 10) \<longleftrightarrow> m < v * 10 + int d"
proof -
  have "m - m div 10 * 10 = m mod 10" by (simp add: minus_div_mult_eq_mod)
  moreover have "m = 10 * (m div 10) + m mod 10" "0 \<le> m mod 10" "m mod 10 < 10" by simp_all
  ultimately show ?thesis using assms by (auto simp: nat_less_iff)
qed

lemma power_2_mod_10: "(2 :: int) ^ k mod 10 \<noteq> 0"
proof -
  have "(2 :: int) ^ k mod 5 = 1 \<or> (2 :: int) ^ k mod 5 = 2 \<or> (2 :: int) ^ k mod 5 = 3 \<or> (2 :: int) ^ k mod 5 = 4"
  proof (induction k)
    case (Suc k)
    have "(2 :: int) ^ Suc k mod 5 = 2 * (2 ^ k mod 5) mod 5" by (simp add: mod_mult_right_eq)
    with Suc show ?case by auto
  qed simp
  then show ?thesis by presburger
qed

lemma it_max_min: "it_signed T \<Longrightarrow> it_min T = - it_max T - 1" "0 < it_bits T \<Longrightarrow> 0 \<le> it_max T" "it_max T mod 10 \<noteq> 9"
proof -
  show "it_signed T \<Longrightarrow> it_min T = - it_max T - 1" by (simp add: it_min_def it_max_def)
  show "0 < it_bits T \<Longrightarrow> 0 \<le> it_max T" by (simp add: it_max_def)
  have "x mod 10 \<noteq> 0 \<Longrightarrow> (x - 1) mod 10 \<noteq> 9" for x :: int by presburger
  then show "it_max T mod 10 \<noteq> 9"
    unfolding it_max_def using power_2_mod_10 [of "it_bits T - (if it_signed T then 1 else 0)"] by blast
qed

lemma neg_step:
  fixes v m :: int
  assumes "v \<le> 0" "d \<le> 9" "m mod 10 \<noteq> 9"
  shows "v < - (m div 10) \<or> v = - (m div 10) \<and> d > nat (- ((- m - 1) + m div 10 * 10)) \<longleftrightarrow>
    v * 10 - int d < - m - 1"
proof -
  define q r where "q = m div 10" and "r = m mod 10"
  have m: "m = 10 * q + r" "0 \<le> r" "r < 9"
    using assms(3) by (simp_all add: q_def r_def)
  show ?thesis
    unfolding q_def [symmetric] using m assms(1,2) by (auto simp: nat_less_iff)
qed

lemma str_to_int_pos_loop_ref:
  "0 \<le> v \<Longrightarrow> v \<le> it_max T \<Longrightarrow> str_to_int_pos_loop T v ds =
     (if all_digits ds \<and> decimal_value v ds \<le> it_max T then Some (decimal_value v ds) else None)"
proof (induction ds arbitrary: v)
  case (Cons c ds)
  let ?w = "v * 10 + int (digit_of c)"
  show ?case
  proof (cases "digit_of c \<le> 9 \<and> ?w \<le> it_max T")
    case True
    then have "\<not> (digit_of c > 9 \<or> v > it_max T div 10 \<or>
        v = it_max T div 10 \<and> digit_of c > nat (it_max T - it_max T div 10 * 10))"
      using pos_step [of v "digit_of c" "it_max T"] Cons.prems by simp
    then have "str_to_int_pos_loop T v (c # ds) = str_to_int_pos_loop T ?w ds"
      by (simp only: str_to_int_pos_loop.simps Let_def if_False)
    with True Cons show ?thesis by simp
  next
    case False
    have "?w \<le> decimal_value ?w ds" using Cons.prems by (intro decimal_value_ge) simp
    with False Cons.prems pos_step [of v "digit_of c" "it_max T"] show ?thesis
      by (auto simp: Let_def)
  qed
qed simp

lemma str_to_int_neg_loop_ref:
  assumes "it_signed T"
  shows "v \<le> 0 \<Longrightarrow> it_min T \<le> v \<Longrightarrow> str_to_int_neg_loop T v ds =
     (if all_digits ds \<and> it_min T \<le> - decimal_value (- v) ds then Some (- decimal_value (- v) ds) else None)"
proof (induction ds arbitrary: v)
  case (Cons c ds)
  let ?w = "v * 10 - int (digit_of c)"
  note step = neg_step [OF Cons.prems(1) _ it_max_min(3) [of T], of "digit_of c", folded it_max_min(1) [OF assms]]
  have w: "- v * 10 + int (digit_of c) = - ?w" by simp
  show ?case
  proof (cases "digit_of c \<le> 9 \<and> it_min T \<le> ?w")
    case True
    then have "\<not> (digit_of c > 9 \<or> v < - (it_max T div 10) \<or> v = - (it_max T div 10) \<and>
        digit_of c > nat (- (it_min T + it_max T div 10 * 10)))"
      using step by simp
    then have "str_to_int_neg_loop T v (c # ds) = str_to_int_neg_loop T ?w ds"
      by (simp only: str_to_int_neg_loop.simps Let_def if_False)
    with True Cons.prems Cons.IH [of ?w] show ?thesis by (simp add: w)
  next
    case False
    have "- ?w \<le> decimal_value (- ?w) ds" using Cons.prems by (intro decimal_value_ge) simp
    with False step show ?thesis by (auto simp: Let_def w)
  qed
qed simp

lemma str_to_int_iff:
  assumes "0 < it_bits T"
  shows "str_to_int T s = Some v \<longleftrightarrow>
    (\<exists>ds. ds \<noteq> [] \<and> (\<forall>c\<in>set ds. digit_of c \<le> 9) \<and> it_min T \<le> v \<and> v \<le> it_max T \<and>
      ((s = ds \<or> s = ch CHR ''+'' # ds) \<and> v = decimal_value 0 ds \<or>
       s = ch CHR ''-'' # ds \<and> it_signed T \<and> v = - decimal_value 0 ds))"
proof -
  have m: "0 \<le> it_max T" "it_min T \<le> 0" using assms by (simp_all add: it_max_min it_min_def)
  have ge: "0 \<le> decimal_value 0 ds" for ds using decimal_value_ge [of 0 ds] by simp
  have pos: "str_to_int_pos_loop T 0 ds = Some v \<longleftrightarrow>
      all_digits ds \<and> it_min T \<le> v \<and> v \<le> it_max T \<and> v = decimal_value 0 ds" for ds
    using m ge [of ds] by (auto simp: str_to_int_pos_loop_ref)
  have neg: "it_signed T \<Longrightarrow> str_to_int_neg_loop T 0 ds = Some v \<longleftrightarrow>
      all_digits ds \<and> it_min T \<le> v \<and> v \<le> it_max T \<and> v = - decimal_value 0 ds" for ds
    using m ge [of ds] by (auto simp: str_to_int_neg_loop_ref)
  have sign: "\<not> digit_of 45 \<le> 9" "\<not> digit_of 43 \<le> 9" by (simp_all add: digit_of_def)
  show ?thesis
  proof (cases s)
    case Nil
    then show ?thesis by (simp add: str_to_int_def)
  next
    case (Cons c src)
    consider "c = 45" | "c = 43" | "c \<noteq> 45" "c \<noteq> 43" by blast
    then show ?thesis
    proof cases
      case 1
      then show ?thesis using Cons sign neg [of src]
        by (cases "it_signed T"; cases "src = []") (auto simp: str_to_int_def all_digits_def)
    next
      case 2
      then show ?thesis using Cons sign pos [of src]
        by (cases "src = []") (auto simp: str_to_int_def all_digits_def)
    next
      case 3
      then show ?thesis using Cons pos [of s] by (auto simp: str_to_int_def all_digits_def)
    qed
  qed
qed

text \<open>
  C20: \<^verbatim>\<open>str_to_int\<close> accepts exactly an optional sign (a minus for signed types only) and at least
  one decimal digit whose value is in the range of the type, and gives that value: no
  overflow goes unnoticed and no value of the type is refused.
\<close>

theorem str_to_int_exact:
  assumes "0 < it_bits T"
  shows "str_to_int T s = Some v \<longleftrightarrow>
    (\<exists>ds. ds \<noteq> [] \<and> (\<forall>c\<in>set ds. digit_of c \<le> 9) \<and> it_min T \<le> v \<and> v \<le> it_max T \<and>
      ((s = ds \<or> s = ch CHR ''+'' # ds) \<and> v = decimal_value 0 ds \<or>
       s = ch CHR ''-'' # ds \<and> it_signed T \<and> v = - decimal_value 0 ds))"
  using assms by (rule str_to_int_iff)

theorem str_to_int_exact_witness:
  "str_to_int \<lparr>it_signed = True, it_bits = 8\<rparr> (chars ''-128'') = Some (- 128)"
proof -
  have "(\<forall>c\<in>set (chars ''128''). digit_of c \<le> 9) \<and> decimal_value 0 (chars ''128'') = 128 \<and>
      chars ''-128'' = ch CHR ''-'' # chars ''128''"
    by (simp add: digit_of_def)
  moreover have "it_min \<lparr>it_signed = True, it_bits = 8\<rparr> = - 128" "it_max \<lparr>it_signed = True, it_bits = 8\<rparr> = 127"
    by (simp_all add: it_min_def it_max_def)
  ultimately show ?thesis
    by (intro str_to_int_exact [THEN iffD2] exI [of _ "chars ''128''"]) simp_all
qed

lemma decimal_value_convert: "decimal_value 0 (convert_unsigned n) = int n"
  using digits_loop_value [of n] by (simp add: decimal_value_def convert_unsigned_rev foldl_conv_foldr)

lemma all_digits_convert: "\<forall>c\<in>set (convert_unsigned n). digit_of c \<le> 9"
  using digits_loop_digits by (simp add: convert_unsigned_rev)

lemma length_convert_unsigned:
  assumes "int n \<le> it_max T"
  shows "length (convert_unsigned n) \<le> it_digits10 T + 1"
proof -
  have "length (digits_loop n) \<le> length (digits_loop (nat (it_max T)))"
    using assms by (intro length_digits_loop_mono) linarith
  then show ?thesis by (simp add: it_digits10_def convert_unsigned_rev)
qed

text \<open>
  With a buffer of at least \<^verbatim>\<open>digits10 + 3\<close> bytes, \<^verbatim>\<open>int_to_str\<close> of every value of the type but the
  least of a signed one writes, with its terminator inside the buffer, a text that
  \<^verbatim>\<open>str_to_int\<close> reads back as the value; the least value of a signed type is refused.
\<close>

lemma int_to_str_roundtrip:
  assumes "0 < it_bits T" and "it_digits10 T + 3 \<le> sz" and "it_min T \<le> v" and "v \<le> it_max T"
  shows "if it_signed T \<and> v = it_min T then int_to_str T v sz = []
    else str_to_int T (int_to_str T v sz) = Some v \<and> length (int_to_str T v sz) < sz"
proof (cases "it_signed T \<and> v = it_min T")
  case True
  then show ?thesis using assms(2) by (simp add: int_to_str_def convert_signed_def it_max_min(1))
next
  case False
  have ne: "convert_unsigned n \<noteq> []" for n by (simp add: convert_unsigned_rev)
  show ?thesis
  proof (cases "v < 0")
    case True
    then have s: "it_signed T" using assms(3) by (cases "it_signed T") (simp_all add: it_min_def)
    with False assms(3) have "- it_max T \<le> v" by (simp add: it_max_min(1))
    with True s assms(2) have e: "int_to_str T v sz = ch CHR ''-'' # convert_unsigned (nat (- v))"
      by (simp add: int_to_str_def convert_signed_def)
    have "str_to_int T (int_to_str T v sz) = Some v"
      unfolding e using True s assms ne
      by (intro str_to_int_iff [THEN iffD2] exI [of _ "convert_unsigned (nat (- v))"])
        (simp_all add: all_digits_convert decimal_value_convert)
    moreover have "length (convert_unsigned (nat (- v))) \<le> it_digits10 T + 1"
      using True \<open>- it_max T \<le> v\<close> by (intro length_convert_unsigned) simp
    ultimately show ?thesis using False assms(2) by (auto simp: e)
  next
    case nonneg: False
    then have e: "int_to_str T v sz = convert_unsigned (nat v)"
      using assms(2,4) by (simp add: int_to_str_def convert_signed_def)
    have "str_to_int T (int_to_str T v sz) = Some v"
      unfolding e using nonneg assms ne
      by (intro str_to_int_iff [THEN iffD2] exI [of _ "convert_unsigned (nat v)"])
        (simp_all add: all_digits_convert decimal_value_convert)
    moreover have "length (convert_unsigned (nat v)) \<le> it_digits10 T + 1"
      using nonneg assms(4) by (intro length_convert_unsigned) simp
    ultimately show ?thesis using False assms(2) by (auto simp: e)
  qed
qed

lemma int_to_str_roundtrip_example:
  "str_to_int \<lparr>it_signed = True, it_bits = 8\<rparr> (int_to_str \<lparr>it_signed = True, it_bits = 8\<rparr> (- 42) 5) = Some (- 42) \<and>
   int_to_str \<lparr>it_signed = True, it_bits = 8\<rparr> (- 42) 5 = chars ''-42''"
proof -
  let ?T = "\<lparr>it_signed = True, it_bits = 8\<rparr>"
  have m: "it_min ?T = - 128" "it_max ?T = 127" by (simp_all add: it_min_def it_max_def)
  have "digits_loop 127 = [55, 50, 49]" "digits_loop 42 = [50, 52]"
    by (simp_all add: digits_loop.simps)
  then have "it_digits10 ?T = 2" and c: "convert_unsigned 42 = [52, 50]"
    by (simp_all add: it_digits10_def m convert_unsigned_rev)
  then have "str_to_int ?T (int_to_str ?T (- 42) 5) = Some (- 42)"
    using int_to_str_roundtrip [of ?T 5 "- 42"] by (simp add: m)
  moreover have "int_to_str ?T (- 42) 5 = chars ''-42''"
    using \<open>it_digits10 ?T = 2\<close> by (simp add: int_to_str_def convert_signed_def m c)
  ultimately show ?thesis by blast
qed

subsection \<open>Bounded copies\<close>

lemma copy_loop_eq: "copy_loop n src = take n src @ [0]"
  by (induction n src rule: copy_loop.induct) simp_all

lemma length_overwrite: "pos + length bs \<le> length dst \<Longrightarrow> length (overwrite dst pos bs) = length dst"
  by (simp add: overwrite_def)

lemma strnlen_eq: "strnlen dst n = length (takeWhile (\<lambda>c. c \<noteq> 0) (take n dst))"
  by (induction dst n rule: strnlen.induct) simp_all

text \<open>
  \<^verbatim>\<open>strlcpy\<close> and \<^verbatim>\<open>strlcat\<close> with a destination of \<^verbatim>\<open>size\<close> bytes never write outside it, leave a
  terminated string in it that is the longest prefix of the wanted text that fits, and
  return the length of the wanted text.
\<close>

lemma strlcpy_strlcat_correct:
  assumes "length dst = sz" and "0 < sz" and "dst = old @ 0 # junk" and "0 \<notin> set old"
  shows "fst (strlcpy dst src sz) = take (sz - 1) src @ 0 # drop (length (take (sz - 1) src) + 1) dst \<and>
    snd (strlcpy dst src sz) = length src \<and> length (fst (strlcpy dst src sz)) = sz \<and>
    take (length (take (sz - 1) (old @ src)) + 1) (fst (strlcat dst src sz)) = take (sz - 1) (old @ src) @ [0] \<and>
    snd (strlcat dst src sz) = length (old @ src) \<and> length (fst (strlcat dst src sz)) = sz"
proof -
  have t: "takeWhile (\<lambda>c. c \<noteq> 0) dst = old" unfolding assms(3) using assms(4) by (subst takeWhile_append2) auto
  have "length old < sz" using assms(1,3) by simp
  moreover have n: "strnlen dst sz = length old" using t assms(1) by (simp add: strnlen_eq)
  ultimately have c: "strlcat dst src sz =
      (old @ take (sz - length old - 1) src @ 0 # drop (length old + length (take (sz - length old - 1) src) + 1) dst,
       length src + length old)"
    using assms(3) by (simp add: strlcat_def n Let_def copy_loop_eq overwrite_def)
  have old: "take (sz - 1) (old @ src) = old @ take (sz - length old - 1) src"
    using \<open>length old < sz\<close> by (simp add: take_append diff_right_commute)
  show ?thesis
    using assms(1,2) \<open>length old < sz\<close>
    by (simp add: strlcpy_def copy_loop_eq overwrite_def c old) (auto simp: min_def)
qed

lemma strlcpy_strlcat_correct_example:
  "strlcpy [0x61, 0, 0x7A] (chars ''xyz'') 3 = ([0x78, 0x79, 0], 3) \<and>
   snd (strlcat [0x61, 0, 0x7A] (chars ''xyz'') 3) = 4"
proof -
  have "strlcpy [0x61, 0, 0x7A] (chars ''xyz'') 3 = ([0x78, 0x79, 0], 3)"
    by (simp add: strlcpy_def copy_loop_eq overwrite_def)
  moreover have "length [0x61, 0, 0x7A :: byte] = 3" "0 < (3 :: nat)"
    "[0x61, 0, 0x7A :: byte] = [0x61] @ 0 # [0x7A]" "0 \<notin> set [0x61 :: byte]" by simp_all
  from strlcpy_strlcat_correct [OF this, of "chars ''xyz''"]
  have "snd (strlcat [0x61, 0, 0x7A] (chars ''xyz'') 3) = length ([0x61] @ chars ''xyz'')" by blast
  ultimately show ?thesis by simp
qed

text \<open>
  \<^verbatim>\<open>append\<close> of an integer returns one less than the number of characters \<^verbatim>\<open>int_to_str\<close> wrote, so
  what \<^verbatim>\<open>concat\<close> writes next overwrites the last digit.
\<close>

lemma concat_drops_last_digit:
  "take 3 (concat_pieces [0, 0, 0, 0, 0, 0, 0, 0] 8
     [Integer \<lparr>it_signed = True, it_bits = 8\<rparr> 42, CStr (chars ''x'')]) = chars ''4x'' @ [0]"
proof -
  let ?T = "\<lparr>it_signed = True, it_bits = 8\<rparr>"
  have m: "it_max ?T = 127" by (simp add: it_max_def)
  have "digits_loop 127 = [55, 50, 49]" "digits_loop 42 = [50, 52]"
    by (simp_all add: digits_loop.simps)
  then have "it_digits10 ?T = 2" and c: "convert_unsigned 42 = [52, 50]"
    by (simp_all add: it_digits10_def m convert_unsigned_rev)
  then have "int_to_str ?T 42 8 = [52, 50]" by (simp add: int_to_str_def convert_signed_def m)
  then show ?thesis
    by (simp add: append_piece_def append_integer_def append_cstr_def strlcpy_def copy_loop_eq overwrite_def)
qed

end
