(* ===== verification/Tokenizer.thy ===== *)
theory Tokenizer
  imports Ascii_String_Manip
begin

text \<open>
  \<^verbatim>\<open>src/src/String/Tokenizer.hpp\<close>: the splitter with its state and the two ways to take the
  next token (with and without empty tokens), and \<^verbatim>\<open>divide\<close>.  A splitter works on any category
  with the two searches, each of which may return the null pointer (\<open>None\<close>) to signal an
  error in the text; a pointer into the text is the text from there on.
\<close>

section \<open>Operations\<close>

text \<open>
  The searches of a category: an owned character is found at an offset and has a length in
  octets.
\<close>

record splitter_category =
  cat_find_owned :: "bytes \<Rightarrow> (nat \<times> nat) option"
  cat_find_nonowned :: "bytes \<Rightarrow> nat option"

text \<open>A character category never fails, and its characters have one octet.\<close>

definition char_splitter_category :: "category \<Rightarrow> splitter_category" where
  "char_splitter_category p =
     \<lparr>cat_find_owned = (\<lambda>s. Some (find_owned p s, if find_owned p s < length s then 1 else 0)),
      cat_find_nonowned = (\<lambda>s. Some (find_nonowned p s))\<rparr>"

record SplitterState =
  sp_category :: splitter_category
  sp_str :: bytes
  sp_separator :: "bytes option"
  sp_error :: bool

definition splitter_state :: "bytes \<Rightarrow> splitter_category \<Rightarrow> SplitterState" where
  "splitter_state str category =
     \<lparr>sp_category = category, sp_str = str, sp_separator = None, sp_error = False\<rparr>"

text \<open>The result is \<open>None\<close> for \<^verbatim>\<open>false\<close>, or the token.\<close>

definition get_token_empty :: "SplitterState \<Rightarrow> bytes option \<times> SplitterState" where
  "get_token_empty state =
     (let str = sp_str state
      in if str = [] then (None, state)
         else case cat_find_owned (sp_category state) str of
           Some (k, octets_length) \<Rightarrow>
             let separator = drop k str
             in (Some (take k str),
                 state\<lparr>sp_separator := Some separator,
                   sp_str := (if separator = [] then [] else drop octets_length separator)\<rparr>)
         | None \<Rightarrow> (None, state\<lparr>sp_separator := None, sp_error := True\<rparr>))"

definition get_token_nonempty :: "SplitterState \<Rightarrow> bytes option \<times> SplitterState" where
  "get_token_nonempty state =
     (case cat_find_nonowned (sp_category state) (sp_str state) of
        Some b \<Rightarrow>
          let begin = drop b (sp_str state)
          in (case cat_find_owned (sp_category state) begin of
                Some (e, _) \<Rightarrow>
                  if e = 0 then (None, state)
                  else (Some (take e begin),
                        state\<lparr>sp_str := drop e begin, sp_separator := Some (drop e begin)\<rparr>)
              | None \<Rightarrow> (None, state\<lparr>sp_error := True\<rparr>))
      | None \<Rightarrow> (None, state\<lparr>sp_error := True\<rparr>))"

definition get_token :: "bool \<Rightarrow> SplitterState \<Rightarrow> bytes option \<times> SplitterState" where
  "get_token EMPTY state = (if EMPTY then get_token_empty state else get_token_nonempty state)"

definition tokenizer :: "bytes \<Rightarrow> bytes \<Rightarrow> SplitterState" where
  "tokenizer str symbols =
     splitter_state str (char_splitter_category (char_table (Some symbols) False))"

text \<open>
  How clients use a splitter, \<^verbatim>\<open>while (splitter.get_token(token)) ...\<close>: the tokens of the first
  \<open>n\<close> calls, or of the calls up to the first that returns \<^verbatim>\<open>false\<close>.
\<close>

fun get_tokens :: "nat \<Rightarrow> bool \<Rightarrow> SplitterState \<Rightarrow> bytes list \<times> bool \<times> SplitterState" where
  "get_tokens 0 EMPTY state = ([], False, state)"
| "get_tokens (Suc n) EMPTY state =
     (case get_token EMPTY state of
        (None, state) \<Rightarrow> ([], True, state)
      | (Some token, state) \<Rightarrow>
          (let (tokens, done, state) = get_tokens n EMPTY state in (token # tokens, done, state)))"

text \<open>\<^verbatim>\<open>divide\<close>: the calls of the callback, with \<open>True\<close> for \<^verbatim>\<open>owned\<close>.\<close>

function divide_loop :: "category \<Rightarrow> bytes \<Rightarrow> (bool \<times> bytes) list" where
  "divide_loop p str =
     (let cur = find_owned p str; calls = (if cur \<noteq> 0 then [(False, take cur str)] else [])
      in if cur = length str then calls
         else let str = drop cur str; cur = find_nonowned p str;
                  calls = calls @ (if cur \<noteq> 0 then [(True, take cur str)] else [])
              in if cur = length str then calls else calls @ divide_loop p (drop cur str))"
  by pat_completeness auto
termination
proof (relation "measure (\<lambda>(p, str). length str)", goal_cases)
  case (2 p str cur calls str' cur' calls')
  then have "find_owned p str < length str" using find_owned_le [of p str] by simp
  then show ?case using 2 scan.find_non_progress [of p str] by simp
qed simp

declare divide_loop.simps [simp del]

definition divide :: "bytes \<Rightarrow> category \<Rightarrow> (bool \<times> bytes) list" where
  "divide str category = divide_loop category str"

section \<open>Correctness\<close>

declare dropWhile_eq_Nil_conv [simp del]

text \<open>
  The reference: the pieces between separators, where nothing is reported after a separator
  at the very end.
\<close>

function split_ref :: "category \<Rightarrow> bytes \<Rightarrow> bytes list" where
  "split_ref p s =
     (if s = [] then []
      else let r = dropWhile (\<lambda>c. \<not> p c) s
           in takeWhile (\<lambda>c. \<not> p c) s # (if r = [] then [] else split_ref p (tl r)))"
  by pat_completeness auto
termination
proof (relation "measure (\<lambda>(p, s). length s)", goal_cases)
  case (2 p s r)
  have "length r \<le> length s" using 2(2) length_dropWhile_le by simp
  moreover have "length (tl r) < length r" using 2(3) by simp
  ultimately show ?case by simp
qed simp

declare split_ref.simps [simp del]

definition words_ref :: "category \<Rightarrow> bytes \<Rightarrow> bytes list" where
  "words_ref p s = filter (\<lambda>t. t \<noteq> []) (split_ref p s)"

lemma words_ref_Nil [simp]: "words_ref p [] = []"
  by (simp add: words_ref_def split_ref.simps)

lemma words_ref_owned: "p c \<Longrightarrow> words_ref p (c # s) = words_ref p s"
  by (simp add: words_ref_def split_ref.simps [of p "c # s"])

lemma words_ref_dropWhile: "words_ref p (dropWhile p s) = words_ref p s"
  by (induction s) (auto simp: words_ref_owned)

lemma words_ref_nonowned:
  assumes "s \<noteq> []" and "\<not> p (hd s)"
  shows "words_ref p s = takeWhile (\<lambda>c. \<not> p c) s # words_ref p (dropWhile (\<lambda>c. \<not> p c) s)"
proof -
  let ?r = "dropWhile (\<lambda>c. \<not> p c) s"
  have t: "takeWhile (\<lambda>c. \<not> p c) s \<noteq> []" using assms by (cases s) auto
  have "words_ref p s = takeWhile (\<lambda>c. \<not> p c) s # (if ?r = [] then [] else words_ref p (tl ?r))"
    using assms t by (simp add: words_ref_def split_ref.simps [of p s] Let_def)
  moreover have "words_ref p (tl ?r) = words_ref p ?r" if "?r \<noteq> []"
    using that hd_dropWhile [OF that] words_ref_owned [of p "hd ?r" "tl ?r"] by simp
  ultimately show ?thesis by auto
qed

definition splits_by :: "category \<Rightarrow> SplitterState \<Rightarrow> bool" where
  "splits_by p st \<longleftrightarrow> sp_category st = char_splitter_category p \<and> \<not> sp_error st"

lemma get_token_True:
  assumes "splits_by p st"
  shows "get_token True st =
    (if sp_str st = [] then (None, st)
     else let r = dropWhile (\<lambda>c. \<not> p c) (sp_str st)
          in (Some (takeWhile (\<lambda>c. \<not> p c) (sp_str st)), st\<lparr>sp_separator := Some r, sp_str := tl r\<rparr>))"
proof -
  let ?s = "sp_str st"
  have "drop (find_owned p ?s) ?s = [] \<longleftrightarrow> \<not> find_owned p ?s < length ?s" by auto
  then show ?thesis
    using assms
    by (auto simp: get_token_def get_token_empty_def splits_by_def char_splitter_category_def Let_def
        scan.find_own_takeWhile scan.find_own_drop drop_Suc)
qed

lemma get_token_False:
  assumes "splits_by p st"
  shows "get_token False st =
    (let s = dropWhile p (sp_str st); r = dropWhile (\<lambda>c. \<not> p c) s
     in if s = [] then (None, st)
        else (Some (takeWhile (\<lambda>c. \<not> p c) s), st\<lparr>sp_str := r, sp_separator := Some r\<rparr>))"
proof -
  let ?s = "dropWhile p (sp_str st)"
  have "find_owned p ?s = 0 \<longleftrightarrow> ?s = []"
    using hd_dropWhile [of p "sp_str st"] by (cases ?s) auto
  then show ?thesis
    using assms
    by (auto simp: get_token_def get_token_nonempty_def splits_by_def char_splitter_category_def Let_def
        scan.find_own_takeWhile scan.find_own_drop scan.find_non_drop)
qed

lemma get_tokens_True:
  "splits_by p st \<Longrightarrow> length (sp_str st) < n \<Longrightarrow>
   \<exists>st'. get_tokens n True st = (split_ref p (sp_str st), True, st') \<and> \<not> sp_error st'"
proof (induction n arbitrary: st)
  case (Suc n)
  let ?s = "sp_str st"
  let ?r = "dropWhile (\<lambda>c. \<not> p c) ?s"
  show ?case
  proof (cases "?s = []")
    case True
    with Suc.prems show ?thesis by (simp add: get_token_True split_ref.simps splits_by_def)
  next
    case False
    let ?st = "st\<lparr>sp_separator := Some ?r, sp_str := tl ?r\<rparr>"
    have "length ?r \<le> length ?s" by (rule length_dropWhile_le)
    then have "length (tl ?r) < length ?s" using False by (cases ?r) auto
    then obtain st' where "get_tokens n True ?st = (split_ref p (tl ?r), True, st')" "\<not> sp_error st'"
      using Suc.IH [of ?st] Suc.prems by (auto simp: splits_by_def)
    with False Suc.prems(1) show ?thesis
      by (auto simp: get_token_True split_ref.simps [of p ?s] split_ref.simps [of p "[]"] Let_def)
  qed
qed simp

lemma get_tokens_False:
  "splits_by p st \<Longrightarrow> length (sp_str st) < n \<Longrightarrow>
   \<exists>st'. get_tokens n False st = (words_ref p (sp_str st), True, st') \<and> \<not> sp_error st'"
proof (induction n arbitrary: st)
  case (Suc n)
  let ?s = "dropWhile p (sp_str st)"
  let ?r = "dropWhile (\<lambda>c. \<not> p c) ?s"
  show ?case
  proof (cases "?s = []")
    case True
    then have "words_ref p (sp_str st) = []" by (metis words_ref_Nil words_ref_dropWhile)
    with True Suc.prems show ?thesis by (simp add: get_token_False splits_by_def)
  next
    case False
    let ?st = "st\<lparr>sp_str := ?r, sp_separator := Some ?r\<rparr>"
    have h: "\<not> p (hd ?s)" using False by (rule hd_dropWhile)
    have "length ?r < length ?s"
      using False h by (cases ?s) (auto simp: le_imp_less_Suc length_dropWhile_le)
    also have "length ?s \<le> length (sp_str st)" by (rule length_dropWhile_le)
    finally obtain st' where "get_tokens n False ?st = (words_ref p ?r, True, st')" "\<not> sp_error st'"
      using Suc.IH [of ?st] Suc.prems by (auto simp: splits_by_def)
    moreover have "words_ref p (sp_str st) = takeWhile (\<lambda>c. \<not> p c) ?s # words_ref p ?r"
      using words_ref_nonowned [of ?s p] False h by (simp add: words_ref_dropWhile)
    ultimately show ?thesis using False Suc.prems(1) by (auto simp: get_token_False Let_def)
  qed
qed simp

text \<open>
  A splitter over a character category that keeps empty tokens yields the pieces between the
  separators in order (none after a separator at the end), one that does not yields the
  pieces that are not empty; both stop after at most one call more than the text has
  characters, without an error.
\<close>

lemma splitter_tokens:
  "(\<exists>st. get_tokens (Suc (length s)) True (splitter_state s (char_splitter_category p)) =
      (split_ref p s, True, st) \<and> \<not> sp_error st) \<and>
   (\<exists>st. get_tokens (Suc (length s)) False (splitter_state s (char_splitter_category p)) =
      (filter (\<lambda>t. t \<noteq> []) (split_ref p s), True, st) \<and> \<not> sp_error st)"
proof -
  let ?st = "splitter_state s (char_splitter_category p)"
  have "splits_by p ?st" and s: "sp_str ?st = s" by (simp_all add: splits_by_def splitter_state_def)
  from get_tokens_True [OF this(1), of "Suc (length s)"] get_tokens_False [OF this(1), of "Suc (length s)"]
  show ?thesis unfolding s words_ref_def by (simp only: lessI simp_thms)
qed

subsection \<open>divide\<close>

text \<open>The flags of neighbouring calls differ.\<close>

fun alternating :: "(bool \<times> bytes) list \<Rightarrow> bool" where
  "alternating (a # b # cs) \<longleftrightarrow> fst a \<noteq> fst b \<and> alternating (b # cs)"
| "alternating cs \<longleftrightarrow> True"

definition divides :: "category \<Rightarrow> bytes \<Rightarrow> (bool \<times> bytes) list \<Rightarrow> bool" where
  "divides p s calls \<longleftrightarrow> concat (map snd calls) = s \<and> alternating calls \<and>
     (\<forall>(owned, t)\<in>set calls. t \<noteq> [] \<and> (\<forall>c\<in>set t. p c = owned))"

lemma divide_loop_step:
  "divide_loop p s =
     (let t = takeWhile (\<lambda>c. \<not> p c) s; s1 = dropWhile (\<lambda>c. \<not> p c) s;
          u = takeWhile p s1; s2 = dropWhile p s1
      in (if t = [] then [] else [(False, t)]) @
         (if s1 = [] then [] else (True, u) # (if s2 = [] then [] else divide_loop p s2)))"
proof -
  let ?s1 = "dropWhile (\<lambda>c. \<not> p c) s"
  have end1: "find_owned p s = length s \<longleftrightarrow> ?s1 = []"
    using find_owned_le [of p s] unfolding scan.find_own_drop [symmetric] by auto
  have end2: "find_nonowned p ?s1 = length ?s1 \<longleftrightarrow> dropWhile p ?s1 = []"
    using find_nonowned_le [of p ?s1] unfolding scan.find_non_drop [symmetric] by auto
  have "find_nonowned p ?s1 \<noteq> 0" if "?s1 \<noteq> []"
    using hd_dropWhile [OF that] that by (cases ?s1) auto
  moreover have "find_owned p s = 0 \<longleftrightarrow> takeWhile (\<lambda>c. \<not> p c) s = []"
    by (simp add: scan.find_own_length)
  ultimately show ?thesis
    by (auto simp: divide_loop.simps [of p s] Let_def scan.find_own_drop scan.find_own_takeWhile
        scan.find_non_drop scan.find_non_takeWhile end1 end2)
qed

lemma divides_Cons:
  assumes "divides p s calls" and "t \<noteq> []" and "\<forall>c\<in>set t. p c = b"
    and "calls \<noteq> [] \<Longrightarrow> fst (hd calls) \<noteq> b"
  shows "divides p (t @ s) ((b, t) # calls)"
  using assms by (cases calls) (auto simp: divides_def)

lemma divide_loop_hd:
  assumes "s \<noteq> []"
  shows "divide_loop p s \<noteq> [] \<and> fst (hd (divide_loop p s)) = p (hd s)"
proof -
  obtain c cs where "s = c # cs" using assms by (cases s) auto
  then show ?thesis by (simp add: divide_loop_step [of p "c # cs"] Let_def)
qed

lemma divide_loop_divides: "divides p s (divide_loop p s)"
proof (induction "length s" arbitrary: s rule: less_induct)
  case less
  let ?t = "takeWhile (\<lambda>c. \<not> p c) s" and ?s1 = "dropWhile (\<lambda>c. \<not> p c) s"
  let ?u = "takeWhile p ?s1" and ?s2 = "dropWhile p ?s1"
  have tail: "divides p ?s1 (if ?s1 = [] then [] else (True, ?u) # (if ?s2 = [] then [] else divide_loop p ?s2))"
  proof (cases "?s1 = []")
    case True
    then show ?thesis by (simp add: divides_def)
  next
    case False
    then have h: "p (hd ?s1)" using hd_dropWhile by blast
    then have u: "?u \<noteq> []" using False by (cases ?s1) auto
    have "length ?s2 < length ?s1" using False h by (cases ?s1) (auto simp: le_imp_less_Suc length_dropWhile_le)
    also have "length ?s1 \<le> length s" by (rule length_dropWhile_le)
    finally have IH: "divides p ?s2 (divide_loop p ?s2)" by (rule less)
    have all: "\<forall>c\<in>set ?u. p c = True" by (auto dest: set_takeWhileD)
    have "divides p (?u @ ?s2) ((True, ?u) # (if ?s2 = [] then [] else divide_loop p ?s2))"
    proof (rule divides_Cons [OF _ u all])
      show "divides p ?s2 (if ?s2 = [] then [] else divide_loop p ?s2)"
        using IH by (auto simp: divides_def)
      show "fst (hd (if ?s2 = [] then [] else divide_loop p ?s2)) \<noteq> True"
        if "(if ?s2 = [] then [] else divide_loop p ?s2) \<noteq> []"
        using that divide_loop_hd [of ?s2 p] hd_dropWhile [of p ?s1] by (auto split: if_splits)
    qed
    with False show ?thesis by simp
  qed
  show ?case
  proof (cases "?t = []")
    case True
    then have s1: "?s1 = s" by (metis append_Nil takeWhile_dropWhile_id)
    have "divide_loop p s =
        (if ?s1 = [] then [] else (True, ?u) # (if ?s2 = [] then [] else divide_loop p ?s2))"
      using True by (simp only: divide_loop_step [of p s] Let_def if_True append_Nil simp_thms)
    from tail [folded this] show ?thesis by (simp only: s1)
  next
    case False
    have "divides p (?t @ ?s1) ((False, ?t) # (if ?s1 = [] then [] else (True, ?u) # (if ?s2 = [] then [] else divide_loop p ?s2)))"
      using tail False by (intro divides_Cons) (auto dest: set_takeWhileD split: if_splits)
    with False show ?thesis by (simp add: divide_loop_step [of p s] Let_def)
  qed
qed

text \<open>
  \<^verbatim>\<open>divide\<close> hands the whole text to its callback, in order and without loss: the pieces join to
  the text, none is empty, owned and non-owned pieces alternate, and every piece consists of
  characters of its kind.
\<close>

lemma divide_correct:
  "concat (map snd (divide s p)) = s \<and>
   (\<forall>i. Suc i < length (divide s p) \<longrightarrow> fst (divide s p ! i) \<noteq> fst (divide s p ! Suc i)) \<and>
   list_all (\<lambda>(owned, t). t \<noteq> [] \<and> list_all (\<lambda>c. p c = owned) t) (divide s p)"
proof -
  have alt: "alternating cs \<Longrightarrow> Suc i < length cs \<Longrightarrow> fst (cs ! i) \<noteq> fst (cs ! Suc i)" for cs i
    by (induction cs arbitrary: i rule: alternating.induct) (auto simp: nth_Cons split: nat.splits)
  have "divides p s (divide s p)" by (simp add: divide_def divide_loop_divides)
  then show ?thesis using alt by (auto simp: divides_def list_all_iff)
qed

lemma divide_correct_example:
  "divide (chars ''ab,,c'') (char1 (ch CHR '','')) =
     [(False, chars ''ab''), (True, chars '',,''), (False, chars ''c'')] \<and>
   concat (map snd (divide (chars ''ab,,c'') (char1 (ch CHR '','')))) = chars ''ab,,c''"
proof
  show "divide (chars ''ab,,c'') (char1 (ch CHR '','')) =
     [(False, chars ''ab''), (True, chars '',,''), (False, chars ''c'')]"
    by (simp add: divide_def divide_loop_step char1_def)
  show "concat (map snd (divide (chars ''ab,,c'') (char1 (ch CHR '','')))) = chars ''ab,,c''"
    using divide_correct by blast
qed

end
