(* ===== verification/Unicode_Symbol.thy ===== *)
theory Unicode_Symbol
  imports Utf8_Handler
begin

text \<open>
  \<^verbatim>\<open>src/src/String/UnicodeSymbol.hpp\<close> and \<^verbatim>\<open>UnicodeSymbol.cpp\<close>: a code point with a null state,
  its construction from a code and from UTF-8 bytes, and the steps to the neighbouring
  symbols.  The stream operators are not modelled.
\<close>

section \<open>UnicodeSymbol\<close>

record UnicodeSymbol =
  code_unit :: wchar

definition MAX_CODE_UNIT :: wchar where
  "MAX_CODE_UNIT = 0x10FFFF"

definition NULL_CODE_UNIT :: wchar where
  "NULL_CODE_UNIT = NOT 0"

definition check_validity :: "wchar \<Rightarrow> bool" where
  "check_validity value \<longleftrightarrow>
     (sint value \<ge> 0 \<and> sint value \<le> 0xD7FF) \<or>
     (sint value \<ge> 0xE000 \<and> sint value \<le> sint MAX_CODE_UNIT)"

definition symbol_default :: UnicodeSymbol where
  "symbol_default = \<lparr>code_unit = NULL_CODE_UNIT\<rparr>"

definition symbol_of_wchar :: "wchar \<Rightarrow> UnicodeSymbol result" where
  "symbol_of_wchar c =
     (if \<not> check_validity c then Inl (RangeException ''out of range'')
      else Inr \<lparr>code_unit = c\<rparr>)"

definition symbol_of_bytes :: "bytes \<Rightarrow> UnicodeSymbol result" where
  "symbol_of_bytes byte_sequence =
     rbind (is_correct_utf8_sequence byte_sequence) (\<lambda>(correct, count).
       if correct
       then rbind (utf8_char_to_wchar (Some byte_sequence) count) (\<lambda>(decoded, wchar).
              if decoded then Inr \<lparr>code_unit = wchar\<rparr>
              else Inl (RangeException ''out of range''))
       else Inl (RangeException ''out of range''))"

definition symbol_assign :: "UnicodeSymbol \<Rightarrow> wchar \<Rightarrow> UnicodeSymbol result" where
  "symbol_assign u new_value =
     (if \<not> check_validity new_value then Inl (RangeException ''is out of UTF8 range'')
      else Inr (u\<lparr>code_unit := new_value\<rparr>))"

definition symbol_length :: "UnicodeSymbol \<Rightarrow> nat result" where
  "symbol_length u =
     (if sint (code_unit u) \<le> 0x7F then Inr 1
      else if sint (code_unit u) \<le> 0x07FF then Inr 2
      else if sint (code_unit u) \<le> 0xFFFF then Inr 3
      else if sint (code_unit u) \<le> 0x10FFFF then Inr 4
      else Inl (RangeException ''Security warning, UTF-8 length overflow''))"

definition is_null :: "UnicodeSymbol \<Rightarrow> bool" where
  "is_null u \<longleftrightarrow> code_unit u = NULL_CODE_UNIT"

definition set_null :: "UnicodeSymbol \<Rightarrow> UnicodeSymbol" where
  "set_null u = u\<lparr>code_unit := NULL_CODE_UNIT\<rparr>"

text \<open>The buffer is empty when the encoder writes nothing: its octet count stays zero.\<close>

definition symbol_c_str :: "UnicodeSymbol \<Rightarrow> bytes result" where
  "symbol_c_str u =
     (if is_null u then Inl (RangeException ''out of range'')
      else Inr (case wchar_to_utf8_char (code_unit u) of None \<Rightarrow> [] | Some bs \<Rightarrow> bs))"

definition symbol_incr :: "UnicodeSymbol \<Rightarrow> UnicodeSymbol result" where
  "symbol_incr u =
     (if \<not> check_validity (code_unit u) \<or> is_null u then Inl (RangeException ''out of range'')
      else if sint (code_unit u) \<le> sint MAX_CODE_UNIT then
        (if code_unit u = 0xD7FF then Inr (u\<lparr>code_unit := 0xE000\<rparr>)
         else Inr (u\<lparr>code_unit := code_unit u + 1\<rparr>))
      else Inr u)"

definition symbol_decr :: "UnicodeSymbol \<Rightarrow> UnicodeSymbol result" where
  "symbol_decr u =
     (if \<not> check_validity (code_unit u) \<or> code_unit u = 0 \<or> is_null u
      then Inl (RangeException ''out of range'')
      else if sint (code_unit u) > 0 then
        (if code_unit u = 0xE000 then Inr (u\<lparr>code_unit := 0xD7FF\<rparr>)
         else Inr (u\<lparr>code_unit := code_unit u - 1\<rparr>))
      else Inr u)"

text \<open>
  \<^verbatim>\<open>random\<close> draws until a valid value comes; the draws are the list argument, and the rest of
  them is returned (\<open>None\<close> when none of the draws is valid, where the code would go on).
\<close>

fun symbol_random :: "wchar list \<Rightarrow> (UnicodeSymbol \<times> wchar list) option" where
  "symbol_random [] = None"
| "symbol_random (value # draws) =
     (if check_validity value then Some (\<lparr>code_unit = value\<rparr>, draws) else symbol_random draws)"

section \<open>Correctness\<close>

lemma check_validity_iff: "check_validity w \<longleftrightarrow> is_scalar (unat w)"
proof (cases "unat w < 2 ^ 31")
  case True
  have "int (unat w) \<le> 0xD7FF \<longleftrightarrow> unat w \<le> 0xD7FF" "0xE000 \<le> int (unat w) \<longleftrightarrow> 0xE000 \<le> unat w"
    "int (unat w) \<le> 0x10FFFF \<longleftrightarrow> unat w \<le> 0x10FFFF" by linarith+
  with True show ?thesis
    by (simp add: check_validity_def is_scalar_def MAX_CODE_UNIT_def sint_small(1))
next
  case False
  then have "sint w < 0" by (intro sint_small) simp
  with False show ?thesis by (simp add: check_validity_def is_scalar_def)
qed

lemma unat_incr:
  fixes w :: wchar
  assumes "unat w < 0xFFFFFFFF"
  shows "unat (w + 1) = unat w + 1"
  using assms by (simp add: unat_word_ariths)

lemma is_null_validity: "check_validity (code_unit u) \<Longrightarrow> \<not> is_null u"
  by (auto simp: is_null_def NULL_CODE_UNIT_def check_validity_def)

lemma unat_MAX_CODE_UNIT: "unat MAX_CODE_UNIT = 0x10FFFF"
  by (simp add: MAX_CODE_UNIT_def)

lemma check_validity_le: "check_validity w \<Longrightarrow> sint w \<le> sint MAX_CODE_UNIT"
  by (auto simp: check_validity_def MAX_CODE_UNIT_def)

lemma symbol_incr_valid:
  assumes "check_validity (code_unit u)"
  shows "symbol_incr u =
    Inr (u\<lparr>code_unit := if code_unit u = 0xD7FF then 0xE000 else code_unit u + 1\<rparr>)"
  using assms by (simp add: symbol_incr_def is_null_validity check_validity_le)

lemma symbol_decr_valid:
  assumes "check_validity (code_unit u)" and "code_unit u \<noteq> 0"
  shows "symbol_decr u =
    Inr (u\<lparr>code_unit := if code_unit u = 0xE000 then 0xD7FF else code_unit u - 1\<rparr>)"
proof -
  have "sint (code_unit u) \<ge> 0" using assms(1) by (auto simp: check_validity_def)
  moreover have "sint (code_unit u) \<noteq> sint (0 :: wchar)" using assms(2) by (simp only: sint_inject) simp
  ultimately have "0 < sint (code_unit u)" by simp
  with assms show ?thesis by (simp add: symbol_decr_def is_null_validity)
qed

text \<open>
  On a valid symbol other than U+10FFFF, \<^verbatim>\<open>operator ++\<close> gives the next Unicode scalar value
  (the surrogates are jumped over) and \<^verbatim>\<open>operator --\<close> takes it back.
\<close>

lemma symbol_step:
  assumes "check_validity (code_unit u)" and "code_unit u \<noteq> MAX_CODE_UNIT"
  shows "\<exists>v. symbol_incr u = Inr v \<and> check_validity (code_unit v) \<and>
    unat (code_unit u) < unat (code_unit v) \<and>
    (\<forall>n. unat (code_unit u) < n \<and> n < unat (code_unit v) \<longrightarrow> \<not> is_scalar n) \<and>
    symbol_decr v = Inr u"
proof -
  have s: "is_scalar (unat (code_unit u))" using assms(1) by (simp add: check_validity_iff)
  have m: "unat (code_unit u) \<noteq> 0x10FFFF"
    using assms(2) unat_MAX_CODE_UNIT by (metis word_unat_eq_iff)
  show ?thesis
  proof (cases "code_unit u = 0xD7FF")
    case True
    let ?v = "u\<lparr>code_unit := 0xE000\<rparr>"
    have "check_validity (code_unit ?v)" by (simp add: check_validity_iff is_scalar_def)
    moreover from this have "symbol_decr ?v = Inr u"
      using True by (simp add: symbol_decr_valid)
    ultimately show ?thesis
      using True assms(1) by (auto simp: symbol_incr_valid is_scalar_def)
  next
    case False
    then have f: "unat (code_unit u) \<noteq> 0xD7FF" by (simp add: word_unat_eq_iff)
    let ?v = "u\<lparr>code_unit := code_unit u + 1\<rparr>"
    have i: "unat (code_unit u + 1) = unat (code_unit u) + 1"
      using s by (intro unat_incr) (auto simp: is_scalar_def)
    have v: "check_validity (code_unit ?v)"
      using s f m i by (auto simp: check_validity_iff is_scalar_def)
    have e: "code_unit u + 1 \<noteq> 0xE000"
    proof
      assume "code_unit u + 1 = 0xE000"
      with i have "unat (code_unit u) = 0xDFFF" by simp
      with s show False by (simp add: is_scalar_def)
    qed
    moreover have "code_unit u + 1 \<noteq> 0" using i by (metis add_is_0 one_neq_zero unat_eq_0)
    ultimately have "symbol_decr ?v = Inr u"
      using v by (simp add: symbol_decr_valid)
    with v i False assms(1) show ?thesis by (auto simp: symbol_incr_valid)
  qed
qed

lemma symbol_step_example:
  "check_validity 0xD7FF \<and> \<lparr>code_unit = 0xD7FF\<rparr> \<noteq> \<lparr>code_unit = MAX_CODE_UNIT\<rparr> \<and>
   (\<exists>v. symbol_incr \<lparr>code_unit = 0xD7FF\<rparr> = Inr v \<and> symbol_decr v = Inr \<lparr>code_unit = 0xD7FF\<rparr>)"
proof -
  have "check_validity (code_unit \<lparr>code_unit = 0xD7FF\<rparr>)" by (simp add: check_validity_def)
  moreover have "code_unit \<lparr>code_unit = 0xD7FF\<rparr> \<noteq> MAX_CODE_UNIT" by (simp add: MAX_CODE_UNIT_def)
  ultimately show ?thesis using symbol_step [of "\<lparr>code_unit = 0xD7FF\<rparr>"] by auto
qed

text \<open>
  At U+10FFFF \<^verbatim>\<open>operator ++\<close> does not stop: it stores the invalid code 0x110000, of which the
  length, the decrement and the increment all throw.
\<close>

lemma symbol_incr_overflows:
  "symbol_incr \<lparr>code_unit = MAX_CODE_UNIT\<rparr> = Inr \<lparr>code_unit = 0x110000\<rparr> \<and>
   \<not> check_validity 0x110000 \<and>
   symbol_length \<lparr>code_unit = 0x110000\<rparr> =
     Inl (RangeException ''Security warning, UTF-8 length overflow'') \<and>
   symbol_decr \<lparr>code_unit = 0x110000\<rparr> = Inl (RangeException ''out of range'') \<and>
   symbol_incr \<lparr>code_unit = 0x110000\<rparr> = Inl (RangeException ''out of range'')"
  by (simp add: symbol_incr_def symbol_decr_def symbol_length_def check_validity_def
      MAX_CODE_UNIT_def is_null_def NULL_CODE_UNIT_def)

text \<open>
  A symbol built from a code point writes the text from which it is read back, and its
  length is the length of that text.
\<close>

lemma symbol_text_roundtrip:
  assumes "symbol_of_wchar c = Inr u"
  shows "\<exists>bs. symbol_c_str u = Inr bs \<and> symbol_of_bytes (bs @ 0 # rest) = Inr u \<and>
    symbol_length u = Inr (length bs)"
proof -
  have c: "check_validity c" "u = \<lparr>code_unit = c\<rparr>"
    using assms by (auto simp: symbol_of_wchar_def split: if_splits)
  then have s: "is_scalar (unat c)" by (simp add: check_validity_iff)
  then have n: "unat c < 0x200000" by (auto simp: is_scalar_def)
  then obtain bs where bs: "wchar_to_utf8_char c = Some bs" "map unat bs = utf8_ref (unat c)"
    using wchar_to_utf8_char_ref [OF n] by auto
  have "symbol_of_bytes (bs @ 0 # rest) = Inr u"
    using is_correct_utf8_sequence_complete [OF s bs(2)] utf8_char_roundtrip_ref [OF bs(1)] c(2)
    by (simp add: symbol_of_bytes_def)
  moreover have "symbol_length u = Inr (length bs)"
  proof -
    have "length bs = length (utf8_ref (unat c))" using bs(2) by (metis length_map)
    moreover have "unat c < 2 ^ 31" using n by simp
    ultimately show ?thesis
      using s c(2) by (auto simp: symbol_length_def utf8_ref_def is_scalar_def sint_le_iff)
  qed
  moreover have "symbol_c_str u = Inr bs"
    using c bs(1) by (simp add: symbol_c_str_def is_null_validity)
  ultimately show ?thesis by blast
qed

lemma symbol_text_roundtrip_example:
  "symbol_of_wchar 0x20AC = Inr \<lparr>code_unit = 0x20AC\<rparr> \<and>
   (\<exists>bs. symbol_c_str \<lparr>code_unit = 0x20AC\<rparr> = Inr bs \<and>
      symbol_of_bytes (bs @ [0]) = Inr \<lparr>code_unit = 0x20AC\<rparr>)"
proof -
  have "symbol_of_wchar 0x20AC = Inr \<lparr>code_unit = 0x20AC\<rparr>"
    by (simp add: symbol_of_wchar_def check_validity_def)
  with symbol_text_roundtrip [OF this, of "[]"] show ?thesis by auto
qed

end
