(* ===== verification/Compressed_Set.thy ===== *)
theory Compressed_Set
  imports Prelude
begin

text \<open>
  \<^verbatim>\<open>src/src/Generics/CompressedSet.hpp\<close>: a set of integers stored as a map from the low bounds of
  disjoint intervals to their high bounds.  The \<^verbatim>\<open>std::map\<close> is the list of its pairs in the
  order of their keys, an iterator into it is an index (the length for \<^verbatim>\<open>end()\<close>); \<open>mx\<close> is the
  greatest value of the integer type.  The member \<^verbatim>\<open>last_found_\<close>, which caches the interval
  of the last search, is the pair it points to, or \<open>None\<close> for \<^verbatim>\<open>end()\<close>.
\<close>

section \<open>Operations\<close>

type_synonym holder = "(int \<times> int) list"

record CompressedSet =
  cs_holder :: holder
  cs_last_found :: "(int \<times> int) option"

definition safe_next :: "int \<Rightarrow> int \<Rightarrow> int" where
  "safe_next mx number = (if number < mx then number + 1 else number)"

definition lower_bound :: "holder \<Rightarrow> int \<Rightarrow> nat" where
  "lower_bound h key = length (takeWhile (\<lambda>p. fst p < key) h)"

text \<open>\<^verbatim>\<open>std::map::insert\<close> does not replace the value of a key that is there.\<close>

definition map_insert :: "int \<Rightarrow> int \<Rightarrow> holder \<Rightarrow> holder" where
  "map_insert k v h =
     (let i = lower_bound h k
      in if i < length h \<and> fst (h ! i) = k then h else take i h @ (k, v) # drop i h)"

lemma sum_list_map_insert:
  "sum_list (map w (map_insert k v h)) \<le> w (k, v) + sum_list (map w h)" for w :: "int \<times> int \<Rightarrow> nat"
proof -
  have "sum_list (map w h) = sum_list (map w (take i h)) + sum_list (map w (drop i h))" for i
    by (metis append_take_drop_id map_append sum_list_append)
  from this [of "lower_bound h k"] show ?thesis by (simp add: map_insert_def Let_def)
qed

definition cset_create :: CompressedSet where
  "cset_create = \<lparr>cs_holder = [], cs_last_found = None\<rparr>"

definition cset_empty :: "CompressedSet \<Rightarrow> bool" where
  "cset_empty cs \<longleftrightarrow> cs_holder cs = []"

text \<open>The search for the start element that \<^verbatim>\<open>add\<close> and \<^verbatim>\<open>remove\<close> share.\<close>

definition start_element :: "holder \<Rightarrow> int \<Rightarrow> nat" where
  "start_element h low =
     (let itor = lower_bound h low
      in if (itor = length h \<or> fst (h ! itor) \<noteq> low) \<and> itor \<noteq> 0 then itor - 1 else itor)"

text \<open>The last loop of \<^verbatim>\<open>add\<close> over the elements behind \<open>base\<close>.\<close>

fun absorb_loop :: "int \<Rightarrow> int \<Rightarrow> int \<times> int \<Rightarrow> holder \<Rightarrow> holder" where
  "absorb_loop high high_next base [] = [base]"
| "absorb_loop high high_next base (itor # rest) =
     (if fst itor \<le> high_next then
        (if snd itor > high then (fst base, snd itor) # rest
         else absorb_loop high high_next base rest)
      else base # itor # rest)"

definition holder_add :: "int \<Rightarrow> int \<Rightarrow> int \<Rightarrow> holder \<Rightarrow> holder" where
  "holder_add mx low high h =
     (let itor = start_element h low;
          (h, itor) =
            (if itor = length h \<or> fst (h ! itor) > low \<or> safe_next mx (snd (h ! itor)) < low
             then (map_insert low high h, lower_bound (map_insert low high h) low)
             else if snd (h ! itor) < high then (h[itor := (fst (h ! itor), high)], itor)
             else (h, itor))
      in take itor h @ absorb_loop high (safe_next mx high) (h ! itor) (drop (itor + 1) h))"

definition cset_add :: "int \<Rightarrow> int \<Rightarrow> int \<Rightarrow> CompressedSet \<Rightarrow> CompressedSet" where
  "cset_add mx low high cs =
     (if low > high then cs
      else cs\<lparr>cs_holder := holder_add mx low high (cs_holder cs), cs_last_found := None\<rparr>)"

definition cset_add_value :: "int \<Rightarrow> int \<Rightarrow> CompressedSet \<Rightarrow> CompressedSet" where
  "cset_add_value mx value cs = cset_add mx value value cs"

text \<open>\<open>same\<close> says that the argument is the object itself (\<^verbatim>\<open>this == &cset\<close>), and then it is equal to it.\<close>

definition cset_add_set :: "int \<Rightarrow> bool \<Rightarrow> CompressedSet \<Rightarrow> CompressedSet \<Rightarrow> CompressedSet" where
  "cset_add_set mx same other cs =
     (if same then cs else fold (\<lambda>itor. cset_add mx (fst itor) (snd itor)) (cs_holder other) cs)"

text \<open>
  The loop of \<^verbatim>\<open>remove\<close>, on the elements from \<^verbatim>\<open>itor\<close> on.  An element that begins before \<open>low\<close> is
  shortened and then looked at once more; the piece behind \<open>high\<close> begins at \<open>high_next\<close>, where
  the loop ends.
\<close>

function remove_loop :: "int \<Rightarrow> int \<Rightarrow> int \<Rightarrow> holder \<Rightarrow> holder" where
  "remove_loop low high high_next [] = []"
| "remove_loop low high high_next ((f, s) # rest) =
     (if f < high_next then
        (if f \<ge> low then
           (if s \<le> high then remove_loop low high high_next rest
            else map_insert high_next s rest)
         else if s < low then (f, s) # remove_loop low high high_next rest
         else if s \<le> high then remove_loop low high high_next ((f, low - 1) # rest)
         else remove_loop low high high_next ((f, low - 1) # map_insert high_next s rest))
      else (f, s) # rest)"
  by pat_completeness auto

termination
proof (relation "measure (\<lambda>(low, high, high_next, rest).
    sum_list (map (\<lambda>(f, s). if f < high_next then if s < low then 1 else 2 else (0 :: nat)) rest))",
    goal_cases)
  case (5 low high high_next f s rest)
  then show ?case
    using sum_list_map_insert [of "\<lambda>(f, s). if f < high_next then if s < low then 1 else 2 else (0 :: nat)"
        high_next s rest] by simp
qed auto

definition holder_remove :: "int \<Rightarrow> int \<Rightarrow> int \<Rightarrow> holder \<Rightarrow> holder" where
  "holder_remove mx low high h =
     (let itor = start_element h low
      in take itor h @ remove_loop low high (safe_next mx high) (drop itor h))"

definition cset_remove :: "int \<Rightarrow> int \<Rightarrow> int \<Rightarrow> CompressedSet \<Rightarrow> CompressedSet" where
  "cset_remove mx low high cs =
     (if low > high then cs
      else cs\<lparr>cs_holder := holder_remove mx low high (cs_holder cs), cs_last_found := None\<rparr>)"

definition cset_remove_value :: "int \<Rightarrow> int \<Rightarrow> CompressedSet \<Rightarrow> CompressedSet" where
  "cset_remove_value mx value cs = cset_remove mx value value cs"

definition cset_remove_set :: "int \<Rightarrow> bool \<Rightarrow> CompressedSet \<Rightarrow> CompressedSet \<Rightarrow> CompressedSet" where
  "cset_remove_set mx same other cs =
     (if same then cs else fold (\<lambda>itor. cset_remove mx (fst itor) (snd itor)) (cs_holder other) cs)"

definition cset_clear :: "CompressedSet \<Rightarrow> CompressedSet" where
  "cset_clear cs = cs\<lparr>cs_holder := [], cs_last_found := None\<rparr>"

definition cset_belongs :: "int \<Rightarrow> CompressedSet \<Rightarrow> bool \<times> CompressedSet" where
  "cset_belongs value cs =
     (if (case cs_last_found cs of None \<Rightarrow> False | Some (f, s) \<Rightarrow> f \<le> value \<and> s \<ge> value)
      then (True, cs)
      else let h = cs_holder cs; itor = lower_bound h value;
               found = (\<lambda>i. cs\<lparr>cs_last_found := if i < length h then Some (h ! i) else None\<rparr>)
        in if itor < length h \<and> fst (h ! itor) = value then (True, found itor)
           else if itor = 0 then (False, found itor)
           else (value \<le> snd (h ! (itor - 1)), found (itor - 1)))"

datatype CheckStatus = CS_NONE | CS_ALL | CS_SOME

definition check_presence :: "int \<Rightarrow> int \<Rightarrow> CompressedSet \<Rightarrow> CheckStatus" where
  "check_presence low high cs =
     (let h = cs_holder cs; itor = lower_bound h low;
          before =
            (if itor = 0 then CS_NONE
             else let p = h ! (itor - 1)
                  in if snd p < low then CS_NONE
                     else if snd p \<ge> high then CS_ALL else CS_SOME)
      in if low > high then CS_NONE
         else if itor < length h then
           (if fst (h ! itor) = low then (if snd (h ! itor) \<ge> high then CS_ALL else CS_SOME)
            else if fst (h ! itor) \<le> high then CS_SOME else before)
         else before)"

section \<open>Abstraction and invariant\<close>

definition set_of :: "holder \<Rightarrow> int set" where
  "set_of h = {x. \<exists>p\<in>set h. fst p \<le> x \<and> x \<le> snd p}"

text \<open>
  The invariant stated in the class comment: intervals are not empty, in order, and between
  two of them at least one value is missing.
\<close>

definition canonical :: "holder \<Rightarrow> bool" where
  "canonical h \<longleftrightarrow> (\<forall>p\<in>set h. fst p \<le> snd p) \<and> sorted_wrt (\<lambda>p q. snd p + 1 < fst q) h"

definition holder_ok :: "int \<Rightarrow> holder \<Rightarrow> bool" where
  "holder_ok mx h \<longleftrightarrow> canonical h \<and> (\<forall>p\<in>set h. snd p \<le> mx)"

definition cset_ok :: "int \<Rightarrow> CompressedSet \<Rightarrow> bool" where
  "cset_ok mx cs \<longleftrightarrow> holder_ok mx (cs_holder cs) \<and>
     (\<forall>p. cs_last_found cs = Some p \<longrightarrow> p \<in> set (cs_holder cs))"

definition cset_values :: "CompressedSet \<Rightarrow> int set" where
  "cset_values cs = set_of (cs_holder cs)"

lemma set_of_simps [simp]:
  "set_of [] = {}" "set_of (p # h) = {fst p..snd p} \<union> set_of h" "set_of (h @ g) = set_of h \<union> set_of g"
  by (auto simp: set_of_def)

lemma canonical_simps [simp]:
  "canonical []"
  "canonical (p # h) \<longleftrightarrow> fst p \<le> snd p \<and> (\<forall>q\<in>set h. snd p + 1 < fst q) \<and> canonical h"
  "canonical (h @ g) \<longleftrightarrow> canonical h \<and> canonical g \<and> (\<forall>p\<in>set h. \<forall>q\<in>set g. snd p + 1 < fst q)"
  by (auto simp: canonical_def sorted_wrt_append)

lemma canonical_le: "canonical h \<Longrightarrow> p \<in> set h \<Longrightarrow> fst p \<le> snd p"
  by (auto simp: canonical_def)

lemma lower_bound_split:
  assumes "\<forall>p\<in>set a. fst p < k" and "\<forall>q\<in>set b. k \<le> fst q"
  shows "lower_bound (a @ b) k = length a"
proof -
  have "takeWhile (\<lambda>p. fst p < k) (a @ b) = a @ takeWhile (\<lambda>p. fst p < k) b"
    using assms(1) by (intro takeWhile_append2) simp
  moreover have "takeWhile (\<lambda>p. fst p < k) b = []" using assms(2) by (cases b) auto
  ultimately show ?thesis by (simp add: lower_bound_def)
qed

lemma map_insert_split:
  assumes "\<forall>p\<in>set a. fst p < k" and "\<forall>q\<in>set b. k < fst q"
  shows "map_insert k v (a @ b) = a @ (k, v) # b"
proof -
  have "lower_bound (a @ b) k = length a"
    using assms by (intro lower_bound_split) auto
  then show ?thesis using assms(2) by (cases b) (auto simp: map_insert_def Let_def nth_append)
qed

lemma canonical_split:
  assumes "canonical h"
  obtains a b where "h = a @ b" and "\<forall>p\<in>set a. fst p < k" and "\<forall>q\<in>set b. k \<le> fst q"
proof (rule that)
  show "h = takeWhile (\<lambda>p. fst p < k) h @ dropWhile (\<lambda>p. fst p < k) h" by simp
  show "\<forall>p\<in>set (takeWhile (\<lambda>p. fst p < k) h). fst p < k" by (auto dest: set_takeWhileD)
  show "\<forall>q\<in>set (dropWhile (\<lambda>p. fst p < k) h). k \<le> fst q"
    using assms
  proof (induction h)
    case (Cons p h)
    have "k \<le> fst q" if "k \<le> fst p" "q \<in> set h" for q
      using that Cons.prems by (auto dest!: bspec [of _ _ q])
    with Cons show ?case by auto
  qed simp
qed

lemma start_element_cases:
  assumes "canonical h"
  obtains (eq) a s b where "h = a @ (k, s) # b" "start_element h k = length a" "\<forall>p\<in>set a. fst p < k"
      "\<forall>q\<in>set b. k < fst q" "lower_bound h k = length a"
  | (before) a f s b where "h = a @ (f, s) # b" "f < k" "start_element h k = length a"
      "\<forall>p\<in>set a. fst p < k" "\<forall>q\<in>set b. k < fst q" "lower_bound h k = Suc (length a)"
  | (first) "\<forall>q\<in>set h. k < fst q" "start_element h k = 0" "lower_bound h k = 0"
proof -
  obtain a b where ab: "h = a @ b" "\<forall>p\<in>set a. fst p < k" "\<forall>q\<in>set b. k \<le> fst q"
    using canonical_split [OF assms] by metis
  have lb: "lower_bound h k = length a" unfolding ab(1) using ab(2,3) by (rule lower_bound_split)
  show ?thesis
  proof (cases "b \<noteq> [] \<and> fst (hd b) = k")
    case True
    then obtain s b' where b: "b = (k, s) # b'" by (cases b) auto
    have "\<forall>q\<in>set b'. k < fst q" using assms by (auto simp: ab(1) b)
    then show ?thesis
      using eq [of a s b'] ab lb b by (simp add: start_element_def nth_append)
  next
    case False
    have gt: "\<forall>q\<in>set b. k < fst q"
    proof (cases b)
      case (Cons q b')
      then have "k < fst q" using ab(3) False by auto
      moreover have "\<forall>r\<in>set b'. fst q < fst r"
        using assms by (auto simp: ab(1) Cons)
      ultimately show ?thesis by (auto simp: Cons)
    qed simp
    show ?thesis
    proof (cases a rule: rev_cases)
      case Nil
      then show ?thesis using first gt ab lb by (simp add: start_element_def)
    next
      case (snoc a' p)
      obtain f s where p: "p = (f, s)" by (cases p)
      have "start_element h k = length a'"
        using lb False ab(1) snoc by (cases b) (auto simp: start_element_def nth_append)
      then show ?thesis using before [of a' f s b] ab snoc p gt lb by simp
    qed
  qed
qed

subsection \<open>add\<close>

lemma absorb_loop_correct:
  assumes "canonical rest" and "\<forall>q\<in>set rest. a \<le> fst q \<and> snd q \<le> mx" and "a \<le> high" and "high \<le> mx"
  shows "canonical (absorb_loop high (safe_next mx high) (a, high) rest) \<and>
    set_of (absorb_loop high (safe_next mx high) (a, high) rest) = {a..high} \<union> set_of rest \<and>
    (\<forall>q\<in>set (absorb_loop high (safe_next mx high) (a, high) rest). a \<le> fst q \<and> snd q \<le> mx)"
  using assms
proof (induction rest)
  case (Cons q rest)
  obtain f s where q: "q = (f, s)" by (cases q)
  have fs: "a \<le> f" "f \<le> s" "s \<le> mx" using Cons.prems by (auto simp: q)
  show ?case
  proof (cases "f \<le> safe_next mx high")
    case True
    then have f: "f \<le> high + 1" by (auto simp: safe_next_def split: if_splits)
    show ?thesis
    proof (cases "s > high")
      case True
      then have "{a..s} = {a..high} \<union> {f..s}" using fs f Cons.prems(3) by auto
      with True \<open>f \<le> safe_next mx high\<close> Cons.prems fs show ?thesis by (auto simp: q)
    next
      case False
      then have "{f..s} \<subseteq> {a..high}" using fs by auto
      with False \<open>f \<le> safe_next mx high\<close> Cons show ?thesis by (auto simp: q)
    qed
  next
    case False
    then have "high + 1 < f" using fs Cons.prems by (auto simp: safe_next_def split: if_splits)
    moreover have "\<forall>r\<in>set rest. s + 1 < fst r" using Cons.prems(1) by (simp add: q)
    ultimately show ?thesis using False Cons.prems fs by (fastforce simp: q)
  qed
qed simp

lemma absorb_loop_none:
  assumes "high < b" and "high < mx" and "\<forall>q\<in>set rest. b + 1 < fst q"
  shows "absorb_loop high (safe_next mx high) (a, b) rest = (a, b) # rest"
  using assms by (cases rest) (auto simp: safe_next_def)

lemma holder_add_insert:
  assumes "h = a @ b" and "\<forall>p\<in>set a. fst p < low" and "\<forall>q\<in>set b. low < fst q"
    and "start_element h low = length h \<or> fst (h ! start_element h low) > low \<or>
      safe_next mx (snd (h ! start_element h low)) < low"
  shows "holder_add mx low high h = a @ absorb_loop high (safe_next mx high) (low, high) b"
proof -
  have i: "map_insert low high h = a @ (low, high) # b"
    unfolding assms(1) using assms(2,3) by (rule map_insert_split)
  moreover have "lower_bound (a @ (low, high) # b) low = length a"
    using assms(2,3) by (intro lower_bound_split) auto
  ultimately show ?thesis using assms(4) by (simp add: holder_add_def Let_def)
qed

lemma holder_add_extend:
  assumes "h = a @ (f, s) # b" and "start_element h low = length a" and "f \<le> low"
    and "\<not> safe_next mx s < low"
  shows "holder_add mx low high h = a @ absorb_loop high (safe_next mx high) (f, max s high) b"
  using assms by (auto simp: holder_add_def Let_def nth_append max_def list_update_append)

lemma absorb_extended:
  assumes "canonical ((f, s) # b)" and "\<forall>q\<in>set ((f, s) # b). snd q \<le> mx" and "f \<le> low" "low \<le> high"
    and "high \<le> mx" and "\<not> safe_next mx s < low"
  shows "canonical (absorb_loop high (safe_next mx high) (f, max s high) b) \<and>
    set_of (absorb_loop high (safe_next mx high) (f, max s high) b) = set_of ((f, s) # b) \<union> {low..high} \<and>
    (\<forall>q\<in>set (absorb_loop high (safe_next mx high) (f, max s high) b). f \<le> fst q \<and> snd q \<le> mx)"
proof (cases "high < s")
  case True
  then have "absorb_loop high (safe_next mx high) (f, s) b = (f, s) # b"
    using assms by (intro absorb_loop_none) auto
  moreover have "{low..high} \<subseteq> {f..s}" using True assms(3) by auto
  ultimately show ?thesis using True assms(1,2) by (fastforce simp: max_def)
next
  case False
  have low: "low \<le> s + 1" using assms(6) by (auto simp: safe_next_def split: if_splits)
  have "\<forall>q\<in>set b. f \<le> fst q \<and> snd q \<le> mx" using assms(1,2) by fastforce
  then have "canonical (absorb_loop high (safe_next mx high) (f, high) b) \<and>
      set_of (absorb_loop high (safe_next mx high) (f, high) b) = {f..high} \<union> set_of b \<and>
      (\<forall>q\<in>set (absorb_loop high (safe_next mx high) (f, high) b). f \<le> fst q \<and> snd q \<le> mx)"
    using assms by (intro absorb_loop_correct) auto
  moreover have "{f..high} = {f..s} \<union> {low..high}" using False assms(1,3,4) low by auto
  ultimately show ?thesis using False by (simp add: max_def) blast
qed

lemma holder_add_correct:
  assumes "holder_ok mx h" and "low \<le> high" and "high \<le> mx"
  shows "holder_ok mx (holder_add mx low high h) \<and> set_of (holder_add mx low high h) = set_of h \<union> {low..high}"
proof -
  have c: "canonical h" and m: "\<forall>p\<in>set h. snd p \<le> mx" using assms(1) by (simp_all add: holder_ok_def)
  show ?thesis
    using c
  proof (cases rule: start_element_cases [where k = low])
    case (eq a s b)
    have "\<not> safe_next mx s < low" using c eq(1) by (auto simp: safe_next_def)
    then have h: "holder_add mx low high h = a @ absorb_loop high (safe_next mx high) (low, max s high) b"
      using eq by (intro holder_add_extend) auto
    from absorb_extended [of low s b mx low high] c m assms(2,3) eq(1) \<open>\<not> safe_next mx s < low\<close>
    show ?thesis unfolding h by (fastforce simp: holder_ok_def)
  next
    case (before a f s b)
    show ?thesis
    proof (cases "safe_next mx s < low")
      case True
      have h: "holder_add mx low high h = (a @ [(f, s)]) @ absorb_loop high (safe_next mx high) (low, high) b"
        using before True by (intro holder_add_insert) (auto simp: nth_append)
      have "s < mx" using True c m assms before(1) by (auto simp: safe_next_def split: if_splits)
      then have "s + 1 < low" using True by (simp add: safe_next_def)
      moreover have "\<forall>p\<in>set a. snd p + 1 < f" "f \<le> s" using c before(1) by auto
      moreover have "\<forall>q\<in>set b. low \<le> fst q \<and> snd q \<le> mx" using before(1,5) m by auto
      ultimately show ?thesis
        using absorb_loop_correct [of b low mx high] c m assms(2,3) before(1)
        unfolding h by (fastforce simp: holder_ok_def)
    next
      case False
      then have h: "holder_add mx low high h = a @ absorb_loop high (safe_next mx high) (f, max s high) b"
        using before by (intro holder_add_extend) auto
      from absorb_extended [of f s b mx low high] c m assms(2,3) before(1,2) False
      show ?thesis unfolding h by (fastforce simp: holder_ok_def)
    qed
  next
    case first
    then have h: "holder_add mx low high h = [] @ absorb_loop high (safe_next mx high) (low, high) h"
      by (intro holder_add_insert) (cases h; auto)+
    have "\<forall>q\<in>set h. low \<le> fst q \<and> snd q \<le> mx" using first(1) m by auto
    then show ?thesis
      using absorb_loop_correct [of h low mx high] c assms(2,3) unfolding h by (auto simp: holder_ok_def)
  qed
qed

subsection \<open>remove\<close>

lemma map_insert_front: "\<forall>q\<in>set rest. k < fst q \<Longrightarrow> map_insert k v rest = (k, v) # rest"
  using map_insert_split [of "[]" k rest v] by simp

lemma set_of_disjoint: "\<forall>q\<in>set rest. k < fst q \<Longrightarrow> set_of rest \<inter> {l..k} = {}"
  by (induction rest) auto

lemma ball_fst_mono: "\<forall>q\<in>set rest. k < fst q \<Longrightarrow> l \<le> k \<Longrightarrow> \<forall>q\<in>set rest. l < fst q"
  for k l :: int
  by (induction rest) auto

text \<open>\<open>removable\<close> is what \<^verbatim>\<open>remove\<close> needs when \<open>high\<close> is the greatest value of the type.\<close>

definition removable :: "int \<Rightarrow> int \<Rightarrow> holder \<Rightarrow> bool" where
  "removable mx high h \<longleftrightarrow> high < mx \<or> high = mx \<and> (\<forall>p\<in>set h. fst p \<noteq> mx)"

definition removed :: "int \<Rightarrow> int \<Rightarrow> int \<Rightarrow> holder \<Rightarrow> holder \<Rightarrow> bool" where
  "removed mx low high h r \<longleftrightarrow> canonical r \<and> set_of r = set_of h - {low..high} \<and>
     (\<forall>q\<in>set r. snd q \<le> mx \<and> (\<exists>p\<in>set h. fst p \<le> fst q))"

lemma remove_loop_correct:
  assumes "canonical h" and "\<forall>p\<in>set h. snd p \<le> mx" and "low \<le> high" and "removable mx high h"
  shows "removed mx low high h (remove_loop low high (safe_next mx high) h)"
  using assms
proof (induction low high "safe_next mx high" h rule: remove_loop.induct)
  case (1 low high)
  then show ?case by (simp add: removed_def)
next
  case (2 low high f s rest)
  let ?n = "safe_next mx high"
  have fs: "f \<le> s" "s \<le> mx" and rest: "canonical rest" "\<forall>q\<in>set rest. s + 1 < fst q" "\<forall>q\<in>set rest. snd q \<le> mx"
    and rem: "removable mx high rest" and le: "low \<le> high"
    using 2(5-8) by (auto simp: removable_def)
  have n: "high < s \<Longrightarrow> ?n = high + 1" using fs 2(8) by (auto simp: removable_def safe_next_def)
  consider (behind) "\<not> f < ?n" | (inside) "f < ?n" "low \<le> f" "s \<le> high" | (tail) "f < ?n" "low \<le> f" "high < s"
    | (ahead) "f < ?n" "f < low" "s < low" | (cut) "f < ?n" "f < low" "low \<le> s" "s \<le> high"
    | (split) "f < ?n" "f < low" "low \<le> s" "high < s" by linarith
  then show ?case
  proof cases
    case behind
    then have "high < f" using fs 2(8) by (auto simp: removable_def safe_next_def split: if_splits)
    then have "\<forall>q\<in>set rest. high < fst q"
      using ball_fst_mono [OF rest(2), of high] fs(1) by simp
    then have "\<forall>q\<in>set ((f, s) # rest). high < fst q" using \<open>high < f\<close> by simp
    from set_of_disjoint [OF this] have "set_of ((f, s) # rest) - {low..high} = set_of ((f, s) # rest)"
      by blast
    moreover have "remove_loop low high ?n ((f, s) # rest) = (f, s) # rest" using behind by simp
    ultimately show ?thesis using 2(5,6) unfolding removed_def by auto
  next
    case inside
    then have "removed mx low high rest (remove_loop low high ?n rest)"
      using 2(1) rest rem le by blast
    with inside show ?thesis by (auto simp: removed_def)
  next
    case tail
    have above: "\<forall>q\<in>set rest. high + 1 < fst q"
      using ball_fst_mono [OF rest(2), of "high + 1"] tail(3) by simp
    then have "remove_loop low high ?n ((f, s) # rest) = (high + 1, s) # rest"
      using tail n by (simp add: map_insert_front)
    moreover have "set_of rest \<inter> {low..high} = {}"
      using ball_fst_mono [OF above, of high] by (intro set_of_disjoint) simp
    then have "set_of ((high + 1, s) # rest) = set_of ((f, s) # rest) - {low..high}"
      using tail n by auto
    moreover have "canonical ((high + 1, s) # rest)" using tail rest(1,2) by simp
    moreover have "\<forall>q\<in>set ((high + 1, s) # rest). snd q \<le> mx \<and> (\<exists>p\<in>set ((f, s) # rest). fst p \<le> fst q)"
      using tail n rest(3) fs by auto
    ultimately show ?thesis by (simp only: removed_def)
  next
    case ahead
    then have "removed mx low high rest (remove_loop low high ?n rest)"
      using 2(2) rest rem le by auto
    then have r: "canonical (remove_loop low high ?n rest)"
      "set_of (remove_loop low high ?n rest) = set_of rest - {low..high}"
      "\<forall>q\<in>set (remove_loop low high ?n rest). snd q \<le> mx \<and> (\<exists>p\<in>set rest. fst p \<le> fst q)"
      by (simp_all add: removed_def)
    have "\<forall>q\<in>set (remove_loop low high ?n rest). s + 1 < fst q"
      using r(3) rest(2) by (meson less_le_trans)
    with r ahead fs show ?thesis by (auto simp: removed_def)
  next
    case cut
    have above: "\<forall>q\<in>set rest. low < fst q" using ball_fst_mono [OF rest(2), of low] cut by simp
    have "removable mx high ((f, low - 1) # rest)" using rem cut 2(8) by (auto simp: removable_def)
    then have "removed mx low high ((f, low - 1) # rest) (remove_loop low high ?n ((f, low - 1) # rest))"
      using cut 2(3) rest fs le above by simp
    moreover have "remove_loop low high ?n ((f, s) # rest) = remove_loop low high ?n ((f, low - 1) # rest)"
      using cut by simp
    moreover have "set_of ((f, low - 1) # rest) - {low..high} = set_of ((f, s) # rest) - {low..high}"
      using cut by auto
    ultimately show ?thesis by (simp add: removed_def)
  next
    case split
    have above: "\<forall>q\<in>set rest. high + 1 < fst q"
      using ball_fst_mono [OF rest(2), of "high + 1"] split by simp
    have r: "remove_loop low high ?n ((f, s) # rest) = (f, low - 1) # (high + 1, s) # rest"
      using split n above by (simp add: map_insert_front)
    have "set_of rest \<inter> {low..high} = {}"
      using ball_fst_mono [OF above, of high] by (intro set_of_disjoint) simp
    then have "set_of ((f, low - 1) # (high + 1, s) # rest) = set_of ((f, s) # rest) - {low..high}"
      using split le by auto
    moreover have "\<forall>q\<in>set rest. low < fst q" using ball_fst_mono [OF above, of low] le by simp
    then have "canonical ((f, low - 1) # (high + 1, s) # rest)" using split rest(1,2) le by simp
    moreover have "\<forall>q\<in>set ((f, low - 1) # (high + 1, s) # rest). snd q \<le> mx \<and> (\<exists>p\<in>set ((f, s) # rest). fst p \<le> fst q)"
      using split n rest(3) fs by auto
    ultimately show ?thesis unfolding r by (simp only: removed_def)
  qed
qed

lemma holder_remove_correct:
  assumes "holder_ok mx h" and "low \<le> high" and "removable mx high h"
  shows "holder_ok mx (holder_remove mx low high h) \<and> set_of (holder_remove mx low high h) = set_of h - {low..high}"
proof -
  have c: "canonical h" and m: "\<forall>p\<in>set h. snd p \<le> mx" using assms(1) by (simp_all add: holder_ok_def)
  have "\<exists>a b. h = a @ b \<and> start_element h low = length a \<and> (\<forall>p\<in>set a. snd p < low)"
    using c
  proof (cases rule: start_element_cases [where k = low])
    case (eq a s b)
    have "\<forall>p\<in>set a. snd p < low" using c eq(1) by auto
    with eq show ?thesis by blast
  next
    case (before a f s b)
    have "\<forall>p\<in>set a. snd p < low" using c before(1,2) by auto
    with before show ?thesis by blast
  qed (auto intro!: exI [of _ "[]"])
  then obtain a b where ab: "h = a @ b" "start_element h low = length a" "\<forall>p\<in>set a. snd p < low" by blast
  let ?r = "remove_loop low high (safe_next mx high) b"
  have "removed mx low high b ?r"
    using c m assms(2,3) ab(1) by (intro remove_loop_correct) (auto simp: removable_def)
  then have r: "canonical ?r" "set_of ?r = set_of b - {low..high}"
    "\<forall>q\<in>set ?r. snd q \<le> mx" "\<forall>q\<in>set ?r. \<exists>p\<in>set b. fst p \<le> fst q" by (simp_all add: removed_def)
  have h: "holder_remove mx low high h = a @ ?r" using ab by (simp add: holder_remove_def Let_def)
  have "set_of a \<inter> {low..high} = {}" using ab(3) by (auto simp: set_of_def)
  then have "set_of (a @ ?r) = set_of h - {low..high}" using r(2) ab(1) by auto
  moreover have "\<forall>p\<in>set a. \<forall>q\<in>set ?r. snd p + 1 < fst q"
  proof (intro ballI)
    fix p q assume p: "p \<in> set a" and q: "q \<in> set ?r"
    then obtain p' where "p' \<in> set b" "fst p' \<le> fst q" using r(4) by blast
    moreover have "snd p + 1 < fst p'" using c p \<open>p' \<in> set b\<close> by (simp add: ab(1))
    ultimately show "snd p + 1 < fst q" by simp
  qed
  ultimately show ?thesis using c m ab(1) r(1,3) unfolding h holder_ok_def by auto
qed

subsection \<open>belongs and check_presence\<close>

lemma set_of_before:
  assumes "canonical (a @ (f, s) # b)" and "f < x" and "\<forall>q\<in>set b. x < fst q"
  shows "x \<in> set_of (a @ (f, s) # b) \<longleftrightarrow> x \<le> s"
proof -
  have "\<forall>p\<in>set a. snd p < x" using assms(1,2) by auto
  then have "x \<notin> set_of a" by (auto simp: set_of_def)
  moreover have "x \<notin> set_of b" using assms(3) by (auto simp: set_of_def)
  ultimately show ?thesis using assms(2) by auto
qed

lemma cset_belongs_correct:
  assumes "cset_ok mx cs"
  shows "fst (cset_belongs x cs) \<longleftrightarrow> x \<in> cset_values cs"
    and "cset_ok mx (snd (cset_belongs x cs))" and "cset_values (snd (cset_belongs x cs)) = cset_values cs"
proof -
  have c: "canonical (cs_holder cs)" using assms by (simp add: cset_ok_def holder_ok_def)
  have found: "cset_ok mx (cs\<lparr>cs_last_found := if i < length (cs_holder cs) then Some (cs_holder cs ! i) else None\<rparr>)" for i
    using assms by (auto simp: cset_ok_def simp del: split_paired_All)
  show "cset_ok mx (snd (cset_belongs x cs))"
    using assms found [of "lower_bound (cs_holder cs) x"] found [of "lower_bound (cs_holder cs) x - 1"]
    unfolding cset_belongs_def Let_def by (simp only: snd_conv simp_thms split: if_split)
  show "cset_values (snd (cset_belongs x cs)) = cset_values cs"
    by (simp add: cset_belongs_def cset_values_def Let_def)
  show "fst (cset_belongs x cs) \<longleftrightarrow> x \<in> cset_values cs"
  proof (cases "case cs_last_found cs of None \<Rightarrow> False | Some (f, s) \<Rightarrow> f \<le> x \<and> s \<ge> x")
    case True
    then obtain p where "cs_last_found cs = Some p" "fst p \<le> x" "x \<le> snd p" by (auto split: option.splits)
    moreover from this have "p \<in> set (cs_holder cs)" using assms by (simp add: cset_ok_def)
    ultimately show ?thesis using True by (auto simp: cset_belongs_def cset_values_def set_of_def)
  next
    case False
    show ?thesis
      using c
    proof (cases rule: start_element_cases [where k = x])
      case (eq a s b)
      then show ?thesis using c by (simp add: cset_belongs_def cset_values_def Let_def nth_append)
    next
      case (before a f s b)
      have "fst (cset_belongs x cs) \<longleftrightarrow> x \<le> s"
        using False before by (cases b) (simp_all add: cset_belongs_def Let_def nth_append)
      with set_of_before [of a f s b x] c before show ?thesis by (simp add: cset_values_def)
    next
      case first
      have "fst (cset_belongs x cs) \<longleftrightarrow> False"
        using False first by (cases "cs_holder cs") (auto simp: cset_belongs_def Let_def)
      with first show ?thesis by (auto simp: cset_values_def set_of_def)
    qed
  qed
qed

lemma check_presence_before:
  assumes "canonical (a @ (f, s) # b)" and "f < low" and "low \<le> high" and "\<forall>q\<in>set b. high < fst q"
  shows "(s < low \<longrightarrow> set_of (a @ (f, s) # b) \<inter> {low..high} = {}) \<and>
    (low \<le> s \<longrightarrow> (high \<le> s \<longleftrightarrow> {low..high} \<subseteq> set_of (a @ (f, s) # b)) \<and> set_of (a @ (f, s) # b) \<inter> {low..high} \<noteq> {})"
proof -
  define S where "S = set_of (a @ (f, s) # b)"
  have a: "x \<in> S \<longleftrightarrow> x \<le> s" if "x \<in> {low..high}" for x
    unfolding S_def using that assms by (intro set_of_before) (auto dest: ball_fst_mono [of b high x])
  have "high \<le> s \<longleftrightarrow> {low..high} \<subseteq> S"
    using a assms(3) by (metis atLeastAtMost_iff order_refl order_trans subset_iff)
  moreover have "low \<le> s \<longleftrightarrow> S \<inter> {low..high} \<noteq> {}"
    using a assms(3) by (metis IntI IntE atLeastAtMost_iff order_refl order_trans equals0I emptyE)
  ultimately show ?thesis unfolding S_def [symmetric] by auto
qed

lemma check_presence_correct:
  assumes "cset_ok mx cs" and "low \<le> high"
  shows "check_presence low high cs =
    (if {low..high} \<subseteq> cset_values cs then CS_ALL
     else if cset_values cs \<inter> {low..high} = {} then CS_NONE else CS_SOME)"
proof -
  have c: "canonical (cs_holder cs)" using assms by (simp add: cset_ok_def holder_ok_def)
  have ne: "cset_values cs \<inter> {low..high} \<noteq> {}" if "{low..high} \<subseteq> cset_values cs"
    using that assms(2) by (metis Int_absorb1 atLeastatMost_empty_iff not_le)
  have gap: "check_presence low high cs = CS_SOME \<and> \<not> {low..high} \<subseteq> cset_values cs \<and>
      cset_values cs \<inter> {low..high} \<noteq> {}"
    if "cs_holder cs = a @ q # b" "lower_bound (cs_holder cs) low = length a" "low < fst q" "fst q \<le> high" for a q b
  proof -
    have "check_presence low high cs = CS_SOME"
      using that assms(2) by (simp add: check_presence_def Let_def nth_append)
    moreover have "fst q \<in> cset_values cs"
      using c by (auto simp: cset_values_def that(1))
    moreover have "fst q - 1 \<notin> cset_values cs"
    proof -
      have "\<forall>p\<in>set a. snd p < fst q - 1" using c by (auto simp: that(1))
      then have "fst q - 1 \<notin> set_of a" by (auto simp: set_of_def)
      moreover have "\<forall>r\<in>set b. fst q - 1 < fst r" using c by (auto simp: that(1))
      then have "fst q - 1 \<notin> set_of b" by (auto simp: set_of_def)
      ultimately show ?thesis by (simp add: cset_values_def that(1))
    qed
    moreover have "fst q - 1 \<in> {low..high}" "fst q \<in> {low..high}" using that(3,4) by auto
    ultimately show ?thesis by blast
  qed
  show ?thesis
    using c
  proof (cases rule: start_element_cases [where k = low])
    case (eq a s b)
    have "s + 1 \<notin> cset_values cs"
    proof -
      have "\<forall>p\<in>set a. snd p < s + 1" using c by (auto simp: eq(1))
      then have "s + 1 \<notin> set_of a" by (auto simp: set_of_def)
      moreover have "s + 1 \<notin> set_of b" using c by (auto simp: eq(1) set_of_def)
      ultimately show ?thesis by (simp add: cset_values_def eq(1))
    qed
    moreover have "low \<le> s" using c by (simp add: eq(1))
    moreover have "{low..s} \<subseteq> cset_values cs" by (auto simp: cset_values_def eq(1))
    moreover have "high \<le> s" if "{low..high} \<subseteq> cset_values cs"
    proof (rule ccontr)
      assume "\<not> high \<le> s"
      then have "s + 1 \<in> {low..high}" using \<open>low \<le> s\<close> by simp
      with that \<open>s + 1 \<notin> cset_values cs\<close> show False by blast
    qed
    ultimately have "{low..high} \<subseteq> cset_values cs \<longleftrightarrow> high \<le> s"
      by (metis atLeastatMost_subset_iff order_refl order_trans)
    moreover have "low \<in> cset_values cs \<inter> {low..high}"
      using \<open>{low..s} \<subseteq> cset_values cs\<close> \<open>low \<le> s\<close> assms(2) by auto
    moreover have "check_presence low high cs = (if high \<le> s then CS_ALL else CS_SOME)"
      using eq assms(2) by (simp add: check_presence_def Let_def nth_append)
    ultimately show ?thesis by auto
  next
    case (before a f s b)
    show ?thesis
    proof (cases "b \<noteq> [] \<and> fst (hd b) \<le> high")
      case True
      then obtain q b' where "b = q # b'" "fst q \<le> high" by (cases b) auto
      then show ?thesis using gap [of "a @ [(f, s)]" q b'] before by simp
    next
      case False
      then have "\<forall>q\<in>set b. high < fst q" using c before(1) by (cases b) auto
      from check_presence_before [of a f s b low high, OF _ before(2) assms(2) this] c before(1)
      have P: "(s < low \<longrightarrow> cset_values cs \<inter> {low..high} = {}) \<and>
        (low \<le> s \<longrightarrow> (high \<le> s \<longleftrightarrow> {low..high} \<subseteq> cset_values cs) \<and> cset_values cs \<inter> {low..high} \<noteq> {})"
        by (simp add: cset_values_def)
      have "check_presence low high cs = (if s < low then CS_NONE else if high \<le> s then CS_ALL else CS_SOME)"
        using before False assms(2) by (cases b) (auto simp: check_presence_def Let_def nth_append)
      then show ?thesis using P ne by (cases "s < low") auto
    qed
  next
    case first
    show ?thesis
    proof (cases "cs_holder cs \<noteq> [] \<and> fst (hd (cs_holder cs)) \<le> high")
      case True
      then obtain q b where "cs_holder cs = [] @ q # b" "fst q \<le> high" by (cases "cs_holder cs") auto
      then show ?thesis using gap [of "[]" q b] first by simp
    next
      case False
      then have "\<forall>q\<in>set (cs_holder cs). high < fst q" using c by (cases "cs_holder cs") auto
      then have "cset_values cs \<inter> {low..high} = {}" unfolding cset_values_def by (rule set_of_disjoint)
      moreover have "check_presence low high cs = CS_NONE"
        using first False assms(2) by (cases "cs_holder cs") (auto simp: check_presence_def Let_def)
      ultimately show ?thesis using ne by auto
    qed
  qed
qed

section \<open>The interface of a set of integers\<close>

text \<open>
  An operation on intervals that acts on the stored values as \<open>comb\<close>: what the operations with
  another set as argument, which walk over its intervals, rely on.
\<close>

locale interval_operation =
  fixes ok :: "'s \<Rightarrow> bool"
    and vals :: "'s \<Rightarrow> int set"
    and upd :: "int \<Rightarrow> int \<Rightarrow> 's \<Rightarrow> 's"
    and adm :: "int \<Rightarrow> bool"
    and comb :: "int set \<Rightarrow> int set \<Rightarrow> int set"
  assumes upd_ok: "ok s \<Longrightarrow> adm high \<Longrightarrow> ok (upd low high s)"
    and upd_vals: "ok s \<Longrightarrow> adm high \<Longrightarrow> vals (upd low high s) = comb (vals s) {low..high}"
begin

lemma fold_upd:
  assumes "ok s" and "\<forall>p\<in>set ps. adm (snd p)"
  shows "ok (fold (\<lambda>p. upd (fst p) (snd p)) ps s)"
    and "vals (fold (\<lambda>p. upd (fst p) (snd p)) ps s) = foldl comb (vals s) (map (\<lambda>p. {fst p..snd p}) ps)"
  using assms by (induction ps arbitrary: s) (simp_all add: upd_ok upd_vals)

end

lemma cset_add_ok:
  assumes "cset_ok mx cs" and "high \<le> mx"
  shows "cset_ok mx (cset_add mx low high cs)"
    and "cset_values (cset_add mx low high cs) = cset_values cs \<union> {low..high}"
  using assms holder_add_correct [of mx "cs_holder cs" low high]
  by (auto simp: cset_ok_def cset_add_def cset_values_def)

lemma cset_remove_ok:
  assumes "cset_ok mx cs" and "removable mx high (cs_holder cs)"
  shows "cset_ok mx (cset_remove mx low high cs)"
    and "cset_values (cset_remove mx low high cs) = cset_values cs - {low..high}"
  using assms holder_remove_correct [of mx "cs_holder cs" low high]
  by (auto simp: cset_ok_def cset_remove_def cset_values_def)

interpretation cset_add_op: interval_operation "cset_ok mx" cset_values "cset_add mx" "\<lambda>high. high \<le> mx" "(\<union>)"
  for mx
  by unfold_locales (simp_all add: cset_add_ok)

interpretation cset_remove_op: interval_operation "cset_ok mx" cset_values "cset_remove mx" "\<lambda>high. high < mx" "(-)"
  for mx
  by unfold_locales (simp_all add: cset_remove_ok removable_def)

lemma foldl_intervals:
  "foldl (\<union>) V (map (\<lambda>p. {fst p..snd p}) ps) = V \<union> set_of ps"
  "foldl (-) V (map (\<lambda>p. {fst p..snd p}) ps) = V - set_of ps"
  by (induction ps arbitrary: V) auto

lemma cset_values_holder: "set_of (cs_holder other) = cset_values other"
  by (simp add: cset_values_def)

section \<open>Properties\<close>

text \<open>
  C21: \<^verbatim>\<open>add\<close> keeps the invariant of the class (intervals in order, not empty and not adjacent) and
  adds exactly the values of the interval, up to the greatest value of the type; \<^verbatim>\<open>add\<close> of a
  whole set, of another object or of the object itself, adds exactly its values.
\<close>

theorem cset_add_correct:
  assumes "cset_ok mx cs" and "high \<le> mx" and "cset_ok mx other" and "same \<Longrightarrow> other = cs"
  shows "cset_ok mx (cset_add mx low high cs) \<and>
    cset_values (cset_add mx low high cs) = cset_values cs \<union> {low..high} \<and>
    cset_ok mx (cset_add_set mx same other cs) \<and>
    cset_values (cset_add_set mx same other cs) = cset_values cs \<union> cset_values other"
proof -
  have "\<forall>p\<in>set (cs_holder other). snd p \<le> mx" using assms(3) by (simp add: cset_ok_def holder_ok_def)
  then have "cset_ok mx (cset_add_set mx same other cs)"
    and "cset_values (cset_add_set mx same other cs) = cset_values cs \<union> cset_values other"
    using assms(1,4) cset_add_op.fold_upd [of mx cs "cs_holder other"]
    by (cases same; simp add: cset_add_set_def foldl_intervals cset_values_holder)+
  then show ?thesis using cset_add_ok [OF assms(1,2)] by simp
qed

text \<open>
  C22: \<^verbatim>\<open>remove\<close> keeps the invariant and removes exactly the values of the interval, unless it goes
  up to the greatest value of the type and that value is stored as an interval of its own;
  \<^verbatim>\<open>remove\<close> of another set without the greatest value removes exactly its values.
\<close>

theorem cset_remove_correct:
  assumes "cset_ok mx cs" and "high < mx \<or> high = mx \<and> (\<forall>p\<in>set (cs_holder cs). fst p \<noteq> mx)"
    and "cset_ok mx other" and "mx \<notin> cset_values other"
  shows "cset_ok mx (cset_remove mx low high cs) \<and>
    cset_values (cset_remove mx low high cs) = cset_values cs - {low..high} \<and>
    cset_ok mx (cset_remove_set mx False other cs) \<and>
    cset_values (cset_remove_set mx False other cs) = cset_values cs - cset_values other"
proof -
  have "\<forall>p\<in>set (cs_holder other). snd p < mx"
  proof
    fix p assume p: "p \<in> set (cs_holder other)"
    then have "fst p \<le> snd p" "snd p \<le> mx"
      using assms(3) by (auto simp: cset_ok_def holder_ok_def canonical_le)
    moreover have "snd p \<noteq> mx" using assms(4) p \<open>fst p \<le> snd p\<close> by (auto simp: cset_values_def set_of_def)
    ultimately show "snd p < mx" by simp
  qed
  then have "cset_ok mx (cset_remove_set mx False other cs)"
    and "cset_values (cset_remove_set mx False other cs) = cset_values cs - cset_values other"
    using assms(1) cset_remove_op.fold_upd [of mx cs "cs_holder other"]
    by (simp_all add: cset_remove_set_def foldl_intervals cset_values_holder)
  moreover have "removable mx high (cs_holder cs)" using assms(2) by (simp add: removable_def)
  ultimately show ?thesis using cset_remove_ok [OF assms(1)] by simp
qed

text \<open>
  \<^verbatim>\<open>belongs\<close> answers membership whatever the cached position of the last search is, changes
  neither the values nor the invariant, and \<^verbatim>\<open>check_presence\<close> tells whether all, none or some of
  the values of an interval are stored.
\<close>

lemma cset_queries_correct:
  assumes "cset_ok mx cs" and "low \<le> high"
  shows "(fst (cset_belongs x cs) \<longleftrightarrow> x \<in> cset_values cs) \<and> cset_ok mx (snd (cset_belongs x cs)) \<and>
    cset_values (snd (cset_belongs x cs)) = cset_values cs \<and>
    check_presence low high cs =
      (if {low..high} \<subseteq> cset_values cs then CS_ALL
       else if cset_values cs \<inter> {low..high} = {} then CS_NONE else CS_SOME)"
  using cset_belongs_correct [OF assms(1)] check_presence_correct [OF assms] by simp

lemma sample_ok: "cset_ok 255 \<lparr>cs_holder = [(1, 3), (7, 9)], cs_last_found = Some (1, 3)\<rparr>"
  by (simp add: cset_ok_def holder_ok_def)

theorem cset_add_correct_witness:
  "cset_add 255 4 6 \<lparr>cs_holder = [(1, 3), (7, 9)], cs_last_found = Some (1, 3)\<rparr> =
     \<lparr>cs_holder = [(1, 9)], cs_last_found = None\<rparr> \<and>
   cset_values (cset_add 255 4 6 \<lparr>cs_holder = [(1, 3), (7, 9)], cs_last_found = Some (1, 3)\<rparr>) =
     {1..3} \<union> {7..9} \<union> {4..6}"
proof
  show "cset_add 255 4 6 \<lparr>cs_holder = [(1, 3), (7, 9)], cs_last_found = Some (1, 3)\<rparr> =
     \<lparr>cs_holder = [(1, 9)], cs_last_found = None\<rparr>"
    by (simp add: cset_add_def holder_add_def start_element_def lower_bound_def safe_next_def)
  show "cset_values (cset_add 255 4 6 \<lparr>cs_holder = [(1, 3), (7, 9)], cs_last_found = Some (1, 3)\<rparr>) =
     {1..3} \<union> {7..9} \<union> {4..6}"
    using cset_add_correct [OF sample_ok _ sample_ok, of 6 False 4] by (simp add: cset_values_def)
qed

theorem cset_remove_correct_witness:
  "cset_values (cset_remove 255 2 8 \<lparr>cs_holder = [(1, 3), (7, 9)], cs_last_found = Some (1, 3)\<rparr>) =
     ({1..3} \<union> {7..9}) - {2..8} \<and>
   cset_remove 255 2 8 \<lparr>cs_holder = [(1, 3), (7, 9)], cs_last_found = Some (1, 3)\<rparr> =
     \<lparr>cs_holder = [(1, 1), (9, 9)], cs_last_found = None\<rparr>"
proof
  show "cset_values (cset_remove 255 2 8 \<lparr>cs_holder = [(1, 3), (7, 9)], cs_last_found = Some (1, 3)\<rparr>) =
     ({1..3} \<union> {7..9}) - {2..8}"
    using cset_remove_correct [OF sample_ok _ sample_ok, of 8 2] by (simp add: cset_values_def)
  show "cset_remove 255 2 8 \<lparr>cs_holder = [(1, 3), (7, 9)], cs_last_found = Some (1, 3)\<rparr> =
     \<lparr>cs_holder = [(1, 1), (9, 9)], cs_last_found = None\<rparr>"
    by (simp add: cset_remove_def holder_remove_def start_element_def lower_bound_def safe_next_def
        map_insert_def)
qed

lemma cset_queries_correct_example:
  "fst (cset_belongs 8 \<lparr>cs_holder = [(1, 3), (7, 9)], cs_last_found = Some (1, 3)\<rparr>) \<and>
   check_presence 2 8 \<lparr>cs_holder = [(1, 3), (7, 9)], cs_last_found = Some (1, 3)\<rparr> = CS_SOME"
proof
  show "fst (cset_belongs 8 \<lparr>cs_holder = [(1, 3), (7, 9)], cs_last_found = Some (1, 3)\<rparr>)"
    using cset_queries_correct [OF sample_ok, of 2 8 8] by (simp add: cset_values_def)
  show "check_presence 2 8 \<lparr>cs_holder = [(1, 3), (7, 9)], cs_last_found = Some (1, 3)\<rparr> = CS_SOME"
    by (simp add: check_presence_def lower_bound_def)
qed

text \<open>Removing a set from itself leaves it as it is.\<close>

lemma cset_remove_self: "cset_remove_set mx True cs cs = cs"
  by (simp add: cset_remove_set_def)

text \<open>
  The exception is real: with the greatest value stored as an interval of its own, removing
  an interval up to it leaves it in the set.
\<close>

lemma cset_remove_misses_maximum:
  "cset_remove 255 250 255 \<lparr>cs_holder = [(255, 255)], cs_last_found = None\<rparr> =
     \<lparr>cs_holder = [(255, 255)], cs_last_found = None\<rparr>"
  by (simp add: cset_remove_def holder_remove_def start_element_def lower_bound_def safe_next_def)

end
