(* ===== verification/Time_Model.thy ===== *)
theory Time_Model
  imports Prelude
begin

text \<open>
  \<^verbatim>\<open>Generics::Time\<close> of \<^verbatim>\<open>src/src/Generics/Time.hpp\<close>: a time interval in seconds and microseconds with
  its arithmetic, order, printed form and packed form, and the timers built on it.  The C
  types \<^verbatim>\<open>time_t\<close> and \<^verbatim>\<open>suseconds_t\<close> are signed integers of 64 bits and the factors of the product and
  the quotient are an \<^verbatim>\<open>int\<close> of 32 bits: \<open>time_t\<close> cuts the seconds an operation computes to their
  width, and the factors are words.  Where the cut changes a value the behaviour of the code is
  undefined; the properties exclude it.  Division and remainder of C round towards zero
  (\<^verbatim>\<open>sdiv\<close>, \<^verbatim>\<open>smod\<close>).  The 32 bit fields of the packed form keep their width.
\<close>

section \<open>Time values\<close>

datatype Time = Time (tv_sec: int) (tv_usec: int)

definition USEC_MAX :: int where "USEC_MAX = 1000000"

definition time_t :: "int \<Rightarrow> int" where
  "time_t n = signed_take_bit 63 n"

definition time_zero :: Time where "time_zero = Time 0 0"

definition ONE_SECOND :: Time where "ONE_SECOND = Time 1 0"

definition ONE_MINUTE :: Time where "ONE_MINUTE = Time 60 0"

definition ONE_HOUR :: Time where "ONE_HOUR = Time (60 * 60) 0"

definition ONE_DAY :: Time where "ONE_DAY = Time (24 * 60 * 60) 0"

definition ONE_WEEK :: Time where "ONE_WEEK = Time (7 * 24 * 60 * 60) 0"

section \<open>Arithmetic\<close>

definition time_neg :: "Time \<Rightarrow> Time" where
  "time_neg tv =
     (if tv_usec tv \<noteq> 0 then Time (time_t (- tv_sec tv - 1)) (USEC_MAX - tv_usec tv) else Time (time_t (- tv_sec tv)) 0)"

definition time_abs :: "Time \<Rightarrow> Time" where
  "time_abs tv = (if tv_sec tv < 0 then time_neg tv else tv)"

definition time_add :: "Time \<Rightarrow> Time \<Rightarrow> Time" where
  "time_add tv1 tv2 =
     (if tv_usec tv1 + tv_usec tv2 \<ge> USEC_MAX
      then Time (time_t (tv_sec tv1 + tv_sec tv2 + 1)) (tv_usec tv1 + tv_usec tv2 - USEC_MAX)
      else Time (time_t (tv_sec tv1 + tv_sec tv2)) (tv_usec tv1 + tv_usec tv2))"

definition time_add_sec :: "Time \<Rightarrow> int \<Rightarrow> Time" where
  "time_add_sec tv time = Time (time_t (tv_sec tv + time)) (tv_usec tv)"

definition time_sub :: "Time \<Rightarrow> Time \<Rightarrow> Time" where
  "time_sub tv1 tv2 =
     (if tv_usec tv1 < tv_usec tv2
      then Time (time_t (tv_sec tv1 - tv_sec tv2 - 1)) (USEC_MAX + tv_usec tv1 - tv_usec tv2)
      else Time (time_t (tv_sec tv1 - tv_sec tv2)) (tv_usec tv1 - tv_usec tv2))"

definition time_sub_sec :: "Time \<Rightarrow> int \<Rightarrow> Time" where
  "time_sub_sec tv time = Time (time_t (tv_sec tv - time)) (tv_usec tv)"

definition helper_abs :: "32 word \<Rightarrow> 32 word" where
  "helper_abs n = (if n <s 0 then - n else n)"

definition helper_mul :: "Time \<Rightarrow> 32 word \<Rightarrow> Time" where
  "helper_mul tv multiplier =
     Time (time_t (tv_sec tv * sint multiplier + tv_usec tv * sint multiplier sdiv USEC_MAX))
       (tv_usec tv * sint multiplier smod USEC_MAX)"

definition helper_div :: "Time \<Rightarrow> 32 word \<Rightarrow> Time" where
  "helper_div tv divisor =
     Time (time_t (tv_sec tv sdiv sint divisor))
       (((tv_sec tv - tv_sec tv sdiv sint divisor * sint divisor) * USEC_MAX + tv_usec tv) sdiv sint divisor)"

definition time_mul :: "Time \<Rightarrow> 32 word \<Rightarrow> Time" where
  "time_mul tv multiplier =
     (if (tv_sec tv < 0) = (multiplier <s 0)
      then helper_mul (time_abs tv) (helper_abs multiplier)
      else time_neg (helper_mul (time_abs tv) (helper_abs multiplier)))"

definition time_div :: "Time \<Rightarrow> 32 word \<Rightarrow> Time" where
  "time_div tv divisor =
     (if (tv_sec tv < 0) = (divisor <s 0)
      then helper_div (time_abs tv) (helper_abs divisor)
      else time_neg (helper_div (time_abs tv) (helper_abs divisor)))"

section \<open>Order, printed and packed form\<close>

definition time_eq :: "Time \<Rightarrow> Time \<Rightarrow> bool" where
  "time_eq tv1 tv2 \<longleftrightarrow> tv_sec tv1 = tv_sec tv2 \<and> tv_usec tv1 = tv_usec tv2"

definition time_less :: "Time \<Rightarrow> Time \<Rightarrow> bool" where
  "time_less tv1 tv2 \<longleftrightarrow>
     tv_sec tv1 < tv_sec tv2 \<or> tv_sec tv1 = tv_sec tv2 \<and> tv_usec tv1 < tv_usec tv2"

definition time_less_eq :: "Time \<Rightarrow> Time \<Rightarrow> bool" where
  "time_less_eq tv1 tv2 \<longleftrightarrow> \<not> time_less tv2 tv1"

record Print =
  sign :: int
  integer_part :: int
  fractional_part :: int

definition time_print :: "Time \<Rightarrow> Print" where
  "time_print tv =
     (if tv_sec tv > 0 then \<lparr>sign = 1, integer_part = tv_sec tv, fractional_part = tv_usec tv\<rparr>
      else if tv_sec tv \<noteq> 0 then
        (if tv_usec tv \<noteq> 0
         then \<lparr>sign = -1, integer_part = - tv_sec tv - 1, fractional_part = USEC_MAX - tv_usec tv\<rparr>
         else \<lparr>sign = -1, integer_part = - tv_sec tv, fractional_part = 0\<rparr>)
      else if tv_usec tv \<noteq> 0
      then \<lparr>sign = 1, integer_part = 0, fractional_part = tv_usec tv\<rparr>
      else \<lparr>sign = 0, integer_part = 0, fractional_part = 0\<rparr>)"

definition microseconds :: "Time \<Rightarrow> int" where
  "microseconds tv = tv_sec tv * USEC_MAX + tv_usec tv"

definition time_pack :: "Time \<Rightarrow> 32 word list" where
  "time_pack tv = [word_of_int (tv_sec tv), word_of_int (tv_usec tv)]"

definition time_unpack :: "32 word list \<Rightarrow> Time" where
  "time_unpack buf = Time (sint (buf ! 0)) (sint (buf ! 1))"

text \<open>The 64 bit value that \<^verbatim>\<open>hash_add\<close> feeds to the hash.\<close>

definition time_hash_value :: "Time \<Rightarrow> 64 word" where
  "time_hash_value key = push_bit 24 (word_of_int (tv_sec key)) OR word_of_int (tv_usec key)"

section \<open>Timers\<close>

text \<open>\<open>now\<close> is what the clock of the timer shows at the call.\<close>

record GeneralTimer =
  tmr_started :: bool
  tmr_start :: Time
  tmr_stop :: Time

definition timer_create :: GeneralTimer where
  "timer_create = \<lparr>tmr_started = False, tmr_start = time_zero, tmr_stop = time_zero\<rparr>"

definition timer_start :: "Time \<Rightarrow> GeneralTimer \<Rightarrow> GeneralTimer" where
  "timer_start now t = t\<lparr>tmr_started := True, tmr_start := now\<rparr>"

definition timer_stop :: "Time \<Rightarrow> GeneralTimer \<Rightarrow> GeneralTimer" where
  "timer_stop now t = (if tmr_started t then t\<lparr>tmr_stop := now, tmr_started := False\<rparr> else t)"

definition elapsed_time :: "GeneralTimer \<Rightarrow> Time" where
  "elapsed_time t = time_sub (tmr_stop t) (tmr_start t)"

definition timer_stop_set :: "Time \<Rightarrow> GeneralTimer \<Rightarrow> GeneralTimer \<times> Time" where
  "timer_stop_set now t = (let t = timer_stop now t in (t, elapsed_time t))"

definition timer_stop_add :: "Time \<Rightarrow> GeneralTimer \<Rightarrow> Time \<Rightarrow> GeneralTimer \<times> Time" where
  "timer_stop_add now t timeout = (let t = timer_stop now t in (t, time_add timeout (elapsed_time t)))"

text \<open>A \<^verbatim>\<open>TimeMeter\<close> guard that lives from \<open>begin\<close> to \<open>finish\<close>: the value of the time it refers to at the end.\<close>

definition time_meter :: "bool \<Rightarrow> Time \<Rightarrow> Time \<Rightarrow> Time \<Rightarrow> Time" where
  "time_meter ADDITIVE begun finish time =
     (let t = timer_start begun timer_create
      in if ADDITIVE then snd (timer_stop_add finish t time) else snd (timer_stop_set finish t))"

section \<open>Correctness\<close>

text \<open>The invariant the class documents: the microseconds are below a second.\<close>

definition time_ok :: "Time \<Rightarrow> bool" where
  "time_ok tv \<longleftrightarrow> - (2 ^ 63) \<le> tv_sec tv \<and> tv_sec tv < 2 ^ 63 \<and> 0 \<le> tv_usec tv \<and> tv_usec tv < USEC_MAX"

lemmas time_defs = time_ok_def microseconds_def USEC_MAX_def

lemma time_t_eq [simp]: "- (2 ^ 63) \<le> n \<Longrightarrow> n < 2 ^ 63 \<Longrightarrow> time_t n = n"
  unfolding time_t_def by (rule signed_take_bit_int_eq_self) simp_all

lemma time_t_range: "- (2 ^ 63) \<le> time_t n" "time_t n < 2 ^ 63"
  unfolding time_t_def
  using signed_take_bit_int_greater_eq_minus_exp [of 63 n] signed_take_bit_int_less_exp [of 63 n] by simp_all

lemma microseconds_split:
  assumes "time_ok tv"
  shows "microseconds tv div USEC_MAX = tv_sec tv" and "microseconds tv mod USEC_MAX = tv_usec tv"
  using assms by (simp_all add: time_defs)

lemma microseconds_inject:
  "time_ok tv1 \<Longrightarrow> time_ok tv2 \<Longrightarrow> microseconds tv1 = microseconds tv2 \<longleftrightarrow> tv1 = tv2"
  by (metis Time.exhaust_sel microseconds_split)

text \<open>The results keep the invariant in any case; they are exact when their seconds have the width.\<close>

lemma time_neg_ok:
  assumes "time_ok tv"
  shows "time_ok (time_neg tv)" and "- (2 ^ 63) < tv_sec tv \<Longrightarrow> microseconds (time_neg tv) = - microseconds tv"
  using assms time_t_range by (auto simp: time_neg_def time_defs)

lemma time_abs_ok:
  assumes "time_ok tv" and "- (2 ^ 63) < tv_sec tv"
  shows "time_ok (time_abs tv)" and "microseconds (time_abs tv) = \<bar>microseconds tv\<bar>"
    and "0 \<le> tv_sec (time_abs tv)"
proof -
  show "time_ok (time_abs tv)" using assms time_neg_ok(1) by (simp add: time_abs_def)
  show "microseconds (time_abs tv) = \<bar>microseconds tv\<bar>"
    using assms time_neg_ok(2) by (auto simp: time_abs_def time_defs)
  show "0 \<le> tv_sec (time_abs tv)" using assms by (auto simp: time_abs_def time_neg_def time_defs)
qed

lemma time_add_ok:
  assumes "time_ok tv1" and "time_ok tv2"
  shows "time_ok (time_add tv1 tv2)"
    and "\<bar>tv_sec tv1\<bar> \<le> 2 ^ 62 - 1 \<Longrightarrow> \<bar>tv_sec tv2\<bar> \<le> 2 ^ 62 - 1 \<Longrightarrow>
      microseconds (time_add tv1 tv2) = microseconds tv1 + microseconds tv2"
  using assms time_t_range by (auto simp: time_add_def time_defs)

lemma time_sub_ok:
  assumes "time_ok tv1" and "time_ok tv2"
  shows "time_ok (time_sub tv1 tv2)"
    and "\<bar>tv_sec tv1\<bar> \<le> 2 ^ 62 - 1 \<and> \<bar>tv_sec tv2\<bar> \<le> 2 ^ 62 - 1 \<or> 0 \<le> tv_sec tv1 \<and> 0 \<le> tv_sec tv2 \<Longrightarrow>
      microseconds (time_sub tv1 tv2) = microseconds tv1 - microseconds tv2"
  using assms time_t_range by (auto simp: time_sub_def time_defs)

text \<open>The factors: only the least \<^verbatim>\<open>int\<close> has no absolute value.\<close>

lemma sint_int_bounds: "- (2 ^ 31) \<le> sint (n :: 32 word)" "sint (n :: 32 word) < 2 ^ 31"
  using sint_greater_eq [of n] sint_less [of n] by simp_all

lemma helper_abs_ok:
  assumes "sint n \<noteq> - (2 ^ 31)"
  shows "sint (helper_abs n) = \<bar>sint n\<bar>"
proof -
  have "sint (- n) = - sint n"
    using assms sint_int_bounds [of n] by (simp add: sint_word_ariths signed_take_bit_int_eq_self)
  then show ?thesis by (simp add: helper_abs_def word_sless_alt)
qed

lemma helper_mul_ok:
  assumes "time_ok tv" and "0 \<le> sint n"
  shows "time_ok (helper_mul tv n)"
    and "0 \<le> tv_sec tv \<Longrightarrow> microseconds tv * sint n < 2 ^ 63 * USEC_MAX \<Longrightarrow>
      microseconds (helper_mul tv n) = microseconds tv * sint n \<and> 0 \<le> tv_sec (helper_mul tv n)"
proof -
  have u: "0 \<le> tv_usec tv * sint n" using assms by (simp add: time_ok_def)
  then have eq: "tv_usec tv * sint n sdiv USEC_MAX = tv_usec tv * sint n div USEC_MAX"
    "tv_usec tv * sint n smod USEC_MAX = tv_usec tv * sint n mod USEC_MAX"
    by (simp_all add: USEC_MAX_def)
  show "time_ok (helper_mul tv n)"
    using time_t_range by (simp add: helper_mul_def time_ok_def eq) (simp add: USEC_MAX_def)
  assume pos: "0 \<le> tv_sec tv" and less: "microseconds tv * sint n < 2 ^ 63 * USEC_MAX"
  let ?s = "tv_sec tv * sint n + tv_usec tv * sint n div USEC_MAX"
  have split: "microseconds tv * sint n = ?s * USEC_MAX + tv_usec tv * sint n mod USEC_MAX"
    by (simp add: microseconds_def USEC_MAX_def algebra_simps)
  have "0 \<le> ?s" using pos assms(2) u by (simp add: USEC_MAX_def pos_imp_zdiv_nonneg_iff)
  moreover have "0 \<le> tv_usec tv * sint n mod USEC_MAX" by (simp add: USEC_MAX_def)
  then have "?s * USEC_MAX < 2 ^ 63 * USEC_MAX" using less split by linarith
  then have "?s < 2 ^ 63" by (simp add: USEC_MAX_def)
  ultimately show "microseconds (helper_mul tv n) = microseconds tv * sint n \<and> 0 \<le> tv_sec (helper_mul tv n)"
    by (simp add: helper_mul_def eq split) (simp add: microseconds_def)
qed

lemma helper_div_ok:
  assumes "time_ok tv" and "0 \<le> tv_sec tv" and "0 < sint d"
  shows "time_ok (helper_div tv d)" and "microseconds (helper_div tv d) = microseconds tv div sint d"
    and "0 \<le> tv_sec (helper_div tv d)"
proof -
  let ?n = "sint d" let ?r = "tv_sec tv mod ?n * USEC_MAX + tv_usec tv"
  have q: "tv_sec tv sdiv ?n = tv_sec tv div ?n"
    using assms by simp
  have r: "0 \<le> ?r" using assms by (simp add: time_defs)
  have range: "0 \<le> tv_sec tv div ?n" "tv_sec tv div ?n < 2 ^ 63"
    using assms zdiv_mono2 [of "tv_sec tv" 1 ?n] by (simp_all add: pos_imp_zdiv_nonneg_iff time_ok_def)
  then have sec: "tv_sec (helper_div tv d) = tv_sec tv div ?n" and usec: "tv_usec (helper_div tv d) = ?r div ?n"
    using assms q r by (simp_all add: helper_div_def minus_div_mult_eq_mod)
  show "0 \<le> tv_sec (helper_div tv d)" using range sec by simp
  have "tv_sec tv mod ?n \<le> ?n - 1" using assms(3) by simp
  then have "tv_sec tv mod ?n * USEC_MAX \<le> (?n - 1) * USEC_MAX" by (simp add: USEC_MAX_def)
  then have "?r < USEC_MAX * ?n" using assms(1) by (simp add: time_defs)
  moreover have "?r div ?n * ?n \<le> ?r" using assms(3) by (simp add: minus_mod_eq_div_mult [symmetric])
  ultimately have "?r div ?n * ?n < USEC_MAX * ?n" by (rule le_less_trans [rotated])
  then have "?r div ?n < USEC_MAX" using assms(3) by (simp only: mult_less_cancel_right)
  moreover have "0 \<le> ?r div ?n" using r assms(3) by (simp add: pos_imp_zdiv_nonneg_iff)
  ultimately show "time_ok (helper_div tv d)" using range by (simp add: time_ok_def usec sec)
  have "microseconds tv = ?r + ?n * (tv_sec tv div ?n * USEC_MAX)"
    unfolding microseconds_def by (metis (no_types, lifting) add.assoc add.commute distrib_right
        mod_mult_div_eq mult.assoc)
  then have "microseconds tv div ?n = ?r div ?n + tv_sec tv div ?n * USEC_MAX"
    using assms(3) by simp
  then show "microseconds (helper_div tv d) = microseconds tv div ?n"
    by (simp add: microseconds_def sec usec)
qed

lemma time_mul_ok:
  assumes "time_ok tv" and "- (2 ^ 63) < tv_sec tv" and "sint n \<noteq> - (2 ^ 31)"
  shows "time_ok (time_mul tv n)"
    and "\<bar>microseconds tv * sint n\<bar> < 2 ^ 63 * USEC_MAX \<Longrightarrow> microseconds (time_mul tv n) = microseconds tv * sint n"
proof -
  note abs = time_abs_ok [OF assms(1,2)] and n = helper_abs_ok [OF assms(3)]
  have pos: "0 \<le> sint (helper_abs n)" by (simp add: n)
  have neg: "microseconds tv < 0 \<longleftrightarrow> tv_sec tv < 0" using assms by (auto simp: time_defs)
  note ok = helper_mul_ok [OF abs(1) pos]
  show "time_ok (time_mul tv n)"
    using ok time_neg_ok(1) by (simp add: time_mul_def)
  assume "\<bar>microseconds tv * sint n\<bar> < 2 ^ 63 * USEC_MAX"
  then have m: "microseconds (helper_mul (time_abs tv) (helper_abs n)) = \<bar>microseconds tv * sint n\<bar>"
    "0 \<le> tv_sec (helper_mul (time_abs tv) (helper_abs n))"
    using ok(2) abs(2,3) by (simp_all add: n abs_mult)
  have "\<bar>microseconds tv * sint n\<bar> = (if (tv_sec tv < 0) = (sint n < 0) then 1 else -1) * (microseconds tv * sint n)"
    using neg by (auto simp: abs_if mult_less_0_iff zero_less_mult_iff not_less)
  with m ok(1) show "microseconds (time_mul tv n) = microseconds tv * sint n"
    using assms by (auto simp: time_mul_def time_neg_ok word_sless_alt)
qed

lemma time_div_ok:
  assumes "time_ok tv" and "- (2 ^ 63) < tv_sec tv" and "d \<noteq> 0" and "sint d \<noteq> - (2 ^ 31)"
  shows "time_ok (time_div tv d)" and "microseconds (time_div tv d) = microseconds tv sdiv sint d"
proof -
  note abs = time_abs_ok [OF assms(1,2)] and n = helper_abs_ok [OF assms(4)]
  have d: "0 < sint (helper_abs d)" using assms(3) by (simp add: n signed_eq_0_iff)
  note ok = helper_div_ok [OF abs(1,3) d]
  show "time_ok (time_div tv d)"
    using ok time_neg_ok(1) by (simp add: time_div_def)
  have "microseconds tv < 0 \<longleftrightarrow> tv_sec tv < 0" using assms(1) by (auto simp: time_defs)
  then have "microseconds tv sdiv sint d =
      (if (tv_sec tv < 0) = (sint d < 0) then 1 else -1) * (\<bar>microseconds tv\<bar> div \<bar>sint d\<bar>)"
    using assms(3) by (auto simp: signed_divide_int_def sgn_if abs_if)
  with ok n abs(2) show "microseconds (time_div tv d) = microseconds tv sdiv sint d"
    using assms(1) by (auto simp: time_div_def time_neg_ok word_sless_alt)
qed

lemma time_less_microseconds:
  "time_ok tv1 \<Longrightarrow> time_ok tv2 \<Longrightarrow> time_less tv1 tv2 \<longleftrightarrow> microseconds tv1 < microseconds tv2"
  by (cases rule: linorder_cases [of "tv_sec tv1" "tv_sec tv2"]) (auto simp: time_less_def time_defs)

text \<open>The comparison operators make time a linear order, so the library's sorting applies to it.\<close>

instantiation Time :: linorder
begin

definition less_Time :: "Time \<Rightarrow> Time \<Rightarrow> bool" where
  "less_Time tv1 tv2 = time_less tv1 tv2"

definition less_eq_Time :: "Time \<Rightarrow> Time \<Rightarrow> bool" where
  "less_eq_Time tv1 tv2 = time_less_eq tv1 tv2"

instance
proof
  fix x y z :: Time
  show "x < y \<longleftrightarrow> x \<le> y \<and> \<not> y \<le> x"
    by (auto simp: less_Time_def less_eq_Time_def time_less_eq_def time_less_def)
  show "x \<le> x" by (simp add: less_eq_Time_def time_less_eq_def time_less_def)
  show "x \<le> y \<Longrightarrow> y \<le> z \<Longrightarrow> x \<le> z"
    by (auto simp: less_eq_Time_def time_less_eq_def time_less_def)
  show "x \<le> y \<Longrightarrow> y \<le> x \<Longrightarrow> x = y"
    by (cases x; cases y) (auto simp: less_eq_Time_def time_less_eq_def time_less_def)
  show "x \<le> y \<or> y \<le> x"
    by (auto simp: less_eq_Time_def time_less_eq_def time_less_def)
qed

end

lemma time_print_ok:
  assumes "time_ok tv" and "p = time_print tv"
  shows "sign p = sgn (microseconds tv)" and "0 \<le> integer_part p"
    and "0 \<le> fractional_part p" and "fractional_part p < USEC_MAX"
    and "sign p * (integer_part p * USEC_MAX + fractional_part p) = microseconds tv"
  using assms
  by (cases rule: linorder_cases [of "tv_sec tv" 0]; auto simp: time_print_def time_defs sgn_if)+

lemma time_meter_measures:
  assumes "time_ok begun" and "time_ok finish" and "0 \<le> tv_sec begun" and "0 \<le> tv_sec finish"
  shows "microseconds (time_meter False begun finish time) = microseconds finish - microseconds begun"
    and "time_meter True begun finish time = time_add time (time_meter False begun finish time)"
  using assms
  by (simp_all add: time_meter_def timer_stop_set_def timer_stop_add_def timer_stop_def timer_start_def
      elapsed_time_def time_sub_ok)

text \<open>
  C10: The operators of \<^verbatim>\<open>Time\<close> keep the documented invariant (the microseconds are between zero and
  \<^verbatim>\<open>USEC_MAX\<close>) and are the exact operations on the total number of microseconds, at the widths of the
  C types: for seconds below two to the 62 in magnitude, factors other than the least \<^verbatim>\<open>int\<close> (whose
  absolute value overflows), a divisor other than zero, and, for the product, a result whose
  seconds fit into 63 bits.  The division rounds towards zero, as the division of C does.
\<close>

theorem time_arithmetic_refines:
  assumes "time_ok tv1" and "time_ok tv2" and "\<bar>tv_sec tv1\<bar> < 2 ^ 62" and "\<bar>tv_sec tv2\<bar> < 2 ^ 62"
    and "sint n \<noteq> - (2 ^ 31)" and "\<bar>microseconds tv1 * sint n\<bar> < 2 ^ 63 * USEC_MAX"
    and "sint d \<noteq> - (2 ^ 31)" and "d \<noteq> 0"
  shows "time_ok (time_neg tv1) \<and> microseconds (time_neg tv1) = - microseconds tv1 \<and>
    time_ok (time_abs tv1) \<and> microseconds (time_abs tv1) = \<bar>microseconds tv1\<bar> \<and>
    time_ok (time_add tv1 tv2) \<and> microseconds (time_add tv1 tv2) = microseconds tv1 + microseconds tv2 \<and>
    time_ok (time_sub tv1 tv2) \<and> microseconds (time_sub tv1 tv2) = microseconds tv1 - microseconds tv2 \<and>
    time_ok (time_mul tv1 n) \<and> microseconds (time_mul tv1 n) = microseconds tv1 * sint n \<and>
    time_ok (time_div tv1 d) \<and> microseconds (time_div tv1 d) = microseconds tv1 sdiv sint d"
proof -
  have "- (2 ^ 63) < tv_sec tv1" using assms(3) by (simp add: abs_if split: if_splits)
  with assms show ?thesis
    by (simp add: time_neg_ok time_abs_ok time_add_ok time_sub_ok time_mul_ok time_div_ok)
qed

theorem time_arithmetic_refines_witness:
  "microseconds (time_mul (Time (-2) 500000) 3) = - 4500000 \<and>
   microseconds (time_div (Time (-2) 500000) (- 2)) = 750000"
proof -
  have "time_ok (Time (-2) 500000)" by (simp add: time_defs)
  from time_arithmetic_refines [OF this this, of 3 "- 2"]
  show ?thesis by (simp add: time_defs signed_divide_int_def)
qed

text \<open>The least \<^verbatim>\<open>int\<close> is its own absolute value, and the sign of a product with it is lost.\<close>

lemma time_mul_least_int:
  "helper_abs (- 2147483648) = - 2147483648" "time_mul (Time 1 0) (- 2147483648) = Time 2147483648 0"
  by (simp_all add: helper_abs_def time_mul_def time_abs_def helper_mul_def time_neg_def USEC_MAX_def word_sless_alt)

text \<open>
  The comparison operators order times by their total microseconds; \<^verbatim>\<open>print\<close> splits a time into
  its sign and its magnitude, with a non-negative integer part and a fraction below a second;
  \<^verbatim>\<open>unpack\<close> gives back every time that \<^verbatim>\<open>pack\<close> wrote whose seconds fit into 32 bits, and one that
  is off by a multiple of two to the 32 seconds otherwise.
\<close>

lemma time_forms_correct:
  assumes "time_ok tv1" and "time_ok tv2"
  shows "(time_less tv1 tv2 \<longleftrightarrow> microseconds tv1 < microseconds tv2) \<and>
    (time_less_eq tv1 tv2 \<longleftrightarrow> microseconds tv1 \<le> microseconds tv2) \<and>
    (time_eq tv1 tv2 \<longleftrightarrow> microseconds tv1 = microseconds tv2) \<and>
    0 \<le> integer_part (time_print tv1) \<and>
    0 \<le> fractional_part (time_print tv1) \<and> fractional_part (time_print tv1) < USEC_MAX \<and>
    sign (time_print tv1) = sgn (microseconds tv1) \<and>
    sign (time_print tv1) * (integer_part (time_print tv1) * USEC_MAX + fractional_part (time_print tv1)) =
      microseconds tv1 \<and>
    time_unpack (time_pack tv1) = Time (signed_take_bit 31 (tv_sec tv1)) (tv_usec tv1)"
proof -
  have "signed_take_bit 31 (tv_usec tv1) = tv_usec tv1"
    using assms(1) by (intro signed_take_bit_int_eq_self) (simp_all add: time_defs)
  moreover have "time_eq tv1 tv2 \<longleftrightarrow> tv1 = tv2" by (cases tv1; cases tv2) (simp add: time_eq_def)
  ultimately show ?thesis
    using assms time_print_ok [OF assms(1) refl]
    by (simp add: time_less_eq_def time_less_microseconds not_less microseconds_inject
        time_pack_def time_unpack_def signed_of_int)
qed

lemma time_forms_correct_example:
  "time_less (Time (-1) 999999) (Time 0 0) \<and>
   time_unpack (time_pack (Time 4294967297 5)) = Time 1 5 \<and>
   time_print (Time (-2) 500000) = \<lparr>sign = -1, integer_part = 1, fractional_part = 500000\<rparr>"
proof -
  have "time_ok (Time (-1) 999999)" "time_ok (Time 0 0)" "time_ok (Time 4294967297 5)"
    by (simp_all add: time_defs)
  from time_forms_correct [OF this(1,2)] time_forms_correct [OF this(3,2)]
  show ?thesis by (simp add: time_defs time_print_def signed_take_bit_eq_take_bit_minus)
qed

end
