(* ===== verification/Gm_Calendar.thy ===== *)
theory Gm_Calendar
  imports Time_Model
begin

text \<open>
  The conversion between seconds since the epoch and split time in \<^verbatim>\<open>src/src/Generics/Time.cpp\<close>
  (\<^verbatim>\<open>gm_to_time\<close>, \<^verbatim>\<open>time_to_gm\<close>) and the part of \<^verbatim>\<open>ExtendedTime\<close> that rests on it.  The local time
  zone is known to the system's \<^verbatim>\<open>localtime_r\<close> and \<^verbatim>\<open>mktime\<close> alone; they are parameters of the
  operations that call them.  The fields of a split time are an \<^verbatim>\<open>int\<close> of 32 bits: \<open>c_int\<close> cuts what is
  computed in that type or stored in a field to it, where it may not fit.
\<close>

section \<open>Split time\<close>

record tm =
  tm_sec :: int
  tm_min :: int
  tm_hour :: int
  tm_mday :: int
  tm_mon :: int
  tm_year :: int
  tm_wday :: int
  tm_yday :: int
  tm_isdst :: int
  tm_gmtoff :: int

definition c_int :: "int \<Rightarrow> int" where
  "c_int n = signed_take_bit 31 n"

definition tm_zero :: tm where
  "tm_zero = \<lparr>tm_sec = 0, tm_min = 0, tm_hour = 0, tm_mday = 0, tm_mon = 0, tm_year = 0, tm_wday = 0,
     tm_yday = 0, tm_isdst = 0, tm_gmtoff = 0\<rparr>"

definition DAYS :: "int list list" where
  "DAYS = [[0, 31, 59, 90, 120, 151, 181, 212, 243, 273, 304, 334],
           [0, 31, 60, 91, 121, 152, 182, 213, 244, 274, 305, 335]]"

text \<open>A boolean as an index of the first dimension of \<open>DAYS\<close>; \<^verbatim>\<open>YEARS & 3\<close> is the remainder modulo four.\<close>

definition gm_to_time :: "'a tm_scheme \<Rightarrow> int" where
  "gm_to_time et =
     (let YEARS = c_int (tm_year et - 70)
      in (YEARS * 365 + (YEARS + 1) sdiv 4 +
            DAYS ! of_bool (YEARS AND 3 = 2) ! nat (tm_mon et) + tm_mday et - 1) * 86400 +
         c_int (tm_hour et * 3600) + c_int (tm_min et * 60) + tm_sec et)"

text \<open>The years since the epoch, the day of the year and the leap flag of the day \<open>time\<close>.\<close>

definition gm_year :: "int \<Rightarrow> int \<times> int \<times> nat" where
  "gm_year time =
     (let years = time sdiv (4 * 365 + 1) * 4; time = time smod (4 * 365 + 1)
      in if time \<ge> 365 then
           (if time \<ge> 365 * 2 then
              (if time \<ge> 365 * 3 + 1 then (years + 3, time - (365 * 3 + 1), 0)
               else (years + 2, time - 365 * 2, 1))
            else (years + 1, time - 365, 0))
         else (years, time, 0))"

text \<open>\<^verbatim>\<open>std::lower_bound\<close> counts the entries behind the first one that are less than the day.\<close>

definition gm_month :: "nat \<Rightarrow> int \<Rightarrow> nat" where
  "gm_month leap time = length (takeWhile (\<lambda>d. d < time) (tl (DAYS ! leap)))"

definition time_to_gm :: "int \<Rightarrow> 'a tm_scheme \<Rightarrow> 'a tm_scheme" where
  "time_to_gm time et =
     (let s = time smod 60; time = time sdiv 60;
          mi = time smod 60; time = time sdiv 60;
          h = time smod 24; time = time sdiv 24;
          (years, yday, leap) = gm_year time;
          MONTH = gm_month leap (yday + 1)
      in et\<lparr>tm_sec := s, tm_min := mi, tm_hour := h, tm_mday := yday + 1 - DAYS ! leap ! MONTH,
            tm_mon := int MONTH, tm_year := c_int (years + 70), tm_wday := (time + 4) smod 7, tm_yday := yday,
            tm_isdst := 0, tm_gmtoff := 0\<rparr>)"

section \<open>Extended time\<close>

datatype TimeZone = TZ_GMT | TZ_LOCAL

record ExtendedTime = tm +
  tm_usec :: int
  timezone :: TimeZone

definition et_zero :: ExtendedTime where
  "et_zero = tm.extend tm_zero \<lparr>tm_usec = 0, timezone = TZ_GMT\<rparr>"

definition et_of_tm :: "tm \<Rightarrow> int \<Rightarrow> TimeZone \<Rightarrow> ExtendedTime" where
  "et_of_tm time usec tz = tm.extend time \<lparr>tm_usec = usec, timezone = tz\<rparr>"

definition et_of_time :: "(int \<Rightarrow> tm option) \<Rightarrow> int \<Rightarrow> int \<Rightarrow> TimeZone \<Rightarrow> ExtendedTime result" where
  "et_of_time localtime_r sec usec tz =
     (case tz of
        TZ_GMT \<Rightarrow> Inr (et_of_tm (time_to_gm sec tm_zero) usec tz)
      | TZ_LOCAL \<Rightarrow>
          (case localtime_r sec of
             None \<Rightarrow> Inl (TimeException ''localtime_r failed'')
           | Some t \<Rightarrow> Inr (et_of_tm t usec tz)))"

definition et_of_date :: "int \<Rightarrow> int \<Rightarrow> int \<Rightarrow> int \<Rightarrow> int \<Rightarrow> int \<Rightarrow> int \<Rightarrow> ExtendedTime" where
  "et_of_date year month day hour mi s usec =
     (let et = et_zero\<lparr>tm_year := year - 1900, tm_mon := month - 1, tm_mday := day, tm_hour := hour,
                       tm_min := mi, tm_sec := s, tm_usec := usec, timezone := TZ_GMT\<rparr>
      in time_to_gm (gm_to_time et) et)"

text \<open>\<open>mktime\<close> returns the seconds (minus one for a failure) and the normalised split time.\<close>

definition et_to_time :: "(tm \<Rightarrow> int \<times> tm) \<Rightarrow> ExtendedTime \<Rightarrow> Time" where
  "et_to_time mktime et =
     Time (case timezone et of TZ_LOCAL \<Rightarrow> fst (mktime (tm.truncate et)) | TZ_GMT \<Rightarrow> gm_to_time et)
       (tm_usec et)"

definition et_normalize :: "(tm \<Rightarrow> int \<times> tm) \<Rightarrow> ExtendedTime \<Rightarrow> ExtendedTime result" where
  "et_normalize mktime et =
     (case timezone et of
        TZ_GMT \<Rightarrow> Inr (time_to_gm (gm_to_time et) et)
      | TZ_LOCAL \<Rightarrow>
          (let (res, t) = mktime (tm.truncate et)
           in if res = -1 then Inl (TimeException ''can't normalize.'')
              else Inr (et_of_tm t (tm_usec et) (timezone et))))"

definition et_get_time :: "ExtendedTime \<Rightarrow> ExtendedTime" where
  "et_get_time et = et\<lparr>tm_mday := 0, tm_mon := 0, tm_wday := 0, tm_yday := 0, tm_year := 0\<rparr>"

definition et_set_time :: "ExtendedTime \<Rightarrow> ExtendedTime \<Rightarrow> ExtendedTime" where
  "et_set_time time et =
     et\<lparr>tm_hour := tm_hour time, tm_min := tm_min time, tm_sec := tm_sec time, tm_usec := tm_usec time\<rparr>"

definition et_get_date :: "ExtendedTime \<Rightarrow> ExtendedTime" where
  "et_get_date et = et\<lparr>tm_hour := 0, tm_min := 0, tm_sec := 0, tm_usec := 0\<rparr>"

definition et_set_date :: "ExtendedTime \<Rightarrow> ExtendedTime \<Rightarrow> ExtendedTime" where
  "et_set_date time et = et\<lparr>tm_mday := tm_mday time, tm_mon := tm_mon time, tm_year := tm_year time\<rparr>"

definition get_time :: "(int \<Rightarrow> tm option) \<Rightarrow> Time \<Rightarrow> TimeZone \<Rightarrow> ExtendedTime result" where
  "get_time localtime_r t tz = et_of_time localtime_r (tv_sec t) (tv_usec t) tz"

definition get_gm_time :: "Time \<Rightarrow> ExtendedTime" where
  "get_gm_time t = et_of_tm (time_to_gm (tv_sec t) tm_zero) (tv_usec t) TZ_GMT"

definition tm_compare :: "tm \<Rightarrow> tm \<Rightarrow> int" where
  "tm_compare t1 t2 =
     (let diff = tm_year t1 - tm_year t2;
          diff = (if diff = 0 then tm_mon t1 - tm_mon t2 else diff);
          diff = (if diff = 0 then tm_mday t1 - tm_mday t2 else diff);
          diff = (if diff = 0 then tm_hour t1 - tm_hour t2 else diff);
          diff = (if diff = 0 then tm_min t1 - tm_min t2 else diff);
          diff = (if diff = 0 then tm_sec t1 - tm_sec t2 else diff)
      in diff)"

section \<open>Correctness\<close>

lemma c_int_eq [simp]: "- (2 ^ 31) \<le> n \<Longrightarrow> n < 2 ^ 31 \<Longrightarrow> c_int n = n"
  unfolding c_int_def by (rule signed_take_bit_int_eq_self) simp_all

subsection \<open>Years\<close>

text \<open>The first day of a year, counted from the epoch in years and days.\<close>

definition year_start :: "int \<Rightarrow> int" where
  "year_start y = y * 365 + (y + 1) div 4"

definition leap_index :: "int \<Rightarrow> nat" where
  "leap_index y = of_bool (y mod 4 = 2)"

lemma and_3_mod: "y AND 3 = y mod 4" for y :: int
  using take_bit_eq_mask [of 2 y] by (simp add: take_bit_eq_mod mask_eq_exp_minus_1)

lemma gm_year_start:
  assumes "0 \<le> y" and "0 \<le> yd" and "yd < 365 + int (leap_index y)"
  shows "gm_year (year_start y + yd) = (y, yd, leap_index y)"
proof -
  define c k where "c = y div 4" and "k = y mod 4"
  have y: "y = 4 * c + k" and k: "k = 0 \<or> k = 1 \<or> k = 2 \<or> k = 3" and c: "0 \<le> c"
    using assms(1) by (auto simp: c_def k_def)
  have l: "leap_index y = of_bool (k = 2)" by (simp add: leap_index_def k_def)
  define off where "off = year_start y - c * 1461"
  have off: "off = (if k = 3 then 1096 else k * 365)"
    using k unfolding off_def year_start_def y by auto
  define r where "r = off + yd"
  have r: "0 \<le> r" "r < 1461" using k assms(2,3) by (auto simp: r_def off l)
  have s: "year_start y + yd = c * 1461 + r" by (simp add: r_def off_def)
  have "(c * 1461 + r) div 1461 = c" "(c * 1461 + r) mod 1461 = r" using r by auto
  moreover have "0 \<le> c * 1461 + r" using c r by simp
  ultimately have "gm_year (year_start y + yd) =
      (if r \<ge> 365 then
         (if r \<ge> 365 * 2 then
            (if r \<ge> 365 * 3 + 1 then (c * 4 + 3, r - (365 * 3 + 1), 0) else (c * 4 + 2, r - 365 * 2, 1))
          else (c * 4 + 1, r - 365, 0))
       else (c * 4, r, 0))"
    unfolding s gm_year_def by simp
  also have "\<dots> = (y, yd, leap_index y)"
    using k y assms(2,3) unfolding l by (auto simp: r_def off)
  finally show ?thesis .
qed

lemma gm_year_split:
  assumes "0 \<le> time"
  obtains y yd where "0 \<le> y" "0 \<le> yd" "yd < 365 + int (leap_index y)" "time = year_start y + yd"
proof -
  obtain y yd leap where g: "gm_year time = (y, yd, leap)" by (metis prod_cases3)
  define r where "r = time mod 1461"
  have r: "0 \<le> r" "r < 1461" and c: "0 \<le> time div 1461" using assms by (auto simp: r_def pos_imp_zdiv_nonneg_iff)
  have t: "time = time div 1461 * 1461 + r" by (simp add: r_def)
  have "gm_year time =
      (if r \<ge> 365 then
         (if r \<ge> 365 * 2 then
            (if r \<ge> 365 * 3 + 1 then (time div 1461 * 4 + 3, r - (365 * 3 + 1), 0)
             else (time div 1461 * 4 + 2, r - 365 * 2, 1))
          else (time div 1461 * 4 + 1, r - 365, 0))
       else (time div 1461 * 4, r, 0))"
    using assms by (simp add: gm_year_def r_def)
  then have "0 \<le> y" "0 \<le> yd" "yd < 365 + int (leap_index y)" "time = year_start y + yd"
    using g r c t by (auto simp: year_start_def leap_index_def split: if_splits)
  then show ?thesis by (rule that)
qed

subsection \<open>Months\<close>

definition month_lengths :: "nat \<Rightarrow> int list" where
  "month_lengths leap = [31, 28 + int leap, 31, 30, 31, 30, 31, 31, 30, 31, 30, 31]"

lemma less_12_cases:
  assumes "(m :: nat) < 12"
  obtains "m = 0" | "m = 1" | "m = 2" | "m = 3" | "m = 4" | "m = 5" | "m = 6" | "m = 7" | "m = 8"
    | "m = 9" | "m = 10" | "m = 11"
  using assms by (auto simp: less_Suc_eq numeral_eq_Suc)

lemma gm_month_unique:
  assumes "m < 12" and "leap < 2" and "0 \<le> d" and "d < month_lengths leap ! m"
  shows "gm_month leap (DAYS ! leap ! m + d + 1) = m"
proof -
  have "leap = 0 \<or> leap = 1" using assms(2) by auto
  then show ?thesis
    using assms(3,4)
    by (cases rule: less_12_cases [OF assms(1)]) (auto simp: gm_month_def DAYS_def month_lengths_def)
qed

lemma DAYS_bound:
  assumes "m < 12" and "leap < 2" and "0 \<le> d" and "d < month_lengths leap ! m"
  shows "0 \<le> DAYS ! leap ! m + d" and "DAYS ! leap ! m + d < 365 + int leap"
proof -
  have "leap = 0 \<or> leap = 1" using assms(2) by auto
  then show "0 \<le> DAYS ! leap ! m + d" "DAYS ! leap ! m + d < 365 + int leap"
    using assms(3,4)
    by (cases rule: less_12_cases [OF assms(1)]; auto simp: DAYS_def month_lengths_def)+
qed

lemma gm_month_split:
  assumes "leap < 2" and "0 \<le> yd" and "yd < 365 + int leap"
  obtains m d where "m < 12" "0 \<le> d" "d < month_lengths leap ! m" "yd = DAYS ! leap ! m + d"
proof -
  let ?m = "length (takeWhile (\<lambda>e. e \<le> yd) (tl (DAYS ! leap)))"
  have leap: "leap = 0 \<or> leap = 1" using assms(1) by auto
  have "?m < 12 \<and> DAYS ! leap ! ?m \<le> yd \<and> yd < DAYS ! leap ! ?m + month_lengths leap ! ?m"
    using leap assms(2,3) by (auto simp: DAYS_def month_lengths_def)
  then show ?thesis by (intro that [of ?m "yd - DAYS ! leap ! ?m"]) auto
qed

subsection \<open>Dates\<close>

text \<open>A split time with all its fields in range, in a year from 1970 on that the field can hold.\<close>

definition tm_valid :: "'a tm_scheme \<Rightarrow> bool" where
  "tm_valid et \<longleftrightarrow>
     0 \<le> tm_sec et \<and> tm_sec et < 60 \<and> 0 \<le> tm_min et \<and> tm_min et < 60 \<and>
     0 \<le> tm_hour et \<and> tm_hour et < 24 \<and> 70 \<le> tm_year et \<and> tm_year et < 2 ^ 31 \<and> 0 \<le> tm_mon et \<and> tm_mon et < 12 \<and>
     1 \<le> tm_mday et \<and>
     tm_mday et \<le> month_lengths (leap_index (tm_year et - 70)) ! nat (tm_mon et)"

definition tm_day :: "'a tm_scheme \<Rightarrow> int" where
  "tm_day et = year_start (tm_year et - 70) +
     DAYS ! leap_index (tm_year et - 70) ! nat (tm_mon et) + tm_mday et - 1"

lemma leap_index_less: "leap_index y < 2"
  by (simp add: leap_index_def)

lemma tm_valid_day:
  assumes "tm_valid et"
  shows "gm_to_time et = ((tm_day et * 24 + tm_hour et) * 60 + tm_min et) * 60 + tm_sec et"
    and "gm_year (tm_day et) = (tm_year et - 70, tm_day et - year_start (tm_year et - 70),
      leap_index (tm_year et - 70))"
    and "gm_month (leap_index (tm_year et - 70)) (tm_day et - year_start (tm_year et - 70) + 1) =
      nat (tm_mon et)"
    and "0 \<le> tm_day et"
proof -
  let ?y = "tm_year et - 70" and ?m = "nat (tm_mon et)" and ?d = "tm_mday et - 1"
  have v: "0 \<le> ?y" "?m < 12" "0 \<le> ?d" "?d < month_lengths (leap_index ?y) ! ?m"
    using assms by (auto simp: tm_valid_def)
  have yd: "tm_day et = year_start ?y + (DAYS ! leap_index ?y ! ?m + ?d)" by (simp add: tm_day_def)
  note b = DAYS_bound [OF v(2) leap_index_less v(3,4)]
  have "(?y + 1) sdiv 4 = (?y + 1) div 4" using v(1) by simp
  moreover have cut: "c_int ?y = ?y" "c_int (tm_hour et * 3600) = tm_hour et * 3600" "c_int (tm_min et * 60) = tm_min et * 60"
    using assms by (simp_all add: tm_valid_def)
  ultimately show "gm_to_time et = ((tm_day et * 24 + tm_hour et) * 60 + tm_min et) * 60 + tm_sec et"
    unfolding gm_to_time_def cut
    by (simp add: tm_day_def year_start_def leap_index_def and_3_mod Let_def algebra_simps)
  show "gm_year (tm_day et) = (?y, tm_day et - year_start ?y, leap_index ?y)"
    unfolding yd using gm_year_start [OF v(1) b] by simp
  show "gm_month (leap_index ?y) (tm_day et - year_start ?y + 1) = ?m"
    unfolding yd using gm_month_unique [OF v(2) leap_index_less v(3,4)] by (simp add: algebra_simps)
  have "0 \<le> year_start ?y" using v(1) by (simp add: year_start_def pos_imp_zdiv_nonneg_iff)
  with b(1) show "0 \<le> tm_day et" unfolding yd by simp
qed

lemma sdiv_digit:
  fixes q b r :: int
  assumes "0 \<le> q" "0 \<le> r" "r < b"
  shows "(q * b + r) sdiv b = q" "(q * b + r) smod b = r"
  using assms by simp_all

lemma time_to_gm_digits:
  assumes "0 \<le> s" "s < 60" "0 \<le> mi" "mi < 60" "0 \<le> h" "h < 24" "0 \<le> d"
    and "gm_year d = (y, yd, leap)"
  shows "time_to_gm (((d * 24 + h) * 60 + mi) * 60 + s) et' =
    et'\<lparr>tm_sec := s, tm_min := mi, tm_hour := h,
        tm_mday := yd + 1 - DAYS ! leap ! gm_month leap (yd + 1), tm_mon := int (gm_month leap (yd + 1)),
        tm_year := c_int (y + 70), tm_wday := (d + 4) mod 7, tm_yday := yd, tm_isdst := 0, tm_gmtoff := 0\<rparr>"
proof -
  define t2 where "t2 = d * 24 + h"
  define t1 where "t1 = t2 * 60 + mi"
  have n: "0 \<le> t2" "0 \<le> t1" using assms by (simp_all add: t1_def t2_def)
  have w: "(d + 4) smod 7 = (d + 4) mod 7" using assms(7) by simp
  note step = sdiv_digit [OF assms(7,5,6), folded t2_def] sdiv_digit [OF n(1) assms(3,4), folded t1_def]
    sdiv_digit [OF n(2) assms(1,2)]
  show ?thesis
    unfolding time_to_gm_def t2_def [symmetric] t1_def [symmetric] Let_def step w
    by (simp only: assms(8) prod.case)
qed

lemma time_to_gm_eq:
  assumes "tm_valid et" and "time = gm_to_time et"
  shows "time_to_gm time et' =
    et'\<lparr>tm_sec := tm_sec et, tm_min := tm_min et, tm_hour := tm_hour et, tm_mday := tm_mday et,
        tm_mon := tm_mon et, tm_year := tm_year et, tm_wday := (tm_day et + 4) mod 7,
        tm_yday := tm_day et - year_start (tm_year et - 70), tm_isdst := 0, tm_gmtoff := 0\<rparr>"
proof -
  note d = tm_valid_day [OF assms(1)]
  have r: "0 \<le> tm_sec et" "tm_sec et < 60" "0 \<le> tm_min et" "tm_min et < 60" "0 \<le> tm_hour et"
    "tm_hour et < 24" "0 \<le> tm_mon et" "c_int (tm_year et - 70 + 70) = tm_year et"
    using assms(1) by (simp_all add: tm_valid_def)
  have "tm_day et - year_start (tm_year et - 70) + 1 -
      DAYS ! leap_index (tm_year et - 70) ! nat (tm_mon et) = tm_mday et" by (simp add: tm_day_def)
  then show ?thesis
    unfolding assms(2) d(1) time_to_gm_digits [OF r(1-6) d(4,2)] d(3) r(8) using r(7) by simp
qed

text \<open>The end of the last year whose number the field can hold, in seconds since the epoch.\<close>

definition gm_end :: int where
  "gm_end = year_start (2 ^ 31 - 70) * 86400"

lemma gm_end_value: "gm_end = 67769427761049600"
  by (simp add: gm_end_def year_start_def)

lemma time_valid_exists:
  assumes "0 \<le> time" and "time < gm_end"
  obtains et :: tm where "tm_valid et" "gm_to_time et = time"
proof -
  let ?day = "time div 60 div 60 div 24"
  have day: "0 \<le> ?day" "?day < year_start (2 ^ 31 - 70)"
    using assms by (simp_all add: pos_imp_zdiv_nonneg_iff gm_end_def zdiv_zmult2_eq [symmetric] div_less_iff_less_mult)
  from day(1) obtain y yd where y: "0 \<le> y" "0 \<le> yd" "yd < 365 + int (leap_index y)" "?day = year_start y + yd"
    by (rule gm_year_split)
  obtain m d where m: "m < 12" "0 \<le> d" "d < month_lengths (leap_index y) ! m"
      "yd = DAYS ! leap_index y ! m + d"
    using gm_month_split [OF leap_index_less y(2,3)] .
  define et where "et = tm_zero\<lparr>tm_sec := time mod 60, tm_min := time div 60 mod 60,
      tm_hour := time div 60 div 60 mod 24, tm_year := y + 70, tm_mon := int m, tm_mday := d + 1\<rparr>"
  have "year_start (2 ^ 31 - 70) \<le> year_start y" if "2 ^ 31 - 70 \<le> y"
    using that zdiv_mono1 [of "2 ^ 31 - 70 + 1" "y + 1" 4] by (simp add: year_start_def)
  then have "y < 2 ^ 31 - 70" using day(2) y(2,4) by linarith
  then have v: "tm_valid et" using y(1) m(1-3) by (simp add: tm_valid_def et_def)
  have clock: "tm_sec et = time mod 60" "tm_min et = time div 60 mod 60"
    "tm_hour et = time div 60 div 60 mod 24" by (simp_all add: et_def)
  have "tm_day et = ?day" using y(4) m(4) by (simp add: tm_day_def et_def)
  then have "gm_to_time et = time"
    unfolding tm_valid_day(1) [OF v] by (simp only: clock div_mult_mod_eq)
  with v show ?thesis by (rule that)
qed

lemma time_to_gm_valid:
  assumes "0 \<le> time" and "time < gm_end"
  shows "tm_valid (time_to_gm time et)" and "gm_to_time (time_to_gm time et) = time"
proof -
  obtain e :: tm where e: "tm_valid e" "gm_to_time e = time" using assms by (rule time_valid_exists)
  note eq = time_to_gm_eq [OF e(1) e(2) [symmetric], of et]
  show "tm_valid (time_to_gm time et)" using e(1) by (simp add: eq tm_valid_def)
  have "gm_to_time (time_to_gm time et) = gm_to_time e" by (simp add: eq gm_to_time_def)
  with e(2) show "gm_to_time (time_to_gm time et) = time" by simp
qed

subsection \<open>The Gregorian calendar\<close>

definition gregorian_leap :: "int \<Rightarrow> bool" where
  "gregorian_leap y \<longleftrightarrow> 4 dvd y \<and> (\<not> 100 dvd y \<or> 400 dvd y)"

text \<open>The days from the epoch to the start of the year \<open>1970 + n\<close>, summed up year by year.\<close>

fun gregorian_year_start :: "nat \<Rightarrow> int" where
  "gregorian_year_start 0 = 0"
| "gregorian_year_start (Suc n) =
     gregorian_year_start n + (if gregorian_leap (1970 + int n) then 366 else 365)"

text \<open>The day of a date: year, month from zero on, day of the month.\<close>

definition gregorian_day :: "int \<Rightarrow> int \<Rightarrow> int \<Rightarrow> int" where
  "gregorian_day y m d =
     gregorian_year_start (nat (y - 1970)) +
     sum_list (take (nat m) (month_lengths (of_bool (gregorian_leap y)))) + d - 1"

lemma gregorian_leap_century:
  assumes "0 \<le> n" and "n < 130"
  shows "gregorian_leap (1970 + n) \<longleftrightarrow> n mod 4 = 2"
proof -
  have "n = 30" if "100 dvd 1970 + n"
  proof -
    from that obtain k where k: "1970 + n = 100 * k" by (elim dvdE)
    with assms have "k = 20" by linarith
    with k show ?thesis by simp
  qed
  then have "\<not> 100 dvd 1970 + n \<or> 400 dvd 1970 + n" by (cases "n = 30") (simp, blast)
  moreover have "4 dvd 1970 + n \<longleftrightarrow> n mod 4 = 2" by presburger
  ultimately show ?thesis unfolding gregorian_leap_def by simp
qed

lemma gregorian_year_start_eq: "n \<le> 130 \<Longrightarrow> gregorian_year_start n = year_start (int n)"
proof (induction n)
  case 0
  show ?case by (simp add: year_start_def)
next
  case (Suc n)
  have "(int n + 2) div 4 = (int n + 1) div 4 + (if int n mod 4 = 2 then 1 else 0)" by presburger
  with Suc show ?case
    using gregorian_leap_century [of "int n"] by (simp add: year_start_def algebra_simps)
qed

lemma DAYS_sum:
  assumes "m < 12" and "leap < 2"
  shows "DAYS ! leap ! m = sum_list (take m (month_lengths leap))"
proof -
  have "leap = 0 \<or> leap = 1" using assms(2) by auto
  then show ?thesis
    by (cases rule: less_12_cases [OF assms(1)]) (auto simp: DAYS_def month_lengths_def)
qed

lemma tm_valid_gregorian:
  assumes "tm_valid et" and "tm_day et < 47482"
  shows "gregorian_day (tm_year et + 1900) (tm_mon et) (tm_mday et) = tm_day et"
    and "leap_index (tm_year et - 70) = of_bool (gregorian_leap (tm_year et + 1900))"
proof -
  let ?y = "tm_year et - 70" and ?m = "nat (tm_mon et)"
  have v: "0 \<le> ?y" "?m < 12" "1 \<le> tm_mday et" "tm_mday et \<le> month_lengths (leap_index ?y) ! ?m"
    using assms(1) by (auto simp: tm_valid_def)
  have "0 \<le> DAYS ! leap_index ?y ! ?m + (tm_mday et - 1)"
    using v by (intro DAYS_bound) (simp_all add: leap_index_less)
  then have "year_start ?y < 47482" using assms(2) by (simp add: tm_day_def)
  moreover have "47482 \<le> year_start ?y" if "130 \<le> ?y"
    using that zdiv_mono1 [of 131 "?y + 1" 4] by (simp add: year_start_def)
  ultimately have y: "?y < 130" by linarith
  show leap: "leap_index ?y = of_bool (gregorian_leap (tm_year et + 1900))"
    using gregorian_leap_century [OF v(1) y] by (simp add: leap_index_def add.commute)
  show "gregorian_day (tm_year et + 1900) (tm_mon et) (tm_mday et) = tm_day et"
    using gregorian_year_start_eq [of "nat ?y"] y v(1) DAYS_sum [OF v(2) leap_index_less [of ?y]]
    by (simp add: gregorian_day_def tm_day_def leap)
qed

section \<open>Properties\<close>

text \<open>
  C11: \<^verbatim>\<open>time_to_gm\<close> and \<^verbatim>\<open>gm_to_time\<close> are inverse to each other: every time from the epoch to the end
  of the last year that the \<^verbatim>\<open>int\<close> field of the year can hold is split into fields in their ranges
  that \<^verbatim>\<open>gm_to_time\<close> joins to it again, and every split time with its fields in range, in a year
  from 1970 on, is found again from its seconds, with the day of the week and of the year filled in.
\<close>

theorem gm_time_roundtrip:
  assumes "0 \<le> time" and "time < gm_end" and "tm_valid et"
  shows "tm_valid (time_to_gm time et) \<and> gm_to_time (time_to_gm time et) = time \<and>
    time_to_gm (gm_to_time et) et =
      et\<lparr>tm_wday := (tm_day et + 4) mod 7, tm_yday := tm_day et - year_start (tm_year et - 70),
         tm_isdst := 0, tm_gmtoff := 0\<rparr>"
  using time_to_gm_valid [OF assms(1,2), of et] time_to_gm_eq [OF assms(3) refl, of et] by simp

theorem gm_time_roundtrip_witness:
  "gm_to_time (time_to_gm 1330516799 tm_zero) = 1330516799 \<and>
   gm_to_time (tm_zero\<lparr>tm_year := 112, tm_mon := 1, tm_mday := 29, tm_hour := 11, tm_min := 59,
     tm_sec := 59\<rparr>) = 1330516799"
proof -
  let ?et = "tm_zero\<lparr>tm_year := 112, tm_mon := 1, tm_mday := 29, tm_hour := 11, tm_min := 59, tm_sec := 59\<rparr>"
  have "tm_valid ?et" by (simp add: tm_valid_def tm_zero_def month_lengths_def leap_index_def)
  then have "gm_to_time (time_to_gm 1330516799 ?et) = 1330516799"
    using gm_time_roundtrip [of 1330516799 ?et] by (simp add: gm_end_value)
  moreover have "gm_to_time ?et = 1330516799"
    by (simp add: gm_to_time_def tm_zero_def DAYS_def)
  moreover have "gm_to_time (time_to_gm 1330516799 tm_zero) = gm_to_time (time_to_gm 1330516799 ?et)"
    by (simp add: gm_to_time_def time_to_gm_def gm_year_def Let_def)
  ultimately show ?thesis by simp
qed

text \<open>
  C12: For every time from the epoch to the end of the year 2099 the split time is the date of the
  Gregorian calendar: its day number, counted year by year with the Gregorian leap years, is
  the number of whole days passed, the day of the month is within the Gregorian month, and the
  day of the week counts from the Thursday of the epoch.
\<close>

theorem gm_calendar_gregorian:
  assumes "0 \<le> time" and "time < 4102444800" and "et = time_to_gm time et0"
  shows "gregorian_day (tm_year et + 1900) (tm_mon et) (tm_mday et) = time div 86400 \<and>
    0 \<le> tm_mon et \<and> tm_mon et < 12 \<and> 1 \<le> tm_mday et \<and>
    tm_mday et \<le> month_lengths (of_bool (gregorian_leap (tm_year et + 1900))) ! nat (tm_mon et) \<and>
    (tm_hour et * 60 + tm_min et) * 60 + tm_sec et = time mod 86400 \<and>
    tm_wday et = (time div 86400 + 4) mod 7"
proof -
  have v: "tm_valid et" and g: "gm_to_time et = time"
    using time_to_gm_valid [OF assms(1), of et0] assms(2,3) by (simp_all add: gm_end_value)
  define clock where "clock = (tm_hour et * 60 + tm_min et) * 60 + tm_sec et"
  have c: "0 \<le> clock" "clock < 86400" using v by (simp_all add: tm_valid_def clock_def)
  have t: "time = tm_day et * 86400 + clock"
    using tm_valid_day(1) [OF v] g by (simp add: clock_def)
  then have d: "time div 86400 = tm_day et" "time mod 86400 = clock" using c by simp_all
  have "tm_day et < 47482" using assms(2) t c by simp
  note greg = tm_valid_gregorian [OF v this]
  have "tm_wday (time_to_gm time et0) = (tm_day et + 4) mod 7"
    using time_to_gm_eq [OF v g [symmetric], of et0] by simp
  then show ?thesis
    using v greg d assms(3) by (simp add: tm_valid_def clock_def)
qed

theorem gm_calendar_gregorian_witness:
  "gregorian_day 2012 1 29 = 1330516799 div 86400 \<and> tm_wday (time_to_gm 1330516799 tm_zero) = 3"
proof -
  have f: "tm_year (time_to_gm 1330516799 tm_zero) = 112" "tm_mon (time_to_gm 1330516799 tm_zero) = 1"
    "tm_mday (time_to_gm 1330516799 tm_zero) = 29"
    by (simp_all add: time_to_gm_def gm_year_def gm_month_def DAYS_def Let_def)
  from gm_calendar_gregorian [of 1330516799, OF _ _ refl, of tm_zero]
  show ?thesis by (simp add: f)
qed

text \<open>
  The limit is sharp: the code takes 2100 for a leap year, so the first of March 2100 is split
  into a 29th of February.
\<close>

lemma gm_calendar_2100:
  "let et = time_to_gm 4107542400 tm_zero
   in tm_year et = 200 \<and> tm_mon et = 1 \<and> tm_mday et = 29 \<and> \<not> gregorian_leap 2100"
  by (simp add: time_to_gm_def gm_year_def gm_month_def DAYS_def Let_def gregorian_leap_def)

text \<open>
  One second behind the last year of the field the year is negative; before the epoch the remainders
  of C are negative, and the fields leave their ranges.
\<close>

lemma gm_calendar_int_year: "time_to_gm gm_end tm_zero = tm_zero\<lparr>tm_mday := 1, tm_year := - (2 ^ 31), tm_wday := 6\<rparr>"
  by (simp add: gm_end_value time_to_gm_def gm_year_def gm_month_def DAYS_def Let_def tm_zero_def c_int_def
      signed_take_bit_eq_take_bit_minus)

lemma gm_calendar_before_epoch: "tm_sec (time_to_gm (-1) tm_zero) = -1"
  by (simp add: time_to_gm_def gm_year_def Let_def split: prod.splits)

end
