(* ===== verification/Time_Format.thy ===== *)
theory Time_Format
  imports Gm_Calendar Int_To_Str
begin

text \<open>
  Formatting and parsing of times in \<^verbatim>\<open>src/src/Generics/Time.cpp\<close> and \<^verbatim>\<open>Time.hpp\<close>:
  \<^verbatim>\<open>ExtendedTime::to_str_\<close>, \<^verbatim>\<open>ExtendedTime::from_str_\<close>, their helpers, \<^verbatim>\<open>format\<close>, \<^verbatim>\<open>Time::set\<close> and the
  lookups of month and day names.  A format is the list of the characters before its
  terminator.
\<close>

section \<open>Names\<close>

definition DAY_NAMES :: "Caseless list" where
  "DAY_NAMES = map (\<lambda>s. \<lparr>caseless_str = chars s\<rparr>)
     [''Sun'', ''Mon'', ''Tue'', ''Wed'', ''Thu'', ''Fri'', ''Sat'']"

definition DAY_NAMES_FULL :: "Caseless list" where
  "DAY_NAMES_FULL = map (\<lambda>s. \<lparr>caseless_str = chars s\<rparr>)
     [''Sunday'', ''Monday'', ''Tuesday'', ''Wednesday'', ''Thursday'', ''Friday'', ''Saturday'']"

definition MONTH_NAMES :: "Caseless list" where
  "MONTH_NAMES = map (\<lambda>s. \<lparr>caseless_str = chars s\<rparr>)
     [''Jan'', ''Feb'', ''Mar'', ''Apr'', ''May'', ''Jun'', ''Jul'', ''Aug'', ''Sep'', ''Oct'', ''Nov'', ''Dec'']"

definition MONTH_NAMES_FULL :: "Caseless list" where
  "MONTH_NAMES_FULL = map (\<lambda>s. \<lparr>caseless_str = chars s\<rparr>)
     [''January'', ''February'', ''March'', ''April'', ''May'', ''June'', ''July'', ''August'',
      ''September'', ''October'', ''November'', ''December'']"

text \<open>The loop over the names: the index of the first one that equals the text up to case.\<close>

fun month_loop :: "Caseless list \<Rightarrow> bytes \<Rightarrow> nat \<Rightarrow> nat option" where
  "month_loop [] mon i = None"
| "month_loop (c # cs) mon i = (if caseless_equal c mon then Some i else month_loop cs mon (Suc i))"

definition month_index :: "bytes \<Rightarrow> nat result" where
  "month_index mon =
     (if mon = [] then Inl (InvalidArgument ''empty month specified'')
      else case month_loop MONTH_NAMES mon 0 of
        Some i \<Rightarrow> Inr i
      | None \<Rightarrow> Inl (InvalidArgument ''invalid month specified''))"

definition month_name :: "nat \<Rightarrow> bytes result" where
  "month_name month =
     (if month > 11 then Inl (InvalidArgument ''invalid month specified'')
      else Inr (caseless_str (MONTH_NAMES ! month)))"

fun week_day_loop :: "(Caseless \<times> Caseless) list \<Rightarrow> bytes \<Rightarrow> nat \<Rightarrow> nat option" where
  "week_day_loop [] day i = None"
| "week_day_loop ((c, f) # cs) day i =
     (if caseless_equal c day \<or> caseless_equal f day then Some i else week_day_loop cs day (Suc i))"

definition week_day_index :: "bytes \<Rightarrow> nat result" where
  "week_day_index day =
     (if day = [] then Inl (InvalidArgument ''empty day specified'')
      else case week_day_loop (zip DAY_NAMES DAY_NAMES_FULL) day 0 of
        Some i \<Rightarrow> Inr i
      | None \<Rightarrow> Inl (InvalidArgument ''invalid day specified''))"

definition week_day_name :: "nat \<Rightarrow> bytes result" where
  "week_day_name day =
     (if day > 6 then Inl (InvalidArgument ''invalid day specified'')
      else Inr (caseless_str (DAY_NAMES ! day)))"

section \<open>Parsing\<close>

text \<open>A name found at the start of the text is cut off.\<close>

definition check_name :: "bytes \<Rightarrow> Caseless \<Rightarrow> bytes option" where
  "check_name src cl =
     (if caseless_start cl src then Some (drop (length (caseless_str cl)) src) else None)"

definition check_names :: "bytes \<Rightarrow> Caseless \<Rightarrow> Caseless \<Rightarrow> bytes option" where
  "check_names src cl1 cl2 =
     (case check_name src cl1 of Some rest \<Rightarrow> Some rest | None \<Rightarrow> check_name src cl2)"

fun find_name :: "(Caseless \<times> Caseless) list \<Rightarrow> nat \<Rightarrow> bytes \<Rightarrow> (nat \<times> bytes) option" where
  "find_name [] i src = None"
| "find_name ((full, short) # names) i src =
     (case check_names src full short of
        Some rest \<Rightarrow> Some (i, rest)
      | None \<Rightarrow> find_name names (Suc i) src)"

text \<open>
  The loop reads at least one character; \<open>left\<close> never exceeds the characters that are there,
  so the test of the next character is within the text.
\<close>

fun read_number_loop :: "nat \<Rightarrow> int \<Rightarrow> bytes \<Rightarrow> int \<times> bytes \<times> nat" where
  "read_number_loop left number [] = (number, [], left)"
| "read_number_loop left number (c # src) =
     (let number = number * 10 + (int (unat c) - 48); left = left - 1
      in if left \<noteq> 0 \<and> src \<noteq> [] \<and> NUMBER (hd src) then read_number_loop left number src
         else (number, src, left))"

definition read_number :: "nat \<Rightarrow> bytes \<Rightarrow> bool \<Rightarrow> (int \<times> bytes) option" where
  "read_number SIZE src strict =
     (if src = [] \<or> \<not> NUMBER (hd src) \<or> strict \<and> length src < SIZE then None
      else let (number, rest, left) = read_number_loop (min SIZE (length src)) 0 src
        in if \<not> strict \<or> left = 0 then Some (number, rest) else None)"

text \<open>A number that is stored if it passes the check, and an error otherwise.\<close>

definition parse_number ::
  "nat \<Rightarrow> bytes \<Rightarrow> bool \<Rightarrow> (int \<Rightarrow> bool) \<Rightarrow> string \<Rightarrow> (int \<Rightarrow> ExtendedTime) \<Rightarrow> (bytes \<times> ExtendedTime) result" where
  "parse_number SIZE v strict ok err store =
     (case read_number SIZE v strict of
        Some (n, rest) \<Rightarrow> if ok n then Inr (rest, store n) else Inl (TimeException err)
      | None \<Rightarrow> Inl (TimeException err))"

definition from_str_spec :: "bool \<Rightarrow> byte \<Rightarrow> bytes \<Rightarrow> ExtendedTime \<Rightarrow> (bytes \<times> ExtendedTime) result" where
  "from_str_spec strict c v et =
     (if c = ch CHR ''%'' then
        (if v = [] \<or> hd v \<noteq> ch CHR ''%'' then Inl (TimeException ''% sign is expected but not found'')
         else Inr (tl v, et))
      else if c = ch CHR ''a'' \<or> c = ch CHR ''A'' then
        (case find_name (zip DAY_NAMES_FULL DAY_NAMES) 0 v of
           None \<Rightarrow> Inl (TimeException ''weekday name is expected but not found'')
         | Some (wd, rest) \<Rightarrow> Inr (rest, et))
      else if c = ch CHR ''b'' \<or> c = ch CHR ''B'' \<or> c = ch CHR ''h'' then
        (case find_name (zip MONTH_NAMES_FULL MONTH_NAMES) 0 v of
           None \<Rightarrow> Inl (TimeException ''month name is expected but not found'')
         | Some (m, rest) \<Rightarrow> Inr (rest, et\<lparr>tm_mon := int m\<rparr>))
      else if c = ch CHR ''d'' \<or> c = ch CHR ''e'' then
        parse_number 2 v strict (\<lambda>n. \<not> (n < 1 \<or> n > 31)) ''day of month expected but not found''
          (\<lambda>n. et\<lparr>tm_mday := n\<rparr>)
      else if c = ch CHR ''H'' then
        parse_number 2 v strict (\<lambda>n. \<not> n > 23) ''hours expected but not found'' (\<lambda>n. et\<lparr>tm_hour := n\<rparr>)
      else if c = ch CHR ''m'' then
        parse_number 2 v strict (\<lambda>n. \<not> (n < 1 \<or> n > 12)) ''month number expected but not found''
          (\<lambda>n. et\<lparr>tm_mon := n - 1\<rparr>)
      else if c = ch CHR ''M'' then
        parse_number 2 v strict (\<lambda>n. \<not> n > 59) ''minutes expected but not found'' (\<lambda>n. et\<lparr>tm_min := n\<rparr>)
      else if c = ch CHR ''q'' then
        parse_number 6 v strict (\<lambda>n. \<not> n \<ge> USEC_MAX) ''microseconds expected but not found''
          (\<lambda>n. et\<lparr>tm_usec := n\<rparr>)
      else if c = ch CHR ''S'' then
        parse_number 2 v strict (\<lambda>n. \<not> n > 59) ''seconds expected but not found'' (\<lambda>n. et\<lparr>tm_sec := n\<rparr>)
      else if c = ch CHR ''Y'' then
        parse_number 4 v strict (\<lambda>n. \<not> n < 1970) ''year expected but not found''
          (\<lambda>n. et\<lparr>tm_year := n - 1900\<rparr>)
      else Inl (TimeException ''unknown format specifier''))"

text \<open>The loop over the format; a percent sign at its end makes the terminator the specifier.\<close>

fun from_str :: "bool \<Rightarrow> bytes \<Rightarrow> bytes \<Rightarrow> ExtendedTime \<Rightarrow> ExtendedTime result" where
  "from_str strict [] v et = Inr et"
| "from_str strict (f # format) v et =
     (if f = ch CHR ''%'' then
        (case format of
           [] \<Rightarrow> Inl (TimeException ''unknown format specifier'')
         | c # format' \<Rightarrow> rbind (from_str_spec strict c v et) (\<lambda>(v, et). from_str strict format' v et))
      else if \<not> strict \<and> SPACE f then from_str strict format (dropWhile SPACE v) et
      else if v = [] \<or> hd v \<noteq> f then Inl (TimeException ''character is expected but not found'')
      else from_str strict format (tl v) et)"

text \<open>What follows the part of the text that matches the format is not looked at.\<close>

definition time_set :: "bytes \<Rightarrow> bytes option \<Rightarrow> bool \<Rightarrow> Time result" where
  "time_set value fmt strict =
     (case fmt of
        None \<Rightarrow> Inl (InvalidArgument ''format is NULL.'')
      | Some format \<Rightarrow>
          rmap (\<lambda>time. Time (gm_to_time time) (tm_usec time))
            (from_str strict format value (et_of_tm (time_to_gm 0 tm_zero) 0 TZ_GMT)))"

definition time_set_f :: "bytes \<Rightarrow> bool \<Rightarrow> Time result" where
  "time_set_f value strict = time_set value (Some (chars ''%Y-%m-%d'')) strict"

definition time_set_ft :: "bytes \<Rightarrow> bool \<Rightarrow> Time result" where
  "time_set_ft value strict = time_set value (Some (chars ''%Y-%m-%d %H:%M:%S'')) strict"

section \<open>Formatting\<close>

text \<open>\<^verbatim>\<open>add_num<SIZE>\<close>: the last \<open>SIZE\<close> decimal digits, filled in from the last to the first.\<close>

fun num_digits_loop :: "nat \<Rightarrow> int \<Rightarrow> bytes \<Rightarrow> bytes" where
  "num_digits_loop 0 number buf = buf"
| "num_digits_loop (Suc i) number buf =
     num_digits_loop i (number sdiv 10) (word_of_int (number smod 10 + 48) # buf)"

definition num_digits :: "nat \<Rightarrow> int \<Rightarrow> bytes" where
  "num_digits SIZE number = num_digits_loop SIZE number []"

definition CANNOT_FORMAT :: error where
  "CANNOT_FORMAT = TimeException ''can't format time''"

text \<open>
  \<open>acc\<close> is the text written so far.  A result of zero of the code is \<open>CANNOT_FORMAT\<close>; a name
  looked up outside its table is \<open>OutOfBounds\<close>.
\<close>

definition add_str :: "nat \<Rightarrow> bytes \<Rightarrow> bytes \<Rightarrow> bytes result" where
  "add_str len acc src = (if length acc + length src > len then Inl CANNOT_FORMAT else Inr (acc @ src))"

definition name_at :: "Caseless list \<Rightarrow> int \<Rightarrow> bytes result" where
  "name_at names i =
     (if 0 \<le> i \<and> i < int (length names) then Inr (caseless_str (names ! nat i)) else Inl OutOfBounds)"

definition C_INT :: int_type where
  "C_INT = \<lparr>it_signed = True, it_bits = 32\<rparr>"

definition C_LONG :: int_type where
  "C_LONG = \<lparr>it_signed = True, it_bits = 64\<rparr>"

definition add_num :: "nat \<Rightarrow> bytes \<Rightarrow> int_type \<Rightarrow> int \<Rightarrow> bytes result" where
  "add_num len acc T number =
     (let ns = int_to_str T number 64
      in if ns = [] then Inl CANNOT_FORMAT else add_str len acc ns)"

text \<open>The offset of the local time zone as \<^verbatim>\<open>%z\<close> prints it.\<close>

definition add_zone :: "(tm \<Rightarrow> int \<times> tm) \<Rightarrow> ExtendedTime \<Rightarrow> nat \<Rightarrow> bytes \<Rightarrow> bytes result" where
  "add_zone mktime et len acc =
     (if timezone et = TZ_GMT then add_str len acc (chars ''+0000'')
      else let (res, tmp) = mktime (tm.truncate et)
        in if res = -1 then Inl CANNOT_FORMAT
           else let diff = tm_gmtoff tmp;
                    SIGN = (if diff < 0 then ch CHR ''-'' else ch CHR ''+'');
                    diff = (if diff < 0 then - diff else diff) sdiv 60
             in rbind (add_str len acc [SIGN]) (\<lambda>acc.
                  add_str len acc (num_digits 4 (diff sdiv 60 * 100 + diff smod 60))))"

text \<open>All specifiers but \<^verbatim>\<open>%F\<close> and \<^verbatim>\<open>%T\<close>.\<close>

definition to_str_spec :: "(tm \<Rightarrow> int \<times> tm) \<Rightarrow> ExtendedTime \<Rightarrow> nat \<Rightarrow> bytes \<Rightarrow> byte \<Rightarrow> bytes result" where
  "to_str_spec mktime et len acc c =
     (if c = ch CHR ''%'' then
        (if len = length acc then Inl CANNOT_FORMAT else Inr (acc @ [ch CHR ''%'']))
      else if c = ch CHR ''a'' then rbind (name_at DAY_NAMES (tm_wday et)) (add_str len acc)
      else if c = ch CHR ''A'' then rbind (name_at DAY_NAMES_FULL (tm_wday et)) (add_str len acc)
      else if c = ch CHR ''b'' \<or> c = ch CHR ''h'' then rbind (name_at MONTH_NAMES (tm_mon et)) (add_str len acc)
      else if c = ch CHR ''B'' then rbind (name_at MONTH_NAMES_FULL (tm_mon et)) (add_str len acc)
      else if c = ch CHR ''d'' then add_str len acc (num_digits 2 (tm_mday et))
      else if c = ch CHR ''e'' then
        (let t = tm_mday et sdiv 10
         in add_str len acc [if t \<noteq> 0 then word_of_int (t + 48) else ch CHR '' '',
              word_of_int (tm_mday et smod 10 + 48)])
      else if c = ch CHR ''H'' then add_str len acc (num_digits 2 (tm_hour et))
      else if c = ch CHR ''k'' then add_num len acc C_INT (tm_hour et)
      else if c = ch CHR ''m'' then add_str len acc (num_digits 2 (tm_mon et + 1))
      else if c = ch CHR ''M'' then add_str len acc (num_digits 2 (tm_min et))
      else if c = ch CHR ''q'' then add_str len acc (num_digits 6 (tm_usec et))
      else if c = ch CHR ''s'' then add_num len acc C_LONG (tv_sec (et_to_time mktime et))
      else if c = ch CHR ''S'' then add_str len acc (num_digits 2 (tm_sec et))
      else if c = ch CHR ''Y'' then add_str len acc (num_digits 4 (tm_year et + 1900))
      else if c = ch CHR ''z'' then add_zone mktime et len acc
      else Inl CANNOT_FORMAT)"

text \<open>
  The loop over the format.  \<^verbatim>\<open>%F\<close> and \<^verbatim>\<open>%T\<close> call the function again with a fixed format on the
  space that is left; the weight of a format counts these two letters high enough for that.
\<close>

definition format_weight :: "bytes \<Rightarrow> nat" where
  "format_weight fmt = sum_list (map (\<lambda>c. if c = ch CHR ''F'' \<or> c = ch CHR ''T'' then 20 else 1) fmt)"

lemma format_weight_simps [simp]:
  "format_weight [] = 0"
  "format_weight (c # fmt) = (if c = ch CHR ''F'' \<or> c = ch CHR ''T'' then 20 else 1) + format_weight fmt"
  by (simp_all add: format_weight_def)

function to_str_loop :: "(tm \<Rightarrow> int \<times> tm) \<Rightarrow> ExtendedTime \<Rightarrow> nat \<Rightarrow> bytes \<Rightarrow> bytes \<Rightarrow> bytes result" where
  "to_str_loop mktime et len acc [] = Inr acc"
| "to_str_loop mktime et len acc [f] =
     (if f = ch CHR ''%'' then Inl CANNOT_FORMAT
      else if len = length acc then Inl CANNOT_FORMAT
      else to_str_loop mktime et len (acc @ [f]) [])"
| "to_str_loop mktime et len acc (f # c # format) =
     (if f = ch CHR ''%'' then
        (if c = ch CHR ''F'' \<or> c = ch CHR ''T'' then
           rbind (to_str_loop mktime et (len - length acc) []
               (if c = ch CHR ''F'' then chars ''%Y-%m-%d'' else chars ''%H:%M:%S'')) (\<lambda>res.
             if res = [] then Inl CANNOT_FORMAT
             else to_str_loop mktime et len (acc @ res) format)
         else rbind (to_str_spec mktime et len acc c) (\<lambda>acc. to_str_loop mktime et len acc format))
      else if len = length acc then Inl CANNOT_FORMAT
      else to_str_loop mktime et len (acc @ [f]) (c # format))"
  by pat_completeness auto
termination
  by (relation "measure (\<lambda>(mktime, et, len, acc, fmt). format_weight fmt)") auto

definition et_format :: "(tm \<Rightarrow> int \<times> tm) \<Rightarrow> ExtendedTime \<Rightarrow> bytes option \<Rightarrow> bytes result" where
  "et_format mktime et fmt =
     (case fmt of
        None \<Rightarrow> Inl (InvalidArgument ''format argument is NULL'')
      | Some fmt \<Rightarrow>
          rbind (to_str_loop mktime et 256 [] fmt) (\<lambda>str.
            if str = [] then Inl CANNOT_FORMAT else Inr str))"

definition gm_f :: "(tm \<Rightarrow> int \<times> tm) \<Rightarrow> Time \<Rightarrow> bytes result" where
  "gm_f mktime t = et_format mktime (get_gm_time t) (Some (chars ''%F''))"

definition gm_ft :: "(tm \<Rightarrow> int \<times> tm) \<Rightarrow> Time \<Rightarrow> bytes result" where
  "gm_ft mktime t = et_format mktime (get_gm_time t) (Some (chars ''%F %T''))"

section \<open>Correctness\<close>

lemma num_digits_loop_append: "num_digits_loop n k buf = num_digits_loop n k [] @ buf"
proof (induction n arbitrary: k buf)
  case (Suc n)
  from Suc [of "k sdiv 10" "word_of_int (k smod 10 + 48) # buf"] Suc [of "k sdiv 10" "[word_of_int (k smod 10 + 48)]"]
  show ?case by simp
qed simp

lemma num_digits_0 [simp]: "num_digits 0 k = []"
  by (simp add: num_digits_def)

lemma num_digits_Suc:
  "num_digits (Suc n) k = num_digits n (k sdiv 10) @ [word_of_int (k smod 10 + 48)]"
  by (simp add: num_digits_def) (rule num_digits_loop_append)

lemma length_num_digits [simp]: "length (num_digits n k) = n"
  by (induction n arbitrary: k) (simp_all add: num_digits_Suc)

lemma digit_char:
  fixes d :: int
  assumes "0 \<le> d" and "d < 10"
  shows "NUMBER (word_of_int d + 48)" and "uint (word_of_int d + 48 :: byte) = d + 48"
proof -
  have "uint (word_of_int (d + 48) :: byte) = (d + 48) mod 256" by (simp only: uint_word_of_int) simp
  then show u: "uint (word_of_int d + 48 :: byte) = d + 48" using assms by simp
  have "(48 :: byte) \<le> word_of_int d + 48" "(word_of_int d + 48 :: byte) \<le> 57"
    unfolding word_le_def u using assms by simp_all
  then show "NUMBER (word_of_int d + 48)" by (simp add: NUMBER_iff)
qed

lemma num_digits_numbers:
  "0 \<le> k \<Longrightarrow> list_all NUMBER (num_digits n k)"
proof (induction n arbitrary: k)
  case (Suc n)
  have "0 \<le> k div 10" using Suc.prems by (simp add: pos_imp_zdiv_nonneg_iff)
  with Suc show ?case by (simp add: num_digits_Suc digit_char)
qed simp

lemma num_digits_value:
  "0 \<le> k \<Longrightarrow> k < 10 ^ n \<Longrightarrow> foldl (\<lambda>a c. a * 10 + (int (unat c) - 48)) 0 (num_digits n k) = k"
proof (induction n arbitrary: k)
  case (Suc n)
  have "0 \<le> k div 10" "k div 10 < 10 ^ n"
    using Suc.prems by (simp_all add: pos_imp_zdiv_nonneg_iff div_less_iff_less_mult)
  with Suc show ?case by (simp add: num_digits_Suc digit_char)
qed simp

lemma read_number_loop_digits:
  "list_all NUMBER ds \<Longrightarrow> ds \<noteq> [] \<Longrightarrow>
   read_number_loop (length ds) a (ds @ rest) = (foldl (\<lambda>a c. a * 10 + (int (unat c) - 48)) a ds, rest, 0)"
proof (induction ds arbitrary: a)
  case (Cons c ds)
  then show ?case by (cases ds) (simp_all add: Let_def)
qed simp

lemma read_number_digits:
  assumes "0 \<le> k" and "k < 10 ^ n" and "0 < n"
  shows "read_number n (num_digits n k @ rest) strict = Some (k, rest)"
proof -
  let ?ds = "num_digits n k"
  have ne: "?ds \<noteq> []" using assms(3) length_num_digits [of n k] by (metis length_0_conv not_gr_zero)
  have num: "list_all NUMBER ?ds" using assms(1) by (rule num_digits_numbers)
  with ne have "NUMBER (hd (?ds @ rest))" by (cases ?ds) simp_all
  moreover have "read_number_loop n 0 (?ds @ rest) = (k, rest, 0)"
    using read_number_loop_digits [OF num ne, of 0 rest] num_digits_value [OF assms(1,2)] by simp
  ultimately show ?thesis using ne by (simp add: read_number_def)
qed

lemma parse_number_digits:
  assumes "0 \<le> k" and "k < 10 ^ n" and "0 < n" and "ok k"
  shows "parse_number n (num_digits n k @ rest) strict ok err store = Inr (rest, store k)"
  using assms by (simp add: parse_number_def read_number_digits)

subsection \<open>Round trip\<close>

text \<open>The fields of a split time that can be printed with four digits for the year.\<close>

definition tm_printable :: "ExtendedTime \<Rightarrow> bool" where
  "tm_printable et \<longleftrightarrow> tm_valid et \<and> tm_year et < 8100"

definition date_text :: "ExtendedTime \<Rightarrow> bytes" where
  "date_text et = num_digits 4 (tm_year et + 1900) @ 0x2D # num_digits 2 (tm_mon et + 1) @
     0x2D # num_digits 2 (tm_mday et)"

definition clock_text :: "ExtendedTime \<Rightarrow> bytes" where
  "clock_text et = num_digits 2 (tm_hour et) @ 0x3A # num_digits 2 (tm_min et) @
     0x3A # num_digits 2 (tm_sec et)"

lemma length_texts [simp]: "length (date_text et) = 10" "length (clock_text et) = 8"
  by (simp_all add: date_text_def clock_text_def)

lemma to_str_date:
  assumes "length acc + 10 \<le> len"
  shows "to_str_loop mktime et len acc (chars ''%Y-%m-%d'' @ fmt) =
    to_str_loop mktime et len (acc @ date_text et) fmt"
  using assms by (cases fmt) (simp_all add: to_str_spec_def add_str_def date_text_def)

lemma to_str_clock:
  assumes "length acc + 8 \<le> len"
  shows "to_str_loop mktime et len acc (chars ''%H:%M:%S'' @ fmt) =
    to_str_loop mktime et len (acc @ clock_text et) fmt"
  using assms by (cases fmt) (simp_all add: to_str_spec_def add_str_def clock_text_def)

lemma month_lengths_le: "m < 12 \<Longrightarrow> leap < 2 \<Longrightarrow> month_lengths leap ! m \<le> 31"
  by (cases rule: less_12_cases [of m]) (auto simp: month_lengths_def)

lemma tm_printable_ranges:
  assumes "tm_printable et"
  shows "1970 \<le> tm_year et + 1900" "tm_year et + 1900 < 10000"
    "1 \<le> tm_mon et + 1" "tm_mon et + 1 \<le> 12" "1 \<le> tm_mday et" "tm_mday et \<le> 31"
    "0 \<le> tm_hour et" "tm_hour et \<le> 23" "0 \<le> tm_min et" "tm_min et \<le> 59"
    "0 \<le> tm_sec et" "tm_sec et \<le> 59"
proof -
  have v: "tm_valid et" using assms by (simp add: tm_printable_def)
  then have "nat (tm_mon et) < 12" by (auto simp: tm_valid_def)
  from month_lengths_le [OF this leap_index_less [of "tm_year et - 70"]] show "tm_mday et \<le> 31"
    using v by (simp add: tm_valid_def)
qed (use assms in \<open>simp_all add: tm_printable_def tm_valid_def\<close>)

lemma from_str_date:
  assumes "tm_printable et"
  shows "from_str strict (chars ''%Y-%m-%d'' @ fmt) (date_text et @ rest) et' =
    from_str strict fmt rest (et'\<lparr>tm_year := tm_year et, tm_mon := tm_mon et, tm_mday := tm_mday et\<rparr>)"
  using tm_printable_ranges [OF assms]
  by (simp add: date_text_def from_str_spec_def parse_number_digits SPACE_iff)

lemma from_str_clock:
  assumes "tm_printable et"
  shows "from_str strict (chars ''%H:%M:%S'' @ fmt) (clock_text et @ rest) et' =
    from_str strict fmt rest (et'\<lparr>tm_hour := tm_hour et, tm_min := tm_min et, tm_sec := tm_sec et\<rparr>)"
  using tm_printable_ranges [OF assms]
  by (simp add: clock_text_def from_str_spec_def parse_number_digits SPACE_iff)

lemma NUMBER_not_SPACE: "NUMBER c \<Longrightarrow> \<not> SPACE c"
  by (auto simp: NUMBER_iff SPACE_iff word_le_nat_alt)

lemma dropWhile_SPACE_clock:
  assumes "tm_printable et"
  shows "dropWhile SPACE (0x20 # clock_text et @ rest) = clock_text et @ rest"
proof -
  have "list_all NUMBER (num_digits 2 (tm_hour et))"
    using tm_printable_ranges [OF assms] by (intro num_digits_numbers)
  moreover obtain c cs where c: "num_digits 2 (tm_hour et) = c # cs"
    using length_num_digits [of 2 "tm_hour et"] by (cases "num_digits 2 (tm_hour et)") auto
  ultimately have "\<not> SPACE c" by (simp add: NUMBER_not_SPACE)
  moreover have "SPACE 0x20" by (simp add: SPACE_iff)
  ultimately show ?thesis using c by (simp add: clock_text_def)
qed

lemma from_str_date_clock:
  assumes "tm_printable et"
  shows "from_str strict (chars ''%Y-%m-%d %H:%M:%S'' @ fmt) (date_text et @ 0x20 # clock_text et @ rest) et' =
      from_str strict fmt rest (et'\<lparr>tm_year := tm_year et, tm_mon := tm_mon et, tm_mday := tm_mday et,
        tm_hour := tm_hour et, tm_min := tm_min et, tm_sec := tm_sec et\<rparr>)"
proof -
  have fmt: "chars ''%Y-%m-%d %H:%M:%S'' @ fmt = chars ''%Y-%m-%d'' @ 0x20 # chars ''%H:%M:%S'' @ fmt" by simp
  have space: "from_str strict (0x20 # f) (0x20 # clock_text et @ rest) e = from_str strict f (clock_text et @ rest) e"
    for f e using dropWhile_SPACE_clock [OF assms, of rest]
    by (simp only: from_str.simps(2)) simp
  show ?thesis
    unfolding fmt from_str_date [OF assms] space from_str_clock [OF assms] ..
qed

lemma to_str_date_clock:
  assumes "19 \<le> len"
  shows "to_str_loop mktime et len [] (chars ''%Y-%m-%d %H:%M:%S'' @ fmt) =
      to_str_loop mktime et len (date_text et @ 0x20 # clock_text et) fmt"
proof -
  have fmt: "chars ''%Y-%m-%d %H:%M:%S'' @ fmt = chars ''%Y-%m-%d'' @ 0x20 # chars ''%H:%M:%S'' @ fmt" by simp
  have c: "length [] + 10 \<le> len" "length (date_text et @ [0x20]) + 8 \<le> len" using assms by simp_all
  have space: "to_str_loop mktime et len (date_text et) (0x20 # chars ''%H:%M:%S'' @ f) =
      to_str_loop mktime et len (date_text et @ [0x20]) (chars ''%H:%M:%S'' @ f)" for f
    using assms by (simp only: chars_simps append_Cons to_str_loop.simps(3)) simp
  show ?thesis
    unfolding fmt to_str_date [OF c(1)] append_Nil space to_str_clock [OF c(2)] by simp
qed

declare to_str_loop.simps [simp del] from_str.simps(2) [simp del]

lemma to_str_nested:
  "to_str_loop mktime et len acc (0x25 # 0x46 # fmt) =
     rbind (to_str_loop mktime et (len - length acc) [] (chars ''%Y-%m-%d'')) (\<lambda>res.
       if res = [] then Inl CANNOT_FORMAT else to_str_loop mktime et len (acc @ res) fmt)"
  "to_str_loop mktime et len acc (0x25 # 0x54 # fmt) =
     rbind (to_str_loop mktime et (len - length acc) [] (chars ''%H:%M:%S'')) (\<lambda>res.
       if res = [] then Inl CANNOT_FORMAT else to_str_loop mktime et len (acc @ res) fmt)"
  "to_str_loop mktime et len acc [] = Inr acc"
  "c \<noteq> 0x25 \<Longrightarrow> length acc \<noteq> len \<Longrightarrow>
     to_str_loop mktime et len acc (c # fmt) = to_str_loop mktime et len (acc @ [c]) fmt"
  by (simp_all add: to_str_loop.simps(3)) (cases fmt; simp add: to_str_loop.simps)+

lemma to_str_F_T:
  assumes "19 \<le> len"
  shows "to_str_loop mktime et len [] (chars ''%F'') = Inr (date_text et)"
    and "to_str_loop mktime et len [] (chars ''%F %T'') = Inr (date_text et @ 0x20 # clock_text et)"
proof -
  have d: "to_str_loop mktime et len [] (chars ''%Y-%m-%d'') = Inr (date_text et)"
    using to_str_date [of "[]" len mktime et "[]"] assms by (simp add: to_str_nested(3))
  have c: "to_str_loop mktime et (len - 11) [] (chars ''%H:%M:%S'') = Inr (clock_text et)"
    using to_str_clock [of "[]" "len - 11" mktime et "[]"] assms by (simp add: to_str_nested(3))
  have ne: "date_text et \<noteq> []" "clock_text et \<noteq> []" by (simp_all add: date_text_def clock_text_def)
  have f: "chars ''%F'' = [0x25, 0x46]" "chars ''%F %T'' = [0x25, 0x46, 0x20, 0x25, 0x54]" by simp_all
  have l: "len - length [] = len" "len - length (([] @ date_text et) @ [0x20]) = len - 11" by simp_all
  show "to_str_loop mktime et len [] (chars ''%F'') = Inr (date_text et)"
    unfolding f to_str_nested(1) l d using ne by (simp add: to_str_nested(3))
  have s: "to_str_loop mktime et len ([] @ date_text et) [0x20, 0x25, 0x54] =
      to_str_loop mktime et len (([] @ date_text et) @ [0x20]) [0x25, 0x54]"
    using assms by (intro to_str_nested(4)) simp_all
  show "to_str_loop mktime et len [] (chars ''%F %T'') = Inr (date_text et @ 0x20 # clock_text et)"
    unfolding f to_str_nested(1) l d rbind_simps s to_str_nested(2) c using ne by (simp add: to_str_nested(3))
qed

lemma get_gm_time_printable:
  assumes "0 \<le> tv_sec t" and "tv_sec t < 253407484800"
  shows "tm_printable (get_gm_time t)"
proof -
  let ?et = "time_to_gm (tv_sec t) tm_zero"
  have v: "tm_valid ?et" and g: "gm_to_time ?et = tv_sec t" using time_to_gm_valid [OF assms(1), of tm_zero] assms(2) by (simp_all add: gm_end_value)
  let ?y = "tm_year ?et - 70" and ?m = "nat (tm_mon ?et)"
  have r: "0 \<le> ?y" "?m < 12" "1 \<le> tm_mday ?et" "tm_mday ?et \<le> month_lengths (leap_index ?y) ! ?m"
    "0 \<le> tm_hour ?et" "0 \<le> tm_min ?et" "0 \<le> tm_sec ?et"
    using v by (auto simp: tm_valid_def)
  have "0 \<le> DAYS ! leap_index ?y ! ?m + (tm_mday ?et - 1)"
    using r by (intro DAYS_bound) (simp_all add: leap_index_less)
  then have "year_start ?y \<le> tm_day ?et" by (simp add: tm_day_def)
  moreover have "tm_day ?et * 86400 < 253407484800"
    using tm_valid_day(1) [OF v] g assms(2) r(5-7) by simp
  ultimately have "year_start ?y < 2932957" by simp
  moreover have "2932957 \<le> year_start ?y" if "8030 \<le> ?y"
    using that zdiv_mono1 [of 8031 "?y + 1" 4] by (simp add: year_start_def)
  ultimately have "?y < 8030" by linarith
  with v show ?thesis
    by (simp add: tm_printable_def get_gm_time_def et_of_tm_def tm_valid_def tm.defs)
qed

lemma epoch_fields:
  "time_to_gm 0 tm_zero = tm_zero\<lparr>tm_mday := 1, tm_year := 70, tm_wday := 4\<rparr>"
  by (simp add: time_to_gm_def gm_year_def gm_month_def DAYS_def Let_def tm_zero_def)

lemma gm_to_time_get_gm_time:
  assumes "0 \<le> tv_sec t" and "tv_sec t < gm_end"
  shows "gm_to_time (get_gm_time t) = tv_sec t"
proof -
  have "gm_to_time (get_gm_time t) = gm_to_time (time_to_gm (tv_sec t) tm_zero)"
    by (simp add: get_gm_time_def et_of_tm_def gm_to_time_def tm.defs)
  with assms show ?thesis by (simp add: time_to_gm_valid)
qed

lemma date_start:
  assumes "tm_valid et" and "gm_to_time et = time"
  shows "gm_to_time (et\<lparr>tm_hour := 0, tm_min := 0, tm_sec := 0\<rparr>) = time div 86400 * 86400"
proof -
  have v: "tm_valid (et\<lparr>tm_hour := 0, tm_min := 0, tm_sec := 0\<rparr>)" using assms(1) by (simp add: tm_valid_def)
  have "gm_to_time (et\<lparr>tm_hour := 0, tm_min := 0, tm_sec := 0\<rparr>) = tm_day et * 86400"
    unfolding tm_valid_day(1) [OF v] by (simp add: tm_day_def)
  moreover define clock where "clock = (tm_hour et * 60 + tm_min et) * 60 + tm_sec et"
  have "0 \<le> clock" "clock < 86400" using assms(1) by (simp_all add: tm_valid_def clock_def)
  moreover have "time = tm_day et * 86400 + clock"
    using tm_valid_day(1) [OF assms(1)] assms(2) by (simp add: clock_def)
  ultimately show ?thesis by simp
qed

lemma time_set_fields:
  assumes "from_str strict fmt v (et_of_tm (time_to_gm 0 tm_zero) 0 TZ_GMT) = Inr et"
  shows "time_set v (Some fmt) strict = Inr (Time (gm_to_time et) (tm_usec et))"
  using assms by (simp add: time_set_def)

subsection \<open>Ranges\<close>

lemma NUMBER_value: "NUMBER c \<Longrightarrow> 0 \<le> uint c - 48 \<and> uint c - 48 < 10"
  by (simp add: NUMBER_iff word_le_def)

lemma read_number_loop_bounds:
  "read_number_loop left a v = (k, rest, left') \<Longrightarrow> 0 < left \<Longrightarrow> v \<noteq> [] \<Longrightarrow> NUMBER (hd v) \<Longrightarrow>
   0 \<le> a \<Longrightarrow> a < 10 ^ j \<Longrightarrow> 0 \<le> k \<and> k < 10 ^ (j + left)"
proof (induction left a v arbitrary: j rule: read_number_loop.induct)
  case (2 left number c src)
  let ?n = "number * 10 + (int (unat c) - 48)"
  have c: "0 \<le> uint c - 48" "uint c - 48 < 10" using 2(5) NUMBER_value by simp_all
  then have n: "0 \<le> ?n" "?n < 10 ^ Suc j" using 2(6,7) by simp_all
  show ?case
  proof (cases "left - 1 \<noteq> 0 \<and> src \<noteq> [] \<and> NUMBER (hd src)")
    case True
    then have "0 \<le> k \<and> k < 10 ^ (Suc j + (left - 1))"
      using 2(1) [OF refl refl True, of "Suc j"] 2(2) n by simp
    with True show ?thesis by simp
  next
    case False
    then have "k = ?n" using 2(2) by (auto simp: Let_def)
    moreover have "(10 :: int) ^ Suc j \<le> 10 ^ (j + left)" using 2(3) by (intro power_increasing) simp_all
    ultimately show ?thesis using n by simp
  qed
qed simp

lemma read_number_bounds:
  assumes "read_number n v strict = Some (k, rest)" and "0 < n"
  shows "0 \<le> k" and "k < 10 ^ n"
proof -
  have v: "v \<noteq> []" "NUMBER (hd v)" using assms(1) by (auto simp: read_number_def split: if_splits)
  obtain rest' left' where "read_number_loop (min n (length v)) 0 v = (k, rest', left')"
    using assms(1) by (auto simp: read_number_def split: if_splits prod.splits)
  from read_number_loop_bounds [OF this _ v, of 0] have "0 \<le> k" and k: "k < 10 ^ min n (length v)"
    using assms(2) v(1) by simp_all
  have "(10 :: int) ^ min n (length v) \<le> 10 ^ n" by (intro power_increasing) simp_all
  with k have "k < 10 ^ n" by (rule less_le_trans)
  with \<open>0 \<le> k\<close> show "0 \<le> k" "k < 10 ^ n" by simp_all
qed

lemma parse_number_InrE:
  assumes "parse_number n v strict ok err store = Inr (v', et)" and "0 < n"
  obtains k where "0 \<le> k" "k < 10 ^ n" "ok k" "et = store k"
  using assms read_number_bounds [of n v strict]
  by (auto simp: parse_number_def split: option.splits prod.splits if_splits)

lemma find_name_less: "find_name names i v = Some (m, rest) \<Longrightarrow> m < i + length names"
  by (induction names i v rule: find_name.induct) (auto split: option.splits)

text \<open>What every parsed split time satisfies.\<close>

definition tm_parsed :: "ExtendedTime \<Rightarrow> bool" where
  "tm_parsed et \<longleftrightarrow>
     0 \<le> tm_sec et \<and> tm_sec et \<le> 59 \<and> 0 \<le> tm_min et \<and> tm_min et \<le> 59 \<and>
     0 \<le> tm_hour et \<and> tm_hour et \<le> 23 \<and> 1 \<le> tm_mday et \<and> tm_mday et \<le> 31 \<and>
     0 \<le> tm_mon et \<and> tm_mon et \<le> 11 \<and> 70 \<le> tm_year et \<and> tm_year et < 8100 \<and>
     0 \<le> tm_usec et \<and> tm_usec et < USEC_MAX"

lemma tm_parsed_update:
  assumes "tm_parsed et"
  shows "0 \<le> k \<Longrightarrow> k \<le> 59 \<Longrightarrow> tm_parsed (et\<lparr>tm_sec := k\<rparr>)"
    and "0 \<le> k \<Longrightarrow> k \<le> 59 \<Longrightarrow> tm_parsed (et\<lparr>tm_min := k\<rparr>)"
    and "0 \<le> k \<Longrightarrow> k \<le> 23 \<Longrightarrow> tm_parsed (et\<lparr>tm_hour := k\<rparr>)"
    and "1 \<le> k \<Longrightarrow> k \<le> 31 \<Longrightarrow> tm_parsed (et\<lparr>tm_mday := k\<rparr>)"
    and "0 \<le> k \<Longrightarrow> k \<le> 11 \<Longrightarrow> tm_parsed (et\<lparr>tm_mon := k\<rparr>)"
    and "70 \<le> k \<Longrightarrow> k < 8100 \<Longrightarrow> tm_parsed (et\<lparr>tm_year := k\<rparr>)"
    and "0 \<le> k \<Longrightarrow> k < USEC_MAX \<Longrightarrow> tm_parsed (et\<lparr>tm_usec := k\<rparr>)"
  using assms by (simp_all add: tm_parsed_def)

lemma from_str_spec_parsed:
  assumes "from_str_spec strict c v et = Inr (v', et')" and "tm_parsed et"
  shows "tm_parsed et'"
proof -
  have names: "length (zip MONTH_NAMES_FULL MONTH_NAMES) = 12"
    by (simp add: MONTH_NAMES_def MONTH_NAMES_FULL_def)
  show ?thesis
    using assms names unfolding from_str_spec_def
    by (auto split: if_split_asm option.splits prod.splits dest!: find_name_less
        elim!: parse_number_InrE intro!: tm_parsed_update)
qed

lemma from_str_parsed: "from_str strict fmt v et = Inr et' \<Longrightarrow> tm_parsed et \<Longrightarrow> tm_parsed et'"
proof (induction strict fmt v et rule: from_str.induct)
  case (2 strict f format v et)
  show ?case
  proof (cases "f = ch CHR ''%''")
    case True
    then obtain c format' v' e where "format = c # format'" "from_str_spec strict c v et = Inr (v', e)"
      "from_str strict format' v' e = Inr et'"
      using 2(4) by (auto simp: from_str.simps split: list.splits)
    with 2(1) [OF True this(1,2) refl] True show ?thesis using from_str_spec_parsed 2(5) by blast
  next
    case False
    then show ?thesis using 2 by (auto simp: from_str.simps split: if_splits)
  qed
qed simp

lemma tm_parsed_seconds:
  assumes "tm_parsed et"
  shows "0 \<le> gm_to_time et" and "gm_to_time et < 253407484800"
proof -
  let ?y = "tm_year et - 70" and ?m = "nat (tm_mon et)"
  define d where "d = DAYS ! leap_index ?y ! ?m + tm_mday et - 1"
  have y: "0 \<le> ?y" "?y < 8030" and m: "?m < 12" and mday: "1 \<le> tm_mday et" "tm_mday et \<le> 31"
    using assms by (auto simp: tm_parsed_def)
  have d: "0 \<le> d" "d < 365 + int (leap_index ?y)"
    using mday leap_index_less [of ?y]
    by (cases rule: less_12_cases [OF m]; cases "leap_index ?y = 0"; auto simp: d_def DAYS_def less_2_cases_iff)+
  define clock where "clock = (tm_hour et * 60 + tm_min et) * 60 + tm_sec et"
  have c: "0 \<le> clock" "clock < 86400" using assms by (auto simp: tm_parsed_def clock_def)
  have g: "gm_to_time et = (year_start ?y + d) * 86400 + clock"
    using y assms by (simp add: tm_parsed_def gm_to_time_def d_def clock_def year_start_def leap_index_def and_3_mod Let_def)
  have s: "0 \<le> year_start ?y" using y(1) by (simp add: year_start_def pos_imp_zdiv_nonneg_iff)
  with d(1) c(1) show "0 \<le> gm_to_time et" by (simp add: g)
  have "year_start (?y + 1) = year_start ?y + 365 + int (leap_index ?y)"
  proof -
    have "(?y + 2) div 4 = (?y + 1) div 4 + (if ?y mod 4 = 2 then 1 else 0)" by presburger
    then show ?thesis by (simp add: year_start_def leap_index_def algebra_simps)
  qed
  moreover have "year_start (?y + 1) \<le> 2932957"
    using y(2) zdiv_mono1 [of "?y + 2" 8031 4] by (simp add: year_start_def)
  ultimately have "year_start ?y + d < 2932957" using d(2) by simp
  with c(2) show "gm_to_time et < 253407484800" by (simp add: g)
qed

lemma to_str_spec_length:
  "to_str_spec mktime et len acc c = Inr s \<Longrightarrow> length acc \<le> len \<Longrightarrow> length s \<le> len"
  by (auto simp: to_str_spec_def add_str_def add_num_def add_zone_def Let_def
      split: if_splits prod.splits)

lemma to_str_loop_length:
  "to_str_loop mktime et len acc fmt = Inr s \<Longrightarrow> length acc \<le> len \<Longrightarrow> length s \<le> len"
proof (induction mktime et len acc fmt arbitrary: s rule: to_str_loop.induct)
  case (3 mktime et len acc f c format)
  consider (nested) "f = ch CHR ''%''" "c = ch CHR ''F'' \<or> c = ch CHR ''T''"
    | (spec) "f = ch CHR ''%''" "\<not> (c = ch CHR ''F'' \<or> c = ch CHR ''T'')" | (plain) "f \<noteq> ch CHR ''%''"
    by blast
  then show ?case
  proof cases
    case nested
    then obtain res where "to_str_loop mktime et (len - length acc) []
        (if c = ch CHR ''F'' then chars ''%Y-%m-%d'' else chars ''%H:%M:%S'') = Inr res"
      "res \<noteq> []" "to_str_loop mktime et len (acc @ res) format = Inr s"
      using 3(5) by (auto simp: to_str_loop.simps(3) simp del: chars_simps split: if_splits)
    with 3(1) [OF nested, of res] 3(2) [OF nested this(1,2), of s] 3(6) show ?thesis by simp
  next
    case spec
    then obtain a where "to_str_spec mktime et len acc c = Inr a" "to_str_loop mktime et len a format = Inr s"
      using 3(5) by (auto simp: to_str_loop.simps(3))
    with 3(3) [OF spec, of a s] 3(6) to_str_spec_length show ?thesis by blast
  next
    case plain
    then show ?thesis using 3(4) [OF plain] 3(5,6) by (auto simp: to_str_loop.simps(3) split: if_splits)
  qed
qed (auto simp: to_str_loop.simps split: if_splits)

section \<open>Properties\<close>

text \<open>
  C13: A time from the epoch to the end of the year 9999 that is printed by \<^verbatim>\<open>gm_ft\<close> is read back by
  \<^verbatim>\<open>set_ft\<close>, strict or not, up to its microseconds; printed by \<^verbatim>\<open>gm_f\<close> it is read back by \<^verbatim>\<open>set_f\<close> as
  the start of its day; and with the format that ends in the microseconds it is read back
  exactly.
\<close>

theorem time_text_roundtrip:
  assumes "0 \<le> tv_sec t" and "tv_sec t < 253407484800" and "time_ok t"
  shows "rbind (gm_ft mktime t) (\<lambda>s. time_set_ft s strict) = Inr (Time (tv_sec t) 0) \<and>
    rbind (gm_f mktime t) (\<lambda>s. time_set_f s strict) = Inr (Time (tv_sec t div 86400 * 86400) 0) \<and>
    rbind (et_format mktime (get_gm_time t) (Some (chars ''%Y-%m-%d %H:%M:%S.%q''))) (\<lambda>s.
      time_set s (Some (chars ''%Y-%m-%d %H:%M:%S.%q'')) strict) = Inr t"
proof (intro conjI)
  let ?et = "get_gm_time t"
  define z where "z = et_of_tm (time_to_gm 0 tm_zero) 0 TZ_GMT"
  have z: "tm_usec z = 0" by (simp add: z_def et_of_tm_def tm.defs)
  have p: "tm_printable ?et" using assms(1,2) by (rule get_gm_time_printable)
  then have v: "tm_valid ?et" by (simp add: tm_printable_def)
  have g: "gm_to_time ?et = tv_sec t"
    using assms(1,2) by (intro gm_to_time_get_gm_time) (simp_all add: gm_end_value)
  have all: "gm_to_time (z\<lparr>tm_year := tm_year ?et, tm_mon := tm_mon ?et, tm_mday := tm_mday ?et,
      tm_hour := tm_hour ?et, tm_min := tm_min ?et, tm_sec := tm_sec ?et\<rparr>) = tv_sec t"
    "gm_to_time (z\<lparr>tm_year := tm_year ?et, tm_mon := tm_mon ?et, tm_mday := tm_mday ?et,
      tm_hour := tm_hour ?et, tm_min := tm_min ?et, tm_sec := tm_sec ?et, tm_usec := u\<rparr>) = tv_sec t" for u
    unfolding g [symmetric] by (simp_all add: gm_to_time_def)
  have day: "gm_to_time (z\<lparr>tm_year := tm_year ?et, tm_mon := tm_mon ?et, tm_mday := tm_mday ?et\<rparr>) =
      tv_sec t div 86400 * 86400"
    using date_start [OF v g] unfolding z_def epoch_fields
    by (simp add: et_of_tm_def gm_to_time_def tm.defs tm_zero_def)
  note set_fields = time_set_fields [folded z_def]
  show "rbind (gm_ft mktime t) (\<lambda>s. time_set_ft s strict) = Inr (Time (tv_sec t) 0)"
    using to_str_F_T(2) [of 256 mktime ?et] from_str_date_clock [OF p, of strict "[]" "[]" z] all(1) z
    by (simp add: gm_ft_def et_format_def time_set_ft_def set_fields)
  show "rbind (gm_f mktime t) (\<lambda>s. time_set_f s strict) = Inr (Time (tv_sec t div 86400 * 86400) 0)"
    using to_str_F_T(1) [of 256 mktime ?et] from_str_date [OF p, of strict "[]" "[]" z] day z length_texts(1) [of ?et]
    by (auto simp: gm_f_def et_format_def time_set_f_def set_fields simp del: length_texts)
  have u: "0 \<le> tv_usec t" "tv_usec t < 10 ^ 6" using assms(3) by (simp_all add: time_defs)
  have q: "to_str_loop mktime ?et 256 (date_text ?et @ 0x20 # clock_text ?et) (chars ''.%q'') =
      Inr (date_text ?et @ 0x20 # clock_text ?et @ 0x2E # num_digits 6 (tv_usec t))"
    by (simp add: to_str_loop.simps to_str_spec_def add_str_def get_gm_time_def et_of_tm_def tm.defs)
  have r: "from_str strict (chars ''.%q'') (0x2E # num_digits 6 (tv_usec t)) e = Inr (e\<lparr>tm_usec := tv_usec t\<rparr>)" for e
    using parse_number_digits [OF u, of _ "[]"] u
    by (simp add: from_str.simps from_str_spec_def SPACE_iff USEC_MAX_def)
  show "rbind (et_format mktime (get_gm_time t) (Some (chars ''%Y-%m-%d %H:%M:%S.%q''))) (\<lambda>s.
      time_set s (Some (chars ''%Y-%m-%d %H:%M:%S.%q'')) strict) = Inr t"
    using to_str_date_clock [of 256 mktime ?et "chars ''.%q''"] q
      from_str_date_clock [OF p, of strict "chars ''.%q''" "0x2E # num_digits 6 (tv_usec t)" z] r all(2)
    by (simp add: et_format_def set_fields)
qed

theorem time_text_roundtrip_witness:
  "rbind (gm_ft (\<lambda>t. (0, t)) (Time 1330516799 7)) (\<lambda>s. time_set_ft s True) = Inr (Time 1330516799 0)"
  using time_text_roundtrip [of "Time 1330516799 7"] by (simp add: time_defs)

text \<open>
  Whatever the text and the format, a time that \<^verbatim>\<open>set\<close> accepts satisfies the invariant of \<^verbatim>\<open>Time\<close> and
  lies between the epoch and the end of the year 9999, even for dates such as the 31st of
  February; and whatever the time and the format, \<^verbatim>\<open>format\<close> writes at least one character and at most
  the 256 its buffer holds.
\<close>

lemma time_text_safe:
  assumes "time_set v fmt strict = Inr t" and "et_format mktime et fmt' = Inr s"
  shows "time_ok t \<and> 0 \<le> tv_sec t \<and> tv_sec t < 253407484800 \<and> s \<noteq> [] \<and> length s \<le> 256"
proof -
  let ?zero = "et_of_tm (time_to_gm 0 tm_zero) 0 TZ_GMT"
  obtain f et' where f: "fmt = Some f" "from_str strict f v ?zero = Inr et'"
    and t: "t = Time (gm_to_time et') (tm_usec et')"
    using assms(1) by (auto simp: time_set_def split: option.splits)
  have "tm_parsed ?zero"
    unfolding epoch_fields by (simp add: tm_parsed_def et_of_tm_def tm.defs tm_zero_def USEC_MAX_def)
  with f(2) have p: "tm_parsed et'" by (rule from_str_parsed)
  from assms(2) have "s \<noteq> []" "length s \<le> 256"
    by (auto simp: et_format_def split: option.splits if_splits dest: to_str_loop_length)
  then show ?thesis
    using tm_parsed_seconds [OF p] p by (simp add: t time_ok_def tm_parsed_def)
qed

lemma time_text_safe_example:
  "\<exists>t. time_set_f (chars ''2011-2-31'') False = Inr t \<and> time_ok t \<and> 0 \<le> tv_sec t \<and> tv_sec t < 253407484800"
proof -
  obtain t where t: "time_set (chars ''2011-2-31'') (Some (chars ''%Y-%m-%d'')) False = Inr t"
    by (simp add: time_set_def epoch_fields from_str.simps from_str_spec_def parse_number_def read_number_def
        NUMBER_iff SPACE_iff)
  have f: "et_format (\<lambda>t. (0, t)) et_zero (Some (chars ''x'')) = Inr (chars ''x'')"
    by (simp add: et_format_def to_str_loop.simps)
  from time_text_safe [OF t f] t show ?thesis by (auto simp: time_set_f_def)
qed

end
