(* ===== verification/Runs.thy ===== *)
theory Runs
  imports Main
begin

text \<open>
  Runs of step relations, for the liveness of the active objects: what happens in every run,
  however the steps are chosen, and the contract of steps that cannot go on for ever.
\<close>

text \<open>
  \<open>inevitably step P s\<close>: every run of \<open>step\<close> from \<open>s\<close> comes to a state with \<open>P\<close>, and none is stuck before.
\<close>

inductive inevitably :: "('s \<Rightarrow> 's \<Rightarrow> bool) \<Rightarrow> ('s \<Rightarrow> bool) \<Rightarrow> 's \<Rightarrow> bool"
  for step P where
  now: "P s \<Longrightarrow> inevitably step P s"
| later: "step s s' \<Longrightarrow> (\<And>t. step s t \<Longrightarrow> inevitably step P t) \<Longrightarrow> inevitably step P s"

lemma inevitably_trans:
  "inevitably step Q s \<Longrightarrow> (\<And>t. Q t \<Longrightarrow> inevitably step P t) \<Longrightarrow> inevitably step P s"
  by (induction rule: inevitably.induct) (auto intro: inevitably.later)

lemma inevitably_mono: "inevitably step Q s \<Longrightarrow> (\<And>t. Q t \<Longrightarrow> P t) \<Longrightarrow> inevitably step P s"
  by (erule inevitably_trans) (rule inevitably.now)

lemma inevitably_reaches: "inevitably step P s \<Longrightarrow> \<exists>s'. step\<^sup>*\<^sup>* s s' \<and> P s'"
proof (induction rule: inevitably.induct)
  case (later s s')
  then show ?case by (meson converse_rtranclp_into_rtranclp)
qed blast

lemma inevitably_det:
  assumes "step s s'" and "\<And>t. step s t \<Longrightarrow> t = s'" and "inevitably step P s'"
  shows "inevitably step P s"
  using assms by (blast intro: inevitably.later)

text \<open>Steps that keep an invariant and use something up: every run ends, and what holds at all ends is inevitable.\<close>

locale progress =
  fixes step :: "'s \<Rightarrow> 's \<Rightarrow> bool" and inv :: "'s \<Rightarrow> bool" and todo :: "'s \<Rightarrow> nat"
  assumes inv_step: "inv s \<Longrightarrow> step s s' \<Longrightarrow> inv s'"
    and todo_step: "inv s \<Longrightarrow> step s s' \<Longrightarrow> todo s' < todo s"
begin

lemma inevitable_at_end:
  assumes "inv s" and "\<And>s'. step\<^sup>*\<^sup>* s s' \<Longrightarrow> inv s' \<Longrightarrow> (\<And>t. \<not> step s' t) \<Longrightarrow> P s'"
  shows "inevitably step P s"
  using assms
proof (induction "todo s" arbitrary: s rule: less_induct)
  case less
  show ?case
  proof (cases "\<exists>t. step s t")
    case True
    then obtain t where "step s t" ..
    moreover have "inevitably step P u" if "step s u" for u
      using less.hyps [OF todo_step [OF less.prems(1) that] inv_step [OF less.prems(1) that]] less.prems(2) that
      by (meson converse_rtranclp_into_rtranclp)
    ultimately show ?thesis by (rule inevitably.later)
  qed (use less.prems in \<open>blast intro: inevitably.now\<close>)
qed

end

end
