(* ===== verification/Planner.thy ===== *)
theory Planner
  imports Time_Model Runs "HOL-Library.Multiset"
begin

text \<open>
  \<^verbatim>\<open>Generics::Planner\<close> of \<^verbatim>\<open>src/src/Generics/Scheduler.cpp\<close>: a list of timed messages, ordered by
  time, that clients fill and one worker thread delivers.  The sections under the mutex are
  atomic steps; between them the clients' calls, the clock and the worker's steps interleave
  in any order.  A goal is an object, known by its identity; a message is the time and the
  goal of one call of \<^verbatim>\<open>schedule\<close>.
\<close>

section \<open>The job\<close>

type_synonym 'g message = "Time \<times> 'g"

record 'g PlannerJob =
  messages :: "'g message list"
  have_new_events :: bool
  terminating :: bool
  delivery_time_adjustment :: bool
  delivery_time_shift :: Time

definition planner_create :: "bool \<Rightarrow> 'g PlannerJob" where
  "planner_create adjustment =
     \<lparr>messages = [], have_new_events = False, terminating = False,
      delivery_time_adjustment = adjustment, delivery_time_shift = time_zero\<rparr>"

text \<open>\<^verbatim>\<open>make_terminate\<close> with \<^verbatim>\<open>PlannerJob::terminate\<close>.\<close>

definition planner_terminate :: "'g PlannerJob \<Rightarrow> 'g PlannerJob" where
  "planner_terminate job = job\<lparr>terminating := True, have_new_events := True\<rparr>"

text \<open>The search from the end of the list for the place of a message at \<open>tm\<close>.\<close>

fun schedule_loop :: "'g message list \<Rightarrow> Time \<Rightarrow> nat \<Rightarrow> nat" where
  "schedule_loop ms tm 0 = 0"
| "schedule_loop ms tm (Suc i) = (if fst (ms ! i) < tm then Suc i else schedule_loop ms tm i)"

text \<open>The clients' goal is \<open>None\<close> for a null pointer.\<close>

definition planner_schedule :: "'g option \<Rightarrow> Time \<Rightarrow> 'g PlannerJob \<Rightarrow> 'g PlannerJob result" where
  "planner_schedule goal time job =
     (case goal of
        None \<Rightarrow> Inl (InvalidArgument ''goal is null'')
      | Some g \<Rightarrow>
          (let tm = (if time > time_zero then time else time_zero);
               itor = schedule_loop (messages job) tm (length (messages job));
               signal = (itor = 0);
               job = job\<lparr>messages := take itor (messages job) @ (tm, g) # drop itor (messages job)\<rparr>
           in Inr (if signal then job\<lparr>have_new_events := True\<rparr> else job)))"

fun unschedule_loop :: "'g \<Rightarrow> 'g message list \<Rightarrow> 'g message list \<times> nat" where
  "unschedule_loop goal [] = ([], 0)"
| "unschedule_loop goal (m # ms) =
     (let (rest, removed) = unschedule_loop goal ms
      in if snd m = goal then (rest, Suc removed) else (m # rest, removed))"

definition planner_unschedule :: "'g \<Rightarrow> 'g PlannerJob \<Rightarrow> 'g PlannerJob \<times> nat" where
  "planner_unschedule goal job =
     (let (ms, removed) = unschedule_loop goal (messages job) in (job\<lparr>messages := ms\<rparr>, removed))"

definition planner_clear :: "'g PlannerJob \<Rightarrow> 'g PlannerJob" where
  "planner_clear job = job\<lparr>messages := []\<rparr>"

section \<open>The worker\<close>

text \<open>The moment a message is due, moved forward by the measured delay of wake-ups if asked for.\<close>

definition abs_time :: "'g PlannerJob \<Rightarrow> Time \<Rightarrow> Time" where
  "abs_time job time =
     (if delivery_time_adjustment job then
        (if time > delivery_time_shift job then time_sub time (delivery_time_shift job) else time_zero)
      else time)"

text \<open>
  The loop that moves the messages that are due to the pending ones: the pending messages,
  the remaining messages and the moment of the first of them.
\<close>

fun pump_loop :: "'g PlannerJob \<Rightarrow> Time \<Rightarrow> 'g message list \<Rightarrow> 'g message list \<times> 'g message list \<times> Time option" where
  "pump_loop job cur [] = ([], [], None)"
| "pump_loop job cur (m # ms) =
     (if abs_time job (fst m) \<le> cur then
        (let (pending, rest, pabs) = pump_loop job cur ms in (m # pending, rest, pabs))
      else ([], m # ms, Some (abs_time job (fst m))))"

text \<open>
  Where the worker is: before the first lock of a round, waiting with the moment of the next
  message, delivering, or out of the loop.
\<close>

datatype 'g worker = Collecting | Waiting "Time option" | Delivering "'g message list" | Stopped

definition worker_collect :: "Time \<Rightarrow> 'g PlannerJob \<Rightarrow> 'g PlannerJob \<times> 'g worker" where
  "worker_collect now job =
     (if terminating job then (job, Stopped)
      else let (pending, rest, pabs) = pump_loop job now (messages job)
        in (job\<lparr>messages := rest\<rparr>, if pending = [] then Waiting pabs else Delivering pending))"

text \<open>
  The wait under the lock returns once there are new events, or with \<open>awakened\<close> false because
  of a timeout, an error or a wake-up without a cause; \<open>awakened\<close> is the result of its last call,
  true if it was not called.  \<open>new\<close> is the value of \<^verbatim>\<open>new_event_in_schedule\<close> behind the loop.
\<close>

definition worker_wake :: "Time \<Rightarrow> bool \<Rightarrow> Time option \<Rightarrow> 'g PlannerJob \<Rightarrow> 'g PlannerJob \<times> 'g worker" where
  "worker_wake wake_tm awakened pabs job =
     (let new = (have_new_events job \<and> awakened)
      in if terminating job then (job, Stopped)
         else if new then
           (let job = job\<lparr>have_new_events := False\<rparr>
            in (case pabs of
                  Some t \<Rightarrow>
                    if delivery_time_adjustment job \<and> wake_tm > t
                    then job\<lparr>delivery_time_shift := time_div (time_sub wake_tm t) 2\<rparr> else job
                | None \<Rightarrow> job, Collecting))
         else (job, Collecting))"

definition worker_deliver :: "'g message list \<Rightarrow> 'g worker" where
  "worker_deliver pending = (case pending of [] \<Rightarrow> Collecting | m # ms \<Rightarrow> Delivering ms)"

section \<open>The system\<close>

text \<open>
  The job, the worker and the clock, with the history that the properties speak of: the
  messages ever scheduled, those taken back, and the deliveries with their moments.
\<close>

record 'g planner_system =
  sys_job :: "'g PlannerJob"
  sys_worker :: "'g worker"
  sys_now :: Time
  sys_scheduled :: "'g message list"
  sys_removed :: "'g message list"
  sys_delivered :: "('g message \<times> Time) list"

definition planner_init :: "bool \<Rightarrow> Time \<Rightarrow> 'g planner_system" where
  "planner_init adjustment now =
     \<lparr>sys_job = planner_create adjustment, sys_worker = Collecting, sys_now = now,
      sys_scheduled = [], sys_removed = [], sys_delivered = []\<rparr>"

text \<open>One step of the system: a call of a client, the clock going on, or the worker.\<close>

inductive planner_step :: "'g planner_system \<Rightarrow> 'g planner_system \<Rightarrow> bool" where
  schedule: "planner_schedule (Some g) time (sys_job s) = Inr job \<Longrightarrow> time_ok time \<Longrightarrow>
     planner_step s (s\<lparr>sys_job := job,
       sys_scheduled := (if time > time_zero then time else time_zero, g) # sys_scheduled s\<rparr>)"
| unschedule: "planner_unschedule g (sys_job s) = (job, n) \<Longrightarrow>
     planner_step s (s\<lparr>sys_job := job,
       sys_removed := filter (\<lambda>m. snd m = g) (messages (sys_job s)) @ sys_removed s\<rparr>)"
| clear: "planner_step s (s\<lparr>sys_job := planner_clear (sys_job s),
     sys_removed := messages (sys_job s) @ sys_removed s\<rparr>)"
| terminate: "planner_step s (s\<lparr>sys_job := planner_terminate (sys_job s)\<rparr>)"
| tick: "sys_now s \<le> now \<Longrightarrow> time_ok now \<Longrightarrow> planner_step s (s\<lparr>sys_now := now\<rparr>)"
| collect: "sys_worker s = Collecting \<Longrightarrow> worker_collect (sys_now s) (sys_job s) = (job, w) \<Longrightarrow>
     planner_step s (s\<lparr>sys_job := job, sys_worker := w\<rparr>)"
| wake: "sys_worker s = Waiting pabs \<Longrightarrow> worker_wake (sys_now s) awakened pabs (sys_job s) = (job, w) \<Longrightarrow>
     planner_step s (s\<lparr>sys_job := job, sys_worker := w\<rparr>)"
| deliver: "sys_worker s = Delivering (m # ms) \<Longrightarrow>
     planner_step s (s\<lparr>sys_worker := worker_deliver (m # ms),
       sys_delivered := (m, sys_now s) # sys_delivered s\<rparr>)"
| delivered: "sys_worker s = Delivering [] \<Longrightarrow> planner_step s (s\<lparr>sys_worker := worker_deliver []\<rparr>)"

text \<open>
  The steps of the worker alone, at a moment of the clock.  Its wait returns for one of its own
  reasons: new events are announced (who announces them signals before the call returns), or,
  with \<open>awakened\<close> false, the time limit it waits with has passed.  In \<open>planner_step\<close> it may also return
  without a reason.
\<close>

definition wait_returns :: "Time \<Rightarrow> bool \<Rightarrow> Time option \<Rightarrow> 'g PlannerJob \<Rightarrow> bool" where
  "wait_returns now awakened pabs job =
     (if awakened then have_new_events job else case pabs of None \<Rightarrow> False | Some t \<Rightarrow> t \<le> now)"

inductive worker_step :: "'g planner_system \<Rightarrow> 'g planner_system \<Rightarrow> bool" where
  collect: "sys_worker s = Collecting \<Longrightarrow> worker_collect (sys_now s) (sys_job s) = (job, w) \<Longrightarrow>
     worker_step s (s\<lparr>sys_job := job, sys_worker := w\<rparr>)"
| wake: "sys_worker s = Waiting pabs \<Longrightarrow> wait_returns (sys_now s) awakened pabs (sys_job s) \<Longrightarrow>
     worker_wake (sys_now s) awakened pabs (sys_job s) = (job, w) \<Longrightarrow>
     worker_step s (s\<lparr>sys_job := job, sys_worker := w\<rparr>)"
| deliver: "sys_worker s = Delivering (m # ms) \<Longrightarrow>
     worker_step s (s\<lparr>sys_worker := worker_deliver (m # ms),
       sys_delivered := (m, sys_now s) # sys_delivered s\<rparr>)"
| delivered: "sys_worker s = Delivering [] \<Longrightarrow> worker_step s (s\<lparr>sys_worker := worker_deliver []\<rparr>)"

inductive_cases worker_stepE: "worker_step s s'"

inductive planner_reachable :: "bool \<Rightarrow> Time \<Rightarrow> 'g planner_system \<Rightarrow> bool" for adjustment start where
  init: "time_ok start \<Longrightarrow> planner_reachable adjustment start (planner_init adjustment start)"
| step: "planner_reachable adjustment start s \<Longrightarrow> planner_step s s' \<Longrightarrow> planner_reachable adjustment start s'"

section \<open>Correctness\<close>

subsection \<open>The list of messages\<close>

abbreviation sorted_messages :: "'g message list \<Rightarrow> bool" where
  "sorted_messages ms \<equiv> sorted (map fst ms)"

lemma schedule_loop_takeWhile:
  assumes "sorted_messages ms" and "n \<le> length ms"
  shows "schedule_loop ms tm n = length (takeWhile (\<lambda>m. fst m < tm) (take n ms))"
  using assms(2)
proof (induction n)
  case (Suc n)
  then have split: "take (Suc n) ms = take n ms @ [ms ! n]" by (simp add: take_Suc_conv_app_nth)
  show ?case
  proof (cases "fst (ms ! n) < tm")
    case True
    have "fst (ms ! j) \<le> fst (ms ! n)" if "j < n" for j
      using sorted_nth_mono [OF assms(1), of j n] that Suc.prems by simp
    then have "\<forall>m\<in>set (take n ms). fst m < tm"
      using True Suc.prems by (metis (no_types, lifting) in_set_conv_nth le_less_trans length_take
          min_less_iff_conj nth_take)
    then have "takeWhile (\<lambda>m. fst m < tm) (take (Suc n) ms) = take (Suc n) ms"
      using True split by (simp add: takeWhile_append2)
    then have "length (takeWhile (\<lambda>m. fst m < tm) (take (Suc n) ms)) = Suc n"
      using Suc.prems by (simp only: length_take min_absorb2)
    with True show ?thesis by simp
  next
    case False
    then have "takeWhile (\<lambda>m. fst m < tm) (take (Suc n) ms) = takeWhile (\<lambda>m. fst m < tm) (take n ms)"
      using split by (simp add: takeWhile_tail)
    with False Suc show ?thesis by simp
  qed
qed simp

lemma planner_schedule_messages:
  assumes "sorted_messages (messages job)" and "planner_schedule (Some g) time job = Inr job'"
    and "tm = (if time > time_zero then time else time_zero)"
  shows "messages job' =
      takeWhile (\<lambda>m. fst m < tm) (messages job) @ (tm, g) # dropWhile (\<lambda>m. fst m < tm) (messages job)"
    and "have_new_events job' \<longleftrightarrow>
      have_new_events job \<or> takeWhile (\<lambda>m. fst m < tm) (messages job) = []"
    and "terminating job' = terminating job" "delivery_time_adjustment job' = delivery_time_adjustment job"
      "delivery_time_shift job' = delivery_time_shift job"
proof -
  have "schedule_loop (messages job) tm (length (messages job)) =
      length (takeWhile (\<lambda>m. fst m < tm) (messages job))"
    using schedule_loop_takeWhile [OF assms(1) order_refl] by simp
  then have "planner_schedule (Some g) time job =
      Inr (let j = job\<lparr>messages := takeWhile (\<lambda>m. fst m < tm) (messages job) @ (tm, g) #
             dropWhile (\<lambda>m. fst m < tm) (messages job)\<rparr>
           in if takeWhile (\<lambda>m. fst m < tm) (messages job) = [] then j\<lparr>have_new_events := True\<rparr> else j)"
    unfolding planner_schedule_def Let_def option.case assms(3) [symmetric]
    by (simp only: takeWhile_eq_take [symmetric] dropWhile_eq_drop [symmetric] length_0_conv)
  with assms(2) have job': "job' = (let j = job\<lparr>messages := takeWhile (\<lambda>m. fst m < tm) (messages job) @ (tm, g) #
             dropWhile (\<lambda>m. fst m < tm) (messages job)\<rparr>
           in if takeWhile (\<lambda>m. fst m < tm) (messages job) = [] then j\<lparr>have_new_events := True\<rparr> else j)"
    by (simp only: sum.inject)
  show "messages job' =
      takeWhile (\<lambda>m. fst m < tm) (messages job) @ (tm, g) # dropWhile (\<lambda>m. fst m < tm) (messages job)"
    "have_new_events job' \<longleftrightarrow>
      have_new_events job \<or> takeWhile (\<lambda>m. fst m < tm) (messages job) = []"
    "terminating job' = terminating job" "delivery_time_adjustment job' = delivery_time_adjustment job"
    "delivery_time_shift job' = delivery_time_shift job"
    unfolding job' Let_def by simp_all
qed

lemma sorted_insert_message:
  assumes "sorted_messages ms"
  shows "sorted_messages (takeWhile (\<lambda>m. fst m < tm) ms @ (tm, g) # dropWhile (\<lambda>m. fst m < tm) ms)"
proof -
  let ?l = "takeWhile (\<lambda>m. fst m < tm) ms" and ?r = "dropWhile (\<lambda>m. fst m < tm) ms"
  have s: "sorted_messages (?l @ ?r)" using assms by simp
  have l: "\<forall>x\<in>set (map fst ?l). x < tm" by (auto dest: set_takeWhileD)
  have "tm \<le> fst m" if "m \<in> set ?r" for m
  proof (cases ?r)
    case (Cons h t)
    then have "\<not> fst h < tm" by (metis dropWhile_eq_Cons_conv)
    moreover have "sorted_messages (h # t)" using s Cons by (simp add: sorted_append)
    ultimately show ?thesis using that Cons by auto
  qed (use that in \<open>simp only: list.set empty_iff\<close>)
  then have r: "\<forall>x\<in>set (map fst ?r). tm \<le> x" by (simp only: set_map ball_simps) blast
  have "sorted (L @ t # R)" if "sorted (L @ R)" "\<forall>x\<in>set L. x < t" "\<forall>x\<in>set R. t \<le> x" for L R and t :: Time
    using that by (auto simp: sorted_append)
  from this [of "map fst ?l" "map fst ?r", OF _ l r] s show ?thesis
    by (simp only: map_append list.map fst_conv)
qed

lemma unschedule_loop_filter:
  "unschedule_loop goal ms = (filter (\<lambda>m. snd m \<noteq> goal) ms, length (filter (\<lambda>m. snd m = goal) ms))"
  by (induction ms) (auto simp: Let_def)

lemma count_mset_map_snd: "count (mset (map snd ms)) g = length (filter (\<lambda>m. snd m = g) ms)"
  by (induction ms) auto

lemma sorted_filter_messages: "sorted_messages ms \<Longrightarrow> sorted_messages (filter P ms)"
  by (induction ms) auto

lemma pump_loop_split:
  "pump_loop job cur ms =
     (takeWhile (\<lambda>m. abs_time job (fst m) \<le> cur) ms, dropWhile (\<lambda>m. abs_time job (fst m) \<le> cur) ms,
      case dropWhile (\<lambda>m. abs_time job (fst m) \<le> cur) ms of [] \<Rightarrow> None | m # _ \<Rightarrow> Some (abs_time job (fst m)))"
  by (induction ms) (auto simp: Let_def)

subsection \<open>Moments\<close>

lemma time_le_microseconds:
  "time_ok t1 \<Longrightarrow> time_ok t2 \<Longrightarrow> t1 \<le> t2 \<longleftrightarrow> microseconds t1 \<le> microseconds t2"
  by (auto simp: less_eq_Time_def time_less_eq_def time_less_microseconds)

lemma time_ok_zero [simp]: "time_ok time_zero" "microseconds time_zero = 0"
  by (simp_all add: time_zero_def time_defs)

text \<open>The times of messages are not before the epoch, and neither is what is computed of them.\<close>

definition moment_ok :: "Time \<Rightarrow> bool" where
  "moment_ok t \<longleftrightarrow> time_ok t \<and> 0 \<le> tv_sec t"

lemma moment_okD [simp]: "moment_ok t \<Longrightarrow> time_ok t" "moment_ok t \<Longrightarrow> 0 \<le> tv_sec t"
  by (simp_all add: moment_ok_def)

lemma moment_ok_microseconds: "time_ok t \<Longrightarrow> moment_ok t \<longleftrightarrow> 0 \<le> microseconds t"
  by (auto simp: moment_ok_def time_defs)

lemma moment_ok_pos [simp]: "moment_ok t \<Longrightarrow> 0 \<le> microseconds t"
  by (simp add: moment_ok_def time_defs)

lemma moment_ok_zero [simp]: "moment_ok time_zero"
  by (simp add: moment_ok_microseconds)

lemma moment_ok_later: "moment_ok t1 \<Longrightarrow> time_ok t2 \<Longrightarrow> t1 \<le> t2 \<Longrightarrow> moment_ok t2"
  by (simp add: moment_ok_microseconds time_le_microseconds order_trans [OF moment_ok_pos])

lemma moment_ok_clamp: "time_ok time \<Longrightarrow> moment_ok (if time > time_zero then time else time_zero)"
  by (simp add: moment_ok_later [OF moment_ok_zero])

lemma moment_sub:
  assumes "moment_ok t1" "moment_ok t2" "t2 \<le> t1"
  shows "moment_ok (time_sub t1 t2)" and "microseconds (time_sub t1 t2) = microseconds t1 - microseconds t2"
  using assms by (simp_all add: moment_ok_microseconds time_sub_ok time_le_microseconds)

lemma abs_time_mono:
  assumes "moment_ok t1" "moment_ok t2" "moment_ok (delivery_time_shift job)" "t1 \<le> t2"
  shows "abs_time job t1 \<le> abs_time job t2"
  using assms moment_sub [of t1 "delivery_time_shift job"] moment_sub [of t2 "delivery_time_shift job"]
  by (auto simp: abs_time_def time_le_microseconds not_less less_le_not_le)

lemma abs_time_le:
  assumes "moment_ok t" "moment_ok (delivery_time_shift job)"
  shows "abs_time job t \<le> t"
  using assms moment_sub [of t "delivery_time_shift job"]
  by (auto simp: abs_time_def time_le_microseconds less_le_not_le)

lemma half_delay_ok:
  assumes "moment_ok t" "time_ok now" "t < now"
  shows "moment_ok (time_div (time_sub now t) 2)"
proof -
  have "moment_ok (time_sub now t)" using assms moment_sub(1) moment_ok_later less_imp_le by blast
  then have "0 \<le> microseconds (time_sub now t)" and ok: "time_ok (time_sub now t)" "- (2 ^ 63) < tv_sec (time_sub now t)"
    by (simp_all add: moment_ok_def time_defs)
  with time_div_ok [OF ok, of 2] show ?thesis by (simp add: moment_ok_microseconds)
qed

subsection \<open>Invariants of the system\<close>

fun pending_of :: "'g worker \<Rightarrow> 'g message list" where
  "pending_of (Delivering ms) = ms"
| "pending_of w = []"

definition job_ok :: "bool \<Rightarrow> 'g planner_system \<Rightarrow> bool" where
  "job_ok adjustment s \<longleftrightarrow>
     sorted_messages (messages (sys_job s)) \<and> list_all (\<lambda>m. moment_ok (fst m)) (messages (sys_job s)) \<and>
     moment_ok (delivery_time_shift (sys_job s)) \<and> time_ok (sys_now s) \<and>
     (\<forall>t. sys_worker s = Waiting (Some t) \<longrightarrow> moment_ok t) \<and>
     delivery_time_adjustment (sys_job s) = adjustment"

lemma mset_takeWhile_dropWhile: "mset (takeWhile P xs) + mset (dropWhile P xs) = mset xs"
  by (metis mset_append takeWhile_dropWhile_id)

lemma mset_filter_split: "mset xs = mset (filter (\<lambda>x. \<not> P x) xs) + mset (filter P xs)"
  by (induction xs) auto

lemma messages_insert:
  assumes "sorted_messages (messages job)" and "planner_schedule (Some g) time job = Inr job'"
    and "tm = (if time > time_zero then time else time_zero)"
  shows "sorted_messages (messages job')"
    and "mset (messages job') = add_mset (tm, g) (mset (messages job))"
    and "set (messages job') = insert (tm, g) (set (messages job))"
proof -
  note m = planner_schedule_messages(1) [OF assms]
  show "sorted_messages (messages job')" unfolding m using assms(1) by (rule sorted_insert_message)
  show eq: "mset (messages job') = add_mset (tm, g) (mset (messages job))"
    unfolding m by (simp add: mset_takeWhile_dropWhile)
  show "set (messages job') = insert (tm, g) (set (messages job))"
    using arg_cong [OF eq, of set_mset] by simp
qed

lemma abs_time_ok: "moment_ok t \<Longrightarrow> moment_ok (delivery_time_shift job) \<Longrightarrow> moment_ok (abs_time job t)"
  by (simp add: abs_time_def moment_sub)

lemma worker_collect_cases:
  assumes "worker_collect now job = (job', w)"
  obtains "terminating job" "job' = job" "w = Stopped"
  | "job' = job\<lparr>messages := dropWhile (\<lambda>m. abs_time job (fst m) \<le> now) (messages job)\<rparr>"
    "takeWhile (\<lambda>m. abs_time job (fst m) \<le> now) (messages job) \<noteq> []"
    "w = Delivering (takeWhile (\<lambda>m. abs_time job (fst m) \<le> now) (messages job))"
  | "job' = job" "messages job = []" "w = Waiting None"
  | m ms where "job' = job" "messages job = m # ms" "w = Waiting (Some (abs_time job (fst m)))"
      "\<not> abs_time job (fst m) \<le> now"
proof (cases "messages job")
  case Nil
  then show ?thesis using assms that(1,3) by (auto simp: worker_collect_def split: if_splits)
next
  case (Cons m ms)
  show ?thesis
  proof (cases "abs_time job (fst m) \<le> now")
    case True
    with Cons show ?thesis
      using assms that(1,2) by (auto simp: worker_collect_def pump_loop_split Let_def split: if_splits)
  next
    case False
    with Cons show ?thesis
      using assms that(1) that(4) [of m ms] by (auto simp: worker_collect_def split: if_splits)
  qed
qed

lemma worker_wake_cases:
  assumes "worker_wake now awakened pabs job = (job', w)"
  shows "messages job' = messages job" and "w = Collecting \<or> w = Stopped"
    and "delivery_time_adjustment job' = delivery_time_adjustment job"
    and "delivery_time_shift job' = delivery_time_shift job \<or>
      (\<exists>t. pabs = Some t \<and> t < now \<and> delivery_time_shift job' = time_div (time_sub now t) 2)"
    and "w = Stopped \<longleftrightarrow> terminating job" and "terminating job' = terminating job"
  using assms by (auto simp: worker_wake_def Let_def split: if_splits option.splits)

lemma job_ok_step: "planner_step s s' \<Longrightarrow> job_ok adj s \<Longrightarrow> job_ok adj s'"
proof (induction rule: planner_step.induct)
  case (schedule g time s job)
  note m = planner_schedule_messages(3-5) [OF _ schedule(1) refl] messages_insert [OF _ schedule(1) refl]
  from schedule(3) moment_ok_clamp [OF schedule(2)] show ?case
    by (auto simp: job_ok_def m list_all_iff simp del: if_split if_splits)
next
  case (unschedule g s job n)
  then show ?case
    by (auto simp: job_ok_def planner_unschedule_def unschedule_loop_filter sorted_filter_messages list_all_iff)
next
  case (collect s job w)
  note c = collect(3) [unfolded job_ok_def]
  from collect(2) show ?case
  proof (cases rule: worker_collect_cases)
    case 2
    have "sorted_messages (dropWhile (\<lambda>m. abs_time (sys_job s) (fst m) \<le> sys_now s) (messages (sys_job s)))"
      using c by (simp add: dropWhile_eq_drop sorted_wrt_drop flip: drop_map)
    with 2 c show ?thesis by (auto simp: job_ok_def list_all_iff dest: set_dropWhileD)
  qed (use c in \<open>auto simp: job_ok_def intro: abs_time_ok\<close>)
next
  case (wake s pabs awakened job w)
  note w = worker_wake_cases [OF wake(2)]
  from w(4) have "moment_ok (delivery_time_shift job)"
    using wake(1,3) by (auto simp: job_ok_def half_delay_ok)
  with wake(3) w(1-3) show ?case by (auto simp: job_ok_def)
qed (auto simp: job_ok_def planner_clear_def planner_terminate_def worker_deliver_def)

text \<open>Every message is waiting, pending, delivered or taken back, and there are no others.\<close>

definition conserved :: "'g planner_system \<Rightarrow> bool" where
  "conserved s \<longleftrightarrow>
     mset (sys_scheduled s) = mset (messages (sys_job s)) + mset (pending_of (sys_worker s)) +
       mset (map fst (sys_delivered s)) + mset (sys_removed s)"

lemma conserved_step: "planner_step s s' \<Longrightarrow> job_ok adj s \<Longrightarrow> conserved s \<Longrightarrow> conserved s'"
proof (induction rule: planner_step.induct)
  case (schedule g time s job)
  then have "sorted_messages (messages (sys_job s))" by (simp add: job_ok_def)
  from messages_insert(2) [OF this schedule(1) refl] schedule(4) show ?case by (simp add: conserved_def)
next
  case (unschedule g s job n)
  have "mset (messages (sys_job s)) =
      mset (filter (\<lambda>m. snd m \<noteq> g) (messages (sys_job s))) + mset (filter (\<lambda>m. snd m = g) (messages (sys_job s)))"
    by (rule mset_filter_split)
  with unschedule show ?case
    by (auto simp: conserved_def planner_unschedule_def unschedule_loop_filter simp del: mset_filter)
next
  case (collect s job w)
  from collect(2) show ?case
  proof (cases rule: worker_collect_cases)
    case 2
    have "mset (messages (sys_job s)) =
        mset (dropWhile (\<lambda>m. abs_time (sys_job s) (fst m) \<le> sys_now s) (messages (sys_job s))) +
        mset (takeWhile (\<lambda>m. abs_time (sys_job s) (fst m) \<le> sys_now s) (messages (sys_job s)))"
      by (metis add.commute mset_takeWhile_dropWhile)
    with 2 collect(1,4) show ?thesis by (simp add: conserved_def)
  qed (use collect in \<open>auto simp: conserved_def\<close>)
next
  case (wake s pabs awakened job w)
  note w = worker_wake_cases [OF wake(2)]
  from w(1,2) wake(1,4) show ?case by (auto simp: conserved_def)
qed (auto simp: conserved_def planner_clear_def planner_terminate_def worker_deliver_def)

text \<open>Without the adjustment no message is delivered before its time.\<close>

definition never_early :: "'g planner_system \<Rightarrow> bool" where
  "never_early s \<longleftrightarrow>
     list_all (\<lambda>m. fst m \<le> sys_now s) (pending_of (sys_worker s)) \<and>
     list_all (\<lambda>(m, t). fst m \<le> t) (sys_delivered s)"

lemma never_early_step: "planner_step s s' \<Longrightarrow> job_ok False s \<Longrightarrow> never_early s \<Longrightarrow> never_early s'"
proof (induction rule: planner_step.induct)
  case (tick s now)
  then show ?case by (auto simp: never_early_def list_all_iff intro: order_trans)
next
  case (collect s job w)
  have "abs_time (sys_job s) t = t" for t using collect(3) by (simp add: job_ok_def abs_time_def)
  with collect show ?case
    by (auto simp: never_early_def list_all_iff elim!: worker_collect_cases dest!: set_takeWhileD)
next
  case (wake s pabs awakened job w)
  from worker_wake_cases(2) [OF wake(2)] wake(4) show ?case by (auto simp: never_early_def)
qed (auto simp: never_early_def worker_deliver_def)

text \<open>
  While the worker waits and no new events are announced, it waits for no longer than the
  first message asks for.
\<close>

definition wait_ok :: "'g planner_system \<Rightarrow> bool" where
  "wait_ok s \<longleftrightarrow>
     (\<forall>pabs. sys_worker s = Waiting pabs \<longrightarrow> have_new_events (sys_job s) \<or> messages (sys_job s) = [] \<or>
        (\<exists>t. pabs = Some t \<and> t \<le> abs_time (sys_job s) (fst (hd (messages (sys_job s))))))"

lemma wait_ok_step: "planner_step s s' \<Longrightarrow> job_ok adj s \<Longrightarrow> wait_ok s \<Longrightarrow> wait_ok s'"
proof (induction rule: planner_step.induct)
  case (schedule g time s job)
  let ?tm = "if time > time_zero then time else time_zero"
  have "sorted_messages (messages (sys_job s))" using schedule(3) by (simp add: job_ok_def)
  note m = planner_schedule_messages [OF this schedule(1) refl]
  have a: "abs_time job = abs_time (sys_job s)" by (simp add: fun_eq_iff abs_time_def m(4,5))
  show ?case
  proof (cases "takeWhile (\<lambda>m. fst m < ?tm) (messages (sys_job s)) = []")
    case True
    then show ?thesis using m(2) by (simp only: wait_ok_def) simp
  next
    case False
    then have "hd (messages job) = hd (messages (sys_job s))" "messages (sys_job s) \<noteq> []"
      unfolding m(1) by (cases "messages (sys_job s)"; simp split: if_splits)+
    moreover have "have_new_events job = have_new_events (sys_job s)" using m(2) False by simp
    ultimately show ?thesis using schedule(4) by (auto simp: wait_ok_def a)
  qed
next
  case (unschedule g s job n)
  have job: "job = sys_job s\<lparr>messages := filter (\<lambda>m. snd m \<noteq> g) (messages (sys_job s))\<rparr>"
    using unschedule(1) by (simp add: planner_unschedule_def unschedule_loop_filter)
  have a: "abs_time job = abs_time (sys_job s)" by (simp add: fun_eq_iff abs_time_def job)
  have ok: "sorted_messages (messages (sys_job s))" "list_all (\<lambda>m. moment_ok (fst m)) (messages (sys_job s))"
    "moment_ok (delivery_time_shift (sys_job s))" using unschedule(2) by (simp_all add: job_ok_def)
  have "abs_time (sys_job s) (fst (hd (messages (sys_job s)))) \<le> abs_time (sys_job s) (fst (hd (messages job)))"
    if "messages job \<noteq> []"
  proof -
    have h: "hd (messages job) \<in> set (messages (sys_job s))"
      using hd_in_set [OF that] by (auto simp: job)
    then have "fst (hd (messages (sys_job s))) \<le> fst (hd (messages job))"
      using ok(1) by (cases "messages (sys_job s)") auto
    moreover have "hd (messages (sys_job s)) \<in> set (messages (sys_job s))" using h by (cases "messages (sys_job s)") auto
    ultimately show ?thesis using ok(2,3) h by (intro abs_time_mono) (auto simp: list_all_iff)
  qed
  moreover have "messages (sys_job s) = [] \<Longrightarrow> messages job = []" "have_new_events job = have_new_events (sys_job s)"
    by (simp_all add: job)
  ultimately show ?case using unschedule(3) by (fastforce simp: wait_ok_def a intro: order_trans)
next
  case (collect s job w)
  from collect(2) show ?case
    by (cases rule: worker_collect_cases) (use collect(1) in \<open>auto simp: wait_ok_def\<close>)
next
  case (wake s pabs awakened job w)
  from worker_wake_cases(2) [OF wake(2)] show ?case by (auto simp: wait_ok_def)
qed (auto simp: wait_ok_def planner_clear_def planner_terminate_def worker_deliver_def)

lemma planner_reachable_ok:
  assumes "planner_reachable adj start s"
  shows "job_ok adj s" and "conserved s" and "wait_ok s" and "\<not> adj \<Longrightarrow> never_early s"
proof -
  have "job_ok adj s \<and> conserved s \<and> wait_ok s \<and> (\<not> adj \<longrightarrow> never_early s)"
    using assms
  proof induction
    case init
    then show ?case
      by (simp add: planner_init_def planner_create_def job_ok_def conserved_def wait_ok_def never_early_def)
  next
    case (step s s')
    then show ?case using job_ok_step conserved_step wait_ok_step never_early_step by (metis (full_types))
  qed
  then show "job_ok adj s" "conserved s" "wait_ok s" "\<not> adj \<Longrightarrow> never_early s" by simp_all
qed

section \<open>The queue of planned messages as an interface\<close>

text \<open>
  What a client of the queue relies on: messages go in with their time, and what is due
  comes out in the order of time.
\<close>

locale timed_queue =
  fixes invar :: "'q \<Rightarrow> bool"
    and contents :: "'q \<Rightarrow> 'g message multiset"
    and enqueue :: "Time \<Rightarrow> 'g \<Rightarrow> 'q \<Rightarrow> 'q"
    and dequeue_due :: "Time \<Rightarrow> 'q \<Rightarrow> 'g message list \<times> 'q"
  assumes enqueue_invar: "invar q \<Longrightarrow> invar (enqueue time g q)"
    and enqueue_contents: "invar q \<Longrightarrow> contents (enqueue time g q) = add_mset (max time_zero time, g) (contents q)"
    and dequeue_invar: "invar q \<Longrightarrow> dequeue_due now q = (due, q') \<Longrightarrow> invar q'"
    and dequeue_contents: "invar q \<Longrightarrow> dequeue_due now q = (due, q') \<Longrightarrow> contents q = mset due + contents q'"
    and dequeue_order: "invar q \<Longrightarrow> dequeue_due now q = (due, q') \<Longrightarrow> sorted_messages due"
    and dequeue_due: "invar q \<Longrightarrow> dequeue_due now q = (due, q') \<Longrightarrow> m \<in> set due \<Longrightarrow> fst m \<le> now"
    and dequeue_rest: "invar q \<Longrightarrow> dequeue_due now q = (due, q') \<Longrightarrow> m \<in># contents q' \<Longrightarrow> now < fst m"
begin

lemma dequeue_exact:
  assumes "invar q" and "dequeue_due now q = (due, q')"
  shows "mset due = filter_mset (\<lambda>m. fst m \<le> now) (contents q)"
    and "contents q' = filter_mset (\<lambda>m. now < fst m) (contents q)"
proof -
  have d: "filter_mset (\<lambda>m. fst m \<le> now) (mset due) = filter_mset (\<lambda>_. True) (mset due)"
    "filter_mset (\<lambda>m. now < fst m) (mset due) = filter_mset (\<lambda>_. False) (mset due)"
    using dequeue_due [OF assms] by (intro filter_mset_cong refl; fastforce simp: not_less)+
  have r: "filter_mset (\<lambda>m. fst m \<le> now) (contents q') = filter_mset (\<lambda>_. False) (contents q')"
    "filter_mset (\<lambda>m. now < fst m) (contents q') = filter_mset (\<lambda>_. True) (contents q')"
    using dequeue_rest [OF assms] by (intro filter_mset_cong refl; fastforce simp: not_le)+
  show "mset due = filter_mset (\<lambda>m. fst m \<le> now) (contents q)"
    "contents q' = filter_mset (\<lambda>m. now < fst m) (contents q)"
    unfolding dequeue_contents [OF assms] filter_union_mset d r by simp_all
qed

lemma enqueue_dequeue:
  assumes "invar q" and "dequeue_due now (enqueue time g q) = (due, q')"
  shows "mset due = filter_mset (\<lambda>m. fst m \<le> now) (add_mset (max time_zero time, g) (contents q))"
  using dequeue_exact(1) [OF enqueue_invar [OF assms(1)] assms(2)] enqueue_contents [OF assms(1)] by simp

end

definition planner_enqueue :: "Time \<Rightarrow> 'g \<Rightarrow> 'g PlannerJob \<Rightarrow> 'g PlannerJob" where
  "planner_enqueue time g job = (case planner_schedule (Some g) time job of Inr job' \<Rightarrow> job' | Inl _ \<Rightarrow> job)"

definition planner_dequeue :: "Time \<Rightarrow> 'g PlannerJob \<Rightarrow> 'g message list \<times> 'g PlannerJob" where
  "planner_dequeue now job =
     (let (pending, rest, pabs) = pump_loop job now (messages job) in (pending, job\<lparr>messages := rest\<rparr>))"

definition plain_job :: "'g PlannerJob \<Rightarrow> bool" where
  "plain_job job \<longleftrightarrow> sorted_messages (messages job) \<and> \<not> delivery_time_adjustment job"

lemma planner_enqueue_Inr: "planner_schedule (Some g) time job = Inr (planner_enqueue time g job)"
  by (simp add: planner_enqueue_def planner_schedule_def Let_def)

lemma max_time_zero: "(if time > time_zero then time else time_zero) = max time_zero time"
  by (simp add: max_def less_le_not_le)

lemma planner_dequeue_split:
  assumes "plain_job job" and "planner_dequeue now job = (due, job')"
  shows "due = takeWhile (\<lambda>m. fst m \<le> now) (messages job)"
    and "job' = job\<lparr>messages := dropWhile (\<lambda>m. fst m \<le> now) (messages job)\<rparr>"
  using assms by (auto simp: planner_dequeue_def plain_job_def pump_loop_split abs_time_def)

lemma sorted_dropWhile_greater:
  "sorted_messages ms \<Longrightarrow> m \<in> set (dropWhile (\<lambda>m. fst m \<le> now) ms) \<Longrightarrow> now < fst m"
  by (induction ms) (auto simp: not_le split: if_splits intro: less_le_trans)

interpretation planner_queue: timed_queue plain_job "\<lambda>job. mset (messages job)" planner_enqueue planner_dequeue
proof
  fix q q' :: "'g PlannerJob" and time now g due m
  assume inv: "plain_job q"
  then have s: "sorted_messages (messages q)" by (simp add: plain_job_def)
  show "plain_job (planner_enqueue time g q)"
    using inv messages_insert(1) [OF s planner_enqueue_Inr refl]
      planner_schedule_messages(4) [OF s planner_enqueue_Inr refl] by (simp add: plain_job_def)
  show "mset (messages (planner_enqueue time g q)) = add_mset (max time_zero time, g) (mset (messages q))"
    using messages_insert(2) [OF s planner_enqueue_Inr refl] by (simp add: max_time_zero)
  assume "planner_dequeue now q = (due, q')"
  note d = planner_dequeue_split [OF inv this]
  have split: "sorted_messages (takeWhile (\<lambda>m. fst m \<le> now) (messages q) @ dropWhile (\<lambda>m. fst m \<le> now) (messages q))"
    using s by simp
  show "plain_job q'" using inv split unfolding d(2) plain_job_def map_append sorted_append by simp
  show "mset (messages q) = mset due + mset (messages q')" by (simp add: d mset_takeWhile_dropWhile)
  show "sorted_messages due" using split unfolding d(1) map_append sorted_append by simp
  show "m \<in> set due \<Longrightarrow> fst m \<le> now" by (auto simp: d(1) dest: set_takeWhileD)
  show "m \<in># mset (messages q') \<Longrightarrow> now < fst m"
    using sorted_dropWhile_greater [OF s] by (simp add: d(2))
qed

lemma planner_schedule_order:
  assumes "sorted_messages (messages job)"
  shows "messages (planner_enqueue time g job) =
    filter (\<lambda>m. fst m < max time_zero time) (messages job) @ (max time_zero time, g) #
    filter (\<lambda>m. max time_zero time \<le> fst m) (messages job)"
proof -
  have "takeWhile (\<lambda>m. fst m < tm) ms = filter (\<lambda>m. fst m < tm) ms \<and>
      dropWhile (\<lambda>m. fst m < tm) ms = filter (\<lambda>m. tm \<le> fst m) ms"
    if "sorted_messages ms" for tm and ms :: "'a message list"
    using that by (induction ms) (auto simp: not_less intro!: filter_True [symmetric] filter_False [symmetric] intro: order_trans)
  from this [OF assms] planner_schedule_messages(1) [OF assms planner_enqueue_Inr refl]
  show ?thesis by (simp add: max_time_zero)
qed

subsection \<open>Runs of the worker alone\<close>

lemma worker_step_planner: "worker_step s s' \<Longrightarrow> planner_step s s'"
  by (induction rule: worker_step.induct) (blast intro: planner_step.intros)+

lemma deliver_inevitable:
  "sys_worker s = Delivering ms \<Longrightarrow>
   inevitably worker_step (\<lambda>s'. s' = s\<lparr>sys_worker := Collecting,
     sys_delivered := rev (map (\<lambda>m. (m, sys_now s)) ms) @ sys_delivered s\<rparr>) s"
proof (induction ms arbitrary: s)
  case Nil
  show ?case
    by (rule inevitably_det [where step = worker_step, OF worker_step.delivered [OF Nil]])
      (use Nil in \<open>auto simp: worker_deliver_def elim: worker_stepE intro: inevitably.now\<close>)
next
  case (Cons m ms)
  let ?s = "s\<lparr>sys_worker := worker_deliver (m # ms), sys_delivered := (m, sys_now s) # sys_delivered s\<rparr>"
  have "sys_worker ?s = Delivering ms" by (simp add: worker_deliver_def)
  note Cons.IH [OF this]
  then show ?case
    by (intro inevitably_det [where step = worker_step, OF worker_step.deliver [OF Cons.prems]])
      (use Cons.prems in \<open>auto elim: worker_stepE\<close>)
qed

text \<open>Whatever the adjustment, a message whose time has come is among those the worker takes.\<close>

lemma due_collected:
  assumes "job_ok adj s"
  shows "filter_mset (\<lambda>m. fst m \<le> sys_now s) (mset (messages (sys_job s))) \<subseteq>#
    mset (takeWhile (\<lambda>m. abs_time (sys_job s) (fst m) \<le> sys_now s) (messages (sys_job s)))"
proof -
  have "filter_mset (\<lambda>m. fst m \<le> sys_now s) (mset ms) \<subseteq>#
      mset (takeWhile (\<lambda>m. abs_time (sys_job s) (fst m) \<le> sys_now s) ms)"
    if "sorted_messages ms" "list_all (\<lambda>m. moment_ok (fst m)) ms" for ms :: "'a message list"
    using that
  proof (induction ms)
    case (Cons a ms)
    show ?case
    proof (cases "fst a \<le> sys_now s")
      case True
      then have "abs_time (sys_job s) (fst a) \<le> sys_now s"
        using abs_time_le [of "fst a" "sys_job s"] assms Cons.prems by (auto simp: job_ok_def intro: order_trans)
      with True Cons show ?thesis by simp
    next
      case False
      then have "filter_mset (\<lambda>m. fst m \<le> sys_now s) (mset (a # ms)) = {#}"
        using Cons.prems(1) by (force simp: filter_mset_eq_mempty_iff not_le intro: less_le_trans)
      then show ?thesis by simp
    qed
  qed simp
  then show ?thesis using assms by (simp add: job_ok_def)
qed

lemma collect_inevitable:
  assumes "sys_worker s = Collecting" and "\<not> terminating (sys_job s)"
  shows "inevitably worker_step (\<lambda>s'. sys_delivered s' = rev (map (\<lambda>m. (m, sys_now s))
      (takeWhile (\<lambda>m. abs_time (sys_job s) (fst m) \<le> sys_now s) (messages (sys_job s)))) @ sys_delivered s) s"
proof -
  let ?due = "takeWhile (\<lambda>m. abs_time (sys_job s) (fst m) \<le> sys_now s) (messages (sys_job s))"
  show ?thesis
  proof (cases "?due = []")
    case False
    obtain job w where c: "worker_collect (sys_now s) (sys_job s) = (job, w)" by (rule prod.exhaust)
    then have w: "w = Delivering ?due" using False assms(2) by (auto intro: worker_collect_cases [OF c])
    show ?thesis
    proof (rule inevitably_det [where step = worker_step, OF worker_step.collect [OF assms(1) c]])
      show "worker_step s t \<Longrightarrow> t = s\<lparr>sys_job := job, sys_worker := w\<rparr>" for t
        using assms(1) c by (auto elim: worker_stepE)
    qed (rule inevitably_mono [OF deliver_inevitable], simp_all add: w)
  qed (simp add: inevitably.now)
qed

text \<open>The worker that waits while a message is due has a reason to wake up.\<close>

lemma wait_has_reason:
  assumes "planner_reachable adj start s" and "sys_worker s = Waiting pabs"
    and "m \<in> set (messages (sys_job s))" and "fst m \<le> sys_now s"
  shows "\<exists>s'. worker_step s s'"
proof -
  have "\<exists>awakened. wait_returns (sys_now s) awakened pabs (sys_job s)"
  proof (cases "have_new_events (sys_job s)")
    case False
    note ok = planner_reachable_ok(1) [OF assms(1)]
    let ?h = "hd (messages (sys_job s))"
    obtain t where t: "pabs = Some t" "t \<le> abs_time (sys_job s) (fst ?h)"
      using planner_reachable_ok(3) [OF assms(1)] False assms(2,3) by (auto simp: wait_ok_def)
    moreover have "abs_time (sys_job s) (fst ?h) \<le> fst ?h" "fst ?h \<le> fst m"
      using ok assms(3) by (cases "messages (sys_job s)"; auto simp: job_ok_def list_all_iff intro!: abs_time_le)+
    ultimately have "t \<le> sys_now s" using assms(4) by order
    with t show ?thesis by (intro exI [of _ False]) (simp add: wait_returns_def)
  qed (auto simp: wait_returns_def intro: exI [of _ True])
  then show ?thesis using worker_step.wake [OF assms(2) _ surjective_pairing] by blast
qed

lemma worker_step_wake:
  assumes "worker_step s s'" and "sys_worker s = Waiting pabs" and "\<not> terminating (sys_job s)"
  shows "sys_worker s' = Collecting" and "\<not> terminating (sys_job s')" and "sys_now s' = sys_now s"
    and "messages (sys_job s') = messages (sys_job s)" and "sys_delivered s' = sys_delivered s"
proof -
  obtain awakened job w where "worker_wake (sys_now s) awakened pabs (sys_job s) = (job, w)"
    and s': "s' = s\<lparr>sys_job := job, sys_worker := w\<rparr>"
    using assms(1,2) by (auto elim!: worker_stepE)
  note w = worker_wake_cases [OF this(1)]
  show "sys_worker s' = Collecting" "\<not> terminating (sys_job s')" "sys_now s' = sys_now s"
    "messages (sys_job s') = messages (sys_job s)" "sys_delivered s' = sys_delivered s"
    using w assms(3) by (auto simp: s')
qed

abbreviation due_messages :: "'g planner_system \<Rightarrow> 'g message multiset" where
  "due_messages s \<equiv> filter_mset (\<lambda>m. fst m \<le> sys_now s) (mset (messages (sys_job s)))"

lemma collecting_delivers:
  assumes "job_ok adj s" and "sys_worker s = Collecting" and "\<not> terminating (sys_job s)"
  shows "inevitably worker_step (\<lambda>s'. \<exists>ds. sys_delivered s' = map (\<lambda>m. (m, sys_now s)) ds @ sys_delivered s \<and>
    due_messages s \<subseteq># mset ds) s"
  by (rule inevitably_mono [OF collect_inevitable [OF assms(2,3)]])
    (use due_collected [OF assms(1)] in \<open>auto simp: rev_map intro!: exI [of _ "rev ms" for ms]\<close>)

lemma worker_delivers:
  assumes "planner_reachable adj start s" and "sys_worker s \<noteq> Stopped" and "\<not> terminating (sys_job s)"
  shows "inevitably worker_step (\<lambda>s'. \<exists>ds. sys_delivered s' = map (\<lambda>m. (m, sys_now s)) ds @ sys_delivered s \<and>
    due_messages s \<subseteq># mset ds) s"
proof -
  note ok = planner_reachable_ok(1) [OF assms(1)]
  show ?thesis
  proof (cases "sys_worker s")
    case Collecting
    from collecting_delivers [OF ok this assms(3)] show ?thesis .
  next
    case (Waiting pabs)
    show ?thesis
    proof (cases "due_messages s = {#}")
      case False
      then obtain m where "m \<in> set (messages (sys_job s))" "fst m \<le> sys_now s" by (auto simp: filter_mset_eq_mempty_iff)
      from wait_has_reason [OF assms(1) Waiting this] obtain s' where "worker_step s s'" ..
      then show ?thesis
      proof (rule inevitably.later)
        fix t assume t: "worker_step s t"
        note w = worker_step_wake [OF t Waiting assms(3)]
        show "inevitably worker_step (\<lambda>s'. \<exists>ds. sys_delivered s' = map (\<lambda>m. (m, sys_now s)) ds @ sys_delivered s \<and>
            due_messages s \<subseteq># mset ds) t"
          using collecting_delivers [OF job_ok_step [OF worker_step_planner [OF t] ok] w(1,2)] by (simp only: w)
      qed
    qed (auto intro!: inevitably.now exI [of _ "[]"])
  next
    case (Delivering ms)
    show ?thesis
    proof (rule inevitably_trans [OF deliver_inevitable [OF Delivering]])
      fix t assume t: "t = s\<lparr>sys_worker := Collecting,
        sys_delivered := rev (map (\<lambda>m. (m, sys_now s)) ms) @ sys_delivered s\<rparr>"
      have "job_ok adj t" using ok by (simp add: t job_ok_def)
      from collecting_delivers [OF this] assms(3)
      have "inevitably worker_step (\<lambda>s'. \<exists>ds. sys_delivered s' =
          map (\<lambda>m. (m, sys_now s)) ds @ rev (map (\<lambda>m. (m, sys_now s)) ms) @ sys_delivered s \<and>
          due_messages s \<subseteq># mset ds) t" by (simp add: t)
      then show "inevitably worker_step (\<lambda>s'. \<exists>ds. sys_delivered s' = map (\<lambda>m. (m, sys_now s)) ds @ sys_delivered s \<and>
          due_messages s \<subseteq># mset ds) t"
      proof (rule inevitably_mono, elim exE conjE)
        fix t ds assume "sys_delivered t =
            map (\<lambda>m. (m, sys_now s)) ds @ rev (map (\<lambda>m. (m, sys_now s)) ms) @ sys_delivered s"
          and "due_messages s \<subseteq># mset ds"
        then show "\<exists>ds. sys_delivered t = map (\<lambda>m. (m, sys_now s)) ds @ sys_delivered s \<and> due_messages s \<subseteq># mset ds"
          by (intro exI [of _ "ds @ rev ms"]) (simp add: rev_map subset_mset.add_increasing2)
      qed
    qed
  qed (use assms(2) in simp)
qed

lemma planner_reachable_rtranclp:
  "planner_step\<^sup>*\<^sup>* s s' \<Longrightarrow> planner_reachable adj start s \<Longrightarrow> planner_reachable adj start s'"
  by (induction rule: rtranclp_induct) (auto intro: planner_reachable.step)

subsection \<open>A run\<close>

text \<open>Goal 7 is scheduled for second 1 and the clock goes on to second 2.\<close>

definition planner_example :: "nat planner_system" where
  "planner_example = \<lparr>sys_job = planner_create False\<lparr>messages := [(Time 1 0, 7)], have_new_events := True\<rparr>,
     sys_worker = Collecting, sys_now = Time 2 0, sys_scheduled = [(Time 1 0, 7)], sys_removed = [],
     sys_delivered = []\<rparr>"

lemmas planner_example_defs = planner_example_def planner_create_def planner_init_def planner_schedule_def
  time_zero_def time_ok_def USEC_MAX_def less_Time_def less_eq_Time_def time_less_eq_def time_less_def abs_time_def

lemma planner_example_reachable: "planner_reachable False time_zero planner_example"
proof -
  let ?s0 = "planner_init False time_zero :: nat planner_system"
  let ?s1 = "planner_example\<lparr>sys_now := time_zero\<rparr>"
  have "planner_reachable False time_zero ?s0" by (rule planner_reachable.init) simp
  moreover have "planner_step ?s0 ?s1"
    using planner_step.schedule [of 7 "Time 1 0" ?s0 "sys_job planner_example"]
    by (simp add: planner_example_defs)
  moreover have "planner_step ?s1 planner_example"
    using planner_step.tick [of ?s1 "Time 2 0"] by (simp add: planner_example_defs)
  ultimately show ?thesis by (blast intro: planner_reachable.step)
qed

section \<open>Properties\<close>

text \<open>
  C9: On an ordered list \<^verbatim>\<open>schedule\<close> refuses a null goal and otherwise puts the message behind all
  earlier ones and before those of its own time or later, so that the list stays ordered, with a
  time before the epoch taken for the epoch; the worker's loop takes exactly the messages that are
  due, in their order, leaves exactly the others and remembers the moment of the first of them;
  \<^verbatim>\<open>unschedule\<close> removes exactly the messages of its goal and returns how many there were.
\<close>

theorem planner_queue_correct:
  assumes "plain_job job"
  shows "planner_schedule None time job = Inl (InvalidArgument ''goal is null'') \<and>
    (\<exists>job'. planner_schedule (Some g) time job = Inr job' \<and> plain_job job' \<and>
      messages job' = filter (\<lambda>m. fst m < max time_zero time) (messages job) @ (max time_zero time, g) #
        filter (\<lambda>m. max time_zero time \<le> fst m) (messages job)) \<and>
    (\<exists>pending rest. pump_loop job now (messages job) =
        (pending, rest, case rest of [] \<Rightarrow> None | m # _ \<Rightarrow> Some (fst m)) \<and>
      pending @ rest = messages job \<and> sorted_messages (pending @ rest) \<and>
      mset pending = filter_mset (\<lambda>m. fst m \<le> now) (mset (messages job)) \<and>
      mset rest = filter_mset (\<lambda>m. now < fst m) (mset (messages job))) \<and>
    planner_unschedule g job =
      (job\<lparr>messages := filter (\<lambda>m. snd m \<noteq> g) (messages job)\<rparr>, count (mset (map snd (messages job))) g)"
proof (intro conjI)
  have s: "sorted_messages (messages job)" and abs: "abs_time job = (\<lambda>t. t)"
    using assms by (simp_all add: plain_job_def fun_eq_iff abs_time_def)
  show "\<exists>job'. planner_schedule (Some g) time job = Inr job' \<and> plain_job job' \<and>
      messages job' = filter (\<lambda>m. fst m < max time_zero time) (messages job) @ (max time_zero time, g) #
        filter (\<lambda>m. max time_zero time \<le> fst m) (messages job)"
    by (intro exI [of _ "planner_enqueue time g job"] conjI planner_enqueue_Inr
        planner_queue.enqueue_invar assms planner_schedule_order s)
  obtain due job' where d: "planner_dequeue now job = (due, job')" by (rule prod.exhaust)
  note e = planner_dequeue_split [OF assms d] planner_queue.dequeue_exact [OF assms d]
  have "due @ messages job' = messages job" by (simp add: e(1,2))
  moreover have "pump_loop job now (messages job) =
      (due, messages job', case messages job' of [] \<Rightarrow> None | m # _ \<Rightarrow> Some (fst m))"
    unfolding pump_loop_split abs by (simp add: e(1,2))
  ultimately show "\<exists>pending rest. pump_loop job now (messages job) =
        (pending, rest, case rest of [] \<Rightarrow> None | m # _ \<Rightarrow> Some (fst m)) \<and>
      pending @ rest = messages job \<and> sorted_messages (pending @ rest) \<and>
      mset pending = filter_mset (\<lambda>m. fst m \<le> now) (mset (messages job)) \<and>
      mset rest = filter_mset (\<lambda>m. now < fst m) (mset (messages job))"
    using s by (intro exI [of _ due] exI [of _ "messages job'"] conjI e(3,4)) simp_all
qed (simp_all add: planner_schedule_def planner_unschedule_def unschedule_loop_filter count_mset_map_snd del: mset_map)

theorem planner_queue_correct_witness:
  "\<exists>job'. planner_schedule (Some 9) (Time 5 0)
      (planner_create False\<lparr>messages := [(Time 1 0, 7), (Time 5 0, 8::nat)]\<rparr>) = Inr job' \<and>
    messages job' = [(Time 1 0, 7), (Time 5 0, 9), (Time 5 0, 8)]"
proof -
  have "plain_job (planner_create False\<lparr>messages := [(Time 1 0, 7), (Time 5 0, 8::nat)]\<rparr>)"
    by (simp add: plain_job_def planner_create_def less_eq_Time_def time_less_eq_def time_less_def)
  from planner_queue_correct [OF this, of "Time 5 0" 9]
  show ?thesis
    by (auto simp: planner_create_def max_def time_zero_def less_Time_def less_eq_Time_def time_less_eq_def time_less_def)
qed

text \<open>
  C1: In every interleaving of clients, clock and worker each message ever scheduled is exactly
  once in the list, in the worker's hands, delivered or taken back by \<^verbatim>\<open>unschedule\<close> or \<^verbatim>\<open>clear\<close>, none
  comes from elsewhere, and without the adjustment of delivery times none is delivered before
  its time.
\<close>

theorem planner_delivers:
  assumes "planner_reachable adjustment start s"
  shows "mset (sys_scheduled s) = mset (messages (sys_job s)) + mset (pending_of (sys_worker s)) +
      mset (map fst (sys_delivered s)) + mset (sys_removed s) \<and>
    sorted_messages (messages (sys_job s)) \<and>
    (\<not> adjustment \<longrightarrow> list_all (\<lambda>(m, t). fst m \<le> t) (sys_delivered s))"
  using planner_reachable_ok [OF assms] by (simp add: conserved_def job_ok_def never_early_def)

theorem planner_delivers_witness:
  "\<exists>s'. planner_step\<^sup>*\<^sup>* planner_example s' \<and> ((Time 1 0, 7), Time 2 0) \<in> set (sys_delivered s') \<and>
    mset (sys_scheduled s') = mset (messages (sys_job s')) + mset (pending_of (sys_worker s')) +
      mset (map fst (sys_delivered s')) + mset (sys_removed s')"
proof -
  have "sys_worker planner_example = Collecting" "\<not> terminating (sys_job planner_example)"
    by (simp_all add: planner_example_defs)
  from inevitably_reaches [OF collect_inevitable [OF this]]
  obtain s' where s': "worker_step\<^sup>*\<^sup>* planner_example s'" "((Time 1 0, 7), Time 2 0) \<in> set (sys_delivered s')"
    by (auto simp: planner_example_defs)
  have "planner_step\<^sup>*\<^sup>* planner_example s'"
    using s'(1) rtranclp_mono [of worker_step planner_step] worker_step_planner by blast
  with s'(2) planner_delivers [OF planner_reachable_rtranclp [OF this planner_example_reachable]]
  show ?thesis by blast
qed

text \<open>
  C2: No wake-up is lost and no message is forgotten.  While the worker waits and no new event is
  announced, its time limit is no later than the moment any message in the list is due.  And as
  long as the planner is not terminated, from every reachable state every run of the worker's own
  steps, in which its wait returns only for new events or because its time limit has passed,
  delivers at once all messages in the list whose time has come, and is not stuck before.
\<close>

theorem planner_no_lost_wakeup:
  assumes "planner_reachable adjustment start s"
  shows "(\<forall>pabs m. sys_worker s = Waiting pabs \<longrightarrow> \<not> have_new_events (sys_job s) \<longrightarrow>
      m \<in> set (messages (sys_job s)) \<longrightarrow> (\<exists>t. pabs = Some t \<and> t \<le> abs_time (sys_job s) (fst m))) \<and>
    (sys_worker s \<noteq> Stopped \<longrightarrow> \<not> terminating (sys_job s) \<longrightarrow>
      inevitably worker_step (\<lambda>s'. \<exists>ds. sys_delivered s' = map (\<lambda>m. (m, sys_now s)) ds @ sys_delivered s \<and>
        filter_mset (\<lambda>m. fst m \<le> sys_now s) (mset (messages (sys_job s))) \<subseteq># mset ds) s)"
proof (intro conjI allI impI)
  note ok = planner_reachable_ok(1) [OF assms]
  fix pabs m assume w: "sys_worker s = Waiting pabs" "\<not> have_new_events (sys_job s)"
    and m: "m \<in> set (messages (sys_job s))"
  then obtain t where "pabs = Some t" "t \<le> abs_time (sys_job s) (fst (hd (messages (sys_job s))))"
    using planner_reachable_ok(3) [OF assms] by (auto simp: wait_ok_def)
  moreover have "abs_time (sys_job s) (fst (hd (messages (sys_job s)))) \<le> abs_time (sys_job s) (fst m)"
    using ok m by (intro abs_time_mono; cases "messages (sys_job s)") (auto simp: job_ok_def list_all_iff)
  ultimately show "\<exists>t. pabs = Some t \<and> t \<le> abs_time (sys_job s) (fst m)" by (auto intro: order_trans)
qed (rule worker_delivers [OF assms])

theorem planner_no_lost_wakeup_witness:
  "inevitably worker_step (\<lambda>s'. ((Time 1 0, 7), Time 2 0) \<in> set (sys_delivered s')) planner_example"
proof -
  have "inevitably worker_step (\<lambda>s'. \<exists>ds. sys_delivered s' = map (\<lambda>m. (m, Time 2 0)) ds \<and> {#(Time 1 0, 7)#} \<subseteq># mset ds)
      planner_example"
    using planner_no_lost_wakeup [OF planner_example_reachable] by (simp add: planner_example_defs)
  then show ?thesis by (rule inevitably_mono) (auto simp: single_subset_iff)
qed

end
