(* ===== verification/Active_Object.thy ===== *)
theory Active_Object
  imports Prelude "HOL-Library.Monad_Syntax"
begin

text \<open>
  The life cycle of active objects: \<^verbatim>\<open>SimpleActiveObject\<close> and the thread start of
  \<^verbatim>\<open>ActiveObjectCommonImpl\<close> (\<^verbatim>\<open>src/src/Generics/ActiveObject.cpp\<close>, \<^verbatim>\<open>ThreadRunner.cpp\<close>), and
  \<^verbatim>\<open>CompositeActiveObject\<close> (\<^verbatim>\<open>CompositeActiveObject.hpp\<close>), which activates, deactivates and waits for
  a sequence of active objects as one.  An operation returns the exception it throws, if any,
  and the object behind it; a wait that cannot return by itself is \<open>None\<close>.  Messages are
  without the name of the function that the source puts in front.
\<close>

section \<open>Simple active objects\<close>

datatype ACTIVE_STATE = AS_ACTIVE | AS_DEACTIVATING | AS_NOT_ACTIVE

datatype active_error =
    AlreadyActive (what: string)
  | ChildException (what: string)
  | ActiveException (what: string)

type_synonym 'c operation = "'c \<Rightarrow> (active_error option \<times> 'c) option"

text \<open>\<open>ao_data\<close> is what a derived class adds; its virtual functions are arguments of the operations.\<close>

record 'd SimpleActiveObject =
  ao_state :: ACTIVE_STATE
  ao_data :: 'd

definition simple_activate :: "'d operation \<Rightarrow> 'd SimpleActiveObject operation" where
  "simple_activate activate_hook s =
     (if ao_state s = AS_NOT_ACTIVE then
        do {
          (r, d) \<leftarrow> activate_hook (ao_data s);
          Some (case r of
              None \<Rightarrow> (None, s\<lparr>ao_data := d, ao_state := AS_ACTIVE\<rparr>)
            | Some e \<Rightarrow> (Some e, s\<lparr>ao_data := d\<rparr>))
        }
      else Some (Some (AlreadyActive ''already active''), s))"

definition simple_deactivate :: "'d operation \<Rightarrow> 'd SimpleActiveObject operation" where
  "simple_deactivate deactivate_hook s =
     (if ao_state s \<noteq> AS_ACTIVE then Some (None, s)
      else do {
        (r, d) \<leftarrow> deactivate_hook (ao_data s);
        Some (case r of
            None \<Rightarrow> (None, s\<lparr>ao_data := d, ao_state := AS_DEACTIVATING\<rparr>)
          | Some e \<Rightarrow> (Some e, s\<lparr>ao_data := d, ao_state := AS_ACTIVE\<rparr>))
      })"

definition simple_wait :: "('d \<Rightarrow> bool) \<Rightarrow> 'd operation \<Rightarrow> 'd SimpleActiveObject operation" where
  "simple_wait wait_more wait_hook s =
     (if ao_state s = AS_ACTIVE \<or> wait_more (ao_data s) then None
      else do {
        (r, d) \<leftarrow> wait_hook (ao_data s);
        Some (case r of
            Some e \<Rightarrow> (Some e, s\<lparr>ao_data := d\<rparr>)
          | None \<Rightarrow> (None, s\<lparr>ao_data := d,
              ao_state := (if ao_state s = AS_DEACTIVATING then AS_NOT_ACTIVE else ao_state s)\<rparr>))
      })"

definition simple_active :: "'d SimpleActiveObject \<Rightarrow> bool" where
  "simple_active s \<longleftrightarrow> ao_state s = AS_ACTIVE"

text \<open>The virtual functions that a class does not override.\<close>

definition no_hook :: "'d operation" where "no_hook d = Some (None, d)"

definition no_wait_more :: "'d \<Rightarrow> bool" where "no_wait_more d \<longleftrightarrow> False"

section \<open>Starting threads\<close>

text \<open>
  \<^verbatim>\<open>ThreadRunner::start\<close>: the number of running threads, where \<open>created i\<close> says whether the
  creation of thread \<open>i\<close> succeeds.  After a failure the threads created so far end without
  running their job.
\<close>

function start_loop :: "(nat \<Rightarrow> bool) \<Rightarrow> nat \<Rightarrow> nat \<Rightarrow> nat option" where
  "start_loop created number_running to_start =
     (if number_running < to_start then
        (if created number_running then start_loop created (number_running + 1) to_start else None)
      else Some number_running)"
  by pat_completeness auto

termination by (relation "measure (\<lambda>(created, n, m). m - n)") auto

definition thread_start :: "(nat \<Rightarrow> bool) \<Rightarrow> nat \<Rightarrow> nat \<Rightarrow> nat \<Rightarrow> active_error + nat" where
  "thread_start created number_of_jobs to_start number_running =
     (if number_running \<noteq> 0 then Inl (ActiveException ''already started'')
      else let to_start = (if to_start = 0 \<or> to_start > number_of_jobs then number_of_jobs else to_start)
           in case start_loop created 0 to_start of
                None \<Rightarrow> Inl (ActiveException ''thread start'')
              | Some n \<Rightarrow> Inr n)"

definition thread_start_one :: "(nat \<Rightarrow> bool) \<Rightarrow> nat \<Rightarrow> nat \<Rightarrow> active_error + nat" where
  "thread_start_one created number_of_jobs number_running =
     (if number_running = number_of_jobs
      then Inl (ActiveException ''all threads are already started'')
      else if created number_running then Inr (number_running + 1)
      else Inl (ActiveException ''thread start''))"

section \<open>Composite active objects\<close>

text \<open>
  The children come with their operations \<open>act\<close>, \<open>deact\<close> and \<open>wt\<close>.  A loop over the children
  applies one of them to each and collects the texts of the exceptions; the loops that run
  backwards take and return the reversed sequence.
\<close>

fun children_loop :: "'c operation \<Rightarrow> 'c list \<Rightarrow> (string \<times> 'c list) option" where
  "children_loop f [] = Some ([], [])"
| "children_loop f (c # cs) =
     do {
       (r, c') \<leftarrow> f c;
       (errors, cs') \<leftarrow> children_loop f cs;
       Some ((case r of None \<Rightarrow> [] | Some e \<Rightarrow> what e @ [CHR 0x0A]) @ errors, c' # cs')
     }"

definition throw_errors :: "string \<Rightarrow> string \<Rightarrow> active_error option" where
  "throw_errors message errors =
     (if errors \<noteq> [] then Some (ActiveException (message @ [CHR 0x0A] @ errors)) else None)"

definition wait_for_some_objects :: "'c operation \<Rightarrow> 'c list operation" where
  "wait_for_some_objects wt cs =
     do {
       (errors, cs') \<leftarrow> children_loop wt cs;
       Some (throw_errors ''Can't wait child active object. Caught eh::Exception:'' errors, cs')
     }"

text \<open>Deactivation of one child, with the wait that follows it for a synchronous termination.\<close>

definition deactivate_child :: "'c operation \<Rightarrow> 'c operation \<Rightarrow> bool \<Rightarrow> 'c operation" where
  "deactivate_child deact wt synchronous c =
     do {
       (r, c') \<leftarrow> deact c;
       if r = None \<and> synchronous then wt c' else Some (r, c')
     }"

definition deactivate_objects :: "'c operation \<Rightarrow> 'c operation \<Rightarrow> bool \<Rightarrow> 'c list operation" where
  "deactivate_objects deact wt synchronous cs =
     do {
       (errors, cs') \<leftarrow> children_loop (deactivate_child deact wt synchronous) cs;
       Some (throw_errors ''Can't deactivate child active object. Caught eh::Exception:'' errors, cs')
     }"

text \<open>Deactivation of the given children, last one first, and the wait for them unless it failed.\<close>

definition stop_objects :: "'c operation \<Rightarrow> 'c operation \<Rightarrow> bool \<Rightarrow> 'c list operation" where
  "stop_objects deact wt synchronous cs =
     do {
       (r, cs') \<leftarrow> deactivate_objects deact wt synchronous (rev cs);
       (r', cs'') \<leftarrow> (if r = None then wait_for_some_objects wt cs' else Some (r, cs'));
       Some (r', rev cs'')
     }"

text \<open>The children that are activated so far, and the exception of the next one with the rest.\<close>

fun activate_loop :: "'c operation \<Rightarrow> 'c list \<Rightarrow> ('c list \<times> (active_error \<times> 'c list) option) option" where
  "activate_loop act [] = Some ([], None)"
| "activate_loop act (c # cs) =
     do {
       (r, c') \<leftarrow> act c;
       (case r of
          Some e \<Rightarrow> Some ([], Some (e, c' # cs))
        | None \<Rightarrow> do {
            (active, failed) \<leftarrow> activate_loop act cs;
            Some (c' # active, failed)
          })
     }"

record 'c CompositeData =
  SYNCHRONOUS :: bool
  child_objects :: "'c list"

type_synonym 'c CompositeActiveObject = "'c CompositeData SimpleActiveObject"

definition composite_activate_hook ::
  "'c operation \<Rightarrow> 'c operation \<Rightarrow> 'c operation \<Rightarrow> 'c CompositeData operation" where
  "composite_activate_hook act deact wt d =
     do {
       (active, failed) \<leftarrow> activate_loop act (child_objects d);
       (case failed of
          None \<Rightarrow> Some (None, d\<lparr>child_objects := active\<rparr>)
        | Some (e, rest) \<Rightarrow> do {
            (r, stopped) \<leftarrow> stop_objects deact wt (SYNCHRONOUS d) active;
            Some (Some (ChildException (what e @ (case r of None \<Rightarrow> [] | Some e' \<Rightarrow> what e'))),
              d\<lparr>child_objects := stopped @ rest\<rparr>)
          })
     }"

definition composite_deactivate_hook :: "'c operation \<Rightarrow> 'c operation \<Rightarrow> 'c CompositeData operation" where
  "composite_deactivate_hook deact wt d =
     do {
       (r, cs) \<leftarrow> deactivate_objects deact wt (SYNCHRONOUS d) (rev (child_objects d));
       Some (r, d\<lparr>child_objects := rev cs\<rparr>)
     }"

definition composite_wait_hook :: "'c operation \<Rightarrow> 'c CompositeData operation" where
  "composite_wait_hook wt d =
     do {
       (r, cs) \<leftarrow> wait_for_some_objects wt (rev (child_objects d));
       Some (r, d\<lparr>child_objects := rev cs\<rparr>)
     }"

definition composite_create :: "bool \<Rightarrow> 'c CompositeActiveObject" where
  "composite_create sync_termination =
     \<lparr>ao_state = AS_NOT_ACTIVE, ao_data = \<lparr>SYNCHRONOUS = sync_termination, child_objects = []\<rparr>\<rparr>"

definition composite_activate ::
  "'c operation \<Rightarrow> 'c operation \<Rightarrow> 'c operation \<Rightarrow> 'c CompositeActiveObject operation" where
  "composite_activate act deact wt = simple_activate (composite_activate_hook act deact wt)"

definition composite_deactivate :: "'c operation \<Rightarrow> 'c operation \<Rightarrow> 'c CompositeActiveObject operation" where
  "composite_deactivate deact wt = simple_deactivate (composite_deactivate_hook deact wt)"

definition composite_wait :: "'c operation \<Rightarrow> 'c CompositeActiveObject operation" where
  "composite_wait wt = simple_wait no_wait_more (composite_wait_hook wt)"

text \<open>The state a new child is brought to, as its composite is.\<close>

definition adjust_child ::
  "'c operation \<Rightarrow> 'c operation \<Rightarrow> 'c operation \<Rightarrow> ('c \<Rightarrow> bool) \<Rightarrow> ACTIVE_STATE \<Rightarrow> 'c operation" where
  "adjust_child act deact wt active state child =
     (if state = AS_ACTIVE then (if \<not> active child then act child else Some (None, child))
      else if active child then do {
          (r, child) \<leftarrow> deact child;
          (if r = None then wt child else Some (r, child))
        }
      else Some (None, child))"

definition add_child_object ::
  "'c operation \<Rightarrow> 'c operation \<Rightarrow> 'c operation \<Rightarrow> ('c \<Rightarrow> bool) \<Rightarrow> 'c \<Rightarrow> bool \<Rightarrow>
   'c CompositeActiveObject operation" where
  "add_child_object act deact wt active child add_to_head s =
     do {
       (r, child) \<leftarrow> adjust_child act deact wt active (ao_state s) child;
       Some (case r of
           Some e \<Rightarrow>
             (Some (ActiveException (''Can't add object. Caught eh::Exception: '' @ what e)), s)
         | None \<Rightarrow>
             (let cs = child_objects (ao_data s)
              in (None, s\<lparr>ao_data := (ao_data s)\<lparr>child_objects :=
                   (if add_to_head then child # cs else cs @ [child])\<rparr>\<rparr>)))
     }"

definition clear_children :: "'c operation \<Rightarrow> 'c operation \<Rightarrow> 'c CompositeActiveObject operation" where
  "clear_children deact wt s =
     (if ao_state s \<noteq> AS_NOT_ACTIVE then do {
        (r, cs) \<leftarrow> stop_objects deact wt (SYNCHRONOUS (ao_data s)) (child_objects (ao_data s));
        Some (case r of
            Some e \<Rightarrow> (Some e, s\<lparr>ao_data := (ao_data s)\<lparr>child_objects := cs\<rparr>\<rparr>)
          | None \<Rightarrow> (None, s\<lparr>ao_state := AS_NOT_ACTIVE, ao_data := (ao_data s)\<lparr>child_objects := []\<rparr>\<rparr>))
      }
      else Some (None, s\<lparr>ao_data := (ao_data s)\<lparr>child_objects := []\<rparr>\<rparr>))"

section \<open>The contract of active objects\<close>

text \<open>
  What a composite relies on in its children: every operation returns; activation turns an
  object that is not active into an active one or leaves it as it is, with an exception;
  deactivation and wait do not fail, and the wait ends what the deactivation began.
\<close>

locale active_object =
  fixes ok :: "'c \<Rightarrow> bool"
    and st :: "'c \<Rightarrow> ACTIVE_STATE"
    and act :: "'c operation"
    and deact :: "'c operation"
    and wt :: "'c operation"
  assumes act_spec: "ok c \<Longrightarrow> \<exists>r c'. act c = Some (r, c') \<and> ok c' \<and>
      (if r = None then st c = AS_NOT_ACTIVE \<and> st c' = AS_ACTIVE else st c' = st c)"
    and deact_spec: "ok c \<Longrightarrow> \<exists>c'. deact c = Some (None, c') \<and> ok c' \<and>
      st c' = (if st c = AS_ACTIVE then AS_DEACTIVATING else st c)"
    and wt_spec: "ok c \<Longrightarrow> st c \<noteq> AS_ACTIVE \<Longrightarrow> \<exists>c'. wt c = Some (None, c') \<and> ok c' \<and> st c' = AS_NOT_ACTIVE"

text \<open>The children of a composite are in the state it is in.\<close>

definition composite_ok :: "('c \<Rightarrow> bool) \<Rightarrow> ('c \<Rightarrow> ACTIVE_STATE) \<Rightarrow> 'c CompositeActiveObject \<Rightarrow> bool" where
  "composite_ok ok st s \<longleftrightarrow>
     list_all (\<lambda>c. ok c \<and>
       (case ao_state s of
          AS_ACTIVE \<Rightarrow> st c = AS_ACTIVE
        | AS_DEACTIVATING \<Rightarrow> st c \<noteq> AS_ACTIVE
        | AS_NOT_ACTIVE \<Rightarrow> st c = AS_NOT_ACTIVE)) (child_objects (ao_data s))"

definition activatable :: "'c operation \<Rightarrow> 'c list \<Rightarrow> bool" where
  "activatable act cs \<longleftrightarrow> list_all (\<lambda>c. \<exists>c'. act c = Some (None, c')) cs"

lemma throw_errors_Nil [simp]: "throw_errors m [] = None"
  by (simp add: throw_errors_def)

context active_object
begin

lemma children_loop_ok:
  assumes "\<And>c. P c \<Longrightarrow> \<exists>c'. f c = Some (None, c') \<and> Q c'" and "list_all P cs"
  shows "\<exists>cs'. children_loop f cs = Some ([], cs') \<and> length cs' = length cs \<and> list_all Q cs'"
  using assms(2)
proof (induction cs)
  case (Cons c cs)
  then obtain cs' where "children_loop f cs = Some ([], cs')" "length cs' = length cs" "list_all Q cs'" by auto
  moreover obtain c' where "f c = Some (None, c')" "Q c'" using assms(1) [of c] Cons.prems by auto
  ultimately show ?case by simp
qed simp

lemma deactivate_child_ok:
  assumes "ok c"
  shows "\<exists>c'. deactivate_child deact wt sync c = Some (None, c') \<and> ok c' \<and> st c' \<noteq> AS_ACTIVE"
proof -
  obtain c1 where c1: "deact c = Some (None, c1)" "ok c1" "st c1 \<noteq> AS_ACTIVE"
    using deact_spec [OF assms] by (auto split: if_splits)
  with wt_spec [OF c1(2,3)] show ?thesis by (auto simp: deactivate_child_def)
qed

lemma deactivate_objects_ok:
  assumes "list_all ok cs"
  shows "\<exists>cs'. deactivate_objects deact wt sync cs = Some (None, cs') \<and> length cs' = length cs \<and>
    list_all (\<lambda>c. ok c \<and> st c \<noteq> AS_ACTIVE) cs'"
  using children_loop_ok [of ok "deactivate_child deact wt sync", OF deactivate_child_ok assms] by (auto simp: deactivate_objects_def)

lemma wait_for_some_objects_ok:
  assumes "list_all (\<lambda>c. ok c \<and> st c \<noteq> AS_ACTIVE) cs"
  shows "\<exists>cs'. wait_for_some_objects wt cs = Some (None, cs') \<and> length cs' = length cs \<and>
    list_all (\<lambda>c. ok c \<and> st c = AS_NOT_ACTIVE) cs'"
  using children_loop_ok [OF _ assms, of wt "\<lambda>c. ok c \<and> st c = AS_NOT_ACTIVE"] wt_spec
  by (auto simp: wait_for_some_objects_def)

lemma stop_objects_ok:
  assumes "list_all ok cs"
  shows "\<exists>cs'. stop_objects deact wt sync cs = Some (None, cs') \<and> length cs' = length cs \<and>
    list_all (\<lambda>c. ok c \<and> st c = AS_NOT_ACTIVE) cs'"
proof -
  have "list_all ok (rev cs)" using assms by simp
  then obtain cs1 where 1: "deactivate_objects deact wt sync (rev cs) = Some (None, cs1)" "length cs1 = length cs"
      "list_all (\<lambda>c. ok c \<and> st c \<noteq> AS_ACTIVE) cs1"
    using deactivate_objects_ok by (metis length_rev)
  with wait_for_some_objects_ok [OF 1(3)] show ?thesis by (auto simp: stop_objects_def)
qed

lemma activate_loop_ok:
  assumes "list_all (\<lambda>c. ok c \<and> st c = AS_NOT_ACTIVE) cs"
  shows "\<exists>active failed. activate_loop act cs = Some (active, failed) \<and>
    list_all (\<lambda>c. ok c \<and> st c = AS_ACTIVE) active \<and> (failed = None \<longleftrightarrow> activatable act cs) \<and>
    (case failed of None \<Rightarrow> length active = length cs
     | Some (e, rest) \<Rightarrow> length active + length rest = length cs \<and>
         list_all (\<lambda>c. ok c \<and> st c = AS_NOT_ACTIVE) rest)"
  using assms
proof (induction cs)
  case (Cons c cs)
  then obtain active failed where IH: "activate_loop act cs = Some (active, failed)"
      "list_all (\<lambda>c. ok c \<and> st c = AS_ACTIVE) active" "failed = None \<longleftrightarrow> activatable act cs"
      "case failed of None \<Rightarrow> length active = length cs
       | Some (e, rest) \<Rightarrow> length active + length rest = length cs \<and>
           list_all (\<lambda>c. ok c \<and> st c = AS_NOT_ACTIVE) rest" by auto
  obtain r c' where c: "act c = Some (r, c')" "ok c'"
      "if r = None then st c = AS_NOT_ACTIVE \<and> st c' = AS_ACTIVE else st c' = st c"
    using act_spec Cons.prems by fastforce
  show ?case
    by (cases r) (use IH c Cons.prems in \<open>auto simp: activatable_def split: option.splits\<close>)
qed (simp add: activatable_def)

lemma composite_activate_spec:
  assumes "composite_ok ok st s"
  shows "\<exists>r s'. composite_activate act deact wt s = Some (r, s') \<and> composite_ok ok st s' \<and>
    length (child_objects (ao_data s')) = length (child_objects (ao_data s)) \<and>
    (r = None \<longleftrightarrow> ao_state s = AS_NOT_ACTIVE \<and> activatable act (child_objects (ao_data s))) \<and>
    ao_state s' = (if r = None then AS_ACTIVE else ao_state s)"
proof (cases "ao_state s = AS_NOT_ACTIVE")
  case True
  then have "list_all (\<lambda>c. ok c \<and> st c = AS_NOT_ACTIVE) (child_objects (ao_data s))"
    using assms by (simp add: composite_ok_def)
  from activate_loop_ok [OF this] obtain active failed
    where l: "activate_loop act (child_objects (ao_data s)) = Some (active, failed)"
      "list_all (\<lambda>c. ok c \<and> st c = AS_ACTIVE) active"
      "failed = None \<longleftrightarrow> activatable act (child_objects (ao_data s))"
      "case failed of None \<Rightarrow> length active = length (child_objects (ao_data s))
       | Some (e, rest) \<Rightarrow> length active + length rest = length (child_objects (ao_data s)) \<and>
           list_all (\<lambda>c. ok c \<and> st c = AS_NOT_ACTIVE) rest" by blast
  show ?thesis
  proof (cases failed)
    case None
    then show ?thesis using True l
      by (simp add: composite_activate_def simple_activate_def composite_activate_hook_def composite_ok_def)
  next
    case (Some f)
    moreover have "list_all ok active" using l(2) by (auto simp: list_all_iff)
    from stop_objects_ok [OF this] obtain stopped
      where "stop_objects deact wt (SYNCHRONOUS (ao_data s)) active = Some (None, stopped)"
        "length stopped = length active" "list_all (\<lambda>c. ok c \<and> st c = AS_NOT_ACTIVE) stopped" by blast
    ultimately show ?thesis using True l
      by (cases f)
        (simp add: composite_activate_def simple_activate_def composite_activate_hook_def composite_ok_def)
  qed
qed (use assms in \<open>simp add: composite_activate_def simple_activate_def\<close>)

lemma composite_deactivate_spec:
  assumes "composite_ok ok st s"
  shows "\<exists>s'. composite_deactivate deact wt s = Some (None, s') \<and> composite_ok ok st s' \<and>
    length (child_objects (ao_data s')) = length (child_objects (ao_data s)) \<and>
    ao_state s' = (if ao_state s = AS_ACTIVE then AS_DEACTIVATING else ao_state s)"
proof (cases "ao_state s = AS_ACTIVE")
  case True
  have "list_all ok (rev (child_objects (ao_data s)))"
    using assms by (auto simp: composite_ok_def list_all_iff)
  from deactivate_objects_ok [OF this, of "SYNCHRONOUS (ao_data s)"] True show ?thesis
    by (auto simp: composite_deactivate_def simple_deactivate_def composite_deactivate_hook_def composite_ok_def)
qed (use assms in \<open>simp add: composite_deactivate_def simple_deactivate_def\<close>)

lemma composite_wait_spec:
  assumes "composite_ok ok st s" and "ao_state s \<noteq> AS_ACTIVE"
  shows "\<exists>s'. composite_wait wt s = Some (None, s') \<and> composite_ok ok st s' \<and>
    length (child_objects (ao_data s')) = length (child_objects (ao_data s)) \<and> ao_state s' = AS_NOT_ACTIVE"
proof -
  have "list_all (\<lambda>c. ok c \<and> st c \<noteq> AS_ACTIVE) (rev (child_objects (ao_data s)))"
    using assms by (cases "ao_state s") (auto simp: composite_ok_def list_all_iff)
  from wait_for_some_objects_ok [OF this] assms(2) show ?thesis
    by (cases "ao_state s")
      (auto simp: composite_wait_def simple_wait_def composite_wait_hook_def composite_ok_def no_wait_more_def)
qed

lemma adjust_child_ok:
  assumes "ok child"
  shows "\<exists>r c. adjust_child act deact wt (\<lambda>c. st c = AS_ACTIVE) state child = Some (r, c) \<and> ok c \<and>
    (r = None \<longrightarrow> st c = (if state = AS_ACTIVE then AS_ACTIVE else
       if st child = AS_ACTIVE then AS_NOT_ACTIVE else st child))"
proof -
  obtain c1 where c1: "deact child = Some (None, c1)" "ok c1"
      "st c1 = (if st child = AS_ACTIVE then AS_DEACTIVATING else st child)"
    using deact_spec [OF assms] by blast
  then have "st child = AS_ACTIVE \<Longrightarrow> \<exists>c2. wt c1 = Some (None, c2) \<and> ok c2 \<and> st c2 = AS_NOT_ACTIVE"
    using wt_spec [OF c1(2)] by simp
  with act_spec [OF assms] c1 assms show ?thesis
    by (cases "state = AS_ACTIVE"; cases "st child = AS_ACTIVE") (force simp: adjust_child_def)+
qed

lemma add_child_object_spec:
  assumes "composite_ok ok st s" and "ok child"
    and "ao_state s = AS_NOT_ACTIVE \<Longrightarrow> st child \<noteq> AS_DEACTIVATING"
  shows "\<exists>r s'. add_child_object act deact wt (\<lambda>c. st c = AS_ACTIVE) child add_to_head s = Some (r, s') \<and>
    composite_ok ok st s' \<and> ao_state s' = ao_state s \<and>
    length (child_objects (ao_data s')) = length (child_objects (ao_data s)) + (if r = None then 1 else 0)"
proof -
  obtain r c where "adjust_child act deact wt (\<lambda>c. st c = AS_ACTIVE) (ao_state s) child = Some (r, c)" "ok c"
      "r = None \<Longrightarrow> st c = (if ao_state s = AS_ACTIVE then AS_ACTIVE else
         if st child = AS_ACTIVE then AS_NOT_ACTIVE else st child)"
    using adjust_child_ok [OF assms(2)] by metis
  then show ?thesis
    using assms(1,3)
    by (cases r; cases "ao_state s"; cases "st child")
      (auto simp: add_child_object_def composite_ok_def Let_def split del: if_split split: if_splits)
qed

lemma clear_children_spec:
  assumes "composite_ok ok st s"
  shows "\<exists>s'. clear_children deact wt s = Some (None, s') \<and> child_objects (ao_data s') = [] \<and>
    ao_state s' = AS_NOT_ACTIVE"
proof -
  have "list_all ok (child_objects (ao_data s))" using assms by (auto simp: composite_ok_def list_all_iff)
  from stop_objects_ok [OF this, of "SYNCHRONOUS (ao_data s)"] show ?thesis by (auto simp: clear_children_def)
qed

text \<open>A composite of active objects is an active object again, so that composites can be nested.\<close>

lemma composite_contract:
  "active_object (composite_ok ok st) ao_state (composite_activate act deact wt) (composite_deactivate deact wt)
     (composite_wait wt)"
proof
  fix s :: "'c CompositeActiveObject" assume ok: "composite_ok ok st s"
  show "\<exists>r s'. composite_activate act deact wt s = Some (r, s') \<and> composite_ok ok st s' \<and>
      (if r = None then ao_state s = AS_NOT_ACTIVE \<and> ao_state s' = AS_ACTIVE else ao_state s' = ao_state s)"
    using composite_activate_spec [OF ok] by fastforce
  show "\<exists>s'. composite_deactivate deact wt s = Some (None, s') \<and> composite_ok ok st s' \<and>
      ao_state s' = (if ao_state s = AS_ACTIVE then AS_DEACTIVATING else ao_state s)"
    using composite_deactivate_spec [OF ok] by blast
  assume "ao_state s \<noteq> AS_ACTIVE"
  from composite_wait_spec [OF ok this]
  show "\<exists>s'. composite_wait wt s = Some (None, s') \<and> composite_ok ok st s' \<and> ao_state s' = AS_NOT_ACTIVE"
    by blast
qed

end

section \<open>Composites of simple objects and of composites\<close>

text \<open>
  Simple objects whose activation does \<open>f\<close>, which may fail, and whose other virtual functions
  are the inherited ones.
\<close>

abbreviation child_act :: "('d \<Rightarrow> active_error option \<times> 'd) \<Rightarrow> 'd SimpleActiveObject operation" where
  "child_act f \<equiv> simple_activate (\<lambda>d. Some (f d))"

abbreviation child_deact :: "'d SimpleActiveObject operation" where
  "child_deact \<equiv> simple_deactivate no_hook"

abbreviation child_wait :: "'d SimpleActiveObject operation" where
  "child_wait \<equiv> simple_wait no_wait_more no_hook"

interpretation simple: active_object "\<lambda>_. True" ao_state "child_act f" child_deact child_wait
  for f :: "'d \<Rightarrow> active_error option \<times> 'd"
proof
  fix s :: "'d SimpleActiveObject"
  show "\<exists>r s'. child_act f s = Some (r, s') \<and> True \<and>
      (if r = None then ao_state s = AS_NOT_ACTIVE \<and> ao_state s' = AS_ACTIVE else ao_state s' = ao_state s)"
    by (cases "f (ao_data s)"; cases "fst (f (ao_data s))"; cases "ao_state s = AS_NOT_ACTIVE";
        simp add: simple_activate_def split del: if_split; simp)
  show "\<exists>s'. child_deact s = Some (None, s') \<and> True \<and>
      ao_state s' = (if ao_state s = AS_ACTIVE then AS_DEACTIVATING else ao_state s)"
    by (simp add: simple_deactivate_def no_hook_def)
  show "ao_state s \<noteq> AS_ACTIVE \<Longrightarrow> \<exists>s'. child_wait s = Some (None, s') \<and> True \<and> ao_state s' = AS_NOT_ACTIVE"
    by (cases "ao_state s") (simp_all add: simple_wait_def no_hook_def no_wait_more_def)
qed

abbreviation simple_composite_ok :: "'d SimpleActiveObject CompositeActiveObject \<Rightarrow> bool" where
  "simple_composite_ok \<equiv> composite_ok (\<lambda>_. True) ao_state"

interpretation composite: active_object simple_composite_ok ao_state
  "composite_activate (child_act f) child_deact child_wait" "composite_deactivate child_deact child_wait"
  "composite_wait child_wait"
  for f :: "'d \<Rightarrow> active_error option \<times> 'd"
  by (rule simple.composite_contract)

text \<open>
  If the deactivation of a child throws while a failed activation is undone, the composite
  is not active but the children are not waited for, and one of them is still active.
\<close>

lemma composite_rollback_incomplete:
  fixes cs :: "nat SimpleActiveObject list"
  defines "cs \<equiv> map (\<lambda>n. \<lparr>ao_state = AS_NOT_ACTIVE, ao_data = n\<rparr>) [0, 1, 2]"
    and "act \<equiv> child_act (\<lambda>n. (if n = 2 then Some (ActiveException ''start'') else None, n))"
    and "deact \<equiv> simple_deactivate (\<lambda>n::nat. Some (if n = 1 then Some (ActiveException ''stop'') else None, n))"
  shows "map_option (\<lambda>(r, s). (r \<noteq> None, ao_state s, map ao_state (child_objects (ao_data s))))
      (composite_activate act deact child_wait
        ((composite_create False)\<lparr>ao_data := \<lparr>SYNCHRONOUS = False, child_objects = cs\<rparr>\<rparr>)) =
    Some (True, AS_NOT_ACTIVE, [AS_DEACTIVATING, AS_ACTIVE, AS_NOT_ACTIVE])"
  unfolding cs_def act_def deact_def
  by (simp add: composite_activate_def simple_activate_def composite_activate_hook_def composite_create_def
      stop_objects_def deactivate_objects_def deactivate_child_def simple_deactivate_def throw_errors_def)

section \<open>Properties\<close>



end
