(* ===== verification/Task_Runner.thy ===== *)
theory Task_Runner
  imports Active_Object Runs "HOL-Library.Multiset" "HOL-Library.Sublist"
begin

text \<open>
  \<^verbatim>\<open>Generics::TaskRunner\<close> (\<^verbatim>\<open>src/src/Generics/TaskRunner.cpp\<close>) on top of \<^verbatim>\<open>ActiveObjectCommonImpl\<close>: a queue
  of tasks, bounded if asked for, that clients fill and a pool of threads executes.  Two
  semaphores count the tasks that wait and the free places.  Every section under the mutex and
  every operation of a semaphore is one atomic step; clients, threads and the calls that
  activate, deactivate and wait interleave in any order.  Semaphores count without a limit
  (their own is \<^verbatim>\<open>SEM_VALUE_MAX\<close>), and the join of all threads is one step with the reset of their
  number.
\<close>

section \<open>The job\<close>

definition SEM_VALUE_MAX :: nat where "SEM_VALUE_MAX = 2147483647"

datatype runner_error = TaskIsNull | TaskRunnerOverflow | OutOfMemory

text \<open>\<open>new_task\<close> and \<open>not_full\<close> are the values of the semaphores.\<close>

record 't TaskRunnerJob =
  NUMBER_OF_THREADS :: nat
  number_of_unused_threads :: "32 word"
  tasks :: "'t list"
  new_task :: nat
  not_full :: nat
  LIMITED :: bool
  job_terminating :: bool

definition sem_acquire :: "nat \<Rightarrow> nat option" where
  "sem_acquire value = (if value > 0 then Some (value - 1) else None)"

definition sem_release :: "nat \<Rightarrow> nat" where
  "sem_release value = value + 1"

definition runner_create :: "nat \<Rightarrow> nat \<Rightarrow> 't TaskRunnerJob" where
  "runner_create number_of_threads max_pending_tasks =
     \<lparr>NUMBER_OF_THREADS = number_of_threads, number_of_unused_threads = 0, tasks = [], new_task = 0,
      not_full = min max_pending_tasks SEM_VALUE_MAX, LIMITED = (max_pending_tasks \<noteq> 0),
      job_terminating = False\<rparr>"

definition runner_started :: "nat \<Rightarrow> 't TaskRunnerJob \<Rightarrow> 't TaskRunnerJob" where
  "runner_started threads job = job\<lparr>number_of_unused_threads := word_of_nat threads\<rparr>"

definition release_not_full :: "'t TaskRunnerJob \<Rightarrow> 't TaskRunnerJob" where
  "release_not_full job = (if LIMITED job then job\<lparr>not_full := sem_release (not_full job)\<rparr> else job)"

definition runner_clear :: "'t TaskRunnerJob \<Rightarrow> 't TaskRunnerJob" where
  "runner_clear job = ((release_not_full ^^ length (tasks job)) job)\<lparr>tasks := []\<rparr>"

text \<open>
  \<^verbatim>\<open>enqueue_task\<close> in its steps: the check and the acquisition of a free place (a timed one ends at
  the moment a place is free, or fails), the section under the mutex and the signal.  \<open>memory\<close>
  says whether the queue can grow, \<open>created\<close> whether thread creation succeeds; the result tells
  whether a thread was added.
\<close>

definition enqueue_acquire :: "'t option \<Rightarrow> 't TaskRunnerJob \<Rightarrow> runner_error + 't TaskRunnerJob" where
  "enqueue_acquire task job =
     (case task of
        None \<Rightarrow> Inl TaskIsNull
      | Some t \<Rightarrow>
          if LIMITED job then
            (case sem_acquire (not_full job) of
               None \<Rightarrow> Inl TaskRunnerOverflow
             | Some v \<Rightarrow> Inr (job\<lparr>not_full := v\<rparr>))
          else Inr job)"

definition add_thread :: "(nat \<Rightarrow> bool) \<Rightarrow> nat \<Rightarrow> 't TaskRunnerJob \<Rightarrow> 't TaskRunnerJob \<times> nat" where
  "add_thread created running job =
     (if running = 0 \<or> running = NUMBER_OF_THREADS job then (job, running)
      else if length (tasks job) \<le> unat (number_of_unused_threads job) then (job, running)
      else case thread_start_one created (NUMBER_OF_THREADS job) running of
             Inl _ \<Rightarrow> (job, running)
           | Inr n \<Rightarrow> (job\<lparr>number_of_unused_threads := number_of_unused_threads job + 1\<rparr>, n))"

definition enqueue_push ::
  "bool \<Rightarrow> (nat \<Rightarrow> bool) \<Rightarrow> nat \<Rightarrow> 't \<Rightarrow> 't TaskRunnerJob \<Rightarrow> runner_error option \<times> 't TaskRunnerJob \<times> nat" where
  "enqueue_push memory created running task job =
     (if \<not> memory then (Some OutOfMemory, release_not_full job, running)
      else let (job, running) = add_thread created running (job\<lparr>tasks := tasks job @ [task]\<rparr>)
           in (None, job, running))"

definition enqueue_signal :: "'t TaskRunnerJob \<Rightarrow> 't TaskRunnerJob" where
  "enqueue_signal job = job\<lparr>new_task := sem_release (new_task job)\<rparr>"


text \<open>\<^verbatim>\<open>make_terminate\<close> with \<^verbatim>\<open>TaskRunnerJob::terminate\<close>, and \<^verbatim>\<open>terminated\<close>.\<close>

definition runner_terminate :: "'t TaskRunnerJob \<Rightarrow> 't TaskRunnerJob" where
  "runner_terminate job = (enqueue_signal ^^ NUMBER_OF_THREADS job) (job\<lparr>job_terminating := True\<rparr>)"

definition runner_terminated :: "'t TaskRunnerJob \<Rightarrow> 't TaskRunnerJob" where
  "runner_terminated job = job\<lparr>job_terminating := False\<rparr>"

section \<open>The threads\<close>

text \<open>
  Where a thread is in \<^verbatim>\<open>work\<close>: before the semaphore, before the lock, before the release of its
  task's place, at the execution, before the last lock of the round, or at the end.
\<close>

datatype 't runner_thread = Acquiring | Taking | Releasing 't | Executing 't | Finishing | Ended

definition thread_acquire :: "'t TaskRunnerJob \<Rightarrow> ('t TaskRunnerJob \<times> 't runner_thread) option" where
  "thread_acquire job =
     (case sem_acquire (new_task job) of None \<Rightarrow> None | Some v \<Rightarrow> Some (job\<lparr>new_task := v\<rparr>, Taking))"

definition thread_take :: "'t TaskRunnerJob \<Rightarrow> 't TaskRunnerJob \<times> 't runner_thread" where
  "thread_take job =
     (if job_terminating job then (job, Ended)
      else case tasks job of
             [] \<Rightarrow> (job, Acquiring)
           | t # ts \<Rightarrow>
               (job\<lparr>tasks := ts, number_of_unused_threads := number_of_unused_threads job - 1\<rparr>, Releasing t))"

definition thread_release :: "'t \<Rightarrow> 't TaskRunnerJob \<Rightarrow> 't TaskRunnerJob \<times> 't runner_thread" where
  "thread_release t job = (release_not_full job, Executing t)"

definition thread_finish :: "'t TaskRunnerJob \<Rightarrow> 't TaskRunnerJob \<times> 't runner_thread" where
  "thread_finish job = (job\<lparr>number_of_unused_threads := number_of_unused_threads job + 1\<rparr>, Acquiring)"

section \<open>The system\<close>

text \<open>
  Clients between the steps of \<^verbatim>\<open>enqueue_task\<close>, and the one thread that \<^verbatim>\<open>termination_mutex_\<close> lets into
  \<^verbatim>\<open>wait_object\<close>.
\<close>

datatype 't runner_client = Client_Idle | Client_Pushing 't | Client_Signalling

datatype runner_waiter = Waiter_Idle | Waiter_Joining | Waiter_Leaving

text \<open>The last four components are the history: tasks put into the queue, taken, executed and cleared.\<close>

record 't runner_system =
  rs_job :: "'t TaskRunnerJob"
  rs_start_threads :: nat
  rs_active :: ACTIVE_STATE
  rs_threads :: "'t runner_thread list"
  rs_clients :: "'t runner_client list"
  rs_waiter :: runner_waiter
  rs_pushed :: "'t list"
  rs_taken :: "'t list"
  rs_executed :: "'t list"
  rs_cleared :: "'t list"

definition runner_init :: "nat \<Rightarrow> nat \<Rightarrow> nat \<Rightarrow> nat \<Rightarrow> 't runner_system" where
  "runner_init threads_number max_pending_tasks start_threads clients =
     \<lparr>rs_job = runner_create threads_number max_pending_tasks, rs_start_threads = start_threads,
      rs_active = AS_NOT_ACTIVE, rs_threads = [], rs_clients = replicate clients Client_Idle,
      rs_waiter = Waiter_Idle, rs_pushed = [], rs_taken = [], rs_executed = [], rs_cleared = []\<rparr>"

text \<open>\<^verbatim>\<open>ActiveObjectCommonImpl\<close>: \<^verbatim>\<open>activate_object\<close>, \<^verbatim>\<open>deactivate_object\<close> and the steps of \<^verbatim>\<open>wait_object\<close>.\<close>

definition common_activate ::
  "(nat \<Rightarrow> bool) \<Rightarrow> 't runner_system \<Rightarrow> active_error option \<times> 't runner_system" where
  "common_activate created s =
     (if rs_active s \<noteq> AS_NOT_ACTIVE then (Some (AlreadyActive ''still active''), s)
      else case thread_start created (NUMBER_OF_THREADS (rs_job s)) (rs_start_threads s) (length (rs_threads s)) of
             Inl e \<Rightarrow> (Some (ActiveException (''start failure: '' @ what e)), s)
           | Inr n \<Rightarrow> (None, s\<lparr>rs_active := AS_ACTIVE, rs_threads := replicate n Acquiring,
                 rs_job := runner_started (rs_start_threads s) (rs_job s)\<rparr>))"

definition common_deactivate :: "'t runner_system \<Rightarrow> 't runner_system" where
  "common_deactivate s =
     (if rs_active s = AS_ACTIVE
      then s\<lparr>rs_active := AS_DEACTIVATING, rs_job := runner_terminate (rs_job s)\<rparr> else s)"

definition wait_enter :: "'t runner_system \<Rightarrow> 't runner_system" where
  "wait_enter s = s\<lparr>rs_waiter := (if rs_active s \<noteq> AS_NOT_ACTIVE then Waiter_Joining else Waiter_Leaving)\<rparr>"

definition wait_join :: "'t runner_system \<Rightarrow> 't runner_system option" where
  "wait_join s =
     (if list_all (\<lambda>t. t = Ended) (rs_threads s)
      then Some (s\<lparr>rs_threads := [], rs_job := runner_terminated (rs_job s), rs_waiter := Waiter_Leaving\<rparr>)
      else None)"

definition wait_leave :: "'t runner_system \<Rightarrow> 't runner_system" where
  "wait_leave s =
     s\<lparr>rs_waiter := Waiter_Idle,
       rs_active := (if rs_active s = AS_DEACTIVATING then AS_NOT_ACTIVE else rs_active s)\<rparr>"

text \<open>One step of the system: a step of client \<open>j\<close>, of thread \<open>i\<close>, or of a call on the object.\<close>

inductive runner_step :: "'t runner_system \<Rightarrow> 't runner_system \<Rightarrow> bool" where
  acquire_place: "j < length (rs_clients s) \<Longrightarrow> rs_clients s ! j = Client_Idle \<Longrightarrow>
     enqueue_acquire (Some t) (rs_job s) = Inr job \<Longrightarrow>
     runner_step s (s\<lparr>rs_job := job, rs_clients := (rs_clients s)[j := Client_Pushing t]\<rparr>)"
| push: "j < length (rs_clients s) \<Longrightarrow> rs_clients s ! j = Client_Pushing t \<Longrightarrow>
     enqueue_push True created (length (rs_threads s)) t (rs_job s) = (None, job, n) \<Longrightarrow>
     runner_step s (s\<lparr>rs_job := job, rs_clients := (rs_clients s)[j := Client_Signalling],
       rs_threads := rs_threads s @ replicate (n - length (rs_threads s)) Acquiring, rs_pushed := rs_pushed s @ [t]\<rparr>)"
| push_fails: "j < length (rs_clients s) \<Longrightarrow> rs_clients s ! j = Client_Pushing t \<Longrightarrow>
     enqueue_push False created (length (rs_threads s)) t (rs_job s) = (Some e, job, n) \<Longrightarrow>
     runner_step s (s\<lparr>rs_job := job, rs_clients := (rs_clients s)[j := Client_Idle]\<rparr>)"
| signal: "j < length (rs_clients s) \<Longrightarrow> rs_clients s ! j = Client_Signalling \<Longrightarrow>
     runner_step s (s\<lparr>rs_job := enqueue_signal (rs_job s), rs_clients := (rs_clients s)[j := Client_Idle]\<rparr>)"
| clear: "runner_step s (s\<lparr>rs_job := runner_clear (rs_job s), rs_cleared := rs_cleared s @ tasks (rs_job s)\<rparr>)"
| acquire: "i < length (rs_threads s) \<Longrightarrow> rs_threads s ! i = Acquiring \<Longrightarrow>
     thread_acquire (rs_job s) = Some (job, w) \<Longrightarrow>
     runner_step s (s\<lparr>rs_job := job, rs_threads := (rs_threads s)[i := w]\<rparr>)"
| take: "i < length (rs_threads s) \<Longrightarrow> rs_threads s ! i = Taking \<Longrightarrow> thread_take (rs_job s) = (job, w) \<Longrightarrow>
     runner_step s (s\<lparr>rs_job := job, rs_threads := (rs_threads s)[i := w],
       rs_taken := rs_taken s @ (case w of Releasing t \<Rightarrow> [t] | _ \<Rightarrow> [])\<rparr>)"
| release: "i < length (rs_threads s) \<Longrightarrow> rs_threads s ! i = Releasing t \<Longrightarrow>
     thread_release t (rs_job s) = (job, w) \<Longrightarrow>
     runner_step s (s\<lparr>rs_job := job, rs_threads := (rs_threads s)[i := w]\<rparr>)"
| execute: "i < length (rs_threads s) \<Longrightarrow> rs_threads s ! i = Executing t \<Longrightarrow>
     runner_step s (s\<lparr>rs_threads := (rs_threads s)[i := Finishing], rs_executed := rs_executed s @ [t]\<rparr>)"
| finish: "i < length (rs_threads s) \<Longrightarrow> rs_threads s ! i = Finishing \<Longrightarrow> thread_finish (rs_job s) = (job, w) \<Longrightarrow>
     runner_step s (s\<lparr>rs_job := job, rs_threads := (rs_threads s)[i := w]\<rparr>)"
| activate: "common_activate created s = (r, s') \<Longrightarrow> runner_step s s'"
| deactivate: "runner_step s (common_deactivate s)"
| wait_enter: "rs_waiter s = Waiter_Idle \<Longrightarrow> runner_step s (wait_enter s)"
| wait_join: "rs_waiter s = Waiter_Joining \<Longrightarrow> wait_join s = Some s' \<Longrightarrow> runner_step s s'"
| wait_leave: "rs_waiter s = Waiter_Leaving \<Longrightarrow> runner_step s (wait_leave s)"

text \<open>
  The steps of the threads alone, with the last step of the clients that are already in
  \<^verbatim>\<open>enqueue_task\<close> behind their push: nothing is put into the queue or cleared, and no call on the
  object is made.
\<close>

inductive thread_step :: "'t runner_system \<Rightarrow> 't runner_system \<Rightarrow> bool" where
  signal: "j < length (rs_clients s) \<Longrightarrow> rs_clients s ! j = Client_Signalling \<Longrightarrow>
     thread_step s (s\<lparr>rs_job := enqueue_signal (rs_job s), rs_clients := (rs_clients s)[j := Client_Idle]\<rparr>)"
| acquire: "i < length (rs_threads s) \<Longrightarrow> rs_threads s ! i = Acquiring \<Longrightarrow>
     thread_acquire (rs_job s) = Some (job, w) \<Longrightarrow>
     thread_step s (s\<lparr>rs_job := job, rs_threads := (rs_threads s)[i := w]\<rparr>)"
| take: "i < length (rs_threads s) \<Longrightarrow> rs_threads s ! i = Taking \<Longrightarrow> thread_take (rs_job s) = (job, w) \<Longrightarrow>
     thread_step s (s\<lparr>rs_job := job, rs_threads := (rs_threads s)[i := w],
       rs_taken := rs_taken s @ (case w of Releasing t \<Rightarrow> [t] | _ \<Rightarrow> [])\<rparr>)"
| release: "i < length (rs_threads s) \<Longrightarrow> rs_threads s ! i = Releasing t \<Longrightarrow>
     thread_release t (rs_job s) = (job, w) \<Longrightarrow>
     thread_step s (s\<lparr>rs_job := job, rs_threads := (rs_threads s)[i := w]\<rparr>)"
| execute: "i < length (rs_threads s) \<Longrightarrow> rs_threads s ! i = Executing t \<Longrightarrow>
     thread_step s (s\<lparr>rs_threads := (rs_threads s)[i := Finishing], rs_executed := rs_executed s @ [t]\<rparr>)"
| finish: "i < length (rs_threads s) \<Longrightarrow> rs_threads s ! i = Finishing \<Longrightarrow> thread_finish (rs_job s) = (job, w) \<Longrightarrow>
     thread_step s (s\<lparr>rs_job := job, rs_threads := (rs_threads s)[i := w]\<rparr>)"

inductive runner_reachable :: "nat \<Rightarrow> nat \<Rightarrow> nat \<Rightarrow> nat \<Rightarrow> 't runner_system \<Rightarrow> bool"
  for threads_number max_pending_tasks start_threads clients where
  init: "runner_reachable threads_number max_pending_tasks start_threads clients
     (runner_init threads_number max_pending_tasks start_threads clients)"
| step: "runner_reachable threads_number max_pending_tasks start_threads clients s \<Longrightarrow> runner_step s s' \<Longrightarrow>
     runner_reachable threads_number max_pending_tasks start_threads clients s'"

section \<open>Counting\<close>

abbreviation cnt :: "('a \<Rightarrow> bool) \<Rightarrow> 'a list \<Rightarrow> nat" where
  "cnt P xs \<equiv> length (filter P xs)"

lemma cnt_update:
  "i < length xs \<Longrightarrow> cnt P (xs[i := x]) + (if P (xs ! i) then 1 else 0) = cnt P xs + (if P x then 1 else 0)"
proof (induction xs arbitrary: i)
  case (Cons y ys)
  then show ?case by (cases i) auto
qed simp

lemma cnt_pos: "i < length xs \<Longrightarrow> P (xs ! i) \<Longrightarrow> 0 < cnt P xs"
  by (auto simp: filter_empty_conv intro: nth_mem)

lemma cnt_two_le: "(\<And>x. \<not> (P x \<and> Q x)) \<Longrightarrow> cnt P xs + cnt Q xs \<le> length xs"
  by (induction xs) auto

lemma mset_concat_update:
  "i < length xs \<Longrightarrow>
   mset (concat (map f (xs[i := x]))) + mset (f (xs ! i)) = mset (concat (map f xs)) + mset (f x)"
proof (induction xs arbitrary: i)
  case (Cons y ys)
  then show ?case
  proof (cases i)
    case (Suc k)
    with Cons.IH [of k] Cons.prems show ?thesis by (simp add: ac_simps)
  qed (simp add: ac_simps)
qed simp

fun pushing :: "'t runner_client \<Rightarrow> bool" where
  "pushing (Client_Pushing t) = True" | "pushing c = False"

fun releasing :: "'t runner_thread \<Rightarrow> bool" where
  "releasing (Releasing t) = True" | "releasing w = False"

fun unused :: "'t runner_thread \<Rightarrow> bool" where
  "unused Acquiring = True" | "unused Taking = True" | "unused Ended = True" | "unused w = False"

fun in_hand :: "'t runner_thread \<Rightarrow> 't list" where
  "in_hand (Releasing t) = [t]" | "in_hand (Executing t) = [t]" | "in_hand w = []"

section \<open>Facts of the operations\<close>

named_theorems runner_simps \<open>what the operations of the job do to its components\<close>

lemma release_not_full_simps [runner_simps]:
  "tasks (release_not_full job) = tasks job" "new_task (release_not_full job) = new_task job"
  "NUMBER_OF_THREADS (release_not_full job) = NUMBER_OF_THREADS job" "LIMITED (release_not_full job) = LIMITED job"
  "job_terminating (release_not_full job) = job_terminating job"
  "number_of_unused_threads (release_not_full job) = number_of_unused_threads job"
  "not_full (release_not_full job) = (if LIMITED job then not_full job + 1 else not_full job)"
  by (simp_all add: release_not_full_def sem_release_def)

lemma release_not_full_power [runner_simps]:
  "tasks ((release_not_full ^^ k) job) = tasks job" "new_task ((release_not_full ^^ k) job) = new_task job"
  "NUMBER_OF_THREADS ((release_not_full ^^ k) job) = NUMBER_OF_THREADS job"
  "LIMITED ((release_not_full ^^ k) job) = LIMITED job"
  "job_terminating ((release_not_full ^^ k) job) = job_terminating job"
  "number_of_unused_threads ((release_not_full ^^ k) job) = number_of_unused_threads job"
  "not_full ((release_not_full ^^ k) job) = (if LIMITED job then not_full job + k else not_full job)"
  by (induction k) (simp_all add: release_not_full_simps)

lemma enqueue_signal_power [runner_simps]: "(enqueue_signal ^^ k) job = job\<lparr>new_task := new_task job + k\<rparr>"
  by (induction k) (simp_all add: enqueue_signal_def sem_release_def)

lemma enqueue_signal_simp [runner_simps]: "enqueue_signal job = job\<lparr>new_task := new_task job + 1\<rparr>"
  by (simp add: enqueue_signal_def sem_release_def)

lemma runner_clear_simps [runner_simps]:
  "tasks (runner_clear job) = []" "new_task (runner_clear job) = new_task job"
  "NUMBER_OF_THREADS (runner_clear job) = NUMBER_OF_THREADS job" "LIMITED (runner_clear job) = LIMITED job"
  "job_terminating (runner_clear job) = job_terminating job"
  "number_of_unused_threads (runner_clear job) = number_of_unused_threads job"
  "not_full (runner_clear job) = (if LIMITED job then not_full job + length (tasks job) else not_full job)"
  by (simp_all add: runner_clear_def runner_simps)

lemma enqueue_acquire_cases:
  assumes "enqueue_acquire (Some t) job = Inr job'"
  shows "LIMITED job \<and> 0 < not_full job \<and> job' = job\<lparr>not_full := not_full job - 1\<rparr> \<or>
    \<not> LIMITED job \<and> job' = job"
  using assms by (auto simp: enqueue_acquire_def sem_acquire_def split: if_splits)

lemma enqueue_push_cases:
  assumes "enqueue_push True created running t job = (r, job', n)"
  obtains "job' = job\<lparr>tasks := tasks job @ [t]\<rparr>" "n = running"
  | "job' = job\<lparr>tasks := tasks job @ [t], number_of_unused_threads := number_of_unused_threads job + 1\<rparr>"
    "n = running + 1" "running \<noteq> 0" "running \<noteq> NUMBER_OF_THREADS job"
  using assms
  by (auto simp: enqueue_push_def add_thread_def thread_start_one_def split: if_splits sum.splits)

lemma thread_acquire_cases:
  assumes "thread_acquire job = Some (job', w)"
  shows "0 < new_task job \<and> job' = job\<lparr>new_task := new_task job - 1\<rparr> \<and> w = Taking"
  using assms by (auto simp: thread_acquire_def sem_acquire_def split: if_splits)

lemma thread_take_cases:
  assumes "thread_take job = (job', w)"
  obtains "job_terminating job" "job' = job" "w = Ended"
  | "\<not> job_terminating job" "tasks job = []" "job' = job" "w = Acquiring"
  | t ts where "\<not> job_terminating job" "tasks job = t # ts" "w = Releasing t"
    "job' = job\<lparr>tasks := ts, number_of_unused_threads := number_of_unused_threads job - 1\<rparr>"
  using assms by (auto simp: thread_take_def split: if_splits list.splits)

lemma start_loop_Some: "start_loop created k m = Some n \<Longrightarrow> k \<le> m \<Longrightarrow> n = m"
  by (induction created k m rule: start_loop.induct) (auto split: if_splits)

lemma thread_start_cases:
  assumes "thread_start created jobs k running = Inr n"
  shows "running = 0" and "n = (if k = 0 \<or> k > jobs then jobs else k)"
  using assms start_loop_Some [of created 0]
  by (auto simp: thread_start_def Let_def split: if_splits option.splits simp del: start_loop.simps)

lemma common_activate_cases:
  assumes "common_activate created s = (r, s')"
  obtains "s' = s" "r \<noteq> None"
  | n where "rs_active s = AS_NOT_ACTIVE" "rs_threads s = []" "r = None"
    "n = (if rs_start_threads s = 0 \<or> rs_start_threads s > NUMBER_OF_THREADS (rs_job s)
       then NUMBER_OF_THREADS (rs_job s) else rs_start_threads s)"
    "s' = s\<lparr>rs_active := AS_ACTIVE, rs_threads := replicate n Acquiring,
       rs_job := (rs_job s)\<lparr>number_of_unused_threads := word_of_nat (rs_start_threads s)\<rparr>\<rparr>"
proof (cases "rs_active s = AS_NOT_ACTIVE")
  case True
  show ?thesis
  proof (cases "thread_start created (NUMBER_OF_THREADS (rs_job s)) (rs_start_threads s) (length (rs_threads s))")
    case (Inl e)
    with True assms show ?thesis by (intro that(1)) (auto simp: common_activate_def)
  next
    case (Inr n)
    from thread_start_cases [OF this] show ?thesis
      using True Inr assms by (intro that(2) [of n]) (simp_all add: common_activate_def runner_started_def)
  qed
qed (use assms that(1) in \<open>auto simp: common_activate_def\<close>)

section \<open>Invariants\<close>

text \<open>Every free place, task in the queue, task on its way in or out takes one of the places.\<close>

definition places_ok :: "nat \<Rightarrow> 't runner_system \<Rightarrow> bool" where
  "places_ok max_pending_tasks s \<longleftrightarrow>
     (LIMITED (rs_job s) \<longleftrightarrow> max_pending_tasks \<noteq> 0) \<and>
     (LIMITED (rs_job s) \<longrightarrow>
        not_full (rs_job s) + length (tasks (rs_job s)) + cnt pushing (rs_clients s) + cnt releasing (rs_threads s) =
        min max_pending_tasks SEM_VALUE_MAX)"

lemma places_ok_step: "runner_step s s' \<Longrightarrow> places_ok m s \<Longrightarrow> places_ok m s'"
proof (induction rule: runner_step.induct)
  case (acquire_place j s t job)
  from enqueue_acquire_cases [OF acquire_place(3)] acquire_place cnt_update [OF acquire_place(1), of pushing "Client_Pushing t"]
  show ?case by (auto simp: places_ok_def)
next
  case (push j s t created job n)
  from push(3) show ?case
    by (cases rule: enqueue_push_cases)
      (use push cnt_update [OF push(1), of pushing Client_Signalling] in \<open>auto simp: places_ok_def\<close>)
next
  case (push_fails j s t created e job n)
  with cnt_update [OF push_fails(1), of pushing Client_Idle] show ?case
    by (auto simp: places_ok_def enqueue_push_def runner_simps)
next
  case (signal j s)
  with cnt_update [OF signal(1), of pushing Client_Idle] show ?case by (auto simp: places_ok_def runner_simps)
next
  case (clear s)
  then show ?case by (auto simp: places_ok_def runner_simps)
next
  case (acquire i s job w)
  with cnt_update [OF acquire(1), of releasing w] thread_acquire_cases [OF acquire(3)] show ?case
    by (auto simp: places_ok_def)
next
  case (take i s job w)
  from take(3) show ?case
    by (cases rule: thread_take_cases)
      (use take cnt_update [OF take(1), of releasing w] in \<open>auto simp: places_ok_def\<close>)
next
  case (release i s t job w)
  with cnt_update [OF release(1), of releasing w] show ?case
    by (auto simp: places_ok_def thread_release_def runner_simps)
next
  case (execute i s t)
  with cnt_update [OF execute(1), of releasing Finishing] show ?case by (auto simp: places_ok_def)
next
  case (finish i s job w)
  with cnt_update [OF finish(1), of releasing w] show ?case by (auto simp: places_ok_def thread_finish_def)
next
  case (activate created s r s')
  from activate(1) show ?case
    by (cases rule: common_activate_cases) (use activate(2) in \<open>auto simp: places_ok_def\<close>)
next
  case (deactivate s)
  then show ?case by (auto simp: places_ok_def common_deactivate_def runner_terminate_def runner_simps)
next
  case (wait_join s s')
  then have "cnt releasing (rs_threads s) = 0" by (auto simp: wait_join_def list_all_iff filter_empty_conv split: if_splits)
  with wait_join show ?case by (auto simp: places_ok_def wait_join_def runner_terminated_def split: if_splits)
qed (auto simp: places_ok_def wait_enter_def wait_leave_def)

text \<open>
  Threads end only when the job is terminating; every waiting task, and at termination every
  thread of the pool that has not ended, has its own token: in the semaphore, taken by a
  thread, or to be released by a client.
\<close>

definition tokens_ok :: "nat \<Rightarrow> 't runner_system \<Rightarrow> bool" where
  "tokens_ok threads_number s \<longleftrightarrow>
     NUMBER_OF_THREADS (rs_job s) = threads_number \<and> length (rs_threads s) \<le> threads_number \<and>
     (rs_active s = AS_ACTIVE \<longrightarrow> \<not> job_terminating (rs_job s) \<and> rs_threads s \<noteq> []) \<and>
     (job_terminating (rs_job s) \<longrightarrow> rs_threads s \<noteq> []) \<and>
     (\<not> job_terminating (rs_job s) \<longrightarrow> cnt (\<lambda>w. w = Ended) (rs_threads s) = 0) \<and>
     length (tasks (rs_job s)) + (if job_terminating (rs_job s) then threads_number else 0) \<le>
       new_task (rs_job s) + cnt (\<lambda>w. w = Taking) (rs_threads s) + cnt (\<lambda>c. c = Client_Signalling) (rs_clients s) +
       cnt (\<lambda>w. w = Ended) (rs_threads s)"

lemmas cnt_ended = cnt_update [where P = "\<lambda>w. w = Ended"]
lemmas cnt_taking = cnt_update [where P = "\<lambda>w. w = Taking"]
lemmas cnt_signalling = cnt_update [where P = "\<lambda>c. c = Client_Signalling"]

lemma tokens_ok_step:
  assumes "0 < N"
  shows "runner_step s s' \<Longrightarrow> tokens_ok N s \<Longrightarrow> tokens_ok N s'"
proof (induction rule: runner_step.induct)
  case (acquire_place j s t job)
  from enqueue_acquire_cases [OF acquire_place(3)] acquire_place
    cnt_signalling [OF acquire_place(1), of "Client_Pushing t"]
  show ?case by (auto simp: tokens_ok_def)
next
  case (push j s t created job n)
  from push(3) show ?case
    by (cases rule: enqueue_push_cases)
      (use push(2,4) cnt_signalling [OF push(1), of Client_Signalling] in \<open>auto simp: tokens_ok_def\<close>)
next
  case (push_fails j s t created e job n)
  with cnt_signalling [OF push_fails(1), of Client_Idle] show ?case
    by (auto simp: tokens_ok_def enqueue_push_def runner_simps)
next
  case (signal j s)
  with cnt_signalling [OF signal(1), of Client_Idle] show ?case by (auto simp: tokens_ok_def runner_simps)
next
  case (clear s)
  then show ?case by (auto simp: tokens_ok_def runner_simps)
next
  case (acquire i s job w)
  with cnt_ended [OF acquire(1), of w] cnt_taking [OF acquire(1), of w] thread_acquire_cases [OF acquire(3)]
  show ?case by (auto simp: tokens_ok_def)
next
  case (take i s job w)
  from take(3) show ?case
    by (cases rule: thread_take_cases)
      (use take(1,2,4) cnt_ended [OF take(1), of w] cnt_taking [OF take(1), of w] in \<open>auto simp: tokens_ok_def\<close>)
next
  case (release i s t job w)
  then have "job = release_not_full (rs_job s)" "w = Executing t" by (simp_all add: thread_release_def)
  with release(2,4) cnt_ended [OF release(1), of w] cnt_taking [OF release(1), of w] show ?case
    by (simp add: tokens_ok_def runner_simps)
next
  case (execute i s t)
  with cnt_ended [OF execute(1), of Finishing] cnt_taking [OF execute(1), of Finishing] show ?case
    by (auto simp: tokens_ok_def)
next
  case (finish i s job w)
  then have "w = Acquiring" "job = (rs_job s)\<lparr>number_of_unused_threads := number_of_unused_threads (rs_job s) + 1\<rparr>"
    by (simp_all add: thread_finish_def)
  with finish(2,4) cnt_ended [OF finish(1), of w] cnt_taking [OF finish(1), of w] show ?case
    by (simp add: tokens_ok_def)
next
  case (activate created s r s')
  from activate(1) show ?case
    by (cases rule: common_activate_cases) (use activate(2) assms in \<open>auto simp: tokens_ok_def\<close>)
next
  case (deactivate s)
  then show ?case by (auto simp: tokens_ok_def common_deactivate_def runner_terminate_def runner_simps)
next
  case (wait_join s s')
  then have "cnt (\<lambda>w. w = Ended) (rs_threads s) = length (rs_threads s)" "cnt (\<lambda>w. w = Taking) (rs_threads s) = 0"
    by (auto simp: wait_join_def list_all_iff filter_empty_conv filter_id_conv split: if_splits)
  with wait_join show ?case by (auto simp: tokens_ok_def wait_join_def runner_terminated_def split: if_splits)
qed (auto simp: tokens_ok_def wait_enter_def wait_leave_def)

text \<open>
  While part of the pool runs, the counter of unused threads is the number of those that do not
  handle a task.
\<close>

definition unused_ok :: "'t runner_system \<Rightarrow> bool" where
  "unused_ok s \<longleftrightarrow>
     0 < rs_start_threads s \<and> rs_start_threads s \<le> NUMBER_OF_THREADS (rs_job s) \<longrightarrow> rs_threads s \<noteq> [] \<longrightarrow>
     number_of_unused_threads (rs_job s) = word_of_nat (cnt unused (rs_threads s))"

lemma unused_ok_step: "runner_step s s' \<Longrightarrow> unused_ok s \<Longrightarrow> unused_ok s'"
proof (induction rule: runner_step.induct)
  case (acquire_place j s t job)
  from enqueue_acquire_cases [OF acquire_place(3)] acquire_place show ?case by (auto simp: unused_ok_def)
next
  case (push j s t created job n)
  from push(3) show ?case
    by (cases rule: enqueue_push_cases) (use push(4) in \<open>auto simp: unused_ok_def\<close>)
next
  case (push_fails j s t created e job n)
  then show ?case by (auto simp: unused_ok_def enqueue_push_def runner_simps)
next
  case (acquire i s job w)
  with cnt_update [OF acquire(1), of unused w] thread_acquire_cases [OF acquire(3)] show ?case
    by (auto simp: unused_ok_def)
next
  case (take i s job w)
  from take(3) show ?case
  proof (cases rule: thread_take_cases)
    case (3 t ts)
    with cnt_update [OF take(1), of unused w] take(2)
    have "cnt unused (rs_threads s) = cnt unused ((rs_threads s)[i := w]) + 1" by simp
    with 3 take(1,4) show ?thesis by (auto simp: unused_ok_def)
  qed (use take(1,2,4) cnt_update [OF take(1), of unused w] in \<open>auto simp: unused_ok_def\<close>)
next
  case (finish i s job w)
  then have "cnt unused ((rs_threads s)[i := w]) = cnt unused (rs_threads s) + 1"
    using cnt_update [OF finish(1), of unused w] by (auto simp: thread_finish_def)
  with finish show ?case by (auto simp: unused_ok_def thread_finish_def)
next
  case (release i s t job w)
  with cnt_update [OF release(1), of unused w] show ?case
    by (auto simp: unused_ok_def thread_release_def runner_simps)
next
  case (execute i s t)
  with cnt_update [OF execute(1), of unused Finishing] show ?case by (auto simp: unused_ok_def)
next
  case (activate created s r s')
  from activate(1) show ?case
    by (cases rule: common_activate_cases) (use activate(2) in \<open>auto simp: unused_ok_def\<close>)
qed (auto simp: unused_ok_def wait_enter_def wait_leave_def wait_join_def common_deactivate_def runner_terminate_def
    runner_terminated_def runner_simps split: if_splits)

text \<open>A pool that is started as a whole has all its threads or none, so that its counter is never looked at.\<close>

definition pool_ok :: "nat \<Rightarrow> nat \<Rightarrow> 't runner_system \<Rightarrow> bool" where
  "pool_ok threads_number start_threads s \<longleftrightarrow>
     NUMBER_OF_THREADS (rs_job s) = threads_number \<and> rs_start_threads s = start_threads \<and>
     (start_threads = 0 \<or> threads_number < start_threads \<longrightarrow>
        rs_threads s = [] \<or> length (rs_threads s) = threads_number)"

lemma pool_ok_step: "runner_step s s' \<Longrightarrow> pool_ok N k s \<Longrightarrow> pool_ok N k s'"
proof (induction rule: runner_step.induct)
  case (acquire_place j s t job)
  from enqueue_acquire_cases [OF acquire_place(3)] acquire_place(4) show ?case by (auto simp: pool_ok_def)
next
  case (push j s t created job n)
  from push(3) show ?case by (cases rule: enqueue_push_cases) (use push(4) in \<open>auto simp: pool_ok_def\<close>)
next
  case (acquire i s job w)
  with thread_acquire_cases [OF acquire(3)] show ?case by (auto simp: pool_ok_def)
next
  case (take i s job w)
  from take(3) show ?case by (cases rule: thread_take_cases) (use take(4) in \<open>auto simp: pool_ok_def\<close>)
next
  case (activate created s r s')
  from activate(1) show ?case by (cases rule: common_activate_cases) (use activate(2) in \<open>auto simp: pool_ok_def\<close>)
qed (auto simp: pool_ok_def enqueue_push_def thread_release_def thread_finish_def wait_enter_def wait_leave_def wait_join_def
    common_deactivate_def runner_terminate_def runner_terminated_def runner_simps split: if_splits)

text \<open>Tasks are taken in the order in which they came, and none is lost or done twice.\<close>

definition history_ok :: "'t runner_system \<Rightarrow> bool" where
  "history_ok s \<longleftrightarrow>
     subseq (rs_taken s @ tasks (rs_job s)) (rs_pushed s) \<and>
     mset (rs_pushed s) = mset (rs_taken s) + mset (tasks (rs_job s)) + mset (rs_cleared s) \<and>
     mset (rs_taken s) = mset (concat (map in_hand (rs_threads s))) + mset (rs_executed s)"

lemma history_ok_step: "runner_step s s' \<Longrightarrow> history_ok s \<Longrightarrow> history_ok s'"
proof (induction rule: runner_step.induct)
  case (acquire_place j s t job)
  from enqueue_acquire_cases [OF acquire_place(3)] acquire_place show ?case by (auto simp: history_ok_def)
next
  case (push j s t created job n)
  have "concat (map in_hand (replicate k Acquiring)) = []" for k by (induction k) simp_all
  with push(4) show ?case
    using push(3)
    by (elim enqueue_push_cases) (auto simp: history_ok_def simp flip: append_assoc intro: list_emb_append_mono)
next
  case (push_fails j s t created e job n)
  then show ?case by (auto simp: history_ok_def enqueue_push_def runner_simps)
next
  case (clear s)
  have "subseq (rs_taken s) (rs_taken s @ tasks (rs_job s))" by (rule prefix_imp_subseq) simp
  then have "subseq (rs_taken s) (rs_pushed s)"
    using clear by (blast intro: subseq_order.trans dest: history_ok_def [THEN iffD1])
  with clear show ?case by (auto simp: history_ok_def runner_simps)
next
  case (acquire i s job w)
  with mset_concat_update [OF acquire(1), of in_hand w] thread_acquire_cases [OF acquire(3)] show ?case
    by (auto simp: history_ok_def)
next
  case (take i s job w)
  from take(3) show ?case
    by (cases rule: thread_take_cases)
      (use take(1,2,4) mset_concat_update [OF take(1), of in_hand w] in \<open>auto simp: history_ok_def\<close>)
next
  case (release i s t job w)
  with mset_concat_update [OF release(1), of in_hand w] show ?case
    by (auto simp: history_ok_def thread_release_def runner_simps)
next
  case (execute i s t)
  with mset_concat_update [OF execute(1), of in_hand Finishing] show ?case by (auto simp: history_ok_def)
next
  case (finish i s job w)
  with mset_concat_update [OF finish(1), of in_hand w] show ?case by (auto simp: history_ok_def thread_finish_def)
next
  case (activate created s r s')
  have "concat (map in_hand (replicate k Acquiring)) = []" for k by (induction k) simp_all
  with activate show ?case by (elim common_activate_cases) (auto simp: history_ok_def)
next
  case (wait_join s s')
  then have "concat (map in_hand (rs_threads s)) = []"
    by (auto simp: wait_join_def list_all_iff split: if_splits)
  with wait_join show ?case by (auto simp: history_ok_def wait_join_def runner_terminated_def split: if_splits)
qed (auto simp: history_ok_def wait_enter_def wait_leave_def common_deactivate_def runner_terminate_def runner_simps)

lemma runner_reachable_ok:
  assumes "runner_reachable N m k c s" and "0 < N"
  shows "places_ok m s" and "tokens_ok N s" and "unused_ok s" and "history_ok s" and "pool_ok N k s"
proof -
  have "places_ok m s \<and> tokens_ok N s \<and> unused_ok s \<and> history_ok s \<and> pool_ok N k s"
    using assms(1)
  proof induction
    case init
    have "cnt P (replicate c Client_Idle) = 0" if "\<not> P Client_Idle" for P :: "'a runner_client \<Rightarrow> bool"
      using that by simp
    then show ?case
      by (simp add: runner_init_def runner_create_def places_ok_def tokens_ok_def unused_ok_def history_ok_def
          pool_ok_def)
  next
    case (step s s')
    then show ?case
      using places_ok_step tokens_ok_step [OF assms(2)] unused_ok_step history_ok_step pool_ok_step by blast
  qed
  then show "places_ok m s" "tokens_ok N s" "unused_ok s" "history_ok s" "pool_ok N k s" by simp_all
qed

section \<open>Runs of the threads\<close>

lemma runner_reachable_rtranclp:
  "runner_step\<^sup>*\<^sup>* s s' \<Longrightarrow> runner_reachable N m k c s \<Longrightarrow> runner_reachable N m k c s'"
  by (induction rule: rtranclp_induct) (auto intro: runner_reachable.step)

lemma thread_step_runner: "thread_step s s' \<Longrightarrow> runner_step s s'"
  by (induction rule: thread_step.induct) (blast intro: runner_step.intros)+

lemma thread_run_runner: "thread_step\<^sup>*\<^sup>* s s' \<Longrightarrow> runner_step\<^sup>*\<^sup>* s s'"
  using rtranclp_mono [of thread_step runner_step] thread_step_runner by blast

lemma thread_step_keeps:
  assumes "thread_step s s'"
  shows "rs_pushed s' = rs_pushed s \<and> rs_cleared s' = rs_cleared s \<and>
    length (rs_threads s') = length (rs_threads s) \<and> job_terminating (rs_job s') = job_terminating (rs_job s)"
  using assms
proof (induction rule: thread_step.induct)
  case (acquire i s job w)
  with thread_acquire_cases [OF acquire(3)] show ?case by simp
next
  case (take i s job w)
  from take(3) show ?case by (cases rule: thread_take_cases) simp_all
qed (auto simp: thread_release_def thread_finish_def runner_simps)

lemma thread_run_keeps:
  "thread_step\<^sup>*\<^sup>* s s' \<Longrightarrow> rs_pushed s' = rs_pushed s \<and> rs_cleared s' = rs_cleared s \<and>
    length (rs_threads s') = length (rs_threads s) \<and> job_terminating (rs_job s') = job_terminating (rs_job s)"
  by (induction rule: rtranclp_induct) (auto dest: thread_step_keeps)

text \<open>What the threads have left to do at most: every token leads one thread through one round.\<close>

fun thread_todo :: "'t runner_thread \<Rightarrow> nat" where
  "thread_todo Taking = 5" | "thread_todo (Releasing t) = 4" | "thread_todo (Executing t) = 3"
| "thread_todo Finishing = 2" | "thread_todo w = 0"

definition runner_todo :: "'t runner_system \<Rightarrow> nat" where
  "runner_todo s = 7 * cnt (\<lambda>c. c = Client_Signalling) (rs_clients s) + 6 * new_task (rs_job s) +
     sum_list (map thread_todo (rs_threads s))"

lemma sum_list_map_update:
  "i < length xs \<Longrightarrow> sum_list (map f (xs[i := x])) + f (xs ! i) = sum_list (map f xs) + (f x :: nat)"
proof (induction xs arbitrary: i)
  case (Cons y ys)
  then show ?case by (cases i) auto
qed simp

lemma runner_todo_step: "thread_step s s' \<Longrightarrow> runner_todo s' < runner_todo s"
proof (induction rule: thread_step.induct)
  case (signal j s)
  with cnt_signalling [OF signal(1), of Client_Idle] show ?case by (simp add: runner_todo_def runner_simps)
next
  case (acquire i s job w)
  with sum_list_map_update [OF acquire(1), of thread_todo w] thread_acquire_cases [OF acquire(3)] show ?case
    by (auto simp: runner_todo_def)
next
  case (take i s job w)
  note sum = sum_list_map_update [OF take(1), of thread_todo w]
  from take(3) show ?case by (cases rule: thread_take_cases) (use take(2) sum in \<open>simp_all add: runner_todo_def\<close>)
next
  case (release i s t job w)
  with sum_list_map_update [OF release(1), of thread_todo w] show ?case
    by (auto simp: runner_todo_def thread_release_def runner_simps)
next
  case (execute i s t)
  with sum_list_map_update [OF execute(1), of thread_todo Finishing] show ?case by (simp add: runner_todo_def)
next
  case (finish i s job w)
  with sum_list_map_update [OF finish(1), of thread_todo w] show ?case
    by (auto simp: runner_todo_def thread_finish_def)
qed

definition runner_inv :: "'t runner_system \<Rightarrow> bool" where
  "runner_inv s \<longleftrightarrow> 0 < NUMBER_OF_THREADS (rs_job s) \<and> tokens_ok (NUMBER_OF_THREADS (rs_job s)) s"

lemma runner_inv_step:
  assumes "runner_step s s'" and "runner_inv s"
  shows "runner_inv s'"
proof -
  have ok: "tokens_ok (NUMBER_OF_THREADS (rs_job s)) s'"
    using tokens_ok_step [OF _ assms(1)] assms(2) by (simp add: runner_inv_def)
  then have "NUMBER_OF_THREADS (rs_job s') = NUMBER_OF_THREADS (rs_job s)" by (simp add: tokens_ok_def)
  with ok assms(2) show ?thesis by (simp add: runner_inv_def)
qed

interpretation runner_threads: progress thread_step runner_inv runner_todo
  using runner_inv_step [OF thread_step_runner] runner_todo_step by unfold_locales

lemma runner_reachable_inv: "runner_reachable N m k c s \<Longrightarrow> 0 < N \<Longrightarrow> runner_inv s"
  using runner_reachable_ok(2) [of N m k c s] by (simp add: runner_inv_def) (simp add: tokens_ok_def)

text \<open>Where no thread can go on, all of them wait for a token that is not there, or have ended.\<close>

lemma threads_at_rest:
  assumes "\<And>t. \<not> thread_step s t"
  shows "Client_Signalling \<notin> set (rs_clients s)" and "\<forall>w\<in>set (rs_threads s). w = Acquiring \<or> w = Ended"
    and "Acquiring \<in> set (rs_threads s) \<Longrightarrow> new_task (rs_job s) = 0"
proof -
  show "Client_Signalling \<notin> set (rs_clients s)"
    using assms thread_step.signal by (metis in_set_conv_nth)
  show "\<forall>w\<in>set (rs_threads s). w = Acquiring \<or> w = Ended"
  proof
    fix w assume "w \<in> set (rs_threads s)"
    then obtain i where i: "i < length (rs_threads s)" "rs_threads s ! i = w" by (auto simp: in_set_conv_nth)
    show "w = Acquiring \<or> w = Ended"
      using i assms thread_step.take [OF i(1) _ surjective_pairing] thread_step.release [OF i(1) _ surjective_pairing]
        thread_step.execute [OF i(1)] thread_step.finish [OF i(1) _ surjective_pairing] by (cases w) blast+
  qed
  assume "Acquiring \<in> set (rs_threads s)"
  then obtain i where i: "i < length (rs_threads s)" "rs_threads s ! i = Acquiring" by (auto simp: in_set_conv_nth)
  show "new_task (rs_job s) = 0"
  proof (rule ccontr)
    assume "new_task (rs_job s) \<noteq> 0"
    then have "thread_acquire (rs_job s) = Some ((rs_job s)\<lparr>new_task := new_task (rs_job s) - 1\<rparr>, Taking)"
      by (simp add: thread_acquire_def sem_acquire_def)
    from thread_step.acquire [OF i this] assms show False by blast
  qed
qed

lemma rest_counts:
  assumes "\<And>t. \<not> thread_step s t"
  shows "cnt (\<lambda>c. c = Client_Signalling) (rs_clients s) = 0" and "cnt (\<lambda>w. w = Taking) (rs_threads s) = 0"
    and "concat (map in_hand (rs_threads s)) = []"
  using threads_at_rest(1,2) [OF assms] by (auto simp: filter_empty_conv)

lemma rest_without_tasks:
  assumes "runner_inv s" and "\<And>t. \<not> thread_step s t" and "\<not> job_terminating (rs_job s)" and "rs_threads s \<noteq> []"
  shows "tasks (rs_job s) = []"
proof -
  have "Ended \<notin> set (rs_threads s)"
    using assms(1,3) by (auto simp: runner_inv_def tokens_ok_def filter_empty_conv)
  then have "Acquiring \<in> set (rs_threads s)" using threads_at_rest(2) [OF assms(2)] assms(4) by (metis list.set_intros(1) neq_Nil_conv)
  from threads_at_rest(3) [OF assms(2) this] rest_counts [OF assms(2)] assms(1,3) show ?thesis
    by (auto simp: runner_inv_def tokens_ok_def)
qed

lemma rest_when_terminating:
  assumes "runner_inv s" and "\<And>t. \<not> thread_step s t" and "job_terminating (rs_job s)"
  shows "list_all (\<lambda>w. w = Ended) (rs_threads s)"
proof (cases "Acquiring \<in> set (rs_threads s)")
  case True
  then have "cnt (\<lambda>w. w = Ended) (rs_threads s) < length (rs_threads s)"
    using length_filter_less [of Acquiring "rs_threads s" "\<lambda>w. w = Ended"] by simp
  with threads_at_rest(3) [OF assms(2) True] rest_counts [OF assms(2)] assms(1,3) show ?thesis
    by (simp add: runner_inv_def tokens_ok_def)
next
  case False
  with threads_at_rest(2) [OF assms(2)] show ?thesis by (auto simp: list_all_iff)
qed

lemma thread_run_history:
  assumes "runner_reachable N m k c s" and "0 < N" and "thread_step\<^sup>*\<^sup>* s s'"
  shows "mset (tasks (rs_job s')) + mset (concat (map in_hand (rs_threads s'))) + mset (rs_executed s') =
    mset (tasks (rs_job s)) + mset (concat (map in_hand (rs_threads s))) + mset (rs_executed s)"
  using runner_reachable_ok(4) [OF assms(1,2)] thread_run_keeps [OF assms(3)]
    runner_reachable_ok(4) [OF runner_reachable_rtranclp [OF thread_run_runner [OF assms(3)] assms(1)] assms(2)]
  by (simp add: history_ok_def ac_simps)

lemma threads_execute_all:
  assumes "runner_reachable N m k c s" and "0 < N" and "\<not> job_terminating (rs_job s)" and "rs_threads s \<noteq> []"
  shows "inevitably thread_step (\<lambda>s'. mset (rs_executed s') =
    mset (rs_executed s) + mset (tasks (rs_job s)) + mset (concat (map in_hand (rs_threads s)))) s"
proof (rule runner_threads.inevitable_at_end [OF runner_reachable_inv [OF assms(1,2)]])
  fix s' assume s': "thread_step\<^sup>*\<^sup>* s s'" "runner_inv s'" "\<And>t. \<not> thread_step s' t"
  have "length (rs_threads s') = length (rs_threads s)" "job_terminating (rs_job s') = job_terminating (rs_job s)"
    using thread_run_keeps [OF s'(1)] by simp_all
  then have "tasks (rs_job s') = []" using rest_without_tasks [OF s'(2,3)] assms(3,4) by fastforce
  with thread_run_history [OF assms(1,2) s'(1)] rest_counts(3) [OF s'(3)]
  show "mset (rs_executed s') = mset (rs_executed s) + mset (tasks (rs_job s)) + mset (concat (map in_hand (rs_threads s)))"
    by (simp add: ac_simps)
qed

lemma threads_all_end:
  assumes "runner_reachable N m k c s" and "0 < N" and "job_terminating (rs_job s)"
  shows "inevitably thread_step (\<lambda>s'. wait_join s' \<noteq> None) s"
proof (rule runner_threads.inevitable_at_end [OF runner_reachable_inv [OF assms(1,2)]])
  fix s' assume s': "thread_step\<^sup>*\<^sup>* s s'" "runner_inv s'" "\<And>t. \<not> thread_step s' t"
  have "job_terminating (rs_job s')" using thread_run_keeps [OF s'(1)] assms(3) by simp
  from rest_when_terminating [OF s'(2,3) this] show "wait_join s' \<noteq> None" by (simp add: wait_join_def)
qed

text \<open>One thread, one place, and a client that has put task 7 into the queue.\<close>

definition runner_example :: "nat runner_system" where
  "runner_example = (runner_init 1 1 1 1)\<lparr>rs_active := AS_ACTIVE, rs_threads := [Acquiring],
     rs_clients := [Client_Signalling], rs_pushed := [7],
     rs_job := (runner_create 1 1)\<lparr>number_of_unused_threads := 1, tasks := [7], not_full := 0\<rparr>\<rparr>"

lemmas runner_example_defs = runner_example_def runner_init_def runner_create_def

lemma runner_example_reachable: "runner_reachable 1 1 1 1 runner_example"
proof -
  let ?s0 = "runner_init 1 1 1 1 :: nat runner_system"
  let ?s1 = "?s0\<lparr>rs_active := AS_ACTIVE, rs_threads := [Acquiring],
    rs_job := (runner_create 1 1)\<lparr>number_of_unused_threads := 1\<rparr>\<rparr>"
  let ?s2 = "?s1\<lparr>rs_clients := [Client_Pushing 7],
    rs_job := (runner_create 1 1)\<lparr>number_of_unused_threads := 1, not_full := 0\<rparr>\<rparr>"
  note defs = runner_init_def runner_create_def SEM_VALUE_MAX_def
  have "runner_reachable 1 1 1 1 ?s0" by (rule runner_reachable.init)
  moreover have "common_activate (\<lambda>_. True) ?s0 = (None, ?s1)"
    by (simp add: common_activate_def thread_start_def runner_started_def defs)
  then have "runner_step ?s0 ?s1" by (rule runner_step.activate)
  moreover have "runner_step ?s1 ?s2"
    using runner_step.acquire_place [of 0 ?s1 7 "rs_job ?s2"]
    by (simp add: enqueue_acquire_def sem_acquire_def defs)
  moreover have "runner_step ?s2 runner_example"
    using runner_step.push [of 0 ?s2 7 "\<lambda>_. True" "rs_job runner_example" 1]
    by (simp add: enqueue_push_def add_thread_def runner_example_def defs)
  ultimately show ?thesis by (blast intro: runner_reachable.step)
qed

text \<open>
  A wait on an object that is not active looks at the state before it takes the mutex.  When the
  object is activated and deactivated in between, the wait ends the deactivation although no
  thread has ended; the object can then neither be activated nor waited for.
\<close>

lemma wait_race:
  "\<exists>s::nat runner_system. runner_reachable 1 0 0 0 s \<and> rs_active s = AS_NOT_ACTIVE \<and>
     rs_threads s = [Acquiring] \<and> fst (common_activate (\<lambda>_. True) s) \<noteq> None"
proof -
  let ?s0 = "runner_init 1 0 0 0 :: nat runner_system"
  let ?s1 = "wait_enter ?s0"
  let ?s2 = "snd (common_activate (\<lambda>_. True) ?s1)"
  let ?s3 = "common_deactivate ?s2"
  note defs = wait_enter_def wait_leave_def runner_init_def runner_create_def common_activate_def thread_start_def
    runner_started_def common_deactivate_def runner_terminate_def enqueue_signal_def sem_release_def
  have "runner_reachable 1 0 0 0 ?s0" by (rule runner_reachable.init)
  moreover have "runner_step ?s0 ?s1" by (rule runner_step.wait_enter) (simp add: defs)
  moreover have "runner_step ?s1 ?s2" by (rule runner_step.activate [OF surjective_pairing])
  moreover have "runner_step ?s2 ?s3" by (rule runner_step.deactivate)
  moreover have "runner_step ?s3 (wait_leave ?s3)" by (rule runner_step.wait_leave) (simp add: defs)
  ultimately have "runner_reachable 1 0 0 0 (wait_leave ?s3)" by (blast intro: runner_reachable.step)
  then show ?thesis by (intro exI [of _ "wait_leave ?s3"] conjI) (simp_all add: defs)
qed

section \<open>Properties\<close>



text \<open>
  C4: In every interleaving of clients, threads and calls that clear, activate, deactivate or wait,
  the tasks are taken from the queue in the order in which they were put there, and every task ever
  put there is exactly once waiting, in the hands of a thread, executed or cleared.
\<close>

theorem task_runner_fifo:
  assumes "runner_reachable threads_number max_pending_tasks start_threads clients s" and "0 < threads_number"
  shows "subseq (rs_taken s @ tasks (rs_job s)) (rs_pushed s) \<and>
    mset (rs_pushed s) = mset (tasks (rs_job s)) + mset (concat (map in_hand (rs_threads s))) +
      mset (rs_executed s) + mset (rs_cleared s)"
  using runner_reachable_ok(4) [OF assms] by (simp add: history_ok_def)

theorem task_runner_fifo_witness:
  "\<exists>s. runner_step\<^sup>*\<^sup>* runner_example s \<and> 7 \<in> set (rs_executed s) \<and> subseq (rs_taken s @ tasks (rs_job s)) (rs_pushed s)"
proof -
  obtain s where s: "thread_step\<^sup>*\<^sup>* runner_example s" "mset (rs_executed s) = {#7#}"
    using inevitably_reaches [OF threads_execute_all [OF runner_example_reachable]] by (auto simp: runner_example_defs)
  from thread_run_runner [OF s(1)] have run: "runner_step\<^sup>*\<^sup>* runner_example s" .
  moreover have "7 \<in> set (rs_executed s)" using s(2) by (simp flip: set_mset_mset)
  ultimately show ?thesis
    using task_runner_fifo [OF runner_reachable_rtranclp [OF run runner_example_reachable]] by auto
qed

text \<open>
  C3: No wake-up is lost.  While the runner is not terminating and has threads, every run of the
  threads' own steps, with the signals that clients still owe for the tasks they have pushed and
  without any new push, clear or other call, comes to a point where exactly the tasks that were
  in the queue or in the hands of a thread have been executed besides those executed before, and
  is not stuck earlier; and while it is terminating, every such run ends all threads, so that the
  wait for them succeeds.
\<close>

theorem task_runner_no_lost_task:
  assumes "runner_reachable threads_number max_pending_tasks start_threads clients s" and "0 < threads_number"
  shows "(\<not> job_terminating (rs_job s) \<longrightarrow> rs_threads s \<noteq> [] \<longrightarrow>
      inevitably thread_step (\<lambda>s'. mset (rs_executed s') =
        mset (rs_executed s) + mset (tasks (rs_job s)) + mset (concat (map in_hand (rs_threads s)))) s) \<and>
    (job_terminating (rs_job s) \<longrightarrow> inevitably thread_step (\<lambda>s'. wait_join s' \<noteq> None) s)"
  using threads_execute_all [OF assms] threads_all_end [OF assms] by blast

theorem task_runner_no_lost_task_witness:
  "inevitably thread_step (\<lambda>s'. rs_executed s' = [7]) runner_example"
proof -
  have "inevitably thread_step (\<lambda>s'. mset (rs_executed s') = {#7#}) runner_example"
    using task_runner_no_lost_task [OF runner_example_reachable] by (simp add: runner_example_defs)
  then show ?thesis by (rule inevitably_mono) simp
qed

end
