(* ===== verification/Bounded_Map.thy ===== *)
theory Bounded_Map
  imports Time_Model
begin

text \<open>
  \<^verbatim>\<open>Generics::BoundedMap\<close> (\<^verbatim>\<open>src/src/Generics/BoundedMap.hpp\<close>): a map whose total size is bounded, with a
  queue of its keys from the least to the most recently used one.  Elements that have not been
  used for the timeout make room for new ones.  The container is a map from keys to the data
  and its size; the iterator of an item into the queue is the entry of the queue with its key.
  Sizes are 64 bit words and the counters of the statistics are an \<^verbatim>\<open>int\<close> of 32 bits.  The policy that gives the size of an element, the clock and failing
  assertions are explicit; allocation does not fail, and all operations run under the lock of the map.
\<close>

section \<open>The map\<close>

record BoundedMapStat =
  inserted_new :: "32 word"
  insert_existing :: "32 word"
  removed_outdated :: "32 word"
  removed_updated :: "32 word"
  not_inserted :: "32 word"
  replaced :: "32 word"

definition stat_create :: BoundedMapStat where
  "stat_create = \<lparr>inserted_new = 0, insert_existing = 0, removed_outdated = 0, removed_updated = 0,
     not_inserted = 0, replaced = 0\<rparr>"

type_synonym ('k, 'd) items = "'k \<Rightarrow> ('d \<times> 64 word) option"

record ('k, 'd) BoundedMap =
  bm_bound :: "64 word"
  bm_timeout :: Time
  container :: "('k, 'd) items"
  queue :: "('k \<times> Time) list"
  bm_size :: "64 word"
  stat :: BoundedMapStat

definition bm_create :: "64 word \<Rightarrow> Time \<Rightarrow> ('k, 'd) BoundedMap" where
  "bm_create bound timeout = \<lparr>bm_bound = bound, bm_timeout = timeout, container = (\<lambda>_. None), queue = [],
     bm_size = 0, stat = stat_create\<rparr>"

section \<open>Lookup and insertion\<close>

text \<open>The entry of the queue moves to the end, as used now.\<close>

definition find_item :: "'k \<Rightarrow> Time \<Rightarrow> ('k, 'd) BoundedMap \<Rightarrow> ('d \<times> 64 word) option \<times> ('k, 'd) BoundedMap" where
  "find_item key now m =
     (case container m key of
        None \<Rightarrow> (None, m)
      | Some item \<Rightarrow> (Some item, m\<lparr>queue := filter (\<lambda>e. fst e \<noteq> key) (queue m) @ [(key, now)]\<rparr>))"

definition bm_find :: "'k \<Rightarrow> Time \<Rightarrow> ('k, 'd) BoundedMap \<Rightarrow> 'd option \<times> ('k, 'd) BoundedMap" where
  "bm_find key now m = (let (r, m) = find_item key now m in (map_option fst r, m))"

text \<open>
  The loop that makes room for \<open>sz\<close>: \<open>True\<close> when there is enough, \<open>False\<close> when the least recently
  used element is still in use or there is none.
\<close>

function evict_loop :: "64 word \<Rightarrow> Time \<Rightarrow> ('k, 'd) BoundedMap \<Rightarrow> (bool \<times> ('k, 'd) BoundedMap) result" where
  "evict_loop sz now m =
     (if bm_size m + sz > bm_bound m then
        (case queue m of
           [] \<Rightarrow> Inr (False, m)
         | (key, last_used) # rest \<Rightarrow>
             if time_add last_used (bm_timeout m) > now then Inr (False, m)
             else (case container m key of
                     None \<Rightarrow> Inl AssertionFailed
                   | Some item \<Rightarrow>
                       evict_loop sz now
                         (m\<lparr>stat := (stat m)\<lparr>removed_outdated := removed_outdated (stat m) + 1\<rparr>,
                            bm_size := bm_size m - snd item, container := (container m)(key := None),
                            queue := rest\<rparr>)))
      else Inr (True, m))"
  by pat_completeness auto

termination by (relation "measure (\<lambda>(sz, now, m). length (queue m))") auto

declare evict_loop.simps [simp del]

definition not_inserted_inc :: "('k, 'd) BoundedMap \<Rightarrow> ('k, 'd) BoundedMap" where
  "not_inserted_inc m = m\<lparr>stat := (stat m)\<lparr>not_inserted := not_inserted (stat m) + 1\<rparr>\<rparr>"

text \<open>\<^verbatim>\<open>insert_\<close> for a key that is not there: whether the element was inserted.\<close>

definition insert_new ::
  "('k \<Rightarrow> 'd \<Rightarrow> 64 word) \<Rightarrow> 'k \<Rightarrow> 'd \<Rightarrow> Time \<Rightarrow> ('k, 'd) BoundedMap \<Rightarrow> (bool \<times> ('k, 'd) BoundedMap) result" where
  "insert_new size_policy key data now m =
     (let sz = size_policy key data in
      if sz > bm_bound m then Inr (False, not_inserted_inc m)
      else rbind (evict_loop sz now m) (\<lambda>(fits, m).
        if \<not> fits then Inr (False, not_inserted_inc m)
        else if container m key \<noteq> None then Inl AssertionFailed
        else Inr (True, m\<lparr>queue := queue m @ [(key, now)], container := (container m)(key := Some (data, sz)),
               stat := (stat m)\<lparr>inserted_new := inserted_new (stat m) + 1\<rparr>, bm_size := bm_size m + sz\<rparr>)))"

text \<open>The result is the data the iterator refers to, if any, and whether the element was inserted.\<close>

definition bm_insert ::
  "('k \<Rightarrow> 'd \<Rightarrow> 64 word) \<Rightarrow> 'k \<Rightarrow> 'd \<Rightarrow> Time \<Rightarrow> ('k, 'd) BoundedMap \<Rightarrow>
   (('d option \<times> bool) \<times> ('k, 'd) BoundedMap) result" where
  "bm_insert size_policy key data now m =
     (case find_item key now m of
        (Some item, m) \<Rightarrow>
          Inr ((Some (fst item), False), m\<lparr>stat := (stat m)\<lparr>insert_existing := insert_existing (stat m) + 1\<rparr>\<rparr>)
      | (None, m) \<Rightarrow>
          rmap (\<lambda>(inserted, m). ((if inserted then Some data else None, inserted), m))
            (insert_new size_policy key data now m))"

section \<open>Update\<close>

definition remove_item :: "'k \<Rightarrow> 64 word \<Rightarrow> ('k, 'd) BoundedMap \<Rightarrow> ('k, 'd) BoundedMap" where
  "remove_item key old_size m =
     m\<lparr>bm_size := bm_size m - old_size, queue := filter (\<lambda>e. fst e \<noteq> key) (queue m),
       container := (container m)(key := None)\<rparr>"

text \<open>
  The search for the elements that have to go for the new size: how many entries of the queue
  they reach over and the size that remains, \<open>None\<close> if there are not enough of them.
\<close>

fun update_scan ::
  "('k, 'd) BoundedMap \<Rightarrow> 'k \<Rightarrow> Time \<Rightarrow> 64 word \<Rightarrow> ('k \<times> Time) list \<Rightarrow> (nat \<times> 64 word) option result" where
  "update_scan m key now new_size [] = Inr (if new_size > bm_bound m then None else Some (0, new_size))"
| "update_scan m key now new_size ((k, last_used) # q) =
     (if new_size > bm_bound m then
        (if time_add last_used (bm_timeout m) > now then Inr None
         else if k \<noteq> key then
           (case container m k of
              None \<Rightarrow> Inl AssertionFailed
            | Some item \<Rightarrow>
                rmap (map_option (\<lambda>(n, s). (Suc n, s))) (update_scan m key now (new_size - snd item) q))
         else rmap (map_option (\<lambda>(n, s). (Suc n, s))) (update_scan m key now new_size q))
      else Inr (Some (0, new_size)))"

text \<open>The removal of the entries before position \<open>n\<close>, except the one of \<open>key\<close>.\<close>

definition remove_others :: "'k \<Rightarrow> nat \<Rightarrow> ('k, 'd) BoundedMap \<Rightarrow> ('k, 'd) BoundedMap" where
  "remove_others key n m =
     (let gone = filter (\<lambda>e. fst e \<noteq> key) (take n (queue m))
      in m\<lparr>stat := (stat m)\<lparr>removed_outdated := removed_outdated (stat m) + word_of_nat (length gone)\<rparr>,
           container := (\<lambda>k. if k \<in> set (map fst gone) then None else container m k),
           queue := filter (\<lambda>e. fst e = key) (take n (queue m)) @ drop n (queue m)\<rparr>)"

definition removed_updated_inc :: "('k, 'd) BoundedMap \<Rightarrow> ('k, 'd) BoundedMap" where
  "removed_updated_inc m = m\<lparr>stat := (stat m)\<lparr>removed_updated := removed_updated (stat m) + 1\<rparr>\<rparr>"

definition set_size :: "'k \<Rightarrow> 'd \<Rightarrow> 64 word \<Rightarrow> 64 word \<Rightarrow> ('k, 'd) BoundedMap \<Rightarrow> ('k, 'd) BoundedMap" where
  "set_size key data sz new_size m = m\<lparr>container := (container m)(key := Some (data, sz)), bm_size := new_size\<rparr>"

text \<open>\<^verbatim>\<open>update_\<close> for the item of \<open>key\<close>: its data has changed, its size is to follow.\<close>

definition update_item ::
  "('k \<Rightarrow> 'd \<Rightarrow> 64 word) \<Rightarrow> 'k \<Rightarrow> 'd \<times> 64 word \<Rightarrow> Time \<Rightarrow> ('k, 'd) BoundedMap \<Rightarrow>
   (bool \<times> ('k, 'd) BoundedMap) result" where
  "update_item size_policy key item now m =
     (let sz = size_policy key (fst item);
          new_size = bm_size m + sz - snd item;
          removed = removed_updated_inc (remove_item key (snd item) m)
      in if new_size \<le> bm_bound m then Inr (True, set_size key (fst item) sz new_size m)
         else if sz > bm_bound m then Inr (False, removed)
         else rmap (\<lambda>r. case r of
              None \<Rightarrow> (False, removed)
            | Some (n, new_size) \<Rightarrow> (True, set_size key (fst item) sz new_size (remove_others key n m)))
            (update_scan m key now new_size (queue m)))"

definition bm_insert_or_update ::
  "('k \<Rightarrow> 'd \<Rightarrow> 64 word) \<Rightarrow> 'k \<Rightarrow> 'd \<Rightarrow> Time \<Rightarrow> ('k, 'd) BoundedMap \<Rightarrow> ('k, 'd) BoundedMap result" where
  "bm_insert_or_update size_policy key data now m =
     (case find_item key now m of
        (Some item, m) \<Rightarrow>
          (let m = m\<lparr>container := (container m)(key := Some (data, snd item))\<rparr>
           in rmap (\<lambda>(ok, m). if ok then m\<lparr>stat := (stat m)\<lparr>replaced := replaced (stat m) + 1\<rparr>\<rparr> else m)
             (update_item size_policy key (data, snd item) now m))
      | (None, m) \<Rightarrow> rmap snd (insert_new size_policy key data now m))"

text \<open>\<^verbatim>\<open>update\<close>, after a client has changed the data of the element to \<open>data\<close> through its iterator.\<close>

definition bm_update ::
  "('k \<Rightarrow> 'd \<Rightarrow> 64 word) \<Rightarrow> 'k \<Rightarrow> Time \<Rightarrow> ('k, 'd) BoundedMap \<Rightarrow> ('k, 'd) BoundedMap result" where
  "bm_update size_policy key now m =
     (case container m key of
        None \<Rightarrow> Inr m
      | Some item \<Rightarrow> rmap snd (update_item size_policy key item now m))"

definition bm_erase :: "'k \<Rightarrow> ('k, 'd) BoundedMap \<Rightarrow> ('k, 'd) BoundedMap" where
  "bm_erase key m = (case container m key of None \<Rightarrow> m | Some item \<Rightarrow> remove_item key (snd item) m)"

definition bm_clear :: "('k, 'd) BoundedMap \<Rightarrow> ('k, 'd) BoundedMap" where
  "bm_clear m = m\<lparr>bm_size := 0, container := (\<lambda>_. None), queue := []\<rparr>"

definition bm_statistics :: "bool \<Rightarrow> ('k, 'd) BoundedMap \<Rightarrow> BoundedMapStat \<times> ('k, 'd) BoundedMap" where
  "bm_statistics reset m = (stat m, if reset then m\<lparr>stat := stat_create\<rparr> else m)"

definition bm_set_bound :: "64 word \<Rightarrow> ('k, 'd) BoundedMap \<Rightarrow> ('k, 'd) BoundedMap" where
  "bm_set_bound new_bound m = m\<lparr>bm_bound := new_bound\<rparr>"

definition bm_set_timeout :: "Time \<Rightarrow> ('k, 'd) BoundedMap \<Rightarrow> ('k, 'd) BoundedMap" where
  "bm_set_timeout new_timeout m = m\<lparr>bm_timeout := new_timeout\<rparr>"

text \<open>What a client does to an element through an iterator.\<close>

definition client_write :: "'k \<Rightarrow> 'd \<Rightarrow> ('k, 'd) BoundedMap \<Rightarrow> ('k, 'd) BoundedMap" where
  "client_write key data m = m\<lparr>container := (container m)(key := map_option (\<lambda>item. (data, snd item)) (container m key))\<rparr>"

section \<open>The invariant\<close>

definition item_size :: "('k, 'd) items \<Rightarrow> 'k \<Rightarrow> nat" where
  "item_size c k = (case c k of None \<Rightarrow> 0 | Some item \<Rightarrow> unat (snd item))"

definition total_size :: "('k, 'd) items \<Rightarrow> ('k \<times> Time) list \<Rightarrow> nat" where
  "total_size c q = (\<Sum>e\<leftarrow>q. item_size c (fst e))"

text \<open>
  The queue holds every key of the container once, and the size is the sum of the items' sizes,
  which is far from the end of the 64 bit range.
\<close>

definition bm_ok :: "('k, 'd) BoundedMap \<Rightarrow> bool" where
  "bm_ok m \<longleftrightarrow> distinct (map fst (queue m)) \<and> dom (container m) = fst ` set (queue m) \<and>
     unat (bm_size m) = total_size (container m) (queue m) \<and> unat (bm_size m) < 2 ^ 63"

lemma total_simps [simp]:
  "total_size c [] = 0" "total_size c (e # q) = item_size c (fst e) + total_size c q" "total_size c (q @ q') = total_size c q + total_size c q'"
  by (simp_all add: total_size_def)

lemma item_size_upd [simp]:
  "item_size (c(k := v)) k = (case v of None \<Rightarrow> 0 | Some item \<Rightarrow> unat (snd item))"
  "k' \<noteq> k \<Longrightarrow> item_size (c(k := v)) k' = item_size c k'"
  by (simp_all add: item_size_def)

lemma total_cong: "(\<And>e. e \<in> set q \<Longrightarrow> item_size c (fst e) = item_size c' (fst e)) \<Longrightarrow> total_size c q = total_size c' q"
  by (induction q) auto

lemma total_upd [simp]: "k \<notin> fst ` set q \<Longrightarrow> total_size (c(k := v)) q = total_size c q"
  by (rule total_cong) (auto intro: item_size_upd(2))

lemma total_filter:
  "distinct (map fst q) \<Longrightarrow> total_size c q = (if k \<in> fst ` set q then item_size c k else 0) + total_size c (filter (\<lambda>e. fst e \<noteq> k) q)"
proof (induction q)
  case (Cons e q)
  show ?case
  proof (cases "fst e = k")
    case True
    then have "filter (\<lambda>e. fst e \<noteq> k) q = q" using Cons.prems by (auto simp: filter_id_conv image_iff)
    with True show ?thesis by simp
  qed (use Cons in simp)
qed simp

lemma total_upd_filter [simp]:
  "total_size (c(k := v)) (filter (\<lambda>e. fst e \<noteq> k) q) = total_size c (filter (\<lambda>e. fst e \<noteq> k) q)"
  by (rule total_upd) auto

lemma total_split: "total_size c (filter P q) + total_size c (filter (\<lambda>e. \<not> P e) q) = total_size c q"
  by (induction q) auto

lemma bm_ok_item:
  assumes "bm_ok m" and "container m k = Some item"
  shows "k \<in> fst ` set (queue m)" and "item_size (container m) k = unat (snd item)"
    and "unat (bm_size m) = unat (snd item) + total_size (container m) (filter (\<lambda>e. fst e \<noteq> k) (queue m))"
    and "unat (snd item) \<le> unat (bm_size m)"
proof -
  show k: "k \<in> fst ` set (queue m)" using assms by (auto simp: bm_ok_def dom_def)
  show i: "item_size (container m) k = unat (snd item)" using assms(2) by (simp add: item_size_def)
  have "distinct (map fst (queue m))" using assms(1) by (simp add: bm_ok_def)
  from total_filter [OF this, of "container m" k] k i
  show "unat (bm_size m) = unat (snd item) + total_size (container m) (filter (\<lambda>e. fst e \<noteq> k) (queue m))"
    using assms(1) by (simp add: bm_ok_def)
  then show "unat (snd item) \<le> unat (bm_size m)" by simp
qed

lemma unat_plus64: "unat a < 2 ^ 63 \<Longrightarrow> unat b < 2 ^ 63 \<Longrightarrow> unat (a + b :: 64 word) = unat a + unat b"
  by (simp add: unat_word_ariths)

lemma unat_minus64: "unat b \<le> unat a \<Longrightarrow> unat (a - b :: 64 word) = unat a - unat b"
  by (simp add: unat_sub word_le_nat_alt)

lemma fst_filter_neq [simp]: "fst ` set (filter (\<lambda>e. fst e \<noteq> k) q) = fst ` set q - {k}"
  by auto

lemma find_item_ok:
  assumes "bm_ok m" and "find_item key now m = (r, m')"
  shows "bm_ok m'" and "r = container m key" and "container m' = container m"
    and "bm_size m' = bm_size m" "bm_bound m' = bm_bound m" "bm_timeout m' = bm_timeout m" "stat m' = stat m"
    and "r = None \<Longrightarrow> m' = m"
    and "r \<noteq> None \<Longrightarrow> queue m' = filter (\<lambda>e. fst e \<noteq> key) (queue m) @ [(key, now)]"
proof -
  show "bm_ok m'"
  proof (cases "container m key")
    case (Some item)
    note i = bm_ok_item [OF assms(1) Some]
    have m': "m' = m\<lparr>queue := filter (\<lambda>e. fst e \<noteq> key) (queue m) @ [(key, now)]\<rparr>"
      using assms(2) Some by (simp add: find_item_def)
    have "distinct (map fst (filter (\<lambda>e. fst e \<noteq> key) (queue m)))"
      using assms(1) by (simp add: bm_ok_def distinct_map_filter)
    with assms(1) i show ?thesis by (auto simp: bm_ok_def m')
  qed (use assms in \<open>simp add: find_item_def\<close>)
qed (use assms(2) in \<open>auto simp: find_item_def split: option.splits\<close>)

lemma remove_item_ok:
  assumes "bm_ok m" and "container m key = Some item"
  shows "bm_ok (remove_item key (snd item) m)"
proof -
  note i = bm_ok_item [OF assms]
  have "distinct (map fst (filter (\<lambda>e. fst e \<noteq> key) (queue m)))"
    using assms(1) by (simp add: bm_ok_def distinct_map_filter)
  then show ?thesis using assms(1) i unat_minus64 [OF i(4)] by (auto simp: bm_ok_def remove_item_def)
qed

section \<open>Eviction\<close>

text \<open>The container without the first \<open>n\<close> entries of the queue.\<close>

definition without :: "('k \<times> Time) list \<Rightarrow> ('k, 'd) items \<Rightarrow> ('k, 'd) items" where
  "without gone c = (\<lambda>k. if k \<in> fst ` set gone then None else c k)"

lemma without_Cons: "without (e # gone) c = without gone (c(fst e := None))"
  by (auto simp: without_def fun_eq_iff)

lemma without_Nil [simp]: "without [] c = c" by (simp add: without_def)

definition outdated :: "Time \<Rightarrow> Time \<Rightarrow> 'k \<times> Time \<Rightarrow> bool" where
  "outdated timeout now e \<longleftrightarrow> time_add (snd e) timeout \<le> now"

definition evict_post ::
  "64 word \<Rightarrow> Time \<Rightarrow> ('k, 'd) BoundedMap \<Rightarrow> bool \<Rightarrow> ('k, 'd) BoundedMap \<Rightarrow> nat \<Rightarrow> bool" where
  "evict_post sz now m fits m' n \<longleftrightarrow>
     bm_ok m' \<and> n \<le> length (queue m) \<and> queue m' = drop n (queue m) \<and>
     container m' = without (take n (queue m)) (container m) \<and>
     list_all (outdated (bm_timeout m) now) (take n (queue m)) \<and>
     (\<forall>j<n. unat (bm_bound m) < unat sz + total_size (container m) (drop j (queue m))) \<and>
     bm_bound m' = bm_bound m \<and> bm_timeout m' = bm_timeout m \<and>
     stat m' = (stat m)\<lparr>removed_outdated := removed_outdated (stat m) + word_of_nat n\<rparr> \<and>
     (fits \<longleftrightarrow> unat (bm_size m') + unat sz \<le> unat (bm_bound m)) \<and>
     (\<not> fits \<longrightarrow> queue m' = [] \<or> \<not> outdated (bm_timeout m) now (hd (queue m')))"

lemma evict_loop_ok:
  assumes "bm_ok m" and "unat sz < 2 ^ 63"
  shows "\<exists>fits m' n. evict_loop sz now m = Inr (fits, m') \<and> evict_post sz now m fits m' n"
  using assms
proof (induction sz now m rule: evict_loop.induct)
  case (1 sz now m)
  have fits: "bm_size m + sz > bm_bound m \<longleftrightarrow> \<not> unat (bm_size m) + unat sz \<le> unat (bm_bound m)"
    using 1(2,3) unat_plus64 [of "bm_size m" sz] by (simp add: bm_ok_def word_less_nat_alt not_le)
  show ?case
  proof (cases "bm_size m + sz > bm_bound m \<and> queue m \<noteq> [] \<and> outdated (bm_timeout m) now (hd (queue m))")
    case False
    then have "evict_loop sz now m = Inr (\<not> bm_size m + sz > bm_bound m, m)"
      by (subst evict_loop.simps) (auto simp: outdated_def not_le split: list.splits)
    moreover have "evict_post sz now m (\<not> bm_size m + sz > bm_bound m) m 0"
      using False fits 1(2) by (auto simp: evict_post_def)
    ultimately show ?thesis by blast
  next
    case True
    then obtain key last rest where q: "queue m = (key, last) # rest" by (cases "queue m") auto
    then have "key \<in> dom (container m)" using 1(2) by (auto simp: bm_ok_def)
    then obtain item where item: "container m key = Some item" by auto
    let ?m = "m\<lparr>stat := (stat m)\<lparr>removed_outdated := removed_outdated (stat m) + 1\<rparr>,
      bm_size := bm_size m - snd item, container := (container m)(key := None), queue := rest\<rparr>"
    have loop: "evict_loop sz now m = evict_loop sz now ?m"
      using True q item by (subst evict_loop.simps) (auto simp: outdated_def dest: leD)
    have "filter (\<lambda>e. fst e \<noteq> key) (queue m) = rest"
      using 1(2) q by (auto simp: bm_ok_def filter_id_conv image_iff)
    with remove_item_ok [OF 1(2) item] have "bm_ok ?m" by (simp add: bm_ok_def remove_item_def)
    with 1(1) [OF _ q refl _ item] 1(3) True q obtain fits m' n
      where r: "evict_loop sz now ?m = Inr (fits, m')" "evict_post sz now ?m fits m' n"
      by (auto simp: outdated_def not_less)
    have "key \<notin> fst ` set rest" using 1(2) q by (auto simp: bm_ok_def)
    then have "total_size ((container m)(key := None)) (drop j rest) = total_size (container m) (drop j rest)" for j
      by (intro total_upd) (auto dest: in_set_dropD)
    moreover have "unat (bm_bound m) < unat sz + total_size (container m) (queue m)"
      using True fits 1(2) by (simp add: bm_ok_def)
    ultimately have "\<forall>j<Suc n. unat (bm_bound m) < unat sz + total_size (container m) (drop j (queue m))"
      using r(2) q by (auto simp: evict_post_def less_Suc_eq_0_disj)
    with r(2) have "evict_post sz now m fits m' (Suc n)"
      using True q by (auto simp: evict_post_def without_Cons)
    with loop r(1) show ?thesis by metis
  qed
qed

lemma total_without_le: "total_size (without gone c) q \<le> total_size c q"
  by (induction q) (auto simp: item_size_def without_def intro: add_mono)

lemma evict_post_size:
  assumes "bm_ok m" and "evict_post sz now m fits m' n"
  shows "unat (bm_size m') \<le> unat (bm_size m)"
proof -
  have "total_size (container m') (queue m') \<le> total_size (container m) (drop n (queue m))"
    using assms(2) by (simp add: evict_post_def total_without_le)
  also have "\<dots> \<le> total_size (container m) (take n (queue m) @ drop n (queue m))"
    unfolding total_simps(3) by simp
  finally show ?thesis using assms by (simp add: evict_post_def bm_ok_def)
qed

section \<open>Insertion\<close>

text \<open>
  The counters from \<open>m\<close> to \<open>m'\<close>: \<open>d\<close> elements have come, and each that was there or has come is still
  there, was counted when it left, or was erased.
\<close>

definition accounted :: "nat \<Rightarrow> ('k, 'd) BoundedMap \<Rightarrow> ('k, 'd) BoundedMap \<Rightarrow> bool" where
  "accounted d m m' \<longleftrightarrow> (\<exists>out upd gone.
     inserted_new (stat m') = inserted_new (stat m) + word_of_nat d \<and>
     removed_outdated (stat m') = removed_outdated (stat m) + word_of_nat out \<and>
     removed_updated (stat m') = removed_updated (stat m) + word_of_nat upd \<and>
     length (queue m) + d = length (queue m') + out + upd + gone)"

lemma accountedI:
  "inserted_new (stat m') = inserted_new (stat m) + word_of_nat d \<Longrightarrow>
   removed_outdated (stat m') = removed_outdated (stat m) + word_of_nat out \<Longrightarrow>
   removed_updated (stat m') = removed_updated (stat m) + word_of_nat upd \<Longrightarrow>
   length (queue m) + d = length (queue m') + out + upd + gone \<Longrightarrow> accounted d m m'"
  by (auto simp: accounted_def)

lemma accounted_unchanged:
  "inserted_new (stat m') = inserted_new (stat m) \<Longrightarrow> removed_outdated (stat m') = removed_outdated (stat m) \<Longrightarrow>
   removed_updated (stat m') = removed_updated (stat m) \<Longrightarrow> length (queue m') \<le> length (queue m) \<Longrightarrow> accounted 0 m m'"
  by (rule accountedI [where out = 0 and upd = 0 and gone = "length (queue m) - length (queue m')"]) simp_all

text \<open>The counters read as numbers, as long as at most \<open>k\<close> elements have come.\<close>

definition counted :: "nat \<Rightarrow> ('k, 'd) BoundedMap \<Rightarrow> bool" where
  "counted k m \<longleftrightarrow> (\<exists>new out upd.
     inserted_new (stat m) = word_of_nat new \<and> removed_outdated (stat m) = word_of_nat out \<and>
     removed_updated (stat m) = word_of_nat upd \<and> out + upd + length (queue m) \<le> new \<and> new \<le> k)"

lemma counted_step:
  assumes "counted k m" and "accounted d m m'"
  shows "counted (k + d) m'"
proof -
  obtain new out upd where c: "inserted_new (stat m) = word_of_nat new" "removed_outdated (stat m) = word_of_nat out"
    "removed_updated (stat m) = word_of_nat upd" "out + upd + length (queue m) \<le> new" "new \<le> k"
    using assms(1) by (auto simp: counted_def)
  obtain out' upd' gone where a: "inserted_new (stat m') = inserted_new (stat m) + word_of_nat d"
    "removed_outdated (stat m') = removed_outdated (stat m) + word_of_nat out'"
    "removed_updated (stat m') = removed_updated (stat m) + word_of_nat upd'"
    "length (queue m) + d = length (queue m') + out' + upd' + gone"
    using assms(2) by (auto simp: accounted_def)
  show ?thesis unfolding counted_def
    by (rule exI [of _ "new + d"], rule exI [of _ "out + out'"], rule exI [of _ "upd + upd'"]) (use a c in simp)
qed

lemma sint_of_nat_int: "n < 2 ^ 31 \<Longrightarrow> sint (word_of_nat n :: 32 word) = int n"
  by (simp add: signed_of_nat signed_take_bit_int_eq_self)

lemma counted_numbers:
  assumes "counted k m" and "k < 2 ^ 31"
  shows "sint (removed_outdated (stat m)) + sint (removed_updated (stat m)) + int (length (queue m)) \<le>
    sint (inserted_new (stat m))"
proof -
  obtain new out upd where c: "inserted_new (stat m) = word_of_nat new" "removed_outdated (stat m) = word_of_nat out"
    "removed_updated (stat m) = word_of_nat upd" "out + upd + length (queue m) \<le> new" "new \<le> k"
    using assms(1) by (auto simp: counted_def)
  with assms(2) show ?thesis by (simp add: sint_of_nat_int)
qed

definition sizes_fit :: "('k \<Rightarrow> 'd \<Rightarrow> 64 word) \<Rightarrow> ('k, 'd) BoundedMap \<Rightarrow> bool" where
  "sizes_fit size_policy m \<longleftrightarrow> (\<forall>k d. unat (size_policy k d) < 2 ^ 63) \<and> unat (bm_bound m) < 2 ^ 63"

lemma bm_ok_stat [simp]: "bm_ok (m\<lparr>stat := x\<rparr>) = bm_ok m"
  by (simp add: bm_ok_def)

lemma bm_ok_insert:
  assumes "bm_ok m" and "container m key = None" and "unat (bm_size m) + unat sz < 2 ^ 63"
  shows "bm_ok (m\<lparr>queue := queue m @ [(key, now)], container := (container m)(key := Some (data, sz)),
    stat := x, bm_size := bm_size m + sz\<rparr>)"
proof -
  have k: "key \<notin> fst ` set (queue m)" using assms(1,2) by (metis bm_ok_def domIff)
  have "unat (bm_size m + sz) = unat (bm_size m) + unat sz" using assms(3) by (intro unat_plus64) simp_all
  with k assms(1,3) show ?thesis by (simp add: bm_ok_def)
qed

lemma stale_prefix: "n \<le> length q \<Longrightarrow> list_all P (take n q) \<longleftrightarrow> n \<le> length (takeWhile P q)"
proof (induction q arbitrary: n)
  case (Cons e q)
  then show ?case by (cases n) auto
qed simp

lemma stale_end:
  "list_all P (take n q) \<Longrightarrow> n \<le> length q \<Longrightarrow> drop n q = [] \<or> \<not> P (hd (drop n q)) \<Longrightarrow> n = length (takeWhile P q)"
proof (induction q arbitrary: n)
  case (Cons e q)
  then show ?case by (cases n) auto
qed simp

lemma total_drop_mono: "i \<le> j \<Longrightarrow> total_size c (drop j q) \<le> total_size c (drop i q)"
proof -
  assume "i \<le> j"
  then have "drop i q = take (j - i) (drop i q) @ drop j q"
    by (metis append_take_drop_id drop_drop le_add_diff_inverse2)
  then show ?thesis by (metis le_add2 total_simps(3))
qed

text \<open>The entries at the front of the queue that have not been used for the timeout.\<close>

definition stale :: "Time \<Rightarrow> ('k, 'd) BoundedMap \<Rightarrow> nat" where
  "stale now m = length (takeWhile (outdated (bm_timeout m) now) (queue m))"

text \<open>
  The number \<open>n\<close> of entries that leave for an element of size \<open>sz\<close>: as few as make room, and all that
  are stale if these are not enough; none for an element larger than the bound.
\<close>

definition makes_room :: "64 word \<Rightarrow> Time \<Rightarrow> ('k, 'd) BoundedMap \<Rightarrow> bool \<Rightarrow> nat \<Rightarrow> bool" where
  "makes_room sz now m inserted n \<longleftrightarrow>
     n \<le> stale now m \<and>
     (inserted \<longleftrightarrow> unat sz + total_size (container m) (drop (stale now m) (queue m)) \<le> unat (bm_bound m)) \<and>
     (if inserted
      then unat sz + total_size (container m) (drop n (queue m)) \<le> unat (bm_bound m) \<and>
        (\<forall>j<n. unat (bm_bound m) < unat sz + total_size (container m) (drop j (queue m)))
      else n = (if bm_bound m < sz then 0 else stale now m))"

lemma total_without_drop:
  assumes "distinct (map fst q)"
  shows "total_size (without (take n q) c) (drop n q) = total_size c (drop n q)"
proof -
  have "distinct (map fst (take n q) @ map fst (drop n q))" using assms by (metis append_take_drop_id map_append)
  then show ?thesis by (intro total_cong) (auto simp: item_size_def without_def)
qed

lemma evict_makes_room:
  assumes "bm_ok m" and "evict_post sz now m fits m' n" and "sz \<le> bm_bound m"
  shows "makes_room sz now m fits n"
proof -
  note post = assms(2) [unfolded evict_post_def]
  have size: "unat (bm_size m') = total_size (container m) (drop n (queue m))"
    using post assms(1) total_without_drop [of "queue m" n "container m"] by (simp add: bm_ok_def)
  have n: "n \<le> stale now m" using post stale_prefix [of n "queue m"] by (simp add: stale_def)
  have all: "n = stale now m" if "\<not> fits"
    using post that stale_end [of "outdated (bm_timeout m) now" n "queue m"] by (auto simp: stale_def)
  have fits: "fits \<longleftrightarrow> unat sz + total_size (container m) (drop n (queue m)) \<le> unat (bm_bound m)"
    using post size by (simp add: add.commute)
  have least: "\<forall>j<n. unat (bm_bound m) < unat sz + total_size (container m) (drop j (queue m))" using post by blast
  have less: "total_size (container m) (drop (stale now m) (queue m)) \<le> total_size (container m) (drop n (queue m))"
    using n by (rule total_drop_mono)
  show ?thesis
  proof (cases fits)
    case True
    with fits less have "unat sz + total_size (container m) (drop (stale now m) (queue m)) \<le> unat (bm_bound m)" by linarith
    with True n fits least show ?thesis by (simp only: makes_room_def if_True simp_thms)
  next
    case False
    with fits all have "\<not> unat sz + total_size (container m) (drop (stale now m) (queue m)) \<le> unat (bm_bound m)" by blast
    with False n all assms(3) show ?thesis by (simp only: makes_room_def if_False simp_thms not_less [symmetric])
  qed
qed

lemma insert_new_ok:
  assumes "bm_ok m" and "sizes_fit size_policy m" and "container m key = None"
  shows "\<exists>inserted m' n. insert_new size_policy key data now m = Inr (inserted, m') \<and> bm_ok m' \<and>
    makes_room (size_policy key data) now m inserted n \<and> accounted (if inserted then 1 else 0) m m' \<and>
    bm_bound m' = bm_bound m \<and> bm_timeout m' = bm_timeout m \<and>
    (if inserted
     then container m' = (without (take n (queue m)) (container m))(key := Some (data, size_policy key data)) \<and>
       queue m' = drop n (queue m) @ [(key, now)] \<and> bm_size m' \<le> bm_bound m
     else container m' = without (take n (queue m)) (container m) \<and> queue m' = drop n (queue m) \<and>
       bm_size m' \<le> bm_size m)"
proof (cases "size_policy key data > bm_bound m")
  case True
  then have "makes_room (size_policy key data) now m False 0" by (simp add: makes_room_def word_less_nat_alt)
  then show ?thesis using assms(1) True
    by (intro exI [of _ False] exI [of _ "not_inserted_inc m"] exI [of _ 0])
      (simp add: insert_new_def not_inserted_inc_def accounted_unchanged)
next
  case False
  let ?sz = "size_policy key data"
  have sz: "unat ?sz < 2 ^ 63" "unat ?sz \<le> unat (bm_bound m)" "unat (bm_bound m) < 2 ^ 63"
    using assms(2) False by (simp_all add: sizes_fit_def not_less word_le_nat_alt)
  obtain fits m1 n where ev: "evict_loop ?sz now m = Inr (fits, m1)" "evict_post ?sz now m fits m1 n"
    using evict_loop_ok [OF assms(1) sz(1)] by blast
  note post = ev(2) [unfolded evict_post_def]
  have room: "makes_room ?sz now m fits n"
    using False by (intro evict_makes_room [OF assms(1) ev(2)]) simp
  show ?thesis
  proof (cases fits)
    case True
    have c: "container m1 key = None" using post assms(3) by (simp add: without_def)
    have ok: "bm_ok m1" using post by simp
    have new: "unat (bm_size m1 + ?sz) = unat (bm_size m1) + unat ?sz"
      using ok sz by (intro unat_plus64) (simp_all add: bm_ok_def)
    let ?m = "m1\<lparr>queue := queue m1 @ [(key, now)], container := (container m1)(key := Some (data, ?sz)),
      stat := (stat m1)\<lparr>inserted_new := inserted_new (stat m1) + 1\<rparr>, bm_size := bm_size m1 + ?sz\<rparr>"
    have "insert_new size_policy key data now m = Inr (True, ?m)"
      using False True ev(1) c by (simp add: insert_new_def Let_def)
    moreover have "bm_ok ?m" using post True sz(3) by (intro bm_ok_insert c ok) simp
    moreover have "accounted 1 m ?m"
      by (rule accountedI [where out = n and upd = 0 and gone = 0]) (use post in simp_all)
    ultimately show ?thesis using post new True room
      by (intro exI [of _ True] exI [of _ ?m] exI [of _ n]) (simp add: word_le_nat_alt)
  next
    case nofit: False
    have ins: "insert_new size_policy key data now m = Inr (False, not_inserted_inc m1)"
      using False nofit ev(1) by (simp add: insert_new_def)
    have less: "unat (bm_size m1) \<le> unat (bm_size m)" using evict_post_size [OF assms(1) ev(2)] .
    have "accounted 0 m (not_inserted_inc m1)"
      by (rule accountedI [where out = n and upd = 0 and gone = 0]) (use post in \<open>simp_all add: not_inserted_inc_def\<close>)
    then show ?thesis using ins less post nofit room
      by (intro exI [of _ False] exI [of _ "not_inserted_inc m1"] exI [of _ n])
        (simp add: not_inserted_inc_def word_le_nat_alt)
  qed
qed

section \<open>Update\<close>

lemma update_scan_ok:
  assumes "distinct (map fst q)" and "fst ` set q \<subseteq> dom (container m)"
    and "unat new_size = unat sz + total_size (container m) (filter (\<lambda>e. fst e \<noteq> key) q)"
  shows "\<exists>r. update_scan m key now new_size q = Inr r \<and>
    (case r of
       None \<Rightarrow> unat sz > unat (bm_bound m) \<or> \<not> list_all (outdated (bm_timeout m) now) q
     | Some (n, new_size') \<Rightarrow> n \<le> length q \<and> list_all (outdated (bm_timeout m) now) (take n q) \<and>
         unat new_size' = unat sz + total_size (container m) (filter (\<lambda>e. fst e \<noteq> key) (drop n q)) \<and>
         new_size' \<le> bm_bound m)"
  using assms
proof (induction q arbitrary: new_size)
  case Nil
  then show ?case by (auto simp: word_less_nat_alt not_less word_le_nat_alt)
next
  case (Cons e q)
  obtain k last where e: "e = (k, last)" by (cases e)
  show ?case
  proof (cases "new_size > bm_bound m \<and> outdated (bm_timeout m) now e")
    case False
    then show ?thesis using Cons.prems(3) e by (auto simp: outdated_def not_le not_less)
  next
    case True
    then have t: "\<not> time_add last (bm_timeout m) > now" by (simp add: outdated_def e not_less)
    obtain item where item: "container m k = Some item" using Cons.prems(2) e by auto
    let ?new = "if k \<noteq> key then new_size - snd item else new_size"
    have "unat ?new = unat sz + total_size (container m) (filter (\<lambda>e. fst e \<noteq> key) q)"
      using Cons.prems(3) item unat_minus64 [of "snd item" new_size] by (auto simp: e item_size_def)
    from Cons.IH [OF _ _ this] Cons.prems(1,2) obtain r
      where r: "update_scan m key now ?new q = Inr r"
        "case r of
           None \<Rightarrow> unat sz > unat (bm_bound m) \<or> \<not> list_all (outdated (bm_timeout m) now) q
         | Some (n, new_size') \<Rightarrow> n \<le> length q \<and> list_all (outdated (bm_timeout m) now) (take n q) \<and>
             unat new_size' = unat sz + total_size (container m) (filter (\<lambda>e. fst e \<noteq> key) (drop n q)) \<and>
             new_size' \<le> bm_bound m" by auto
    have "update_scan m key now new_size (e # q) = Inr (map_option (\<lambda>(n, s). (Suc n, s)) r)"
      using True t item r(1) by (cases "k = key") (simp_all add: e)
    then show ?thesis using r(2) True by (cases r) auto
  qed
qed

lemma map_fst_filter_distinct: "distinct (map fst q) \<Longrightarrow> distinct (map fst (filter P (take n q) @ drop n q))"
proof -
  assume "distinct (map fst q)"
  then have "distinct (map fst (take n q) @ map fst (drop n q))" by (metis append_take_drop_id map_append)
  then show ?thesis by (auto simp: distinct_map_filter)
qed

lemma remove_others_ok:
  assumes "bm_ok m" and "container m key = Some item"
    and "unat new_size = unat sz + total_size (container m) (filter (\<lambda>e. fst e \<noteq> key) (drop n (queue m)))"
    and "unat new_size < 2 ^ 63"
  shows "bm_ok (set_size key data sz new_size (remove_others key n m))"
proof -
  let ?m = "set_size key data sz new_size (remove_others key n m)"
  let ?q = "filter (\<lambda>e. fst e = key) (take n (queue m)) @ drop n (queue m)"
  have d: "distinct (map fst (queue m))" using assms(1) by (simp add: bm_ok_def)
  then have d': "distinct (map fst (take n (queue m)) @ map fst (drop n (queue m)))"
    by (metis append_take_drop_id map_append)
  have keys: "fst ` set (queue m) = fst ` set (take n (queue m)) \<union> fst ` set (drop n (queue m))"
    by (metis append_take_drop_id image_Un set_append)
  have key: "key \<in> fst ` set (queue m)" using bm_ok_item(1) [OF assms(1,2)] .
  have q: "queue ?m = ?q" by (simp add: set_size_def remove_others_def Let_def)
  have c: "container ?m = (without (filter (\<lambda>e. fst e \<noteq> key) (take n (queue m))) (container m))(key := Some (data, sz))"
    by (simp add: set_size_def remove_others_def Let_def without_def)
  have dq: "distinct (map fst ?q)" using d by (rule map_fst_filter_distinct)
  have "total_size (container ?m) ?q = unat sz + total_size (container ?m) (filter (\<lambda>e. fst e \<noteq> key) ?q)"
    using total_filter [OF dq, of "container ?m" key] key keys by (auto simp: c)
  also have "filter (\<lambda>e. fst e \<noteq> key) ?q = filter (\<lambda>e. fst e \<noteq> key) (drop n (queue m))" by simp
  also have "total_size (container ?m) (filter (\<lambda>e. fst e \<noteq> key) (drop n (queue m))) =
      total_size (container m) (filter (\<lambda>e. fst e \<noteq> key) (drop n (queue m)))"
    using d' by (intro total_cong) (auto simp: c item_size_def without_def)
  finally have "unat new_size = total_size (container ?m) ?q" using assms(3) by simp
  moreover have "dom (container ?m) = fst ` set ?q"
  proof -
    have "dom (container ?m) = insert key (dom (container m) - fst ` set (filter (\<lambda>e. fst e \<noteq> key) (take n (queue m))))"
      unfolding c by (auto simp: without_def dom_def simp del: set_filter split: if_splits)
    also have "\<dots> = insert key (fst ` set (queue m) - (fst ` set (take n (queue m)) - {key}))"
      using assms(1) unfolding fst_filter_neq by (simp add: bm_ok_def)
    also have "\<dots> = (fst ` set (take n (queue m)) \<inter> {key}) \<union> fst ` set (drop n (queue m))"
      using key d' unfolding keys by auto
    also have "\<dots> = fst ` set ?q" by auto
    finally show ?thesis .
  qed
  ultimately show ?thesis using dq q assms(4) by (simp add: bm_ok_def set_size_def)
qed

lemma length_filter_neq:
  "distinct (map fst q) \<Longrightarrow> k \<in> fst ` set q \<Longrightarrow> Suc (length (filter (\<lambda>e. fst e \<noteq> k) q)) = length q"
proof (induction q)
  case (Cons e q)
  show ?case
  proof (cases "fst e = k")
    case True
    then have "filter (\<lambda>e. fst e \<noteq> k) q = q" using Cons.prems by (auto simp: filter_id_conv image_iff)
    with True show ?thesis by simp
  qed (use Cons in auto)
qed simp

lemma length_filter_take:
  "length (filter P (take n q) @ drop n q) + length (filter (\<lambda>x. \<not> P x) (take n q)) = length q"
proof -
  have "length (filter P (take n q)) + length (filter (\<lambda>x. \<not> P x) (take n q)) = length (take n q)"
    by (rule sum_length_filter_compl)
  then show ?thesis by simp
qed

definition update_post ::
  "'k \<Rightarrow> 'd \<Rightarrow> 64 word \<Rightarrow> Time \<Rightarrow> ('k, 'd) BoundedMap \<Rightarrow> bool \<Rightarrow> ('k, 'd) BoundedMap \<Rightarrow> nat \<Rightarrow> bool" where
  "update_post key data sz now m ok m' n \<longleftrightarrow>
     bm_ok m' \<and> accounted 0 m m' \<and> bm_bound m' = bm_bound m \<and> bm_timeout m' = bm_timeout m \<and>
     (if ok
      then list_all (outdated (bm_timeout m) now) (take n (queue m)) \<and>
        container m' = (without (filter (\<lambda>e. fst e \<noteq> key) (take n (queue m))) (container m))(key := Some (data, sz)) \<and>
        queue m' = filter (\<lambda>e. fst e = key) (take n (queue m)) @ drop n (queue m) \<and> bm_size m' \<le> bm_bound m
      else container m' = (container m)(key := None) \<and> queue m' = filter (\<lambda>e. fst e \<noteq> key) (queue m) \<and>
        bm_size m' \<le> bm_size m \<and>
        (sz > bm_bound m \<or> \<not> list_all (outdated (bm_timeout m) now) (queue m)))"

lemma update_post_removed:
  assumes "bm_ok m" and "container m key = Some item"
    and "sz > bm_bound m \<or> \<not> list_all (outdated (bm_timeout m) now) (queue m)"
  shows "update_post key data sz now m False (removed_updated_inc (remove_item key (snd item) m)) 0"
proof -
  note i = bm_ok_item [OF assms(1,2)]
  have "bm_size m - snd item \<le> bm_size m" using unat_minus64 [OF i(4)] by (simp add: word_le_nat_alt)
  moreover have "Suc (length (filter (\<lambda>e. fst e \<noteq> key) (queue m))) = length (queue m)"
    using i(1) assms(1) by (intro length_filter_neq) (simp_all add: bm_ok_def)
  then have "accounted 0 m (removed_updated_inc (remove_item key (snd item) m))"
    by (intro accountedI [where out = 0 and upd = 1 and gone = 0])
      (simp_all add: removed_updated_inc_def remove_item_def)
  ultimately show ?thesis using remove_item_ok [OF assms(1,2)] assms(3)
    by (auto simp: update_post_def removed_updated_inc_def remove_item_def)
qed

lemma update_post_kept:
  assumes "bm_ok m" and "container m key = Some item" and "unat (bm_bound m) < 2 ^ 63"
    and "unat new_size = unat sz + total_size (container m) (filter (\<lambda>e. fst e \<noteq> key) (drop n (queue m)))"
    and "new_size \<le> bm_bound m" and "list_all (outdated (bm_timeout m) now) (take n (queue m))"
  shows "update_post key data sz now m True (set_size key data sz new_size (remove_others key n m)) n"
proof -
  have "unat new_size < 2 ^ 63" using assms(3,5) by (simp add: word_le_nat_alt)
  have "accounted 0 m (set_size key data sz new_size (remove_others key n m))"
    by (rule accountedI [where out = "length (filter (\<lambda>e. fst e \<noteq> key) (take n (queue m)))" and upd = 0 and gone = 0])
      (use length_filter_take [of "\<lambda>e. fst e = key" n "queue m"] in
        \<open>simp_all add: set_size_def remove_others_def Let_def\<close>)
  with remove_others_ok [OF assms(1,2,4) \<open>unat new_size < 2 ^ 63\<close>] assms(5,6) show ?thesis
    by (simp add: update_post_def set_size_def remove_others_def Let_def without_def fun_eq_iff)
qed

lemma update_item_ok:
  assumes "bm_ok m" and "sizes_fit size_policy m" and "container m key = Some item"
  shows "\<exists>ok m' n. update_item size_policy key item now m = Inr (ok, m') \<and>
    update_post key (fst item) (size_policy key (fst item)) now m ok m' n"
proof -
  let ?sz = "size_policy key (fst item)" and ?new = "bm_size m + size_policy key (fst item) - snd item"
  let ?others = "\<lambda>q. total_size (container m) (filter (\<lambda>e. fst e \<noteq> key) q)"
  let ?removed = "removed_updated_inc (remove_item key (snd item) m)"
  have sz: "unat ?sz < 2 ^ 63" "unat (bm_bound m) < 2 ^ 63" using assms(2) by (simp_all add: sizes_fit_def)
  note i = bm_ok_item [OF assms(1,3)]
  have "unat (bm_size m + ?sz) = unat (bm_size m) + unat ?sz"
    using assms(1) sz(1) by (intro unat_plus64) (simp_all add: bm_ok_def)
  then have new: "unat ?new = unat ?sz + ?others (queue m)"
    using i(3) unat_minus64 [of "snd item" "bm_size m + ?sz"] by simp
  consider "?new \<le> bm_bound m" | "\<not> ?new \<le> bm_bound m" "?sz > bm_bound m"
    | "\<not> ?new \<le> bm_bound m" "\<not> ?sz > bm_bound m" by blast
  then show ?thesis
  proof cases
    case 1
    then have "update_item size_policy key item now m = Inr (True, set_size key (fst item) ?sz ?new m)"
      by (simp add: update_item_def Let_def)
    moreover have "remove_others key 0 m = m" by (simp add: remove_others_def Let_def)
    with update_post_kept [OF assms(1,3) sz(2), of ?new ?sz 0 now "fst item"] 1 new
    have "update_post key (fst item) ?sz now m True (set_size key (fst item) ?sz ?new m) 0" by simp
    ultimately show ?thesis by blast
  next
    case 2
    then have "update_item size_policy key item now m = Inr (False, ?removed)"
      by (simp add: update_item_def Let_def)
    with update_post_removed [OF assms(1,3)] 2 show ?thesis by blast
  next
    case 3
    have "distinct (map fst (queue m))" "fst ` set (queue m) \<subseteq> dom (container m)"
      using assms(1) by (simp_all add: bm_ok_def)
    from update_scan_ok [OF this new, of now] obtain r
      where r: "update_scan m key now ?new (queue m) = Inr r"
        "case r of
           None \<Rightarrow> unat ?sz > unat (bm_bound m) \<or> \<not> list_all (outdated (bm_timeout m) now) (queue m)
         | Some (n, new_size') \<Rightarrow> n \<le> length (queue m) \<and> list_all (outdated (bm_timeout m) now) (take n (queue m)) \<and>
             unat new_size' = unat ?sz + ?others (drop n (queue m)) \<and> new_size' \<le> bm_bound m" by blast
    have u: "update_item size_policy key item now m = Inr (case r of
        None \<Rightarrow> (False, ?removed)
      | Some (n, new_size) \<Rightarrow> (True, set_size key (fst item) ?sz new_size (remove_others key n m)))"
      using 3 r(1) by (simp add: update_item_def Let_def)
    show ?thesis
    proof (cases r)
      case None
      with r(2) 3(2) have "\<not> list_all (outdated (bm_timeout m) now) (queue m)" by (simp add: word_less_nat_alt)
      from update_post_removed [OF assms(1,3) disjI2 [OF this]]
      have "update_post key (fst item) ?sz now m False ?removed 0" .
      moreover have "update_item size_policy key item now m = Inr (False, ?removed)" using u None by simp
      ultimately show ?thesis by blast
    next
      case (Some a)
      obtain n s where a: "a = (n, s)" by (cases a)
      from r(2) have "update_post key (fst item) ?sz now m True (set_size key (fst item) ?sz s (remove_others key n m)) n"
        by (intro update_post_kept [OF assms(1,3) sz(2)]) (simp_all add: Some a)
      moreover have "update_item size_policy key item now m =
          Inr (True, set_size key (fst item) ?sz s (remove_others key n m))" using u by (simp add: Some a)
      ultimately show ?thesis by blast
    qed
  qed
qed

section \<open>Histories of the map\<close>

text \<open>The calls of the clients, with the data they write through iterators.\<close>

datatype ('k, 'd) bm_call =
    Find 'k | Insert 'k 'd | InsertOrUpdate 'k 'd | Write 'k 'd | Update 'k | Erase 'k | Clear
  | SetTimeout Time | SetBound "64 word" | Statistics bool

fun bm_exec ::
  "('k \<Rightarrow> 'd \<Rightarrow> 64 word) \<Rightarrow> Time \<Rightarrow> ('k, 'd) bm_call \<Rightarrow> ('k, 'd) BoundedMap \<Rightarrow> ('k, 'd) BoundedMap result" where
  "bm_exec size_policy now (Find key) m = Inr (snd (bm_find key now m))"
| "bm_exec size_policy now (Insert key data) m = rmap snd (bm_insert size_policy key data now m)"
| "bm_exec size_policy now (InsertOrUpdate key data) m = bm_insert_or_update size_policy key data now m"
| "bm_exec size_policy now (Write key data) m = Inr (client_write key data m)"
| "bm_exec size_policy now (Update key) m = bm_update size_policy key now m"
| "bm_exec size_policy now (Erase key) m = Inr (bm_erase key m)"
| "bm_exec size_policy now Clear m = Inr (bm_clear m)"
| "bm_exec size_policy now (SetTimeout timeout) m = Inr (bm_set_timeout timeout m)"
| "bm_exec size_policy now (SetBound new_bound) m = Inr (bm_set_bound new_bound m)"
| "bm_exec size_policy now (Statistics reset) m = Inr (snd (bm_statistics reset m))"

fun bm_run ::
  "('k \<Rightarrow> 'd \<Rightarrow> 64 word) \<Rightarrow> (Time \<times> ('k, 'd) bm_call) list \<Rightarrow> ('k, 'd) BoundedMap \<Rightarrow> ('k, 'd) BoundedMap result" where
  "bm_run size_policy [] m = Inr m"
| "bm_run size_policy ((now, call) # calls) m =
     rbind (bm_exec size_policy now call m) (bm_run size_policy calls)"

text \<open>What every call keeps, with \<open>peak\<close> at least every bound the map has ever had.\<close>

definition bm_good :: "64 word \<Rightarrow> ('k, 'd) BoundedMap \<Rightarrow> bool" where
  "bm_good peak m \<longleftrightarrow> bm_ok m \<and> bm_bound m \<le> peak \<and> bm_size m \<le> peak"

lemma client_write_ok: "bm_ok m \<Longrightarrow> bm_ok (client_write key data m)"
proof -
  assume ok: "bm_ok m"
  have "item_size (container (client_write key data m)) = item_size (container m)"
    by (auto simp: client_write_def item_size_def fun_eq_iff split: option.splits)
  then have "total_size (container (client_write key data m)) (queue m) = total_size (container m) (queue m)"
    by (simp add: total_size_def)
  moreover have "dom (container (client_write key data m)) = dom (container m)"
    by (auto simp: client_write_def dom_def)
  ultimately show ?thesis using ok by (simp add: bm_ok_def client_write_def)
qed

lemma client_write_simps:
  "queue (client_write key data m) = queue m" "bm_size (client_write key data m) = bm_size m"
  "bm_bound (client_write key data m) = bm_bound m" "stat (client_write key data m) = stat m"
  by (simp_all add: client_write_def)

lemma length_find_item:
  assumes "bm_ok m" and "find_item key now m = (r, m')"
  shows "length (queue m') = length (queue m)"
proof (cases "container m key")
  case (Some item)
  have "Suc (length (filter (\<lambda>e. fst e \<noteq> key) (queue m))) = length (queue m)"
    using bm_ok_item(1) [OF assms(1) Some] assms(1) by (intro length_filter_neq) (simp_all add: bm_ok_def)
  with Some assms(2) show ?thesis by (auto simp: find_item_def)
qed (use assms in \<open>auto simp: find_item_def\<close>)

lemma find_item_good:
  assumes "bm_good peak m" and "find_item key now m = (r, m')"
  shows "bm_good peak m'" and "accounted 0 m m'"
proof -
  have "bm_ok m" using assms(1) by (simp add: bm_good_def)
  note ok = find_item_ok [OF this assms(2)] length_find_item [OF this assms(2)]
  show "bm_good peak m'" using assms(1) ok by (simp add: bm_good_def)
  show "accounted 0 m m'" using ok by (simp add: accounted_unchanged)
qed

lemma insert_new_good:
  assumes "bm_good peak m" and "sizes_fit size_policy m" and "container m key = None"
  obtains inserted m' d where "insert_new size_policy key data now m = Inr (inserted, m')" "bm_good peak m'"
    "accounted d m m'" "d \<le> 1"
proof -
  have "bm_ok m" using assms(1) by (simp add: bm_good_def)
  from insert_new_ok [OF this assms(2,3), of data now] obtain inserted m'
    where i: "insert_new size_policy key data now m = Inr (inserted, m')" "bm_ok m'" "bm_bound m' = bm_bound m"
      "accounted (if inserted then 1 else 0) m m'" "bm_size m' \<le> (if inserted then bm_bound m else bm_size m)"
    by (elim exE conjE) (simp split: if_splits)
  moreover have "bm_good peak m'" using i(2,3,5) assms(1) by (auto simp: bm_good_def split: if_splits)
  ultimately show ?thesis by (intro that [OF i(1) _ i(4)]) simp_all
qed

lemma update_item_good:
  assumes "bm_good peak m" and "sizes_fit size_policy m" and "container m key = Some item"
  obtains ok m' where "update_item size_policy key item now m = Inr (ok, m')" "bm_good peak m'" "accounted 0 m m'"
proof -
  have "bm_ok m" using assms(1) by (simp add: bm_good_def)
  from update_item_ok [OF this assms(2,3)] obtain ok m' n
    where u: "update_item size_policy key item now m = Inr (ok, m')"
      "update_post key (fst item) (size_policy key (fst item)) now m ok m' n" by blast
  moreover have "bm_good peak m'" using u(2) assms(1) by (auto simp: bm_good_def update_post_def split: if_splits)
  ultimately show ?thesis by (intro that [OF u(1)]) (simp_all add: update_post_def)
qed

lemma accounted_trans: "accounted 0 m m1 \<Longrightarrow> accounted d m1 m2 \<Longrightarrow> accounted d m m2"
proof -
  assume "accounted 0 m m1" "accounted d m1 m2"
  then obtain out upd gone out' upd' gone'
    where a: "inserted_new (stat m1) = inserted_new (stat m)"
      "removed_outdated (stat m1) = removed_outdated (stat m) + word_of_nat out"
      "removed_updated (stat m1) = removed_updated (stat m) + word_of_nat upd"
      "length (queue m) = length (queue m1) + out + upd + gone"
      "inserted_new (stat m2) = inserted_new (stat m1) + word_of_nat d"
      "removed_outdated (stat m2) = removed_outdated (stat m1) + word_of_nat out'"
      "removed_updated (stat m2) = removed_updated (stat m1) + word_of_nat upd'"
      "length (queue m1) + d = length (queue m2) + out' + upd' + gone'"
    by (auto simp: accounted_def)
  show ?thesis
    by (rule accountedI [where out = "out + out'" and upd = "upd + upd'" and gone = "gone + gone'"]) (use a in simp_all)
qed

text \<open>A call other than a reset of the statistics adds at most one element, and all are accounted for.\<close>

definition call_good :: "64 word \<Rightarrow> ('k, 'd) BoundedMap \<Rightarrow> ('k, 'd) BoundedMap \<Rightarrow> bool" where
  "call_good peak m m' \<longleftrightarrow> bm_good peak m' \<and> (\<exists>d\<le>1. accounted d m m')"

lemma call_goodI: "bm_good peak m' \<Longrightarrow> accounted d m m' \<Longrightarrow> d \<le> 1 \<Longrightarrow> call_good peak m m'"
  by (auto simp: call_good_def)

lemma insert_good:
  assumes "bm_good peak m" and "sizes_fit size_policy m"
  shows "\<exists>m'. rmap snd (bm_insert size_policy key data now m) = Inr m' \<and> call_good peak m m'"
proof -
  obtain r m1 where f: "find_item key now m = (r, m1)" by (rule prod.exhaust)
  note g = find_item_good [OF assms(1) f] and fo = find_item_ok [OF _ f]
  show ?thesis
  proof (cases r)
    case None
    then have "m1 = m" "container m key = None" using fo assms(1) by (simp_all add: bm_good_def)
    obtain i m' d where n: "insert_new size_policy key data now m = Inr (i, m')" "bm_good peak m'" "accounted d m m'" "d \<le> 1"
      by (rule insert_new_good [OF assms \<open>container m key = None\<close>])
    with f None \<open>m1 = m\<close> call_goodI [OF n(2-4)] show ?thesis by (simp add: bm_insert_def)
  next
    case (Some item)
    let ?m = "m1\<lparr>stat := (stat m1)\<lparr>insert_existing := insert_existing (stat m1) + 1\<rparr>\<rparr>"
    have "bm_good peak ?m" "accounted 0 m ?m"
      using g accounted_trans [OF g(2) accounted_unchanged, of ?m] by (simp_all add: bm_good_def)
    with f Some show ?thesis by (simp add: bm_insert_def call_goodI)
  qed
qed

lemma insert_or_update_good:
  assumes "bm_good peak m" and "sizes_fit size_policy m"
  shows "\<exists>m'. bm_insert_or_update size_policy key data now m = Inr m' \<and> call_good peak m m'"
proof -
  obtain r m1 where f: "find_item key now m = (r, m1)" by (rule prod.exhaust)
  note g = find_item_good [OF assms(1) f] and fo = find_item_ok [OF _ f]
  show ?thesis
  proof (cases r)
    case None
    then have "m1 = m" "container m key = None" using fo assms(1) by (simp_all add: bm_good_def)
    obtain i m' d where n: "insert_new size_policy key data now m = Inr (i, m')" "bm_good peak m'" "accounted d m m'" "d \<le> 1"
      by (rule insert_new_good [OF assms \<open>container m key = None\<close>])
    with f None \<open>m1 = m\<close> call_goodI [OF n(2-4)] show ?thesis by (simp add: bm_insert_or_update_def)
  next
    case (Some item)
    then have c: "container m1 key = Some item" using fo assms(1) by (simp add: bm_good_def)
    let ?m = "m1\<lparr>container := (container m1)(key := Some (data, snd item))\<rparr>"
    have w: "?m = client_write key data m1" using c by (simp add: client_write_def)
    then have good: "bm_good peak ?m" using g client_write_ok [of m1 key data]
      by (simp add: bm_good_def client_write_def)
    have "sizes_fit size_policy ?m" using assms(1,2) fo by (simp add: sizes_fit_def bm_good_def)
    with good obtain ok m' where u: "update_item size_policy key (data, snd item) now ?m = Inr (ok, m')"
        "bm_good peak m'" "accounted 0 ?m m'"
      by (rule update_item_good [where key = key and item = "(data, snd item)"]) simp_all
    let ?r = "if ok then m'\<lparr>stat := (stat m')\<lparr>replaced := replaced (stat m') + 1\<rparr>\<rparr> else m'"
    have "accounted 0 m m'" using accounted_trans [OF g(2) accounted_trans [OF accounted_unchanged u(3)]] by simp
    then have "accounted 0 m ?r" using accounted_trans [OF _ accounted_unchanged, of m m' ?r] by simp
    from call_goodI [OF _ this] have "call_good peak m ?r" using u(2) by (simp add: bm_good_def)
    with f Some u(1) show ?thesis by (simp add: bm_insert_or_update_def Let_def)
  qed
qed

lemma erase_good:
  assumes "bm_good peak m"
  shows "call_good peak m (bm_erase key m)"
proof (cases "container m key")
  case (Some item)
  have ok: "bm_ok m" using assms by (simp add: bm_good_def)
  have "bm_size m - snd item \<le> bm_size m"
    using unat_minus64 [OF bm_ok_item(4) [OF ok Some]] by (simp add: word_le_nat_alt)
  then have "bm_good peak (remove_item key (snd item) m)"
    using remove_item_ok [OF ok Some] assms by (auto simp: bm_good_def remove_item_def intro: order_trans)
  moreover have "accounted 0 m (remove_item key (snd item) m)"
    by (rule accounted_unchanged) (simp_all add: remove_item_def)
  ultimately show ?thesis using Some by (simp add: bm_erase_def call_goodI)
qed (use assms in \<open>simp add: bm_erase_def call_goodI [OF _ accounted_unchanged]\<close>)

lemma bm_exec_good:
  assumes "bm_good peak m" and "sizes_fit size_policy m" and "\<And>b. call = SetBound b \<Longrightarrow> b \<le> peak"
    and "call \<noteq> Statistics True"
  shows "\<exists>m'. bm_exec size_policy now call m = Inr m' \<and> call_good peak m m'"
proof (cases call)
  case (Find key)
  obtain r m' where f: "find_item key now m = (r, m')" by (rule prod.exhaust)
  from find_item_good [OF assms(1) f] f Find show ?thesis by (simp add: bm_find_def call_goodI)
next
  case (Update key)
  show ?thesis
  proof (cases "container m key")
    case (Some item)
    obtain ok m' where "update_item size_policy key item now m = Inr (ok, m')" "bm_good peak m'" "accounted 0 m m'"
      by (rule update_item_good [OF assms(1,2) Some])
    with Some Update show ?thesis by (simp add: bm_update_def call_goodI)
  qed (use assms(1) Update in \<open>simp add: bm_update_def call_goodI [OF _ accounted_unchanged]\<close>)
next
  case (Write key data)
  then show ?thesis using client_write_ok [of m key data] assms(1)
    by (simp add: bm_good_def client_write_simps call_goodI [OF _ accounted_unchanged])
next
  case (SetBound b)
  then show ?thesis using assms(1,3)
    by (simp add: bm_good_def bm_set_bound_def bm_ok_def call_goodI [OF _ accounted_unchanged])
qed (use assms(1,4) insert_good [OF assms(1,2)] insert_or_update_good [OF assms(1,2)] erase_good [OF assms(1)] in
    \<open>auto simp: bm_good_def bm_clear_def bm_ok_def bm_set_timeout_def bm_statistics_def
      intro!: call_goodI [OF _ accounted_unchanged]\<close>)

lemma bm_exec_reset:
  assumes "bm_good peak m"
  shows "\<exists>m'. bm_exec size_policy now (Statistics True) m = Inr m' \<and> bm_good peak m'"
  using assms by (simp add: bm_statistics_def bm_good_def)

text \<open>What a sequence of calls keeps; the counters are those since the last reset.\<close>

lemma bm_run_good:
  assumes "bm_good peak m" and "\<And>k d. unat (size_policy k d) < 2 ^ 63" and "unat peak < 2 ^ 63"
    and "\<And>now b. (now, SetBound b) \<in> set calls \<Longrightarrow> b \<le> peak"
  shows "\<exists>m'. bm_run size_policy calls m = Inr m' \<and> bm_good peak m' \<and>
    (\<forall>k. counted k m \<and> (\<forall>now. (now, Statistics True) \<notin> set calls) \<longrightarrow> counted (k + length calls) m')"
  using assms(1,4)
proof (induction calls arbitrary: m)
  case (Cons c calls)
  obtain now call where c: "c = (now, call)" by (cases c)
  have fit: "sizes_fit size_policy m"
    using Cons.prems(1) assms(2,3) by (simp add: sizes_fit_def bm_good_def word_le_nat_alt)
  have "\<exists>m1. bm_exec size_policy now call m = Inr m1 \<and> bm_good peak m1 \<and>
      (call \<noteq> Statistics True \<longrightarrow> (\<exists>d\<le>1. accounted d m m1))"
  proof (cases "call = Statistics True")
    case False
    from bm_exec_good [OF Cons.prems(1) fit _ this] Cons.prems(2) c show ?thesis by (fastforce simp: call_good_def)
  qed (use bm_exec_reset [OF Cons.prems(1)] in blast)
  then obtain m1 where m1: "bm_exec size_policy now call m = Inr m1" "bm_good peak m1"
    "call \<noteq> Statistics True \<longrightarrow> (\<exists>d\<le>1. accounted d m m1)" by blast
  from Cons.IH [OF m1(2)] Cons.prems(2) obtain m' where m': "bm_run size_policy calls m1 = Inr m'" "bm_good peak m'"
    "\<And>k. counted k m1 \<Longrightarrow> (\<forall>now. (now, Statistics True) \<notin> set calls) \<Longrightarrow> counted (k + length calls) m'"
    by (metis list.set_intros(2))
  have "counted (k + length (c # calls)) m'"
    if "counted k m" "\<forall>now. (now, Statistics True) \<notin> set (c # calls)" for k
  proof -
    have "call \<noteq> Statistics True" using that(2) c by (metis list.set_intros(1))
    then obtain d where "d \<le> 1" "accounted d m m1" using m1(3) by blast
    with counted_step [OF that(1)] have "counted (k + 1) m1" by (fastforce simp: counted_def)
    from m'(3) [OF this] that(2) show ?thesis by simp
  qed
  with c m1(1) m'(1,2) show ?case by simp
qed simp

section \<open>Properties\<close>

text \<open>
  C6: Whatever clients do, all public calls included, no assertion of the map fails, its queue holds
  every key of the container exactly once and its size is the sum of the sizes of its elements; the
  size does not exceed the greatest bound that was set (so it stays within the bound unless the
  bound is lowered, which removes nothing).  If the statistics are not reset and there are fewer
  than two to the 31 calls, the counters of removed elements and the elements still there do not
  exceed the counter of inserted ones.  The bounds and the sizes the policy gives are below two to
  the 63.
\<close>

theorem bounded_map_invariant:
  assumes "\<And>k d. unat (size_policy k d) < 2 ^ 63" and "unat peak < 2 ^ 63" and "bound \<le> peak"
    and "\<And>now b. (now, SetBound b) \<in> set calls \<Longrightarrow> b \<le> peak"
  shows "\<exists>m. bm_run size_policy calls (bm_create bound timeout) = Inr m \<and>
    distinct (map fst (queue m)) \<and> dom (container m) = fst ` set (queue m) \<and>
    unat (bm_size m) = (\<Sum>e\<leftarrow>queue m. item_size (container m) (fst e)) \<and> bm_size m \<le> peak \<and>
    ((\<forall>now. (now, Statistics True) \<notin> set calls) \<and> length calls < 2 ^ 31 \<longrightarrow>
      sint (removed_outdated (stat m)) + sint (removed_updated (stat m)) + int (length (queue m)) \<le>
      sint (inserted_new (stat m)))"
proof -
  have init: "bm_good peak (bm_create bound timeout)" "counted 0 (bm_create bound timeout)"
    using assms(3) by (simp_all add: bm_good_def bm_create_def bm_ok_def counted_def stat_create_def
        exI [of _ 0])
  obtain m where m: "bm_run size_policy calls (bm_create bound timeout) = Inr m" "bm_good peak m"
    "\<forall>k. counted k (bm_create bound timeout :: ('a, 'b) BoundedMap) \<and> (\<forall>now. (now, Statistics True) \<notin> set calls) \<longrightarrow>
      counted (k + length calls) m"
    using bm_run_good [of peak "bm_create bound timeout" size_policy calls] init(1) assms(1,2,4) by blast
  have "sint (removed_outdated (stat m)) + sint (removed_updated (stat m)) + int (length (queue m)) \<le>
      sint (inserted_new (stat m))" if "\<forall>now. (now, Statistics True) \<notin> set calls" "length calls < 2 ^ 31"
    using m(3) init(2) that counted_numbers [of "length calls" m] by (metis add_0)
  with m(1,2) show ?thesis by (intro exI [of _ m]) (simp add: bm_good_def bm_ok_def total_size_def)
qed

theorem bounded_map_invariant_witness:
  "\<exists>m. bm_run (\<lambda>k d. 1) [(Time 1 0, Insert 7 ''a''), (Time 9 0, Insert (8::nat) ''b''), (Time 9 0, SetBound 0)]
      (bm_create 1 (Time 5 0)) = Inr m \<and> bm_size m \<le> 1 \<and>
    sint (removed_outdated (stat m)) + sint (removed_updated (stat m)) + int (length (queue m)) \<le>
      sint (inserted_new (stat m)) \<and> removed_outdated (stat m) = 1"
proof -
  let ?calls = "[(Time 1 0, Insert 7 ''a''), (Time 9 0, Insert (8::nat) ''b''), (Time 9 0, SetBound 0)]"
  obtain m where m: "bm_run (\<lambda>k d. 1) ?calls (bm_create 1 (Time 5 0)) = Inr m" "bm_size m \<le> 1"
    "sint (removed_outdated (stat m)) + sint (removed_updated (stat m)) + int (length (queue m)) \<le>
      sint (inserted_new (stat m))"
    using bounded_map_invariant [of "\<lambda>_ _. 1" 1 1 ?calls "Time 5 0"] by auto
  moreover from m(1) have "removed_outdated (stat m) = 1"
    by (auto simp: bm_create_def bm_insert_def find_item_def insert_new_def evict_loop.simps Let_def
        time_add_def USEC_MAX_def less_Time_def time_less_def stat_create_def bm_set_bound_def)
  ultimately show ?thesis by blast
qed

text \<open>A reset of the statistics forgets the elements that are there, which can then be counted as removed.\<close>

lemma statistics_reset_imbalance:
  "\<exists>m. bm_run (\<lambda>k d. 1) [(Time 1 0, Insert 7 ''a''), (Time 9 0, Statistics True), (Time 9 0, Insert (8::nat) ''b'')]
      (bm_create 1 (Time 5 0)) = Inr m \<and> \<not> sint (removed_outdated (stat m)) < sint (inserted_new (stat m))"
  by (simp add: bm_create_def bm_insert_def find_item_def insert_new_def evict_loop.simps Let_def
      time_add_def USEC_MAX_def less_Time_def time_less_def stat_create_def bm_statistics_def)

text \<open>
  C7: \<^verbatim>\<open>find\<close> returns what is stored, changes no element and makes the key the most recently used
  one.  \<^verbatim>\<open>insert\<close> of a key that is there leaves its data alone.  Otherwise it succeeds exactly if
  the element fits besides those that are left when all elements at the front of the queue that
  have not been used for the timeout are gone; then the new element is found afterwards, and of
  these elements as few leave as make room, from the least recently used one on.  If it fails, all
  of them have left, but none for an element that is larger than the bound.  All other elements
  are kept in their order.
\<close>

theorem bounded_map_insert_find:
  assumes "bm_ok m" and "sizes_fit size_policy m"
  shows "\<exists>r inserted m' n. bm_insert size_policy key data now m = Inr ((r, inserted), m') \<and> bm_ok m' \<and>
    fst (bm_find key now' m') = r \<and> container (snd (bm_find key now' m')) = container m' \<and>
    (r \<noteq> None \<longrightarrow> queue (snd (bm_find key now' m')) = filter (\<lambda>e. fst e \<noteq> key) (queue m') @ [(key, now')]) \<and>
    (case container m key of
       Some item \<Rightarrow> \<not> inserted \<and> r = Some (fst item) \<and> container m' = container m \<and>
         queue m' = filter (\<lambda>e. fst e \<noteq> key) (queue m) @ [(key, now)]
     | None \<Rightarrow>
         r = (if inserted then Some data else None) \<and>
         (\<forall>k. k \<noteq> key \<longrightarrow> container m' k = (if k \<in> fst ` set (take n (queue m)) then None else container m k)) \<and>
         queue m' = drop n (queue m) @ (if inserted then [(key, now)] else []) \<and>
         n \<le> length (takeWhile (outdated (bm_timeout m) now) (queue m)) \<and>
         (inserted \<longleftrightarrow> unat (size_policy key data) +
            total_size (container m) (dropWhile (outdated (bm_timeout m) now) (queue m)) \<le> unat (bm_bound m)) \<and>
         (inserted \<longrightarrow>
            unat (size_policy key data) + total_size (container m) (drop n (queue m)) \<le> unat (bm_bound m) \<and>
            (\<forall>j<n. unat (bm_bound m) < unat (size_policy key data) + total_size (container m) (drop j (queue m)))) \<and>
         (\<not> inserted \<longrightarrow> n = (if bm_bound m < size_policy key data then 0
            else length (takeWhile (outdated (bm_timeout m) now) (queue m)))))"
proof (cases "container m key")
  case (Some item)
  obtain r m1 where f: "find_item key now m = (r, m1)" by (rule prod.exhaust)
  note fo = find_item_ok [OF assms(1) f]
  let ?m = "m1\<lparr>stat := (stat m1)\<lparr>insert_existing := insert_existing (stat m1) + 1\<rparr>\<rparr>"
  have "bm_insert size_policy key data now m = Inr ((Some (fst item), False), ?m)"
    using f fo(2) Some by (simp add: bm_insert_def)
  then show ?thesis using Some fo
    by (intro exI [of _ "Some (fst item)"] exI [of _ False] exI [of _ ?m] exI [of _ 0])
      (simp add: bm_find_def find_item_def)
next
  case None
  then have f: "find_item key now m = (None, m)" by (simp add: find_item_def)
  obtain inserted m' n where ins: "insert_new size_policy key data now m = Inr (inserted, m')" "bm_ok m'"
      "makes_room (size_policy key data) now m inserted n"
      "if inserted
       then container m' = (without (take n (queue m)) (container m))(key := Some (data, size_policy key data)) \<and>
         queue m' = drop n (queue m) @ [(key, now)] \<and> bm_size m' \<le> bm_bound m
       else container m' = without (take n (queue m)) (container m) \<and> queue m' = drop n (queue m) \<and>
         bm_size m' \<le> bm_size m"
    using insert_new_ok [OF assms None] by blast
  have "bm_insert size_policy key data now m = Inr ((if inserted then Some data else None, inserted), m')"
    using f ins(1) by (simp add: bm_insert_def)
  then show ?thesis using None ins(2,4) ins(3) [unfolded makes_room_def stale_def dropWhile_eq_drop [symmetric]]
    by (intro exI [of _ "if inserted then Some data else None"] exI [of _ inserted] exI [of _ m'] exI [of _ n])
      (auto simp: bm_find_def find_item_def without_def split: if_splits)
qed

theorem bounded_map_insert_find_witness:
  "\<exists>r inserted m'. bm_insert (\<lambda>k d. 1) 7 ''a'' (Time 1 0) (bm_create 1 (Time 5 0) :: (nat, string) BoundedMap) =
       Inr ((r, inserted), m') \<and> fst (bm_find 7 (Time 2 0) m') = r \<and> bm_ok m' \<and> inserted"
proof -
  let ?m = "bm_create 1 (Time 5 0) :: (nat, string) BoundedMap"
  have "bm_ok ?m" "sizes_fit (\<lambda>k d. 1) ?m" by (simp_all add: bm_ok_def bm_create_def sizes_fit_def)
  from bounded_map_insert_find [OF this, of 7 "''a''" "Time 1 0" "Time 2 0"] show ?thesis
    by (auto simp: bm_create_def)
qed

end
