(* ===== verification/Common_Decimal.thy ===== *)
theory Common_Decimal
  imports Int_To_Str
begin

text \<open>
  \<^verbatim>\<open>src/src/Generics/CommonDecimal.hpp\<close> and \<^verbatim>\<open>CommonDecimal.cpp\<close>: what the two decimal number classes
  share.  \<^verbatim>\<open>Base\<close> and \<^verbatim>\<open>CalcType\<close> are \<^verbatim>\<open>uint64_t\<close>, as in every instance of the repository; the
  ranks, which are template arguments, are a record, and \<open>ranks_ok\<close> holds the static assertions
  on them.  An integer type of the templates is an \<open>int_type\<close> (its signedness and its bits) with
  the value as an \<open>int\<close>.  The texts of the exceptions are left out.
\<close>

type_synonym uint64 = "64 word"

record ranks =
  TOTAL :: nat
  FRACTION :: nat

definition INTEGER_RANK :: "ranks \<Rightarrow> nat" where
  "INTEGER_RANK R = TOTAL R - FRACTION R"

definition uint64_type :: int_type where
  "uint64_type = \<lparr>it_signed = False, it_bits = 64\<rparr>"

definition ranks_ok :: "ranks \<Rightarrow> bool" where
  "ranks_ok R \<longleftrightarrow> 0 < TOTAL R \<and> FRACTION R \<le> TOTAL R \<and> TOTAL R \<le> 19"

datatype DecimalMulRemainder = DMR_FLOOR | DMR_ROUND | DMR_CEIL

datatype DecimalDivRemainder = DDR_FLOOR | DDR_CEIL

text \<open>Division by ten makes an element smaller: the loops over digits end.\<close>

lemma div_10_less:
  fixes w :: uint64
  shows "w \<noteq> 0 \<Longrightarrow> unat (w div 10) < unat w" "w div 10 \<noteq> 0 \<Longrightarrow> unat (w div 10) < unat w"
proof -
  show less: "w \<noteq> 0 \<Longrightarrow> unat (w div 10) < unat w"
    by (simp add: unat_div_distrib unat_gt_0)
  show "w div 10 \<noteq> 0 \<Longrightarrow> unat (w div 10) < unat w"
    by (rule less) auto
qed

section \<open>Operations\<close>

subsection \<open>Powers of ten\<close>

primrec Pow10 :: "nat \<Rightarrow> uint64" where
  "Pow10 0 = 1"
| "Pow10 (Suc POWER) = 10 * Pow10 POWER"

definition MAX_VALUE :: "ranks \<Rightarrow> uint64" where
  "MAX_VALUE R = Pow10 (TOTAL R)"

definition MAX_FRACTION :: "ranks \<Rightarrow> uint64" where
  "MAX_FRACTION R = Pow10 (FRACTION R)"

definition MAX_INTEGER :: "ranks \<Rightarrow> uint64" where
  "MAX_INTEGER R = Pow10 (INTEGER_RANK R)"

definition READY_POWERS :: "uint64 list" where
  "READY_POWERS =
     [1, 10, 100, 1000, 10000, 100000, 1000000, 10000000, 100000000, 1000000000, 10000000000,
      100000000000, 1000000000000, 10000000000000, 100000000000000, 1000000000000000,
      10000000000000000, 100000000000000000, 1000000000000000000, 10000000000000000000]"

function pow10_loop :: "'a::len word \<Rightarrow> 'a word \<Rightarrow> nat \<Rightarrow> 'a word" where
  "pow10_loop res base pow =
     (let res = (if odd pow then res * base else res); pow = pow div 2
      in if pow = 0 then res else pow10_loop res (base * base) pow)"
  by pat_completeness auto
termination by (relation "measure (\<lambda>(res, base, pow). pow)") auto

declare pow10_loop.simps [simp del]

definition pow10 :: "nat \<Rightarrow> 'a::len word" where
  "pow10 pow = (if pow < 20 then ucast (READY_POWERS ! pow) else pow10_loop 1 10 pow)"

subsection \<open>Integers of the templates\<close>

definition it_cast :: "int_type \<Rightarrow> int \<Rightarrow> int" where
  "it_cast T v =
     (if it_signed T then (v + 2 ^ (it_bits T - 1)) mod 2 ^ it_bits T - 2 ^ (it_bits T - 1)
      else v mod 2 ^ it_bits T)"

definition split_integer :: "int_type \<Rightarrow> int \<Rightarrow> (int \<times> bool) result" where
  "split_integer T integer =
     (if it_signed T then
        if integer < 0 then
          if integer \<ge> - it_max T then Inr (- integer, True) else Inl AssertionFailed
        else Inr (integer, False)
      else Inr (integer, False))"

definition exceeds :: "uint64 \<Rightarrow> uint64 \<Rightarrow> bool" where
  "exceeds a b \<longleftrightarrow> a \<ge> b"

subsection \<open>Digits of an element\<close>

fun assemble_decimal :: "nat \<Rightarrow> nat list \<Rightarrow> uint64 \<Rightarrow> uint64" where
  "assemble_decimal 0 num ret = ret"
| "assemble_decimal (Suc digits) num ret =
     assemble_decimal digits (tl num) (ret * 10 + word_of_nat (hd num))"

text \<open>The digits from the last to the first, written from the end of the array on.\<close>

fun disassemble_decimal :: "nat \<Rightarrow> uint64 \<Rightarrow> nat list" where
  "disassemble_decimal 0 elem = []"
| "disassemble_decimal (Suc digits) elem = disassemble_decimal digits (elem div 10) @ [unat (elem mod 10)]"

subsection \<open>Double width multiplication and division\<close>

text \<open>
  \<^verbatim>\<open>mulq\<close> leaves the upper half of the product in \<^verbatim>\<open>rdx\<close> and the lower half in \<^verbatim>\<open>rax\<close>; \<^verbatim>\<open>divq\<close>
  divides the pair and faults when the quotient does not fit.
\<close>

definition mulq :: "uint64 \<Rightarrow> uint64 \<Rightarrow> uint64 \<times> uint64" where
  "mulq a d = (word_of_nat (unat a * unat d div 2 ^ 64), word_of_nat (unat a * unat d mod 2 ^ 64))"

definition divq :: "uint64 \<Rightarrow> uint64 \<Rightarrow> uint64 \<Rightarrow> (uint64 \<times> uint64) option" where
  "divq d a c =
     (let n = unat d * 2 ^ 64 + unat a
      in if c = 0 \<or> n div unat c \<ge> 2 ^ 64 then None
         else Some (word_of_nat (n div unat c), word_of_nat (n mod unat c)))"

text \<open>The result, the quotient and the remainder; the jump past \<^verbatim>\<open>divq\<close> leaves the product in them.\<close>

definition muldiv :: "uint64 \<Rightarrow> uint64 \<Rightarrow> uint64 \<Rightarrow> (bool \<times> uint64 \<times> uint64) option" where
  "muldiv factor1 factor2 divisor =
     (let (d, a) = mulq factor1 factor2
      in if d \<ge> divisor then Some (divisor \<noteq> 0, a, d)
         else map_option (\<lambda>(a, d). (False, a, d)) (divq d a divisor))"

text \<open>\<open>mul_elem\<close> and \<open>div_elem\<close>: the templates \<^verbatim>\<open>mul\<close> and \<^verbatim>\<open>div\<close>, whose argument says whether the products
  fit into 64 bits.\<close>

definition mul_elem :: "bool \<Rightarrow> uint64 \<Rightarrow> uint64 \<Rightarrow> uint64 \<Rightarrow> (uint64 \<times> uint64) option" where
  "mul_elem fits factor1 factor2 base =
     (if fits then
        let major = factor1 * factor2; minor = major mod base in Some (major div base, minor)
      else let (d, a) = mulq factor1 factor2 in divq d a base)"

definition div_elem :: "bool \<Rightarrow> uint64 \<Rightarrow> uint64 \<Rightarrow> uint64 \<Rightarrow> uint64 \<Rightarrow> (uint64 \<times> uint64) option" where
  "div_elem fits major minor base divisor =
     (if fits then
        let quotient = major * base + minor; remainder = quotient mod divisor
        in Some (quotient div divisor, remainder)
      else
        let (d, a) = mulq major base; sum = a + minor;
            carry = (if unat a + unat minor \<ge> 2 ^ 64 then 1 else 0)
        in divq (d + carry) sum divisor)"

subsection \<open>Reading a number from characters\<close>

record iostate =
  failbit :: bool
  eofbit :: bool

text \<open>\<^verbatim>\<open>unsigned digit = *cur - '0'\<close>, a plain \<^verbatim>\<open>char\<close> being signed.\<close>

definition char_digit :: "byte \<Rightarrow> 32 word" where
  "char_digit c = word_of_int (sint c - 48)"

text \<open>The characters behind the skipped ones; \<^verbatim>\<open>skip\<close> starts behind the current character.\<close>

fun skip :: "bytes \<Rightarrow> bytes" where
  "skip [] = []"
| "skip (c # cs) = (if char_digit c < 10 then skip cs else c # cs)"

text \<open>
  The two loops, at the character \<^verbatim>\<open>cur\<close>; the left injection is the early return behind
  \<^verbatim>\<open>skip\<close>, with the characters left.
\<close>

fun integer_loop :: "uint64 \<Rightarrow> uint64 \<Rightarrow> bytes \<Rightarrow> bytes + uint64 \<times> bytes" where
  "integer_loop limit decimal [] = Inr (decimal, [])"
| "integer_loop limit decimal (c # cs) =
     (if char_digit c < 10 then
        if decimal < limit then integer_loop limit (decimal * 10 + ucast (char_digit c)) cs
        else Inl (skip cs)
      else Inr (decimal, c # cs))"

fun fraction_loop :: "nat \<Rightarrow> uint64 \<Rightarrow> bytes \<Rightarrow> bytes + nat \<times> uint64 \<times> bytes" where
  "fraction_loop digits_left decimal [] = Inr (digits_left, decimal, [])"
| "fraction_loop digits_left decimal (c # cs) =
     (if char_digit c < 10 then
        if digits_left \<noteq> 0
        then fraction_loop (digits_left - 1) (decimal * 10 + ucast (char_digit c)) cs
        else Inl (skip cs)
      else Inr (digits_left, decimal, c # cs))"

text \<open>What \<^verbatim>\<open>extract_decimal\<close> leaves: the text it returns, the stream state, the data and sign if
  they were written, and the characters it did not read.\<close>

record extraction =
  message :: "string option"
  iostate_of :: iostate
  extracted :: "(uint64 \<times> bool) option"
  unread :: bytes

definition failed :: "string \<Rightarrow> bytes \<Rightarrow> extraction" where
  "failed msg rest =
     \<lparr>message = Some msg, iostate_of = \<lparr>failbit = True, eofbit = rest = []\<rparr>, extracted = None, unread = rest\<rparr>"

definition extract_number :: "ranks \<Rightarrow> bool \<Rightarrow> bytes \<Rightarrow> extraction" where
  "extract_number R negative cs =
     (if \<not> char_digit (hd cs) \<le> 9
      then \<lparr>message = Some ''empty number passed'', iostate_of = \<lparr>failbit = True, eofbit = False\<rparr>,
            extracted = None, unread = cs\<rparr>
      else case integer_loop (Pow10 (TOTAL R - FRACTION R) div 10) 0 cs of
        Inl rest \<Rightarrow> failed ''number of digits in integer part of string is bigger than expected'' rest
      | Inr (decimal, rest) \<Rightarrow>
          let done = (\<lambda>decimal rest. \<lparr>message = None, iostate_of = \<lparr>failbit = False, eofbit = rest = []\<rparr>,
                extracted = Some (decimal, negative), unread = rest\<rparr>)
          in if FRACTION R \<noteq> 0 \<and> rest \<noteq> [] \<and> hd rest = ch CHR ''.'' then
            (case fraction_loop (FRACTION R) decimal (tl rest) of
               Inl rest \<Rightarrow>
                 failed ''number of digits in fractional part of string is bigger than expected'' rest
             | Inr (digits_left, decimal, rest) \<Rightarrow>
                 done (if FRACTION R > 1 \<and> digits_left > 0 then decimal * pow10 digits_left else decimal) rest)
          else done (decimal * Pow10 (FRACTION R)) rest)"

definition extract_decimal :: "ranks \<Rightarrow> bytes \<Rightarrow> extraction" where
  "extract_decimal R cs =
     (if cs = [] then failed ''empty string passed'' []
      else if hd cs = ch CHR ''-'' \<or> hd cs = ch CHR ''+'' then
        (if tl cs = [] then failed ''empty number passed'' []
         else extract_number R (hd cs = ch CHR ''-'') (tl cs))
      else extract_number R False cs)"

section \<open>Correctness\<close>

subsection \<open>Powers of ten\<close>

lemma Pow10_power: "Pow10 n = 10 ^ n"
  by (induction n) simp_all

lemma ten_power_bound: "n \<le> 19 \<Longrightarrow> (10 :: nat) ^ n < 2 ^ 64"
  by (rule le_less_trans [OF power_increasing [of n 19]]) simp_all

lemma unat_power_10 [simp]: "n \<le> 19 \<Longrightarrow> unat (10 ^ n :: uint64) = 10 ^ n"
proof -
  assume "n \<le> 19"
  then have "unat (word_of_nat (10 ^ n) :: uint64) = 10 ^ n"
    using ten_power_bound [of n] by (simp only: unat_of_nat) simp
  then show ?thesis by simp
qed

lemma pow10_loop_power: "0 < pow \<Longrightarrow> pow10_loop res base pow = res * base ^ pow"
proof (induction res base pow rule: pow10_loop.induct)
  case (1 res base pow)
  have split: "base ^ pow = (if odd pow then base else 1) * (base * base) ^ (pow div 2)"
  proof -
    have "base ^ pow = base ^ (pow mod 2 + 2 * (pow div 2))" by simp
    also have "\<dots> = base ^ (pow mod 2) * (base * base) ^ (pow div 2)"
      by (simp only: power_add power_mult power2_eq_square)
    finally show ?thesis by (cases "odd pow") (simp_all add: odd_iff_mod_2_eq_one even_iff_mod_2_eq_zero)
  qed
  show ?case
  proof (cases "pow div 2 = 0")
    case True
    with 1(2) have "pow = 1" by simp
    then show ?thesis by (simp add: pow10_loop.simps)
  next
    case False
    with 1(1) [OF refl refl] show ?thesis
      by (subst pow10_loop.simps) (simp add: split ac_simps)
  qed
qed

lemma READY_POWERS_nth: "n < 20 \<Longrightarrow> ucast (READY_POWERS ! n) = (10 :: 'a::len word) ^ n"
proof -
  assume "n < 20"
  have "map unat READY_POWERS = map (\<lambda>n. 10 ^ n) [0..<20]"
    by (simp add: READY_POWERS_def upt_conv_Cons)
  moreover have "length READY_POWERS = 20" by (simp add: READY_POWERS_def)
  ultimately have "unat (READY_POWERS ! n) = 10 ^ n"
    using \<open>n < 20\<close> nth_map [of n READY_POWERS unat] by simp
  then have "ucast (READY_POWERS ! n) = (word_of_nat (10 ^ n) :: 'a word)"
    by (metis of_nat_unat)
  then show ?thesis by simp
qed

lemma pow10_power: "pow10 n = 10 ^ n"
  by (simp add: pow10_def READY_POWERS_nth pow10_loop_power)

lemmas power_10_simps = Pow10_power pow10_power MAX_VALUE_def MAX_FRACTION_def MAX_INTEGER_def

subsection \<open>Arithmetic that does not wrap\<close>

lemma unat_less_64: "unat (x :: uint64) < 2 ^ 64"
  using unsigned_less [of x] by simp

lemma unat_of_nat_64: "n < 2 ^ 64 \<Longrightarrow> unat (word_of_nat n :: uint64) = n"
  by (simp add: unat_of_nat)

lemma uint_eq_64 [simp]: "uint a = uint b \<longleftrightarrow> a = b" "uint a = 0 \<longleftrightarrow> a = 0" for a b :: uint64
  by (auto simp: word_uint_eq_iff)

lemma uint_unat_add: "unat c = unat a + unat b \<Longrightarrow> uint c = uint a + uint b" for a b c :: uint64
  by (metis of_nat_add uint_nat)

lemma uint_unat_diff: "unat c = unat a - unat b \<Longrightarrow> b \<le> a \<Longrightarrow> uint c = uint a - uint b" for a b c :: uint64
  by (metis of_nat_diff uint_nat word_le_nat_alt)

lemma unat_add_64: "unat a + unat b < 2 ^ 64 \<Longrightarrow> unat (a + b :: uint64) = unat a + unat b"
  by (simp add: unat_word_ariths)

lemma unat_mult_64: "unat a * unat b < 2 ^ 64 \<Longrightarrow> unat (a * b :: uint64) = unat a * unat b"
  by (simp add: unat_word_ariths)

lemma unat_Suc_64: "unat a + 1 < 2 ^ 64 \<Longrightarrow> unat (a + 1 :: uint64) = unat a + 1"
  using unat_add_64 [of a 1] by simp

lemmas unat_simps = unat_add_64 unat_mult_64 unat_Suc_64 unat_sub unat_div_distrib unat_mod_distrib
  word_le_nat_alt word_less_nat_alt

lemma unat_limits:
  assumes "ranks_ok R"
  shows "unat (MAX_VALUE R) = 10 ^ TOTAL R" "unat (MAX_FRACTION R) = 10 ^ FRACTION R"
    "unat (MAX_INTEGER R) = 10 ^ INTEGER_RANK R" "10 ^ TOTAL R = (10 :: nat) ^ FRACTION R * 10 ^ INTEGER_RANK R"
    "(10 :: nat) ^ TOTAL R < 2 ^ 64"
proof -
  have "TOTAL R \<le> 19" "FRACTION R \<le> 19" "FRACTION R \<le> TOTAL R" "TOTAL R - FRACTION R \<le> 19"
    using assms by (auto simp: ranks_ok_def)
  then show "unat (MAX_VALUE R) = 10 ^ TOTAL R" "unat (MAX_FRACTION R) = 10 ^ FRACTION R"
    "unat (MAX_INTEGER R) = 10 ^ INTEGER_RANK R" "10 ^ TOTAL R = (10 :: nat) ^ FRACTION R * 10 ^ INTEGER_RANK R"
    "(10 :: nat) ^ TOTAL R < 2 ^ 64"
    using ten_power_bound [of "TOTAL R"] by (simp_all add: power_10_simps INTEGER_RANK_def flip: power_add)
qed

subsection \<open>Rounded quotients\<close>

text \<open>The quotients that the remainder arguments ask for, on natural numbers.\<close>

definition rounded_quotient :: "DecimalMulRemainder \<Rightarrow> nat \<Rightarrow> nat \<Rightarrow> nat" where
  "rounded_quotient dmr n m =
     (case dmr of
        DMR_FLOOR \<Rightarrow> n div m
      | DMR_ROUND \<Rightarrow> (n + m div 2) div m
      | DMR_CEIL \<Rightarrow> (n + (m - 1)) div m)"

definition mul_mode :: "DecimalDivRemainder \<Rightarrow> DecimalMulRemainder" where
  "mul_mode ddr = (case ddr of DDR_FLOOR \<Rightarrow> DMR_FLOOR | DDR_CEIL \<Rightarrow> DMR_CEIL)"

lemma add_div_carry:
  fixes n m k :: nat
  assumes "k \<le> m" "0 < m"
  shows "(n + k) div m = n div m + (if m - k \<le> n mod m then 1 else 0)"
proof -
  have "(n + k) div m = (n div m * m + (n mod m + k)) div m" by simp
  also have "\<dots> = n div m + (n mod m + k) div m" using assms(2) by (intro div_mult_self3) simp
  finally have "(n + k) div m = n div m + (n mod m + k) div m" .
  moreover have "(n mod m + k) div m = (if m - k \<le> n mod m then 1 else 0)"
  proof (cases "m - k \<le> n mod m")
    case True
    moreover have "n mod m < m" using assms(2) by simp
    ultimately have "m \<le> n mod m + k" "n mod m + k < 2 * m" using assms(1) by linarith+
    then have "(n mod m + k) div m = 1" by (intro div_nat_eqI) auto
    with True show ?thesis by simp
  next
    case False
    with assms(1) show ?thesis by simp
  qed
  ultimately show ?thesis by simp
qed

lemma rounded_quotient_ge: "n div m \<le> rounded_quotient dmr n m"
  unfolding rounded_quotient_def by (cases dmr) (simp_all only: DecimalMulRemainder.case div_le_mono le_add1 le_refl)

lemma rounded_quotient_step:
  assumes "0 < m" "dmr = DMR_ROUND \<Longrightarrow> even m"
  shows "rounded_quotient dmr n m =
    n div m + (if dmr \<noteq> DMR_FLOOR \<and> (if dmr = DMR_ROUND then m div 2 \<le> n mod m else n mod m \<noteq> 0) then 1 else 0)"
proof (cases dmr)
  case DMR_ROUND
  with assms have "m - m div 2 = m div 2" by auto
  with DMR_ROUND assms(1) show ?thesis by (simp add: rounded_quotient_def add_div_carry)
next
  case DMR_CEIL
  with assms(1) add_div_carry [of "m - 1" m n] show ?thesis
    by (simp add: rounded_quotient_def Suc_le_eq)
qed (simp add: rounded_quotient_def)

subsection \<open>Double width arithmetic\<close>

lemma mulq_correct:
  assumes "mulq a d = (h, l)"
  shows "unat h * 2 ^ 64 + unat l = unat a * unat d"
proof -
  have "unat a * unat d < 2 ^ 64 * 2 ^ 64"
    by (rule mult_strict_mono) (use unat_less_64 in simp_all)
  then have "unat a * unat d div 2 ^ 64 < 2 ^ 64"
    by (simp add: less_mult_imp_div_less)
  with assms show ?thesis
    by (auto simp: mulq_def unat_of_nat_64 div_mult_mod_eq)
qed

lemma divq_correct:
  assumes "c \<noteq> 0" "unat d * 2 ^ 64 + unat a = n" "n div unat c < 2 ^ 64"
  shows "\<exists>q r. divq d a c = Some (q, r) \<and> unat q = n div unat c \<and> unat r = n mod unat c"
proof -
  have "0 < unat c" using assms(1) by (simp add: unat_gt_0)
  then have "n mod unat c < 2 ^ 64"
    using unat_less_64 [of c] by (meson mod_less_divisor order_less_trans)
  with assms show ?thesis
    by (simp add: divq_def Let_def unat_of_nat_64)
qed

text \<open>A quotient fits into 64 bits exactly when the upper half of the dividend is below the divisor.\<close>

lemma quotient_fits:
  fixes B :: nat
  assumes "h * B + l = n" "l < B" "0 < c"
  shows "n div c < B \<longleftrightarrow> h < c"
proof -
  have "n div c < B \<longleftrightarrow> n < B * c"
    by (rule div_less_iff_less_mult [OF assms(3)])
  also have "\<dots> \<longleftrightarrow> h < c"
  proof
    assume "n < B * c"
    with assms(1) have "h * B < c * B" unfolding mult.commute [of c] by linarith
    then show "h < c" by simp
  next
    assume "h < c"
    then have "(h + 1) * B \<le> c * B" by (intro mult_right_mono) simp_all
    with assms show "n < B * c" by (simp add: mult.commute)
  qed
  finally show ?thesis .
qed

lemma muldiv_correct:
  assumes "divisor \<noteq> 0"
  obtains over q r where "muldiv factor1 factor2 divisor = Some (over, q, r)"
    "over \<longleftrightarrow> 2 ^ 64 \<le> unat factor1 * unat factor2 div unat divisor"
    "\<not> over \<Longrightarrow> unat q = unat factor1 * unat factor2 div unat divisor"
    "\<not> over \<Longrightarrow> unat r = unat factor1 * unat factor2 mod unat divisor"
proof -
  obtain h l where hl: "mulq factor1 factor2 = (h, l)" by fastforce
  note n = mulq_correct [OF hl]
  have pos: "0 < unat divisor" using assms by (simp add: unat_gt_0)
  note fits = quotient_fits [OF n unat_less_64 pos]
  show ?thesis
  proof (cases "unat h < unat divisor")
    case False
    then show ?thesis
      using that [of True l h] assms fits by (simp add: muldiv_def hl word_le_nat_alt not_less)
  next
    case True
    with divq_correct [OF assms n] fits obtain q r where
      "divq h l divisor = Some (q, r)" "unat q = unat factor1 * unat factor2 div unat divisor"
      "unat r = unat factor1 * unat factor2 mod unat divisor" by blast
    with True show ?thesis
      using that [of False q r] fits by (simp add: muldiv_def hl word_le_nat_alt not_le)
  qed
qed

section \<open>Fixed point numbers\<close>

text \<open>
  What clients of a fixed point number rely on: a number is a count of units below a limit, a sum or a
  difference is exact, and \<open>Overflow\<close> is thrown only when it is not below the limit.
\<close>

locale fixed_point =
  fixes ok :: "'d \<Rightarrow> bool" and count :: "'d \<Rightarrow> int" and limit :: int
    and plus minus :: "'d \<Rightarrow> 'd \<Rightarrow> 'd result"
  assumes below: "ok a \<Longrightarrow> \<bar>count a\<bar> < limit"
    and plus_law: "ok a \<Longrightarrow> ok b \<Longrightarrow> (case plus a b of
      Inr c \<Rightarrow> ok c \<and> count c = count a + count b | Inl e \<Rightarrow> e = Overflow \<and> limit \<le> \<bar>count a + count b\<bar>)"
    and minus_law: "ok a \<Longrightarrow> ok b \<Longrightarrow> (case minus a b of
      Inr c \<Rightarrow> ok c \<and> count c = count a - count b | Inl e \<Rightarrow> e = Overflow \<and> limit \<le> \<bar>count a - count b\<bar>)"
begin

lemma plus_returns: "ok a \<Longrightarrow> ok b \<Longrightarrow> (\<exists>c. plus a b = Inr c) \<longleftrightarrow> \<bar>count a + count b\<bar> < limit"
  using plus_law [of a b] below by (fastforce split: sum.splits)

lemma minus_returns: "ok a \<Longrightarrow> ok b \<Longrightarrow> (\<exists>c. minus a b = Inr c) \<longleftrightarrow> \<bar>count a - count b\<bar> < limit"
  using minus_law [of a b] below by (fastforce split: sum.splits)

text \<open>A sum that was returned can be taken back.\<close>

lemma minus_plus:
  assumes "ok a" "ok b" "plus a b = Inr c"
  shows "\<exists>d. minus c b = Inr d \<and> ok d \<and> count d = count a"
proof -
  have c: "ok c" "count c = count a + count b" using plus_law [OF assms(1,2)] assms(3) by simp_all
  then obtain d where "minus c b = Inr d" using minus_returns [OF c(1) assms(2)] below [OF assms(1)] by auto
  with minus_law [OF c(1) assms(2)] c(2) show ?thesis by simp
qed

lemma plus_commutes:
  assumes "ok a" "ok b" "plus a b = Inr c"
  shows "\<exists>d. plus b a = Inr d \<and> count d = count c"
proof -
  have c: "ok c" "count c = count a + count b" using plus_law [OF assms(1,2)] assms(3) by simp_all
  then obtain d where "plus b a = Inr d" using plus_returns [OF assms(2,1)] below [OF c(1)] by (auto simp: add.commute)
  with plus_law [OF assms(2,1)] c(2) show ?thesis by simp
qed

end

end
