(* ===== verification/Simple_Decimal.thy ===== *)
theory Simple_Decimal
  imports Common_Decimal
begin

text \<open>
  \<^verbatim>\<open>Generics::SimpleDecimal\<close> of \<^verbatim>\<open>src/src/Generics/SimpleDecimal.hpp\<close> and \<^verbatim>\<open>SimpleDecimal.tpp\<close>: a sign and
  one 64 bit element that counts units of the last decimal place.  The arithmetic is shown to be
  that of the integers, with \<open>Overflow\<close> exactly when the result needs more than \<^verbatim>\<open>TOTAL\<close> digits;
  the text and packed forms are shown to read back.  \<^verbatim>\<open>DEV_ASSERT\<close> is empty in a release build and
  has no counterpart here; \<^verbatim>\<open>assert\<close> is \<open>AssertionFailed\<close>.  The conversions from and to floating
  point and the diagnostic \<^verbatim>\<open>dump\<close> are not modelled.
\<close>

record SimpleDecimal =
  negative :: bool
  data :: uint64

section \<open>Operations\<close>

definition INVALID_FLAG :: uint64 where
  "INVALID_FLAG = - 1"

definition default_decimal :: SimpleDecimal where
  "default_decimal = \<lparr>negative = False, data = INVALID_FLAG\<rparr>"

subsection \<open>Construction and conversion\<close>

definition construct_parts :: "ranks \<Rightarrow> bool \<Rightarrow> int \<Rightarrow> int \<Rightarrow> SimpleDecimal result" where
  "construct_parts R neg integer fraction =
     (if exceeds (word_of_int fraction) (MAX_FRACTION R) then Inl Overflow
      else if exceeds (word_of_int integer) (MAX_INTEGER R) then Inl Overflow
      else Inr \<lparr>negative = neg,
                data = word_of_int integer * MAX_FRACTION R + word_of_int fraction\<rparr>)"

definition construct_rational :: "ranks \<Rightarrow> int_type \<Rightarrow> int \<Rightarrow> nat \<Rightarrow> SimpleDecimal result" where
  "construct_rational R T integer pow =
     (if pow \<ge> it_digits10 T + FRACTION R \<or> integer = 0
      then Inr \<lparr>negative = False, data = 0\<rparr>
      else rbind (split_integer T integer) (\<lambda>(integer, neg).
        if pow = FRACTION R then
          if exceeds (word_of_int integer) (MAX_VALUE R) then Inl Overflow
          else Inr \<lparr>negative = neg, data = word_of_int integer\<rparr>
        else if pow > FRACTION R then
          let integer = integer div it_cast T (uint (pow10 (pow - FRACTION R) :: uint64))
          in if exceeds (word_of_int integer) (MAX_VALUE R) then Inl Overflow
             else Inr \<lparr>negative = neg, data = word_of_int integer\<rparr>
        else
          let mul = pow10 (FRACTION R - pow)
          in if exceeds (word_of_int integer) (MAX_VALUE R div mul) then Inl Overflow
             else Inr \<lparr>negative = neg, data = word_of_int integer * mul\<rparr>))"

definition construct_text :: "ranks \<Rightarrow> bytes \<Rightarrow> SimpleDecimal result" where
  "construct_text R str =
     (let x = extract_decimal R str
      in if failbit (iostate_of x) then Inl Overflow
         else if message x \<noteq> None then Inl NotNumber
         else if \<not> eofbit (iostate_of x) then Inl NotNumber
         else case extracted x of
           Some (decimal, neg) \<Rightarrow> Inr \<lparr>negative = neg, data = decimal\<rparr>
         | None \<Rightarrow> Inr default_decimal)"

definition construct_diff :: "ranks \<Rightarrow> ranks \<Rightarrow> SimpleDecimal \<Rightarrow> SimpleDecimal result" where
  "construct_diff R DIFF diff =
     rmap (\<lambda>d. d\<lparr>negative := negative diff\<rparr>)
       (construct_rational R uint64_type (uint (data diff)) (FRACTION DIFF))"

definition to_integer :: "ranks \<Rightarrow> int_type \<Rightarrow> SimpleDecimal \<Rightarrow> int result" where
  "to_integer R T d =
     (let int_part = data d div MAX_FRACTION R
      in if int_part > word_of_int (it_max T) then Inl Overflow
         else if negative d \<and> int_part \<noteq> 0 \<and> \<not> it_signed T then Inl Sign
         else Inr (if negative d then - uint int_part else uint int_part))"

text \<open>The constants \<^verbatim>\<open>ZERO\<close>, \<^verbatim>\<open>EPSILON\<close> and \<^verbatim>\<open>MAXIMUM\<close>.\<close>

definition ZERO :: "ranks \<Rightarrow> SimpleDecimal result" where
  "ZERO R = construct_parts R False 0 0"

definition EPSILON :: "ranks \<Rightarrow> SimpleDecimal result" where
  "EPSILON R = construct_parts R False (if FRACTION R \<noteq> 0 then 0 else 1) (if FRACTION R \<noteq> 0 then 1 else 0)"

definition MAXIMUM :: "ranks \<Rightarrow> SimpleDecimal result" where
  "MAXIMUM R = construct_parts R False (uint (MAX_INTEGER R - 1)) (uint (MAX_FRACTION R - 1))"

subsection \<open>Text\<close>

text \<open>
  The buffer is filled from its end, so each \<^verbatim>\<open>*--buf = c\<close> puts a character in front.  The loop
  that omits trailing zeros runs on a fraction that is not zero; then a zero digit leaves a
  quotient that is not zero either.
\<close>

function omit_zeros :: "uint64 \<Rightarrow> nat \<Rightarrow> uint64 \<times> uint64 \<times> nat" where
  "omit_zeros fraction_part frac_index =
     (let rest = fraction_part mod 10; fraction_part = fraction_part div 10; frac_index = frac_index + 1
      in if rest = 0 \<and> fraction_part \<noteq> 0 then omit_zeros fraction_part frac_index
         else (rest, fraction_part, frac_index))"
  by pat_completeness auto
termination
  by (relation "measure (\<lambda>(f, i). unat f)") (auto simp: div_10_less)

function write_fraction :: "uint64 \<Rightarrow> nat \<Rightarrow> bytes \<Rightarrow> nat \<times> bytes" where
  "write_fraction fraction_part frac_index buf =
     (if fraction_part \<noteq> 0
      then write_fraction (fraction_part div 10) (frac_index + 1) ((ucast (fraction_part mod 10) + 48) # buf)
      else (frac_index, buf))"
  by pat_completeness auto
termination
  by (relation "measure (\<lambda>(f, i, b). unat f)") (auto simp: div_10_less)

function write_integer :: "uint64 \<Rightarrow> bytes \<Rightarrow> bytes" where
  "write_integer elem buf =
     (let buf = (ucast (elem mod 10) + 48) # buf; elem = elem div 10
      in if elem \<noteq> 0 then write_integer elem buf else buf)"
  by pat_completeness auto
termination
  by (relation "measure (\<lambda>(e, b). unat e)") (auto simp: div_10_less)

declare omit_zeros.simps [simp del] write_fraction.simps [simp del] write_integer.simps [simp del]

definition decimal_to_char :: "ranks \<Rightarrow> SimpleDecimal \<Rightarrow> bytes result" where
  "decimal_to_char R d =
     (if data d = INVALID_FLAG then Inl AssertionFailed
      else if data d = 0 then Inr (if FRACTION R \<noteq> 0 then chars ''0.0'' else chars ''0'')
      else
        let elem = data d;
            (elem, buf) =
              (if FRACTION R \<noteq> 0 then
                 let fraction_part = elem mod MAX_FRACTION R;
                     buf =
                       (if fraction_part \<noteq> 0 then
                          let (rest, fraction_part, frac_index) = omit_zeros fraction_part 0;
                              (frac_index, buf) = write_fraction fraction_part frac_index [ucast rest + 48]
                          in replicate (FRACTION R - frac_index) (ch CHR ''0'') @ buf
                        else [ch CHR ''0''])
                 in (elem div MAX_FRACTION R, ch CHR ''.'' # buf)
               else (elem, []));
            buf = write_integer elem buf
        in Inr (if negative d then ch CHR ''-'' # buf else buf))"

text \<open>\<^verbatim>\<open>str\<close> and \<^verbatim>\<open>operator <<\<close> use a buffer of \<^verbatim>\<open>TOTAL + 2\<close> bytes.\<close>

definition str :: "ranks \<Rightarrow> SimpleDecimal \<Rightarrow> bytes result" where
  "str R d = rbind (decimal_to_char R d) (\<lambda>buf. if length buf > TOTAL R + 2 then Inl OutOfBounds else Inr buf)"

text \<open>
  The exception of the arithmetic, whose message prints both operands, each through such a buffer.  In the
  operations below \<open>Inl Overflow\<close> stands for it; \<open>throw_overflow_text\<close> shows that the message is
  printed within the buffers where there are integer digits.
\<close>

definition throw_overflow :: "ranks \<Rightarrow> SimpleDecimal \<Rightarrow> SimpleDecimal \<Rightarrow> 'a result" where
  "throw_overflow R d1 d2 = rbind (str R d1) (\<lambda>s1. rbind (str R d2) (\<lambda>s2. Inl Overflow))"

text \<open>\<^verbatim>\<open>operator >>\<close> behind the sentry: the number, the state to set and the characters left in the stream.\<close>

definition read_decimal :: "ranks \<Rightarrow> bytes \<Rightarrow> SimpleDecimal \<Rightarrow> SimpleDecimal \<times> iostate \<times> bytes" where
  "read_decimal R istr number =
     (let x = extract_decimal R istr
      in (case extracted x of
            Some (decimal, neg) \<Rightarrow> \<lparr>negative = neg, data = decimal\<rparr>
          | None \<Rightarrow> number, iostate_of x, unread x))"

subsection \<open>Packed form\<close>

definition pack :: "SimpleDecimal \<Rightarrow> bytes result" where
  "pack d =
     (if data d = INVALID_FLAG then Inl AssertionFailed
      else Inr (map (\<lambda>i. ucast (drop_bit (8 * i) (data d))) [0..<8] @ [if negative d then 1 else 0]))"

definition unpack :: "bytes \<Rightarrow> SimpleDecimal" where
  "unpack buffer =
     \<lparr>negative = buffer ! 8 \<noteq> 0,
      data = foldr (\<lambda>i w. push_bit (8 * i) (ucast (buffer ! i)) OR w) [0..<8] 0\<rparr>"

subsection \<open>Rounding, tests and order\<close>

definition negate :: "SimpleDecimal \<Rightarrow> SimpleDecimal" where
  "negate d = d\<lparr>negative := \<not> negative d\<rparr>"

definition decimal_floor :: "ranks \<Rightarrow> nat \<Rightarrow> SimpleDecimal \<Rightarrow> SimpleDecimal" where
  "decimal_floor R fraction d =
     (if fraction > FRACTION R \<or> fraction = FRACTION R then d
      else
        let pow = pow10 (FRACTION R - fraction)
        in if data d mod pow \<noteq> 0 then d\<lparr>data := data d div pow * pow\<rparr> else d)"

definition decimal_ceil :: "ranks \<Rightarrow> nat \<Rightarrow> SimpleDecimal \<Rightarrow> SimpleDecimal result" where
  "decimal_ceil R fraction d =
     (if fraction > FRACTION R \<or> fraction = FRACTION R then Inr d
      else
        let pow = pow10 (FRACTION R - fraction)
        in if data d mod pow \<noteq> 0 then
             let data' = (data d div pow + 1) * pow
             in if data' = MAX_VALUE R then Inl Overflow else Inr (d\<lparr>data := data'\<rparr>)
           else Inr d)"

definition is_zero :: "SimpleDecimal \<Rightarrow> bool" where
  "is_zero d \<longleftrightarrow> data d = 0"

definition is_nonnegative :: "SimpleDecimal \<Rightarrow> bool" where
  "is_nonnegative d \<longleftrightarrow> \<not> negative d"

definition is_nonpositive :: "SimpleDecimal \<Rightarrow> bool" where
  "is_nonpositive d \<longleftrightarrow> negative d"

definition decimal_eq :: "SimpleDecimal \<Rightarrow> SimpleDecimal \<Rightarrow> bool" where
  "decimal_eq d test \<longleftrightarrow>
     (if negative d = negative test then data d = data test else data d = 0 \<and> data test = 0)"

definition decimal_less :: "SimpleDecimal \<Rightarrow> SimpleDecimal \<Rightarrow> bool" where
  "decimal_less d test \<longleftrightarrow>
     (if negative d then
        if negative test then data d > data test else data d \<noteq> 0 \<or> data test \<noteq> 0
      else \<not> negative test \<and> data d < data test)"

definition decimal_neq :: "SimpleDecimal \<Rightarrow> SimpleDecimal \<Rightarrow> bool" where
  "decimal_neq d test \<longleftrightarrow> \<not> decimal_eq d test"

definition decimal_greater :: "SimpleDecimal \<Rightarrow> SimpleDecimal \<Rightarrow> bool" where
  "decimal_greater d test \<longleftrightarrow> decimal_less test d"

definition decimal_ge :: "SimpleDecimal \<Rightarrow> SimpleDecimal \<Rightarrow> bool" where
  "decimal_ge d test \<longleftrightarrow> \<not> decimal_less d test"

definition decimal_le :: "SimpleDecimal \<Rightarrow> SimpleDecimal \<Rightarrow> bool" where
  "decimal_le d test \<longleftrightarrow> \<not> decimal_less test d"

subsection \<open>Arithmetic\<close>

text \<open>
  The target may be one of the arguments: each branch writes the data before the sign, and the
  sign it then reads was not written.
\<close>

definition add :: "ranks \<Rightarrow> SimpleDecimal \<Rightarrow> SimpleDecimal \<Rightarrow> SimpleDecimal result" where
  "add R summand1 summand2 =
     (if negative summand1 = negative summand2 then
        if MAX_VALUE R - data summand1 \<le> data summand2 then Inl Overflow
        else Inr \<lparr>negative = negative summand1, data = data summand1 + data summand2\<rparr>
      else if data summand1 < data summand2
      then Inr \<lparr>negative = negative summand2, data = data summand2 - data summand1\<rparr>
      else Inr \<lparr>negative = negative summand1, data = data summand1 - data summand2\<rparr>)"

definition sub :: "ranks \<Rightarrow> SimpleDecimal \<Rightarrow> SimpleDecimal \<Rightarrow> SimpleDecimal result" where
  "sub R minuend subtrahend =
     (if negative minuend \<noteq> negative subtrahend then
        if MAX_VALUE R - data minuend \<le> data subtrahend then Inl Overflow
        else Inr \<lparr>negative = negative minuend, data = data minuend + data subtrahend\<rparr>
      else if data minuend < data subtrahend
      then Inr \<lparr>negative = \<not> negative subtrahend, data = data subtrahend - data minuend\<rparr>
      else Inr \<lparr>negative = negative minuend, data = data minuend - data subtrahend\<rparr>)"

text \<open>
  The operators: \<^verbatim>\<open>+=\<close> and \<^verbatim>\<open>-=\<close> leave the object behind, unchanged when an exception is thrown, and
  \<^verbatim>\<open>+\<close> and \<^verbatim>\<open>-\<close> a new number.
\<close>

definition plus_assign :: "ranks \<Rightarrow> SimpleDecimal \<Rightarrow> SimpleDecimal \<Rightarrow> SimpleDecimal \<times> unit result" where
  "plus_assign R this summand =
     (case add R this summand of Inl e \<Rightarrow> (this, Inl e) | Inr target \<Rightarrow> (target, Inr ()))"

definition minus_assign :: "ranks \<Rightarrow> SimpleDecimal \<Rightarrow> SimpleDecimal \<Rightarrow> SimpleDecimal \<times> unit result" where
  "minus_assign R this subtrahend =
     (case sub R this subtrahend of Inl e \<Rightarrow> (this, Inl e) | Inr target \<Rightarrow> (target, Inr ()))"

definition plus_op :: "ranks \<Rightarrow> SimpleDecimal \<Rightarrow> SimpleDecimal \<Rightarrow> SimpleDecimal result" where
  "plus_op R this summand = rbind (add R this summand) (\<lambda>ret. Inr ret)"

definition minus_op :: "ranks \<Rightarrow> SimpleDecimal \<Rightarrow> SimpleDecimal \<Rightarrow> SimpleDecimal result" where
  "minus_op R this subtrahend = rbind (sub R this subtrahend) (\<lambda>ret. Inr ret)"

text \<open>A fault of \<^verbatim>\<open>divq\<close> would be \<open>OutOfBounds\<close>; it does not happen.\<close>

definition mul :: "ranks \<Rightarrow> SimpleDecimal \<Rightarrow> SimpleDecimal \<Rightarrow> DecimalMulRemainder \<Rightarrow> SimpleDecimal result" where
  "mul R factor1 factor2 dmr =
     (case muldiv (data factor1) (data factor2) (MAX_FRACTION R) of
        None \<Rightarrow> Inl OutOfBounds
      | Some (over, res, rem) \<Rightarrow>
          if over \<or> res \<ge> MAX_VALUE R then Inl Overflow
          else
            let increment = dmr \<noteq> DMR_FLOOR \<and> FRACTION R \<noteq> 0 \<and>
                  (if dmr = DMR_ROUND then rem \<ge> MAX_FRACTION R div 2 else rem \<noteq> 0);
                res = (if increment then res + 1 else res)
            in if increment \<and> res = MAX_VALUE R then Inl Overflow
               else Inr \<lparr>negative = negative factor1 \<noteq> negative factor2, data = res\<rparr>)"

definition div_quotient :: "ranks \<Rightarrow> SimpleDecimal \<Rightarrow> SimpleDecimal \<Rightarrow> DecimalDivRemainder \<Rightarrow> SimpleDecimal result" where
  "div_quotient R dividend divisor ddr =
     (if data divisor = 0 then Inl Overflow
      else case muldiv (data dividend) (MAX_FRACTION R) (data divisor) of
        None \<Rightarrow> Inl OutOfBounds
      | Some (over, quot, rem) \<Rightarrow>
          if over \<or> quot \<ge> MAX_VALUE R then Inl Overflow
          else
            let increment = ddr = DDR_CEIL \<and> rem \<noteq> 0;
                quot = (if increment then quot + 1 else quot)
            in if increment \<and> quot = MAX_VALUE R then Inl Overflow
               else Inr \<lparr>negative = negative dividend \<noteq> negative divisor, data = quot\<rparr>)"

text \<open>The quotient and the remainder.\<close>

definition div_remainder :: "ranks \<Rightarrow> SimpleDecimal \<Rightarrow> SimpleDecimal \<Rightarrow> (SimpleDecimal \<times> SimpleDecimal) result" where
  "div_remainder R dividend divisor =
     rbind (div_quotient R dividend divisor DDR_FLOOR) (\<lambda>quotient.
     rbind (mul R quotient divisor DMR_FLOOR) (\<lambda>product.
     rmap (\<lambda>remainder. (quotient, remainder)) (sub R dividend product)))"

text \<open>The bytes that \<^verbatim>\<open>hash_add\<close> feeds to the hash: those of the data, the sign is left out.\<close>

definition hash_bytes :: "SimpleDecimal \<Rightarrow> bytes" where
  "hash_bytes d = map (\<lambda>i. ucast (drop_bit (8 * i) (data d))) [0..<8]"

section \<open>Correctness\<close>

text \<open>
  The number in units of the last place, and what every constructed number satisfies: it has at
  most \<^verbatim>\<open>TOTAL\<close> digits.
\<close>

definition units :: "SimpleDecimal \<Rightarrow> int" where
  "units d = (if negative d then - uint (data d) else uint (data d))"

definition decimal_ok :: "ranks \<Rightarrow> SimpleDecimal \<Rightarrow> bool" where
  "decimal_ok R d \<longleftrightarrow> unat (data d) < 10 ^ TOTAL R"

lemma units_simps [simp]:
  "units \<lparr>negative = n, data = w\<rparr> = (if n then - uint w else uint w)"
  "units (d\<lparr>negative := n\<rparr>) = (if n then - uint (data d) else uint (data d))"
  by (simp_all add: units_def)

lemma abs_units [simp]: "\<bar>units d\<bar> = uint (data d)"
  by (simp add: units_def)

lemma decimal_ok_simps [simp]:
  "decimal_ok R \<lparr>negative = n, data = w\<rparr> \<longleftrightarrow> unat w < 10 ^ TOTAL R"
  "decimal_ok R (d\<lparr>negative := n\<rparr>) \<longleftrightarrow> decimal_ok R d"
  by (simp_all add: decimal_ok_def)

text \<open>The mark of a number that was never set is not a number.\<close>

lemma decimal_ok_valid: "ranks_ok R \<Longrightarrow> decimal_ok R d \<Longrightarrow> data d \<noteq> INVALID_FLAG"
proof
  assume *: "ranks_ok R" "decimal_ok R d" "data d = INVALID_FLAG"
  have "(10 :: nat) ^ TOTAL R \<le> 10 ^ 19" using *(1) by (intro power_increasing) (auto simp: ranks_ok_def)
  with *(2,3) show False
    by (simp add: decimal_ok_def INVALID_FLAG_def unsigned_minus_1_eq_mask mask_eq_exp_minus_1)
qed

subsection \<open>Addition and subtraction\<close>

lemma add_units:
  assumes "ranks_ok R" "decimal_ok R a" "decimal_ok R b"
  shows "case add R a b of
      Inr c \<Rightarrow> decimal_ok R c \<and> units c = units a + units b
    | Inl e \<Rightarrow> e = Overflow \<and> 10 ^ TOTAL R \<le> \<bar>units a + units b\<bar>"
proof -
  note lim = unat_limits [OF assms(1)]
  have le: "data a \<le> MAX_VALUE R"
    using assms(2) lim(1) by (simp add: decimal_ok_def word_le_nat_alt)
  have diff: "MAX_VALUE R - data a \<le> data b \<longleftrightarrow> 10 ^ TOTAL R \<le> unat (data a) + unat (data b)"
    using le lim(1) by (auto simp: unat_sub word_le_nat_alt)
  have sum: "\<not> MAX_VALUE R - data a \<le> data b \<Longrightarrow> unat (data a + data b) = unat (data a) + unat (data b)"
    using diff lim(5) by (simp add: unat_add_64)
  consider "negative a = negative b" "MAX_VALUE R - data a \<le> data b"
    | "negative a = negative b" "\<not> MAX_VALUE R - data a \<le> data b"
    | "negative a \<noteq> negative b" "data a < data b" | "negative a \<noteq> negative b" "data b \<le> data a"
    by (meson not_le)
  then show ?thesis
  proof cases
    case 1
    moreover have "10 ^ TOTAL R \<le> int (unat (data a) + unat (data b))"
      using 1(2) diff by (metis of_nat_le_iff of_nat_numeral of_nat_power)
    ultimately have "10 ^ TOTAL R \<le> uint (data a) + uint (data b)" by simp
    with 1 show ?thesis by (cases "negative b") (simp_all add: add_def units_def abs_if)
  next
    case 2
    then show ?thesis using sum diff uint_unat_add [OF sum] by (auto simp: add_def units_def)
  next
    case 3
    then have "unat (data b - data a) = unat (data b) - unat (data a)" "data a \<le> data b"
      by (simp_all add: unat_sub word_less_nat_alt word_le_nat_alt)
    with 3 assms(3) uint_unat_diff [OF this] show ?thesis by (auto simp: add_def units_def decimal_ok_def)
  next
    case 4
    have "unat (data a - data b) = unat (data a) - unat (data b)" using 4(2) by (rule unat_sub)
    with 4 assms(2) uint_unat_diff [OF this 4(2)] show ?thesis
      by (auto simp: add_def units_def decimal_ok_def not_less)
  qed
qed

text \<open>Subtraction is the addition of the negated subtrahend, on every branch.\<close>

lemma sub_add_negate: "sub R a b = add R a (negate b)"
  by (auto simp: sub_def add_def negate_def)

lemma negate_simps [simp]: "units (negate d) = - units d" "decimal_ok R (negate d) \<longleftrightarrow> decimal_ok R d"
  by (simp_all add: negate_def units_def)

lemma simple_fixed_point: "ranks_ok R \<Longrightarrow> fixed_point (decimal_ok R) units (10 ^ TOTAL R) (add R) (sub R)"
proof
  fix a b
  assume R: "ranks_ok R" and a: "decimal_ok R a"
  have "uint (data a) = int (unat (data a))" by simp
  also have "\<dots> < int (10 ^ TOTAL R)" using a unfolding decimal_ok_def by (simp only: of_nat_less_iff)
  finally show "\<bar>units a\<bar> < 10 ^ TOTAL R" by simp
  assume b: "decimal_ok R b"
  show "case add R a b of Inr c \<Rightarrow> decimal_ok R c \<and> units c = units a + units b
    | Inl e \<Rightarrow> e = Overflow \<and> 10 ^ TOTAL R \<le> \<bar>units a + units b\<bar>" by (rule add_units [OF R a b])
  show "case sub R a b of Inr c \<Rightarrow> decimal_ok R c \<and> units c = units a - units b
    | Inl e \<Rightarrow> e = Overflow \<and> 10 ^ TOTAL R \<le> \<bar>units a - units b\<bar>"
    unfolding sub_add_negate
    using add_units [OF R a, of "negate b", unfolded negate_simps add_uminus_conv_diff] b by blast
qed

text \<open>\<^verbatim>\<open>SimpleDecimal<uint64_t, 18, 8>\<close>.\<close>

interpretation sd: fixed_point "decimal_ok \<lparr>TOTAL = 18, FRACTION = 8\<rparr>" units "10 ^ 18"
  "add \<lparr>TOTAL = 18, FRACTION = 8\<rparr>" "sub \<lparr>TOTAL = 18, FRACTION = 8\<rparr>"
  using simple_fixed_point [of "\<lparr>TOTAL = 18, FRACTION = 8\<rparr>"] by (simp add: ranks_ok_def)

subsection \<open>Multiplication and division\<close>

text \<open>The common end of \<^verbatim>\<open>mul\<close> and \<^verbatim>\<open>div_\<close>: a quotient that fits, and its increment.\<close>

definition incremented :: "ranks \<Rightarrow> bool \<Rightarrow> uint64 \<Rightarrow> bool \<Rightarrow> bool \<Rightarrow> SimpleDecimal result" where
  "incremented R over res inc neg =
     (if over \<or> res \<ge> MAX_VALUE R then Inl Overflow
      else if inc \<and> (if inc then res + 1 else res) = MAX_VALUE R then Inl Overflow
      else Inr \<lparr>negative = neg, data = if inc then res + 1 else res\<rparr>)"

lemma incremented_correct:
  assumes "ranks_ok R" "\<not> over \<and> \<not> MAX_VALUE R \<le> res \<Longrightarrow> q = unat res + (if inc then 1 else 0)"
    "over \<or> MAX_VALUE R \<le> res \<Longrightarrow> 10 ^ TOTAL R \<le> q"
  shows "if q < 10 ^ TOTAL R
    then \<exists>c. incremented R over res inc neg = Inr c \<and> unat (data c) = q \<and> negative c = neg
    else incremented R over res inc neg = Inl Overflow"
proof (cases "over \<or> MAX_VALUE R \<le> res")
  case True
  with assms(3) show ?thesis by (simp add: incremented_def)
next
  case False
  note lim = unat_limits [OF assms(1)]
  define v where "v = (if inc then res + 1 else res)"
  have q: "q = unat res + (if inc then 1 else 0)" using assms(2) False by simp
  have less: "unat res < 10 ^ TOTAL R" using False lim(1) by (simp add: word_le_nat_alt)
  then have suc: "unat (res + 1) = unat res + 1" using lim(5) by (simp add: unat_Suc_64)
  have v: "unat v = q" "inc \<and> v = MAX_VALUE R \<longleftrightarrow> \<not> q < 10 ^ TOTAL R"
    using less suc lim(1) by (auto simp: v_def q word_unat_eq_iff)
  have "incremented R over res inc neg =
      (if inc \<and> v = MAX_VALUE R then Inl Overflow else Inr \<lparr>negative = neg, data = v\<rparr>)"
    using False by (simp add: incremented_def v_def)
  with v show ?thesis by simp
qed

lemma mul_units:
  assumes "ranks_ok R" and q: "q = rounded_quotient dmr (unat (data a) * unat (data b)) (10 ^ FRACTION R)"
  shows "if q < 10 ^ TOTAL R
    then \<exists>c. mul R a b dmr = Inr c \<and> unat (data c) = q \<and> negative c = (negative a \<noteq> negative b)
    else mul R a b dmr = Inl Overflow"
proof -
  let ?n = "unat (data a) * unat (data b)" and ?F = "10 ^ FRACTION R :: nat"
  note lim = unat_limits [OF assms(1)]
  have nz: "MAX_FRACTION R \<noteq> 0" using lim(2) by (auto simp: word_unat_eq_iff)
  obtain over res rem where md: "muldiv (data a) (data b) (MAX_FRACTION R) = Some (over, res, rem)"
    and over: "over \<longleftrightarrow> 2 ^ 64 \<le> ?n div ?F"
    and res: "\<not> over \<Longrightarrow> unat res = ?n div ?F" "\<not> over \<Longrightarrow> unat rem = ?n mod ?F"
    using muldiv_correct [OF nz, of "data a" "data b"] unfolding lim(2) by metis
  define inc where "inc = (dmr \<noteq> DMR_FLOOR \<and> FRACTION R \<noteq> 0 \<and>
    (if dmr = DMR_ROUND then rem \<ge> MAX_FRACTION R div 2 else rem \<noteq> 0))"
  have eq: "mul R a b dmr = incremented R over res inc (negative a \<noteq> negative b)"
    unfolding mul_def md inc_def incremented_def Let_def by simp
  show ?thesis unfolding eq
  proof (rule incremented_correct [OF assms(1)])
    assume "over \<or> MAX_VALUE R \<le> res"
    then have "10 ^ TOTAL R \<le> ?n div ?F"
      using over res(1) lim(1,5) by (cases over) (auto simp: word_le_nat_alt)
    also have "\<dots> \<le> q"
      unfolding q by (rule rounded_quotient_ge)
    finally show "10 ^ TOTAL R \<le> q" .
  next
    assume "\<not> over \<and> \<not> MAX_VALUE R \<le> res"
    with res have res: "unat res = ?n div ?F" "unat rem = ?n mod ?F" by simp_all
    show "q = unat res + (if inc then 1 else 0)"
    proof (cases "FRACTION R = 0")
      case True
      then show ?thesis using res
        by (simp add: q inc_def rounded_quotient_def split: DecimalMulRemainder.split)
    next
      case False
      then have "even ?F" by simp
      from rounded_quotient_step [of ?F dmr ?n, OF _ this] False res lim(2) show ?thesis
        by (simp add: q inc_def word_le_nat_alt unat_div_distrib word_unat_eq_iff)
    qed
  qed
qed

lemma div_quotient_units:
  assumes "ranks_ok R" "data b \<noteq> 0"
    and q: "q = rounded_quotient (mul_mode ddr) (unat (data a) * 10 ^ FRACTION R) (unat (data b))"
  shows "if q < 10 ^ TOTAL R
    then \<exists>c. div_quotient R a b ddr = Inr c \<and> unat (data c) = q \<and> negative c = (negative a \<noteq> negative b)
    else div_quotient R a b ddr = Inl Overflow"
proof -
  let ?n = "unat (data a) * 10 ^ FRACTION R" and ?m = "unat (data b)"
  note lim = unat_limits [OF assms(1)]
  obtain over res rem where md: "muldiv (data a) (MAX_FRACTION R) (data b) = Some (over, res, rem)"
    and over: "over \<longleftrightarrow> 2 ^ 64 \<le> ?n div ?m"
    and res: "\<not> over \<Longrightarrow> unat res = ?n div ?m" "\<not> over \<Longrightarrow> unat rem = ?n mod ?m"
    using muldiv_correct [OF assms(2), of "data a" "MAX_FRACTION R"] unfolding lim(2) by metis
  have eq: "div_quotient R a b ddr =
      incremented R over res (ddr = DDR_CEIL \<and> rem \<noteq> 0) (negative a \<noteq> negative b)"
    using assms(2) unfolding div_quotient_def md incremented_def Let_def by simp
  show ?thesis unfolding eq
  proof (rule incremented_correct [OF assms(1)])
    assume "over \<or> MAX_VALUE R \<le> res"
    then have "10 ^ TOTAL R \<le> ?n div ?m"
      using over res(1) lim(1,5) by (cases over) (auto simp: word_le_nat_alt)
    also have "\<dots> \<le> q"
      unfolding q by (rule rounded_quotient_ge)
    finally show "10 ^ TOTAL R \<le> q" .
  next
    assume "\<not> over \<and> \<not> MAX_VALUE R \<le> res"
    with res have res: "unat res = ?n div ?m" and "unat rem = ?n mod ?m" by simp_all
    then have rem: "rem = 0 \<longleftrightarrow> ?n mod ?m = 0" by (metis unat_0 unat_eq_zero)
    have pos: "0 < ?m" using assms(2) by (simp add: unat_gt_0)
    show "q = unat res + (if ddr = DDR_CEIL \<and> rem \<noteq> 0 then 1 else 0)"
      unfolding q res rem by (subst rounded_quotient_step [OF pos]) (cases ddr, simp_all add: mul_mode_def)+
  qed
qed

text \<open>
  The product of quotient and divisor never exceeds the dividend, so once the quotient fits the
  remainder is computed without an exception.
\<close>

lemma div_remainder_units:
  assumes "ranks_ok R" "decimal_ok R a" "decimal_ok R b" "div_quotient R a b DDR_FLOOR = Inr q"
  obtains p r where "div_remainder R a b = Inr (q, r)" "mul R q b DMR_FLOOR = Inr p" "decimal_ok R r"
    "units a = units p + units r" "\<bar>units r\<bar> * 10 ^ FRACTION R < \<bar>units b\<bar> + 10 ^ FRACTION R"
    "negative r = negative a"
proof -
  let ?F = "10 ^ FRACTION R :: nat"
  define A B Q where "A = unat (data a)" and "B = unat (data b)" and "Q = unat (data q)"
  have "data b \<noteq> 0" using assms(4) by (auto simp: div_quotient_def)
  then have pos: "0 < B" by (simp add: B_def unat_gt_0)
  have Q: "Q = A * ?F div B" "Q < 10 ^ TOTAL R" "negative q = (negative a \<noteq> negative b)"
    using div_quotient_units [OF assms(1) \<open>data b \<noteq> 0\<close>, of _ DDR_FLOOR a] assms(4)
    by (auto simp: A_def B_def Q_def mul_mode_def rounded_quotient_def split: if_splits)
  have QB: "Q * B \<le> A * ?F" "A * ?F < Q * B + B"
    using pos dividend_less_div_times [OF pos, of "A * ?F"] by (simp_all add: Q(1) add.commute)
  have P: "Q * B div ?F \<le> A" using QB(1) by (simp add: div_le_mono [OF QB(1), of ?F, simplified])
  moreover have "A < 10 ^ TOTAL R" using assms(2) by (simp add: decimal_ok_def A_def)
  ultimately obtain p where p: "mul R q b DMR_FLOOR = Inr p" "unat (data p) = Q * B div ?F" "negative p = negative a"
    using mul_units [OF assms(1) refl, of DMR_FLOOR q b] Q(3)
    by (auto simp: rounded_quotient_def Q_def B_def split: if_splits)
  define r where "r = \<lparr>negative = negative a, data = data a - data p\<rparr>"
  have le: "data p \<le> data a" using P p(2) by (simp add: word_le_nat_alt A_def)
  then have sub: "sub R a p = Inr r" using p(3) by (auto simp: sub_def r_def)
  have r: "unat (data r) = A - Q * B div ?F" using le p(2) by (simp add: r_def unat_sub A_def)
  have "Q * B mod ?F < ?F" by simp
  with QB(2) div_mult_mod_eq [of "Q * B" ?F] have "A * ?F < Q * B div ?F * ?F + ?F + B" by linarith
  moreover have "Q * B div ?F * ?F \<le> A * ?F" using P by (rule mult_right_mono) simp
  ultimately have "(A - Q * B div ?F) * ?F < B + ?F" unfolding diff_mult_distrib by linarith
  then have "int (unat (data r)) * int ?F < int (unat (data b)) + int ?F"
    unfolding r B_def [symmetric] by (metis of_nat_add of_nat_less_iff of_nat_mult)
  then have "\<bar>units r\<bar> * 10 ^ FRACTION R < \<bar>units b\<bar> + 10 ^ FRACTION R" by simp
  moreover have "uint (data r) = uint (data a) - uint (data p)"
    by (rule uint_unat_diff [OF _ le]) (simp add: r p(2) A_def)
  moreover have "decimal_ok R r" using r \<open>A < 10 ^ TOTAL R\<close> by (simp add: decimal_ok_def)
  ultimately show ?thesis
    using that [of r p] p(1,3) sub assms(4) by (simp add: div_remainder_def units_def r_def)
qed

subsection \<open>Order\<close>

lemma units_zero: "data d = 0 \<longleftrightarrow> units d = 0"
  by (simp add: units_def)

lemma decimal_eq_units: "decimal_eq a b \<longleftrightarrow> units a = units b"
proof (cases "negative a = negative b")
  case True
  then show ?thesis by (auto simp: decimal_eq_def units_def)
next
  case False
  then have "units a = units b \<longleftrightarrow> uint (data a) + uint (data b) = 0" by (auto simp: units_def)
  also have "\<dots> \<longleftrightarrow> data a = 0 \<and> data b = 0" by (metis add_nonneg_eq_0_iff uint_0_iff unsigned_greater_eq)
  finally show ?thesis using False by (simp add: decimal_eq_def)
qed

lemma decimal_less_units: "decimal_less a b \<longleftrightarrow> units a < units b"
proof -
  have less: "v < w \<longleftrightarrow> uint v < uint w" for v w :: uint64 by (rule word_less_def)
  have nn: "0 \<le> uint (data a)" "0 \<le> uint (data b)" by simp_all
  then have "uint (data a) \<noteq> 0 \<or> uint (data b) \<noteq> 0 \<longleftrightarrow> - uint (data a) < uint (data b)" by linarith
  then have nz: "data a \<noteq> 0 \<or> data b \<noteq> 0 \<longleftrightarrow> - uint (data a) < uint (data b)" by (simp only: uint_eq_64)
  have "\<not> uint (data a) < - uint (data b)" using nn by linarith
  with nz show ?thesis
    unfolding decimal_less_def units_def less by (cases "negative a"; cases "negative b") simp_all
qed

lemmas decimal_order_defs = decimal_neq_def decimal_greater_def decimal_ge_def decimal_le_def

subsection \<open>Rounding\<close>

lemma decimal_floor_units:
  assumes "ranks_ok R"
  shows "unat (data (decimal_floor R fraction d)) =
    unat (data d) div 10 ^ (FRACTION R - fraction) * 10 ^ (FRACTION R - fraction)"
    "negative (decimal_floor R fraction d) = negative d"
proof -
  let ?k = "FRACTION R - fraction"
  have k: "unat (10 ^ ?k :: uint64) = 10 ^ ?k"
    using assms by (intro unat_power_10) (auto simp: ranks_ok_def)
  have "unat (data d) div 10 ^ ?k * 10 ^ ?k < 2 ^ 64"
    using unat_less_64 [of "data d"] by (rule le_less_trans [rotated]) simp
  then have w: "unat (data d div 10 ^ ?k * 10 ^ ?k) = unat (data d) div 10 ^ ?k * 10 ^ ?k"
    using k by (subst unat_mult_64) (simp_all add: unat_div_distrib)
  show "unat (data (decimal_floor R fraction d)) = unat (data d) div 10 ^ ?k * 10 ^ ?k"
  proof (cases "data d mod 10 ^ ?k = 0")
    case True
    then have "unat (data d) mod 10 ^ ?k = 0" unfolding unat_eq_zero [symmetric] unat_mod_distrib k .
    with True show ?thesis by (auto simp: decimal_floor_def Let_def pow10_power)
  next
    case False
    with w show ?thesis by (auto simp: decimal_floor_def Let_def pow10_power)
  qed
  show "negative (decimal_floor R fraction d) = negative d"
    by (simp add: decimal_floor_def Let_def)
qed

lemma decimal_ceil_units:
  assumes "ranks_ok R" "decimal_ok R d"
    and c: "c = rounded_quotient DMR_CEIL (unat (data d)) (10 ^ (FRACTION R - fraction)) * 10 ^ (FRACTION R - fraction)"
  shows "if c < 10 ^ TOTAL R
    then \<exists>e. decimal_ceil R fraction d = Inr e \<and> unat (data e) = c \<and> negative e = negative d
    else decimal_ceil R fraction d = Inl Overflow \<and> c = 10 ^ TOTAL R"
proof -
  let ?k = "FRACTION R - fraction" and ?p = "10 ^ (FRACTION R - fraction) :: nat"
  note lim = unat_limits [OF assms(1)]
  have k: "unat (10 ^ ?k :: uint64) = ?p"
    using assms(1) by (intro unat_power_10) (auto simp: ranks_ok_def)
  have ok: "unat (data d) < 10 ^ TOTAL R" using assms(2) by (simp add: decimal_ok_def)
  have T: "10 ^ TOTAL R = 10 ^ (TOTAL R - ?k) * ?p"
    using assms(1) by (auto simp: ranks_ok_def simp flip: power_add)
  have up: "(unat (data d) div ?p + 1) * ?p \<le> 10 ^ TOTAL R"
  proof -
    have "unat (data d) div ?p < 10 ^ (TOTAL R - ?k)"
      using ok T by (metis less_mult_imp_div_less)
    then have "(unat (data d) div ?p + 1) * ?p \<le> 10 ^ (TOTAL R - ?k) * ?p" by (intro mult_right_mono) simp_all
    with T show ?thesis by simp
  qed
  have mod0: "data d mod 10 ^ ?k = 0 \<longleftrightarrow> unat (data d) mod ?p = 0"
    unfolding unat_eq_zero [symmetric] unat_mod_distrib k ..
  show ?thesis
  proof (cases "data d mod 10 ^ ?k = 0")
    case True
    then have "c = unat (data d)" "decimal_ceil R fraction d = Inr d"
      using mod0 rounded_quotient_step [of ?p DMR_CEIL "unat (data d)"] div_mult_mod_eq [of "unat (data d)" ?p]
      by (auto simp: c decimal_ceil_def Let_def pow10_power)
    with ok show ?thesis by simp
  next
    case False
    let ?w = "(data d div 10 ^ ?k + 1) * 10 ^ ?k"
    have c': "c = (unat (data d) div ?p + 1) * ?p"
      unfolding c using False mod0 by (subst rounded_quotient_step) simp_all
    have F: "\<not> fraction > FRACTION R" "fraction \<noteq> FRACTION R" using False by (auto simp: mod_word_self)
    have q1: "unat (data d div 10 ^ ?k + 1) = unat (data d) div ?p + 1"
    proof -
      have "1 \<le> ?p" by simp
      then have "(unat (data d) div ?p + 1) * 1 \<le> (unat (data d) div ?p + 1) * ?p"
        by (rule mult_left_mono) simp
      from le_less_trans [OF le_trans [OF this up] lim(5)] have "unat (data d) div ?p + 1 < 2 ^ 64" by simp
      then show ?thesis using k by (subst unat_Suc_64) (simp_all add: unat_div_distrib)
    qed
    have w: "unat ?w = c"
      unfolding c' using k q1 up lim(5) by (subst unat_mult_64) simp_all
    then have "?w = MAX_VALUE R \<longleftrightarrow> \<not> c < 10 ^ TOTAL R"
      using up lim(1) by (simp add: c' word_unat_eq_iff)
    moreover have "decimal_ceil R fraction d =
        (if ?w = MAX_VALUE R then Inl Overflow else Inr (d\<lparr>data := ?w\<rparr>))"
      using False F by (simp add: decimal_ceil_def Let_def pow10_power)
    ultimately show ?thesis using w up by (simp add: c')
  qed
qed

subsection \<open>Packed form\<close>

lemma upt_8: "[0..<8] = [0, 1, 2, 3, 4, 5, 6, 7]"
  by (simp add: upt_rec)

lemma unpack_bytes:
  fixes w :: uint64
  shows "foldr (\<lambda>i v. push_bit (8 * i) (ucast (map (\<lambda>i. ucast (drop_bit (8 * i) w) :: byte) [0..<8] ! i)) OR v) [0..<8] 0 = w" (is "?lhs = w")
proof (rule bit_word_eqI)
  fix n
  assume n: "n < LENGTH(64)"
  define i where "i = n div 8"
  have i: "8 * i \<le> n" "n - 8 * i < 8" "i < 8" "8 * i + (n - 8 * i) = n" using n by (simp_all add: i_def)
  let ?b = "\<lambda>i. push_bit (8 * i) (ucast (ucast (drop_bit (8 * i) w) :: byte)) :: uint64"
  have b: "bit (?b j) n \<longleftrightarrow> j = i \<and> bit w n" if "j < 8" for j
  proof -
    have "bit (?b j) n \<longleftrightarrow> 8 * j \<le> n \<and> n - 8 * j < 8 \<and> bit w n"
      using n by (auto simp: bit_simps)
    moreover have "j = i" if "8 * j \<le> n" "n - 8 * j < 8" using i(1,2) that by linarith
    ultimately show ?thesis using i(1,2) by blast
  qed
  have or: "bit (foldr (\<lambda>i v. ?b i OR v) js 0) n \<longleftrightarrow> (\<exists>j\<in>set js. bit (?b j) n)" for js
    by (induction js) (simp_all add: bit_or_iff)
  have eq: "?lhs =
      foldr (\<lambda>i v. ?b i OR v) [0..<8] 0"
    by (rule foldr_cong) auto
  have "(\<exists>j\<in>set [0..<8]. bit (?b j) n) \<longleftrightarrow> (\<exists>j\<in>set [0..<8]. j = i \<and> bit w n)"
    by (rule bex_cong [OF refl]) (use b in simp)
  then show "bit ?lhs n = bit w n"
    unfolding eq or using i(3) by simp
qed

lemma unpack_pack: "data d \<noteq> INVALID_FLAG \<Longrightarrow> \<exists>buf. pack d = Inr buf \<and> length buf = 9 \<and> unpack buf = d"
proof -
  assume valid: "data d \<noteq> INVALID_FLAG"
  let ?bs = "map (\<lambda>i. ucast (drop_bit (8 * i) (data d)) :: byte) [0..<8]"
  let ?buf = "?bs @ [if negative d then 1 else 0]"
  have "foldr (\<lambda>i w. push_bit (8 * i) (ucast (?buf ! i)) OR w) [0..<8] 0 =
      foldr (\<lambda>i w. push_bit (8 * i) (ucast (?bs ! i)) OR w) [0..<8] (0 :: uint64)"
    by (rule foldr_cong) (auto simp: nth_append)
  with unpack_bytes [of "data d"] have "data (unpack ?buf) = data d" by (simp add: unpack_def)
  moreover have "negative (unpack ?buf) = negative d" by (simp add: unpack_def nth_append)
  ultimately show ?thesis using valid by (simp add: pack_def)
qed

section \<open>What the class promises\<close>

text \<open>Adding a number and taking it off again gives the number back; a failed \<^verbatim>\<open>+=\<close> changes nothing.\<close>

lemma plus_minus_assign:
  assumes "ranks_ok R" "decimal_ok R a" "decimal_ok R b" "plus_assign R a b = (c, r)"
  shows "r = Inr () \<Longrightarrow> \<exists>d. minus_assign R c b = (d, Inr ()) \<and> units d = units a"
    "r \<noteq> Inr () \<Longrightarrow> c = a"
proof -
  assume "r = Inr ()"
  with assms(4) have "add R a b = Inr c" by (auto simp: plus_assign_def split: sum.splits)
  with add_units [OF assms(1-3)] have c: "decimal_ok R c" "units c = units a + units b" by auto
  have a: "\<bar>units a\<bar> < 10 ^ TOTAL R"
    using assms(2) by (simp add: decimal_ok_def word_less_nat_alt flip: of_nat_less_iff [where 'a = int])
  from add_units [OF assms(1) c(1), of "negate b", unfolded negate_simps] assms(3) c(2) a
  show "\<exists>d. minus_assign R c b = (d, Inr ()) \<and> units d = units a"
    by (auto simp: minus_assign_def sub_add_negate split: sum.splits)
next
  show "r \<noteq> Inr () \<Longrightarrow> c = a" using assms(4) by (auto simp: plus_assign_def split: sum.splits)
qed





text \<open>
  Division with a remainder never fails once the quotient fits: the remainder has the sign of
  the dividend, quotient times divisor (rounded down) plus the remainder is the dividend again, and
  the remainder is less than the divisor divided by \<open>10^FRACTION\<close> plus one unit.
\<close>

lemma decimal_div_remainder_correct:
  assumes "ranks_ok R" "decimal_ok R a" "decimal_ok R b" "div_quotient R a b DDR_FLOOR = Inr q"
  shows "\<exists>p r. div_remainder R a b = Inr (q, r) \<and> mul R q b DMR_FLOOR = Inr p \<and>
    units a = units p + units r \<and> decimal_ok R r \<and> negative r = negative a \<and>
    \<bar>units r\<bar> * 10 ^ FRACTION R < \<bar>units b\<bar> + 10 ^ FRACTION R"
  using div_remainder_units [OF assms] by blast

lemma decimal_div_remainder_example:
  "\<exists>p r. div_remainder \<lparr>TOTAL = 4, FRACTION = 2\<rparr> \<lparr>negative = False, data = 1000\<rparr> \<lparr>negative = True, data = 300\<rparr> =
      Inr (\<lparr>negative = True, data = 333\<rparr>, r) \<and> units p + units r = 1000"
proof -
  have "div_quotient \<lparr>TOTAL = 4, FRACTION = 2\<rparr> \<lparr>negative = False, data = 1000\<rparr> \<lparr>negative = True, data = 300\<rparr> DDR_FLOOR =
      Inr \<lparr>negative = True, data = 333\<rparr>"
    by (simp add: div_quotient_def muldiv_def mulq_def divq_def power_10_simps Let_def)
  from decimal_div_remainder_correct [OF _ _ _ this] obtain p r where
    "div_remainder \<lparr>TOTAL = 4, FRACTION = 2\<rparr> \<lparr>negative = False, data = 1000\<rparr> \<lparr>negative = True, data = 300\<rparr> =
      Inr (\<lparr>negative = True, data = 333\<rparr>, r)" "units \<lparr>negative = False, data = 1000\<rparr> = units p + units r"
    by (auto simp: ranks_ok_def)
  moreover have "units \<lparr>negative = False, data = 1000\<rparr> = 1000" by simp
  ultimately show ?thesis by metis
qed

lemma int_ceil:
  fixes n k :: nat
  assumes "0 < k"
  shows "- (- int n div int k) = int (n div k + (if n mod k \<noteq> 0 then 1 else 0))"
  using assms by (simp add: zdiv_zminus1_eq_if flip: of_nat_mod of_nat_div)

lemma abs_units_nat: "\<bar>units d\<bar> = int (unat (data d))"
  by simp

text \<open>
  The comparison operators are those of the numbers, with minus zero equal to zero; equal
  numbers hash alike; \<^verbatim>\<open>floor\<close> and \<^verbatim>\<open>ceil\<close> move the magnitude down or up to a multiple of the place
  asked for and keep the sign, \<^verbatim>\<open>ceil\<close> throwing \<open>Overflow\<close> precisely when the multiple has more than
  \<^verbatim>\<open>TOTAL\<close> digits; and \<^verbatim>\<open>unpack\<close> reads back the 9 bytes that \<^verbatim>\<open>pack\<close> writes.
\<close>

lemma decimal_order_rounding_correct:
  assumes "ranks_ok R" "decimal_ok R a"
  shows "(decimal_eq a b \<longleftrightarrow> units a = units b) \<and> (decimal_neq a b \<longleftrightarrow> units a \<noteq> units b) \<and>
    (decimal_less a b \<longleftrightarrow> units a < units b) \<and> (decimal_le a b \<longleftrightarrow> units a \<le> units b) \<and>
    (decimal_greater a b \<longleftrightarrow> units a > units b) \<and> (decimal_ge a b \<longleftrightarrow> units a \<ge> units b) \<and>
    (is_zero a \<longleftrightarrow> units a = 0) \<and> (decimal_eq a b \<longrightarrow> hash_bytes a = hash_bytes b) \<and>
    (let k = 10 ^ (FRACTION R - f); lo = \<bar>units a\<bar> div k * k; hi = - (- \<bar>units a\<bar> div k) * k
     in \<bar>units (decimal_floor R f a)\<bar> = lo \<and> negative (decimal_floor R f a) = negative a \<and>
        (if hi < 10 ^ TOTAL R
         then \<exists>c. decimal_ceil R f a = Inr c \<and> \<bar>units c\<bar> = hi \<and> negative c = negative a
         else decimal_ceil R f a = Inl Overflow)) \<and>
    (\<exists>buf. pack a = Inr buf \<and> length buf = 9 \<and> unpack buf = a)"
proof -
  define k where "k = (10 :: nat) ^ (FRACTION R - f)"
  have pos: "0 < k" by (simp add: k_def)
  have k: "(10 :: int) ^ (FRACTION R - f) = int k" by (simp add: k_def)
  have hi: "- (- \<bar>units a\<bar> div int k) * int k = int (rounded_quotient DMR_CEIL (unat (data a)) k * k)"
    unfolding abs_units_nat int_ceil [OF pos] using rounded_quotient_step [OF pos, of DMR_CEIL "unat (data a)"]
    by (simp only: of_nat_mult) simp
  have T: "int c < 10 ^ TOTAL R \<longleftrightarrow> c < 10 ^ TOTAL R" for c
    by (metis of_nat_less_iff of_nat_numeral of_nat_power)
  have "\<bar>units (decimal_floor R f a)\<bar> = \<bar>units a\<bar> div int k * int k"
    unfolding abs_units_nat decimal_floor_units(1) [OF assms(1), of f a] k_def
    by (simp only: of_nat_mult zdiv_int)
  moreover note decimal_floor_units(2) [OF assms(1), of f a]
  moreover have "if - (- \<bar>units a\<bar> div int k) * int k < 10 ^ TOTAL R
      then \<exists>c. decimal_ceil R f a = Inr c \<and> \<bar>units c\<bar> = - (- \<bar>units a\<bar> div int k) * int k \<and> negative c = negative a
      else decimal_ceil R f a = Inl Overflow"
    unfolding hi unfolding T abs_units_nat of_nat_eq_iff
    using decimal_ceil_units [OF assms refl, of f, folded k_def] by (simp only: simp_thms split: if_splits)
  moreover note unpack_pack [OF decimal_ok_valid [OF assms]]
  moreover have "decimal_eq a b \<longrightarrow> hash_bytes a = hash_bytes b"
    by (auto simp: decimal_eq_def hash_bytes_def split: if_splits)
  ultimately show ?thesis
    unfolding Let_def k decimal_order_defs is_zero_def decimal_eq_units decimal_less_units units_zero not_less
    by blast
qed

lemma decimal_order_rounding_example:
  "\<exists>c. decimal_ceil \<lparr>TOTAL = 18, FRACTION = 8\<rparr> 0 \<lparr>negative = True, data = 150000000\<rparr> = Inr c \<and>
     \<bar>units c\<bar> = 200000000 \<and> negative c"
  using decimal_order_rounding_correct [of "\<lparr>TOTAL = 18, FRACTION = 8\<rparr>" "\<lparr>negative = True, data = 150000000\<rparr>"
      "\<lparr>negative = True, data = 150000000\<rparr>" 0]
  by (simp add: ranks_ok_def)

end
