(* ===== verification/Decimal_Text.thy ===== *)
theory Decimal_Text
  imports Simple_Decimal
begin

text \<open>
  The text form of \<open>SimpleDecimal\<close>: \<open>construct_text\<close> (over \<open>extract_decimal\<close> of \<^verbatim>\<open>CommonDecimal.hpp\<close>)
  against the documented format of the text, by way of a reference reading, and the round trip from \<open>str\<close>
  back to the number, within the buffer of \<^verbatim>\<open>TOTAL + 2\<close> bytes.
\<close>

section \<open>Digits\<close>

abbreviation is_digit :: "byte \<Rightarrow> bool" where
  "is_digit c \<equiv> digit_of c \<le> 9"

lemma char_digit_digit:
  "char_digit c < 10 \<longleftrightarrow> is_digit c" "char_digit c \<le> 9 \<longleftrightarrow> is_digit c"
  "is_digit c \<Longrightarrow> (ucast (char_digit c) :: uint64) = word_of_nat (digit_of c)"
proof -
  have "(char_digit c < 10 \<longleftrightarrow> is_digit c) \<and> (char_digit c \<le> 9 \<longleftrightarrow> is_digit c) \<and>
      (is_digit c \<longrightarrow> (ucast (char_digit c) :: uint64) = word_of_nat (digit_of c))"
    by (rule all_byteD [of _ c]) code_simp
  then show "char_digit c < 10 \<longleftrightarrow> is_digit c" "char_digit c \<le> 9 \<longleftrightarrow> is_digit c"
    "is_digit c \<Longrightarrow> (ucast (char_digit c) :: uint64) = word_of_nat (digit_of c)" by blast+
qed

lemma skip_dropWhile: "skip cs = dropWhile is_digit cs"
  by (induction cs) (simp_all add: char_digit_digit)

lemma decimal_value_append: "decimal_value v (xs @ ys) = decimal_value (decimal_value v xs) ys"
  by (simp add: decimal_value_def)

lemma decimal_value_shift: "decimal_value v ds = v * 10 ^ length ds + decimal_value 0 ds"
proof (induction ds rule: rev_induct)
  case (snoc d ds)
  have "decimal_value v (ds @ [d]) = decimal_value v ds * 10 + int (digit_of d)"
    "decimal_value 0 (ds @ [d]) = decimal_value 0 ds * 10 + int (digit_of d)"
    by (simp_all add: decimal_value_append)
  with snoc show ?case by (simp add: algebra_simps)
qed simp

lemma decimal_value_less: "all_digits ds \<Longrightarrow> decimal_value 0 ds < 10 ^ length ds"
proof (induction ds rule: rev_induct)
  case (snoc d ds)
  then have "decimal_value 0 ds < 10 ^ length ds" "digit_of d \<le> 9" by (auto simp: all_digits_def)
  then show ?case by (simp add: decimal_value_append)
qed simp

lemma decimal_value_nonneg: "0 \<le> decimal_value 0 ds"
  using decimal_value_ge [of 0 ds] by simp

section \<open>The loops\<close>

lemma integer_loop_ref:
  assumes "unat limit = L" "10 * L \<le> 10 ^ 19" "0 \<le> v" "v < 10 * int L"
  shows "integer_loop limit (word_of_int v) cs =
    (let v' = decimal_value v (takeWhile is_digit cs); rest = dropWhile is_digit cs
     in if v' < 10 * int L then Inr (word_of_int v', rest) else Inl rest)"
  using assms(3,4)
proof (induction cs arbitrary: v)
  case (Cons c cs)
  show ?case
  proof (cases "is_digit c")
    case True
    let ?w = "v * 10 + int (digit_of c)"
    have less: "word_of_int v < limit \<longleftrightarrow> v < int L"
    proof -
      have "v < 2 ^ 64" using Cons.prems(2) assms(2) by simp
      then have "uint (word_of_int v :: uint64) = v"
        using Cons.prems(1) by (simp add: uint_word_of_int)
      moreover have "uint limit = int L" using assms(1) by (simp add: uint_nat)
      ultimately show ?thesis by (simp add: word_less_def)
    qed
    show ?thesis
    proof (cases "v < int L")
      case v: True
      with True have "?w < 10 * int L" by linarith
      have "integer_loop limit (word_of_int v) (c # cs) = integer_loop limit (word_of_int ?w) cs"
        using True v less by (simp add: char_digit_digit)
      also note Cons.IH [of ?w]
      finally show ?thesis using Cons.prems(1) True \<open>?w < 10 * int L\<close> by simp
    next
      case False
      have "?w \<le> decimal_value ?w (takeWhile is_digit cs)" using Cons.prems(1) by (intro decimal_value_ge) simp
      with False have "\<not> decimal_value ?w (takeWhile is_digit cs) < 10 * int L" by linarith
      with True False less show ?thesis by (simp add: char_digit_digit skip_dropWhile)
    qed
  next
    case False
    with Cons.prems show ?thesis by (simp add: char_digit_digit)
  qed
qed simp

lemma fraction_loop_ref:
  "fraction_loop n (word_of_int v) cs =
    (let es = takeWhile is_digit cs; rest = dropWhile is_digit cs
     in if length es \<le> n then Inr (n - length es, word_of_int (decimal_value v es), rest) else Inl rest)"
proof (induction cs arbitrary: n v)
  case (Cons c cs)
  show ?case
  proof (cases "is_digit c")
    case True
    show ?thesis
    proof (cases n)
      case 0
      with True show ?thesis by (simp add: char_digit_digit skip_dropWhile)
    next
      case (Suc m)
      with True have "fraction_loop n (word_of_int v) (c # cs) =
          fraction_loop m (word_of_int (v * 10 + int (digit_of c))) cs" by (simp add: char_digit_digit)
      also note Cons.IH [of m "v * 10 + int (digit_of c)"]
      finally show ?thesis using True Suc by (simp only: takeWhile.simps dropWhile.simps if_True
          decimal_value_simps Let_def list.size) simp
    qed
  next
    case False
    then show ?thesis by (simp add: char_digit_digit)
  qed
qed simp

section \<open>Reading\<close>

text \<open>
  The reference reading of a text: an optional sign, digits, and where there is a fraction an
  optional point with at most \<^verbatim>\<open>FRACTION\<close> digits.  No digit, too big an integer part and too long a
  fraction are \<open>Overflow\<close>; anything behind the number is \<open>NotNumber\<close>.
\<close>

definition read_unsigned :: "ranks \<Rightarrow> bytes \<Rightarrow> int result" where
  "read_unsigned R t =
     (let ds = takeWhile is_digit t; rest = dropWhile is_digit t
      in if ds = [] \<or> 10 ^ INTEGER_RANK R \<le> decimal_value 0 ds then Inl Overflow
         else if FRACTION R \<noteq> 0 \<and> rest \<noteq> [] \<and> hd rest = ch CHR ''.'' then
           let es = takeWhile is_digit (tl rest)
           in if FRACTION R < length es then Inl Overflow
              else if dropWhile is_digit (tl rest) \<noteq> [] then Inl NotNumber
              else Inr (decimal_value 0 (ds @ es) *
                (if FRACTION R = 1 then 1 else 10 ^ (FRACTION R - length es)))
         else if rest \<noteq> [] then Inl NotNumber
         else Inr (decimal_value 0 ds * 10 ^ FRACTION R))"

definition read_text :: "ranks \<Rightarrow> bytes \<Rightarrow> SimpleDecimal result" where
  "read_text R s =
     (case s of
        [] \<Rightarrow> Inl Overflow
      | c # t \<Rightarrow>
          if c = ch CHR ''-'' \<or> c = ch CHR ''+''
          then rmap (\<lambda>v. \<lparr>negative = c = ch CHR ''-'', data = word_of_int v\<rparr>) (read_unsigned R t)
          else rmap (\<lambda>v. \<lparr>negative = False, data = word_of_int v\<rparr>) (read_unsigned R s))"

text \<open>What \<open>construct_text\<close> makes of an extraction.\<close>

definition extraction_result :: "extraction \<Rightarrow> SimpleDecimal result" where
  "extraction_result x =
     (if failbit (iostate_of x) then Inl Overflow
      else if message x \<noteq> None then Inl NotNumber
      else if \<not> eofbit (iostate_of x) then Inl NotNumber
      else case extracted x of
        Some (decimal, neg) \<Rightarrow> Inr \<lparr>negative = neg, data = decimal\<rparr>
      | None \<Rightarrow> Inr default_decimal)"

lemma construct_text_result: "construct_text R s = extraction_result (extract_decimal R s)"
  by (simp add: construct_text_def extraction_result_def Let_def)

lemma failed_result [simp]: "extraction_result (failed m r) = Inl Overflow"
  by (simp add: extraction_result_def failed_def)

lemma limit_tenth:
  assumes "ranks_ok R" "0 < INTEGER_RANK R"
  shows "unat (Pow10 (TOTAL R - FRACTION R) div 10) = 10 ^ (INTEGER_RANK R - 1)"
    "10 * 10 ^ (INTEGER_RANK R - 1) = (10 :: nat) ^ INTEGER_RANK R"
proof -
  have le: "INTEGER_RANK R \<le> 19" using assms(1) by (auto simp: ranks_ok_def INTEGER_RANK_def)
  obtain k where k: "INTEGER_RANK R = Suc k" using assms(2) gr0_implies_Suc by blast
  show "10 * 10 ^ (INTEGER_RANK R - 1) = (10 :: nat) ^ INTEGER_RANK R" by (simp add: k)
  have "unat (Pow10 (INTEGER_RANK R)) = 10 ^ INTEGER_RANK R" using le by (simp add: Pow10_power)
  then show "unat (Pow10 (TOTAL R - FRACTION R) div 10) = 10 ^ (INTEGER_RANK R - 1)"
    unfolding INTEGER_RANK_def [symmetric] by (simp add: unat_div_distrib k)
qed

lemma extract_number_ref:
  assumes "ranks_ok R" "0 < INTEGER_RANK R" "cs \<noteq> []"
  shows "extraction_result (extract_number R neg cs) =
    rmap (\<lambda>v. \<lparr>negative = neg, data = word_of_int v\<rparr>) (read_unsigned R cs)"
proof (cases "takeWhile is_digit cs = []")
  case True
  with assms(3) have "\<not> is_digit (hd cs)" by (cases cs) (auto split: if_splits)
  with True show ?thesis
    by (simp add: extract_number_def read_unsigned_def extraction_result_def char_digit_digit Let_def)
next
  case ds: False
  define ds rest where "ds = takeWhile is_digit cs" and "rest = dropWhile is_digit cs"
  have hd: "char_digit (hd cs) \<le> 9" using ds by (cases cs) (auto simp: char_digit_digit split: if_splits)
  note lim = limit_tenth [OF assms(1,2)]
  have "(10 :: nat) ^ INTEGER_RANK R \<le> 10 ^ 19"
    using assms(1) by (intro power_increasing) (auto simp: ranks_ok_def INTEGER_RANK_def)
  with lim(2) have bound: "10 * 10 ^ (INTEGER_RANK R - 1) \<le> (10 :: nat) ^ 19" by simp
  have L: "10 * int (10 ^ (INTEGER_RANK R - 1)) = 10 ^ INTEGER_RANK R"
    using lim(2) by (metis of_nat_mult of_nat_numeral of_nat_power)
  have loop: "integer_loop (Pow10 (TOTAL R - FRACTION R) div 10) 0 cs =
      (if decimal_value 0 ds < 10 ^ INTEGER_RANK R then Inr (word_of_int (decimal_value 0 ds), rest) else Inl rest)"
    using integer_loop_ref [OF lim(1) bound, of 0 cs] L by (simp add: ds_def rest_def Let_def)
  consider "10 ^ INTEGER_RANK R \<le> decimal_value 0 ds"
    | "decimal_value 0 ds < 10 ^ INTEGER_RANK R" "FRACTION R \<noteq> 0 \<and> rest \<noteq> [] \<and> hd rest = ch CHR ''.''"
    | "decimal_value 0 ds < 10 ^ INTEGER_RANK R" "\<not> (FRACTION R \<noteq> 0 \<and> rest \<noteq> [] \<and> hd rest = ch CHR ''.'')"
    by linarith
  then show ?thesis
  proof cases
    case 1
    then show ?thesis
      using hd ds loop by (simp add: extract_number_def read_unsigned_def ds_def)
  next
    case 2
    define es where "es = takeWhile is_digit (tl rest)"
    have v: "decimal_value (decimal_value 0 ds) es = decimal_value 0 (ds @ es)" by (simp add: decimal_value_append)
    show ?thesis
      using hd ds loop 2 fraction_loop_ref [of "FRACTION R" "decimal_value 0 ds" "tl rest"]
      by (cases "length es \<le> FRACTION R")
        (auto simp: extract_number_def read_unsigned_def extraction_result_def failed_def pow10_power
          v Let_def simp flip: ds_def rest_def es_def)
  next
    case 3
    then show ?thesis
      using hd ds loop
      by (auto simp: extract_number_def read_unsigned_def extraction_result_def Pow10_power Let_def
          simp flip: ds_def rest_def)
  qed
qed

lemma construct_text_ref:
  assumes "ranks_ok R" "0 < INTEGER_RANK R"
  shows "construct_text R s = read_text R s"
proof (cases s)
  case Nil
  then show ?thesis by (simp add: construct_text_result extract_decimal_def read_text_def)
next
  case (Cons c t)
  show ?thesis
  proof (cases "t = [] \<and> (c = ch CHR ''-'' \<or> c = ch CHR ''+'')")
    case True
    then show ?thesis
      by (auto simp: Cons construct_text_result extract_decimal_def read_text_def read_unsigned_def)
  next
    case False
    then show ?thesis
      using extract_number_ref [OF assms, of t] extract_number_ref [OF assms, of s]
      by (auto simp: Cons construct_text_result extract_decimal_def read_text_def)
  qed
qed

section \<open>Writing\<close>

abbreviation digits_text :: "nat \<Rightarrow> bytes" where
  "digits_text n \<equiv> rev (digits_loop n)"

lemma digits_text_digits: "all_digits (digits_text n)"
  using digits_loop_digits by (auto simp: all_digits_def)

lemma digits_text_value: "decimal_value 0 (digits_text n) = int n"
  using digits_loop_value [of n] by (simp add: decimal_value_def foldl_conv_foldr)

lemma length_digits_loop: "0 < k \<Longrightarrow> n < 10 ^ k \<Longrightarrow> length (digits_loop n) \<le> k"
proof (induction k arbitrary: n)
  case (Suc k)
  show ?case
  proof (cases "n div 10 = 0")
    case True
    then show ?thesis by (simp add: digits_loop.simps [of n])
  next
    case False
    then have "10 \<le> n" by (simp add: div_eq_0_iff)
    have "k \<noteq> 0"
    proof
      assume "k = 0"
      with Suc.prems(2) \<open>10 \<le> n\<close> show False by simp
    qed
    moreover have "n div 10 < 10 ^ k" using Suc.prems(2) by (simp add: less_mult_imp_div_less mult.commute)
    ultimately have "length (digits_loop (n div 10)) \<le> k" using Suc.IH by simp
    with False show ?thesis by (simp add: digits_loop.simps [of n])
  qed
qed simp

lemma element_digit_char: "ucast (w mod 10) + 48 = (word_of_nat (48 + unat w mod 10) :: byte)" for w :: uint64
proof -
  have "ucast (w mod 10) = (word_of_nat (unat (w mod 10)) :: byte)" by (simp add: of_nat_unat)
  then show ?thesis by (simp add: unat_mod_distrib)
qed

lemma write_integer_text: "write_integer elem buf = digits_text (unat elem) @ buf"
proof (induction elem buf rule: write_integer.induct)
  case (1 elem buf)
  have "elem div 10 = 0 \<longleftrightarrow> unat elem div 10 = 0"
    unfolding unat_eq_zero [symmetric] by (simp add: unat_div_distrib)
  with 1 show ?case
    by (simp add: write_integer.simps [of elem] digits_loop.simps [of "unat elem"] element_digit_char unat_div_distrib)
qed

lemma write_fraction_text:
  "write_fraction f i buf = (if f = 0 then (i, buf)
     else (i + length (digits_loop (unat f)), digits_text (unat f) @ buf))"
proof (induction f i buf rule: write_fraction.induct)
  case (1 f i buf)
  have "f div 10 = 0 \<longleftrightarrow> unat f div 10 = 0"
    unfolding unat_eq_zero [symmetric] by (simp add: unat_div_distrib)
  with 1 show ?case
    by (simp add: write_fraction.simps [of f] digits_loop.simps [of "unat f"] element_digit_char unat_div_distrib)
qed

lemma omit_zeros_value:
  assumes "f \<noteq> 0"
  obtains r f' j where "omit_zeros f i = (r, f', i + Suc j)" "r \<noteq> 0" "unat r < 10"
    "unat f = (unat f' * 10 + unat r) * 10 ^ j"
proof -
  have "\<exists>r f' j. omit_zeros f i = (r, f', i + Suc j) \<and> r \<noteq> 0 \<and> unat r < 10 \<and>
      unat f = (unat f' * 10 + unat r) * 10 ^ j"
    using assms
  proof (induction f i rule: omit_zeros.induct)
    case (1 f i)
    have split: "unat f = unat (f div 10) * 10 + unat (f mod 10)"
      by (simp add: unat_div_distrib unat_mod_distrib)
    show ?case
    proof (cases "f mod 10 = 0")
      case True
      with split 1(2) have nz: "f div 10 \<noteq> 0" by (metis add.right_neutral mult_0 unat_0 unat_eq_zero)
      from 1(1) [OF refl refl refl _ nz] True nz obtain r f' j where
        IH: "omit_zeros (f div 10) (i + 1) = (r, f', i + 1 + Suc j)" "r \<noteq> 0" "unat r < 10"
        "unat (f div 10) = (unat f' * 10 + unat r) * 10 ^ j" by auto
      have "omit_zeros f i = omit_zeros (f div 10) (i + 1)"
        using True nz by (simp add: omit_zeros.simps [of f])
      moreover have "unat f = unat (f div 10) * 10" using split True by simp
      ultimately show ?thesis using IH by (intro exI [of _ r] exI [of _ f'] exI [of _ "Suc j"]) simp
    next
      case False
      have "unat (f mod 10) < 10" by (simp add: unat_mod_distrib)
      with False split show ?thesis
        by (intro exI [of _ "f mod 10"] exI [of _ "f div 10"] exI [of _ 0])
          (simp add: omit_zeros.simps [of f])
    qed
  qed
  with that show ?thesis by blast
qed

text \<open>The digits behind the point: at least one, at most \<^verbatim>\<open>FRACTION\<close>, with the value of the fraction.\<close>

definition fraction_text :: "nat \<Rightarrow> uint64 \<Rightarrow> bytes" where
  "fraction_text F f =
     (if f \<noteq> 0 then
        let (rest, f, frac_index) = omit_zeros f 0;
            (frac_index, buf) = write_fraction f frac_index [ucast rest + 48]
        in replicate (F - frac_index) (ch CHR ''0'') @ buf
      else [ch CHR ''0''])"

lemma decimal_value_zeros: "decimal_value 0 (replicate n 48 @ ds) = decimal_value 0 ds"
  by (induction n) (simp_all add: digit_of_def)

lemma fraction_digits_fit:
  assumes "unat f < 10 ^ F" "unat f = (unat f' * 10 + unat r) * 10 ^ j" "r \<noteq> (0 :: uint64)"
  shows "Suc j + length (if f' = 0 then [] else digits_text (unat f')) \<le> F"
proof -
  have "10 ^ j \<le> (unat f' * 10 + unat r) * 10 ^ j" using assms(3) by (simp add: Suc_le_eq unat_gt_0)
  with assms(1,2) have "(10 :: nat) ^ j < 10 ^ F" by linarith
  then have jF: "j < F" by (simp add: power_strict_increasing_iff)
  show ?thesis
  proof (cases "f' = 0")
    case False
    have "unat f' * 10 ^ Suc j \<le> unat f" using assms(2) by (simp add: algebra_simps)
    with assms(1) have "unat f' * 10 ^ Suc j < 10 ^ (F - Suc j) * 10 ^ Suc j"
      using jF by (simp flip: power_add power_Suc)
    then have f': "unat f' < 10 ^ (F - Suc j)" by simp
    moreover have "0 < F - Suc j"
    proof (rule ccontr)
      assume "\<not> 0 < F - Suc j"
      with f' False show False by (simp add: unat_eq_zero)
    qed
    ultimately have "length (digits_loop (unat f')) \<le> F - Suc j" using length_digits_loop by blast
    with jF False show ?thesis by simp
  qed (use jF in simp)
qed

lemma fraction_text_correct:
  assumes "0 < F" "unat f < 10 ^ F"
  shows "all_digits (fraction_text F f)" "fraction_text F f \<noteq> []" "length (fraction_text F f) \<le> F"
    "decimal_value 0 (fraction_text F f) * 10 ^ (F - length (fraction_text F f)) = int (unat f)"
proof -
  have "all_digits (fraction_text F f) \<and> fraction_text F f \<noteq> [] \<and> length (fraction_text F f) \<le> F \<and>
    decimal_value 0 (fraction_text F f) * 10 ^ (F - length (fraction_text F f)) = int (unat f)"
  proof (cases "f = 0")
    case True
    with assms(1) show ?thesis by (simp add: fraction_text_def digit_of_def)
  next
    case False
    then obtain r f' j where z: "omit_zeros f 0 = (r, f', Suc j)" "r \<noteq> 0" "unat r < 10"
      "unat f = (unat f' * 10 + unat r) * 10 ^ j"
      using omit_zeros_value [of f 0] by auto
    define buf where "buf = (if f' = 0 then [] else digits_text (unat f'))"
    have r: "ucast r + 48 = (word_of_nat (48 + unat r) :: byte)"
      using element_digit_char [of r] z(3) by (simp add: word_less_nat_alt mod_less word_mod_less_divisor
          unat_mod_distrib flip: word_unat_eq_iff)
    have dr: "digit_of (word_of_nat (48 + unat r)) = unat r" using z(3) by (rule digit_of_number)
    have len: "Suc j + length buf \<le> F"
      unfolding buf_def by (rule fraction_digits_fit [OF assms(2) z(4,2)])
    let ?z = "F - (Suc j + length buf)"
    have t: "fraction_text F f = replicate ?z 48 @ buf @ [word_of_nat (48 + unat r)]"
      using False z(1) by (simp add: fraction_text_def write_fraction_text buf_def r del: of_nat_add)
    have L: "length (fraction_text F f) = F - j" using len by (simp add: t)
    have buf: "all_digits buf" "decimal_value 0 buf = int (unat f')"
      using digits_text_digits digits_text_value by (auto simp: buf_def)
    have "decimal_value 0 (fraction_text F f) = int (unat f') * 10 + int (unat r)"
      unfolding t unfolding decimal_value_zeros unfolding decimal_value_append buf(2) by (simp add: dr del: of_nat_add)
    moreover have "F - (F - j) = j" using len by simp
    moreover have "int (unat f) = (int (unat f') * 10 + int (unat r)) * 10 ^ j"
      by (simp only: z(4) of_nat_mult of_nat_add of_nat_power of_nat_numeral)
    moreover have "all_digits (fraction_text F f)"
      using buf(1) dr z(3) by (auto simp: t all_digits_def digit_of_def simp del: of_nat_add)
    ultimately show ?thesis unfolding L using len by (auto simp: t)
  qed
  then show "all_digits (fraction_text F f)" "fraction_text F f \<noteq> []" "length (fraction_text F f) \<le> F"
    "decimal_value 0 (fraction_text F f) * 10 ^ (F - length (fraction_text F f)) = int (unat f)" by blast+
qed

lemma decimal_to_char_text:
  assumes "data d \<noteq> INVALID_FLAG" "data d \<noteq> 0"
  shows "decimal_to_char R d = Inr ((if negative d then [ch CHR ''-''] else []) @
    (if FRACTION R = 0 then digits_text (unat (data d))
     else digits_text (unat (data d div MAX_FRACTION R)) @
       ch CHR ''.'' # fraction_text (FRACTION R) (data d mod MAX_FRACTION R)))"
  using assms by (simp add: decimal_to_char_def write_integer_text fraction_text_def Let_def split: prod.split)

text \<open>A text of the shape that is written is read to its value.\<close>

lemma takeWhile_digits:
  assumes "all_digits ds"
  shows "takeWhile is_digit (ds @ rest) = ds @ takeWhile is_digit rest"
    "dropWhile is_digit (ds @ rest) = dropWhile is_digit rest"
  using assms by (auto simp: all_digits_def takeWhile_append dropWhile_append)

lemma all_digits_takeWhile: "all_digits ds \<Longrightarrow> takeWhile is_digit ds = ds" "all_digits ds \<Longrightarrow> dropWhile is_digit ds = []"
  using takeWhile_digits [of ds "[]"] by auto

lemma read_unsigned_integer:
  assumes "all_digits ds" "ds \<noteq> []" "decimal_value 0 ds < 10 ^ INTEGER_RANK R"
  shows "read_unsigned R ds = Inr (decimal_value 0 ds * 10 ^ FRACTION R)"
  using assms(2,3) by (simp add: read_unsigned_def all_digits_takeWhile [OF assms(1)])

lemma read_unsigned_point:
  assumes "all_digits ds" "ds \<noteq> []" "decimal_value 0 ds < 10 ^ INTEGER_RANK R"
    "all_digits es" "FRACTION R \<noteq> 0 \<and> (es = [] \<longrightarrow> FRACTION R \<noteq> 1)" "length es \<le> FRACTION R"
  shows "read_unsigned R (ds @ ch CHR ''.'' # es) =
    Inr (decimal_value 0 ds * 10 ^ FRACTION R + decimal_value 0 es * 10 ^ (FRACTION R - length es))"
proof -
  have F: "FRACTION R \<noteq> 0" using assms(5) by simp
  have one: "(if FRACTION R = 1 then 1 else 10 ^ (FRACTION R - length es)) = (10 :: int) ^ (FRACTION R - length es)"
    using assms(5,6) by (cases es) auto
  have "\<not> is_digit (ch CHR ''.'')" by (simp add: digit_of_def)
  then have t: "takeWhile is_digit (ds @ ch CHR ''.'' # es) = ds" "dropWhile is_digit (ds @ ch CHR ''.'' # es) = ch CHR ''.'' # es"
    by (simp_all add: takeWhile_digits [OF assms(1)])
  have "10 ^ FRACTION R = (10 :: int) ^ length es * 10 ^ (FRACTION R - length es)"
    using assms(6) by (simp flip: power_add)
  moreover have "decimal_value 0 (ds @ es) = decimal_value 0 ds * 10 ^ length es + decimal_value 0 es"
    unfolding decimal_value_append by (rule decimal_value_shift)
  ultimately have "decimal_value 0 (ds @ es) * 10 ^ (FRACTION R - length es) =
      decimal_value 0 ds * 10 ^ FRACTION R + decimal_value 0 es * 10 ^ (FRACTION R - length es)"
    by (simp add: algebra_simps)
  then show ?thesis
    using assms(2,3,6) F unfolding read_unsigned_def t
    by (simp add: all_digits_takeWhile [OF assms(4)] one del: One_nat_def)
qed

lemma read_text_signed:
  assumes "t \<noteq> []" "is_digit (hd t)" "read_unsigned R t = Inr v"
  shows "read_text R ((if neg then [ch CHR ''-''] else []) @ t) = Inr \<lparr>negative = neg, data = word_of_int v\<rparr>"
proof -
  have "hd t \<noteq> ch CHR ''-''" "hd t \<noteq> ch CHR ''+''"
    using assms(2) by (auto simp: digit_of_def)
  with assms show ?thesis by (cases t) (auto simp: read_text_def)
qed

lemma decimal_text_fits:
  assumes "ranks_ok R" "0 < INTEGER_RANK R" "decimal_ok R d" "data d \<noteq> 0"
  obtains s where "decimal_to_char R d = Inr s" "length s \<le> TOTAL R + 2" "read_text R s = Inr d"
proof -
  note lim = unat_limits [OF assms(1)]
  define I M where "I = unat (data d) div 10 ^ FRACTION R" and "M = unat (data d) mod 10 ^ FRACTION R"
  have I: "unat (data d div MAX_FRACTION R) = I" "unat (data d mod MAX_FRACTION R) = M"
    by (simp_all add: unat_div_distrib unat_mod_distrib lim(2) I_def M_def)
  have Iless: "I < 10 ^ INTEGER_RANK R"
    using assms(3) by (simp add: I_def decimal_ok_def lim(4) less_mult_imp_div_less mult.commute)
  have total: "INTEGER_RANK R + FRACTION R = TOTAL R" using assms(1) by (auto simp: ranks_ok_def INTEGER_RANK_def)
  note valid = decimal_ok_valid [OF assms(1,3)]
  have lenI: "length (digits_text I) \<le> INTEGER_RANK R" using length_digits_loop [OF assms(2) Iless] by simp
  have vI: "decimal_value 0 (digits_text I) < 10 ^ INTEGER_RANK R"
    using Iless unfolding digits_text_value by (metis of_nat_less_iff of_nat_numeral of_nat_power)
  have "digits_text I \<noteq> []" by simp
  then have hdI: "is_digit (hd (digits_text I))" "digits_text I \<noteq> []"
    using digits_text_digits [of I] hd_in_set unfolding all_digits_def by blast+
  define body where "body = (if FRACTION R = 0 then digits_text I
    else digits_text I @ ch CHR ''.'' # fraction_text (FRACTION R) (data d mod MAX_FRACTION R))"
  have eq: "decimal_to_char R d = Inr ((if negative d then [ch CHR ''-''] else []) @ body)"
    using decimal_to_char_text [OF valid assms(4), of R] I by (simp add: body_def I_def)
  have "length body \<le> TOTAL R + 1 \<and> read_unsigned R body = Inr (int (unat (data d)))"
  proof (cases "FRACTION R = 0")
    case True
    with lenI read_unsigned_integer [OF digits_text_digits hdI(2) vI] show ?thesis
      using total unfolding body_def digits_text_value by (simp add: I_def)
  next
    case False
    then have F: "0 < FRACTION R" "unat (data d mod MAX_FRACTION R) < 10 ^ FRACTION R"
      by (simp_all add: I(2) M_def)
    note ft = fraction_text_correct [OF F]
    have "int (I * 10 ^ FRACTION R + M) = int (unat (data d))"
      unfolding I_def M_def by (simp only: div_mult_mod_eq)
    then have "int I * 10 ^ FRACTION R + int M = int (unat (data d))"
      by (simp only: of_nat_add of_nat_mult of_nat_power of_nat_numeral)
    have "FRACTION R \<noteq> 0 \<and> (fraction_text (FRACTION R) (data d mod MAX_FRACTION R) = [] \<longrightarrow> FRACTION R \<noteq> 1)"
      using False ft(2) by simp
    from read_unsigned_point [OF digits_text_digits hdI(2) vI ft(1) this ft(3)] \<open>int I * 10 ^ FRACTION R + int M = int (unat (data d))\<close>
      lenI ft(3) total False show ?thesis
      unfolding digits_text_value ft(4) I(2) by (simp add: body_def)
  qed
  moreover have "body \<noteq> []" "is_digit (hd body)" using hdI by (auto simp: body_def hd_append)
  ultimately show ?thesis
    using that [OF eq] read_text_signed [of body R _ "negative d"] by (cases "negative d") auto
qed

section \<open>Integers\<close>

lemma digits_loop_lower: "n \<noteq> 0 \<Longrightarrow> 10 ^ (length (digits_loop n) - 1) \<le> n"
proof (induction n rule: digits_loop.induct)
  case (1 n)
  show ?case
  proof (cases "n div 10 = 0")
    case True
    with 1(2) show ?thesis by (simp add: digits_loop.simps [of n])
  next
    case False
    obtain k where k: "length (digits_loop (n div 10)) = Suc k"
      using digits_loop_nonempty [of "n div 10"] by (cases "length (digits_loop (n div 10))") auto
    with 1(1) [OF False False] have "10 ^ k \<le> n div 10" by simp
    then have "10 ^ k * 10 \<le> n" by (simp add: less_eq_div_iff_mult_less_eq)
    with False k show ?thesis by (simp add: digits_loop.simps [of n] mult.commute)
  qed
qed

lemma it_digits10_bound:
  assumes "2 \<le> it_bits T" "it_bits T \<le> 64"
  shows "10 ^ it_digits10 T \<le> it_max T" "it_max T < 2 ^ 64" "it_digits10 T \<le> 19"
proof -
  let ?k = "it_bits T - (if it_signed T then 1 else 0)"
  have "(2 :: int) ^ 1 \<le> 2 ^ ?k" using assms(1) by (intro power_increasing) auto
  then have pos: "0 < it_max T" by (simp add: it_max_def)
  have "(2 :: int) ^ ?k \<le> 2 ^ 64" using assms(2) by (intro power_increasing) auto
  then show less: "it_max T < 2 ^ 64" by (simp add: it_max_def)
  have "10 ^ it_digits10 T \<le> nat (it_max T)"
    unfolding it_digits10_def using pos by (intro digits_loop_lower) simp
  then show "10 ^ it_digits10 T \<le> it_max T" using pos by (simp add: le_nat_iff)
  have "nat (it_max T) < 10 ^ 20" using less by simp
  from length_digits_loop [OF _ this] show "it_digits10 T \<le> 19" by (simp add: it_digits10_def)
qed

lemma it_cast_id: "1 \<le> it_bits T \<Longrightarrow> 0 \<le> v \<Longrightarrow> v \<le> it_max T \<Longrightarrow> it_cast T v = v"
proof -
  assume *: "1 \<le> it_bits T" "0 \<le> v" "v \<le> it_max T"
  obtain b where b: "it_bits T = Suc b" using *(1) by (cases "it_bits T") auto
  from * show ?thesis by (auto simp: it_cast_def it_max_def b)
qed

lemma exceeds_int:
  assumes "0 \<le> v" "v < 2 ^ 64"
  shows "exceeds (word_of_int v) w \<longleftrightarrow> uint w \<le> v" "uint (word_of_int v :: uint64) = v"
proof -
  show v: "uint (word_of_int v :: uint64) = v" using assms by (simp add: uint_word_of_int)
  show "exceeds (word_of_int v) w \<longleftrightarrow> uint w \<le> v" by (simp add: exceeds_def word_le_def v)
qed

text \<open>
  \<^verbatim>\<open>integer / 10 ^ power\<close>, rounded towards zero to the units of the last place.
\<close>

definition scaled :: "ranks \<Rightarrow> int \<Rightarrow> nat \<Rightarrow> int" where
  "scaled R v pow = \<bar>v\<bar> * 10 ^ FRACTION R div 10 ^ pow"

lemma scaled_cases:
  "pow = FRACTION R \<Longrightarrow> scaled R v pow = \<bar>v\<bar>"
  "FRACTION R < pow \<Longrightarrow> scaled R v pow = \<bar>v\<bar> div 10 ^ (pow - FRACTION R)"
  "pow < FRACTION R \<Longrightarrow> scaled R v pow = \<bar>v\<bar> * 10 ^ (FRACTION R - pow)"
proof -
  show "pow = FRACTION R \<Longrightarrow> scaled R v pow = \<bar>v\<bar>" by (simp add: scaled_def)
  assume "FRACTION R < pow"
  then have "(10 :: int) ^ pow = 10 ^ (pow - FRACTION R) * 10 ^ FRACTION R" by (simp flip: power_add)
  then show "scaled R v pow = \<bar>v\<bar> div 10 ^ (pow - FRACTION R)"
    unfolding scaled_def by simp
next
  assume "pow < FRACTION R"
  then have "(10 :: int) ^ FRACTION R = 10 ^ (FRACTION R - pow) * 10 ^ pow" by (simp flip: power_add)
  then show "scaled R v pow = \<bar>v\<bar> * 10 ^ (FRACTION R - pow)"
    unfolding scaled_def by (simp flip: mult.assoc)
qed

lemma it_cast_pow10:
  assumes "2 \<le> it_bits T" "it_bits T \<le> 64" "k \<le> it_digits10 T"
  shows "it_cast T (uint (pow10 k :: uint64)) = 10 ^ k"
proof -
  note dig = it_digits10_bound [OF assms(1,2)]
  have "(10 :: int) ^ k \<le> 10 ^ it_digits10 T" using assms(3) by (intro power_increasing) auto
  with dig(1) have "10 ^ k \<le> it_max T" by linarith
  moreover have "uint (pow10 k :: uint64) = 10 ^ k"
    using assms(3) dig(3) by (simp add: pow10_power uint_nat)
  ultimately show ?thesis using it_cast_id [of T "10 ^ k"] assms(1) by simp
qed

lemma scaled_up:
  assumes "ranks_ok R" "k \<le> TOTAL R" "0 \<le> w" "w < 2 ^ 64"
  shows "exceeds (word_of_int w) (MAX_VALUE R div pow10 k) \<longleftrightarrow> \<not> w * 10 ^ k < 10 ^ TOTAL R"
    "w * 10 ^ k < 10 ^ TOTAL R \<Longrightarrow> uint (word_of_int w * pow10 k :: uint64) = w * 10 ^ k"
proof -
  have max: "uint (MAX_VALUE R) = 10 ^ TOTAL R" using unat_limits(1) [OF assms(1)] by (simp add: uint_nat)
  have p: "uint (10 ^ k :: uint64) = 10 ^ k" using assms(1,2) by (simp add: uint_nat ranks_ok_def)
  have T: "(10 :: int) ^ TOTAL R = 10 ^ (TOTAL R - k) * 10 ^ k" using assms(2) by (simp flip: power_add)
  have m: "uint (MAX_VALUE R div pow10 k) = 10 ^ (TOTAL R - k)"
    unfolding pow10_power uint_div_distrib p max using T by simp
  show "exceeds (word_of_int w) (MAX_VALUE R div pow10 k) \<longleftrightarrow> \<not> w * 10 ^ k < 10 ^ TOTAL R"
    unfolding exceeds_int(1) [OF assms(3,4)] m T by (simp add: not_less)
  assume less: "w * 10 ^ k < 10 ^ TOTAL R"
  have "word_of_int w * pow10 k = (word_of_int (w * 10 ^ k) :: uint64)" by (simp add: pow10_power)
  moreover have "(10 :: int) ^ TOTAL R < 2 ^ 64" using max uint_bounded [of "MAX_VALUE R"] by simp
  ultimately show "uint (word_of_int w * pow10 k :: uint64) = w * 10 ^ k"
    using exceeds_int(2) [of "w * 10 ^ k"] less assms(3) by simp
qed

lemma construct_rational_units:
  assumes "ranks_ok R" "2 \<le> it_bits T" "it_bits T \<le> 64"
    "(if it_signed T then - it_max T else 0) \<le> v" "v \<le> it_max T" "pow < it_digits10 T + FRACTION R"
  shows "if scaled R v pow < 10 ^ TOTAL R
    then \<exists>d. construct_rational R T v pow = Inr d \<and> uint (data d) = scaled R v pow \<and> negative d = (v < 0)
    else construct_rational R T v pow = Inl Overflow"
proof (cases "v = 0")
  case True
  then show ?thesis by (simp add: construct_rational_def scaled_def)
next
  case False
  note lim = unat_limits [OF assms(1)] and dig = it_digits10_bound [OF assms(2,3)]
  have max: "uint (MAX_VALUE R) = 10 ^ TOTAL R" using lim(1) by (simp add: uint_nat)
  have abs: "\<bar>v\<bar> \<le> it_max T" "0 \<le> \<bar>v\<bar>" "\<bar>v\<bar> < 2 ^ 64"
    using assms(4,5) dig(2) by (auto split: if_splits)
  have split: "split_integer T v = Inr (\<bar>v\<bar>, v < 0)"
    using assms(4) by (auto simp: split_integer_def split: if_splits)
  have eq: "construct_rational R T v pow =
      (if pow = FRACTION R then
         if exceeds (word_of_int \<bar>v\<bar>) (MAX_VALUE R) then Inl Overflow
         else Inr \<lparr>negative = v < 0, data = word_of_int \<bar>v\<bar>\<rparr>
       else if pow > FRACTION R then
         let integer = \<bar>v\<bar> div it_cast T (uint (pow10 (pow - FRACTION R) :: uint64))
         in if exceeds (word_of_int integer) (MAX_VALUE R) then Inl Overflow
            else Inr \<lparr>negative = v < 0, data = word_of_int integer\<rparr>
       else
         let mul = pow10 (FRACTION R - pow)
         in if exceeds (word_of_int \<bar>v\<bar>) (MAX_VALUE R div mul) then Inl Overflow
            else Inr \<lparr>negative = v < 0, data = word_of_int \<bar>v\<bar> * mul\<rparr>)"
    using False assms(6) by (simp add: construct_rational_def split)
  consider "pow = FRACTION R" | "FRACTION R < pow" | "pow < FRACTION R" by linarith
  then show ?thesis
  proof cases
    case 1
    then show ?thesis unfolding eq using exceeds_int [OF abs(2,3)] max by (auto simp: scaled_cases(1))
  next
    case 2
    let ?k = "pow - FRACTION R" and ?q = "\<bar>v\<bar> div 10 ^ (pow - FRACTION R)"
    have cast: "it_cast T (uint (pow10 ?k :: uint64)) = 10 ^ ?k"
      using it_cast_pow10 [OF assms(2,3), of ?k] assms(6) 2 by simp
    have "?q \<le> \<bar>v\<bar> div 1" by (rule zdiv_mono2) simp_all
    with abs(3) have q: "0 \<le> ?q" "?q < 2 ^ 64" by (auto simp: pos_imp_zdiv_nonneg_iff)
    show ?thesis
      unfolding eq using exceeds_int [OF q] max 2 by (auto simp: scaled_cases(2) cast)
  next
    case 3
    let ?k = "FRACTION R - pow"
    have k: "?k \<le> TOTAL R" using assms(1) by (auto simp: ranks_ok_def)
    then show ?thesis
      unfolding eq using scaled_up [OF assms(1) k abs(2,3)] 3 by (auto simp: scaled_cases(3) Let_def)
  qed
qed

lemma to_integer_units:
  assumes "ranks_ok R" "2 \<le> it_bits T" "it_bits T \<le> 64"
  shows "to_integer R T d =
    (let n = \<bar>units d\<bar> div 10 ^ FRACTION R
     in if it_max T < n then Inl Overflow
        else if negative d \<and> n \<noteq> 0 \<and> \<not> it_signed T then Inl Sign
        else Inr (if negative d then - n else n))"
proof -
  let ?p = "data d div MAX_FRACTION R"
  note dig = it_digits10_bound [OF assms(2,3)]
  have "uint (MAX_FRACTION R) = 10 ^ FRACTION R" using unat_limits(2) [OF assms(1)] by (simp add: uint_nat)
  then have p: "uint ?p = \<bar>units d\<bar> div 10 ^ FRACTION R" by (simp add: uint_div_distrib)
  have "0 \<le> it_max T" using dig(1) by (meson order_trans zero_le_numeral zero_le_power)
  with dig(2) have "uint (word_of_int (it_max T) :: uint64) = it_max T" by (intro exceeds_int(2))
  then have "word_of_int (it_max T) < ?p \<longleftrightarrow> it_max T < uint ?p" by (simp only: word_less_def)
  moreover have "?p \<noteq> 0 \<longleftrightarrow> uint ?p \<noteq> 0" by simp
  ultimately show ?thesis unfolding to_integer_def Let_def p [symmetric] by presburger
qed

lemma read_unsigned_cases:
  obtains "read_unsigned R t = Inl Overflow" | "read_unsigned R t = Inl NotNumber"
  | ds es where "decimal_value 0 ds < 10 ^ INTEGER_RANK R" "all_digits es" "length es \<le> FRACTION R"
    "read_unsigned R t = Inr (decimal_value 0 (ds @ es) * (if FRACTION R = 1 then 1 else 10 ^ (FRACTION R - length es)))"
  | ds where "decimal_value 0 ds < 10 ^ INTEGER_RANK R"
    "read_unsigned R t = Inr (decimal_value 0 ds * 10 ^ FRACTION R)"
proof -
  define ds rest es more where "ds = takeWhile is_digit t" and "rest = dropWhile is_digit t" and
    "es = takeWhile is_digit (tl (dropWhile is_digit t))" and "more = dropWhile is_digit (tl (dropWhile is_digit t))"
  have digits: "all_digits es" unfolding es_def all_digits_def using set_takeWhileD by metis
  have eq: "read_unsigned R t =
      (if ds = [] \<or> 10 ^ INTEGER_RANK R \<le> decimal_value 0 ds then Inl Overflow
       else if FRACTION R \<noteq> 0 \<and> rest \<noteq> [] \<and> hd rest = ch CHR ''.'' then
         if FRACTION R < length es then Inl Overflow
         else if more \<noteq> [] then Inl NotNumber
         else Inr (decimal_value 0 (ds @ es) * (if FRACTION R = 1 then 1 else 10 ^ (FRACTION R - length es)))
       else if rest \<noteq> [] then Inl NotNumber else Inr (decimal_value 0 ds * 10 ^ FRACTION R))"
    unfolding read_unsigned_def Let_def ds_def rest_def es_def more_def ..
  show thesis
  proof (cases "ds = [] \<or> 10 ^ INTEGER_RANK R \<le> decimal_value 0 ds")
    case True
    with that(1) show thesis unfolding eq by simp
  next
    case False
    then have less: "decimal_value 0 ds < 10 ^ INTEGER_RANK R" by simp
    show thesis
    proof (cases "FRACTION R \<noteq> 0 \<and> rest \<noteq> [] \<and> hd rest = ch CHR ''.''")
      case True
      with False that(1,2) that(3) [OF less digits] show thesis
        unfolding eq by (cases "FRACTION R < length es"; cases "more = []") simp_all
    next
      case pt: False
      with False that(2) that(4) [OF less] show thesis unfolding eq by (cases "rest = []") simp_all
    qed
  qed
qed

lemma read_unsigned_bounds:
  assumes "ranks_ok R" "read_unsigned R t = Inr v"
  shows "0 \<le> v" "v < 10 ^ TOTAL R"
proof -
  obtain ds es where less: "decimal_value 0 ds < 10 ^ INTEGER_RANK R" "all_digits es" "length es \<le> FRACTION R"
    and v: "0 \<le> v" "v \<le> decimal_value 0 (ds @ es) * 10 ^ (FRACTION R - length es)"
  proof (rule read_unsigned_cases [of R t])
    fix ds es
    assume *: "decimal_value 0 ds < 10 ^ INTEGER_RANK R" "all_digits es" "length es \<le> FRACTION R"
      "read_unsigned R t = Inr (decimal_value 0 (ds @ es) * (if FRACTION R = 1 then 1 else 10 ^ (FRACTION R - length es)))"
    have "w \<le> w * 10 ^ k" if "0 \<le> w" for w :: int and k
      using mult_left_mono [of 1 "10 ^ k" w] that by simp
    with * assms(2) decimal_value_nonneg [of "ds @ es"] show thesis
      by (intro that [of ds es]) (auto split: if_splits)
  next
    fix ds
    assume "decimal_value 0 ds < 10 ^ INTEGER_RANK R" "read_unsigned R t = Inr (decimal_value 0 ds * 10 ^ FRACTION R)"
    with assms(2) decimal_value_nonneg [of ds] show thesis by (intro that [of ds "[]"]) auto
  qed (use assms(2) in simp_all)
  have "decimal_value 0 (ds @ es) < (decimal_value 0 ds + 1) * 10 ^ length es"
    unfolding decimal_value_append decimal_value_shift [of "decimal_value 0 ds"]
    using decimal_value_less [OF less(2)] by (simp add: algebra_simps)
  then have "decimal_value 0 (ds @ es) * 10 ^ (FRACTION R - length es) <
      (decimal_value 0 ds + 1) * 10 ^ length es * 10 ^ (FRACTION R - length es)"
    by (intro mult_strict_right_mono) simp_all
  also have "\<dots> = (decimal_value 0 ds + 1) * 10 ^ FRACTION R"
    using less(3) by (simp add: mult.assoc flip: power_add)
  also have "\<dots> \<le> 10 ^ INTEGER_RANK R * 10 ^ FRACTION R"
    using less(1) by (intro mult_right_mono) simp_all
  also have "\<dots> = 10 ^ TOTAL R" using assms(1) by (simp add: ranks_ok_def INTEGER_RANK_def flip: power_add)
  finally show "0 \<le> v" "v < 10 ^ TOTAL R" using v by linarith+
qed

lemma read_text_ok:
  assumes "ranks_ok R" "read_text R s = Inr d"
  shows "decimal_ok R d"
proof -
  obtain t v neg where v: "read_unsigned R t = Inr v" and d: "d = \<lparr>negative = neg, data = word_of_int v\<rparr>"
    using assms(2) by (auto simp: read_text_def split: list.splits if_splits)
  note b = read_unsigned_bounds [OF assms(1) v]
  have "(10 :: int) ^ TOTAL R < 2 ^ 64"
    using unat_limits(5) [OF assms(1)] by (metis of_nat_less_iff of_nat_numeral of_nat_power)
  with b have "uint (word_of_int v :: uint64) = v" by (intro exceeds_int(2)) linarith+
  with b(2) have "int (unat (word_of_int v :: uint64)) < int (10 ^ TOTAL R)" by simp
  then show ?thesis unfolding d decimal_ok_simps by (simp only: of_nat_less_iff)
qed

section \<open>The documented format\<close>

text \<open>
  The format \<^verbatim>\<open>[+|-]abcd[.[efg]]\<close> of the comments of both classes, without reference to how it is
  read: a sign, digits \<open>ds\<close>, and perhaps a point with digits \<open>es\<close> behind it.
\<close>

definition sign_text :: "bytes \<Rightarrow> bool" where
  "sign_text s \<longleftrightarrow> s = [] \<or> s = [ch CHR ''-''] \<or> s = [ch CHR ''+'']"

definition decimal_text_of :: "bytes \<Rightarrow> bytes \<Rightarrow> bytes \<Rightarrow> bool" where
  "decimal_text_of cs ds es \<longleftrightarrow> all_digits ds \<and> all_digits es \<and> (cs = ds \<and> es = [] \<or> cs = ds @ ch CHR ''.'' # es)"

definition numeral_text :: "bytes \<Rightarrow> bool \<Rightarrow> bytes \<Rightarrow> bytes \<Rightarrow> bool" where
  "numeral_text s neg ds es \<longleftrightarrow>
     ds \<noteq> [] \<and> (\<exists>sg cs. s = sg @ cs \<and> sign_text sg \<and> neg = (sg = [ch CHR ''-'']) \<and> decimal_text_of cs ds es)"

lemma digits_no_point: "all_digits ds \<Longrightarrow> ch CHR ''.'' \<notin> set ds"
  by (auto simp: all_digits_def digit_of_def)

lemma read_unsigned_value:
  assumes "ds \<noteq> []" "decimal_text_of t ds es" "FRACTION R = 0 \<longrightarrow> ch CHR ''.'' \<notin> set t"
    "FRACTION R = 1 \<longrightarrow> last t \<noteq> ch CHR ''.''"
    "decimal_value 0 ds < 10 ^ INTEGER_RANK R" "length es \<le> FRACTION R"
  shows "read_unsigned R t =
    Inr (decimal_value 0 ds * 10 ^ FRACTION R + decimal_value 0 es * 10 ^ (FRACTION R - length es))"
proof -
  have d: "all_digits ds" "all_digits es" using assms(2) by (simp_all add: decimal_text_of_def)
  from assms(2) consider "t = ds" "es = []" | "t = ds @ ch CHR ''.'' # es" by (auto simp: decimal_text_of_def)
  then show ?thesis
  proof cases
    case 1
    with read_unsigned_integer [OF d(1) assms(1,5)] show ?thesis by simp
  next
    case 2
    with assms(3,4) have "FRACTION R \<noteq> 0" "es = [] \<longrightarrow> FRACTION R \<noteq> 1" by auto
    with read_unsigned_point [OF d(1) assms(1,5) d(2) _ assms(6)] 2 show ?thesis by simp
  qed
qed

lemma read_unsigned_shape:
  assumes "read_unsigned R t = Inr v"
  obtains ds es where "ds \<noteq> []" "decimal_text_of t ds es" "FRACTION R = 0 \<longrightarrow> ch CHR ''.'' \<notin> set t"
    "decimal_value 0 ds < 10 ^ INTEGER_RANK R" "length es \<le> FRACTION R"
proof -
  define ds rest where "ds = takeWhile is_digit t" and "rest = dropWhile is_digit t"
  define es junk where "es = takeWhile is_digit (tl rest)" and "junk = dropWhile is_digit (tl rest)"
  have d: "all_digits ds" "all_digits es" unfolding ds_def es_def all_digits_def using set_takeWhileD by metis+
  have t: "t = ds @ rest" "tl rest = es @ junk" by (simp_all add: ds_def rest_def es_def junk_def)
  note eq = assms [unfolded read_unsigned_def Let_def, folded ds_def rest_def, folded es_def junk_def]
  have ds: "ds \<noteq> []" "decimal_value 0 ds < 10 ^ INTEGER_RANK R"
    using eq by (simp_all split: if_split_asm)
  show thesis
  proof (cases "FRACTION R \<noteq> 0 \<and> rest \<noteq> [] \<and> hd rest = ch CHR ''.''")
    case True
    then have es: "length es \<le> FRACTION R" "junk = []"
      using eq by (simp_all split: if_split_asm)
    have "rest = ch CHR ''.'' # tl rest" using True by (cases rest) auto
    with t es(2) have "t = ds @ ch CHR ''.'' # es" by simp
    then have "decimal_text_of t ds es" unfolding decimal_text_of_def using d by blast
    with that [OF ds(1) _ _ ds(2) es(1)] True show thesis by blast
  next
    case False
    then have "rest = []" using eq by (simp split: if_split_asm)
    with t have t: "t = ds" by simp
    have "decimal_text_of t ds []" unfolding decimal_text_of_def using d t by (simp add: all_digits_def)
    moreover have "ch CHR ''.'' \<notin> set t" using digits_no_point [OF d(1)] t by simp
    ultimately show thesis using that [OF ds(1) _ _ ds(2), of "[]"] by simp
  qed
qed

lemma read_unsigned_iff:
  assumes "FRACTION R = 1 \<longrightarrow> t = [] \<or> last t \<noteq> ch CHR ''.''"
  shows "read_unsigned R t = Inr v \<longleftrightarrow>
    (\<exists>ds es. ds \<noteq> [] \<and> decimal_text_of t ds es \<and> (FRACTION R = 0 \<longrightarrow> ch CHR ''.'' \<notin> set t) \<and>
      decimal_value 0 ds < 10 ^ INTEGER_RANK R \<and> length es \<le> FRACTION R \<and>
      v = decimal_value 0 ds * 10 ^ FRACTION R + decimal_value 0 es * 10 ^ (FRACTION R - length es))"
    (is "_ \<longleftrightarrow> ?rhs")
proof
  assume v: "read_unsigned R t = Inr v"
  from read_unsigned_shape [OF v] obtain ds es where f: "ds \<noteq> []" "decimal_text_of t ds es"
    "FRACTION R = 0 \<longrightarrow> ch CHR ''.'' \<notin> set t" "decimal_value 0 ds < 10 ^ INTEGER_RANK R" "length es \<le> FRACTION R" .
  have "t \<noteq> []" using f(1,2) by (auto simp: decimal_text_of_def)
  with assms have "FRACTION R = 1 \<longrightarrow> last t \<noteq> ch CHR ''.''" by blast
  from read_unsigned_value [OF f(1-3) this f(4,5)] v f show ?rhs by (intro exI [of _ ds] exI [of _ es]) simp
next
  assume ?rhs
  then obtain ds es where f: "ds \<noteq> []" "decimal_text_of t ds es" "FRACTION R = 0 \<longrightarrow> ch CHR ''.'' \<notin> set t"
    "decimal_value 0 ds < 10 ^ INTEGER_RANK R" "length es \<le> FRACTION R"
    "v = decimal_value 0 ds * 10 ^ FRACTION R + decimal_value 0 es * 10 ^ (FRACTION R - length es)"
    by (elim exE conjE) (rule that)
  have "t \<noteq> []" using f(1,2) by (auto simp: decimal_text_of_def)
  with assms have "FRACTION R = 1 \<longrightarrow> last t \<noteq> ch CHR ''.''" by blast
  from read_unsigned_value [OF f(1-3) this f(4,5)] f(6) show "read_unsigned R t = Inr v" by simp
qed

lemma read_unsigned_long:
  assumes "ds \<noteq> []" "decimal_text_of t ds es" "FRACTION R = 0 \<longrightarrow> ch CHR ''.'' \<notin> set t"
    "10 ^ INTEGER_RANK R \<le> decimal_value 0 ds \<or> FRACTION R < length es"
  shows "read_unsigned R t = Inl Overflow"
proof -
  have d: "all_digits ds" "all_digits es" using assms(2) by (simp_all add: decimal_text_of_def)
  have p: "\<not> is_digit (ch CHR ''.'')" by (simp add: digit_of_def)
  from assms(2) consider "t = ds" "es = []" | "t = ds @ ch CHR ''.'' # es" by (auto simp: decimal_text_of_def)
  then show ?thesis
  proof cases
    case 1
    with assms(1,4) show ?thesis by (simp add: read_unsigned_def all_digits_takeWhile [OF d(1)])
  next
    case 2
    with p have t: "takeWhile is_digit t = ds" "dropWhile is_digit t = ch CHR ''.'' # es"
      by (simp_all add: takeWhile_digits [OF d(1)])
    have "FRACTION R \<noteq> 0" using assms(3) 2 by auto
    with assms(1,4) show ?thesis unfolding read_unsigned_def t by (auto simp: all_digits_takeWhile [OF d(2)] Let_def)
  qed
qed

text \<open>A number that is followed by anything but a digit or a point.\<close>

lemma read_unsigned_followed:
  assumes "read_unsigned R t = Inr v" "\<not> is_digit c" "c \<noteq> ch CHR ''.''"
  shows "read_unsigned R (t @ c # junk) = Inl NotNumber"
proof -
  from read_unsigned_shape [OF assms(1)] obtain ds es where f: "ds \<noteq> []" "decimal_text_of t ds es"
    "FRACTION R = 0 \<longrightarrow> ch CHR ''.'' \<notin> set t" "decimal_value 0 ds < 10 ^ INTEGER_RANK R" "length es \<le> FRACTION R" .
  have d: "all_digits ds" "all_digits es" using f(2) by (simp_all add: decimal_text_of_def)
  have p: "\<not> is_digit (ch CHR ''.'')" by (simp add: digit_of_def)
  from f(2) consider "t = ds" "es = []" | "t = ds @ ch CHR ''.'' # es" by (auto simp: decimal_text_of_def)
  then show ?thesis
  proof cases
    case 1
    with assms(2,3) f(1,4) show ?thesis by (simp add: read_unsigned_def takeWhile_digits [OF d(1)])
  next
    case 2
    with p have t: "takeWhile is_digit (t @ c # junk) = ds" "dropWhile is_digit (t @ c # junk) = ch CHR ''.'' # es @ c # junk"
      by (simp_all add: takeWhile_digits [OF d(1)])
    have "FRACTION R \<noteq> 0" using f(3) 2 by auto
    with assms(2) f(1,4,5) show ?thesis unfolding read_unsigned_def t by (simp add: takeWhile_digits [OF d(2)])
  qed
qed

subsection \<open>Signs\<close>

lemma read_text_sign:
  assumes "sign_text sg" "sg = [] \<longrightarrow> cs \<noteq> [] \<and> hd cs \<noteq> ch CHR ''-'' \<and> hd cs \<noteq> ch CHR ''+''"
  shows "read_text R (sg @ cs) =
    rmap (\<lambda>v. \<lparr>negative = sg = [ch CHR ''-''], data = word_of_int v\<rparr>) (read_unsigned R cs)"
  using assms by (cases cs) (auto simp: sign_text_def read_text_def)

lemma split_sign:
  assumes "s \<noteq> []"
  obtains sg cs where "s = sg @ cs" "sign_text sg" "sg = [] \<longrightarrow> cs \<noteq> [] \<and> hd cs \<noteq> ch CHR ''-'' \<and> hd cs \<noteq> ch CHR ''+''"
  using that [of "[hd s]" "tl s"] that [of "[]" s] assms by (cases s) (auto simp: sign_text_def)

lemma unsigned_text_hd:
  assumes "decimal_text_of cs ds es" "ds \<noteq> []"
  shows "cs \<noteq> [] \<and> hd cs \<noteq> ch CHR ''-'' \<and> hd cs \<noteq> ch CHR ''+''"
proof -
  have "is_digit (hd cs)" "cs \<noteq> []" using assms by (auto simp: decimal_text_of_def all_digits_def hd_append)
  then show ?thesis by (auto simp: digit_of_def)
qed

lemma read_text_data:
  assumes "ranks_ok R"
  shows "rmap (\<lambda>v. \<lparr>negative = neg, data = word_of_int v\<rparr>) (read_unsigned R cs) = Inr d \<longleftrightarrow>
    negative d = neg \<and> read_unsigned R cs = Inr (uint (data d))"
proof -
  have "uint (word_of_int v :: uint64) = v" if "read_unsigned R cs = Inr v" for v
  proof -
    note b = read_unsigned_bounds [OF assms that]
    have "(10 :: int) ^ TOTAL R < 2 ^ 64"
      using unat_limits(5) [OF assms] by (metis of_nat_less_iff of_nat_numeral of_nat_power)
    with b show ?thesis by (intro exceeds_int(2)) linarith+
  qed
  moreover have "d = \<lparr>negative = neg, data = w\<rparr> \<longleftrightarrow> negative d = neg \<and> data d = w" for w by (cases d) auto
  ultimately show ?thesis by (cases "read_unsigned R cs") auto
qed

text \<open>The reading of a text with its sign, against the format.\<close>

lemma read_text_iff:
  assumes "ranks_ok R" "FRACTION R = 1 \<longrightarrow> s = [] \<or> last s \<noteq> ch CHR ''.''"
  shows "read_text R s = Inr d \<longleftrightarrow>
    (\<exists>ds es. numeral_text s (negative d) ds es \<and> (FRACTION R = 0 \<longrightarrow> ch CHR ''.'' \<notin> set s) \<and>
      decimal_value 0 ds < 10 ^ INTEGER_RANK R \<and> length es \<le> FRACTION R \<and>
      uint (data d) = decimal_value 0 ds * 10 ^ FRACTION R + decimal_value 0 es * 10 ^ (FRACTION R - length es))"
    (is "_ \<longleftrightarrow> ?rhs")
proof
  assume r: "read_text R s = Inr d"
  then have "s \<noteq> []" by (auto simp: read_text_def)
  then obtain sg cs where s: "s = sg @ cs" "sign_text sg"
    "sg = [] \<longrightarrow> cs \<noteq> [] \<and> hd cs \<noteq> ch CHR ''-'' \<and> hd cs \<noteq> ch CHR ''+''" by (rule split_sign)
  have u: "negative d = (sg = [ch CHR ''-''])" "read_unsigned R cs = Inr (uint (data d))"
    using r unfolding s(1) read_text_sign [OF s(2,3)] read_text_data [OF assms(1)] by simp_all
  have np: "ch CHR ''.'' \<notin> set sg" using s(2) by (auto simp: sign_text_def)
  have "FRACTION R = 1 \<longrightarrow> cs = [] \<or> last cs \<noteq> ch CHR ''.''" using assms(2) s(1) by auto
  from u(2) [unfolded read_unsigned_iff [OF this]] obtain ds es where f: "ds \<noteq> []" "decimal_text_of cs ds es"
    "FRACTION R = 0 \<longrightarrow> ch CHR ''.'' \<notin> set cs" "decimal_value 0 ds < 10 ^ INTEGER_RANK R" "length es \<le> FRACTION R"
    "uint (data d) = decimal_value 0 ds * 10 ^ FRACTION R + decimal_value 0 es * 10 ^ (FRACTION R - length es)"
    by (elim exE conjE) (rule that)
  have "numeral_text s (negative d) ds es" unfolding numeral_text_def using f(1,2) s(1,2) u(1) by blast
  moreover have "FRACTION R = 0 \<longrightarrow> ch CHR ''.'' \<notin> set s" using f(3) np s(1) by simp
  ultimately show ?rhs using f(4-6) by (intro exI conjI)
next
  assume ?rhs
  then obtain ds es sg cs where s: "s = sg @ cs" "sign_text sg" and n: "ds \<noteq> []" "decimal_text_of cs ds es"
    and d: "negative d = (sg = [ch CHR ''-''])" "FRACTION R = 0 \<longrightarrow> ch CHR ''.'' \<notin> set s"
      "decimal_value 0 ds < 10 ^ INTEGER_RANK R" "length es \<le> FRACTION R"
      "uint (data d) = decimal_value 0 ds * 10 ^ FRACTION R + decimal_value 0 es * 10 ^ (FRACTION R - length es)"
    unfolding numeral_text_def by (elim exE conjE) (rule that)
  note h = unsigned_text_hd [OF n(2,1)]
  have "FRACTION R = 1 \<longrightarrow> last cs \<noteq> ch CHR ''.''" using assms(2) s(1) h by auto
  moreover have "FRACTION R = 0 \<longrightarrow> ch CHR ''.'' \<notin> set cs" using d(2) s(1) by simp
  ultimately have "read_unsigned R cs = Inr (uint (data d))" using read_unsigned_value [OF n _ _ d(3,4)] d(5) by simp
  with d(1) show "read_text R s = Inr d"
    using read_text_sign [OF s(2)] h unfolding s(1) by (simp add: read_text_data [OF assms(1)])
qed

lemma read_text_long:
  assumes "numeral_text s neg ds es" "FRACTION R = 0 \<longrightarrow> ch CHR ''.'' \<notin> set s"
    "10 ^ INTEGER_RANK R \<le> decimal_value 0 ds \<or> FRACTION R < length es"
  shows "read_text R s = Inl Overflow"
proof -
  obtain sg cs where s: "s = sg @ cs" "sign_text sg" and n: "ds \<noteq> []" "decimal_text_of cs ds es"
    using assms(1) unfolding numeral_text_def by blast
  have "read_unsigned R cs = Inl Overflow" using assms(2,3) s(1) by (intro read_unsigned_long [OF n]) auto
  with read_text_sign [OF s(2)] unsigned_text_hd [OF n(2,1)] show ?thesis unfolding s(1) by simp
qed

lemma read_text_followed:
  assumes "ranks_ok R" "read_text R s = Inr d" "\<not> is_digit c" "c \<noteq> ch CHR ''.''"
  shows "read_text R (s @ c # junk) = Inl NotNumber"
proof -
  have "s \<noteq> []" using assms(2) by (auto simp: read_text_def)
  then obtain sg cs where s: "s = sg @ cs" "sign_text sg"
    "sg = [] \<longrightarrow> cs \<noteq> [] \<and> hd cs \<noteq> ch CHR ''-'' \<and> hd cs \<noteq> ch CHR ''+''" by (rule split_sign)
  have u: "read_unsigned R cs = Inr (uint (data d))"
    using assms(2) unfolding s(1) read_text_sign [OF s(2,3)] read_text_data [OF assms(1)] by simp
  have "sg = [] \<longrightarrow> cs @ c # junk \<noteq> [] \<and> hd (cs @ c # junk) \<noteq> ch CHR ''-'' \<and> hd (cs @ c # junk) \<noteq> ch CHR ''+''"
    using s(3) by auto
  from read_text_sign [OF s(2) this] read_unsigned_followed [OF u assms(3,4)] show ?thesis unfolding s(1) by simp
qed

lemma read_text_errors: "read_text R s = Inl e \<Longrightarrow> e = Overflow \<or> e = NotNumber"
proof -
  have u: "read_unsigned R t = Inl e \<Longrightarrow> e = Overflow \<or> e = NotNumber" for t e
    by (rule read_unsigned_cases [of R t]) auto
  have m: "rmap f r = Inl e \<Longrightarrow> r = Inl e" for f :: "int \<Rightarrow> SimpleDecimal" and r e by (cases r) auto
  show "read_text R s = Inl e \<Longrightarrow> e = Overflow \<or> e = NotNumber"
    by (cases s) (auto dest!: m u simp: read_text_def split: if_splits)
qed

section \<open>What the class promises\<close>

text \<open>
  C25: for ranks with at least one integer digit, the constructor from a text accepts exactly the
  documented format \<^verbatim>\<open>[+|-]abcd[.[efg]]\<close> (a point only where the class has fraction digits) with an
  integer part below \<open>10^INTEGER_RANK\<close> and at most \<^verbatim>\<open>FRACTION\<close> fraction digits, and the number is the
  one that the text denotes, in units of the last place; the exception is a text that ends in the point
  with \<^verbatim>\<open>FRACTION\<close> = 1 (\<open>trailing_point_one_digit\<close>).  An accepted number has at most \<^verbatim>\<open>TOTAL\<close> digits; a
  text of the format with more integer or fraction digits throws \<open>Overflow\<close>, an accepted text that is
  continued by a character other than a digit or a point throws \<open>NotNumber\<close>, and no other exception
  and no access out of bounds happens.  Which of the two exceptions a text with no number at all
  throws is not part of the claim (\<open>not_a_number_overflow\<close>).
\<close>

theorem construct_text_correct:
  assumes "ranks_ok R" "0 < INTEGER_RANK R"
  shows "((FRACTION R = 1 \<longrightarrow> s = [] \<or> last s \<noteq> ch CHR ''.'') \<longrightarrow>
      (construct_text R s = Inr d \<longleftrightarrow>
        (\<exists>ds es. numeral_text s (negative d) ds es \<and> (FRACTION R = 0 \<longrightarrow> ch CHR ''.'' \<notin> set s) \<and>
          decimal_value 0 ds < 10 ^ INTEGER_RANK R \<and> length es \<le> FRACTION R \<and>
          uint (data d) = decimal_value 0 ds * 10 ^ FRACTION R + decimal_value 0 es * 10 ^ (FRACTION R - length es)))) \<and>
    (construct_text R s = Inr d \<longrightarrow> decimal_ok R d \<and>
      (\<forall>c junk. \<not> is_digit c \<and> c \<noteq> ch CHR ''.'' \<longrightarrow> construct_text R (s @ c # junk) = Inl NotNumber)) \<and>
    (\<forall>neg ds es. numeral_text s neg ds es \<and> (FRACTION R = 0 \<longrightarrow> ch CHR ''.'' \<notin> set s) \<and>
      (10 ^ INTEGER_RANK R \<le> decimal_value 0 ds \<or> FRACTION R < length es) \<longrightarrow> construct_text R s = Inl Overflow) \<and>
    (\<forall>e. construct_text R s = Inl e \<longrightarrow> e = Overflow \<or> e = NotNumber)"
  unfolding construct_text_ref [OF assms]
proof (intro conjI impI allI)
  show "read_text R s = Inr d \<longleftrightarrow>
      (\<exists>ds es. numeral_text s (negative d) ds es \<and> (FRACTION R = 0 \<longrightarrow> ch CHR ''.'' \<notin> set s) \<and>
        decimal_value 0 ds < 10 ^ INTEGER_RANK R \<and> length es \<le> FRACTION R \<and>
        uint (data d) = decimal_value 0 ds * 10 ^ FRACTION R + decimal_value 0 es * 10 ^ (FRACTION R - length es))"
    if "FRACTION R = 1 \<longrightarrow> s = [] \<or> last s \<noteq> ch CHR ''.''" by (rule read_text_iff [OF assms(1) that])
  show "decimal_ok R d" if "read_text R s = Inr d" by (rule read_text_ok [OF assms(1) that])
  show "read_text R (s @ c # junk) = Inl NotNumber"
    if "read_text R s = Inr d" "\<not> is_digit c \<and> c \<noteq> ch CHR ''.''" for c junk
    using read_text_followed [OF assms(1) that(1)] that(2) by blast
  show "read_text R s = Inl Overflow" if "numeral_text s neg ds es \<and> (FRACTION R = 0 \<longrightarrow> ch CHR ''.'' \<notin> set s) \<and>
      (10 ^ INTEGER_RANK R \<le> decimal_value 0 ds \<or> FRACTION R < length es)" for neg ds es
    using that by (intro read_text_long [of s neg ds es R]) blast+
  show "e = Overflow \<or> e = NotNumber" if "read_text R s = Inl e" for e by (rule read_text_errors [OF that])
qed

text \<open>The text \<^verbatim>\<open>-12.5\<close> with eight fraction digits, alone and followed by a letter, and \<^verbatim>\<open>0.123456789\<close>.\<close>

theorem construct_text_witness:
  "construct_text \<lparr>TOTAL = 18, FRACTION = 8\<rparr> (chars ''-12.5'') = Inr \<lparr>negative = True, data = 1250000000\<rparr> \<and>
   construct_text \<lparr>TOTAL = 18, FRACTION = 8\<rparr> (chars ''-12.5'' @ ch CHR ''x'' # []) = Inl NotNumber \<and>
   construct_text \<lparr>TOTAL = 18, FRACTION = 8\<rparr> (chars ''0.123456789'') = Inl Overflow"
proof -
  let ?R = "\<lparr>TOTAL = 18, FRACTION = 8\<rparr>" and ?d = "\<lparr>negative = True, data = 1250000000\<rparr>"
  have R: "ranks_ok ?R" "0 < INTEGER_RANK ?R" by (simp_all add: ranks_ok_def INTEGER_RANK_def)
  have "decimal_text_of (chars ''12.5'') (chars ''12'') (chars ''5'')" by (simp add: decimal_text_of_def digit_of_def)
  then have n: "numeral_text (chars ''-12.5'') True (chars ''12'') (chars ''5'')"
    unfolding numeral_text_def sign_text_def by (intro conjI exI [of _ "[45]"] exI [of _ "chars ''12.5''"]) simp_all
  have "decimal_value 0 (chars ''12'') = 12" "decimal_value 0 (chars ''5'') = 5" by (simp_all add: digit_of_def)
  with n have v: "\<exists>ds es. numeral_text (chars ''-12.5'') (negative ?d) ds es \<and>
      (FRACTION ?R = 0 \<longrightarrow> ch CHR ''.'' \<notin> set (chars ''-12.5'')) \<and>
      decimal_value 0 ds < 10 ^ INTEGER_RANK ?R \<and> length es \<le> FRACTION ?R \<and>
      uint (data ?d) = decimal_value 0 ds * 10 ^ FRACTION ?R + decimal_value 0 es * 10 ^ (FRACTION ?R - length es)"
    by (intro exI [of _ "chars ''12''"] exI [of _ "chars ''5''"]) (simp add: INTEGER_RANK_def)
  have "construct_text ?R (chars ''-12.5'') = Inr ?d"
    using construct_text_correct [OF R, of "chars ''-12.5''" ?d, THEN conjunct1] v by simp
  moreover from construct_text_correct [OF R, of "chars ''-12.5''" ?d] this
  have "construct_text ?R (chars ''-12.5'' @ ch CHR ''x'' # []) = Inl NotNumber" by (auto simp: digit_of_def)
  moreover have "decimal_text_of (chars ''0.123456789'') (chars ''0'') (chars ''123456789'')"
    by (simp add: decimal_text_of_def digit_of_def)
  then have "numeral_text (chars ''0.123456789'') False (chars ''0'') (chars ''123456789'')"
    unfolding numeral_text_def sign_text_def by (intro conjI exI [of _ "[]"] exI [of _ "chars ''0.123456789''"]) simp_all
  then have "construct_text ?R (chars ''0.123456789'') = Inl Overflow"
    using construct_text_correct [OF R, of "chars ''0.123456789''" ?d, THEN conjunct2, THEN conjunct2, THEN conjunct1,
        rule_format, of False "chars ''0''" "chars ''123456789''"] by simp
  ultimately show ?thesis by blast
qed

text \<open>
  C26: where the class has integer digits (\<^verbatim>\<open>TOTAL\<close> is greater than \<^verbatim>\<open>FRACTION\<close>), every number is written
  within the buffer of \<^verbatim>\<open>TOTAL + 2\<close> bytes, and the text reads back as the same number: its sign (unless
  it is zero) and all its digits.  (\<open>no_integer_rank_text\<close> shows what happens without integer digits.)
\<close>

theorem decimal_text_roundtrip:
  assumes "ranks_ok R" "0 < INTEGER_RANK R" "decimal_ok R d"
  shows "\<exists>s. str R d = Inr s \<and> length s \<le> TOTAL R + 2 \<and>
    construct_text R s = Inr (if data d = 0 then d\<lparr>negative := False\<rparr> else d)"
proof (cases "data d = 0")
  case True
  let ?s = "if FRACTION R \<noteq> 0 then chars ''0.0'' else chars ''0''"
  have "decimal_to_char R d = Inr ?s"
    using True decimal_ok_valid [OF assms(1,3)] by (simp add: decimal_to_char_def)
  moreover have "length ?s \<le> TOTAL R + 2" using assms(1) by (simp add: ranks_ok_def)
  moreover have "\<not> (10 :: int) ^ INTEGER_RANK R \<le> 0" by (simp add: not_le)
  then have "read_text R ?s = Inr (d\<lparr>negative := False\<rparr>)"
    using True assms(2) by (auto simp: read_text_def read_unsigned_def digit_of_def Let_def)
  ultimately show ?thesis using True construct_text_ref [OF assms(1,2)] by (simp add: str_def)
next
  case False
  from decimal_text_fits [OF assms False] obtain s where
    "decimal_to_char R d = Inr s" "length s \<le> TOTAL R + 2" "read_text R s = Inr d" .
  with False show ?thesis using construct_text_ref [OF assms(1,2)] by (simp add: str_def)
qed

theorem decimal_text_roundtrip_witness:
  "\<exists>s. str \<lparr>TOTAL = 18, FRACTION = 8\<rparr> \<lparr>negative = True, data = 1250000000\<rparr> = Inr s \<and>
     construct_text \<lparr>TOTAL = 18, FRACTION = 8\<rparr> s = Inr \<lparr>negative = True, data = 1250000000\<rparr>"
  using decimal_text_roundtrip [of "\<lparr>TOTAL = 18, FRACTION = 8\<rparr>" "\<lparr>negative = True, data = 1250000000\<rparr>"]
  by (auto simp: ranks_ok_def INTEGER_RANK_def)

text \<open>
  \<^verbatim>\<open>integer / 10^power\<close> is constructed rounded towards zero in units of the last place, with
  \<open>Overflow\<close> precisely when that has more than \<^verbatim>\<open>TOTAL\<close> digits, for every integer type of at most 64
  bits and every integer but the least negative one, while the power leaves a digit; and the integer
  part converts back, with \<open>Overflow\<close> above the maximum of the type and \<open>Sign\<close> for a negative integer
  part in an unsigned type.
\<close>

lemma decimal_integer_conversions:
  assumes "ranks_ok R" "2 \<le> it_bits T" "it_bits T \<le> 64"
    "(if it_signed T then - it_max T else 0) \<le> v" "v \<le> it_max T" "pow < it_digits10 T + FRACTION R"
  shows "(let u = \<bar>v\<bar> * 10 ^ FRACTION R div 10 ^ pow
      in if u < 10 ^ TOTAL R
         then \<exists>d. construct_rational R T v pow = Inr d \<and> units d = (if v < 0 then - u else u)
         else construct_rational R T v pow = Inl Overflow) \<and>
    to_integer R T d =
      (let n = \<bar>units d\<bar> div 10 ^ FRACTION R
       in if it_max T < n then Inl Overflow
          else if negative d \<and> n \<noteq> 0 \<and> \<not> it_signed T then Inl Sign
          else Inr (if negative d then - n else n))"
proof (rule conjI [OF _ to_integer_units [OF assms(1-3)]])
  show "let u = \<bar>v\<bar> * 10 ^ FRACTION R div 10 ^ pow
      in if u < 10 ^ TOTAL R
         then \<exists>d. construct_rational R T v pow = Inr d \<and> units d = (if v < 0 then - u else u)
         else construct_rational R T v pow = Inl Overflow"
    unfolding Let_def scaled_def [symmetric] using construct_rational_units [OF assms]
    by (auto simp: units_def split: if_splits)
qed

lemma decimal_integer_conversions_example:
  "\<exists>d. construct_rational \<lparr>TOTAL = 18, FRACTION = 8\<rparr> \<lparr>it_signed = True, it_bits = 32\<rparr> (- 314159) 5 = Inr d \<and>
     units d = - 314159000"
proof -
  have dig: "it_digits10 \<lparr>it_signed = True, it_bits = 32\<rparr> = 9"
    by (simp add: it_digits10_def it_max_def digits_loop.simps)
  show ?thesis
    using decimal_integer_conversions [of "\<lparr>TOTAL = 18, FRACTION = 8\<rparr>" "\<lparr>it_signed = True, it_bits = 32\<rparr>"
      "- 314159" 5 "\<lparr>negative = False, data = 0\<rparr>"]
    by (simp add: ranks_ok_def it_max_def dig)
qed

section \<open>Boundary behaviour\<close>

text \<open>
  With one fraction digit the text \<^verbatim>\<open>5.\<close> is read as a half: the fraction is scaled only for
  \<^verbatim>\<open>FRACTION > 1\<close>.
\<close>

lemma trailing_point_one_digit:
  "construct_text \<lparr>TOTAL = 4, FRACTION = 1\<rparr> (chars ''5.'') = Inr \<lparr>negative = False, data = 5\<rparr>"
  "construct_text \<lparr>TOTAL = 4, FRACTION = 1\<rparr> (chars ''5'') = Inr \<lparr>negative = False, data = 50\<rparr>"
  by (simp_all add: construct_text_ref ranks_ok_def INTEGER_RANK_def read_text_def read_unsigned_def digit_of_def Let_def)

text \<open>
  The message of an overflow is printed within its buffers where there are integer digits; without them
  the message about two negative numbers is written in front of the buffer.
\<close>

lemma str_fits:
  assumes "ranks_ok R" "0 < INTEGER_RANK R" "decimal_ok R d"
  obtains s where "str R d = Inr s"
proof (cases "data d = 0")
  case True
  then have "str R d = Inr (if FRACTION R \<noteq> 0 then chars ''0.0'' else chars ''0'')"
    using decimal_ok_valid [OF assms(1,3)] assms(1) by (simp add: str_def decimal_to_char_def ranks_ok_def)
  then show ?thesis by (rule that)
next
  case False
  from decimal_text_fits [OF assms False] obtain s where "decimal_to_char R d = Inr s" "length s \<le> TOTAL R + 2" .
  then show ?thesis by (intro that [of s]) (simp add: str_def)
qed

lemma throw_overflow_text:
  assumes "ranks_ok R" "0 < INTEGER_RANK R" "decimal_ok R d1" "decimal_ok R d2"
  shows "throw_overflow R d1 d2 = Inl Overflow"
proof -
  obtain s1 s2 where "str R d1 = Inr s1" "str R d2 = Inr s2" using str_fits [OF assms(1,2)] assms(3,4) by metis
  then show ?thesis by (simp add: throw_overflow_def)
qed

lemma throw_overflow_no_integer:
  "add \<lparr>TOTAL = 2, FRACTION = 2\<rparr> \<lparr>negative = True, data = 99\<rparr> \<lparr>negative = True, data = 99\<rparr> = Inl Overflow"
  "throw_overflow \<lparr>TOTAL = 2, FRACTION = 2\<rparr> \<lparr>negative = True, data = 99\<rparr> \<lparr>negative = True, data = 99\<rparr> = Inl OutOfBounds"
  by (simp_all add: add_def MAX_VALUE_def throw_overflow_def str_def decimal_to_char_def INVALID_FLAG_def power_10_simps
      omit_zeros.simps write_fraction.simps write_integer.simps Let_def)

text \<open>
  With no integer digits the text that \<^verbatim>\<open>str\<close> writes is refused, and the text of a negative number
  with all its fraction digits does not fit into the buffer.
\<close>

lemma no_integer_rank_text:
  "str \<lparr>TOTAL = 2, FRACTION = 2\<rparr> \<lparr>negative = False, data = 50\<rparr> = Inr (chars ''0.5'')"
  "construct_text \<lparr>TOTAL = 2, FRACTION = 2\<rparr> (chars ''0.5'') = Inl Overflow"
  "str \<lparr>TOTAL = 2, FRACTION = 2\<rparr> \<lparr>negative = True, data = 25\<rparr> = Inl OutOfBounds"
  by (simp_all add: str_def decimal_to_char_def INVALID_FLAG_def power_10_simps omit_zeros.simps
      write_fraction.simps write_integer.simps construct_text_def extract_decimal_def extract_number_def
      char_digit_def failed_def Let_def)

text \<open>A text with no number is reported as \<open>Overflow\<close>, not as \<open>NotNumber\<close>.\<close>

lemma not_a_number_overflow:
  "construct_text R (chars ''abc'') = Inl Overflow" "construct_text R [] = Inl Overflow"
  by (simp_all add: construct_text_def extract_decimal_def extract_number_def char_digit_def failed_def Let_def)

text \<open>The difference of two equal negative numbers is minus zero, which \<^verbatim>\<open>is_nonnegative\<close> denies.\<close>

lemma minus_zero_sign:
  assumes "sub R d d = Inr z" "negative d"
  shows "is_zero z" "\<not> is_nonnegative z"
  using assms by (auto simp: sub_def is_zero_def is_nonnegative_def)

text \<open>An unsigned 64 bit integer of twenty digits divided by \<open>10^19\<close> is lost, although one unit remains.\<close>

lemma rational_twenty_digits:
  "construct_rational \<lparr>TOTAL = 18, FRACTION = 0\<rparr> uint64_type (10 ^ 19) 19 = Inr \<lparr>negative = False, data = 0\<rparr>"
  "scaled \<lparr>TOTAL = 18, FRACTION = 0\<rparr> (10 ^ 19) 19 = 1"
  by (simp_all add: construct_rational_def it_digits10_def uint64_type_def it_max_def digits_loop.simps scaled_def)

end
