(* ===== verification/Decimal_Number.thy ===== *)
theory Decimal_Number
  imports Common_Decimal
begin

text \<open>
  \<^verbatim>\<open>Generics::Decimal\<close> of \<^verbatim>\<open>src/src/Generics/Decimal.hpp\<close> and \<^verbatim>\<open>Decimal.tpp\<close>: a sign and an array of
  64 bit elements, least significant first, each with 18 decimal digits (\<^verbatim>\<open>Element\<close> is
  \<^verbatim>\<open>uint64_t\<close>, for which \<^verbatim>\<open>DIGITS_PER_ELEMENT\<close> is 18).  This theory has the operations, and shows
  comparison, addition, subtraction and multiplication; division and text are in
  \<open>Decimal_Division\<close> and \<open>Decimal_String\<close>.  \<^verbatim>\<open>DEV_ASSERT\<close> is empty in a release build, a failing
  \<^verbatim>\<open>assert\<close> is \<open>AssertionFailed\<close>, and the conversions from and to floating point and the dumps are not
  modelled.
\<close>

section \<open>Constants\<close>

definition DIGITS_PER_ELEMENT :: nat where
  "DIGITS_PER_ELEMENT = 18"

definition BASE :: uint64 where
  "BASE = Pow10 DIGITS_PER_ELEMENT"

definition MAX_SUM :: uint64 where
  "MAX_SUM = - 1 div BASE"

definition SIZE :: "ranks \<Rightarrow> nat" where
  "SIZE R = (TOTAL R + DIGITS_PER_ELEMENT - 1) div DIGITS_PER_ELEMENT"

definition INTEGER_MAX_OVER :: "ranks \<Rightarrow> uint64" where
  "INTEGER_MAX_OVER R = Pow10 (DIGITS_PER_ELEMENT - (SIZE R * DIGITS_PER_ELEMENT - TOTAL R))"

definition FRACTION_END :: "ranks \<Rightarrow> nat" where
  "FRACTION_END R = FRACTION R div DIGITS_PER_ELEMENT"

definition FRACTION_REMAINDER :: "ranks \<Rightarrow> uint64" where
  "FRACTION_REMAINDER R = Pow10 (FRACTION R mod DIGITS_PER_ELEMENT)"

definition FRACTION_OVER :: "ranks \<Rightarrow> uint64" where
  "FRACTION_OVER R = Pow10 (DIGITS_PER_ELEMENT - FRACTION R mod DIGITS_PER_ELEMENT)"

definition TMP_TOTAL_RANK :: "ranks \<Rightarrow> nat" where
  "TMP_TOTAL_RANK R = INTEGER_RANK R + 2 * FRACTION R"

definition TMP_SIZE :: "ranks \<Rightarrow> nat" where
  "TMP_SIZE R = TMP_TOTAL_RANK R div DIGITS_PER_ELEMENT +
     (if TMP_TOTAL_RANK R mod DIGITS_PER_ELEMENT \<noteq> 0 then 1 else 0)"

definition TMP_INTEGER_MAX_OVER :: "ranks \<Rightarrow> uint64" where
  "TMP_INTEGER_MAX_OVER R =
     Pow10 (DIGITS_PER_ELEMENT - (TMP_SIZE R * DIGITS_PER_ELEMENT - TMP_TOTAL_RANK R))"

definition DIV_TMP_SIZE :: "ranks \<Rightarrow> nat" where
  "DIV_TMP_SIZE R =
     (TMP_TOTAL_RANK R + DIGITS_PER_ELEMENT) div DIGITS_PER_ELEMENT +
     (if (TMP_TOTAL_RANK R + DIGITS_PER_ELEMENT) mod DIGITS_PER_ELEMENT \<noteq> 0 then 1 else 0)"

record Decimal =
  negative :: bool
  array :: "uint64 list"

section \<open>Operations\<close>

subsection \<open>Comparison, addition and subtraction\<close>

text \<open>The loop from the last element down; the result and \<^verbatim>\<open>diff_index\<close>.\<close>

fun less_loop :: "uint64 list \<Rightarrow> uint64 list \<Rightarrow> nat \<Rightarrow> bool \<times> nat" where
  "less_loop xs test i =
     (if xs ! i < test ! i then (True, i)
      else if xs ! i > test ! i then (False, i)
      else case i of 0 \<Rightarrow> (False, 0) | Suc j \<Rightarrow> less_loop xs test j)"

declare less_loop.simps [simp del]

definition is_less_than :: "ranks \<Rightarrow> Decimal \<Rightarrow> Decimal \<Rightarrow> bool \<times> nat" where
  "is_less_than R d test = less_loop (array d) (array test) (SIZE R - 1)"

fun add_loop :: "uint64 list \<Rightarrow> uint64 list \<Rightarrow> uint64 \<Rightarrow> uint64 list \<times> uint64" where
  "add_loop (x # xs) (y # ys) overflow =
     (let num = x + y + overflow;
          (elem, overflow) = (if num \<ge> BASE then (num - BASE, 1) else (num, 0));
          (rest, overflow) = add_loop xs ys overflow
      in (elem # rest, overflow))"
| "add_loop xs ys overflow = ([], overflow)"

text \<open>The target array and whether the result is too big.\<close>

definition internal_add :: "ranks \<Rightarrow> Decimal \<Rightarrow> Decimal \<Rightarrow> uint64 list \<times> bool" where
  "internal_add R summand1 summand2 =
     (let (target, overflow) = add_loop (array summand1) (array summand2) 0
      in (target, overflow \<noteq> 0 \<or> target ! (SIZE R - 1) \<ge> INTEGER_MAX_OVER R))"

fun sub_loop :: "uint64 list \<Rightarrow> uint64 list \<Rightarrow> uint64 \<Rightarrow> uint64 list \<times> uint64" where
  "sub_loop (x # xs) (y # ys) underflow =
     (let real_subtrahend = y + underflow;
          (elem, underflow) =
            (if x < real_subtrahend then (BASE - (real_subtrahend - x), 1) else (x - real_subtrahend, 0));
          (rest, underflow) = sub_loop xs ys underflow
      in (elem # rest, underflow))"
| "sub_loop xs ys underflow = ([], underflow)"

definition internal_sub :: "ranks \<Rightarrow> Decimal \<Rightarrow> Decimal \<Rightarrow> nat \<Rightarrow> uint64 list result" where
  "internal_sub R minuend subtrahend diff_index =
     (let (low, underflow) =
            sub_loop (take (diff_index + 1) (array minuend)) (take (diff_index + 1) (array subtrahend)) 0;
          target = low @ replicate (SIZE R - (diff_index + 1)) 0
      in if underflow \<noteq> 0 then Inl AssertionFailed else Inr target)"

definition is_zero :: "Decimal \<Rightarrow> bool" where
  "is_zero d \<longleftrightarrow> list_all (\<lambda>x. x = 0) (array d)"

definition is_nonnegative :: "Decimal \<Rightarrow> bool" where
  "is_nonnegative d \<longleftrightarrow> \<not> negative d"

definition is_nonpositive :: "Decimal \<Rightarrow> bool" where
  "is_nonpositive d \<longleftrightarrow> negative d"

definition decimal_equal :: "Decimal \<Rightarrow> Decimal \<Rightarrow> bool" where
  "decimal_equal d right \<longleftrightarrow>
     (if negative d = negative right then list_all2 (\<lambda>x y. x = y) (array d) (array right)
      else list_all2 (\<lambda>x y. x = 0 \<and> y = 0) (array d) (array right))"

definition decimal_lt :: "ranks \<Rightarrow> Decimal \<Rightarrow> Decimal \<Rightarrow> bool" where
  "decimal_lt R d test \<longleftrightarrow>
     (if negative d then
        if negative test then fst (is_less_than R test d) else \<not> is_zero d \<or> \<not> is_zero test
      else \<not> negative test \<and> fst (is_less_than R d test))"

definition decimal_not_equal :: "Decimal \<Rightarrow> Decimal \<Rightarrow> bool" where
  "decimal_not_equal d right \<longleftrightarrow> \<not> decimal_equal d right"

definition decimal_gt :: "ranks \<Rightarrow> Decimal \<Rightarrow> Decimal \<Rightarrow> bool" where
  "decimal_gt R d test \<longleftrightarrow> decimal_lt R test d"

definition decimal_not_lt :: "ranks \<Rightarrow> Decimal \<Rightarrow> Decimal \<Rightarrow> bool" where
  "decimal_not_lt R d test \<longleftrightarrow> \<not> decimal_lt R d test"

definition decimal_not_gt :: "ranks \<Rightarrow> Decimal \<Rightarrow> Decimal \<Rightarrow> bool" where
  "decimal_not_gt R d test \<longleftrightarrow> \<not> decimal_lt R test d"

definition sub_ordered :: "ranks \<Rightarrow> Decimal \<Rightarrow> Decimal \<Rightarrow> nat \<Rightarrow> bool \<Rightarrow> Decimal result" where
  "sub_ordered R minuend subtrahend diff_index neg =
     rmap (\<lambda>target. \<lparr>negative = neg, array = target\<rparr>) (internal_sub R minuend subtrahend diff_index)"

definition decimal_add :: "ranks \<Rightarrow> Decimal \<Rightarrow> Decimal \<Rightarrow> Decimal result" where
  "decimal_add R summand1 summand2 =
     (if negative summand1 = negative summand2 then
        let (target, exceeds) = internal_add R summand1 summand2
        in if exceeds then Inl Overflow else Inr \<lparr>negative = negative summand1, array = target\<rparr>
      else
        let (less, diff_index) = is_less_than R summand1 summand2
        in if less then sub_ordered R summand2 summand1 diff_index (negative summand2)
           else sub_ordered R summand1 summand2 diff_index (negative summand1))"

definition decimal_sub :: "ranks \<Rightarrow> Decimal \<Rightarrow> Decimal \<Rightarrow> Decimal result" where
  "decimal_sub R minuend subtrahend =
     (if negative minuend = negative subtrahend then
        let (less, diff_index) = is_less_than R minuend subtrahend
        in if less then sub_ordered R subtrahend minuend diff_index (\<not> negative subtrahend)
           else sub_ordered R minuend subtrahend diff_index (negative minuend)
      else
        let (target, exceeds) = internal_add R minuend subtrahend
        in if exceeds then Inl Overflow else Inr \<lparr>negative = negative minuend, array = target\<rparr>)"

text \<open>
  \<^verbatim>\<open>operator +=\<close>: the target is the object itself, whose array the sum has already overwritten when
  \<open>Overflow\<close> is thrown.
\<close>

definition decimal_plus_assign :: "ranks \<Rightarrow> Decimal \<Rightarrow> Decimal \<Rightarrow> Decimal \<times> unit result" where
  "decimal_plus_assign R this summand =
     (case decimal_add R this summand of
        Inr target \<Rightarrow> (target, Inr ())
      | Inl e \<Rightarrow> (if negative this = negative summand
                  then this\<lparr>array := fst (internal_add R this summand)\<rparr> else this, Inl e))"

definition decimal_minus_assign :: "ranks \<Rightarrow> Decimal \<Rightarrow> Decimal \<Rightarrow> Decimal \<times> unit result" where
  "decimal_minus_assign R this subtrahend =
     (case decimal_sub R this subtrahend of
        Inr target \<Rightarrow> (target, Inr ())
      | Inl e \<Rightarrow> (if negative this \<noteq> negative subtrahend
                  then this\<lparr>array := fst (internal_add R this subtrahend)\<rparr> else this, Inl e))"

subsection \<open>Multiplication\<close>

text \<open>
  The minor and the major part of a product, and quotient and remainder.  A fault of \<^verbatim>\<open>divq\<close> would
  be \<open>None\<close>; it does not happen on elements below the base.
\<close>

definition mul_elements :: "uint64 \<Rightarrow> uint64 \<Rightarrow> (uint64 \<times> uint64) option" where
  "mul_elements multiplier factor = map_option (\<lambda>(h, l). (l, h)) (mul_elem False multiplier factor BASE)"

definition div_elements :: "uint64 \<Rightarrow> uint64 \<Rightarrow> uint64 \<Rightarrow> (uint64 \<times> uint64) option" where
  "div_elements major minor divisor = div_elem False major minor BASE divisor"

text \<open>\<^verbatim>\<open>MulTmpArray::add\<close>: the loop that carries from element \<open>i\<close> on.\<close>

function carry_loop :: "ranks \<Rightarrow> uint64 list \<Rightarrow> nat \<Rightarrow> uint64 \<Rightarrow> bool \<times> uint64 list" where
  "carry_loop R tmp i overflow =
     (if i < TMP_SIZE R then
        let x = tmp ! i + overflow
        in if x < BASE then
             if i \<noteq> TMP_SIZE R - 1 then (False, tmp[i := x])
             else (tmp[i := x] ! (TMP_SIZE R - 1) \<ge> TMP_INTEGER_MAX_OVER R, tmp[i := x])
           else carry_loop R (tmp[i := x - BASE]) (i + 1) 1
      else (overflow \<noteq> 0 \<or> tmp ! (TMP_SIZE R - 1) \<ge> TMP_INTEGER_MAX_OVER R, tmp))"
  by pat_completeness auto
termination by (relation "measure (\<lambda>(R, tmp, i, overflow). TMP_SIZE R - i)") auto

declare carry_loop.simps [simp del]

definition tmp_add :: "ranks \<Rightarrow> uint64 \<Rightarrow> nat \<Rightarrow> uint64 list \<Rightarrow> (bool \<times> uint64 list) result" where
  "tmp_add R val index tmp =
     (if index \<ge> TMP_SIZE R then Inr (True, tmp)
      else if MAX_SUM > 2 \<or> - 1 - val \<ge> tmp ! index then
        let x = tmp ! index + val
        in if x \<ge> BASE then Inr (carry_loop R (tmp[index := x mod BASE]) (index + 1) (x div BASE))
           else Inr (carry_loop R (tmp[index := x]) (index + 1) 0)
      else if \<not> val > BASE then Inl AssertionFailed
      else
        let overflow = val div BASE; x = tmp ! index + val mod BASE
        in if x \<ge> BASE then Inr (carry_loop R (tmp[index := x - BASE]) (index + 1) (overflow + 1))
           else Inr (carry_loop R (tmp[index := x]) (index + 1) overflow))"

definition tmp_round :: "ranks \<Rightarrow> uint64 list \<Rightarrow> (bool \<times> uint64 list) result" where
  "tmp_round R tmp =
     (if (if FRACTION_REMAINDER R = 1 then tmp ! (FRACTION_END R - 1) \<ge> BASE div 2
          else tmp ! FRACTION_END R mod FRACTION_REMAINDER R \<ge> FRACTION_REMAINDER R div 2)
      then tmp_add R (FRACTION_REMAINDER R) (FRACTION_END R) tmp
      else Inr (False, tmp))"

definition tmp_ceil :: "ranks \<Rightarrow> uint64 list \<Rightarrow> (bool \<times> uint64 list) result" where
  "tmp_ceil R tmp =
     (if (if FRACTION_REMAINDER R = 1 then tmp ! (FRACTION_END R - 1) \<noteq> 0
          else tmp ! FRACTION_END R mod FRACTION_REMAINDER R \<noteq> 0)
      then tmp_add R (FRACTION_REMAINDER R) (FRACTION_END R) tmp
      else Inr (False, tmp))"

text \<open>The loop of \<^verbatim>\<open>export_to\<close> over the elements left in the temporary array, for \<open>n\<close> more elements.\<close>

fun export_loop :: "ranks \<Rightarrow> nat \<Rightarrow> uint64 \<Rightarrow> uint64 list \<Rightarrow> uint64 list" where
  "export_loop R 0 last_part xs = []"
| "export_loop R (Suc n) last_part [] = [last_part]"
| "export_loop R (Suc n) last_part (x # xs) =
     (last_part + x mod FRACTION_REMAINDER R * FRACTION_OVER R) #
       export_loop R n (x div FRACTION_REMAINDER R) xs"

definition tmp_export :: "ranks \<Rightarrow> uint64 list \<Rightarrow> uint64 list" where
  "tmp_export R tmp =
     (if FRACTION_REMAINDER R = 1 then take (SIZE R) (drop (FRACTION_END R) tmp)
      else export_loop R (SIZE R) (tmp ! FRACTION_END R div FRACTION_REMAINDER R)
             (drop (FRACTION_END R + 1) tmp))"

text \<open>
  The inner loop over the elements of the first factor, at position \<open>pos = i + j\<close>, and the outer
  loop over those of the second; the result tells whether the product exceeds the array.
\<close>

fun mul_row :: "ranks \<Rightarrow> uint64 list \<Rightarrow> uint64 \<Rightarrow> nat \<Rightarrow> uint64 \<Rightarrow> uint64 list \<Rightarrow> (bool \<times> uint64 list) result" where
  "mul_row R [] y pos overflow tmp =
     (if overflow \<noteq> 0 then tmp_add R overflow pos tmp else Inr (False, tmp))"
| "mul_row R (x # xs) y pos overflow tmp =
     (if x \<noteq> 0 then
        case mul_elements x y of
          None \<Rightarrow> Inl OutOfBounds
        | Some (res, over) \<Rightarrow>
            rbind (tmp_add R (res + overflow) pos tmp) (\<lambda>(exceeds, tmp).
              if exceeds then Inr (True, tmp) else mul_row R xs y (pos + 1) over tmp)
      else if overflow \<noteq> 0 then
        rbind (tmp_add R overflow pos tmp) (\<lambda>(exceeds, tmp).
          if exceeds then Inr (True, tmp) else mul_row R xs y (pos + 1) 0 tmp)
      else mul_row R xs y (pos + 1) 0 tmp)"

fun mul_rows :: "ranks \<Rightarrow> uint64 list \<Rightarrow> uint64 list \<Rightarrow> nat \<Rightarrow> uint64 list \<Rightarrow> (bool \<times> uint64 list) result" where
  "mul_rows R xs [] i tmp = Inr (False, tmp)"
| "mul_rows R xs (y # ys) i tmp =
     (if y = 0 then mul_rows R xs ys (i + 1) tmp
      else rbind (mul_row R xs y i 0 tmp) (\<lambda>(exceeds, tmp).
        if exceeds then Inr (True, tmp) else mul_rows R xs ys (i + 1) tmp))"

definition decimal_mul :: "ranks \<Rightarrow> Decimal \<Rightarrow> Decimal \<Rightarrow> DecimalMulRemainder \<Rightarrow> Decimal result" where
  "decimal_mul R factor1 factor2 dmr =
     rbind (mul_rows R (array factor1) (array factor2) 0 (replicate (TMP_SIZE R) 0)) (\<lambda>(exceeds, tmp).
       if exceeds then Inl Overflow
       else rbind (if FRACTION R \<noteq> 0 \<and> dmr \<noteq> DMR_FLOOR
                   then if dmr = DMR_ROUND then tmp_round R tmp else tmp_ceil R tmp
                   else Inr (False, tmp)) (\<lambda>(exceeds, tmp).
         if exceeds then Inl Overflow
         else Inr \<lparr>negative = negative factor1 \<noteq> negative factor2, array = tmp_export R tmp\<rparr>))"

section \<open>Arrays of elements\<close>

definition NB :: nat where
  "NB = 10 ^ 18"

lemma unat_BASE: "unat BASE = NB"
  by (simp add: BASE_def DIGITS_PER_ELEMENT_def Pow10_power NB_def)

lemma NB_pos [simp]: "0 < NB" "NB \<noteq> 0" "Suc 0 < NB" "1 < NB"
  by (simp_all add: NB_def)

lemma NB_bound: "18 * NB < 2 ^ 64" "even NB"
  by (simp_all add: NB_def)

primrec value_of :: "uint64 list \<Rightarrow> nat" where
  "value_of [] = 0"
| "value_of (x # xs) = unat x + NB * value_of xs"

definition elems_ok :: "uint64 list \<Rightarrow> bool" where
  "elems_ok xs \<longleftrightarrow> (\<forall>x\<in>set xs. unat x < NB)"

lemma elems_ok_simps [simp]:
  "elems_ok []" "elems_ok (x # xs) \<longleftrightarrow> unat x < NB \<and> elems_ok xs"
  "elems_ok (xs @ ys) \<longleftrightarrow> elems_ok xs \<and> elems_ok ys" "elems_ok (replicate n 0)"
  by (auto simp: elems_ok_def)

lemma elems_ok_nth: "elems_ok xs \<Longrightarrow> i < length xs \<Longrightarrow> unat (xs ! i) < NB"
  by (simp add: elems_ok_def)

lemma elems_ok_update: "elems_ok xs \<Longrightarrow> unat x < NB \<Longrightarrow> elems_ok (xs[i := x])"
  unfolding elems_ok_def using set_update_subset_insert [of xs i x] by fast

lemma elems_ok_take_drop: "elems_ok xs \<Longrightarrow> elems_ok (take n xs)" "elems_ok xs \<Longrightarrow> elems_ok (drop n xs)"
  unfolding elems_ok_def by (auto dest: in_set_takeD in_set_dropD)

lemma value_of_append: "value_of (xs @ ys) = value_of xs + NB ^ length xs * value_of ys"
  by (induction xs) (simp_all add: algebra_simps)

lemma value_of_replicate [simp]: "value_of (replicate n 0) = 0"
  by (induction n) simp_all

lemma value_of_take_drop: "value_of xs = value_of (take n xs) + NB ^ min (length xs) n * value_of (drop n xs)"
  using value_of_append [of "take n xs" "drop n xs"] by simp

lemma add_mult_less: "a < m \<Longrightarrow> b < c \<Longrightarrow> a + m * b < m * (c :: nat)"
proof -
  assume "a < m" "b < c"
  then have "m * (b + 1) \<le> m * c" by (intro mult_le_mono2) simp
  with \<open>a < m\<close> show ?thesis by simp
qed

lemma value_of_less: "elems_ok xs \<Longrightarrow> value_of xs < NB ^ length xs"
  by (induction xs) (simp_all add: add_mult_less)

lemma value_of_inject:
  assumes "length xs = length ys" "elems_ok xs" "elems_ok ys"
  shows "value_of xs = value_of ys \<longleftrightarrow> xs = ys"
  using assms
proof (induction xs ys rule: list_induct2)
  case (Cons x xs y ys)
  show ?case
  proof
    assume eq: "value_of (x # xs) = value_of (y # ys)"
    have "unat x = unat y" using arg_cong [OF eq, of "\<lambda>v. v mod NB"] Cons.prems by simp
    moreover have "value_of xs = value_of ys" using arg_cong [OF eq, of "\<lambda>v. v div NB"] Cons.prems by simp
    ultimately show "x # xs = y # ys" using Cons by (simp add: word_unat_eq_iff)
  qed simp
qed simp

lemma value_of_zero_iff: "value_of xs = 0 \<longleftrightarrow> list_all (\<lambda>x. x = 0) xs"
  by (induction xs) (simp_all add: unat_eq_zero)

lemma value_of_update:
  "i < length xs \<Longrightarrow> value_of (xs[i := x]) + NB ^ i * unat (xs ! i) = value_of xs + NB ^ i * unat x"
proof (induction xs arbitrary: i)
  case (Cons y xs)
  show ?case
  proof (cases i)
    case (Suc j)
    with Cons have "value_of (xs[j := x]) + NB ^ j * unat (xs ! j) = value_of xs + NB ^ j * unat x" by simp
    then have "NB * (value_of (xs[j := x]) + NB ^ j * unat (xs ! j)) = NB * (value_of xs + NB ^ j * unat x)" by simp
    then show ?thesis by (simp add: Suc algebra_simps)
  qed simp
qed simp

text \<open>The last element decides whether a number is below a multiple of its weight.\<close>

lemma value_of_top:
  assumes "elems_ok xs" "length xs = Suc n"
  shows "value_of xs < NB ^ n * k \<longleftrightarrow> unat (xs ! n) < k"
proof -
  have split: "value_of xs = value_of (take n xs) + NB ^ n * unat (xs ! n)"
    using value_of_take_drop [of xs n] assms(2) by (simp add: Cons_nth_drop_Suc [symmetric] min_def)
  have "value_of (take n xs) < NB ^ n"
    using value_of_less [OF elems_ok_take_drop(1) [OF assms(1)], of n] assms(2) by (simp add: min_def)
  then show ?thesis
    unfolding split
  proof (intro iffI)
    assume "value_of (take n xs) + NB ^ n * unat (xs ! n) < NB ^ n * k"
    then have "NB ^ n * unat (xs ! n) < NB ^ n * k" by linarith
    then show "unat (xs ! n) < k" by simp
  qed (rule add_mult_less)
qed

lemma size_split:
  assumes "0 < n" "S = (n + 17) div 18"
  shows "0 < S" "10 ^ n = NB ^ (S - 1) * 10 ^ (18 - (S * 18 - n))" "18 - (S * 18 - n) \<le> 18" "n \<le> S * 18" "(S - 1) * 18 < n"
proof -
  have b: "n \<le> S * 18" "S * 18 < n + 18" using assms(2) by linarith+
  with assms(1) show "0 < S" "n \<le> S * 18" "(S - 1) * 18 < n" by auto
  then have "n = 18 * (S - 1) + (18 - (S * 18 - n))" using b by (cases S) auto
  then show "10 ^ n = NB ^ (S - 1) * 10 ^ (18 - (S * 18 - n))"
    unfolding NB_def power_mult [symmetric] power_add [symmetric] by simp
qed simp

section \<open>Numbers\<close>

text \<open>The static assertions on the ranks; \<open>FRACTION_END < SIZE\<close> fails only for ranks with no integer
  digits and whole elements of fraction digits.\<close>

definition dranks_ok :: "ranks \<Rightarrow> bool" where
  "dranks_ok R \<longleftrightarrow> 0 < TOTAL R \<and> FRACTION R \<le> TOTAL R"

definition magnitude :: "Decimal \<Rightarrow> nat" where
  "magnitude d = value_of (array d)"

definition number_units :: "Decimal \<Rightarrow> int" where
  "number_units d = (if negative d then - int (magnitude d) else int (magnitude d))"

definition number_ok :: "ranks \<Rightarrow> Decimal \<Rightarrow> bool" where
  "number_ok R d \<longleftrightarrow> length (array d) = SIZE R \<and> elems_ok (array d) \<and> magnitude d < 10 ^ TOTAL R"

lemma magnitude_simps [simp]: "magnitude \<lparr>negative = n, array = xs\<rparr> = value_of xs"
  by (simp add: magnitude_def)

lemma SIZE_split:
  assumes "dranks_ok R"
  shows "0 < SIZE R" "10 ^ TOTAL R = NB ^ (SIZE R - 1) * unat (INTEGER_MAX_OVER R)"
    "TOTAL R \<le> SIZE R * 18" "(SIZE R - 1) * 18 < TOTAL R"
proof -
  have "SIZE R = (TOTAL R + 17) div 18" by (simp add: SIZE_def DIGITS_PER_ELEMENT_def)
  from size_split [OF _ this] assms show "0 < SIZE R" "TOTAL R \<le> SIZE R * 18" "(SIZE R - 1) * 18 < TOTAL R"
    "10 ^ TOTAL R = NB ^ (SIZE R - 1) * unat (INTEGER_MAX_OVER R)"
    by (simp_all add: dranks_ok_def INTEGER_MAX_OVER_def DIGITS_PER_ELEMENT_def Pow10_power)
qed

lemma number_limit:
  assumes "dranks_ok R" "length xs = SIZE R" "elems_ok xs"
  shows "INTEGER_MAX_OVER R \<le> xs ! (SIZE R - 1) \<longleftrightarrow> 10 ^ TOTAL R \<le> value_of xs"
proof -
  have "length xs = Suc (SIZE R - 1)" using SIZE_split(1) [OF assms(1)] assms(2) by simp
  from value_of_top [OF assms(3) this, of "unat (INTEGER_MAX_OVER R)"] show ?thesis
    unfolding SIZE_split(2) [OF assms(1)] word_le_nat_alt by (simp only: not_less [symmetric])
qed

lemma value_of_size: "10 ^ TOTAL R \<le> NB ^ SIZE R"
proof -
  have "TOTAL R \<le> 18 * SIZE R" unfolding SIZE_def DIGITS_PER_ELEMENT_def by simp
  then have "(10 :: nat) ^ TOTAL R \<le> 10 ^ (18 * SIZE R)" by (intro power_increasing) simp_all
  then show ?thesis by (simp add: NB_def power_mult)
qed

subsection \<open>Comparison\<close>

lemma value_of_take_Suc:
  "i < length xs \<Longrightarrow> value_of (take (Suc i) xs) = value_of (take i xs) + NB ^ i * unat (xs ! i)"
  by (simp add: take_Suc_conv_app_nth value_of_append min_def)

lemma value_of_take_less: "elems_ok xs \<Longrightarrow> i \<le> length xs \<Longrightarrow> value_of (take i xs) < NB ^ i"
  using value_of_less [OF elems_ok_take_drop(1), of xs i] by (simp add: min_absorb2)

lemma less_loop_correct:
  assumes "elems_ok xs" "elems_ok ys" "i < length xs" "i < length ys"
  shows "(fst (less_loop xs ys i) \<longleftrightarrow> value_of (take (Suc i) xs) < value_of (take (Suc i) ys)) \<and>
    snd (less_loop xs ys i) \<le> i \<and> (\<forall>j. snd (less_loop xs ys i) < j \<and> j \<le> i \<longrightarrow> xs ! j = ys ! j)"
  using assms(3,4)
proof (induction i)
  case 0
  then have "value_of (take (Suc 0) xs) = unat (xs ! 0)" "value_of (take (Suc 0) ys) = unat (ys ! 0)"
    by (simp_all add: value_of_take_Suc)
  then show ?case by (auto simp: less_loop.simps word_less_nat_alt)
next
  case (Suc i)
  let ?x = "xs ! Suc i" and ?y = "ys ! Suc i" and ?X = "value_of (take (Suc i) xs)" and ?Y = "value_of (take (Suc i) ys)"
  note v = value_of_take_Suc [OF Suc.prems(1)] value_of_take_Suc [OF Suc.prems(2)]
  have b: "?X < NB ^ Suc i" "?Y < NB ^ Suc i"
    using value_of_take_less [OF assms(1), of "Suc i"] value_of_take_less [OF assms(2), of "Suc i"] Suc.prems
    by simp_all
  have lt: "a < NB ^ Suc i \<Longrightarrow> u < w \<Longrightarrow> a + NB ^ Suc i * u < c + NB ^ Suc i * w" for a c u w
    using add_mult_less [of a "NB ^ Suc i" u w] by linarith
  consider "?x < ?y" | "?y < ?x" | "?x = ?y" by (meson linorder_neqE)
  then show ?case
  proof cases
    case 1
    with lt [OF b(1), of "unat ?x" "unat ?y" ?Y] show ?thesis
      unfolding v by (auto simp: less_loop.simps [of xs ys "Suc i"] word_less_nat_alt)
  next
    case 2
    with lt [OF b(2), of "unat ?y" "unat ?x" ?X] show ?thesis
      unfolding v by (auto simp: less_loop.simps [of xs ys "Suc i"] word_less_nat_alt)
  next
    case 3
    with Suc show ?thesis unfolding v by (auto simp: less_loop.simps [of xs ys "Suc i"] le_Suc_eq)
  qed
qed

lemma is_less_than_correct:
  assumes "dranks_ok R" "number_ok R a" "number_ok R b" "is_less_than R a b = (l, k)"
  shows "l \<longleftrightarrow> magnitude a < magnitude b" "k < SIZE R" "drop (Suc k) (array a) = drop (Suc k) (array b)"
proof -
  have len: "length (array a) = SIZE R" "length (array b) = SIZE R" "elems_ok (array a)" "elems_ok (array b)"
    using assms(2,3) by (simp_all add: number_ok_def)
  have pos: "SIZE R - 1 < SIZE R" "Suc (SIZE R - 1) = SIZE R" using SIZE_split(1) [OF assms(1)] by simp_all
  note c = less_loop_correct [OF len(3,4), of "SIZE R - 1", unfolded len(1,2), OF pos(1) pos(1), folded is_less_than_def]
  show "l \<longleftrightarrow> magnitude a < magnitude b"
    using c assms(4) by (simp add: pos len magnitude_def)
  show k: "k < SIZE R" using c assms(4) pos by simp
  show "drop (Suc k) (array a) = drop (Suc k) (array b)"
  proof (rule nth_equalityI)
    fix j assume "j < length (drop (Suc k) (array a))"
    then show "drop (Suc k) (array a) ! j = drop (Suc k) (array b) ! j"
      using c assms(4) len by simp
  qed (simp add: len)
qed

subsection \<open>Addition\<close>

lemma add_loop_correct:
  assumes "length xs = length ys" "elems_ok xs" "elems_ok ys" "unat ov \<le> 1" "add_loop xs ys ov = (zs, c)"
  shows "length zs = length xs \<and> elems_ok zs \<and> unat c \<le> 1 \<and>
    value_of zs + NB ^ length xs * unat c = value_of xs + value_of ys + unat ov"
  using assms
proof (induction xs ys arbitrary: ov zs c rule: list_induct2)
  case (Cons x xs y ys)
  define num where "num = x + y + ov"
  define el where "el = (if num \<ge> BASE then num - BASE else num)"
  define o' :: uint64 where "o' = (if num \<ge> BASE then 1 else 0)"
  obtain rest where rest: "add_loop xs ys o' = (rest, c)" and zs: "zs = el # rest"
    using Cons.prems(4) by (auto simp: Let_def el_def o'_def num_def split: prod.splits if_splits)
  have xy: "unat x < NB" "unat y < NB" "elems_ok xs" "elems_ok ys" using Cons.prems by simp_all
  have "unat num = unat x + unat y + unat ov"
    unfolding num_def using xy Cons.prems(3) NB_bound by (subst unat_add_64; (subst unat_add_64)?) simp_all
  then have el: "unat el + NB * unat o' = unat x + unat y + unat ov" "unat el < NB" "unat o' \<le> 1"
    using xy Cons.prems(3) by (auto simp: el_def o'_def word_le_nat_alt unat_BASE unat_sub)
  from Cons.IH [OF xy(3,4) el(3) rest] have IH: "length rest = length xs" "elems_ok rest" "unat c \<le> 1"
    "value_of rest + NB ^ length xs * unat c = value_of xs + value_of ys + unat o'" by simp_all
  from IH(4) have "NB * (value_of rest + NB ^ length xs * unat c) = NB * (value_of xs + value_of ys + unat o')"
    by simp
  with el(1) have "value_of zs + NB ^ length (x # xs) * unat c = value_of (x # xs) + value_of (y # ys) + unat ov"
    by (simp add: zs algebra_simps)
  with IH el(2) show ?case by (simp add: zs)
qed simp

lemma internal_add_correct:
  assumes "dranks_ok R" "number_ok R a" "number_ok R b" "internal_add R a b = (zs, over)"
  shows "over \<longleftrightarrow> 10 ^ TOTAL R \<le> magnitude a + magnitude b"
    "\<not> over \<Longrightarrow> length zs = SIZE R \<and> elems_ok zs \<and> value_of zs = magnitude a + magnitude b"
proof -
  have len: "length (array a) = SIZE R" "length (array b) = SIZE R" "elems_ok (array a)" "elems_ok (array b)"
    using assms(2,3) by (simp_all add: number_ok_def)
  obtain c where c: "add_loop (array a) (array b) 0 = (zs, c)"
    and ex: "over \<longleftrightarrow> c \<noteq> 0 \<or> zs ! (SIZE R - 1) \<ge> INTEGER_MAX_OVER R"
    using assms(4) by (auto simp: internal_add_def split: prod.splits)
  from add_loop_correct [OF _ len(3,4) _ c] len have zs: "length zs = SIZE R" "elems_ok zs"
    "value_of zs + NB ^ SIZE R * unat c = magnitude a + magnitude b" by (simp_all add: magnitude_def)
  have "over \<longleftrightarrow> c \<noteq> 0 \<or> 10 ^ TOTAL R \<le> value_of zs" using ex number_limit [OF assms(1) zs(1,2)] by simp
  also have "\<dots> \<longleftrightarrow> 10 ^ TOTAL R \<le> magnitude a + magnitude b"
  proof (cases "c = 0")
    case False
    then have "NB ^ SIZE R * 1 \<le> NB ^ SIZE R * unat c" by (intro mult_le_mono2) (simp add: Suc_le_eq unat_gt_0)
    with value_of_size [of R] zs(3) have "10 ^ TOTAL R \<le> magnitude a + magnitude b" by linarith
    with False show ?thesis by simp
  qed (use zs(3) in simp)
  finally show ex': "over \<longleftrightarrow> 10 ^ TOTAL R \<le> magnitude a + magnitude b" .
  assume "\<not> over"
  with ex zs show "length zs = SIZE R \<and> elems_ok zs \<and> value_of zs = magnitude a + magnitude b" by simp
qed

subsection \<open>Subtraction\<close>

lemma sub_loop_correct:
  assumes "length xs = length ys" "elems_ok xs" "elems_ok ys" "unat u \<le> 1" "sub_loop xs ys u = (zs, c)"
  shows "length zs = length xs \<and> elems_ok zs \<and> unat c \<le> 1 \<and>
    value_of zs + value_of ys + unat u = value_of xs + NB ^ length xs * unat c"
  using assms
proof (induction xs ys arbitrary: u zs c rule: list_induct2)
  case (Cons x xs y ys)
  define rs where "rs = y + u"
  define el where "el = (if x < rs then BASE - (rs - x) else x - rs)"
  define u' :: uint64 where "u' = (if x < rs then 1 else 0)"
  obtain rest where rest: "sub_loop xs ys u' = (rest, c)" and zs: "zs = el # rest"
    using Cons.prems(4) by (auto simp: Let_def el_def u'_def rs_def split: prod.splits if_splits)
  have xy: "unat x < NB" "unat y < NB" "elems_ok xs" "elems_ok ys" using Cons.prems by simp_all
  have rs: "unat rs = unat y + unat u"
    unfolding rs_def using xy Cons.prems(3) NB_bound by (subst unat_add_64) simp_all
  have el: "unat el + unat y + unat u = unat x + NB * unat u'" "unat el < NB" "unat u' \<le> 1"
  proof -
    have "unat el + unat rs = unat x + NB * unat u' \<and> unat el < NB"
    proof (cases "x < rs")
      case True
      then have d: "unat (rs - x) = unat rs - unat x" by (simp add: unat_sub word_less_nat_alt word_le_nat_alt)
      moreover have "rs - x \<le> BASE"
        unfolding word_le_nat_alt d unat_BASE using rs xy Cons.prems(3) by simp
      ultimately have "unat el = NB - (unat rs - unat x)" using True by (simp add: el_def unat_sub unat_BASE)
      moreover have "unat x < unat rs" "unat rs - unat x \<le> NB"
        using True rs xy Cons.prems(3) by (simp_all add: word_less_nat_alt)
      ultimately show ?thesis using True by (simp add: u'_def)
    next
      case False
      then have "el = x - rs" unfolding el_def by (rule if_not_P)
      moreover have "rs \<le> x" using False by simp
      ultimately have "unat el = unat x - unat rs" by (simp add: unat_sub)
      moreover have "unat rs \<le> unat x" using False by (simp add: word_less_nat_alt)
      ultimately have "unat el = unat x - unat rs" "unat rs \<le> unat x" by simp_all
      with False xy show ?thesis by (simp add: u'_def)
    qed
    with rs show "unat el + unat y + unat u = unat x + NB * unat u'" "unat el < NB" by simp_all
    show "unat u' \<le> 1" by (simp add: u'_def)
  qed
  from Cons.IH [OF xy(3,4) el(3) rest] have IH: "length rest = length xs" "elems_ok rest" "unat c \<le> 1"
    "value_of rest + value_of ys + unat u' = value_of xs + NB ^ length xs * unat c" by simp_all
  from IH(4) have "NB * (value_of rest + value_of ys + unat u') = NB * (value_of xs + NB ^ length xs * unat c)"
    by simp
  with el(1) have "value_of zs + value_of (y # ys) + unat u = value_of (x # xs) + NB ^ length (x # xs) * unat c"
    by (simp add: zs algebra_simps)
  with IH el(2) show ?case by (simp add: zs)
qed simp

text \<open>Subtraction of the smaller number from the greater one up to the element where they differ first.\<close>

lemma internal_sub_correct:
  assumes "number_ok R a" "number_ok R b" "magnitude b \<le> magnitude a"
    "k < SIZE R" "drop (Suc k) (array a) = drop (Suc k) (array b)"
  shows "\<exists>zs. internal_sub R a b k = Inr zs \<and> length zs = SIZE R \<and> elems_ok zs \<and>
    value_of zs = magnitude a - magnitude b"
proof -
  let ?xs = "take (Suc k) (array a)" and ?ys = "take (Suc k) (array b)"
  have len: "length (array a) = SIZE R" "length (array b) = SIZE R" "elems_ok (array a)" "elems_ok (array b)"
    using assms(1,2) by (simp_all add: number_ok_def)
  have l: "length ?xs = Suc k" "length ?ys = Suc k" using len assms(4) by simp_all
  obtain zs c where z: "sub_loop ?xs ?ys 0 = (zs, c)" by fastforce
  note s = sub_loop_correct [OF _ elems_ok_take_drop(1) [OF len(3)] elems_ok_take_drop(1) [OF len(4)] _ z]
  have s: "length zs = Suc k" "elems_ok zs" "value_of zs + value_of ?ys = value_of ?xs + NB ^ Suc k * unat c"
    using s l by simp_all
  have diff: "value_of ?ys \<le> value_of ?xs" "magnitude a - magnitude b = value_of ?xs - value_of ?ys"
    using assms(3,5) value_of_take_drop [of "array a" "Suc k"] value_of_take_drop [of "array b" "Suc k"] len
    by (simp_all add: magnitude_def)
  have "c = 0"
  proof (rule ccontr)
    assume "c \<noteq> 0"
    then have "NB ^ Suc k * 1 \<le> NB ^ Suc k * unat c" by (intro mult_le_mono2) (simp add: Suc_le_eq unat_gt_0)
    with s(3) diff(1) value_of_less [OF s(2), unfolded s(1)] show False by linarith
  qed
  with s diff have "internal_sub R a b k = Inr (zs @ replicate (SIZE R - Suc k) 0)" "value_of zs = value_of ?xs - value_of ?ys"
    by (simp_all add: internal_sub_def z)
  with s diff assms(4) show ?thesis by (simp add: value_of_append)
qed

lemma number_units_parts:
  "number_units \<lparr>negative = n, array = xs\<rparr> = (if n then - int (value_of xs) else int (value_of xs))"
  "\<bar>number_units d\<bar> = int (magnitude d)"
  by (simp_all add: number_units_def)

lemma sub_ordered_correct:
  assumes "dranks_ok R" "number_ok R a" "number_ok R b" "magnitude b \<le> magnitude a"
    "k < SIZE R" "drop (Suc k) (array a) = drop (Suc k) (array b)"
  shows "\<exists>c. sub_ordered R a b k neg = Inr c \<and> number_ok R c \<and>
    number_units c = (if neg then int (magnitude b) - int (magnitude a) else int (magnitude a) - int (magnitude b))"
proof -
  from internal_sub_correct [OF assms(2-6)] obtain zs where zs: "internal_sub R a b k = Inr zs" "length zs = SIZE R"
    "elems_ok zs" "value_of zs = magnitude a - magnitude b" by blast
  have "value_of zs < 10 ^ TOTAL R" using zs(4) assms(2) unfolding number_ok_def by linarith
  with zs assms(4) show ?thesis by (simp add: sub_ordered_def number_ok_def number_units_parts of_nat_diff)
qed

text \<open>Addition of numbers as the code has it for equal and for different signs.\<close>

lemma decimal_add_same:
  assumes "dranks_ok R" "number_ok R a" "number_ok R b"
  shows "case internal_add R a b of (zs, over) \<Rightarrow>
    if over then 10 ^ TOTAL R \<le> int (magnitude a + magnitude b)
    else number_ok R \<lparr>negative = neg, array = zs\<rparr> \<and>
      number_units \<lparr>negative = neg, array = zs\<rparr> =
        (if neg then - int (magnitude a + magnitude b) else int (magnitude a + magnitude b))"
proof -
  obtain zs over where r: "internal_add R a b = (zs, over)" by fastforce
  note c = internal_add_correct [OF assms r]
  have "10 ^ TOTAL R \<le> magnitude a + magnitude b \<longleftrightarrow> 10 ^ TOTAL R \<le> int (magnitude a + magnitude b)"
    by (metis of_nat_le_iff of_nat_numeral of_nat_power)
  with c show ?thesis by (auto simp: r number_ok_def number_units_parts)
qed

lemma decimal_add_differ:
  assumes "dranks_ok R" "number_ok R a" "number_ok R b"
  shows "\<exists>c. (case is_less_than R a b of (l, k) \<Rightarrow>
      if l then sub_ordered R b a k (\<not> neg) else sub_ordered R a b k neg) = Inr c \<and> number_ok R c \<and>
    number_units c = (if neg then int (magnitude b) - int (magnitude a) else int (magnitude a) - int (magnitude b))"
proof -
  obtain l k where r: "is_less_than R a b = (l, k)" by fastforce
  note c = is_less_than_correct [OF assms r]
  show ?thesis
  proof (cases l)
    case True
    with c sub_ordered_correct [OF assms(1,3,2) _ c(2) c(3) [symmetric], of "\<not> neg"] show ?thesis by (auto simp: r)
  next
    case False
    with c sub_ordered_correct [OF assms _ c(2,3), of neg] show ?thesis by (auto simp: r)
  qed
qed

lemma decimal_add_units:
  assumes "dranks_ok R" "number_ok R a" "number_ok R b"
  shows "case decimal_add R a b of
      Inr c \<Rightarrow> number_ok R c \<and> number_units c = number_units a + number_units b
    | Inl e \<Rightarrow> e = Overflow \<and> 10 ^ TOTAL R \<le> \<bar>number_units a + number_units b\<bar>"
proof (cases "negative a = negative b")
  case True
  then have "\<bar>number_units a + number_units b\<bar> = int (magnitude a + magnitude b)" by (simp add: number_units_def)
  with True decimal_add_same [OF assms, of "negative a"] show ?thesis
    by (auto simp: decimal_add_def number_units_def split: prod.splits if_splits)
next
  case False
  have "decimal_add R a b = (case is_less_than R a b of (l, k) \<Rightarrow>
      if l then sub_ordered R b a k (\<not> negative a) else sub_ordered R a b k (negative a))"
    using False by (simp add: decimal_add_def Let_def split: prod.split)
  with False decimal_add_differ [OF assms, of "negative a"] show ?thesis by (auto simp: number_units_def)
qed

lemma decimal_sub_units:
  assumes "dranks_ok R" "number_ok R a" "number_ok R b"
  shows "case decimal_sub R a b of
      Inr c \<Rightarrow> number_ok R c \<and> number_units c = number_units a - number_units b
    | Inl e \<Rightarrow> e = Overflow \<and> 10 ^ TOTAL R \<le> \<bar>number_units a - number_units b\<bar>"
proof (cases "negative a = negative b")
  case False
  then have "\<bar>number_units a - number_units b\<bar> = int (magnitude a + magnitude b)" by (auto simp: number_units_def)
  with False decimal_add_same [OF assms, of "negative a"] show ?thesis
    by (auto simp: decimal_sub_def number_units_def split: prod.splits if_splits)
next
  case True
  have "decimal_sub R a b = (case is_less_than R a b of (l, k) \<Rightarrow>
      if l then sub_ordered R b a k (\<not> negative a) else sub_ordered R a b k (negative a))"
    using True by (simp add: decimal_sub_def Let_def split: prod.split)
  with True decimal_add_differ [OF assms, of "negative a"] show ?thesis by (auto simp: number_units_def)
qed

lemma number_fixed_point:
  "dranks_ok R \<Longrightarrow> fixed_point (number_ok R) number_units (10 ^ TOTAL R) (decimal_add R) (decimal_sub R)"
proof
  fix a b
  assume R: "dranks_ok R" and a: "number_ok R a"
  have "int (magnitude a) < int (10 ^ TOTAL R)" using a unfolding number_ok_def by (simp only: of_nat_less_iff)
  then show "\<bar>number_units a\<bar> < 10 ^ TOTAL R" by (simp add: number_units_parts)
  assume b: "number_ok R b"
  show "case decimal_add R a b of Inr c \<Rightarrow> number_ok R c \<and> number_units c = number_units a + number_units b
    | Inl e \<Rightarrow> e = Overflow \<and> 10 ^ TOTAL R \<le> \<bar>number_units a + number_units b\<bar>" by (rule decimal_add_units [OF R a b])
  show "case decimal_sub R a b of Inr c \<Rightarrow> number_ok R c \<and> number_units c = number_units a - number_units b
    | Inl e \<Rightarrow> e = Overflow \<and> 10 ^ TOTAL R \<le> \<bar>number_units a - number_units b\<bar>" by (rule decimal_sub_units [OF R a b])
qed

text \<open>\<^verbatim>\<open>Decimal<uint64_t, 38, 18>\<close>.\<close>

interpretation bd: fixed_point "number_ok \<lparr>TOTAL = 38, FRACTION = 18\<rparr>" number_units "10 ^ 38"
  "decimal_add \<lparr>TOTAL = 38, FRACTION = 18\<rparr>" "decimal_sub \<lparr>TOTAL = 38, FRACTION = 18\<rparr>"
  using number_fixed_point [of "\<lparr>TOTAL = 38, FRACTION = 18\<rparr>"] by (simp add: dranks_ok_def)

subsection \<open>Products of elements\<close>

lemma mul_elements_correct:
  assumes "unat x < NB" "unat y < NB"
  obtains l h where "mul_elements x y = Some (l, h)" "unat l < NB" "unat h < NB"
    "unat l + NB * unat h = unat x * unat y"
proof -
  obtain d a where da: "mulq x y = (d, a)" by fastforce
  note n = mulq_correct [OF da]
  have nz: "BASE \<noteq> 0" using unat_BASE by (metis NB_pos(2) unat_0)
  have "unat x * unat y < NB * NB" using assms by (intro mult_strict_mono) simp_all
  then have less: "unat x * unat y div NB < NB" by (simp add: less_mult_imp_div_less)
  then have "unat x * unat y div unat BASE < 2 ^ 64" using NB_bound(1) by (simp add: unat_BASE)
  from divq_correct [OF nz n this] obtain q r where
    "divq d a BASE = Some (q, r)" "unat q = unat x * unat y div NB" "unat r = unat x * unat y mod NB"
    unfolding unat_BASE by blast
  with less that [of r q] show ?thesis by (simp add: mul_elements_def mul_elem_def da)
qed

subsection \<open>The temporary array of a multiplication\<close>

definition tmp_ok :: "ranks \<Rightarrow> uint64 list \<Rightarrow> bool" where
  "tmp_ok R tmp \<longleftrightarrow> length tmp = TMP_SIZE R \<and> elems_ok tmp \<and> value_of tmp < 10 ^ TMP_TOTAL_RANK R"

lemma TMP_split:
  assumes "dranks_ok R"
  shows "0 < TMP_SIZE R" "10 ^ TMP_TOTAL_RANK R = NB ^ (TMP_SIZE R - 1) * unat (TMP_INTEGER_MAX_OVER R)"
    "10 ^ TMP_TOTAL_RANK R \<le> NB ^ TMP_SIZE R" "TMP_TOTAL_RANK R = TOTAL R + FRACTION R"
    "TMP_SIZE R = (TOTAL R + FRACTION R + 17) div 18"
proof -
  show rank: "TMP_TOTAL_RANK R = TOTAL R + FRACTION R"
    using assms by (simp add: TMP_TOTAL_RANK_def INTEGER_RANK_def dranks_ok_def)
  have "n div 18 + (if n mod 18 \<noteq> 0 then 1 else 0) = (n + 17) div 18" for n :: nat by (simp add: add_div_carry)
  then have sz: "TMP_SIZE R = (TMP_TOTAL_RANK R + 17) div 18"
    unfolding TMP_SIZE_def DIGITS_PER_ELEMENT_def by simp
  with rank show "TMP_SIZE R = (TOTAL R + FRACTION R + 17) div 18" by simp
  have pos: "0 < TMP_TOTAL_RANK R" using assms by (simp add: rank dranks_ok_def)
  from size_split [OF pos sz] show "0 < TMP_SIZE R"
    "10 ^ TMP_TOTAL_RANK R = NB ^ (TMP_SIZE R - 1) * unat (TMP_INTEGER_MAX_OVER R)"
    by (simp_all add: TMP_INTEGER_MAX_OVER_def DIGITS_PER_ELEMENT_def Pow10_power)
  have "(10 :: nat) ^ TMP_TOTAL_RANK R \<le> 10 ^ (18 * TMP_SIZE R)"
    using size_split(4) [OF pos sz] by (intro power_increasing) simp_all
  then show "10 ^ TMP_TOTAL_RANK R \<le> NB ^ TMP_SIZE R" by (simp add: NB_def power_mult)
qed

lemma tmp_limit:
  assumes "dranks_ok R" "length xs = TMP_SIZE R" "elems_ok xs"
  shows "TMP_INTEGER_MAX_OVER R \<le> xs ! (TMP_SIZE R - 1) \<longleftrightarrow> 10 ^ TMP_TOTAL_RANK R \<le> value_of xs"
proof -
  have "length xs = Suc (TMP_SIZE R - 1)" using TMP_split(1) [OF assms(1)] assms(2) by simp
  from value_of_top [OF assms(3) this, of "unat (TMP_INTEGER_MAX_OVER R)"] show ?thesis
    unfolding TMP_split(2) [OF assms(1)] word_le_nat_alt by (simp only: not_less [symmetric])
qed

text \<open>
  The carry loop adds the overflow at its place.  It tells that the number is too big exactly
  when it is; while it stops early, the number below stays within the limit.
\<close>

lemma value_of_update_add:
  assumes "i < length tmp" "unat x + c = unat (tmp ! i) + d"
  shows "value_of (tmp[i := x]) + NB ^ i * c = value_of tmp + NB ^ i * d"
proof -
  have "NB ^ i * (unat x + c) = NB ^ i * (unat (tmp ! i) + d)" using assms(2) by simp
  with value_of_update [OF assms(1), of x] show ?thesis by (simp add: algebra_simps)
qed

lemma carry_loop_correct:
  assumes "dranks_ok R" "length tmp = TMP_SIZE R" "elems_ok tmp" "unat ov < NB" "i \<le> TMP_SIZE R"
    "carry_loop R tmp i ov = (over, tmp')"
    "i < TMP_SIZE R \<Longrightarrow> unat (tmp ! (TMP_SIZE R - 1)) < unat (TMP_INTEGER_MAX_OVER R)"
  shows "(over \<longleftrightarrow> 10 ^ TMP_TOTAL_RANK R \<le> value_of tmp + NB ^ i * unat ov) \<and>
    (\<not> over \<longrightarrow> length tmp' = TMP_SIZE R \<and> elems_ok tmp' \<and> value_of tmp' = value_of tmp + NB ^ i * unat ov)"
  using assms
proof (induction R tmp i ov arbitrary: over tmp' rule: carry_loop.induct)
  case (1 R tmp i ov)
  note R = 1(2) and len = 1(3) and ok = 1(4) and ov = 1(5) and i = 1(6) and res = 1(7) and top = 1(8)
  let ?n = "TMP_SIZE R" and ?x = "tmp ! i + ov"
  show ?case
  proof (cases "i < ?n")
    case False
    then have i: "i = ?n" using i by simp
    then have r: "over \<longleftrightarrow> ov \<noteq> 0 \<or> TMP_INTEGER_MAX_OVER R \<le> tmp ! (?n - 1)" "tmp' = tmp"
      using res by (auto simp: carry_loop.simps [of R tmp ?n])
    show ?thesis
    proof (cases "ov = 0")
      case True
      with r tmp_limit [OF R len ok] len ok show ?thesis by simp
    next
      case nz: False
      then have "NB ^ ?n * 1 \<le> NB ^ ?n * unat ov" by (intro mult_le_mono2) (simp add: Suc_le_eq unat_gt_0)
      with TMP_split(3) [OF R] have "10 ^ TMP_TOTAL_RANK R \<le> value_of tmp + NB ^ ?n * unat ov" by linarith
      with r nz i show ?thesis by simp
    qed
  next
    case True
    have t: "unat (tmp ! i) < NB" using elems_ok_nth [OF ok] True len by simp
    have x: "unat ?x = unat (tmp ! i) + unat ov" using t ov NB_bound(1) by (simp add: unat_add_64)
    show ?thesis
    proof (cases "?x < BASE")
      case xb: True
      then have x': "unat ?x < NB" by (simp add: word_less_nat_alt unat_BASE)
      have v: "value_of (tmp[i := ?x]) = value_of tmp + NB ^ i * unat ov"
        using value_of_update_add [of i tmp ?x 0 "unat ov"] True len x by simp
      have ok': "elems_ok (tmp[i := ?x])" "length (tmp[i := ?x]) = ?n" using ok x' len by (simp_all add: elems_ok_update)
      note lim = tmp_limit [OF R ok'(2,1)]
      show ?thesis
      proof (cases "i = ?n - 1")
        case False
        then have "tmp[i := ?x] ! (?n - 1) = tmp ! (?n - 1)" by simp
        with lim top True have "\<not> 10 ^ TMP_TOTAL_RANK R \<le> value_of (tmp[i := ?x])" by (simp add: word_le_nat_alt)
        moreover have "over = False" "tmp' = tmp[i := ?x]"
          using res False True xb by (simp_all add: carry_loop.simps [of R tmp i])
        ultimately show ?thesis using ok' v by simp
      next
        case last: True
        with True xb have cl: "carry_loop R tmp i ov = (TMP_INTEGER_MAX_OVER R \<le> tmp[i := ?x] ! (?n - 1), tmp[i := ?x])"
          by (subst carry_loop.simps) (simp add: Let_def)
        have r: "over = fst (carry_loop R tmp i ov)" "tmp' = snd (carry_loop R tmp i ov)"
          using res by simp_all
        show ?thesis unfolding r cl fst_conv snd_conv lim v using ok' by simp
      qed
    next
      case False
      then have ge: "BASE \<le> ?x" by simp
      then have d: "unat (?x - BASE) + NB = unat (tmp ! i) + unat ov"
        using x by (simp add: unat_sub unat_BASE word_le_nat_alt)
      then have small: "unat (?x - BASE) < NB" using t ov by simp
      have v: "value_of (tmp[i := ?x - BASE]) + NB ^ i * NB = value_of tmp + NB ^ i * unat ov"
        using value_of_update_add [of i tmp "?x - BASE" NB "unat ov"] True len d by simp
      have rec: "carry_loop R (tmp[i := ?x - BASE]) (i + 1) 1 = (over, tmp')"
        using res True False by (simp add: carry_loop.simps [of R tmp i])
      have "tmp[i := ?x - BASE] ! (?n - 1) = tmp ! (?n - 1)" if "i + 1 < ?n" using that by simp
      from 1(1) [OF True refl False R _ elems_ok_update [OF ok small] _ _ rec] len True top this v show ?thesis
        by (simp add: ac_simps)
    qed
  qed
qed

lemma tmp_add_correct:
  assumes "dranks_ok R" "tmp_ok R tmp" "unat v < 2 * NB"
  shows "\<exists>over tmp'. tmp_add R v i tmp = Inr (over, tmp') \<and>
    (over \<longrightarrow> TMP_SIZE R \<le> i \<or> 10 ^ TMP_TOTAL_RANK R \<le> value_of tmp + NB ^ i * unat v) \<and>
    (\<not> over \<longrightarrow> tmp_ok R tmp' \<and> value_of tmp' = value_of tmp + NB ^ i * unat v)"
proof (cases "TMP_SIZE R \<le> i")
  case True
  then show ?thesis by (intro exI [of _ True] exI [of _ tmp]) (simp add: tmp_add_def)
next
  case False
  let ?n = "TMP_SIZE R" and ?x = "tmp ! i + v"
  have ok: "length tmp = ?n" "elems_ok tmp" "value_of tmp < 10 ^ TMP_TOTAL_RANK R" using assms(2) by (simp_all add: tmp_ok_def)
  have sum: "MAX_SUM > 2"
    by (simp add: MAX_SUM_def BASE_def DIGITS_PER_ELEMENT_def Pow10_power word_less_nat_alt)
  have x: "unat ?x = unat (tmp ! i) + unat v" "unat ?x < 3 * NB"
    using elems_ok_nth [OF ok(2), of i] ok(1) False assms(3) NB_bound(1) by (simp_all add: unat_add_64)
  define c where "c = ?x div BASE"
  define y where "y = ?x mod BASE"
  have y: "unat y < NB" "unat y + NB * unat c = unat (tmp ! i) + unat v"
    using x(1) by (simp_all add: y_def c_def unat_mod_distrib unat_div_distrib unat_BASE)
  have "unat c < 3" using x(2) by (simp add: c_def unat_div_distrib unat_BASE less_mult_imp_div_less)
  then have c: "unat c < NB" by (simp add: NB_def)
  have eq: "tmp_add R v i tmp = Inr (carry_loop R (tmp[i := y]) (i + 1) c)"
  proof (cases "?x \<ge> BASE")
    case False
    then have "unat ?x < NB" by (simp add: word_le_nat_alt unat_BASE)
    then have "y = ?x" "c = 0"
      by (simp_all add: y_def c_def word_unat_eq_iff unat_mod_distrib unat_div_distrib unat_BASE)
    with False sum \<open>\<not> ?n \<le> i\<close> show ?thesis by (simp add: tmp_add_def Let_def)
  qed (use sum False in \<open>simp add: tmp_add_def Let_def y_def c_def\<close>)
  obtain over tmp' where r: "carry_loop R (tmp[i := y]) (i + 1) c = (over, tmp')" by fastforce
  have top: "unat (tmp[i := y] ! (?n - 1)) < unat (TMP_INTEGER_MAX_OVER R)" if "i + 1 < ?n"
    using that tmp_limit [OF assms(1) ok(1,2)] ok(3) by (simp add: word_le_nat_alt)
  have val: "value_of (tmp[i := y]) + NB ^ (i + 1) * unat c = value_of tmp + NB ^ i * unat v"
    using value_of_update_add [of i tmp y "NB * unat c" "unat v"] False ok(1) y(2) by (simp add: ac_simps)
  have "i + 1 \<le> ?n" "length (tmp[i := y]) = ?n" using False ok(1) by simp_all
  note cl = carry_loop_correct [OF assms(1) this(2) elems_ok_update [OF ok(2) y(1)] c this(1) r top, unfolded val]
  show ?thesis
    unfolding eq r tmp_ok_def by (rule exI [of _ over], rule exI [of _ tmp']) (use cl in auto)
qed

lemma tmp_exceeded:
  assumes "dranks_ok R" "TMP_SIZE R \<le> pos" "0 < w"
  shows "10 ^ TMP_TOTAL_RANK R \<le> v + NB ^ pos * w"
proof -
  have "NB ^ TMP_SIZE R \<le> NB ^ pos" using assms(2) by (intro power_increasing) (simp_all add: Suc_leI)
  moreover have "NB ^ pos * 1 \<le> NB ^ pos * w" using assms(3) by (intro mult_le_mono2) simp
  ultimately show ?thesis using TMP_split(3) [OF assms(1)] by linarith
qed

lemma mul_row_correct:
  assumes "dranks_ok R" "tmp_ok R tmp" "elems_ok xs" "unat y < NB" "y \<noteq> 0" "unat ov < NB"
  shows "\<exists>over tmp'. mul_row R xs y pos ov tmp = Inr (over, tmp') \<and>
    (over \<longrightarrow> 10 ^ TMP_TOTAL_RANK R \<le> value_of tmp + NB ^ pos * (unat ov + unat y * value_of xs)) \<and>
    (\<not> over \<longrightarrow> tmp_ok R tmp' \<and> value_of tmp' = value_of tmp + NB ^ pos * (unat ov + unat y * value_of xs))"
  using assms(2,3,6)
proof (induction xs arbitrary: pos ov tmp)
  case Nil
  show ?case
  proof (cases "ov = 0")
    case True
    with Nil.prems(1) show ?thesis by (intro exI [of _ False] exI [of _ tmp]) simp
  next
    case False
    have "unat ov < 2 * NB" using Nil.prems(3) by simp
    from tmp_add_correct [OF assms(1) Nil.prems(1) this, of pos] False
      tmp_exceeded [OF assms(1), of pos "unat ov" "value_of tmp"] show ?thesis
      by (auto simp: unat_gt_0)
  qed
next
  case (Cons x xs)
  have x: "unat x < NB" "elems_ok xs" using Cons.prems(2) by simp_all
  show ?case
  proof (cases "x = 0 \<and> ov = 0")
    case True
    with Cons.IH [OF Cons.prems(1) x(2), of 0 "pos + 1"] show ?thesis by (simp add: algebra_simps)
  next
    case nz: False
    obtain w c where w: "unat w < 2 * NB" "unat c < NB" "unat w + NB * unat c = unat ov + unat y * unat x"
      and step: "mul_row R (x # xs) y pos ov tmp = rbind (tmp_add R w pos tmp) (\<lambda>(over, tmp).
        if over then Inr (True, tmp) else mul_row R xs y (pos + 1) c tmp)"
    proof (cases "x = 0")
      case True
      with nz that [of ov 0] Cons.prems(3) show thesis by simp
    next
      case False
      obtain l h where m: "mul_elements x y = Some (l, h)" "unat l < NB" "unat h < NB"
        "unat l + NB * unat h = unat x * unat y"
        using mul_elements_correct [OF x(1) assms(4)] .
      have "unat (l + ov) = unat l + unat ov" using m(2) Cons.prems(3) NB_bound(1) by (simp add: unat_add_64)
      with m False Cons.prems(3) show thesis by (intro that [of "l + ov" h]) (simp_all add: ac_simps)
    qed
    let ?total = "unat ov + unat y * value_of (x # xs)"
    have "?total = unat w + NB * (unat c + unat y * value_of xs)" using w(3) by (simp add: algebra_simps)
    then have total: "NB ^ pos * ?total = NB ^ pos * unat w + NB ^ (pos + 1) * (unat c + unat y * value_of xs)"
      by (simp only: distrib_left power_add power_one_right mult.assoc)
    have pos: "0 < ?total" using nz assms(5) by (auto simp: unat_gt_0)
    obtain over tmp' where t: "tmp_add R w pos tmp = Inr (over, tmp')"
      "over \<longrightarrow> TMP_SIZE R \<le> pos \<or> 10 ^ TMP_TOTAL_RANK R \<le> value_of tmp + NB ^ pos * unat w"
      "\<not> over \<longrightarrow> tmp_ok R tmp' \<and> value_of tmp' = value_of tmp + NB ^ pos * unat w"
      using tmp_add_correct [OF assms(1) Cons.prems(1) w(1), of pos] by blast
    show ?thesis
    proof (cases over)
      case True
      have "10 ^ TMP_TOTAL_RANK R \<le> value_of tmp + NB ^ pos * ?total"
        using t(2) True tmp_exceeded [OF assms(1) _ pos, of pos "value_of tmp"] unfolding total by linarith
      with True t(1) show ?thesis unfolding step by (intro exI [of _ True] exI [of _ tmp']) simp
    next
      case False
      with t(3) Cons.IH [OF _ x(2) w(2), of tmp' "pos + 1"] t(1) show ?thesis
        unfolding total step by (simp add: add.assoc)
    qed
  qed
qed

lemma mul_rows_correct:
  assumes "dranks_ok R" "tmp_ok R tmp" "elems_ok xs" "elems_ok ys"
  shows "\<exists>over tmp'. mul_rows R xs ys i tmp = Inr (over, tmp') \<and>
    (over \<longrightarrow> 10 ^ TMP_TOTAL_RANK R \<le> value_of tmp + NB ^ i * (value_of ys * value_of xs)) \<and>
    (\<not> over \<longrightarrow> tmp_ok R tmp' \<and> value_of tmp' = value_of tmp + NB ^ i * (value_of ys * value_of xs))"
  using assms(2,4)
proof (induction ys arbitrary: i tmp)
  case Nil
  then show ?case by (intro exI [of _ False] exI [of _ tmp]) simp
next
  case (Cons y ys)
  have y: "unat y < NB" "elems_ok ys" using Cons.prems(2) by simp_all
  have total: "NB ^ i * (value_of (y # ys) * value_of xs) =
      NB ^ i * (unat y * value_of xs) + NB ^ (i + 1) * (value_of ys * value_of xs)"
    by (simp add: algebra_simps)
  show ?case
  proof (cases "y = 0")
    case True
    with Cons.IH [OF Cons.prems(1) y(2), of "i + 1"] show ?thesis unfolding total by simp
  next
    case False
    have "unat (0 :: uint64) < NB" by simp
    from mul_row_correct [OF assms(1) Cons.prems(1) assms(3) y(1) False this, of i] obtain over tmp' where
      r: "mul_row R xs y i 0 tmp = Inr (over, tmp')"
      "over \<longrightarrow> 10 ^ TMP_TOTAL_RANK R \<le> value_of tmp + NB ^ i * (unat y * value_of xs)"
      "\<not> over \<longrightarrow> tmp_ok R tmp' \<and> value_of tmp' = value_of tmp + NB ^ i * (unat y * value_of xs)" by auto
    show ?thesis
    proof (cases over)
      case True
      with r False show ?thesis
        unfolding total by (intro exI [of _ True] exI [of _ tmp']) (simp add: trans_le_add1 flip: add.assoc)
    next
      case False
      with r \<open>y \<noteq> 0\<close> Cons.IH [OF _ y(2), of tmp' "i + 1"] show ?thesis
        unfolding total by (simp add: add.assoc)
    qed
  qed
qed

text \<open>
  The end of a fraction inside the array: \<open>FRACTION_END\<close> whole elements and the digits of
  \<open>FRACTION_REMAINDER\<close>.
\<close>

lemma fraction_split:
  shows "10 ^ FRACTION R = NB ^ FRACTION_END R * unat (FRACTION_REMAINDER R)"
    "NB = unat (FRACTION_REMAINDER R) * unat (FRACTION_OVER R)" "0 < unat (FRACTION_REMAINDER R)"
    "unat (FRACTION_REMAINDER R) < NB" "0 < unat (FRACTION_OVER R)"
    "FRACTION_REMAINDER R = 1 \<longleftrightarrow> FRACTION R mod 18 = 0"
    "FRACTION_REMAINDER R \<noteq> 1 \<Longrightarrow> even (unat (FRACTION_REMAINDER R))"
proof -
  let ?r = "FRACTION R mod 18"
  have r: "?r < 18" by simp
  have R: "unat (FRACTION_REMAINDER R) = 10 ^ ?r" "unat (FRACTION_OVER R) = 10 ^ (18 - ?r)"
    using r by (simp_all add: FRACTION_REMAINDER_def FRACTION_OVER_def DIGITS_PER_ELEMENT_def Pow10_power)
  have "FRACTION R = 18 * FRACTION_END R + ?r" by (simp add: FRACTION_END_def DIGITS_PER_ELEMENT_def)
  then show "10 ^ FRACTION R = NB ^ FRACTION_END R * unat (FRACTION_REMAINDER R)"
    unfolding R NB_def power_mult [symmetric] power_add [symmetric] by simp
  show "NB = unat (FRACTION_REMAINDER R) * unat (FRACTION_OVER R)"
    unfolding R NB_def power_add [symmetric] using r by simp
  show "0 < unat (FRACTION_REMAINDER R)" "0 < unat (FRACTION_OVER R)" unfolding R by simp_all
  show "unat (FRACTION_REMAINDER R) < NB" unfolding R NB_def using r by (intro power_strict_increasing) simp_all
  have "unat (FRACTION_REMAINDER R) = 1 \<longleftrightarrow> ?r = 0" unfolding R by simp
  then show one: "FRACTION_REMAINDER R = 1 \<longleftrightarrow> FRACTION R mod 18 = 0" by (simp add: word_unat_eq_iff)
  show "FRACTION_REMAINDER R \<noteq> 1 \<Longrightarrow> even (unat (FRACTION_REMAINDER R))" unfolding one R by simp
qed

lemma export_loop_value:
  assumes "elems_ok xs" "unat last_part < unat (FRACTION_OVER R)"
    "n \<le> length xs \<or> n = Suc (length xs)" "unat last_part + unat (FRACTION_OVER R) * value_of xs < NB ^ n"
  shows "length (export_loop R n last_part xs) = n \<and> elems_ok (export_loop R n last_part xs) \<and>
    value_of (export_loop R n last_part xs) = unat last_part + unat (FRACTION_OVER R) * value_of xs"
  using assms
proof (induction R n last_part xs rule: export_loop.induct)
  case (1 R last_part xs)
  then have "unat last_part = 0" "unat (FRACTION_OVER R) * value_of xs = 0" by simp_all
  then show ?case by simp
next
  case (2 R n last_part)
  note s = fraction_split [of R]
  have "unat last_part < NB * 1" using 2(2) s(2,3) by (metis mult.commute mult_le_mono1 nat_mult_1 Suc_leI One_nat_def order_less_le_trans nat_mult_1_right)
  with 2 show ?case by simp
next
  case (3 R n last_part x xs)
  let ?r = "unat (FRACTION_REMAINDER R)" and ?o = "unat (FRACTION_OVER R)"
  note s = fraction_split [of R]
  define e where "e = last_part + x mod FRACTION_REMAINDER R * FRACTION_OVER R"
  have x: "unat x < NB" "elems_ok xs" using 3(2) by simp_all
  have m: "unat x mod ?r * ?o < NB"
    unfolding s(2) using s(3,5) by simp
  have "unat (x mod FRACTION_REMAINDER R * FRACTION_OVER R) = unat x mod ?r * ?o"
    using m NB_bound(1) by (subst unat_mult_64) (simp_all add: unat_mod_distrib)
  moreover have small: "unat last_part + unat x mod ?r * ?o < NB"
    using add_mult_less [OF 3(3), of "unat x mod ?r" ?r] s(2,3) by (simp add: mult.commute)
  ultimately have e: "unat e = unat last_part + unat x mod ?r * ?o"
    unfolding e_def using NB_bound(1) by (subst unat_add_64) simp_all
  have d: "unat (x div FRACTION_REMAINDER R) = unat x div ?r" by (simp add: unat_div_distrib)
  have dl: "unat x div ?r < ?o"
    by (rule less_mult_imp_div_less) (use x(1) in \<open>simp only: s(2) mult.commute\<close>)
  have "?o * unat x = ?o * (unat x div ?r * ?r + unat x mod ?r)" by (simp only: div_mult_mod_eq)
  also have "\<dots> = unat x mod ?r * ?o + NB * (unat x div ?r)" unfolding s(2) by (simp only: distrib_left ac_simps)
  finally have "?o * unat x = unat x mod ?r * ?o + NB * (unat x div ?r)" .
  then have total: "unat last_part + ?o * value_of (x # xs) = unat e + NB * (unat (x div FRACTION_REMAINDER R) + ?o * value_of xs)"
    by (simp add: e d algebra_simps)
  have "NB * (unat (x div FRACTION_REMAINDER R) + ?o * value_of xs) < NB * NB ^ n"
    using 3(5) unfolding total power_Suc by linarith
  then have less: "unat (x div FRACTION_REMAINDER R) + ?o * value_of xs < NB ^ n" by simp
  from 3(1) [OF x(2) _ _ less] 3(4) dl d show ?case
    unfolding total by (simp add: e small flip: e_def)
qed

lemma tmp_export_correct:
  assumes "dranks_ok R" "tmp_ok R tmp"
  shows "length (tmp_export R tmp) = SIZE R \<and> elems_ok (tmp_export R tmp) \<and>
    value_of (tmp_export R tmp) = value_of tmp div 10 ^ FRACTION R"
proof -
  let ?k = "FRACTION_END R" and ?r = "unat (FRACTION_REMAINDER R)" and ?o = "unat (FRACTION_OVER R)"
  note s = fraction_split [of R]
  have ok: "length tmp = TMP_SIZE R" "elems_ok tmp" "value_of tmp < 10 ^ (TOTAL R + FRACTION R)"
    using assms(2) TMP_split(4) [OF assms(1)] by (simp_all add: tmp_ok_def)
  have F: "FRACTION R = 18 * ?k + FRACTION R mod 18" by (simp add: FRACTION_END_def DIGITS_PER_ELEMENT_def)
  have S: "SIZE R = (TOTAL R + 17) div 18" by (simp add: SIZE_def DIGITS_PER_ELEMENT_def)
  have "(TOTAL R + FRACTION R + 17) div 18 = (TOTAL R + FRACTION R mod 18 + 17 + 18 * ?k) div 18"
    by (subst F) (simp add: ac_simps)
  also have "\<dots> = (TOTAL R + FRACTION R mod 18 + 17) div 18 + ?k" by simp
  finally have T: "TMP_SIZE R = (TOTAL R + FRACTION R mod 18 + 17) div 18 + ?k"
    unfolding TMP_split(5) [OF assms(1)] .
  have SIZE: "SIZE R + ?k \<le> TMP_SIZE R" unfolding T S by (simp add: div_le_mono)
  have k: "?k < TMP_SIZE R" using SIZE SIZE_split(1) [OF assms(1)] by simp
  have low: "value_of (take ?k tmp) < NB ^ ?k" using value_of_take_less [OF ok(2)] k ok(1) by simp
  have v: "value_of tmp = value_of (take ?k tmp) + NB ^ ?k * value_of (drop ?k tmp)"
    using value_of_take_drop [of tmp ?k] k ok(1) by (simp add: min_absorb2)
  then have q: "value_of tmp div NB ^ ?k = value_of (drop ?k tmp)" using low by simp
  have quot: "value_of tmp div 10 ^ FRACTION R = value_of (drop ?k tmp) div ?r"
    unfolding s(1) div_mult2_eq q ..
  have lim: "value_of tmp div 10 ^ FRACTION R < 10 ^ TOTAL R"
    using ok(3) by (intro less_mult_imp_div_less) (simp add: power_add)
  show ?thesis
  proof (cases "FRACTION_REMAINDER R = 1")
    case True
    then have "TMP_SIZE R = SIZE R + ?k" using s(6) by (simp add: T S)
    with True ok have "tmp_export R tmp = drop ?k tmp" by (simp add: tmp_export_def)
    with True quot ok \<open>TMP_SIZE R = SIZE R + ?k\<close> show ?thesis by (simp add: elems_ok_take_drop)
  next
    case False
    have hd: "drop ?k tmp = tmp ! ?k # drop (?k + 1) tmp" using k ok(1) by (simp add: Cons_nth_drop_Suc)
    let ?l = "tmp ! ?k div FRACTION_REMAINDER R" and ?xs = "drop (?k + 1) tmp"
    have l: "unat ?l = unat (tmp ! ?k) div ?r" by (simp add: unat_div_distrib)
    have "value_of (drop ?k tmp) = unat (tmp ! ?k) + ?r * (?o * value_of ?xs)"
      unfolding hd value_of.simps s(2) by (simp only: mult.assoc)
    then have val: "value_of (drop ?k tmp) div ?r = unat ?l + ?o * value_of ?xs"
      using s(3) by (simp add: l)
    have small: "unat ?l < ?o" unfolding l
      by (rule less_mult_imp_div_less) (use elems_ok_nth [OF ok(2), of ?k] k ok(1) in \<open>simp only: s(2) mult.commute\<close>)
    have "TMP_SIZE R \<le> SIZE R + ?k + 1" unfolding T S by (simp add: div_le_mono)
    then have len: "SIZE R \<le> length ?xs \<or> SIZE R = Suc (length ?xs)" using SIZE k ok(1) by auto
    have "unat ?l + ?o * value_of ?xs < NB ^ SIZE R"
      using lim value_of_size [of R] unfolding quot val by linarith
    from export_loop_value [OF elems_ok_take_drop(2) [OF ok(2)] small len this] False show ?thesis
      unfolding quot val by (simp add: tmp_export_def)
  qed
qed

lemma half_split: "low < M \<Longrightarrow> M * h \<le> low + M * t \<longleftrightarrow> h \<le> (t :: nat)"
proof
  assume "low < M" "M * h \<le> low + M * t"
  then have "M * h < M * (t + 1)" by simp
  then have "h < t + 1" by (simp only: mult_less_cancel1)
  then show "h \<le> t" by simp
next
  assume "h \<le> t"
  then have "M * h \<le> M * t" by simp
  then show "M * h \<le> low + M * t" by linarith
qed

lemma FRACTION_END_less:
  assumes "dranks_ok R" "FRACTION R \<noteq> 0"
  shows "FRACTION_END R < TMP_SIZE R"
proof -
  have "18 * FRACTION_END R \<le> FRACTION R" by (simp add: FRACTION_END_def DIGITS_PER_ELEMENT_def)
  then have "18 * Suc (FRACTION_END R) \<le> TOTAL R + FRACTION R + 17" using assms by (simp add: dranks_ok_def)
  then have "Suc (FRACTION_END R) \<le> TMP_SIZE R"
    unfolding TMP_split(5) [OF assms(1)] by (simp add: less_eq_div_iff_mult_less_eq)
  then show ?thesis by simp
qed

text \<open>The digits that are dropped, and how the code looks at them.\<close>

lemma dropped_digits:
  assumes "dranks_ok R" "tmp_ok R tmp" "FRACTION R \<noteq> 0"
  shows "10 ^ FRACTION R div 2 \<le> value_of tmp mod 10 ^ FRACTION R \<longleftrightarrow>
      (if FRACTION_REMAINDER R = 1 then tmp ! (FRACTION_END R - 1) \<ge> BASE div 2
       else tmp ! FRACTION_END R mod FRACTION_REMAINDER R \<ge> FRACTION_REMAINDER R div 2)" (is ?round)
    "FRACTION R \<le> 18 \<Longrightarrow> value_of tmp mod 10 ^ FRACTION R \<noteq> 0 \<longleftrightarrow>
      (if FRACTION_REMAINDER R = 1 then tmp ! (FRACTION_END R - 1) \<noteq> 0
       else tmp ! FRACTION_END R mod FRACTION_REMAINDER R \<noteq> 0)"
proof -
  let ?k = "FRACTION_END R" and ?r = "unat (FRACTION_REMAINDER R)"
  note s = fraction_split [of R]
  have ok: "length tmp = TMP_SIZE R" "elems_ok tmp" using assms(2) by (simp_all add: tmp_ok_def)
  have F: "FRACTION R = 18 * ?k + FRACTION R mod 18" by (simp add: FRACTION_END_def DIGITS_PER_ELEMENT_def)
  note k = FRACTION_END_less [OF assms(1,3)]
  have low: "value_of (take j tmp) < NB ^ j" if "j \<le> ?k" for j using value_of_take_less [OF ok(2)] k ok(1) that by simp
  have v: "value_of tmp = value_of (take ?k tmp) + NB ^ ?k * value_of (drop ?k tmp)"
    using value_of_take_drop [of tmp ?k] k ok(1) by (simp add: min_absorb2)
  have hd: "drop ?k tmp = tmp ! ?k # drop (?k + 1) tmp" using k ok(1) by (simp add: Cons_nth_drop_Suc)
  have "value_of (drop ?k tmp) mod ?r = unat (tmp ! ?k) mod ?r"
    unfolding hd value_of.simps s(2) by (simp add: mult.assoc)
  then have m: "value_of tmp mod 10 ^ FRACTION R = value_of (take ?k tmp) + NB ^ ?k * (unat (tmp ! ?k) mod ?r)"
    unfolding s(1) mod_mult2_eq using low [of ?k] v by simp
  have one: ?round if "FRACTION_REMAINDER R = 1"
  proof -
    have "FRACTION R mod 18 = 0" using that s(6) by simp
    with F assms(3) have "?k \<noteq> 0" by (intro notI) simp
    then obtain j where j: "?k = Suc j" using not0_implies_Suc by blast
    have "value_of tmp mod 10 ^ FRACTION R = value_of (take j tmp) + NB ^ j * unat (tmp ! j)"
      unfolding m using that value_of_take_Suc [of j tmp] j k ok(1) by simp
    moreover have "10 ^ FRACTION R div 2 = NB ^ j * (NB div 2)"
      unfolding s(1) using that NB_bound(2) by (simp add: j) (metis div_mult_swap mult.commute)
    ultimately show ?thesis
      using half_split [OF low [of j], of "NB div 2"] that j
      by (simp add: word_le_nat_alt unat_div_distrib unat_BASE)
  qed
  have many: ?round if "FRACTION_REMAINDER R \<noteq> 1"
  proof -
    have "10 ^ FRACTION R div 2 = NB ^ ?k * (?r div 2)"
      unfolding s(1) using s(7) [OF that] by (metis div_mult_swap)
    then show ?thesis
      unfolding m using half_split [OF low [of ?k], of "?r div 2"] that
      by (simp add: word_le_nat_alt unat_div_distrib unat_mod_distrib)
  qed
  from one many show ?round by blast
  assume "FRACTION R \<le> 18"
  with F assms(3) have "?k = 0 \<and> FRACTION R mod 18 \<noteq> 0 \<or> ?k = 1 \<and> FRACTION R mod 18 = 0" by (cases ?k) auto
  then show "value_of tmp mod 10 ^ FRACTION R \<noteq> 0 \<longleftrightarrow>
      (if FRACTION_REMAINDER R = 1 then tmp ! (FRACTION_END R - 1) \<noteq> 0
       else tmp ! FRACTION_END R mod FRACTION_REMAINDER R \<noteq> 0)"
  proof
    assume c: "?k = 0 \<and> FRACTION R mod 18 \<noteq> 0"
    then have "FRACTION_REMAINDER R \<noteq> 1" using s(6) by simp
    with c show ?thesis unfolding m by (simp add: word_unat_eq_iff unat_mod_distrib)
  next
    assume c: "?k = 1 \<and> FRACTION R mod 18 = 0"
    then have "FRACTION_REMAINDER R = 1" using s(6) by simp
    with c k ok(1) value_of_take_Suc [of 0 tmp] show ?thesis unfolding m by (simp add: word_unat_eq_iff)
  qed
qed

text \<open>The unit that rounding adds is \<open>10^FRACTION\<close>; the temporary number stays within its limit or it is told.\<close>

lemma tmp_increment:
  assumes "dranks_ok R" "tmp_ok R tmp" "FRACTION R \<noteq> 0"
  shows "\<exists>over tmp'. (if inc then tmp_add R (FRACTION_REMAINDER R) (FRACTION_END R) tmp else Inr (False, tmp)) = Inr (over, tmp') \<and>
    (over \<longleftrightarrow> 10 ^ TOTAL R \<le> value_of tmp div 10 ^ FRACTION R + (if inc then 1 else 0)) \<and>
    (\<not> over \<longrightarrow> tmp_ok R tmp' \<and>
      value_of tmp' div 10 ^ FRACTION R = value_of tmp div 10 ^ FRACTION R + (if inc then 1 else 0))"
proof -
  let ?F = "10 ^ FRACTION R :: nat"
  have rank: "(10 :: nat) ^ TMP_TOTAL_RANK R = 10 ^ TOTAL R * ?F" by (simp add: TMP_split(4) [OF assms(1)] power_add)
  have lim: "v < 10 ^ TOTAL R * ?F \<longleftrightarrow> v div ?F < 10 ^ TOTAL R" for v by (simp add: div_less_iff_less_mult)
  show ?thesis
  proof (cases inc)
    case False
    with assms(2) lim [of "value_of tmp"] show ?thesis
      by (intro exI [of _ False] exI [of _ tmp]) (simp add: tmp_ok_def rank)
  next
    case True
    have r: "unat (FRACTION_REMAINDER R) < 2 * NB" using fraction_split(4) [of R] by simp
    from tmp_add_correct [OF assms(1,2) r, of "FRACTION_END R", folded fraction_split(1)] obtain over tmp' where
      t: "tmp_add R (FRACTION_REMAINDER R) (FRACTION_END R) tmp = Inr (over, tmp')"
      "over \<longrightarrow> TMP_SIZE R \<le> FRACTION_END R \<or> 10 ^ TMP_TOTAL_RANK R \<le> value_of tmp + ?F"
      "\<not> over \<longrightarrow> tmp_ok R tmp' \<and> value_of tmp' = value_of tmp + ?F" by blast
    note k = FRACTION_END_less [OF assms(1,3)]
    have "(value_of tmp + ?F) div ?F = value_of tmp div ?F + 1" by (rule div_add_self2) simp
    with t k True lim [of "value_of tmp + ?F"] show ?thesis
      unfolding rank by (intro exI [of _ over] exI [of _ tmp']) (auto simp: tmp_ok_def rank not_less)
  qed
qed

lemma decimal_mul_units:
  assumes "dranks_ok R" "number_ok R a" "number_ok R b" "dmr = DMR_CEIL \<Longrightarrow> FRACTION R \<le> 18"
    and q: "q = rounded_quotient dmr (magnitude a * magnitude b) (10 ^ FRACTION R)"
  shows "if q < 10 ^ TOTAL R
    then \<exists>c. decimal_mul R a b dmr = Inr c \<and> number_ok R c \<and> magnitude c = q \<and> negative c = (negative a \<noteq> negative b)
    else decimal_mul R a b dmr = Inl Overflow"
proof -
  let ?F = "10 ^ FRACTION R :: nat" and ?n = "magnitude a * magnitude b"
  have ok: "elems_ok (array a)" "elems_ok (array b)" "tmp_ok R (replicate (TMP_SIZE R) 0)"
    using assms(2,3) by (simp_all add: number_ok_def tmp_ok_def)
  from mul_rows_correct [OF assms(1) ok(3,1,2), of 0] obtain over tmp where
    rows: "mul_rows R (array a) (array b) 0 (replicate (TMP_SIZE R) 0) = Inr (over, tmp)"
    "over \<longrightarrow> 10 ^ TMP_TOTAL_RANK R \<le> ?n" "\<not> over \<longrightarrow> tmp_ok R tmp \<and> value_of tmp = ?n"
    by (auto simp: magnitude_def mult.commute)
  have rank: "(10 :: nat) ^ TMP_TOTAL_RANK R = 10 ^ TOTAL R * ?F" by (simp add: TMP_split(4) [OF assms(1)] power_add)
  show ?thesis
  proof (cases over)
    case True
    with rows(2) have "10 ^ TOTAL R \<le> ?n div ?F" by (simp add: rank less_eq_div_iff_mult_less_eq)
    also have "\<dots> \<le> q" unfolding q by (rule rounded_quotient_ge)
    finally show ?thesis using True rows(1) by (simp add: decimal_mul_def)
  next
    case False
    with rows(3) have tmp: "tmp_ok R tmp" "value_of tmp = ?n" by simp_all
    define inc where "inc \<longleftrightarrow> FRACTION R \<noteq> 0 \<and> dmr \<noteq> DMR_FLOOR \<and>
      (if dmr = DMR_ROUND then ?F div 2 \<le> ?n mod ?F else ?n mod ?F \<noteq> 0)"
    have q': "q = ?n div ?F + (if inc then 1 else 0)"
    proof (cases "FRACTION R = 0")
      case True
      then show ?thesis by (simp add: q inc_def rounded_quotient_def split: DecimalMulRemainder.split)
    next
      case False
      then have "even ?F" by simp
      with rounded_quotient_step [of ?F dmr ?n] False show ?thesis by (simp add: q inc_def)
    qed
    have round: "(if FRACTION R \<noteq> 0 \<and> dmr \<noteq> DMR_FLOOR
        then if dmr = DMR_ROUND then tmp_round R tmp else tmp_ceil R tmp else Inr (False, tmp)) =
      (if inc then tmp_add R (FRACTION_REMAINDER R) (FRACTION_END R) tmp else Inr (False, tmp))"
    proof (cases "FRACTION R \<noteq> 0 \<and> dmr \<noteq> DMR_FLOOR")
      case True
      then have F: "FRACTION R \<noteq> 0" by simp
      have dmr: "dmr = DMR_ROUND \<or> dmr = DMR_CEIL" using True by (cases dmr) simp_all
      note d = dropped_digits [OF assms(1) tmp(1) F, unfolded tmp(2)]
      have "tmp_round R tmp = (if ?F div 2 \<le> ?n mod ?F
          then tmp_add R (FRACTION_REMAINDER R) (FRACTION_END R) tmp else Inr (False, tmp))"
        unfolding tmp_round_def d(1) ..
      moreover have "tmp_ceil R tmp = (if ?n mod ?F \<noteq> 0
          then tmp_add R (FRACTION_REMAINDER R) (FRACTION_END R) tmp else Inr (False, tmp))" if "FRACTION R \<le> 18"
        unfolding tmp_ceil_def d(2) [OF that] ..
      ultimately show ?thesis using True dmr assms(4) by (elim disjE) (simp_all add: inc_def)
    qed (auto simp: inc_def)
    have "\<exists>over tmp'. (if inc then tmp_add R (FRACTION_REMAINDER R) (FRACTION_END R) tmp else Inr (False, tmp)) = Inr (over, tmp') \<and>
        (over \<longleftrightarrow> 10 ^ TOTAL R \<le> q) \<and> (\<not> over \<longrightarrow> tmp_ok R tmp' \<and> value_of tmp' div ?F = q)"
    proof (cases "FRACTION R = 0")
      case True
      then have "\<not> inc" by (simp add: inc_def)
      with True tmp rank show ?thesis
        by (intro exI [of _ False] exI [of _ tmp]) (simp add: q' tmp_ok_def)
    next
      case False
      from tmp_increment [OF assms(1) tmp(1) False, of inc] show ?thesis unfolding q' tmp(2) .
    qed
    then obtain over' tmp' where t: "(if inc then tmp_add R (FRACTION_REMAINDER R) (FRACTION_END R) tmp else Inr (False, tmp)) = Inr (over', tmp')"
      "over' \<longleftrightarrow> 10 ^ TOTAL R \<le> q" "\<not> over' \<longrightarrow> tmp_ok R tmp' \<and> value_of tmp' div ?F = q" by blast
    have "decimal_mul R a b dmr = (if over' then Inl Overflow
        else Inr \<lparr>negative = negative a \<noteq> negative b, array = tmp_export R tmp'\<rparr>)"
      unfolding decimal_mul_def rows(1) by (simp only: rbind_simps prod.case False if_False round t(1))
    with t tmp_export_correct [OF assms(1), of tmp'] show ?thesis
      by (auto simp: number_ok_def)
  qed
qed

section \<open>Order\<close>

lemma number_units_order:
  assumes "dranks_ok R" "number_ok R a" "number_ok R b"
  shows "decimal_equal a b \<longleftrightarrow> number_units a = number_units b"
    "decimal_lt R a b \<longleftrightarrow> number_units a < number_units b"
    "is_zero a \<longleftrightarrow> number_units a = 0"
proof -
  have len: "length (array a) = length (array b)" "elems_ok (array a)" "elems_ok (array b)"
    using assms(2,3) by (simp_all add: number_ok_def)
  have z: "is_zero d \<longleftrightarrow> magnitude d = 0" for d by (simp add: is_zero_def magnitude_def value_of_zero_iff)
  show "is_zero a \<longleftrightarrow> number_units a = 0" by (simp add: z number_units_def)
  have both: "list_all2 (\<lambda>x y. x = 0 \<and> y = 0) (array a) (array b) \<longleftrightarrow> magnitude a = 0 \<and> magnitude b = 0"
    using len(1) by (auto simp: magnitude_def value_of_zero_iff list_all2_conv_all_nth list_all_length)
  have "list_all2 (\<lambda>x y. x = y) (array a) (array b) \<longleftrightarrow> magnitude a = magnitude b"
    using value_of_inject [OF len] by (simp add: magnitude_def list.rel_eq [unfolded fun_eq_iff])
  with both show "decimal_equal a b \<longleftrightarrow> number_units a = number_units b"
    by (auto simp: decimal_equal_def number_units_def)
  have lt: "fst (is_less_than R x y) \<longleftrightarrow> magnitude x < magnitude y" if "number_ok R x" "number_ok R y" for x y
    using is_less_than_correct(1) [OF assms(1) that] by (metis prod.collapse)
  from lt [OF assms(2,3)] lt [OF assms(3,2)] show "decimal_lt R a b \<longleftrightarrow> number_units a < number_units b"
    by (auto simp: decimal_lt_def number_units_def z)
qed

end
