(* ===== verification/Decimal_Division.thy ===== *)
theory Decimal_Division
  imports Decimal_Number
begin

text \<open>
  Division of \<^verbatim>\<open>Generics::Decimal\<close> (\<^verbatim>\<open>div_\<close>, \<^verbatim>\<open>div\<close> and the classes \<^verbatim>\<open>DivTmpArrayBase\<close>,
  \<^verbatim>\<open>DivTmpDividend\<close> and \<^verbatim>\<open>DivTmpDivisor\<close> of \<^verbatim>\<open>src/src/Generics/Decimal.tpp\<close>): schoolbook long division in
  the base \<open>10^18\<close>, which guesses every element of the quotient from the leading elements, subtracts,
  and corrects the guess.  The loop that corrects a guess has no bound of its own; it is an
  option-valued recursion, in which not returning (or a fault of \<^verbatim>\<open>divq\<close>) is \<open>None\<close>, and the division
  is shown to return.
\<close>

section \<open>Operations\<close>

record DivTmp =
  tmp_array :: "uint64 list"
  tmp_size :: nat
  initial_size :: nat

text \<open>An assertion of code that may not return.\<close>

definition need :: "bool \<Rightarrow> 'a result option \<Rightarrow> 'a result option" where
  "need b r = (if b then r else Some (Inl AssertionFailed))"

subsection \<open>DivTmpArrayBase\<close>

fun shrink_loop :: "uint64 list \<Rightarrow> nat \<Rightarrow> nat" where
  "shrink_loop xs n = (if n > 1 \<and> xs ! (n - 1) = 0 then shrink_loop xs (n - 1) else n)"

declare shrink_loop.simps [simp del]

definition shrink :: "DivTmp \<Rightarrow> DivTmp" where
  "shrink t =
     (let n = shrink_loop (tmp_array t) (tmp_size t)
      in t\<lparr>tmp_size := n, initial_size := if initial_size t = 0 then n else initial_size t\<rparr>)"

fun scale_loop :: "uint64 list \<Rightarrow> uint64 \<Rightarrow> uint64 \<Rightarrow> (uint64 list \<times> uint64) option" where
  "scale_loop [] multiplicator overflow = Some ([], overflow)"
| "scale_loop (x # xs) multiplicator overflow =
     (case mul_elements x multiplicator of
        None \<Rightarrow> None
      | Some (res, over) \<Rightarrow>
          let res = res + overflow;
              (res, over) = (if res \<ge> BASE then (res - BASE, over + 1) else (res, over))
          in map_option (\<lambda>(rest, overflow). (res # rest, overflow)) (scale_loop xs multiplicator over))"

definition tmp_mul :: "nat \<Rightarrow> uint64 \<Rightarrow> DivTmp \<Rightarrow> DivTmp result option" where
  "tmp_mul TMP_DIV_SIZE multiplicator t =
     (case scale_loop (take (tmp_size t) (tmp_array t)) multiplicator 0 of
        None \<Rightarrow> None
      | Some (low, overflow) \<Rightarrow>
          let xs = low @ drop (tmp_size t) (tmp_array t)
          in if overflow \<noteq> 0
             then need (tmp_size t < TMP_DIV_SIZE)
               (Some (Inr (t\<lparr>tmp_array := xs[tmp_size t := overflow], tmp_size := tmp_size t + 1\<rparr>)))
             else Some (Inr (t\<lparr>tmp_array := xs\<rparr>)))"

text \<open>From the last element down: the elements above are divided first.\<close>

fun short_div :: "uint64 list \<Rightarrow> uint64 \<Rightarrow> (uint64 list \<times> uint64) option" where
  "short_div [] divisor = Some ([], 0)"
| "short_div (x # xs) divisor =
     (case short_div xs divisor of
        None \<Rightarrow> None
      | Some (qs, r) \<Rightarrow> map_option (\<lambda>(q, r). (q # qs, r)) (div_elements r x divisor))"

definition tmp_div :: "uint64 \<Rightarrow> DivTmp \<Rightarrow> (DivTmp \<times> uint64) option" where
  "tmp_div divisor t =
     (case short_div (take (tmp_size t) (tmp_array t)) divisor of
        None \<Rightarrow> None
      | Some (qs, r) \<Rightarrow> Some (shrink (t\<lparr>tmp_array := qs @ drop (tmp_size t) (tmp_array t)\<rparr>), r))"

subsection \<open>DivTmpDividend and DivTmpDivisor\<close>

fun widen_loop :: "ranks \<Rightarrow> uint64 list \<Rightarrow> uint64 \<Rightarrow> uint64 list" where
  "widen_loop R [] over = [over]"
| "widen_loop R (x # xs) over =
     (x mod FRACTION_OVER R * FRACTION_REMAINDER R + over) # widen_loop R xs (x div FRACTION_OVER R)"

definition DivTmpDividend :: "ranks \<Rightarrow> Decimal \<Rightarrow> DivTmp" where
  "DivTmpDividend R dividend =
     (let xs = replicate (FRACTION_END R) 0 @
            (if FRACTION_REMAINDER R = 1 then array dividend else widen_loop R (array dividend) 0)
      in \<lparr>tmp_array = xs @ replicate (DIV_TMP_SIZE R - length xs) 0, tmp_size = DIV_TMP_SIZE R, initial_size = 0\<rparr>)"

definition DivTmpDivisor :: "ranks \<Rightarrow> Decimal \<Rightarrow> DivTmp" where
  "DivTmpDivisor R divider = \<lparr>tmp_array = array divider @ [0], tmp_size = SIZE R + 1, initial_size = 0\<rparr>"

definition max_element :: "DivTmp \<Rightarrow> uint64" where
  "max_element t = tmp_array t ! (tmp_size t - 1)"

definition pre_max_element :: "DivTmp \<Rightarrow> uint64" where
  "pre_max_element t = tmp_array t ! (tmp_size t - 2)"

text \<open>The loop of \<^verbatim>\<open>guess_next_quotient\<close>; \<open>low\<close> is the element below the two leading ones.\<close>

partial_function (option) guess_loop ::
  "uint64 \<Rightarrow> uint64 \<Rightarrow> uint64 \<Rightarrow> uint64 \<Rightarrow> uint64 \<Rightarrow> uint64 \<Rightarrow> uint64 option" where
  "guess_loop low max_div pre_max_div guess guess_high r =
     (if r < BASE then
        Option.bind (mul_elements pre_max_div guess) (\<lambda>(minor, major).
          let major = major + guess_high * pre_max_div
          in if (major < r \<or> major = r \<and> minor \<le> low) \<and> (guess_high \<noteq> 1 \<or> guess \<noteq> 0) then Some guess
             else if guess = 0 then guess_loop low max_div pre_max_div (BASE - 1) (guess_high - 1) (r + max_div)
             else guess_loop low max_div pre_max_div (guess - 1) guess_high (r + max_div))
      else Some guess)"

definition guess_next_quotient :: "uint64 list \<Rightarrow> nat \<Rightarrow> uint64 \<Rightarrow> uint64 \<Rightarrow> uint64 result option" where
  "guess_next_quotient xs index max_div pre_max_div =
     need (index \<ge> 1) (
     need (xs ! index \<le> max_div \<or> max_div div 2 < xs ! index) (
     let (high, guess_high) = (if xs ! index \<ge> max_div then (xs ! index - max_div, 1) else (xs ! index, 0))
     in case div_elements high (xs ! (index - 1)) max_div of
          None \<Rightarrow> None
        | Some (guess, r) \<Rightarrow>
            if r < BASE \<and> \<not> index \<ge> 2 then Some (Inl AssertionFailed)
            else map_option Inr (guess_loop (xs ! (index - 2)) max_div pre_max_div guess guess_high r)))"

fun apply_loop ::
  "uint64 list \<Rightarrow> uint64 list \<Rightarrow> uint64 \<Rightarrow> uint64 \<Rightarrow> uint64 \<Rightarrow> (uint64 list \<times> uint64 \<times> uint64) option" where
  "apply_loop (t # ts) (v # vs) guess carry borrow =
     (case mul_elements v guess of
        None \<Rightarrow> None
      | Some (temp, temp2) \<Rightarrow>
          let temp = temp + carry;
              (temp, carry) = (if temp \<ge> BASE then (temp - BASE, temp2 + 1) else (temp, temp2));
              temp = temp + borrow;
              (t, borrow) = (if t < temp then (t + (BASE - temp), 1) else (t - temp, 0))
          in map_option (\<lambda>(ts, carry, borrow). (t # ts, carry, borrow)) (apply_loop ts vs guess carry borrow))"
| "apply_loop ts vs guess carry borrow = Some ([], carry, borrow)"

definition apply_next_quotient ::
  "uint64 list \<Rightarrow> nat \<Rightarrow> uint64 \<Rightarrow> DivTmp \<Rightarrow> (uint64 list \<times> bool) result option" where
  "apply_next_quotient xs index guess divisor =
     (let n = initial_size divisor
      in need (index + n \<le> length xs) (
         if index + n \<ge> length xs then Some (Inl OutOfBounds)
         else case apply_loop (take n (drop index xs)) (take n (tmp_array divisor)) guess 0 0 of
           None \<Rightarrow> None
         | Some (low, carry, borrow) \<Rightarrow>
             let temp = carry + borrow; t = xs ! (index + n);
                 (t, borrow) = (if t < temp then (t + (BASE - temp), True) else (t - temp, False))
             in Some (Inr (take index xs @ low @ t # drop (index + n + 1) xs, borrow))))"

fun fix_loop :: "uint64 list \<Rightarrow> uint64 list \<Rightarrow> uint64 \<Rightarrow> uint64 list \<times> uint64" where
  "fix_loop (t # ts) (v # vs) carry =
     (let temp = t + v + carry;
          (t, carry) = (if temp \<ge> BASE then (temp - BASE, 1) else (temp, 0));
          (ts, carry) = fix_loop ts vs carry
      in (t # ts, carry))"
| "fix_loop ts vs carry = ([], carry)"

definition fix_next_quotient :: "uint64 list \<Rightarrow> nat \<Rightarrow> DivTmp \<Rightarrow> uint64 list" where
  "fix_next_quotient xs index divisor =
     (let n = initial_size divisor;
          (low, carry) = fix_loop (take n (drop index xs)) (take n (tmp_array divisor)) 0
      in take index xs @ low @ (xs ! (index + n) - (BASE - carry)) # drop (index + n + 1) xs)"

text \<open>\<^verbatim>\<open>export_to\<close>: the array of the quotient, or nothing when it is too big.\<close>

definition dividend_export :: "ranks \<Rightarrow> DivTmp \<Rightarrow> uint64 list option" where
  "dividend_export R t =
     (if tmp_array t ! (SIZE R - 1) \<ge> INTEGER_MAX_OVER R then None
      else if \<not> list_all (\<lambda>x. x = 0) (drop (SIZE R) (tmp_array t)) then None
      else Some (take (SIZE R) (tmp_array t)))"

subsection \<open>The division\<close>

text \<open>
  The loop over the elements of the quotient: \<open>Suc i\<close> elements are left, the next one is element \<open>i\<close>.
\<close>

fun div_loop ::
  "ranks \<Rightarrow> DivTmp \<Rightarrow> uint64 \<Rightarrow> uint64 \<Rightarrow> nat \<Rightarrow> DivTmp \<Rightarrow> uint64 list \<Rightarrow> (DivTmp \<times> uint64 list) result option" where
  "div_loop R divisor max_div pre_max_div 0 t quot = Some (Inr (t, quot))"
| "div_loop R divisor max_div pre_max_div (Suc i) t quot =
     then_do (guess_next_quotient (tmp_array t) (i + initial_size divisor) max_div pre_max_div) (\<lambda>guess.
     then_do (apply_next_quotient (tmp_array t) i guess divisor) (\<lambda>(xs, borrow).
       let guess = (if borrow then guess - 1 else guess);
           xs = (if borrow then fix_next_quotient xs i divisor else xs);
           t = t\<lparr>tmp_array := xs\<rparr>
       in if i = SIZE R then
            if guess \<noteq> 0 then Some (Inl Overflow)
            else div_loop R divisor max_div pre_max_div i t quot
          else if i = SIZE R - 1 \<and> guess \<ge> INTEGER_MAX_OVER R then Some (Inl Overflow)
          else div_loop R divisor max_div pre_max_div i (shrink t) (quot[i := guess])))"

declare div_loop.simps(2) [simp del]

definition div_slow :: "ranks \<Rightarrow> DivTmp \<Rightarrow> DivTmp \<Rightarrow> uint64 \<Rightarrow> uint64 list result option" where
  "div_slow R dividend_tmp divisor_tmp max_div =
     (let scale = BASE div (max_div + 1)
      in need (scale > 0 \<and> scale < BASE) (
         then_do (if scale > 1 then tmp_mul (DIV_TMP_SIZE R) scale dividend_tmp else Some (Inr dividend_tmp)) (\<lambda>dividend_tmp.
         then_do (if scale > 1 then tmp_mul (SIZE R + 1) scale divisor_tmp else Some (Inr divisor_tmp)) (\<lambda>divisor_tmp.
           let max_div = (if scale > 1 then max_element divisor_tmp else max_div);
               pre_max_div = pre_max_element divisor_tmp;
               i = initial_size dividend_tmp - initial_size divisor_tmp
           in if i > SIZE R then Some (Inl Overflow)
              else then_do (div_loop R divisor_tmp max_div pre_max_div (Suc i) dividend_tmp (replicate (SIZE R) 0))
                (\<lambda>(t, quot).
                   if scale > 1 then
                     case tmp_div scale t of
                       None \<Rightarrow> None
                     | Some (t, junk) \<Rightarrow> need (junk = 0) (Some (Inr quot))
                   else Some (Inr quot))))))"

text \<open>Whether the remainder is the dividend, and the quotient.\<close>

definition decimal_div_quotient :: "ranks \<Rightarrow> Decimal \<Rightarrow> Decimal \<Rightarrow> (bool \<times> Decimal) result option" where
  "decimal_div_quotient R dividend divisor =
     (let divisor_tmp = shrink (DivTmpDivisor R divisor); max_div = max_element divisor_tmp
      in if max_div = 0 then Some (Inl Overflow)
         else
           let dividend_tmp = shrink (DivTmpDividend R dividend);
               quot = (\<lambda>same xs. (same, \<lparr>negative = negative dividend \<noteq> negative divisor, array = xs\<rparr>))
           in if tmp_size dividend_tmp < tmp_size divisor_tmp
              then Some (Inr (quot True (replicate (SIZE R) 0)))
              else if tmp_size divisor_tmp = 1 then
                (case tmp_div max_div dividend_tmp of
                   None \<Rightarrow> None
                 | Some (t, r) \<Rightarrow>
                     (case dividend_export R t of
                        None \<Rightarrow> Some (Inl Overflow)
                      | Some xs \<Rightarrow> Some (Inr (quot False xs))))
              else then_do (div_slow R dividend_tmp divisor_tmp max_div) (\<lambda>xs. Some (Inr (quot False xs))))"

definition decimal_div_remainder :: "ranks \<Rightarrow> Decimal \<Rightarrow> Decimal \<Rightarrow> (Decimal \<times> Decimal) result option" where
  "decimal_div_remainder R dividend divisor =
     then_do (decimal_div_quotient R dividend divisor) (\<lambda>(same, quot).
       if same then Some (Inr (quot, dividend))
       else Some (rbind (decimal_mul R quot divisor DMR_FLOOR) (\<lambda>product.
              rmap (\<lambda>remainder. (quot, remainder)) (decimal_sub R dividend product))))"

subsection \<open>The smallest number\<close>

text \<open>
  The constructor from an integer and a fraction, by which \<^verbatim>\<open>EPSILON\<close> is made; a write behind the array is
  \<open>OutOfBounds\<close>.
\<close>

text \<open>\<open>n\<close> elements of a number, from the last digits on, and what is left of it.\<close>

fun base_elements :: "nat \<Rightarrow> int \<Rightarrow> uint64 list \<times> int" where
  "base_elements 0 v = ([], v)"
| "base_elements (Suc n) v =
     (let (xs, rest) = base_elements n (v div uint BASE) in (word_of_int (v mod uint BASE) # xs, rest))"

definition number_construct_parts :: "ranks \<Rightarrow> bool \<Rightarrow> int \<Rightarrow> int \<Rightarrow> Decimal result" where
  "number_construct_parts R neg integer fraction =
     (let (low, fraction) = base_elements (FRACTION_END R) fraction
      in if exceeds (word_of_int fraction) (FRACTION_REMAINDER R) then Inl Overflow
         else if FRACTION_END R \<ge> SIZE R then Inl OutOfBounds
         else
           let elem = word_of_int fraction + word_of_int (integer mod uint (FRACTION_OVER R)) * FRACTION_REMAINDER R;
               (high, integer) =
                 (if INTEGER_RANK R \<noteq> 0 then
                    let integer = integer div uint (FRACTION_OVER R);
                        (mid, integer) = base_elements (SIZE R - 1 - (FRACTION_END R + 1)) integer
                    in if FRACTION_END R + 1 < SIZE R
                       then (mid @ [word_of_int (integer mod uint (INTEGER_MAX_OVER R))],
                             integer div uint (INTEGER_MAX_OVER R))
                       else (mid, integer)
                  else ([], integer))
           in if integer \<noteq> 0 then Inl Overflow else Inr \<lparr>negative = neg, array = low @ elem # high\<rparr>)"

text \<open>
  \<^verbatim>\<open>EPSILON\<close>, one unit of the last place.  Where all digits are fraction digits and fill every element
  (\<^verbatim>\<open>FRACTION_END\<close> = \<^verbatim>\<open>SIZE\<close>) the first loop of the constructor fills the array and the assignment
  behind the loop writes one element too far (\<open>zero_out_of_bounds\<close>); the number is then what the
  loop leaves in the array.
\<close>

definition decimal_epsilon :: "ranks \<Rightarrow> Decimal" where
  "decimal_epsilon R =
     (let integer = (if FRACTION R \<noteq> 0 then 0 else 1); fraction = (if FRACTION R \<noteq> 0 then 1 else 0)
      in case number_construct_parts R False integer fraction of
           Inr d \<Rightarrow> d
         | Inl e \<Rightarrow> \<lparr>negative = False, array = fst (base_elements (SIZE R) fraction)\<rparr>)"

definition decimal_div :: "ranks \<Rightarrow> Decimal \<Rightarrow> Decimal \<Rightarrow> DecimalDivRemainder \<Rightarrow> Decimal result option" where
  "decimal_div R dividend divisor ddr =
     then_do (decimal_div_quotient R dividend divisor) (\<lambda>(same, quot).
       Some (if ddr = DDR_CEIL then
               rbind (decimal_mul R quot divisor DMR_FLOOR) (\<lambda>product.
                 if decimal_not_equal dividend product then
                   let (target, exceeds) = internal_add R quot (decimal_epsilon R)
                   in if exceeds then Inl Overflow else Inr (quot\<lparr>array := target\<rparr>)
                 else Inr quot)
             else Inr quot))"

section \<open>Arrays\<close>

lemma need_True [simp]: "need True r = r"
  by (simp add: need_def)

text \<open>The elements from position \<open>n\<close> on are zero exactly when the number has \<open>n\<close> elements.\<close>

lemma value_of_zeros:
  assumes "elems_ok xs" "n \<le> length xs"
  shows "value_of xs < NB ^ n \<longleftrightarrow> value_of (drop n xs) = 0"
proof -
  have v: "value_of xs = value_of (take n xs) + NB ^ n * value_of (drop n xs)"
    using value_of_take_drop [of xs n] assms(2) by (simp add: min_absorb2)
  show ?thesis
  proof (cases "value_of (drop n xs)")
    case 0
    with v value_of_take_less [OF assms] show ?thesis by simp
  next
    case (Suc k)
    with v show ?thesis by simp
  qed
qed

lemma value_of_take_all:
  assumes "elems_ok xs" "n \<le> length xs" "value_of xs < NB ^ n"
  shows "value_of (take n xs) = value_of xs"
  using value_of_zeros [OF assms(1,2)] assms(3) value_of_take_drop [of xs n] by simp

text \<open>\<^verbatim>\<open>shrink\<close> finds the last element that is not zero.\<close>

lemma shrink_loop_correct:
  assumes "elems_ok xs" "0 < n" "n \<le> length xs" "value_of xs < NB ^ n"
  shows "0 < shrink_loop xs n \<and> shrink_loop xs n \<le> n \<and> value_of xs < NB ^ shrink_loop xs n \<and>
    (xs ! (shrink_loop xs n - 1) = 0 \<longrightarrow> value_of xs = 0) \<and>
    (NB ^ (shrink_loop xs n - 1) \<le> value_of xs \<or> shrink_loop xs n = 1)"
  using assms(2-)
proof (induction n rule: less_induct)
  case (less n)
  have top: "value_of xs < NB ^ (n - 1) * k \<longleftrightarrow> unat (xs ! (n - 1)) < k" for k
    using value_of_top [OF elems_ok_take_drop(1) [OF assms(1)], of n "n - 1" k] less.prems
      value_of_take_all [OF assms(1) less.prems(2,3)] by simp
  show ?case
  proof (cases "n > 1 \<and> xs ! (n - 1) = 0")
    case True
    with top [of 1] have "value_of xs < NB ^ (n - 1)" by simp
    moreover have "n - 1 < n" "0 < n - 1" "n - 1 \<le> length xs" using True less.prems by simp_all
    ultimately show ?thesis
      using less.IH [of "n - 1"] True less_imp_le [OF \<open>n - 1 < n\<close>]
      by (auto simp: shrink_loop.simps [of xs n] intro: order_trans)
  next
    case False
    then have s: "shrink_loop xs n = n" by (auto simp: shrink_loop.simps [of xs n])
    have z: "xs ! (n - 1) = 0 \<longrightarrow> value_of xs = 0"
      using False less.prems top [of 1] by (cases "n = 1") simp_all
    have "NB ^ (n - 1) \<le> value_of xs" if "xs ! (n - 1) \<noteq> 0"
      using top [of 1] that by (auto simp: not_less [symmetric] unat_eq_zero)
    with False have "NB ^ (n - 1) \<le> value_of xs \<or> n = 1" using less.prems(1) by (cases "n = 1") auto
    with s less.prems z show ?thesis by simp
  qed
qed

text \<open>A temporary array: its elements, and nothing above its size.\<close>

definition div_tmp_ok :: "DivTmp \<Rightarrow> bool" where
  "div_tmp_ok t \<longleftrightarrow> elems_ok (tmp_array t) \<and> 0 < tmp_size t \<and> tmp_size t \<le> length (tmp_array t) \<and>
     value_of (tmp_array t) < NB ^ tmp_size t"

abbreviation tmp_value :: "DivTmp \<Rightarrow> nat" where
  "tmp_value t \<equiv> value_of (tmp_array t)"

lemma shrink_correct:
  assumes "div_tmp_ok t"
  shows "div_tmp_ok (shrink t)" "tmp_array (shrink t) = tmp_array t"
    "max_element (shrink t) = 0 \<longleftrightarrow> tmp_value t = 0"
    "NB ^ (tmp_size (shrink t) - 1) \<le> tmp_value t \<or> tmp_size (shrink t) = 1"
    "initial_size (shrink t) = (if initial_size t = 0 then tmp_size (shrink t) else initial_size t)"
proof -
  have a: "elems_ok (tmp_array t)" "0 < tmp_size t" "tmp_size t \<le> length (tmp_array t)" "tmp_value t < NB ^ tmp_size t"
    using assms by (simp_all add: div_tmp_ok_def)
  note s = shrink_loop_correct [OF a]
  have n: "tmp_size (shrink t) = shrink_loop (tmp_array t) (tmp_size t)" by (simp add: shrink_def Let_def)
  show arr: "tmp_array (shrink t) = tmp_array t"
    "initial_size (shrink t) = (if initial_size t = 0 then tmp_size (shrink t) else initial_size t)"
    by (simp_all add: shrink_def Let_def)
  show "div_tmp_ok (shrink t)" unfolding div_tmp_ok_def n arr using a s by auto
  show "NB ^ (tmp_size (shrink t) - 1) \<le> tmp_value t \<or> tmp_size (shrink t) = 1" unfolding n using s by blast
  show "max_element (shrink t) = 0 \<longleftrightarrow> tmp_value t = 0"
    unfolding max_element_def n arr
  proof
    assume "tmp_value t = 0"
    then have "list_all (\<lambda>x. x = 0) (tmp_array t)" by (simp only: value_of_zero_iff)
    moreover have "shrink_loop (tmp_array t) (tmp_size t) - 1 < length (tmp_array t)" using s a(3) by linarith
    ultimately show "tmp_array t ! (shrink_loop (tmp_array t) (tmp_size t) - 1) = 0" by (simp add: list_all_length)
  qed (use s in simp)
qed


section \<open>Guessing an element of the quotient\<close>

text \<open>
  The numbers of one step: \<open>u0\<close>, \<open>u1\<close>, \<open>u2\<close> are the leading elements of the dividend, \<open>v1\<close>, \<open>v2\<close> those of
  the divisor, \<open>P\<close> is the weight of \<open>u2\<close> and of \<open>v2\<close>, \<open>ul\<close> and \<open>vl\<close> are what is below.
\<close>

record leading =
  u0 :: nat
  u1 :: nat
  u2 :: nat
  ul :: nat
  v1 :: nat
  v2 :: nat
  vl :: nat
  weight :: nat

definition lead_u :: "leading \<Rightarrow> nat" where
  "lead_u L = NB * (NB * u0 L + u1 L) + u2 L"

definition lead_v :: "leading \<Rightarrow> nat" where
  "lead_v L = NB * v1 L + v2 L"

definition all_u :: "leading \<Rightarrow> nat" where
  "all_u L = weight L * lead_u L + ul L"

definition all_v :: "leading \<Rightarrow> nat" where
  "all_v L = weight L * lead_v L + vl L"

definition leading_ok :: "leading \<Rightarrow> bool" where
  "leading_ok L \<longleftrightarrow> u0 L < NB \<and> u1 L < NB \<and> u2 L < NB \<and> 0 < v1 L \<and> v1 L < NB \<and> v2 L < NB \<and>
     ul L < weight L \<and> vl L < weight L \<and> all_u L < all_v L * NB"

lemma leading_bound:
  assumes "leading_ok L"
  shows "lead_u L < (lead_v L + 1) * NB" "u0 L \<le> v1 L" "NB \<le> lead_v L" "0 < weight L" "0 < all_v L"
proof -
  have ok: "0 < v1 L" "v2 L < NB" "vl L < weight L" "all_u L < all_v L * NB" using assms by (simp_all add: leading_ok_def)
  then show w: "0 < weight L" by simp
  have "NB * 1 \<le> NB * v1 L" using ok(1) by (intro mult_le_mono2) simp
  then show V: "NB \<le> lead_v L" unfolding lead_v_def by linarith
  with w show "0 < all_v L" by (simp add: all_v_def) (meson NB_pos(1) order_less_le_trans)
  have "all_v L \<le> weight L * (lead_v L + 1)" using ok(3) by (simp add: all_v_def)
  then have "all_v L * NB \<le> weight L * (lead_v L + 1) * NB" by (rule mult_right_mono) simp
  with ok(4) have "all_u L < weight L * ((lead_v L + 1) * NB)" unfolding mult.assoc by linarith
  then have "weight L * lead_u L < weight L * ((lead_v L + 1) * NB)" unfolding all_u_def by linarith
  then show U: "lead_u L < (lead_v L + 1) * NB" by simp
  have "lead_v L + 1 \<le> NB * (v1 L + 1)" using ok(2) by (simp add: lead_v_def)
  then have "(lead_v L + 1) * NB \<le> NB * (v1 L + 1) * NB" by (rule mult_right_mono) simp
  with U have "(NB * NB) * u0 L < (NB * NB) * (v1 L + 1)" by (simp add: lead_u_def algebra_simps)
  then have "u0 L < v1 L + 1" unfolding mult_less_cancel1 by simp
  then show "u0 L \<le> v1 L" by simp
qed

text \<open>A guess whose product with the two leading elements is too big is too big.\<close>

lemma guess_too_big:
  assumes "leading_ok L" "lead_u L < q * lead_v L"
  shows "all_u L div all_v L < q"
proof -
  have ul: "ul L < weight L" using assms(1) by (simp add: leading_ok_def)
  have "weight L * (lead_u L + 1) \<le> weight L * (q * lead_v L)" using assms(2) by (intro mult_le_mono2) simp
  with ul have "all_u L < weight L * (q * lead_v L)" unfolding all_u_def distrib_left by linarith
  also have "\<dots> = q * (weight L * lead_v L)" by (rule mult.left_commute)
  also have "\<dots> \<le> q * all_v L" unfolding all_v_def by (rule mult_le_mono2) simp
  finally show ?thesis by (simp add: div_less_iff_less_mult leading_bound [OF assms(1)])
qed

text \<open>Any other guess below the base is at most one too big.\<close>

lemma guess_fits:
  assumes "leading_ok L" "q * lead_v L \<le> lead_u L"
  shows "q \<le> NB" "q \<le> Suc (all_u L div all_v L)"
proof -
  note b = leading_bound [OF assms(1)]
  have vl: "vl L < weight L" using assms(1) by (simp add: leading_ok_def)
  show q: "q \<le> NB"
  proof (rule ccontr)
    assume "\<not> q \<le> NB"
    then have "(NB + 1) * lead_v L \<le> q * lead_v L" by (intro mult_right_mono) simp_all
    with assms(2) b(1,3) show False by (simp add: algebra_simps)
  qed
  show "q \<le> Suc (all_u L div all_v L)"
  proof (cases q)
    case (Suc p)
    have "p * vl L \<le> lead_v L * weight L" using q Suc b(3) vl by (intro mult_le_mono) simp_all
    then have "p * all_v L \<le> weight L * (q * lead_v L)" by (simp add: all_v_def Suc algebra_simps)
    also have "\<dots> \<le> weight L * lead_u L" using assms(2) by (rule mult_le_mono2)
    also have "\<dots> \<le> all_u L" by (simp add: all_u_def)
    finally show ?thesis by (simp add: Suc less_eq_div_iff_mult_less_eq b)
  qed simp
qed


lemma element_order:
  assumes "l < NB" "u < NB"
  shows "h < r \<or> h = r \<and> l \<le> u \<longleftrightarrow> l + NB * h \<le> NB * r + (u :: nat)"
proof -
  have "l + NB * h \<le> NB * r + u \<longleftrightarrow> \<not> NB * r + u < l + NB * h" by (rule not_less [symmetric])
  also have "\<dots> \<longleftrightarrow> h < r \<or> h = r \<and> l \<le> u"
  proof (cases h r rule: linorder_cases)
    case less
    with add_mult_less [OF assms(1) less] show ?thesis by simp
  next
    case greater
    with add_mult_less [OF assms(2) greater] show ?thesis by simp
  qed (simp add: not_less)
  finally show ?thesis ..
qed

lemma guess_decrement:
  assumes "0 < unat guess + NB * unat high" "unat guess < NB" "unat high \<le> 1"
  shows "unat (if guess = 0 then BASE - 1 else guess - 1 :: uint64) +
      NB * unat (if guess = 0 then high - 1 else high :: uint64) + 1 = unat guess + NB * unat high \<and>
    unat (if guess = 0 then BASE - 1 else guess - 1) < NB \<and> unat (if guess = 0 then high - 1 else high) \<le> 1"
proof (cases "guess = 0")
  case True
  with assms have h: "unat high = 1" by (cases "unat high") simp_all
  then have "high = 1" by (simp add: word_unat_eq_iff)
  moreover have "unat (BASE - 1) = NB - 1" by (simp add: BASE_def Pow10_def DIGITS_PER_ELEMENT_def NB_def)
  ultimately show ?thesis using True by simp
next
  case False
  then have "unat (guess - 1) = unat guess - 1" "0 < unat guess" by (simp_all add: unat_minus_one unat_gt_0)
  with False assms show ?thesis by simp
qed

text \<open>
  The loop starts from the quotient of the two leading elements of the dividend by the leading element of
  the divisor and \<open>r\<close> is the remainder that belongs to the current guess; the loop returns.
\<close>

lemma guess_loop_correct:
  assumes "leading_ok L" "unat low = u2 L" "unat w1 = v1 L" "unat w2 = v2 L"
    "(unat guess + NB * unat high) * v1 L + unat r = NB * u0 L + u1 L"
    "all_u L div all_v L \<le> unat guess + NB * unat high" "unat guess < NB" "unat high \<le> 1" "unat r < 2 * NB"
  shows "\<exists>g. guess_loop low w1 w2 guess high r = Some g \<and> unat g < NB \<and>
    all_u L div all_v L \<le> unat g \<and> unat g \<le> Suc (all_u L div all_v L)"
  using assms(5-9)
proof (induction "2 * NB - unat r" arbitrary: guess high r rule: less_induct)
  case less
  let ?q = "unat guess + NB * unat high" and ?a = "all_u L div all_v L"
  note b = leading_bound [OF assms(1)]
  have ok: "0 < v1 L" "v1 L < NB" "v2 L < NB" "u2 L < NB" "u1 L < NB" "all_u L < all_v L * NB"
    using assms(1) by (simp_all add: leading_ok_def)
  have U: "lead_u L = ?q * (NB * v1 L) + NB * unat r + u2 L" unfolding lead_u_def less.prems(1) [symmetric] by (simp add: algebra_simps)
  have fit: "?q * lead_v L \<le> lead_u L \<longleftrightarrow> ?q * v2 L \<le> NB * unat r + u2 L"
    unfolding U lead_v_def by (simp add: algebra_simps)
  have a: "?a < NB" using ok(6) b(5) by (simp add: div_less_iff_less_mult mult.commute)
  have stop: "\<exists>g. Some guess = Some g \<and> unat g < NB \<and> ?a \<le> unat g \<and> unat g \<le> Suc ?a"
    if "?q * lead_v L \<le> lead_u L" "?q \<noteq> NB"
  proof -
    have "?q < NB" "?q \<le> Suc ?a" using guess_fits [OF assms(1) that(1)] that(2) by simp_all
    then have "unat high = 0" by (cases "unat high") simp_all
    with \<open>?q \<le> Suc ?a\<close> less.prems show ?thesis by simp
  qed
  show ?case
  proof (cases "r < BASE")
    case False
    then have r: "NB \<le> unat r" by (simp add: word_less_nat_alt unat_BASE)
    have "NB * u0 L \<le> NB * v1 L" using b(2) by (rule mult_le_mono2)
    with less.prems(1) r ok(5) have "?q * v1 L < NB * v1 L" by linarith
    then have q: "?q < NB" by simp
    then have "?q * v2 L \<le> NB * NB" using ok(3) by (intro mult_le_mono) simp_all
    also have "\<dots> \<le> NB * unat r" using r by (rule mult_le_mono2)
    finally show ?thesis using stop fit q False by (simp add: guess_loop.simps [of low w1 w2 guess])
  next
    case True
    then have r: "unat r < NB" by (simp add: word_less_nat_alt unat_BASE)
    have w2: "unat w2 < NB" using assms(4) ok by simp
    from mul_elements_correct [OF w2 less.prems(3)] obtain l h where m: "mul_elements w2 guess = Some (l, h)"
      "unat l < NB" "unat h < NB" "unat l + NB * unat h = v2 L * unat guess" unfolding assms(4) by blast
    define major where "major = h + high * w2"
    have "unat (high * w2) = unat high * v2 L"
      using less.prems(4) ok(3) NB_bound by (subst unat_mult_64; cases "unat high") (simp_all add: assms(4))
    moreover have "unat high * v2 L \<le> 1 * NB" using less.prems(4) ok(3) by (intro mult_le_mono) simp_all
    ultimately have major: "unat major = unat h + unat high * v2 L"
      unfolding major_def using m(3) NB_bound by (subst unat_add_64) simp_all
    have prod: "?q * v2 L = unat l + NB * unat major" using m(4) by (simp add: major algebra_simps)
    have test: "major < r \<or> major = r \<and> l \<le> low \<longleftrightarrow> ?q * lead_v L \<le> lead_u L"
      unfolding fit prod word_less_nat_alt word_le_nat_alt word_unat_eq_iff assms(2)
      by (rule element_order [OF m(2) ok(4)])
    have one: "high \<noteq> 1 \<or> guess \<noteq> 0 \<longleftrightarrow> ?q \<noteq> NB"
      using less.prems(3,4) by (cases "unat high") (auto simp: word_unat_eq_iff)
    note loop = guess_loop.simps [of low w1 w2 guess high r]
    show ?thesis
    proof (cases "?q * lead_v L \<le> lead_u L \<and> ?q \<noteq> NB")
      case T: True
      with stop test one show ?thesis unfolding loop if_P [OF True] m(1) by (simp add: major_def)
    next
      case F: False
      then have too_big: "?a < ?q"
        using guess_too_big [OF assms(1), of ?q] a by (cases "?q = NB") (simp_all add: not_le)
      define guess' where "guess' = (if guess = 0 then BASE - 1 else guess - 1)"
      define high' where "high' = (if guess = 0 then high - 1 else high)"
      have step: "guess_loop low w1 w2 guess high r = guess_loop low w1 w2 guess' high' (r + w1)"
        using F test one unfolding loop if_P [OF True] m(1) by (auto simp: major_def guess'_def high'_def)
      have next_q: "unat guess' + NB * unat high' + 1 = ?q" "unat guess' < NB" "unat high' \<le> 1"
        using guess_decrement [OF _ less.prems(3,4)] too_big unfolding guess'_def high'_def by fastforce+
      have "unat (r + w1) = unat r + v1 L" using r ok(2) NB_bound(1) by (subst unat_add_64) (simp_all add: assms(3))
      moreover from this have "(unat guess' + NB * unat high') * v1 L + unat (r + w1) = NB * u0 L + u1 L"
        using less.prems(1) unfolding next_q(1) [symmetric] by (simp add: algebra_simps)
      ultimately show ?thesis
        unfolding step using next_q r ok(1,2) too_big by (intro less.hyps) simp_all
    qed
  qed
qed


lemma apply_digit:
  assumes "unat t < NB" "unat temp < NB" "unat borrow \<le> 1"
  defines "s \<equiv> temp + borrow :: uint64"
  shows "unat (if t < s then t + (BASE - s) else t - s) + unat temp + unat borrow =
      unat t + NB * unat (if t < s then 1 else 0 :: uint64) \<and>
    unat (if t < s then t + (BASE - s) else t - s) < NB"
proof -
  have s: "unat s = unat temp + unat borrow"
    unfolding s_def using assms(2,3) NB_bound by (subst unat_add_64) simp_all
  show ?thesis
  proof (cases "t < s")
    case True
    have le: "s \<le> BASE" using s assms(2,3) by (simp add: word_le_nat_alt unat_BASE)
    have "unat (t + (BASE - s)) = unat t + (NB - unat s)"
      using assms(1) NB_bound le by (subst unat_add_64) (simp_all add: unat_sub unat_BASE)
    moreover have "unat s \<le> NB" using le by (simp add: word_le_nat_alt unat_BASE)
    ultimately show ?thesis using True s by (simp add: word_less_nat_alt)
  next
    case False
    then have "unat (t - s) = unat t - unat s" "unat s \<le> unat t" by (simp_all add: unat_sub word_le_nat_alt not_less)
    with False s assms(1) show ?thesis by simp
  qed
qed

section \<open>Subtracting a multiple of the divisor\<close>

lemma carry_digit:
  assumes "unat l < NB" "unat h < NB" "unat c < NB" "unat l + NB * unat h = unat x * unat y" "unat x < NB" "unat y < NB"
  shows "unat (if l + c \<ge> BASE then l + c - BASE else l + c) + NB * unat (if l + c \<ge> BASE then h + 1 else h) =
      unat x * unat y + unat c \<and>
    unat (if l + c \<ge> BASE then l + c - BASE else l + c) < NB \<and> unat (if l + c \<ge> BASE then h + 1 else h :: uint64) < NB"
    (is "unat ?t + NB * unat ?h = _ \<and> _")
proof -
  have lc: "unat (l + c) = unat l + unat c" using assms(1,3) NB_bound by (subst unat_add_64) simp_all
  have "unat (h + 1) = unat h + 1" using assms(2) NB_bound by (subst unat_add_64) simp_all
  then have t: "unat ?t + NB * unat ?h = unat x * unat y + unat c" "unat ?t < NB"
    using lc assms by (auto simp: word_le_nat_alt unat_BASE unat_sub algebra_simps)
  have "unat x * unat y \<le> (NB - 1) * unat y" using assms(5) by (intro mult_le_mono) simp_all
  moreover have "(NB - 1) * unat y \<le> (NB - 1) * NB" using assms(6) by (intro mult_le_mono2) simp
  moreover have "(NB - 1) * NB + NB = NB * NB" using le_square [of NB] by (simp add: diff_mult_distrib)
  ultimately have "NB * unat ?h < NB * NB" using t(1) assms(3) by linarith
  then have "unat ?h < NB" by simp
  with t show ?thesis by blast
qed

lemma apply_loop_correct:
  assumes "length ts = length vs" "elems_ok ts" "elems_ok vs" "unat guess < NB" "unat carry < NB" "unat borrow \<le> 1"
  shows "\<exists>zs c b. apply_loop ts vs guess carry borrow = Some (zs, c, b) \<and> length zs = length ts \<and> elems_ok zs \<and>
    unat c < NB \<and> unat b \<le> 1 \<and>
    value_of zs + unat guess * value_of vs + unat carry + unat borrow =
      value_of ts + NB ^ length ts * (unat c + unat b)"
  using assms
proof (induction ts vs arbitrary: carry borrow rule: list_induct2)
  case (Cons t ts v vs)
  have el: "unat t < NB" "unat v < NB" "elems_ok ts" "elems_ok vs" using Cons.prems by simp_all
  from mul_elements_correct [OF el(2) Cons.prems(3)] obtain l h where m: "mul_elements v guess = Some (l, h)"
    "unat l < NB" "unat h < NB" "unat l + NB * unat h = unat v * unat guess" by blast
  define temp where "temp = (if l + carry \<ge> BASE then l + carry - BASE else l + carry)"
  define carry' where "carry' = (if l + carry \<ge> BASE then h + 1 else h)"
  define t' where "t' = (if t < temp + borrow then t + (BASE - (temp + borrow)) else t - (temp + borrow))"
  define borrow' :: uint64 where "borrow' = (if t < temp + borrow then 1 else 0)"
  have step: "apply_loop (t # ts) (v # vs) guess carry borrow =
    map_option (\<lambda>(ts, carry, borrow). (t' # ts, carry, borrow)) (apply_loop ts vs guess carry' borrow')"
    unfolding apply_loop.simps m(1) by (simp add: Let_def temp_def carry'_def t'_def borrow'_def)
  have temp: "unat temp + NB * unat carry' = unat v * unat guess + unat carry" "unat temp < NB" and carry': "unat carry' < NB"
    using carry_digit [OF m(2,3) Cons.prems(4) m(4) el(2) Cons.prems(3)] unfolding temp_def carry'_def by simp_all
  have t': "unat t' + unat temp + unat borrow = unat t + NB * unat borrow'" "unat t' < NB"
    using apply_digit [OF el(1) temp(2) Cons.prems(5)] unfolding t'_def borrow'_def by simp_all
  have b': "unat borrow' \<le> 1" by (simp add: borrow'_def)
  from Cons.IH [OF el(3,4) Cons.prems(3) carry' b'] obtain zs c b where IH:
    "apply_loop ts vs guess carry' borrow' = Some (zs, c, b)" "length zs = length ts" "elems_ok zs" "unat c < NB" "unat b \<le> 1"
    "value_of zs + unat guess * value_of vs + unat carry' + unat borrow' = value_of ts + NB ^ length ts * (unat c + unat b)"
    by blast
  have "NB * (value_of zs + unat guess * value_of vs + unat carry' + unat borrow') =
      NB * (value_of ts + NB ^ length ts * (unat c + unat b))" unfolding IH(6) ..
  with t'(1) temp(1) have "value_of (t' # zs) + unat guess * value_of (v # vs) + unat carry + unat borrow =
      value_of (t # ts) + NB ^ length (t # ts) * (unat c + unat b)"
    by (simp add: algebra_simps)
  with IH t'(2) show ?case unfolding step by simp
qed simp

lemma fix_loop_correct:
  assumes "length ts = length vs" "elems_ok ts" "elems_ok vs" "unat carry \<le> 1" "fix_loop ts vs carry = (zs, c)"
  shows "length zs = length ts \<and> elems_ok zs \<and> unat c \<le> 1 \<and>
    value_of zs + NB ^ length ts * unat c = value_of ts + value_of vs + unat carry"
proof -
  have "fix_loop ts vs carry = add_loop ts vs carry"
    by (induction ts vs carry rule: fix_loop.induct) (simp_all add: Let_def split: prod.splits)
  with add_loop_correct [OF assms(1-4)] assms(5) show ?thesis by simp
qed


lemma NB_less_word: "NB \<le> 2 ^ 64"
  using NB_bound(1) by linarith

lemma div_elements_correct:
  assumes "unat high < unat d" "unat low < NB" "unat d < NB"
  shows "\<exists>q r. div_elements high low d = Some (q, r) \<and> unat q < NB \<and> unat r < unat d \<and>
    unat q * unat d + unat r = NB * unat high + unat low"
proof -
  let ?n = "NB * unat high + unat low"
  obtain e a where ea: "mulq high BASE = (e, a)" by fastforce
  have n: "unat e * 2 ^ 64 + unat a = NB * unat high" using mulq_correct [OF ea] by (simp add: unat_BASE mult.commute)
  define c :: uint64 where "c = (if unat a + unat low \<ge> 2 ^ 64 then 1 else 0)"
  have "NB * unat high + unat low < NB * unat d" using add_mult_less [OF assms(2,1)] by (simp add: add.commute)
  then have q: "?n div unat d < NB" "?n < 2 ^ 64 * unat d"
    using assms(1) mult_le_mono1 [OF NB_less_word, of "unat d"] by (simp add: div_less_iff_less_mult, linarith)
  have sum: "unat (a + low) + 2 ^ 64 * unat c = unat a + unat low"
  proof (cases "unat a + unat low < 2 ^ 64")
    case False
    then have "unat (a + low) = unat a + unat low - 2 ^ 64"
      using unat_less_64 [of a] unat_less_64 [of low] by (simp add: unat_word_ariths mod_if)
    with False show ?thesis by (simp add: c_def)
  qed (simp add: c_def unat_add_64)
  have "unat e + unat c < 2 ^ 64"
  proof -
    have "2 ^ 64 * (unat e + unat c) \<le> ?n" using n sum by (simp add: algebra_simps)
    also have "\<dots> < 2 ^ 64 * unat d" by (rule q(2))
    finally show ?thesis using unat_less_64 [of d] unfolding mult_less_cancel1 by linarith
  qed
  then have "unat (e + c) * 2 ^ 64 + unat (a + low) = ?n"
    using n sum by (subst unat_add_64) (simp_all add: algebra_simps)
  moreover have "d \<noteq> 0" using assms(1) by (intro notI) simp
  moreover have "?n div unat d < 2 ^ 64" using q(1) NB_bound(1) by linarith
  ultimately obtain q' r' where qr: "divq (e + c) (a + low) d = Some (q', r')"
    "unat q' = ?n div unat d" "unat r' = ?n mod unat d" using divq_correct [of d "e + c" "a + low" ?n] by blast
  then have "div_elements high low d = Some (q', r')"
    by (simp add: div_elements_def div_elem_def ea c_def)
  with qr q(1) assms(1) show ?thesis by simp
qed

definition split_high :: "uint64 \<Rightarrow> uint64 \<Rightarrow> uint64 \<times> uint64" where
  "split_high u w = (if u \<ge> w then (u - w, 1) else (u, 0))"

lemma first_guess:
  assumes L: "leading_ok L" and "unat u = u0 L" "unat w = v1 L" "unat u' = u1 L"
  shows "\<exists>g r. div_elements (fst (split_high u w)) u' w = Some (g, r) \<and>
    (unat g + NB * unat (snd (split_high u w))) * v1 L + unat r = NB * u0 L + u1 L \<and>
    all_u L div all_v L \<le> unat g + NB * unat (snd (split_high u w)) \<and> unat g < NB \<and>
    unat (snd (split_high u w)) \<le> 1 \<and> unat r < NB"
proof -
  obtain h c where s: "split_high u w = (h, c)" by fastforce
  note b = leading_bound [OF L]
  have v: "0 < v1 L" "v1 L < NB" "u1 L < NB" using L by (simp_all add: leading_ok_def)
  have h: "unat h + unat c * v1 L = u0 L" "unat h < unat w" "unat c \<le> 1"
    using s b(2) assms(2,3) v(1) by (auto simp: split_high_def unat_sub word_le_nat_alt split: if_splits)
  from div_elements_correct [OF h(2)] assms(3,4) v obtain g r where g: "div_elements h u' w = Some (g, r)"
    "unat g < NB" "unat r < v1 L" "unat g * v1 L + unat r = NB * unat h + u1 L" by metis
  have eq: "(unat g + NB * unat c) * v1 L + unat r = NB * u0 L + u1 L"
    unfolding h(1) [symmetric] using g(4) by (simp add: algebra_simps)
  have "lead_u L < Suc (unat g + NB * unat c) * lead_v L"
  proof -
    have "NB * u0 L + u1 L < Suc (unat g + NB * unat c) * v1 L" using eq g(3) by simp
    then have "NB * (NB * u0 L + u1 L + 1) \<le> NB * (Suc (unat g + NB * unat c) * v1 L)" by (intro mult_le_mono2) simp
    moreover have "u2 L < NB" using L by (simp add: leading_ok_def)
    ultimately have "lead_u L < Suc (unat g + NB * unat c) * (NB * v1 L)" unfolding lead_u_def by (simp add: algebra_simps)
    also have "\<dots> \<le> Suc (unat g + NB * unat c) * lead_v L" unfolding lead_v_def by (intro mult_le_mono2) simp
    finally show ?thesis .
  qed
  from guess_too_big [OF L this] have "all_u L div all_v L \<le> unat g + NB * unat c" by simp
  with g eq h v show ?thesis unfolding s by auto
qed

section \<open>One element of the quotient\<close>

text \<open>The divisor as the loop has it: at least two elements, the last of which is not zero.\<close>

definition divisor_ok :: "DivTmp \<Rightarrow> uint64 \<Rightarrow> uint64 \<Rightarrow> bool" where
  "divisor_ok D max_div pre_max_div \<longleftrightarrow> elems_ok (tmp_array D) \<and> 2 \<le> initial_size D \<and>
     initial_size D \<le> length (tmp_array D) \<and> tmp_value D < NB ^ initial_size D \<and> max_div \<noteq> 0 \<and>
     max_div = tmp_array D ! (initial_size D - 1) \<and> pre_max_div = tmp_array D ! (initial_size D - 2)"

text \<open>The window of the dividend that a step works on.\<close>

definition window :: "nat \<Rightarrow> nat \<Rightarrow> uint64 list \<Rightarrow> uint64 list" where
  "window i n xs = take (Suc n) (drop i xs)"

lemma value_of_take2:
  "Suc k < length xs \<Longrightarrow> value_of (take (Suc (Suc k)) xs) =
    NB ^ k * (NB * unat (xs ! Suc k) + unat (xs ! k)) + value_of (take k xs)"
  by (simp add: value_of_take_Suc algebra_simps)

lemma value_of_take3:
  "Suc (Suc k) < length xs \<Longrightarrow> value_of (take (Suc (Suc (Suc k))) xs) =
    NB ^ k * (NB * (NB * unat (xs ! Suc (Suc k)) + unat (xs ! Suc k)) + unat (xs ! k)) + value_of (take k xs)"
  by (simp add: value_of_take_Suc algebra_simps)

lemma guess_next_quotient_correct:
  assumes D: "divisor_ok D w1 w2" and xs: "elems_ok xs" "i + initial_size D < length xs"
    and less: "value_of (window i (initial_size D) xs) < tmp_value D * NB"
  defines "q \<equiv> value_of (window i (initial_size D) xs) div tmp_value D"
  shows "\<exists>g. guess_next_quotient xs (i + initial_size D) w1 w2 = Some (Inr g) \<and> unat g < NB \<and> q \<le> unat g \<and> unat g \<le> Suc q"
proof -
  have d: "elems_ok (tmp_array D)" "initial_size D \<le> length (tmp_array D)" "2 \<le> initial_size D" "w1 \<noteq> 0"
    "w1 = tmp_array D ! (initial_size D - 1)" "w2 = tmp_array D ! (initial_size D - 2)"
    "tmp_value D < NB ^ initial_size D" using D unfolding divisor_ok_def by blast+
  obtain k where k: "initial_size D = Suc (Suc k)" using d(3) by (metis add_2_eq_Suc le_Suc_ex)
  define L where "L = \<lparr>u0 = unat (xs ! (i + Suc (Suc k))), u1 = unat (xs ! (i + Suc k)), u2 = unat (xs ! (i + k)),
    ul = value_of (take k (drop i xs)), v1 = unat w1, v2 = unat w2, vl = value_of (take k (tmp_array D)), weight = NB ^ k\<rparr>"
  have au: "all_u L = value_of (window i (initial_size D) xs)"
    unfolding window_def k using value_of_take3 [of k "drop i xs"] xs(2) k by (simp add: all_u_def lead_u_def L_def)
  have av: "all_v L = tmp_value D"
    using value_of_take_all [OF d(1,2,7)] value_of_take2 [of k "tmp_array D"] d(2,5,6) k
    by (simp add: all_v_def lead_v_def L_def)
  have el: "unat (xs ! j) < NB" if "j \<le> i + Suc (Suc k)" for j using elems_ok_nth [OF xs(1)] that xs(2) k by simp
  have w: "unat w1 < NB" "unat w2 < NB" unfolding d(5,6) using elems_ok_nth [OF d(1)] d(2) k by simp_all
  have "value_of (take k (drop i xs)) < NB ^ k" "value_of (take k (tmp_array D)) < NB ^ k"
    using value_of_take_less [OF elems_ok_take_drop(2) [OF xs(1)], of k i] value_of_take_less [OF d(1), of k] xs(2) d(2) k
    by simp_all
  with el w d(4) less au av have L: "leading_ok L" by (simp add: leading_ok_def L_def unat_gt_0)
  note first = first_guess [OF L, of "xs ! (i + Suc (Suc k))" w1 "xs ! (i + Suc k)"]
  have f: "unat (xs ! (i + Suc (Suc k))) = u0 L" "unat w1 = v1 L" "unat (xs ! (i + Suc k)) = u1 L"
    "unat (xs ! (i + k)) = u2 L" "unat w2 = v2 L" by (simp_all add: L_def)
  from first [OF f(1-3)] obtain g r where g: "div_elements (fst (split_high (xs ! (i + Suc (Suc k))) w1)) (xs ! (i + Suc k)) w1 = Some (g, r)"
    "(unat g + NB * unat (snd (split_high (xs ! (i + Suc (Suc k))) w1))) * v1 L + unat r = NB * u0 L + u1 L"
    "all_u L div all_v L \<le> unat g + NB * unat (snd (split_high (xs ! (i + Suc (Suc k))) w1))" "unat g < NB"
    "unat (snd (split_high (xs ! (i + Suc (Suc k))) w1)) \<le> 1" "unat r < NB" by blast
  have "unat r < 2 * NB" using g(6) by simp
  from guess_loop_correct [OF L f(4,2,5) g(2-5) this] obtain e where e:
    "guess_loop (xs ! (i + k)) w1 w2 g (snd (split_high (xs ! (i + Suc (Suc k))) w1)) r = Some e"
    "unat e < NB" "all_u L div all_v L \<le> unat e" "unat e \<le> Suc (all_u L div all_v L)"
    by blast
  have "xs ! (i + Suc (Suc k)) \<le> w1" using leading_bound(2) [OF L] f by (simp add: word_le_nat_alt)
  with e(1) g(1) have "guess_next_quotient xs (i + initial_size D) w1 w2 = Some (Inr e)"
    unfolding guess_next_quotient_def k split_high_def [symmetric] by (simp add: split_beta)
  with e(2-) show ?thesis unfolding q_def au av by blast
qed


text \<open>
  One step of the loop over the quotient: the element, and the dividend with its window replaced by the
  remainder of the window.
\<close>

definition quotient_step :: "DivTmp \<Rightarrow> uint64 \<Rightarrow> uint64 \<Rightarrow> nat \<Rightarrow> uint64 list \<Rightarrow> (uint64 list \<times> uint64) result option" where
  "quotient_step D max_div pre_max_div i xs =
     then_do (guess_next_quotient xs (i + initial_size D) max_div pre_max_div) (\<lambda>guess.
     then_do (apply_next_quotient xs i guess D) (\<lambda>(ys, borrow).
       Some (Inr (if borrow then fix_next_quotient ys i D else ys, if borrow then guess - 1 else guess))))"

lemma window_split:
  assumes "i + n < length xs"
  shows "xs = take i xs @ window i n xs @ drop (i + n + 1) xs" "length (window i n xs) = Suc n"
    "window i n xs = take n (drop i xs) @ [xs ! (i + n)]" "length (take n (drop i xs)) = n"
proof -
  have "xs = take i xs @ take (Suc n) (drop i xs) @ drop (Suc n) (drop i xs)" by (simp only: append_take_drop_id)
  then show "xs = take i xs @ window i n xs @ drop (i + n + 1) xs" by (simp add: window_def add.commute)
  show "length (window i n xs) = Suc n" "length (take n (drop i xs)) = n"
    "window i n xs = take n (drop i xs) @ [xs ! (i + n)]" using assms by (simp_all add: window_def take_Suc_conv_app_nth)
qed

lemma window_replace:
  assumes "i + n < length xs" "length low = n"
  shows "window i n (take i xs @ low @ t # drop (i + n + 1) xs) = low @ [t]"
  using assms by (simp add: window_def)

text \<open>The subtraction, with the borrow at the top when the multiple is greater than the window.\<close>

lemma apply_next_quotient_correct:
  assumes D: "divisor_ok D w1 w2" and xs: "elems_ok xs" "i + initial_size D < length xs" and g: "unat g < NB"
  defines "n \<equiv> initial_size D"
  shows "\<exists>low t b. apply_next_quotient xs i g D = Some (Inr (take i xs @ low @ t # drop (i + n + 1) xs, b)) \<and>
    length low = n \<and> elems_ok low \<and> unat t < NB \<and>
    value_of (low @ [t]) + unat g * tmp_value D = value_of (window i n xs) + (if b then NB ^ Suc n else 0)"
proof -
  have d: "elems_ok (tmp_array D)" "n \<le> length (tmp_array D)" "tmp_value D < NB ^ n"
    using D unfolding divisor_ok_def n_def by blast+
  let ?ts = "take n (drop i xs)" and ?vs = "take n (tmp_array D)" and ?u = "xs ! (i + n)"
  have l: "length ?ts = length ?vs" "length ?ts = n" using d(2) xs(2) by (simp_all add: n_def)
  have ok: "elems_ok ?ts" "elems_ok ?vs" "unat ?u < NB"
    using elems_ok_take_drop xs d(1) elems_ok_nth [OF xs(1)] by (auto simp: n_def)
  from apply_loop_correct [OF l(1) ok(1,2) g, of 0 0] obtain low c b where a: "apply_loop ?ts ?vs g 0 0 = Some (low, c, b)"
    "length low = n" "elems_ok low" "unat c < NB" "unat b \<le> 1"
    "value_of low + unat g * tmp_value D = value_of ?ts + NB ^ n * (unat c + unat b)"
    unfolding value_of_take_all [OF d] l(2) by auto
  define t where "t = (if ?u < c + b then ?u + (BASE - (c + b)) else ?u - (c + b))"
  note digit = apply_digit [OF ok(3) a(4,5), folded t_def]
  have "NB ^ n * (unat t + unat c + unat b) = NB ^ n * (unat ?u + NB * unat (if ?u < c + b then 1 else 0 :: uint64))"
    using digit by simp
  with a(2,6) have "value_of (low @ [t]) + unat g * tmp_value D = value_of ?ts + NB ^ n * unat ?u + (if ?u < c + b then NB ^ Suc n else 0)"
    by (auto simp: value_of_append algebra_simps)
  moreover have "value_of (window i n xs) = value_of ?ts + NB ^ n * unat ?u"
    using window_split(3,4) [of i n xs] xs(2) by (simp add: value_of_append n_def)
  moreover have "apply_next_quotient xs i g D = Some (Inr (take i xs @ low @ t # drop (i + n + 1) xs, ?u < c + b))"
    using xs(2) a(1) unfolding apply_next_quotient_def n_def [symmetric] by (simp add: t_def Let_def)
  ultimately show ?thesis using a(2,3) digit by auto
qed

text \<open>The divisor added back, when the sum is at least the weight of the borrow.\<close>

lemma fix_next_quotient_correct:
  assumes D: "divisor_ok D w1 w2" and xs: "elems_ok ys" "i + initial_size D < length ys"
  defines "n \<equiv> initial_size D"
  assumes big: "NB ^ Suc n \<le> value_of (window i n ys) + tmp_value D"
  shows "\<exists>low t. fix_next_quotient ys i D = take i ys @ low @ t # drop (i + n + 1) ys \<and>
    length low = n \<and> elems_ok low \<and> unat t < NB \<and>
    value_of (low @ [t]) + NB ^ Suc n = value_of (window i n ys) + tmp_value D"
proof -
  have d: "elems_ok (tmp_array D)" "n \<le> length (tmp_array D)" "tmp_value D < NB ^ n"
    using D unfolding divisor_ok_def n_def by blast+
  let ?ts = "take n (drop i ys)" and ?vs = "take n (tmp_array D)" and ?u = "ys ! (i + n)"
  have l: "length ?ts = length ?vs" "length ?ts = n" using d(2) xs(2) by (simp_all add: n_def)
  have ok: "elems_ok ?ts" "elems_ok ?vs" "unat ?u < NB"
    using elems_ok_take_drop xs d(1) elems_ok_nth [OF xs(1)] by (auto simp: n_def)
  obtain low c where f: "fix_loop ?ts ?vs 0 = (low, c)" by fastforce
  from fix_loop_correct [OF l(1) ok(1,2) _ f] have low: "length low = n" "elems_ok low" "unat c \<le> 1"
    "value_of low + NB ^ n * unat c = value_of ?ts + tmp_value D"
    unfolding value_of_take_all [OF d] l(2) by simp_all
  have w: "value_of (window i n ys) = value_of ?ts + NB ^ n * unat ?u"
    using window_split(3,4) [of i n ys] xs(2) by (simp add: value_of_append n_def)
  have sum: "NB ^ Suc n \<le> value_of low + NB ^ n * (unat ?u + unat c)" using big w low(4) by (simp add: algebra_simps)
  have "NB \<le> unat ?u + unat c"
  proof (rule ccontr)
    assume "\<not> NB \<le> unat ?u + unat c"
    then have "value_of low + NB ^ n * (unat ?u + unat c) < NB ^ n * NB"
      using value_of_less [OF low(2)] low(1) by (intro add_mult_less) simp_all
    with sum show False by (simp add: mult.commute)
  qed
  moreover have "unat c \<le> NB" using low(3) NB_pos(4) by linarith
  moreover from this have "unat (BASE - c) = NB - unat c" by (subst unat_sub) (simp_all add: word_le_nat_alt unat_BASE)
  ultimately have t: "unat (?u - (BASE - c)) + NB = unat ?u + unat c"
    by (subst unat_sub) (simp_all add: word_le_nat_alt)
  have "NB ^ n * (unat (?u - (BASE - c)) + NB) = NB ^ n * (unat ?u + unat c)" unfolding t ..
  with w low(1,4) have "value_of (low @ [?u - (BASE - c)]) + NB ^ Suc n = value_of (window i n ys) + tmp_value D"
    by (simp add: value_of_append algebra_simps)
  moreover have "unat (?u - (BASE - c)) < NB" using t ok(3) low(3) by linarith
  moreover have "fix_next_quotient ys i D = take i ys @ low @ (?u - (BASE - c)) # drop (i + n + 1) ys"
    using f unfolding fix_next_quotient_def n_def by (simp add: Let_def)
  ultimately show ?thesis using low(1,2) by blast
qed


text \<open>Above the window everything is zero.\<close>

lemma top_zero:
  assumes "divisor_ok D w1 w2" "elems_ok xs" "i + initial_size D < length xs" "value_of xs < NB ^ i * (tmp_value D * NB)"
  shows "value_of (drop (i + initial_size D + 1) xs) = 0"
proof -
  let ?n = "initial_size D"
  have "tmp_value D < NB ^ ?n" using assms(1) unfolding divisor_ok_def by blast
  then have "NB ^ i * (tmp_value D * NB) \<le> NB ^ i * (NB ^ ?n * NB)" by (intro mult_le_mono2 mult_le_mono1) simp
  with assms(4) have "value_of xs < NB ^ (i + ?n + 1)" unfolding power_add power_one_right mult.assoc by linarith
  then show ?thesis using value_of_zeros [OF assms(2), of "i + ?n + 1"] assms(3) by simp
qed

lemma quotient_window:
  assumes D: "divisor_ok D w1 w2" and xs: "elems_ok xs" and n: "i + initial_size D < length xs"
  defines "n \<equiv> initial_size D" and "u \<equiv> value_of (window i (initial_size D) xs)" and "v \<equiv> tmp_value D"
  assumes g: "guess_next_quotient xs (i + n) w1 w2 = Some (Inr g)" "unat g < NB" "u div v \<le> unat g" "unat g \<le> Suc (u div v)"
    and a: "apply_next_quotient xs i g D = Some (Inr (take i xs @ zs @ t # drop (i + n + 1) xs, b))"
      "length zs = n" "elems_ok zs" "unat t < NB" "value_of (zs @ [t]) + unat g * v = u + (if b then NB ^ Suc n else 0)"
    and v: "0 < v"
  shows "\<exists>ys g. quotient_step D w1 w2 i xs = Some (Inr (take i xs @ ys @ drop (i + n + 1) xs, g)) \<and> elems_ok ys \<and>
    length ys = Suc n \<and> unat g = u div v \<and> value_of ys = u mod v"
proof (cases b)
  case False
  with a(5) have e: "value_of (zs @ [t]) + unat g * v = u" by simp
  have eu: "u = u div v * v + u mod v" by simp
  have "unat g = u div v"
  proof -
    have "unat g * v \<le> u" using e by linarith
    then have "unat g \<le> u div v" using v by (simp add: less_eq_div_iff_mult_less_eq)
    with g(3) show ?thesis by simp
  qed
  moreover from this have "value_of (zs @ [t]) = u mod v" using e eu by (metis add.commute add_left_cancel)
  ultimately show ?thesis
    using False g(1) a by (intro exI [of _ "zs @ [t]"] exI [of _ g]) (simp add: quotient_step_def n_def)
next
  case True
  with a(5) have e: "value_of (zs @ [t]) + unat g * v = u + NB ^ Suc n" by simp
  have eu: "u = u div v * v + u mod v" by simp
  have z: "value_of (zs @ [t]) < NB ^ Suc n" using value_of_less [of "zs @ [t]"] a(2-4) by simp
  have gq: "unat g = Suc (u div v)"
  proof (rule ccontr)
    assume "unat g \<noteq> Suc (u div v)"
    with g(3,4) have "unat g = u div v" by simp
    then have "unat g * v \<le> u" by simp
    with e z show False by linarith
  qed
  then have rest: "value_of (zs @ [t]) + v = u mod v + NB ^ Suc n"
      using e eu unfolding gq mult_Suc by linarith
  define ys where "ys = take i xs @ zs @ t # drop (i + n + 1) xs"
  have ys: "elems_ok ys" "i + n < length ys" "window i n ys = zs @ [t]" "take i ys = take i xs" "drop (i + n + 1) ys = drop (i + n + 1) xs"
    using a(2-4) n elems_ok_take_drop [OF xs] window_replace [OF n [folded n_def] a(2), of t] by (simp_all add: ys_def)
  have big: "NB ^ Suc n \<le> value_of (window i n ys) + v" unfolding ys(3) using rest by linarith
  from fix_next_quotient_correct [OF D ys(1) ys(2) [unfolded n_def] big [unfolded n_def v_def], folded n_def v_def, unfolded ys(3-5)]
  obtain ls s where
    f: "fix_next_quotient ys i D = take i xs @ ls @ s # drop (i + n + 1) xs" "length ls = n" "elems_ok ls" "unat s < NB"
    "value_of (ls @ [s]) + NB ^ Suc n = value_of (zs @ [t]) + v"
    by blast
  have "unat (g - 1) = u div v" using gq by (subst unat_minus_one) (auto simp: unat_eq_zero [symmetric])
  then show ?thesis
    using True g(1) a(1) [folded ys_def] f rest
    by (intro exI [of _ "ls @ [s]"] exI [of _ "g - 1"]) (simp add: quotient_step_def n_def)
qed

lemma quotient_step_correct:
  assumes D: "divisor_ok D w1 w2" and xs: "elems_ok xs" "i + initial_size D < length xs" "value_of xs < NB ^ i * (tmp_value D * NB)"
  shows "\<exists>ys g. quotient_step D w1 w2 i xs = Some (Inr (ys, g)) \<and> elems_ok ys \<and> length ys = length xs \<and> unat g < NB \<and>
    value_of xs = NB ^ i * (unat g * tmp_value D) + value_of ys \<and> value_of ys < NB ^ i * tmp_value D"
proof -
  define n where "n = initial_size D"
  define u where "u = value_of (window i n xs)"
  let ?v = "tmp_value D"
  have n: "i + n < length xs" using xs(2) by (simp add: n_def)
  have v: "0 < ?v" using xs(3) by (cases "?v = 0") simp_all
  have low: "value_of (take i xs) < NB ^ i" using value_of_take_less [OF xs(1)] n by simp
  have whole: "value_of (take i xs @ w @ drop (i + n + 1) xs) = value_of (take i xs) + NB ^ i * value_of w" (is ?whole)
    if "length w = Suc n" for w
    using top_zero [OF D xs, folded n_def] that n by (simp add: value_of_append min_absorb2)
  have val: "value_of xs = value_of (take i xs) + NB ^ i * u"
    using whole [OF window_split(2) [OF n]] window_split(1) [OF n] by (simp add: u_def)
  have "NB ^ i * u < NB ^ i * (?v * NB)" using xs(3) val by linarith
  then have u: "u < ?v * NB" by simp
  from guess_next_quotient_correct [OF D xs(1,2)] u obtain g where g: "guess_next_quotient xs (i + n) w1 w2 = Some (Inr g)"
    "unat g < NB" "u div ?v \<le> unat g" "unat g \<le> Suc (u div ?v)" unfolding n_def u_def by blast
  from apply_next_quotient_correct [OF D xs(1,2) g(2)] obtain zs t b where
    a: "apply_next_quotient xs i g D = Some (Inr (take i xs @ zs @ t # drop (i + n + 1) xs, b))"
    "length zs = n" "elems_ok zs" "unat t < NB" "value_of (zs @ [t]) + unat g * ?v = u + (if b then NB ^ Suc n else 0)"
    unfolding n_def u_def by blast
  have eu: "u = u div ?v * ?v + u mod ?v" by simp
  from quotient_window [OF D xs(1) n [unfolded n_def] g [unfolded n_def u_def] a [unfolded n_def u_def] v, folded n_def, folded u_def] obtain w q where w: "quotient_step D w1 w2 i xs = Some (Inr (take i xs @ w @ drop (i + n + 1) xs, q))" "elems_ok w"
    "length w = Suc n" "unat q = u div ?v" "value_of w = u mod ?v" by blast
  have "NB ^ i * u = NB ^ i * (u div ?v * ?v) + NB ^ i * (u mod ?v)" by (subst eu) (simp only: distrib_left)
  moreover have "u mod ?v < ?v" using v by simp
  ultimately have "value_of xs = NB ^ i * (unat q * ?v) + value_of (take i xs @ w @ drop (i + n + 1) xs)"
    unfolding whole [OF w(3)] val w(4,5) by linarith
  moreover have "value_of (take i xs @ w @ drop (i + n + 1) xs) < NB ^ i * ?v"
    unfolding whole [OF w(3)] w(5) using low v by (intro add_mult_less) simp_all
  moreover have "elems_ok (take i xs @ w @ drop (i + n + 1) xs)" "length (take i xs @ w @ drop (i + n + 1) xs) = length xs"
    using w(2,3) n elems_ok_take_drop [OF xs(1)] by simp_all
  moreover have "unat q < NB" using g(2,3) w(4) by simp
  ultimately show ?thesis using w(1) by blast
qed


lemma quotient_small:
  assumes R: "dranks_ok R" and i: "i < SIZE R" "\<not> (i = SIZE R - 1 \<and> g \<ge> INTEGER_MAX_OVER R)"
    and g: "q < NB ^ i" "unat g < NB"
  shows "NB ^ i * unat g + q < 10 ^ TOTAL R"
proof (cases "i = SIZE R - 1")
  case True
  with i(2) have "unat g < unat (INTEGER_MAX_OVER R)" by (simp add: word_le_nat_alt)
  from add_mult_less [OF g(1) this] show ?thesis unfolding SIZE_split(2) [OF R] True by (simp add: add.commute)
next
  case False
  have "NB ^ i * unat g + q < NB ^ i * NB" using add_mult_less [OF g] by (simp add: add.commute)
  also have "\<dots> = NB ^ Suc i" by simp
  also have "\<dots> \<le> NB ^ (SIZE R - 1)" using False i(1) by (intro power_increasing) (simp_all add: Suc_le_eq)
  also have "\<dots> \<le> 10 ^ TOTAL R"
    unfolding SIZE_split(2) [OF R] by (cases "unat (INTEGER_MAX_OVER R)") (use SIZE_split(2) [OF R] in simp_all)
  finally show ?thesis .
qed

section \<open>The loop over the quotient\<close>

lemma div_loop_step:
  "div_loop R D w1 w2 (Suc i) t qs =
     then_do (quotient_step D w1 w2 i (tmp_array t)) (\<lambda>(xs, g).
       if i = SIZE R then
         if g \<noteq> 0 then Some (Inl Overflow) else div_loop R D w1 w2 i (t\<lparr>tmp_array := xs\<rparr>) qs
       else if i = SIZE R - 1 \<and> g \<ge> INTEGER_MAX_OVER R then Some (Inl Overflow)
       else div_loop R D w1 w2 i (shrink (t\<lparr>tmp_array := xs\<rparr>)) (qs[i := g]))"
  by (simp add: div_loop.simps(2) quotient_step_def then_do_cases Let_def split: option.split sum.split prod.split)

text \<open>
  The loop leaves the remainder in the dividend and adds the quotient to the array, or tells that it has too many
  digits.
\<close>

lemma div_loop_correct:
  assumes R: "dranks_ok R" and D: "divisor_ok D w1 w2"
    and "div_tmp_ok t" "k + initial_size D \<le> length (tmp_array t)" "tmp_value t < NB ^ k * tmp_value D"
    "k \<le> Suc (SIZE R)" "length qs = SIZE R" "elems_ok qs" "value_of (take k qs) = 0"
  shows "if 10 ^ TOTAL R \<le> tmp_value t div tmp_value D then div_loop R D w1 w2 k t qs = Some (Inl Overflow)
    else \<exists>t' zs. div_loop R D w1 w2 k t qs = Some (Inr (t', zs)) \<and> div_tmp_ok t' \<and>
      tmp_value t' = tmp_value t mod tmp_value D \<and> length zs = SIZE R \<and> elems_ok zs \<and>
      value_of zs = value_of qs + tmp_value t div tmp_value D"
  using assms(3-9)
proof (induction k arbitrary: t qs)
  case 0
  then show ?case by simp
next
  case (Suc i)
  let ?v = "tmp_value D" and ?x = "tmp_value t"
  have t: "elems_ok (tmp_array t)" "0 < tmp_size t" "tmp_size t \<le> length (tmp_array t)" "?x < NB ^ tmp_size t"
    using Suc.prems(1) by (simp_all add: div_tmp_ok_def)
  have v: "0 < ?v" using Suc.prems(3) by (cases "?v = 0") simp_all
  have "i + initial_size D < length (tmp_array t)" "?x < NB ^ i * (?v * NB)"
    using Suc.prems(2,3) by (simp_all add: mult.commute mult.left_commute)
  from quotient_step_correct [OF D t(1) this] obtain ys g where
    s: "quotient_step D w1 w2 i (tmp_array t) = Some (Inr (ys, g))" "elems_ok ys" "length ys = length (tmp_array t)" "unat g < NB"
    "?x = NB ^ i * (unat g * ?v) + value_of ys" "value_of ys < NB ^ i * ?v" by blast
  define t' where "t' = t\<lparr>tmp_array := ys\<rparr>"
  have t': "div_tmp_ok t'" "tmp_value t' = value_of ys" "length (tmp_array t') = length (tmp_array t)"
    using t s(2,3,5) by (simp_all add: div_tmp_ok_def t'_def)
  have x: "?x = NB ^ i * unat g * ?v + value_of ys" using s(5) by (simp add: mult.assoc)
  then have div: "?x div ?v = NB ^ i * unat g + value_of ys div ?v" and mod: "?x mod ?v = value_of ys mod ?v"
    using v by simp_all
  have low: "value_of ys div ?v < NB ^ i" using s(6) v by (simp add: div_less_iff_less_mult)
  have loop: "div_loop R D w1 w2 (Suc i) t qs =
      (if i = SIZE R then if g \<noteq> 0 then Some (Inl Overflow) else div_loop R D w1 w2 i t' qs
       else if i = SIZE R - 1 \<and> g \<ge> INTEGER_MAX_OVER R then Some (Inl Overflow)
       else div_loop R D w1 w2 i (shrink t') (qs[i := g]))"
    unfolding div_loop_step s(1) t'_def by simp
  show ?case
  proof (cases "i = SIZE R")
    case True
    show ?thesis
    proof (cases "g = 0")
      case g: True
      have "take i qs = take (Suc i) qs" using Suc.prems(5) True by simp
      with Suc.IH [of t' qs, unfolded t'(2,3), OF t'(1) _ s(6) _ Suc.prems(5,6)] Suc.prems(2,4,7) have "if 10 ^ TOTAL R \<le> value_of ys div ?v then div_loop R D w1 w2 i t' qs = Some (Inl Overflow)
        else \<exists>t'' zs. div_loop R D w1 w2 i t' qs = Some (Inr (t'', zs)) \<and> div_tmp_ok t'' \<and> tmp_value t'' = value_of ys mod ?v \<and>
          length zs = SIZE R \<and> elems_ok zs \<and> value_of zs = value_of qs + value_of ys div ?v" by simp
      then show ?thesis unfolding loop div mod if_P [OF True] using g by simp
    next
      case False
      then have "NB ^ i * 1 \<le> NB ^ i * unat g" by (intro mult_le_mono2) (simp add: Suc_le_eq unat_gt_0)
      with div value_of_size [of R, folded True] have "10 ^ TOTAL R \<le> ?x div ?v" by linarith
      then show ?thesis unfolding loop if_P [OF True] using False by simp
    qed
  next
    case False
    then have i: "i < SIZE R" using Suc.prems(4) by simp
    show ?thesis
    proof (cases "i = SIZE R - 1 \<and> g \<ge> INTEGER_MAX_OVER R")
      case True
      then have "10 ^ TOTAL R \<le> NB ^ i * unat g"
        unfolding SIZE_split(2) [OF R] by (simp add: word_le_nat_alt)
      with div have "10 ^ TOTAL R \<le> ?x div ?v" by linarith
      with True show ?thesis unfolding loop if_not_P [OF False] if_P [OF True] by simp
    next
      case g: False
      have small: "?x div ?v < 10 ^ TOTAL R"
        using quotient_small [OF R i g low s(4)] unfolding div by blast
      have zero: "value_of (take i qs) = 0" "unat (qs ! i) = 0"
        using Suc.prems(5,7) i value_of_take_Suc [of i qs] by simp_all
      have len: "length (qs[i := g]) = SIZE R" "elems_ok (qs[i := g])" "value_of (take i (qs[i := g])) = 0"
        "value_of (qs[i := g]) = value_of qs + NB ^ i * unat g"
        using Suc.prems(5,6) s(4) zero i value_of_update [of i qs g] by (simp_all add: elems_ok_update)
      note sh = shrink_correct [OF t'(1)]
      have "value_of ys div ?v < 10 ^ TOTAL R" using small div by linarith
      with Suc.IH [of "shrink t'" "qs[i := g]"] sh(1,2) t' Suc.prems(2) s(6) len i
      obtain t'' zs where "div_loop R D w1 w2 i (shrink t') (qs[i := g]) = Some (Inr (t'', zs))" "div_tmp_ok t''"
        "tmp_value t'' = value_of ys mod ?v" "length zs = SIZE R" "elems_ok zs"
        "value_of zs = value_of (qs[i := g]) + value_of ys div ?v" by (auto simp: not_less)
      with g False have "\<exists>t' zs. div_loop R D w1 w2 (Suc i) t qs = Some (Inr (t', zs)) \<and> div_tmp_ok t' \<and>
        tmp_value t' = ?x mod ?v \<and> length zs = SIZE R \<and> elems_ok zs \<and> value_of zs = value_of qs + ?x div ?v"
        unfolding loop div mod len(4) by simp
      with small show ?thesis by simp
    qed
  qed
qed


section \<open>Scaling and short division\<close>

lemma scale_loop_correct:
  assumes "elems_ok xs" "unat m < NB" "unat over < NB"
  shows "\<exists>zs c. scale_loop xs m over = Some (zs, c) \<and> length zs = length xs \<and> elems_ok zs \<and> unat c < NB \<and>
    value_of zs + NB ^ length xs * unat c = value_of xs * unat m + unat over"
  using assms(1,3)
proof (induction xs arbitrary: over)
  case (Cons x xs)
  have x: "unat x < NB" "elems_ok xs" using Cons.prems(1) by simp_all
  from mul_elements_correct [OF x(1) assms(2)] obtain l h where m: "mul_elements x m = Some (l, h)"
    "unat l < NB" "unat h < NB" "unat l + NB * unat h = unat x * unat m" by blast
  define res where "res = (if l + over \<ge> BASE then l + over - BASE else l + over)"
  define over' where "over' = (if l + over \<ge> BASE then h + 1 else h)"
  have step: "scale_loop (x # xs) m over = map_option (\<lambda>(rest, overflow). (res # rest, overflow)) (scale_loop xs m over')"
    unfolding scale_loop.simps m(1) by (simp add: Let_def res_def over'_def)
  have sum: "unat res + NB * unat over' = unat x * unat m + unat over" "unat res < NB" "unat over' < NB"
    using carry_digit [OF m(2,3) Cons.prems(2) m(4) x(1) assms(2)] unfolding res_def over'_def by simp_all
  from Cons.IH [OF x(2) sum(3)] obtain zs c where IH: "scale_loop xs m over' = Some (zs, c)" "length zs = length xs"
    "elems_ok zs" "unat c < NB" "value_of zs + NB ^ length xs * unat c = value_of xs * unat m + unat over'" by blast
  have "NB * (value_of zs + NB ^ length xs * unat c) = NB * (value_of xs * unat m + unat over')" unfolding IH(5) ..
  with sum(1) have "value_of (res # zs) + NB ^ length (x # xs) * unat c = value_of (x # xs) * unat m + unat over"
    by (simp add: algebra_simps)
  with IH sum(2) show ?case unfolding step by simp
qed simp

lemma tmp_mul_correct:
  assumes t: "div_tmp_ok t" and m: "unat m < NB" "0 < unat m" and fits: "tmp_value t * unat m < NB ^ length (tmp_array t)"
    and N: "N = length (tmp_array t)"
  shows "\<exists>t'. tmp_mul N m t = Some (Inr t') \<and> div_tmp_ok t' \<and> tmp_value t' = tmp_value t * unat m \<and>
    length (tmp_array t') = length (tmp_array t) \<and> initial_size t' = initial_size t \<and>
    (tmp_value t * unat m < NB ^ tmp_size t \<longrightarrow> tmp_size t' = tmp_size t)"
proof -
  let ?xs = "tmp_array t" and ?n = "tmp_size t"
  have a: "elems_ok ?xs" "?n \<le> length ?xs" "value_of ?xs < NB ^ ?n" "0 < ?n" using t by (simp_all add: div_tmp_ok_def)
  have low: "value_of (take ?n ?xs) = value_of ?xs" and high: "value_of (drop ?n ?xs) = 0"
    using value_of_take_all [OF a(1-3)] value_of_zeros [OF a(1,2)] a(3) by simp_all
  from scale_loop_correct [OF elems_ok_take_drop(1) [OF a(1), of ?n] m(1), of 0] obtain zs c where
    s: "scale_loop (take ?n ?xs) m 0 = Some (zs, c)" "length zs = ?n" "elems_ok zs" "unat c < NB"
    "value_of zs + NB ^ ?n * unat c = value_of ?xs * unat m" using a(2) low by (auto simp: min_absorb2)
  let ?ys = "zs @ drop ?n ?xs"
  have ys: "elems_ok ?ys" "length ?ys = length ?xs" "value_of ?ys = value_of zs"
    using s(2,3) a(1,2) elems_ok_take_drop(2) high by (simp_all add: value_of_append)
  have z: "value_of zs < NB ^ ?n" using value_of_less [OF s(3)] s(2) by simp
  show ?thesis
  proof (cases "c = 0")
    case True
    with s ys z a show ?thesis by (simp add: tmp_mul_def div_tmp_ok_def)
  next
    case False
    then have c: "NB ^ ?n * 1 \<le> NB ^ ?n * unat c" by (intro mult_le_mono2) (simp add: Suc_le_eq unat_gt_0)
    with s(5) have big: "NB ^ ?n \<le> value_of ?xs * unat m" by linarith
    then have "NB ^ ?n < NB ^ length ?xs" using fits by (rule order_le_less_trans)
    then have n: "?n < length ?xs" by (simp add: power_strict_increasing_iff)
    have "?ys ! ?n = 0" using high n s(2) by (simp add: Cons_nth_drop_Suc [symmetric] nth_append unat_eq_zero)
    then have v: "value_of (?ys[?n := c]) = value_of ?xs * unat m"
      using value_of_update [of ?n ?ys c] n ys(2,3) s(5) by simp
    moreover have "value_of ?xs * unat m < NB ^ Suc ?n"
      unfolding s(5) [symmetric] using add_mult_less [OF z s(4)] by (simp add: mult.commute)
    ultimately show ?thesis
      using False s(1,4) n ys(1,2) big N by (simp add: tmp_mul_def div_tmp_ok_def elems_ok_update not_less [symmetric])
  qed
qed

lemma short_div_correct:
  assumes "elems_ok xs" "0 < unat d" "unat d < NB"
  shows "\<exists>qs r. short_div xs d = Some (qs, r) \<and> length qs = length xs \<and> elems_ok qs \<and> unat r < unat d \<and>
    value_of xs = value_of qs * unat d + unat r"
  using assms(1)
proof (induction xs)
  case (Cons x xs)
  then obtain qs r where IH: "short_div xs d = Some (qs, r)" "length qs = length xs" "elems_ok qs" "unat r < unat d"
    "value_of xs = value_of qs * unat d + unat r" by auto
  from div_elements_correct [OF IH(4) _ assms(3), of x] Cons.prems obtain q s where
    "div_elements r x d = Some (q, s)" "unat q < NB" "unat s < unat d" "unat q * unat d + unat s = NB * unat r + unat x" by auto
  with IH show ?case by (simp add: algebra_simps)
qed (use assms in simp)

lemma tmp_div_correct:
  assumes t: "div_tmp_ok t" and d: "0 < unat d" "unat d < NB"
  shows "\<exists>t' r. tmp_div d t = Some (t', r) \<and> div_tmp_ok t' \<and> tmp_value t' = tmp_value t div unat d \<and>
    unat r = tmp_value t mod unat d \<and> length (tmp_array t') = length (tmp_array t)"
proof -
  let ?xs = "tmp_array t" and ?n = "tmp_size t"
  have a: "elems_ok ?xs" "?n \<le> length ?xs" "value_of ?xs < NB ^ ?n" "0 < ?n" using t by (simp_all add: div_tmp_ok_def)
  have low: "value_of (take ?n ?xs) = value_of ?xs" and high: "value_of (drop ?n ?xs) = 0"
    using value_of_take_all [OF a(1-3)] value_of_zeros [OF a(1,2)] a(3) by simp_all
  from short_div_correct [OF elems_ok_take_drop(1) [OF a(1), of ?n] d] obtain qs r where
    s: "short_div (take ?n ?xs) d = Some (qs, r)" "length qs = ?n" "elems_ok qs" "unat r < unat d"
    "value_of ?xs = value_of qs * unat d + unat r" using a(2) low by (auto simp: min_absorb2)
  define t' where "t' = t\<lparr>tmp_array := qs @ drop ?n ?xs\<rparr>"
  have "value_of qs < NB ^ ?n" using value_of_less [OF s(3)] s(2) by simp
  then have t': "div_tmp_ok t'" "tmp_value t' = value_of qs" "length (tmp_array t') = length ?xs"
    using s(2,3) a high elems_ok_take_drop(2) by (simp_all add: div_tmp_ok_def t'_def value_of_append)
  have "tmp_div d t = Some (shrink t', r)" unfolding tmp_div_def s(1) by (simp add: t'_def)
  moreover have "value_of ?xs div unat d = value_of qs" "value_of ?xs mod unat d = unat r" unfolding s(5) using s(4) d by simp_all
  ultimately show ?thesis using shrink_correct [OF t'(1)] t' by simp
qed


section \<open>Dividend and divisor\<close>

lemma widen_loop_correct:
  assumes "elems_ok xs" "unat over < unat (FRACTION_REMAINDER R)"
  shows "elems_ok (widen_loop R xs over) \<and> length (widen_loop R xs over) = Suc (length xs) \<and>
    value_of (widen_loop R xs over) = value_of xs * unat (FRACTION_REMAINDER R) + unat over"
  using assms
proof (induction xs arbitrary: over)
  case Nil
  then show ?case using fraction_split(4) [of R] by simp
next
  case (Cons x xs)
  let ?r = "unat (FRACTION_REMAINDER R)" and ?o = "unat (FRACTION_OVER R)"
  note f = fraction_split [of R]
  have x: "unat x < NB" "elems_ok xs" using Cons.prems by simp_all
  have m: "unat (x mod FRACTION_OVER R) < ?o" using f(5) by (simp add: unat_mod_distrib)
  have less: "unat over + ?r * unat (x mod FRACTION_OVER R) < NB"
    using add_mult_less [OF Cons.prems(2) m] unfolding f(2) .
  have el: "unat (x mod FRACTION_OVER R * FRACTION_REMAINDER R + over) = unat over + ?r * unat (x mod FRACTION_OVER R)"
    using less NB_bound(1) by (subst unat_add_64; (subst unat_mult_64)?) (simp_all add: mult.commute add.commute)
  have "unat x < ?r * ?o" using x(1) f(2) by simp
  then have o: "unat (x div FRACTION_OVER R) < ?r" using f(5) by (simp add: unat_div_distrib div_less_iff_less_mult)
  have "unat x = ?o * unat (x div FRACTION_OVER R) + unat (x mod FRACTION_OVER R)"
    by (simp add: unat_div_distrib unat_mod_distrib)
  then have "unat x * ?r = (?o * unat (x div FRACTION_OVER R) + unat (x mod FRACTION_OVER R)) * ?r" by simp
  also have "\<dots> = ?r * ?o * unat (x div FRACTION_OVER R) + ?r * unat (x mod FRACTION_OVER R)"
    by (simp only: distrib_left distrib_right mult_ac)
  finally have "unat x * ?r = NB * unat (x div FRACTION_OVER R) + ?r * unat (x mod FRACTION_OVER R)" unfolding f(2) .
  with Cons.IH [OF x(2) o] less show ?case
    unfolding widen_loop.simps elems_ok_simps value_of.simps el by (simp add: algebra_simps)
qed

lemma DivTmpDivisor_ok:
  assumes "number_ok R d"
  shows "div_tmp_ok (DivTmpDivisor R d)" "tmp_value (DivTmpDivisor R d) = magnitude d"
    "length (tmp_array (DivTmpDivisor R d)) = SIZE R + 1" "initial_size (DivTmpDivisor R d) = 0"
  using assms value_of_less [of "array d @ [0]"]
  by (simp_all add: DivTmpDivisor_def div_tmp_ok_def number_ok_def magnitude_def value_of_append)

lemma DIV_TMP_SIZE_TMP: "DIV_TMP_SIZE R = Suc (TMP_SIZE R)"
  by (simp add: DIV_TMP_SIZE_def TMP_SIZE_def DIGITS_PER_ELEMENT_def)

lemma dividend_fits:
  assumes "dranks_ok R"
  shows "FRACTION_END R + (if FRACTION_REMAINDER R = 1 then SIZE R else Suc (SIZE R)) \<le> DIV_TMP_SIZE R"
proof -
  let ?a = "FRACTION R mod 18" and ?T = "TOTAL R"
  have F: "FRACTION R = 18 * FRACTION_END R + ?a" by (simp add: FRACTION_END_def DIGITS_PER_ELEMENT_def)
  have "(?T + FRACTION R + 17) div 18 = FRACTION_END R + (?T + ?a + 17) div 18" by (subst F) (simp add: add.assoc)
  moreover have "(?T + 17) div 18 \<le> (?T + ?a + 17) div 18" by (intro div_le_mono) simp
  ultimately have "FRACTION_END R + SIZE R \<le> TMP_SIZE R"
    unfolding TMP_split(5) [OF assms] by (simp add: SIZE_def DIGITS_PER_ELEMENT_def)
  then show ?thesis by (simp add: DIV_TMP_SIZE_TMP)
qed

lemma DivTmpDividend_ok:
  assumes "dranks_ok R" "number_ok R d"
  shows "div_tmp_ok (DivTmpDividend R d)" "tmp_value (DivTmpDividend R d) = magnitude d * 10 ^ FRACTION R"
    "length (tmp_array (DivTmpDividend R d)) = DIV_TMP_SIZE R" "initial_size (DivTmpDividend R d) = 0"
    "magnitude d * 10 ^ FRACTION R < NB ^ TMP_SIZE R"
proof -
  let ?w = "if FRACTION_REMAINDER R = 1 then array d else widen_loop R (array d) 0"
  have d: "length (array d) = SIZE R" "elems_ok (array d)" "magnitude d < 10 ^ TOTAL R" using assms(2) by (simp_all add: number_ok_def)
  note f = fraction_split [of R]
  have w: "elems_ok ?w" "value_of ?w = magnitude d * unat (FRACTION_REMAINDER R)"
    "length ?w = (if FRACTION_REMAINDER R = 1 then SIZE R else Suc (SIZE R))"
    using widen_loop_correct [OF d(2), of 0 R] d f(3) by (auto simp: magnitude_def)
  have size: "FRACTION_END R + length ?w \<le> DIV_TMP_SIZE R" unfolding w(3) using dividend_fits [OF assms(1)] by simp
  let ?xs = "replicate (FRACTION_END R) 0 @ ?w"
  have t: "DivTmpDividend R d = \<lparr>tmp_array = ?xs @ replicate (DIV_TMP_SIZE R - length ?xs) 0, tmp_size = DIV_TMP_SIZE R, initial_size = 0\<rparr>"
    by (simp add: DivTmpDividend_def Let_def)
  show v: "tmp_value (DivTmpDividend R d) = magnitude d * 10 ^ FRACTION R"
    unfolding t f(1) using w(2) by (simp add: value_of_append mult.commute mult.left_commute)
  show len: "length (tmp_array (DivTmpDividend R d)) = DIV_TMP_SIZE R" "initial_size (DivTmpDividend R d) = 0"
    unfolding t using size by simp_all
  have "elems_ok (tmp_array (DivTmpDividend R d))" unfolding t using w(1) by simp
  then show "div_tmp_ok (DivTmpDividend R d)"
    using value_of_less [of "tmp_array (DivTmpDividend R d)"] len unfolding div_tmp_ok_def
    by (simp add: t DIV_TMP_SIZE_TMP)
  have "magnitude d * 10 ^ FRACTION R < 10 ^ TOTAL R * 10 ^ FRACTION R" using d(3) by simp
  also have "\<dots> = 10 ^ TMP_TOTAL_RANK R" by (simp add: TMP_split(4) [OF assms(1)] power_add)
  also have "\<dots> \<le> NB ^ TMP_SIZE R" by (rule TMP_split(3) [OF assms(1)])
  finally show "magnitude d * 10 ^ FRACTION R < NB ^ TMP_SIZE R" .
qed

lemma dividend_export_correct:
  assumes R: "dranks_ok R" and t: "div_tmp_ok t" "length (tmp_array t) = DIV_TMP_SIZE R"
  shows "if tmp_value t < 10 ^ TOTAL R
    then \<exists>xs. dividend_export R t = Some xs \<and> length xs = SIZE R \<and> elems_ok xs \<and> value_of xs = tmp_value t
    else dividend_export R t = None"
proof -
  let ?xs = "tmp_array t"
  have ok: "elems_ok ?xs" using t(1) by (simp add: div_tmp_ok_def)
  have s: "SIZE R \<le> length ?xs" "0 < SIZE R" using dividend_fits [OF R] SIZE_split(1) [OF R] t(2) by (simp_all split: if_splits)
  have low: "length (take (SIZE R) ?xs) = SIZE R" "elems_ok (take (SIZE R) ?xs)" using s(1) ok elems_ok_take_drop by simp_all
  have "?xs ! (SIZE R - 1) \<ge> INTEGER_MAX_OVER R \<longleftrightarrow> 10 ^ TOTAL R \<le> value_of (take (SIZE R) ?xs)"
    using number_limit [OF R low] s(2) by simp
  moreover have "list_all (\<lambda>x. x = 0) (drop (SIZE R) ?xs) \<longleftrightarrow> value_of ?xs < NB ^ SIZE R"
    using value_of_zeros [OF ok s(1)] value_of_zero_iff by simp
  moreover have "value_of (take (SIZE R) ?xs) \<le> value_of ?xs" using value_of_take_drop [of ?xs "SIZE R"] by simp
  moreover have "value_of ?xs < NB ^ SIZE R \<Longrightarrow> value_of (take (SIZE R) ?xs) = value_of ?xs"
    using value_of_take_all [OF ok s(1)] .
  ultimately show ?thesis using low value_of_size [of R] by (auto simp: dividend_export_def)
qed


section \<open>The division\<close>

text \<open>The state of \<^verbatim>\<open>div_\<close> after both numbers have been shrunk and the divisor is not zero.\<close>

definition div_ready :: "ranks \<Rightarrow> DivTmp \<Rightarrow> DivTmp \<Rightarrow> bool" where
  "div_ready R t D \<longleftrightarrow> div_tmp_ok t \<and> div_tmp_ok D \<and> length (tmp_array t) = DIV_TMP_SIZE R \<and>
     length (tmp_array D) = SIZE R + 1 \<and> tmp_value t < NB ^ TMP_SIZE R \<and> initial_size t = tmp_size t \<and>
     initial_size D = tmp_size D \<and> tmp_value D \<noteq> 0 \<and> max_element D \<noteq> 0 \<and>
     NB ^ (tmp_size D - 1) \<le> tmp_value D \<and> (NB ^ (tmp_size t - 1) \<le> tmp_value t \<or> tmp_size t = 1)"

lemma div_ready_shrink:
  assumes "dranks_ok R" "number_ok R a" "number_ok R b" "magnitude b \<noteq> 0"
  shows "div_ready R (shrink (DivTmpDividend R a)) (shrink (DivTmpDivisor R b))"
    "tmp_value (shrink (DivTmpDividend R a)) = magnitude a * 10 ^ FRACTION R"
    "tmp_value (shrink (DivTmpDivisor R b)) = magnitude b"
proof -
  note d = DivTmpDivisor_ok [OF assms(3)] DivTmpDividend_ok [OF assms(1,2)]
  note s = shrink_correct [OF d(1)] shrink_correct [OF d(5)]
  show v: "tmp_value (shrink (DivTmpDividend R a)) = magnitude a * 10 ^ FRACTION R" "tmp_value (shrink (DivTmpDivisor R b)) = magnitude b"
    using s(2,7) d by simp_all
  have "NB ^ (tmp_size (shrink (DivTmpDivisor R b)) - 1) \<le> magnitude b"
    using s(4) assms(4) d(2) by auto
  with s d assms(4) show "div_ready R (shrink (DivTmpDividend R a)) (shrink (DivTmpDivisor R b))"
    unfolding div_ready_def v by simp
qed

lemma top_element:
  assumes "div_tmp_ok t" "tmp_size t = Suc k"
  shows "tmp_value t < NB ^ k * c \<longleftrightarrow> unat (max_element t) < c"
proof -
  have t: "elems_ok (tmp_array t)" "tmp_size t \<le> length (tmp_array t)" "tmp_value t < NB ^ tmp_size t"
    using assms(1) by (simp_all add: div_tmp_ok_def)
  show ?thesis
    using value_of_top [OF elems_ok_take_drop(1) [OF t(1), of "tmp_size t"], of k c] value_of_take_all [OF t] t(2) assms(2)
    by (simp add: max_element_def)
qed

text \<open>The divisor scaled by \<^verbatim>\<open>scale\<close> keeps its size.\<close>

lemma scale_bounds:
  assumes ready: "div_ready R t D"
  defines "s \<equiv> BASE div (max_element D + 1)"
  shows "0 < unat s" "unat s < NB" "unat s \<le> NB div 2" "tmp_value D * unat s < NB ^ tmp_size D"
    "tmp_value t * unat s < NB ^ length (tmp_array t)"
proof -
  have r: "div_tmp_ok t" "div_tmp_ok D" "max_element D \<noteq> 0" "length (tmp_array t) = DIV_TMP_SIZE R" "tmp_value t < NB ^ TMP_SIZE R"
    using ready by (simp_all add: div_ready_def)
  have D: "elems_ok (tmp_array D)" "0 < tmp_size D" "tmp_size D \<le> length (tmp_array D)" "tmp_value D < NB ^ tmp_size D"
    using r(2) by (simp_all add: div_tmp_ok_def)
  have m: "unat (max_element D) < NB" using elems_ok_nth [OF D(1)] D(2,3) by (simp add: max_element_def)
  have m0: "0 < unat (max_element D)" using r(3) by (simp add: unat_gt_0)
  have s: "unat s = NB div Suc (unat (max_element D))"
    unfolding s_def unat_div_distrib unat_BASE using m NB_bound(1) by (subst unat_add_64) simp_all
  show "0 < unat s" unfolding s using m by (simp add: div_greater_zero_iff)
  show half: "unat s \<le> NB div 2" unfolding s using m0 by (intro div_le_mono2) simp_all
  then show less: "unat s < NB" using NB_pos(1) by linarith
  obtain k where k: "tmp_size D = Suc k" using D(2) gr0_implies_Suc by blast
  have "tmp_value D < NB ^ k * Suc (unat (max_element D))"
    unfolding top_element [OF r(2) k] by simp
  then have "tmp_value D * unat s < NB ^ k * Suc (unat (max_element D)) * unat s" using \<open>0 < unat s\<close> by (rule mult_strict_right_mono)
  also have "\<dots> = NB ^ k * (unat s * Suc (unat (max_element D)))" by (simp only: mult_ac)
  also have "\<dots> \<le> NB ^ k * NB" unfolding s by (intro mult_le_mono2 div_times_less_eq_dividend)
  finally show "tmp_value D * unat s < NB ^ tmp_size D" by (simp add: k mult.commute)
  have "tmp_value t * unat s < NB ^ TMP_SIZE R * NB" using r(5) less \<open>0 < unat s\<close> by (intro mult_strict_mono) simp_all
  then show "tmp_value t * unat s < NB ^ length (tmp_array t)" by (simp add: r(4) DIV_TMP_SIZE_TMP mult.commute)
qed

lemma top_nonzero:
  assumes "div_tmp_ok D" "NB ^ (tmp_size D - 1) \<le> tmp_value D"
  shows "max_element D \<noteq> 0"
proof -
  obtain k where k: "tmp_size D = Suc k" using assms(1) gr0_implies_Suc unfolding div_tmp_ok_def by blast
  from top_element [OF assms(1) k, of 1] assms(2) k show ?thesis by auto
qed

text \<open>What the two multiplications by \<^verbatim>\<open>scale\<close> leave.\<close>

definition scaled_tmp :: "uint64 \<Rightarrow> DivTmp \<Rightarrow> DivTmp \<Rightarrow> bool" where
  "scaled_tmp s t t' \<longleftrightarrow> div_tmp_ok t' \<and> tmp_value t' = tmp_value t * unat s \<and>
     length (tmp_array t') = length (tmp_array t) \<and> initial_size t' = initial_size t \<and>
     (tmp_value t * unat s < NB ^ tmp_size t \<longrightarrow> tmp_size t' = tmp_size t)"

lemma scale_step:
  assumes "div_tmp_ok t" "unat s < NB" "0 < unat s" "tmp_value t * unat s < NB ^ length (tmp_array t)" "N = length (tmp_array t)"
  shows "\<exists>t'. (if s > 1 then tmp_mul N s t else Some (Inr t)) = Some (Inr t') \<and> scaled_tmp s t t' \<and> (\<not> s > 1 \<longrightarrow> t' = t)"
proof (cases "s > 1")
  case False
  with assms(3) have "unat s = 1" by (simp add: word_less_nat_alt)
  with False assms(1) show ?thesis by (auto simp: scaled_tmp_def)
qed (use tmp_mul_correct [OF assms(1-5)] in \<open>simp add: scaled_tmp_def\<close>)

lemma scaled_divisor:
  assumes ready: "div_ready R t D" and "2 \<le> tmp_size D" and s: "s = BASE div (max_element D + 1)" and D': "scaled_tmp s D D'"
  shows "divisor_ok D' (max_element D') (pre_max_element D')" "initial_size D' = tmp_size D"
proof -
  note b = scale_bounds [OF ready, folded s]
  have r: "initial_size D = tmp_size D" "NB ^ (tmp_size D - 1) \<le> tmp_value D" using ready by (simp_all add: div_ready_def)
  have d: "div_tmp_ok D'" "tmp_value D' = tmp_value D * unat s" "initial_size D' = tmp_size D" "tmp_size D' = tmp_size D"
    using D' b(4) r(1) by (simp_all add: scaled_tmp_def)
  then show "initial_size D' = tmp_size D" by simp
  have "tmp_value D * 1 \<le> tmp_value D * unat s" using b(1) by (intro mult_le_mono2) simp
  with r(2) have "NB ^ (tmp_size D' - 1) \<le> tmp_value D'" unfolding d(2,4) by linarith
  from top_nonzero [OF d(1) this] d assms(2) show "divisor_ok D' (max_element D') (pre_max_element D')"
    by (simp add: divisor_ok_def div_tmp_ok_def max_element_def pre_max_element_def)
qed


text \<open>The sizes of the two numbers bound the quotient.\<close>

lemma dividend_size:
  assumes "dranks_ok R" "div_ready R t D"
  shows "tmp_size t \<le> TMP_SIZE R"
proof (rule ccontr)
  assume "\<not> tmp_size t \<le> TMP_SIZE R"
  then have "NB ^ TMP_SIZE R \<le> NB ^ (tmp_size t - 1)" by (intro power_increasing) (simp_all add: Suc_le_eq)
  moreover have "tmp_size t \<noteq> 1" using \<open>\<not> tmp_size t \<le> TMP_SIZE R\<close> TMP_split(1) [OF assms(1)] by simp
  moreover have "tmp_value t < NB ^ TMP_SIZE R" "NB ^ (tmp_size t - 1) \<le> tmp_value t \<or> tmp_size t = 1"
    using assms(2) by (simp_all add: div_ready_def)
  ultimately show False by linarith
qed

lemma quotient_too_long:
  assumes ready: "div_ready R t D" and long: "SIZE R < tmp_size t - tmp_size D"
  shows "10 ^ TOTAL R \<le> tmp_value t div tmp_value D"
proof -
  have r: "tmp_value D < NB ^ tmp_size D" "0 < tmp_size D" "0 < tmp_value D" "NB ^ (tmp_size t - 1) \<le> tmp_value t \<or> tmp_size t = 1"
    using ready by (simp_all add: div_ready_def div_tmp_ok_def)
  have "10 ^ TOTAL R * tmp_value D \<le> NB ^ SIZE R * NB ^ tmp_size D" using value_of_size [of R] r(1) by (intro mult_le_mono) simp_all
  also have "\<dots> \<le> NB ^ (tmp_size t - 1)" unfolding power_add [symmetric] using long by (intro power_increasing) (simp_all add: Suc_le_eq)
  also have "\<dots> \<le> tmp_value t" using r(2,4) long by auto
  finally show ?thesis using r(3) by (simp add: less_eq_div_iff_mult_less_eq)
qed

lemma quotient_start:
  assumes ready: "div_ready R t D" and size: "tmp_size D \<le> tmp_size t"
  shows "tmp_value t < NB ^ Suc (tmp_size t - tmp_size D) * tmp_value D"
proof -
  have r: "NB ^ (tmp_size D - 1) \<le> tmp_value D" "tmp_value t < NB ^ tmp_size t" "0 < tmp_size D"
    using ready by (simp_all add: div_ready_def div_tmp_ok_def)
  have "tmp_value t < NB ^ tmp_size t" by (rule r(2))
  also have "\<dots> = NB ^ Suc (tmp_size t - tmp_size D) * NB ^ (tmp_size D - 1)"
    unfolding power_add [symmetric] using r(3) size by (intro arg_cong [of _ _ "\<lambda>k. NB ^ k"]) simp
  also have "\<dots> \<le> NB ^ Suc (tmp_size t - tmp_size D) * tmp_value D" using r(1) by (rule mult_le_mono2)
  finally show ?thesis .
qed

text \<open>The long division.  It returns, with the quotient or with an overflow.\<close>

lemma div_slow_correct:
  assumes R: "dranks_ok R" and ready: "div_ready R t D" and two: "2 \<le> tmp_size D" and size: "tmp_size D \<le> tmp_size t"
  defines "q \<equiv> tmp_value t div tmp_value D"
  shows "if q < 10 ^ TOTAL R
    then \<exists>zs. div_slow R t D (max_element D) = Some (Inr zs) \<and> length zs = SIZE R \<and> elems_ok zs \<and> value_of zs = q
    else div_slow R t D (max_element D) = Some (Inl Overflow)"
proof -
  define s where "s = BASE div (max_element D + 1)"
  note b = scale_bounds [OF ready, folded s_def]
  have r: "div_tmp_ok t" "div_tmp_ok D" "length (tmp_array t) = DIV_TMP_SIZE R" "length (tmp_array D) = SIZE R + 1"
    "initial_size t = tmp_size t" "tmp_value D \<noteq> 0" "NB ^ (tmp_size D - 1) \<le> tmp_value D"
    using ready by (simp_all add: div_ready_def)
  have sz: "tmp_size t \<le> TMP_SIZE R" by (rule dividend_size [OF R ready])
  have "NB ^ tmp_size D \<le> NB ^ length (tmp_array D)" using r(2) by (intro power_increasing) (simp_all add: div_tmp_ok_def Suc_le_eq)
  with b(4) have Ds: "tmp_value D * unat s < NB ^ length (tmp_array D)" by linarith
  from scale_step [OF r(1) b(2,1,5) r(3) [symmetric]] obtain t' where
    t': "(if s > 1 then tmp_mul (DIV_TMP_SIZE R) s t else Some (Inr t)) = Some (Inr t')" "scaled_tmp s t t'" by blast
  from scale_step [OF r(2) b(2,1) Ds r(4) [symmetric]] obtain D' where
    D': "(if s > 1 then tmp_mul (SIZE R + 1) s D else Some (Inr D)) = Some (Inr D')" "scaled_tmp s D D'" "\<not> s > 1 \<longrightarrow> D' = D" by blast
  note dv = scaled_divisor [OF ready two s_def D'(2)]
  have max: "(if s > 1 then max_element D' else max_element D) = max_element D'" using D'(3) by simp
  have v: "tmp_value t' = tmp_value t * unat s" "tmp_value D' = tmp_value D * unat s" "div_tmp_ok t'"
    "initial_size t' = tmp_size t" "length (tmp_array t') = Suc (TMP_SIZE R)"
    using t'(2) D'(2) r(3,5) by (simp_all add: scaled_tmp_def DIV_TMP_SIZE_TMP)
  have q: "tmp_value t' div tmp_value D' = q" "tmp_value t' mod tmp_value D' = tmp_value t mod tmp_value D * unat s"
    using b(1) by (simp_all add: v q_def mult_mod_left)
  define i where "i = tmp_size t - tmp_size D"
  have slow: "div_slow R t D (max_element D) = (if i > SIZE R then Some (Inl Overflow)
      else then_do (div_loop R D' (max_element D') (pre_max_element D') (Suc i) t' (replicate (SIZE R) 0))
        (\<lambda>(t, qs). if s > 1 then case tmp_div s t of None \<Rightarrow> None | Some (t, junk) \<Rightarrow> need (junk = 0) (Some (Inr qs))
          else Some (Inr qs)))"
    using b(1,2) unfolding div_slow_def s_def [symmetric] Let_def t'(1) D'(1) then_do_simps max v(4) dv(2) i_def [symmetric]
    by (simp add: word_less_nat_alt unat_BASE)
  show ?thesis
  proof (cases "i > SIZE R")
    case True
    then have "10 ^ TOTAL R \<le> q" unfolding q_def i_def by (rule quotient_too_long [OF ready])
    with True slow show ?thesis by simp
  next
    case False
    have start: "tmp_value t' < NB ^ Suc i * tmp_value D'"
      unfolding v i_def using quotient_start [OF ready size] b(1) by simp
    have fits: "Suc i + initial_size D' \<le> length (tmp_array t')" using sz size v(5) by (simp add: i_def dv(2))
    have zero: "value_of (take (Suc i) (replicate (SIZE R) 0)) = 0" by (simp add: take_replicate)
    note loop = div_loop_correct [OF R dv(1) v(3) fits start _ _ _ zero, unfolded q]
    show ?thesis
    proof (cases "q < 10 ^ TOTAL R")
      case True
      with loop False obtain t'' zs where l: "div_loop R D' (max_element D') (pre_max_element D') (Suc i) t' (replicate (SIZE R) 0) = Some (Inr (t'', zs))"
        "div_tmp_ok t''" "tmp_value t'' = tmp_value t mod tmp_value D * unat s" "length zs = SIZE R" "elems_ok zs" "value_of zs = q"
        by (auto simp: not_less)
      from tmp_div_correct [OF l(2) b(1,2)] obtain t3 junk where "tmp_div s t'' = Some (t3, junk)" "unat junk = 0"
        unfolding l(3) by auto
      with False True l show ?thesis unfolding slow by (simp add: unat_eq_zero)
    next
      case ge: False
      with loop False show ?thesis unfolding slow by (simp add: not_less)
    qed
  qed
qed


section \<open>Quotient and remainder\<close>

lemma single_element:
  assumes "div_tmp_ok D" "tmp_size D = 1"
  shows "unat (max_element D) = tmp_value D"
proof -
  have D: "elems_ok (tmp_array D)" "1 \<le> length (tmp_array D)" "tmp_value D < NB ^ 1" using assms by (simp_all add: div_tmp_ok_def)
  from value_of_take_all [OF D] D(2) assms(2) show ?thesis by (cases "tmp_array D") (simp_all add: max_element_def)
qed

lemma decimal_div_quotient_units:
  assumes R: "dranks_ok R" and a: "number_ok R a" and b: "number_ok R b"
  defines "n \<equiv> magnitude a * 10 ^ FRACTION R"
  shows "if magnitude b \<noteq> 0 \<and> n div magnitude b < 10 ^ TOTAL R
    then \<exists>same c. decimal_div_quotient R a b = Some (Inr (same, c)) \<and> number_ok R c \<and> magnitude c = n div magnitude b \<and>
      negative c = (negative a \<noteq> negative b) \<and> (same \<longrightarrow> n < magnitude b)
    else decimal_div_quotient R a b = Some (Inl Overflow)"
proof -
  define t where "t = shrink (DivTmpDividend R a)"
  define D where "D = shrink (DivTmpDivisor R b)"
  have max: "max_element D = 0 \<longleftrightarrow> magnitude b = 0"
    unfolding D_def using shrink_correct(3) [OF DivTmpDivisor_ok(1) [OF b]] DivTmpDivisor_ok(2) [OF b] by simp
  have d: "decimal_div_quotient R a b = (if max_element D = 0 then Some (Inl Overflow)
      else if tmp_size t < tmp_size D then Some (Inr (True, \<lparr>negative = negative a \<noteq> negative b, array = replicate (SIZE R) 0\<rparr>))
      else if tmp_size D = 1 then
        (case tmp_div (max_element D) t of None \<Rightarrow> None
         | Some (t, r) \<Rightarrow> (case dividend_export R t of None \<Rightarrow> Some (Inl Overflow)
             | Some xs \<Rightarrow> Some (Inr (False, \<lparr>negative = negative a \<noteq> negative b, array = xs\<rparr>))))
      else then_do (div_slow R t D (max_element D)) (\<lambda>xs. Some (Inr (False, \<lparr>negative = negative a \<noteq> negative b, array = xs\<rparr>))))"
    unfolding decimal_div_quotient_def t_def D_def Let_def by simp
  show ?thesis
  proof (cases "magnitude b = 0")
    case True
    with max show ?thesis unfolding d by simp
  next
    case False
    from div_ready_shrink [OF R a b False] have ready: "div_ready R t D" and v: "tmp_value t = n" "tmp_value D = magnitude b"
      unfolding t_def D_def n_def by simp_all
    have r: "div_tmp_ok t" "div_tmp_ok D" "length (tmp_array t) = DIV_TMP_SIZE R" "NB ^ (tmp_size D - 1) \<le> magnitude b"
      using ready v by (simp_all add: div_ready_def)
    have m: "max_element D \<noteq> 0" using max False by simp
    consider (small) "tmp_size t < tmp_size D" | (one) "\<not> tmp_size t < tmp_size D" "tmp_size D = 1"
      | (slow) "\<not> tmp_size t < tmp_size D" "tmp_size D \<noteq> 1" by blast
    then show ?thesis
    proof cases
      case small
      have "n < NB ^ tmp_size t" using r(1) v(1) by (simp add: div_tmp_ok_def)
      also have "\<dots> \<le> NB ^ (tmp_size D - 1)" using small by (intro power_increasing) (simp_all add: Suc_le_eq)
      finally have "n < magnitude b" using r(4) by simp
      then show ?thesis
        unfolding d if_not_P [OF m] if_P [OF small] using False by (simp add: number_ok_def exI [of _ True])
    next
      case one
      have md: "unat (max_element D) = magnitude b" by (rule single_element [OF r(2) one(2), unfolded v])
      have lim: "unat (max_element D) < NB" unfolding md v(2) [symmetric] using r(2) one(2) by (simp add: div_tmp_ok_def)
      from tmp_div_correct [OF r(1) _ lim] m obtain t' j where t': "tmp_div (max_element D) t = Some (t', j)" "div_tmp_ok t'"
        "tmp_value t' = n div magnitude b" "length (tmp_array t') = DIV_TMP_SIZE R"
        unfolding md v(1) r(3) unat_gt_0 by (auto simp: md [symmetric] unat_gt_0)
      from dividend_export_correct [OF R t'(2,4)] show ?thesis
        unfolding d if_not_P [OF m] if_not_P [OF one(1)] if_P [OF one(2)] t'(1,3) using False by (auto simp: number_ok_def ex_bool_eq)
    next
      case slow
      have "2 \<le> tmp_size D" "tmp_size D \<le> tmp_size t" using slow r(2) by (auto simp: div_tmp_ok_def)
      from div_slow_correct [OF R ready this, unfolded v] show ?thesis
        unfolding d if_not_P [OF m] if_not_P [OF slow(1)] if_not_P [OF slow(2)] using False by (auto simp: number_ok_def ex_bool_eq)
    qed
  qed
qed

subsection \<open>Zero and the smallest number\<close>

lemma base_elements_zero: "base_elements n 0 = (replicate n 0, 0)"
  by (induction n) simp_all

lemma base_elements_one: "base_elements n 1 = (if n = 0 then ([], 1) else (1 # replicate (n - 1) 0, 0))"
proof (cases n)
  case (Suc m)
  have "uint BASE = 1000000000000000000" by (simp add: BASE_def DIGITS_PER_ELEMENT_def Pow10_power power_10_simps)
  with Suc show ?thesis by (simp add: base_elements_zero)
qed simp

text \<open>A fraction that leaves an element below the remainder, and no integer.\<close>

lemma construct_parts_fraction:
  assumes R: "dranks_ok R" "FRACTION_END R < SIZE R"
    and low: "base_elements (FRACTION_END R) f = (low, rest)" "(word_of_int rest :: uint64) < FRACTION_REMAINDER R"
  shows "number_construct_parts R neg 0 f =
    Inr \<lparr>negative = neg, array = low @ word_of_int rest # replicate (SIZE R - (FRACTION_END R + 1)) 0\<rparr>"
proof -
  have "\<not> exceeds (word_of_int rest) (FRACTION_REMAINDER R)" using low(2) by (simp add: exceeds_def)
  moreover have "SIZE R = FRACTION_END R + 1" if "INTEGER_RANK R = 0"
    using that R unfolding SIZE_def FRACTION_END_def DIGITS_PER_ELEMENT_def INTEGER_RANK_def dranks_ok_def by linarith
  moreover have "replicate (SIZE R - (FRACTION_END R + 1)) 0 = replicate (SIZE R - 1 - (FRACTION_END R + 1)) 0 @ [0 :: uint64]"
    if "FRACTION_END R + 1 < SIZE R"
    using that replicate_append_same [of "SIZE R - 1 - (FRACTION_END R + 1)" "0 :: uint64"]
    by (simp add: Suc_diff_Suc flip: replicate_Suc)
  moreover have "SIZE R = FRACTION_END R + 1" if "\<not> FRACTION_END R + 1 < SIZE R" using that R(2) by simp
  ultimately show ?thesis using R(2) unfolding number_construct_parts_def low(1)
    by (cases "INTEGER_RANK R = 0"; cases "FRACTION_END R + 1 < SIZE R") (simp_all add: base_elements_zero)
qed

lemma zero_constructed:
  assumes "dranks_ok R" "FRACTION_END R < SIZE R"
  shows "number_construct_parts R neg 0 0 = Inr \<lparr>negative = neg, array = replicate (SIZE R) 0\<rparr>"
proof -
  have "(0 :: uint64) < FRACTION_REMAINDER R" using fraction_split(3) [of R] by (simp add: word_less_nat_alt)
  moreover have "replicate (FRACTION_END R) 0 @ 0 # replicate (SIZE R - (FRACTION_END R + 1)) 0 = replicate (SIZE R) (0 :: uint64)"
    using assms(2) by (simp flip: replicate_Suc replicate_add)
  ultimately show ?thesis using construct_parts_fraction [OF assms base_elements_zero] by simp
qed

lemma epsilon_fraction:
  assumes R: "dranks_ok R" "FRACTION_END R < SIZE R" and F: "FRACTION R \<noteq> 0"
  shows "number_construct_parts R False 0 1 = Inr \<lparr>negative = False, array = 1 # replicate (SIZE R - 1) 0\<rparr>"
proof (cases "FRACTION_END R")
  case 0
  then have "FRACTION R mod 18 \<noteq> 0" using F by (simp add: FRACTION_END_def DIGITS_PER_ELEMENT_def)
  then have "unat (FRACTION_REMAINDER R) \<noteq> 1" using fraction_split(6) [of R] by (simp add: word_unat_eq_iff)
  then have "(1 :: uint64) < FRACTION_REMAINDER R" using fraction_split(3) [of R] by (simp add: word_less_nat_alt)
  with construct_parts_fraction [OF R base_elements_one [THEN trans], of "[]" 1] 0 show ?thesis by simp
next
  case (Suc k)
  have "(0 :: uint64) < FRACTION_REMAINDER R" using fraction_split(3) [of R] by (simp add: word_less_nat_alt)
  moreover have "replicate k 0 @ 0 # replicate (SIZE R - (FRACTION_END R + 1)) 0 = replicate (SIZE R - 1) (0 :: uint64)"
    using R(2) Suc by (simp flip: replicate_Suc replicate_add)
  ultimately show ?thesis
    using construct_parts_fraction [OF R base_elements_one [THEN trans], of "1 # replicate k 0" 0] Suc by simp
qed

lemma epsilon_integer:
  assumes R: "dranks_ok R" "FRACTION R = 0"
  shows "number_construct_parts R False 1 0 = Inr \<lparr>negative = False, array = 1 # replicate (SIZE R - 1) 0\<rparr>"
proof -
  have s: "FRACTION_END R = 0" "FRACTION_REMAINDER R = 1" "uint (FRACTION_OVER R) = 10 ^ 18" "INTEGER_RANK R \<noteq> 0" "0 < SIZE R"
    using R by (simp_all add: FRACTION_END_def FRACTION_REMAINDER_def FRACTION_OVER_def INTEGER_RANK_def SIZE_def dranks_ok_def
        DIGITS_PER_ELEMENT_def Pow10_power power_10_simps)
  have "replicate (SIZE R - 1) 0 = replicate (SIZE R - 2) 0 @ [0 :: uint64]" if "1 < SIZE R"
    using that replicate_append_same [of "SIZE R - 2" "0 :: uint64"] by (simp add: Suc_diff_Suc numeral_2_eq_2 flip: replicate_Suc)
  then show ?thesis
    unfolding number_construct_parts_def using s by (auto simp: base_elements_zero exceeds_def Let_def numeral_2_eq_2)
qed

lemma decimal_epsilon_value:
  assumes R: "dranks_ok R"
  shows "decimal_epsilon R = \<lparr>negative = False, array = 1 # replicate (SIZE R - 1) 0\<rparr>"
proof (cases "FRACTION R = 0")
  case True
  then show ?thesis using epsilon_integer [OF R] by (simp add: decimal_epsilon_def)
next
  case F: False
  show ?thesis
  proof (cases "FRACTION_END R < SIZE R")
    case True
    then show ?thesis using F epsilon_fraction [OF R True F] by (simp add: decimal_epsilon_def)
  next
    case False
    obtain xs rest where b: "base_elements (FRACTION_END R) 1 = (xs, rest)" by fastforce
    have "number_construct_parts R False 0 1 \<noteq> Inr d" for d
      using False b by (simp add: number_construct_parts_def)
    then obtain e where "number_construct_parts R False 0 1 = Inl e" by (cases "number_construct_parts R False 0 1") auto
    moreover have "0 < SIZE R" using SIZE_split(1) [OF R] .
    ultimately show ?thesis using F by (simp add: decimal_epsilon_def base_elements_one)
  qed
qed

lemma decimal_epsilon_ok:
  assumes "dranks_ok R"
  shows "number_ok R (decimal_epsilon R)" "magnitude (decimal_epsilon R) = 1"
proof -
  have "(1 :: nat) < 10 ^ TOTAL R" using assms by (intro one_less_power) (simp_all add: dranks_ok_def)
  with SIZE_split(1) [OF assms] show "number_ok R (decimal_epsilon R)" "magnitude (decimal_epsilon R) = 1"
    by (simp_all add: decimal_epsilon_value [OF assms] number_ok_def magnitude_def)
qed

text \<open>The product of the quotient and the divisor, rounded down, is the dividend precisely when the division is exact.\<close>

lemma product_back:
  fixes a m F q :: nat
  assumes "0 < m" "0 < F" "q = a * F div m"
  shows "q * m div F \<le> a" "q * m div F = a \<longleftrightarrow> a * F mod m = 0" "(a - q * m div F) * F < m + F"
proof -
  have e: "q * m + a * F mod m = a * F" unfolding assms(3) by simp
  have f: "q * m div F * F + q * m mod F = q * m" by simp
  have lt: "a * F mod m < m" "q * m mod F < F" using assms(1,2) by simp_all
  have "q * m div F * F \<le> a * F" using e f by linarith
  then show "q * m div F \<le> a" using assms(2) by simp
  show "q * m div F = a \<longleftrightarrow> a * F mod m = 0"
  proof
    assume "q * m div F = a"
    with e f show "a * F mod m = 0" by simp
  next
    assume "a * F mod m = 0"
    with e have "q * m = a * F" by simp
    with assms(2) show "q * m div F = a" by simp
  qed
  show "(a - q * m div F) * F < m + F" unfolding diff_mult_distrib using e f lt by linarith
qed

lemma decimal_div_remainder_units:
  assumes R: "dranks_ok R" and a: "number_ok R a" and b: "number_ok R b"
  defines "q \<equiv> magnitude a * 10 ^ FRACTION R div magnitude b"
  shows "if magnitude b \<noteq> 0 \<and> q < 10 ^ TOTAL R
    then \<exists>c p r. decimal_div_remainder R a b = Some (Inr (c, r)) \<and> number_ok R c \<and> magnitude c = q \<and>
      negative c = (negative a \<noteq> negative b) \<and> decimal_mul R c b DMR_FLOOR = Inr p \<and> number_ok R r \<and>
      number_units a = number_units p + number_units r \<and> magnitude p \<le> magnitude a \<and>
      magnitude r * 10 ^ FRACTION R < magnitude b + 10 ^ FRACTION R
    else decimal_div_remainder R a b = Some (Inl Overflow)"
proof (cases "magnitude b \<noteq> 0 \<and> q < 10 ^ TOTAL R")
  case False
  with decimal_div_quotient_units [OF R a b] have "decimal_div_quotient R a b = Some (Inl Overflow)"
    unfolding q_def by (simp only: if_False)
  then show ?thesis unfolding if_not_P [OF False] decimal_div_remainder_def by simp
next
  case True
  then have b0: "0 < magnitude b" by simp
  from decimal_div_quotient_units [OF R a b] True obtain same c where
    c: "decimal_div_quotient R a b = Some (Inr (same, c))" "number_ok R c" "magnitude c = q"
    "negative c = (negative a \<noteq> negative b)" "same \<longrightarrow> magnitude a * 10 ^ FRACTION R < magnitude b" unfolding q_def by auto
  note pb = product_back [OF b0 _ meta_eq_to_obj_eq [OF q_def], simplified]
  define pm where "pm = q * magnitude b div 10 ^ FRACTION R"
  have "pm < 10 ^ TOTAL R" using pb(1) a unfolding pm_def number_ok_def by linarith
  with decimal_mul_units [OF R c(2) b _ refl, of DMR_FLOOR] c(3) obtain p where
    p: "decimal_mul R c b DMR_FLOOR = Inr p" "number_ok R p" "magnitude p = pm" "negative p = negative a"
    by (auto simp: pm_def rounded_quotient_def c(4))
  show ?thesis
  proof (cases same)
    case same: True
    then have "q = 0" using c(5) by (simp add: q_def)
    then have "number_units p = 0" using p(3) by (simp add: pm_def number_units_def)
    moreover have "magnitude a * 10 ^ FRACTION R < magnitude b + 10 ^ FRACTION R" using same c(5) by simp
    ultimately show ?thesis
      using True same c p a \<open>q = 0\<close> by (simp add: decimal_div_remainder_def pm_def exI [of _ p])
  next
    case False
    have units: "number_units a - number_units p =
      (if negative a then - int (magnitude a - pm) else int (magnitude a - pm))"
      using p(3,4) pb(1) by (simp add: number_units_def pm_def of_nat_diff)
    have "\<bar>number_units a - number_units p\<bar> < 10 ^ TOTAL R"
    proof -
      have "magnitude a - pm < 10 ^ TOTAL R" using a unfolding number_ok_def by linarith
      then have "int (magnitude a - pm) < int (10 ^ TOTAL R)" by (simp only: of_nat_less_iff)
      then show ?thesis unfolding units by simp
    qed
    with decimal_sub_units [OF R a p(2)] obtain r where r: "decimal_sub R a p = Inr r" "number_ok R r"
      "number_units r = number_units a - number_units p" by (auto split: sum.splits)
    have "int (magnitude r) = int (magnitude a - pm)"
      unfolding number_units_parts(2) [symmetric] r(3) units by simp
    then have "magnitude r = magnitude a - pm" by simp
    with pb(3) have "magnitude r * 10 ^ FRACTION R < magnitude b + 10 ^ FRACTION R" by (simp add: pm_def)
    with True False c p r pb(1) show ?thesis
      by (simp add: decimal_div_remainder_def pm_def)
  qed
qed

lemma decimal_div_units:
  fixes ddr :: DecimalDivRemainder
  assumes R: "dranks_ok R" and a: "number_ok R a" and b: "number_ok R b"
  defines "q \<equiv> rounded_quotient (mul_mode ddr) (magnitude a * 10 ^ FRACTION R) (magnitude b)"
  shows "if magnitude b \<noteq> 0 \<and> q < 10 ^ TOTAL R
    then \<exists>c. decimal_div R a b ddr = Some (Inr c) \<and> number_ok R c \<and> magnitude c = q \<and>
      negative c = (negative a \<noteq> negative b)
    else decimal_div R a b ddr = Some (Inl Overflow)"
proof -
  let ?n = "magnitude a * 10 ^ FRACTION R" and ?m = "magnitude b"
  show ?thesis
  proof (cases "?m \<noteq> 0 \<and> ?n div ?m < 10 ^ TOTAL R")
    case False
    have "?n div ?m \<le> q" unfolding q_def by (rule rounded_quotient_ge)
    with False have "\<not> (?m \<noteq> 0 \<and> q < 10 ^ TOTAL R)" by auto
    with decimal_div_quotient_units [OF R a b] show ?thesis unfolding if_not_P [OF False] by (auto simp: decimal_div_def)
  next
    case True
    then have m: "0 < ?m" by simp
    from decimal_div_quotient_units [OF R a b] True obtain same c where
      c: "decimal_div_quotient R a b = Some (Inr (same, c))" "number_ok R c" "magnitude c = ?n div ?m"
      "negative c = (negative a \<noteq> negative b)" by auto
    show ?thesis
    proof (cases ddr)
      case DDR_FLOOR
      with True c show ?thesis by (simp add: q_def mul_mode_def rounded_quotient_def decimal_div_def)
    next
      case DDR_CEIL
      note pb = product_back [OF m _ refl, of "10 ^ FRACTION R" "magnitude a", simplified]
      define pm where "pm = ?n div ?m * ?m div 10 ^ FRACTION R"
      have "pm < 10 ^ TOTAL R" using pb(1) a unfolding pm_def number_ok_def by linarith
      with decimal_mul_units [OF R c(2) b _ refl, of DMR_FLOOR] c(3) obtain p where
        p: "decimal_mul R c b DMR_FLOOR = Inr p" "number_ok R p" "magnitude p = pm" "negative p = negative a"
        by (auto simp: pm_def rounded_quotient_def c(4))
      have exact: "decimal_not_equal a p \<longleftrightarrow> ?n mod ?m \<noteq> 0"
        using number_units_order(1) [OF R a p(2)] p(3,4) pb(2) by (auto simp: decimal_not_equal_def number_units_def pm_def)
      have q: "q = ?n div ?m + (if ?n mod ?m \<noteq> 0 then 1 else 0)"
        unfolding q_def using rounded_quotient_step [of ?m DMR_CEIL ?n] m DDR_CEIL by (simp add: mul_mode_def)
      obtain zs over where ia: "internal_add R c (decimal_epsilon R) = (zs, over)" by fastforce
      note add = internal_add_correct [OF R c(2) decimal_epsilon_ok(1) [OF R] ia, unfolded decimal_epsilon_ok(2) [OF R] c(3)]
      have "decimal_div R a b ddr = Some (if ?n mod ?m \<noteq> 0 then if over then Inl Overflow else Inr (c\<lparr>array := zs\<rparr>) else Inr c)"
        unfolding decimal_div_def c(1) by (simp add: DDR_CEIL p(1) exact ia)
      then show ?thesis using True c q add by (auto simp: number_ok_def magnitude_def not_le)
    qed
  qed
qed

end
