(* ===== verification/Decimal_String.thy ===== *)
theory Decimal_String
  imports Decimal_Text Decimal_Division
begin

text \<open>
  Construction, conversion, text, packed form and rounding of \<^verbatim>\<open>Generics::Decimal\<close>
  (\<^verbatim>\<open>src/src/Generics/Decimal.tpp\<close>); the constructor from parts is in \<open>Decimal_Division\<close>.  The integer arguments of the templates are \<open>int\<close> with the type
  they have; every assignment to an element casts.  A write behind the array is \<open>OutOfBounds\<close>.  The
  pointers of \<^verbatim>\<open>construct_(const String::SubString&)\<close> are lists: \<open>begin\<close> to \<open>end\<close> is the list of the characters
  between them, and the two loops that move them drop zeros at one end of it.
\<close>

section \<open>Operations\<close>

subsection \<open>Construction\<close>

text \<open>The loop that stops where nothing is left of the number, for at most \<open>n\<close> elements.\<close>

fun value_elements :: "nat \<Rightarrow> int \<Rightarrow> uint64 list \<times> int" where
  "value_elements 0 v = ([], v)"
| "value_elements (Suc n) v =
     (if v \<noteq> 0 then
        let (xs, rest) = value_elements n (v div uint BASE) in (word_of_int (v mod uint BASE) # xs, rest)
      else ([], v))"

definition rational_elements :: "ranks \<Rightarrow> int \<Rightarrow> nat \<Rightarrow> uint64 list result" where
  "rational_elements R integer diff =
     (let low = replicate (diff div DIGITS_PER_ELEMENT) 0; diff = diff mod DIGITS_PER_ELEMENT
      in if diff \<noteq> 0 \<and> length low \<ge> SIZE R then Inl OutOfBounds
         else
           let mask = pow10 (DIGITS_PER_ELEMENT - diff) :: uint64;
               (low, integer) =
                 (if diff \<noteq> 0
                  then (low @ [word_of_int (integer mod uint mask) * (BASE div mask)], integer div uint mask)
                  else (low, integer));
               (mid, integer) = value_elements (SIZE R - 1 - length low) integer;
               i = length low + length mid;
               (high, integer) =
                 (if i = SIZE R - 1
                  then ([word_of_int (integer mod uint (INTEGER_MAX_OVER R))], integer div uint (INTEGER_MAX_OVER R))
                  else (replicate (SIZE R - i) 0, integer))
           in if integer \<noteq> 0 then Inl Overflow else Inr (low @ mid @ high))"

definition number_construct_rational :: "ranks \<Rightarrow> int_type \<Rightarrow> int \<Rightarrow> nat \<Rightarrow> Decimal result" where
  "number_construct_rational R T integer pow =
     (if pow \<ge> it_digits10 T + FRACTION R \<or> integer = 0
      then Inr \<lparr>negative = False, array = replicate (SIZE R) 0\<rparr>
      else rbind (split_integer T integer) (\<lambda>(integer, neg).
        let (integer, pow) =
              (if pow > FRACTION R
               then (integer div it_cast T (uint (pow10 (pow - FRACTION R) :: uint64)), FRACTION R)
               else (integer, pow))
        in rmap (\<lambda>xs. \<lparr>negative = neg, array = xs\<rparr>) (rational_elements R integer (FRACTION R - pow))))"

text \<open>From a \<^verbatim>\<open>SimpleDecimal\<close>, whose fraction is not longer.\<close>

definition number_construct_simple :: "ranks \<Rightarrow> ranks \<Rightarrow> SimpleDecimal \<Rightarrow> Decimal result" where
  "number_construct_simple R DIFF diff =
     rmap (\<lambda>d. d\<lparr>negative := SimpleDecimal.negative diff\<rparr>)
       (number_construct_rational R uint64_type (uint (data diff)) (FRACTION DIFF))"

definition number_maximum :: "ranks \<Rightarrow> Decimal" where
  "number_maximum R = \<lparr>negative = False, array = replicate (SIZE R - 1) (BASE - 1) @ [INTEGER_MAX_OVER R - 1]\<rparr>"

subsection \<open>Text\<close>

fun assemble_elements :: "nat \<Rightarrow> nat \<Rightarrow> nat list \<Rightarrow> uint64 list" where
  "assemble_elements 0 n num = []"
| "assemble_elements (Suc k) n num =
     (let digits = (if n \<ge> DIGITS_PER_ELEMENT then DIGITS_PER_ELEMENT else n); n = n - digits
      in assemble_decimal digits (drop n num) 0 # assemble_elements k n num)"

definition trim_zeros :: "bytes \<Rightarrow> bytes" where
  "trim_zeros cs = rev (dropWhile (\<lambda>c. c = ch CHR ''0'') (rev cs))"

text \<open>
  The characters from \<open>begin\<close> to \<open>integer_end\<close>, from \<open>fraction_begin\<close> to \<open>end\<close>, and whether \<open>begin\<close> is
  \<open>end\<close>; the point, when there is one, is at or behind \<open>begin\<close>.
\<close>

definition text_parts :: "bytes \<Rightarrow> bytes \<times> bytes \<times> bool" where
  "text_parts cs =
     (if ch CHR ''.'' \<in> set cs then
        let cs' = trim_zeros cs
        in if last cs' = ch CHR ''.'' then (butlast cs', [], butlast cs' = [])
           else let integer = takeWhile (\<lambda>c. c \<noteq> ch CHR ''.'') cs'
                in (integer, drop (length integer + 1) cs', cs' = [])
      else (cs, [], cs = []))"

definition number_digits :: "ranks \<Rightarrow> bytes \<Rightarrow> bytes \<Rightarrow> nat list result" where
  "number_digits R integer fraction =
     (if FRACTION R < length fraction then Inl Overflow
      else if INTEGER_RANK R < length integer then Inl Overflow
      else if \<not> list_all is_digit fraction then Inl NotNumber
      else if \<not> list_all is_digit integer then Inl NotNumber
      else Inr (replicate (INTEGER_RANK R - length integer) 0 @ map digit_of integer @
                map digit_of fraction @ replicate (FRACTION R - length fraction) 0))"

definition number_construct_text :: "ranks \<Rightarrow> bytes \<Rightarrow> Decimal result" where
  "number_construct_text R s =
     (if s = [] then Inl NotNumber
      else
        let neg = hd s = ch CHR ''-''; cs = (if neg \<or> hd s = ch CHR ''+'' then tl s else s)
        in if cs = [] then Inl NotNumber
           else
             let (integer, fraction, nothing) = text_parts (dropWhile (\<lambda>c. c = ch CHR ''0'') cs)
             in if nothing then Inr \<lparr>negative = neg, array = replicate (SIZE R) 0\<rparr>
                else rmap (\<lambda>num. \<lparr>negative = neg, array = assemble_elements (SIZE R) (TOTAL R) num\<rparr>)
                       (number_digits R integer fraction))"

fun disassemble_elements :: "nat \<Rightarrow> uint64 list \<Rightarrow> nat list" where
  "disassemble_elements n [] = []"
| "disassemble_elements n (x # xs) =
     (let digits = (if xs = [] then n else DIGITS_PER_ELEMENT)
      in disassemble_elements (n - digits) xs @ disassemble_decimal digits x)"

definition digit_char :: "nat \<Rightarrow> byte" where
  "digit_char d = 48 + word_of_nat d"

text \<open>The buffer has \<^verbatim>\<open>TOTAL_RANK + 3 + !INTEGER_RANK\<close> bytes; a fraction is followed by a zero byte.\<close>

definition number_str :: "ranks \<Rightarrow> Decimal \<Rightarrow> bytes result" where
  "number_str R d =
     (let num = disassemble_elements (TOTAL R) (array d);
          not_null = list_ex (\<lambda>x. x \<noteq> 0) (array d);
          integer = dropWhile (\<lambda>x. x = 0) (take (INTEGER_RANK R) num);
          fraction = take (FRACTION R) (drop (INTEGER_RANK R) num);
          kept = rev (dropWhile (\<lambda>x. x = 0) (rev fraction));
          res = (if negative d \<and> not_null then [ch CHR ''-''] else []) @
                (if integer = [] then [ch CHR ''0''] else map digit_char integer);
          res' = (if FRACTION R \<noteq> 0
                  then res @ [ch CHR ''.''] @ map digit_char (if kept = [] then take 1 fraction else kept)
                  else res);
          written = (if FRACTION R \<noteq> 0 then length res + 1 + length fraction + 1 else length res)
      in if written > TOTAL R + 3 + (if INTEGER_RANK R = 0 then 1 else 0) then Inl OutOfBounds else Inr res')"

definition number_convert :: "ranks \<Rightarrow> ranks \<Rightarrow> Decimal \<Rightarrow> Decimal result" where
  "number_convert R DIFF diff = rbind (number_str DIFF diff) (number_construct_text R)"

subsection \<open>Conversion to an integer\<close>

text \<open>The elements from \<^verbatim>\<open>SIZE - 1\<close> down; the element at \<^verbatim>\<open>FRACTION_END\<close> comes last.\<close>

fun integer_elements :: "int_type \<Rightarrow> uint64 list \<Rightarrow> int \<Rightarrow> int result" where
  "integer_elements T [] ret = Inr ret"
| "integer_elements T (x # xs) ret =
     (if it_max T \<ge> uint x \<and> ret \<le> (it_max T - uint x) div uint BASE
      then integer_elements T xs (it_cast T (ret * uint BASE + uint x))
      else Inl Overflow)"

definition number_integer :: "ranks \<Rightarrow> int_type \<Rightarrow> Decimal \<Rightarrow> int result" where
  "number_integer R T d =
     (if INTEGER_RANK R = 0 then Inr 0
      else rbind (integer_elements T (rev (drop (FRACTION_END R + 1) (array d))) 0) (\<lambda>ret.
        let part = uint (array d ! FRACTION_END R div FRACTION_REMAINDER R)
        in if it_max T < part \<or> ret > (it_max T - part) div uint (FRACTION_OVER R) then Inl Overflow
           else
             let ret = ret * it_cast T (uint (FRACTION_OVER R)) + it_cast T part
             in if negative d \<and> ret \<noteq> 0 \<and> \<not> it_signed T then Inl Sign
                else Inr (if negative d then - ret else ret)))"

subsection \<open>Packed form, sign and rounding\<close>

definition element_bytes :: "uint64 \<Rightarrow> bytes" where
  "element_bytes x = map (\<lambda>i. ucast (drop_bit (8 * i) x)) [0..<8]"

definition element_of :: "bytes \<Rightarrow> uint64" where
  "element_of bs = foldr (\<lambda>i w. push_bit (8 * i) (ucast (bs ! i)) OR w) [0..<8] 0"

definition number_pack :: "Decimal \<Rightarrow> bytes" where
  "number_pack d = concat (map element_bytes (array d)) @ [if negative d then 1 else 0]"

definition number_unpack :: "ranks \<Rightarrow> bytes \<Rightarrow> Decimal" where
  "number_unpack R buffer =
     \<lparr>negative = buffer ! (SIZE R * 8) \<noteq> 0,
      array = map (\<lambda>i. element_of (take 8 (drop (8 * i) buffer))) [0..<SIZE R]\<rparr>"

definition number_negate :: "Decimal \<Rightarrow> Decimal" where
  "number_negate d = d\<lparr>negative := \<not> negative d\<rparr>"

definition number_floor :: "ranks \<Rightarrow> nat \<Rightarrow> Decimal \<Rightarrow> Decimal" where
  "number_floor R fraction d =
     (if fraction > FRACTION R \<or> fraction = FRACTION R then d
      else
        let fraction = FRACTION R - fraction; index = fraction div DIGITS_PER_ELEMENT;
            xs = replicate index 0 @ drop index (array d)
        in if index < SIZE R then
             let pow = pow10 (fraction mod DIGITS_PER_ELEMENT)
             in d\<lparr>array := if xs ! index mod pow \<noteq> 0 then xs[index := xs ! index div pow * pow] else xs\<rparr>
           else d\<lparr>array := xs\<rparr>)"

text \<open>The carry above element \<open>index\<close>: whether it leaves the array, and the elements.\<close>

fun ceil_carry :: "uint64 list \<Rightarrow> bool \<times> uint64 list" where
  "ceil_carry [] = (True, [])"
| "ceil_carry (x # xs) =
     (if x < BASE - 1 then (False, (x + 1) # xs)
      else let (overflow, xs) = ceil_carry xs in (overflow, 0 # xs))"

definition number_ceil :: "ranks \<Rightarrow> nat \<Rightarrow> Decimal \<Rightarrow> Decimal result" where
  "number_ceil R fraction d =
     (if fraction > FRACTION R \<or> fraction = FRACTION R then Inr d
      else
        let fraction = FRACTION R - fraction; index = fraction div DIGITS_PER_ELEMENT;
            overflow = list_ex (\<lambda>x. x \<noteq> 0) (take index (array d));
            xs = replicate index 0 @ drop index (array d);
            (overflow, xs) =
              (if index < SIZE R then
                 let pow = pow10 (fraction mod DIGITS_PER_ELEMENT)
                 in if overflow \<or> xs ! index mod pow \<noteq> 0 then
                      let res = (xs ! index div pow + 1) * pow;
                          (overflow, xs) =
                            (if res < BASE then (False, xs[index := res])
                             else let (overflow, high) = ceil_carry (drop (index + 1) xs)
                                  in (overflow, take index xs @ 0 # high))
                      in (overflow \<or> xs ! (SIZE R - 1) \<ge> INTEGER_MAX_OVER R, xs)
                    else (overflow, xs)
               else (overflow, xs))
        in if overflow then Inl Overflow else Inr (d\<lparr>array := xs\<rparr>))"

definition number_hash_bytes :: "Decimal \<Rightarrow> bytes" where
  "number_hash_bytes d = concat (map element_bytes (array d))"

section \<open>Construction\<close>

lemma uint_BASE: "uint BASE = int NB"
  using unat_BASE by (metis uint_nat)

lemma uint_element:
  assumes "0 \<le> v" "v < int NB"
  shows "unat (word_of_int v :: uint64) = nat v" "unat (word_of_int v :: uint64) < NB"
proof -
  have "int NB < 2 ^ 64" by (simp add: NB_def)
  with assms(2) have "v < 2 ^ 64" by linarith
  with assms(1) have "uint (word_of_int v :: uint64) = v" by (simp add: uint_word_of_int)
  then show "unat (word_of_int v :: uint64) = nat v" by (metis nat_uint_eq)
  with assms show "unat (word_of_int v :: uint64) < NB" by simp
qed

lemma base_elements_correct:
  assumes "0 \<le> v" "base_elements n v = (xs, rest)"
  shows "length xs = n \<and> elems_ok xs \<and> 0 \<le> rest \<and> v = int (value_of xs) + int NB ^ n * rest"
  using assms
proof (induction n arbitrary: v xs)
  case (Suc n)
  obtain ys where ys: "base_elements n (v div uint BASE) = (ys, rest)" "xs = word_of_int (v mod uint BASE) # ys"
    using Suc.prems(2) by (auto split: prod.splits)
  have m: "0 \<le> v mod int NB" "v mod int NB < int NB" by simp_all
  have "0 \<le> v div uint BASE" unfolding uint_BASE using Suc.prems(1) by (simp add: pos_imp_zdiv_nonneg_iff)
  from Suc.IH [OF this ys(1)] have IH: "length ys = n" "elems_ok ys" "0 \<le> rest"
    "v div int NB = int (value_of ys) + int NB ^ n * rest" by (simp_all add: uint_BASE)
  have "v = v mod int NB + int NB * (v div int NB)" by simp
  then have "v = int (unat (word_of_int (v mod int NB) :: uint64)) + int NB * (int (value_of ys) + int NB ^ n * rest)"
    unfolding IH(4) uint_element(1) [OF m] by simp
  with IH(1-3) uint_element(2) [OF m] show ?case
    by (simp add: ys(2) uint_BASE algebra_simps)
qed simp

lemma value_elements_base:
  assumes "0 \<le> v" "value_elements n v = (xs, rest)"
  shows "length xs \<le> n \<and> elems_ok xs \<and> 0 \<le> rest \<and> v = int (value_of xs) + int NB ^ length xs * rest \<and>
    (length xs < n \<longrightarrow> rest = 0)"
  using assms
proof (induction n arbitrary: v xs)
  case (Suc n)
  show ?case
  proof (cases "v = 0")
    case False
    obtain ys where ys: "value_elements n (v div uint BASE) = (ys, rest)" "xs = word_of_int (v mod uint BASE) # ys"
      using Suc.prems(2) False by (auto split: prod.splits)
    have m: "0 \<le> v mod int NB" "v mod int NB < int NB" by simp_all
    have "0 \<le> v div uint BASE" unfolding uint_BASE using Suc.prems(1) by (simp add: pos_imp_zdiv_nonneg_iff)
    from Suc.IH [OF this ys(1)] have IH: "length ys \<le> n" "elems_ok ys" "0 \<le> rest" "length ys < n \<longrightarrow> rest = 0"
      "v div int NB = int (value_of ys) + int NB ^ length ys * rest" by (simp_all add: uint_BASE)
    have "v = v mod int NB + int NB * (v div int NB)" by simp
    then have "v = int (unat (word_of_int (v mod int NB) :: uint64)) + int NB * (int (value_of ys) + int NB ^ length ys * rest)"
      unfolding IH(5) uint_element(1) [OF m] by simp
    with IH(1-4) uint_element(2) [OF m] show ?thesis
      by (simp add: ys(2) uint_BASE algebra_simps)
  qed (use Suc.prems in simp)
qed simp

text \<open>The element that holds the last digits of the integer part and the first ones of the fraction.\<close>

lemma middle_element:
  assumes "0 \<le> f" "f < int (unat (FRACTION_REMAINDER R))" "0 \<le> v"
  defines "e \<equiv> word_of_int f + word_of_int (v mod uint (FRACTION_OVER R)) * FRACTION_REMAINDER R"
  shows "int (unat e) + int NB * (v div uint (FRACTION_OVER R)) = f + int (unat (FRACTION_REMAINDER R)) * v" "unat e < NB"
proof -
  define r k where "r = unat (FRACTION_REMAINDER R)" and "k = unat (FRACTION_OVER R)"
  have s: "NB = r * k" "0 < r" "0 < k" "r < NB" using fraction_split [of R] by (simp_all add: r_def k_def)
  have o: "uint (FRACTION_OVER R) = int k" by (simp add: k_def)
  define m where "m = v mod int k"
  have m: "0 \<le> m" "m < int k" using s(3) by (simp_all add: m_def)
  have "1 * k \<le> NB" unfolding s(1) using s(2) by (intro mult_le_mono1) simp
  then have w: "unat (word_of_int f :: uint64) = nat f" "unat (word_of_int m :: uint64) = nat m"
    using uint_element(1) [OF assms(1)] uint_element(1) [OF m(1)] assms(2) m(2) s(4) unfolding r_def [symmetric] by simp_all
  have less: "nat f + r * nat m < NB"
    unfolding s(1) using assms(1,2) m unfolding r_def [symmetric] by (intro add_mult_less) linarith+
  have e: "unat e = nat f + r * nat m"
    unfolding e_def o m_def [symmetric] r_def using less [unfolded r_def] NB_bound(1)
    by (subst unat_add_64; (subst unat_mult_64)?) (simp_all add: w mult.commute)
  with less show "unat e < NB" by simp
  have "int NB * (v div int k) + int r * m = int r * (int k * (v div int k) + m)"
    by (simp add: s(1) distrib_left)
  also have "int k * (v div int k) + m = v" by (simp add: m_def)
  finally show "int (unat e) + int NB * (v div uint (FRACTION_OVER R)) = f + int (unat (FRACTION_REMAINDER R)) * v"
    using e assms(1) m(1) unfolding o r_def [symmetric] by simp
qed


lemma INTEGER_MAX_OVER_bounds:
  assumes "dranks_ok R"
  shows "0 < unat (INTEGER_MAX_OVER R)" "unat (INTEGER_MAX_OVER R) \<le> NB"
proof -
  define k where "k = DIGITS_PER_ELEMENT - (SIZE R * DIGITS_PER_ELEMENT - TOTAL R)"
  have k: "k \<le> 18" by (simp add: k_def DIGITS_PER_ELEMENT_def)
  then have u: "unat (INTEGER_MAX_OVER R) = 10 ^ k"
    unfolding INTEGER_MAX_OVER_def k_def [symmetric] by (simp add: Pow10_power)
  show "0 < unat (INTEGER_MAX_OVER R)" unfolding u by simp
  show "unat (INTEGER_MAX_OVER R) \<le> NB" unfolding u NB_def using k by (intro power_increasing) simp_all
qed

lemma NB_power_int: "int (NB ^ n) = int NB ^ n"
  by simp

lemma digit_limit:
  fixes a b c k :: int
  assumes "0 \<le> a" "a < k"
  shows "a + k * b < k * c \<longleftrightarrow> b < c"
proof
  assume "a + k * b < k * c"
  then have "k * b < k * c" using assms(1) by linarith
  then show "b < c" using assms by (simp add: mult_less_cancel_left)
next
  assume "b < c"
  then have "k * (b + 1) \<le> k * c" using assms by (intro mult_left_mono) simp_all
  with assms(2) show "a + k * b < k * c" by (simp add: distrib_left)
qed

text \<open>
  The elements above the fraction, as far as their top element is limited.  Where the element at
  \<^verbatim>\<open>FRACTION_END\<close> is itself the top one, nothing looks at its limit; \<open>parts_checked\<close> are the ranks for
  which that does not matter.
\<close>

definition parts_checked :: "ranks \<Rightarrow> bool" where
  "parts_checked R \<longleftrightarrow> FRACTION_END R + 1 < SIZE R \<or> FRACTION_END R < SIZE R \<and> 18 dvd TOTAL R"

text \<open>\<open>i\<close> elements below with the value \<open>l\<close>, and \<open>v\<close> left for the ones above.\<close>

lemma top_elements:
  assumes R: "dranks_ok R" and i: "i + 1 \<le> SIZE R"
    and m: "length mid = SIZE R - 1 - i" "elems_ok mid" "0 \<le> w" "v = int (value_of mid) + int NB ^ (SIZE R - 1 - i) * w"
    and low: "length low = i" "elems_ok low"
  defines "xs \<equiv> low @ mid @ [word_of_int (w mod uint (INTEGER_MAX_OVER R))]"
  shows "length xs = SIZE R \<and> elems_ok xs \<and>
    (w div uint (INTEGER_MAX_OVER R) = 0 \<longleftrightarrow> int (value_of low) + int NB ^ i * v < 10 ^ TOTAL R) \<and>
    (w div uint (INTEGER_MAX_OVER R) = 0 \<longrightarrow> int (value_of xs) = int (value_of low) + int NB ^ i * v)"
proof -
  define M where "M = unat (INTEGER_MAX_OVER R)"
  note T = SIZE_split [OF R]
  have M: "0 < M" "M \<le> NB" unfolding M_def by (rule INTEGER_MAX_OVER_bounds [OF R])+
  have u: "uint (INTEGER_MAX_OVER R) = int M" by (simp add: M_def)
  have len: "length (low @ mid) = SIZE R - 1" using low(1) m(1) i by simp
  have "int NB ^ (SIZE R - 1) = int NB ^ i * int NB ^ (SIZE R - 1 - i)"
    unfolding power_add [symmetric] using i by simp
  then have v: "int (value_of low) + int NB ^ i * v = int (value_of (low @ mid)) + int NB ^ (SIZE R - 1) * w"
    unfolding m(4) value_of_append low(1) by (simp add: algebra_simps)
  have "value_of (low @ mid) < NB ^ (SIZE R - 1)" using value_of_less [of "low @ mid"] len low(2) m(2) by simp
  then have less: "int (value_of (low @ mid)) < int NB ^ (SIZE R - 1)" by (simp only: NB_power_int [symmetric] of_nat_less_iff)
  have "(10 :: int) ^ TOTAL R = int NB ^ (SIZE R - 1) * int M"
    unfolding M_def using T(2) by (metis NB_power_int of_nat_mult of_nat_numeral of_nat_power)
  then have lim: "int (value_of low) + int NB ^ i * v < 10 ^ TOTAL R \<longleftrightarrow> w < int M"
    unfolding v using digit_limit [OF _ less, of w "int M"] by simp
  have z: "w div int M = 0 \<longleftrightarrow> w < int M" using m(3) M(1) by (auto simp: zdiv_eq_0_iff)
  have e: "unat (word_of_int (w mod int M) :: uint64) = nat (w mod int M)" "unat (word_of_int (w mod int M) :: uint64) < NB"
    using M by (intro uint_element; simp; meson less_le_trans of_nat_le_iff pos_mod_bound of_nat_0_less_iff)+
  have "length xs = SIZE R" unfolding xs_def using low(1) m(1) i by simp
  moreover have "elems_ok xs" unfolding xs_def u using low(2) m(2) e(2) by simp
  moreover have "int (value_of xs) = int (value_of low) + int NB ^ i * v" if "w < int M"
  proof -
    have "value_of xs = value_of (low @ mid) + NB ^ (SIZE R - 1) * nat w"
      unfolding xs_def u append_assoc [symmetric] using value_of_append [of "low @ mid"] len e(1) that m(3) by simp
    then show ?thesis unfolding v using m(3) by simp
  qed
  ultimately show ?thesis unfolding u z lim by blast
qed


lemma whole_elements: "dranks_ok R \<Longrightarrow> 18 dvd TOTAL R \<Longrightarrow> TOTAL R = 18 * SIZE R"
  using SIZE_split(3,4) [of R] by (auto elim!: dvdE)

lemma int_less_ten: "int a < 10 ^ n \<longleftrightarrow> a < 10 ^ n"
  by (metis of_nat_less_iff of_nat_numeral of_nat_power)

lemma parts_checked_cases:
  assumes "dranks_ok R" "parts_checked R"
  shows "FRACTION_END R < SIZE R" "INTEGER_RANK R \<noteq> 0"
    "\<not> FRACTION_END R + 1 < SIZE R \<Longrightarrow> SIZE R = FRACTION_END R + 1 \<and> 10 ^ TOTAL R = NB ^ SIZE R"
proof -
  show k: "FRACTION_END R < SIZE R" using assms(2) by (auto simp: parts_checked_def)
  have "18 * FRACTION_END R \<le> FRACTION R" "FRACTION R < 18 * FRACTION_END R + 18"
    by (simp_all add: FRACTION_END_def DIGITS_PER_ELEMENT_def)
  moreover have T: "(SIZE R - 1) * 18 < TOTAL R" "TOTAL R \<le> SIZE R * 18" using SIZE_split(3,4) [OF assms(1)] by simp_all
  ultimately show "INTEGER_RANK R \<noteq> 0"
    using assms k whole_elements [OF assms(1)] unfolding parts_checked_def INTEGER_RANK_def dranks_ok_def by auto
  assume "\<not> FRACTION_END R + 1 < SIZE R"
  with assms(2) k whole_elements [OF assms(1)] have S: "SIZE R = FRACTION_END R + 1" "TOTAL R = 18 * SIZE R"
    unfolding parts_checked_def by auto
  show "SIZE R = FRACTION_END R + 1 \<and> 10 ^ TOTAL R = NB ^ SIZE R"
    using S(1) unfolding S(2) NB_def power_mult [symmetric] by simp
qed

lemma constructed:
  assumes "length xs = SIZE R" "elems_ok xs" "u = (0 :: int) \<longleftrightarrow> v < 10 ^ INTEGER_RANK R"
    "u = 0 \<longrightarrow> int (value_of xs) = v * 10 ^ FRACTION R + f" "f < 10 ^ FRACTION R"
    "v < 10 ^ INTEGER_RANK R \<longleftrightarrow> v * 10 ^ FRACTION R + f < 10 ^ TOTAL R"
  shows "if f < 10 ^ FRACTION R \<and> v < 10 ^ INTEGER_RANK R
    then \<exists>c. (if u \<noteq> 0 then Inl Overflow else Inr \<lparr>negative = neg, array = xs\<rparr>) = Inr c \<and> number_ok R c \<and>
      negative c = neg \<and> int (magnitude c) = v * 10 ^ FRACTION R + f
    else (if u \<noteq> 0 then Inl Overflow else Inr \<lparr>negative = neg, array = xs\<rparr>) = Inl Overflow"
proof (cases "u = 0")
  case True
  then have "value_of xs < 10 ^ TOTAL R" using assms(3,4,6) int_less_ten [of "value_of xs" "TOTAL R"] by simp
  with True assms show ?thesis by (simp add: number_ok_def)
qed (use assms in simp)

lemma number_construct_parts_units:
  assumes R: "dranks_ok R" "parts_checked R" and v: "0 \<le> v" "0 \<le> f" "f < 2 ^ 64"
  shows "if f < 10 ^ FRACTION R \<and> v < 10 ^ INTEGER_RANK R
    then \<exists>c. number_construct_parts R neg v f = Inr c \<and> number_ok R c \<and> negative c = neg \<and>
      int (magnitude c) = v * 10 ^ FRACTION R + f
    else number_construct_parts R neg v f = Inl Overflow"
proof -
  let ?k = "FRACTION_END R"
  define r where "r = unat (FRACTION_REMAINDER R)"
  note k = parts_checked_cases [OF R]
  obtain low f' where low: "base_elements ?k f = (low, f')" by fastforce
  from base_elements_correct [OF v(2) this] have l: "length low = ?k" "elems_ok low" "0 \<le> f'"
    "f = int (value_of low) + int NB ^ ?k * f'" by simp_all
  have F: "10 ^ FRACTION R = int NB ^ ?k * int r"
    unfolding r_def using fraction_split(1) [of R] by (metis NB_power_int of_nat_mult of_nat_numeral of_nat_power)
  have "value_of low < NB ^ ?k" using value_of_less [OF l(2)] l(1) by simp
  then have vl: "int (value_of low) < int NB ^ ?k" by (simp only: NB_power_int [symmetric] of_nat_less_iff)
  have fl: "f < 10 ^ FRACTION R \<longleftrightarrow> f' < int r" unfolding F l(4) using digit_limit [OF _ vl, of f' "int r"] by simp
  have "f' \<le> f" using l(3,4) mult_right_mono [of 1 "int NB ^ ?k" f'] by (simp add: Suc_le_eq)
  then have "uint (word_of_int f' :: uint64) = f'" using l(3) v(3) by (simp add: uint_word_of_int)
  then have ex: "exceeds (word_of_int f') (FRACTION_REMAINDER R) \<longleftrightarrow> \<not> f < 10 ^ FRACTION R"
    unfolding fl exceeds_def word_le_def r_def by (simp add: not_less)
  show ?thesis
  proof (cases "f < 10 ^ FRACTION R")
    case False
    then show ?thesis unfolding number_construct_parts_def low using ex by simp
  next
    case True
    then have f': "f' < int (unat (FRACTION_REMAINDER R))" using fl r_def by simp
    define e where "e = word_of_int f' + word_of_int (v mod uint (FRACTION_OVER R)) * FRACTION_REMAINDER R"
    note m = middle_element [OF l(3) f' v(1), folded e_def r_def]
    define w where "w = v div uint (FRACTION_OVER R)"
    have w: "0 \<le> w" unfolding w_def using v(1) by (simp add: div_int_pos_iff)
    have total: "int (value_of (low @ [e])) + int NB ^ (?k + 1) * w = v * 10 ^ FRACTION R + f"
    proof -
      have "int NB ^ ?k * (int (unat e) + int NB * w) = int NB ^ ?k * (f' + int r * v)" unfolding w_def m(1) ..
      then show ?thesis unfolding F l(4) value_of_append l(1) by (simp add: algebra_simps)
    qed
    have lim: "v < 10 ^ INTEGER_RANK R \<longleftrightarrow> v * 10 ^ FRACTION R + f < 10 ^ TOTAL R"
    proof -
      have "(10 :: int) ^ TOTAL R = 10 ^ FRACTION R * 10 ^ INTEGER_RANK R"
        unfolding power_add [symmetric] using R(1) by (simp add: dranks_ok_def INTEGER_RANK_def)
      then show ?thesis using digit_limit [OF v(2) True, of v "10 ^ INTEGER_RANK R"] by (simp add: algebra_simps)
    qed
    have ok: "length (low @ [e]) = ?k + 1" "elems_ok (low @ [e])" using l(1,2) m(2) by simp_all
    have split: "number_construct_parts R neg v f = (case base_elements (SIZE R - 1 - (?k + 1)) w of (mid, w) \<Rightarrow>
        case (if ?k + 1 < SIZE R then (mid @ [word_of_int (w mod uint (INTEGER_MAX_OVER R))], w div uint (INTEGER_MAX_OVER R)) else (mid, w))
        of (high, w) \<Rightarrow> if w \<noteq> 0 then Inl Overflow else Inr \<lparr>negative = neg, array = low @ e # high\<rparr>)"
      unfolding number_construct_parts_def low Let_def prod.case w_def e_def using ex True k(1,2) by (simp split: prod.split)
    show ?thesis
    proof (cases "?k + 1 < SIZE R")
      case T: True
      obtain mid u where mid: "base_elements (SIZE R - 1 - (?k + 1)) w = (mid, u)" by fastforce
      from base_elements_correct [OF w mid] have "length mid = SIZE R - 1 - (?k + 1)" "elems_ok mid" "0 \<le> u"
        "w = int (value_of mid) + int NB ^ (SIZE R - 1 - (?k + 1)) * u" by simp_all
      note t = top_elements [OF R(1) _ this ok, unfolded total]
      let ?xs = "(low @ [e]) @ mid @ [word_of_int (u mod uint (INTEGER_MAX_OVER R))]" and ?u = "u div uint (INTEGER_MAX_OVER R)"
      have res: "number_construct_parts R neg v f = (if ?u \<noteq> 0 then Inl Overflow else Inr \<lparr>negative = neg, array = ?xs\<rparr>)"
        unfolding split mid using T by simp
      from t T have x: "length ?xs = SIZE R" "elems_ok ?xs" "?u = 0 \<longleftrightarrow> v < 10 ^ INTEGER_RANK R"
        "?u = 0 \<longrightarrow> int (value_of ?xs) = v * 10 ^ FRACTION R + f" unfolding lim by simp_all
      show ?thesis unfolding res by (rule constructed [OF x True lim])
    next
      case T: False
      note s = k(3) [OF T]
      have "value_of (low @ [e]) < NB ^ SIZE R" using value_of_less [OF ok(2)] ok(1) s by simp
      then have less: "int (value_of (low @ [e])) < int NB ^ SIZE R" by (simp only: NB_power_int [symmetric] of_nat_less_iff)
      have T10: "(10 :: int) ^ TOTAL R = int NB ^ SIZE R" using s by (metis NB_power_int of_nat_numeral of_nat_power)
      have w0: "w = 0 \<longleftrightarrow> v < 10 ^ INTEGER_RANK R"
        unfolding lim total [symmetric] T10 using s digit_limit [OF _ less, of w 1] w by auto
      have res: "number_construct_parts R neg v f = (if w \<noteq> 0 then Inl Overflow else Inr \<lparr>negative = neg, array = low @ [e]\<rparr>)"
        unfolding split using s T by simp
      have x: "length (low @ [e]) = SIZE R" "w = 0 \<longrightarrow> int (value_of (low @ [e])) = v * 10 ^ FRACTION R + f"
        using ok(1) s total by auto
      show ?thesis unfolding res by (rule constructed [OF x(1) ok(2) w0 x(2) True lim])
    qed
  qed
qed


text \<open>The elements of a number with \<open>diff\<close> zeros behind it.\<close>

definition rational_checked :: "ranks \<Rightarrow> nat \<Rightarrow> bool" where
  "rational_checked R diff \<longleftrightarrow> diff mod 18 = 0 \<or> diff div 18 + 1 < SIZE R \<or> diff div 18 < SIZE R \<and> 18 dvd TOTAL R"

lemma shifted_element:
  assumes "0 < d" "d < 18" "0 \<le> v"
  defines "msk \<equiv> pow10 (18 - d) :: uint64"
  defines "e \<equiv> word_of_int (v mod uint msk) * (BASE div msk)"
  shows "int (unat e) + int NB * (v div uint msk) = 10 ^ d * v" "unat e < NB" "0 \<le> v div uint msk"
proof -
  define k where "k = (10 :: nat) ^ (18 - d)"
  have msk: "unat msk = k" unfolding msk_def k_def using assms(1) by (simp add: pow10_power)
  then have um: "uint msk = int k" by (metis uint_nat)
  have NB: "NB = k * 10 ^ d" unfolding k_def NB_def power_add [symmetric] using assms(2) by simp
  have k: "0 < k" by (simp add: k_def)
  have sh: "unat (BASE div msk) = 10 ^ d" using k by (simp add: unat_div_distrib unat_BASE msk NB)
  define m where "m = v mod int k"
  have m: "0 \<le> m" "m < int k" using k by (simp_all add: m_def)
  have "1 * k \<le> NB" unfolding NB by (subst mult.commute) (intro mult_le_mono1, simp)
  then have w: "unat (word_of_int m :: uint64) = nat m" using m by (intro uint_element(1)) linarith+
  have "nat m < k" using m k by linarith
  then have less: "nat m * 10 ^ d < NB" unfolding NB by simp
  have e: "unat e = nat m * 10 ^ d"
    unfolding e_def um m_def [symmetric] using less NB_bound(1) by (subst unat_mult_64) (simp_all add: w sh)
  with less show "unat e < NB" by simp
  show "0 \<le> v div uint msk" unfolding um using assms(3) k by (simp add: pos_imp_zdiv_nonneg_iff)
  have "v = m + int k * (v div int k)" by (simp add: m_def)
  then have "10 ^ d * v = 10 ^ d * (m + int k * (v div int k))" by simp
  then show "int (unat e) + int NB * (v div uint msk) = 10 ^ d * v"
    unfolding e um NB using m(1) by (simp add: algebra_simps)
qed

lemma rational_high:
  assumes R: "dranks_ok R" and low: "length low \<le> SIZE R" "elems_ok low" and v: "0 \<le> v"
    and checked: "length low = SIZE R \<longrightarrow> 10 ^ TOTAL R = NB ^ SIZE R"
    and mid: "value_elements (SIZE R - 1 - length low) v = (mid, w)"
    and high: "(high, w') = (if length low + length mid = SIZE R - 1
        then ([word_of_int (w mod uint (INTEGER_MAX_OVER R))], w div uint (INTEGER_MAX_OVER R))
        else (replicate (SIZE R - (length low + length mid)) 0, w))"
  defines "t \<equiv> int (value_of low) + int NB ^ length low * v"
  shows "(w' = 0 \<longleftrightarrow> t < 10 ^ TOTAL R) \<and> (w' = 0 \<longrightarrow> length (low @ mid @ high) = SIZE R \<and>
    elems_ok (low @ mid @ high) \<and> int (value_of (low @ mid @ high)) = t)"
proof -
  let ?n = "SIZE R - 1 - length low"
  from value_elements_base [OF v mid] have m: "length mid \<le> ?n" "elems_ok mid" "0 \<le> w"
    "v = int (value_of mid) + int NB ^ length mid * w" "length mid < ?n \<longrightarrow> w = 0" by simp_all
  note S = SIZE_split [OF R]
  consider (full) "length low = SIZE R" | (top) "length low < SIZE R" "length mid = ?n" | (short) "length low < SIZE R" "length mid < ?n"
    using low(1) m(1) by linarith
  then show ?thesis
  proof cases
    case full
    then have "mid = []" "w = v" "high = []" "w' = v" using mid high S(1) full by (auto split: if_splits)
    have "value_of low < NB ^ SIZE R" using value_of_less [OF low(2)] full by simp
    then have less: "int (value_of low) < int NB ^ SIZE R" by (simp only: NB_power_int [symmetric] of_nat_less_iff)
    have "(10 :: int) ^ TOTAL R = int NB ^ SIZE R" using checked full by (metis NB_power_int of_nat_numeral of_nat_power)
    then have "t < 10 ^ TOTAL R \<longleftrightarrow> v = 0" unfolding t_def full using digit_limit [OF _ less, of v 1] v by auto
    with full low(2) \<open>mid = []\<close> \<open>high = []\<close> \<open>w' = v\<close> show ?thesis by (auto simp: t_def)
  next
    case top
    then have "high = [word_of_int (w mod uint (INTEGER_MAX_OVER R))]" "w' = w div uint (INTEGER_MAX_OVER R)" using high by auto
    with top_elements [OF R _ top(2) m(2,3) m(4) [unfolded top(2)] refl low(2)] top(1) show ?thesis by (simp add: t_def)
  next
    case short
    then have w: "w = 0" "w' = 0" "high = replicate (SIZE R - (length low + length mid)) 0" using m(5) high by (auto split: if_splits)
    have val: "int (value_of (low @ mid @ high)) = t" unfolding t_def m(4) w value_of_append by simp
    have "value_of (low @ mid) < NB ^ length (low @ mid)" using low(2) m(2) by (intro value_of_less) simp
    also have "\<dots> \<le> NB ^ (SIZE R - 1)" using short by (intro power_increasing) (simp_all add: Suc_le_eq)
    also have "\<dots> \<le> 10 ^ TOTAL R"
      unfolding S(2) using INTEGER_MAX_OVER_bounds(1) [OF R] by (simp add: Suc_le_eq)
    finally have "int (value_of (low @ mid)) < int (10 ^ TOTAL R)" by (simp only: of_nat_less_iff)
    then have "t < 10 ^ TOTAL R" unfolding t_def m(4) w value_of_append by simp
    with w val low(2) m(2) short show ?thesis by simp
  qed
qed


lemma rational_fits:
  assumes "dranks_ok R" "diff \<le> TOTAL R"
  shows "diff div 18 \<le> SIZE R" "diff mod 18 \<noteq> 0 \<Longrightarrow> diff div 18 < SIZE R"
    "diff div 18 = SIZE R \<Longrightarrow> 10 ^ TOTAL R = NB ^ SIZE R" "18 dvd TOTAL R \<Longrightarrow> 10 ^ TOTAL R = NB ^ SIZE R"
proof -
  have d: "diff = 18 * (diff div 18) + diff mod 18" by simp
  have T: "TOTAL R \<le> SIZE R * 18" by (rule SIZE_split(3) [OF assms(1)])
  show "diff div 18 \<le> SIZE R" "diff mod 18 \<noteq> 0 \<Longrightarrow> diff div 18 < SIZE R" using d T assms(2) by linarith+
  have e: "(10 :: nat) ^ (18 * SIZE R) = NB ^ SIZE R" by (simp add: NB_def power_mult)
  show "18 dvd TOTAL R \<Longrightarrow> 10 ^ TOTAL R = NB ^ SIZE R" using whole_elements [OF assms(1)] e by simp
  assume "diff div 18 = SIZE R"
  with d T assms(2) have "TOTAL R = 18 * SIZE R" by linarith
  with e show "10 ^ TOTAL R = NB ^ SIZE R" by simp
qed

lemma rational_low:
  assumes "0 \<le> v" "d < 18"
  defines "msk \<equiv> pow10 (18 - d) :: uint64"
  defines "e \<equiv> word_of_int (v mod uint msk) * (BASE div msk)"
  shows "d \<noteq> 0 \<Longrightarrow> unat e < NB \<and> 0 \<le> v div uint msk \<and>
      int (value_of (replicate k 0 @ [e])) + int NB ^ (k + 1) * (v div uint msk) = v * 10 ^ (18 * k + d)"
    "d = 0 \<Longrightarrow> int NB ^ k * v = v * 10 ^ (18 * k + d)"
proof -
  have N: "(10 :: int) ^ (18 * k + d) = int NB ^ k * 10 ^ d" by (simp add: NB_def power_mult power_add)
  show "d = 0 \<Longrightarrow> int NB ^ k * v = v * 10 ^ (18 * k + d)" unfolding N by simp
  assume "d \<noteq> 0"
  with shifted_element [of d v] assms(1,2) have s: "int (unat e) + int NB * (v div uint msk) = 10 ^ d * v" "unat e < NB" "0 \<le> v div uint msk"
    unfolding e_def msk_def by simp_all
  have "int NB ^ k * (int (unat e) + int NB * (v div uint msk)) = int NB ^ k * (10 ^ d * v)" unfolding s(1) ..
  with s(2,3) show "unat e < NB \<and> 0 \<le> v div uint msk \<and>
      int (value_of (replicate k 0 @ [e])) + int NB ^ (k + 1) * (v div uint msk) = v * 10 ^ (18 * k + d)"
    unfolding N by (simp add: value_of_append algebra_simps)
qed

lemma rational_elements_correct:
  assumes R: "dranks_ok R" and v: "0 \<le> v" and diff: "diff \<le> TOTAL R" "rational_checked R diff"
  shows "if v * 10 ^ diff < 10 ^ TOTAL R
    then \<exists>xs. rational_elements R v diff = Inr xs \<and> length xs = SIZE R \<and> elems_ok xs \<and> int (value_of xs) = v * 10 ^ diff
    else rational_elements R v diff = Inl Overflow"
proof -
  define k d where "k = diff div 18" and "d = diff mod 18"
  have kd: "diff = 18 * k + d" "d < 18" by (simp_all add: k_def d_def)
  note S = SIZE_split [OF R]
  define msk where "msk = (pow10 (18 - d) :: uint64)"
  define low where "low = (if d \<noteq> 0 then replicate k 0 @ [word_of_int (v mod uint msk) * (BASE div msk)] else replicate k (0 :: uint64))"
  define u where "u = (if d \<noteq> 0 then v div uint msk else v)"
  have fit: "d \<noteq> 0 \<longrightarrow> k < SIZE R" "length low \<le> SIZE R" "length low = SIZE R \<longrightarrow> 10 ^ TOTAL R = NB ^ SIZE R"
    using rational_fits [OF R diff(1)] diff(2)
    by (auto simp: rational_checked_def low_def k_def d_def Suc_le_eq split: if_splits)
  have low: "elems_ok low" "0 \<le> u" "int (value_of low) + int NB ^ length low * u = v * 10 ^ diff"
    using rational_low [OF v kd(2), of k] v unfolding low_def u_def msk_def kd(1) by auto
  obtain mid w where mid: "value_elements (SIZE R - 1 - length low) u = (mid, w)" by fastforce
  obtain high :: "uint64 list" and w' where high: "(high, w') = (if length low + length mid = SIZE R - 1
        then ([word_of_int (w mod uint (INTEGER_MAX_OVER R))], w div uint (INTEGER_MAX_OVER R))
        else (replicate (SIZE R - (length low + length mid)) 0, w))" by (metis surj_pair)
  note h = rational_high [OF R fit(2) low(1,2) fit(3) mid high, unfolded low(3)]
  have "rational_elements R v diff = (if w' \<noteq> 0 then Inl Overflow else Inr (low @ mid @ high))"
  proof -
    have "(if d \<noteq> 0 then (replicate k 0 @ [word_of_int (v mod uint msk) * (BASE div msk)], v div uint msk)
        else (replicate k 0, v)) = (low, u)" by (simp add: low_def u_def)
    then show ?thesis
      unfolding rational_elements_def DIGITS_PER_ELEMENT_def k_def [symmetric] d_def [symmetric] Let_def msk_def [symmetric]
      using fit(1) by (simp only: length_replicate mid high [symmetric] prod.case) auto
  qed
  with h show ?thesis by auto
qed

text \<open>The number \<open>integer / 10 ^ power\<close>, rounded towards zero.\<close>

lemma number_construct_rational_units:
  assumes R: "dranks_ok R" and T: "2 \<le> it_bits T" "it_bits T \<le> 64"
    "(if it_signed T then - it_max T else 0) \<le> v" "v \<le> it_max T" "pow < it_digits10 T + FRACTION R"
    "rational_checked R (FRACTION R - pow)"
  shows "if scaled R v pow < 10 ^ TOTAL R
    then \<exists>d. number_construct_rational R T v pow = Inr d \<and> number_ok R d \<and> int (magnitude d) = scaled R v pow \<and> negative d = (v < 0)
    else number_construct_rational R T v pow = Inl Overflow"
proof (cases "v = 0")
  case True
  then show ?thesis by (simp add: number_construct_rational_def scaled_def number_ok_def)
next
  case False
  have split: "split_integer T v = Inr (\<bar>v\<bar>, v < 0)" using T(3) by (auto simp: split_integer_def split: if_splits)
  define w where "w = (if pow > FRACTION R then \<bar>v\<bar> div 10 ^ (pow - FRACTION R) else \<bar>v\<bar>)"
  have w: "0 \<le> w" "w * 10 ^ (FRACTION R - pow) = scaled R v pow"
    using scaled_cases by (cases pow "FRACTION R" rule: linorder_cases; simp add: w_def pos_imp_zdiv_nonneg_iff)+
  have "it_cast T (uint (pow10 (pow - FRACTION R) :: uint64)) = 10 ^ (pow - FRACTION R)" if "pow > FRACTION R"
    using it_cast_pow10 [OF T(1,2), of "pow - FRACTION R"] T(5) that by simp
  then have "number_construct_rational R T v pow =
      rmap (\<lambda>xs. \<lparr>negative = v < 0, array = xs\<rparr>) (rational_elements R w (FRACTION R - pow))"
    using False T(5) by (simp add: number_construct_rational_def split w_def)
  moreover have "FRACTION R - pow \<le> TOTAL R" using R by (auto simp: dranks_ok_def)
  ultimately have c: "if scaled R v pow < 10 ^ TOTAL R
    then \<exists>xs. number_construct_rational R T v pow = Inr \<lparr>negative = v < 0, array = xs\<rparr> \<and> length xs = SIZE R \<and>
      elems_ok xs \<and> int (value_of xs) = scaled R v pow
    else number_construct_rational R T v pow = Inl Overflow"
    using rational_elements_correct [OF R w(1) _ T(6), unfolded w(2)] by auto
  show ?thesis
  proof (cases "scaled R v pow < 10 ^ TOTAL R")
    case True
    with c obtain xs where xs: "number_construct_rational R T v pow = Inr \<lparr>negative = v < 0, array = xs\<rparr>"
      "length xs = SIZE R" "elems_ok xs" "int (value_of xs) = scaled R v pow" by auto
    with True have "value_of xs < 10 ^ TOTAL R" using int_less_ten [of "value_of xs" "TOTAL R"] by simp
    with True xs show ?thesis by (simp add: number_ok_def)
  qed (use c in simp)
qed

section \<open>Conversion to an integer\<close>

lemma room_iff:
  fixes m x ret b :: int
  assumes "0 < b"
  shows "ret \<le> (m - x) div b \<longleftrightarrow> ret * b + x \<le> m"
proof -
  define d r where "d = (m - x) div b" and "r = (m - x) mod b"
  have e: "m - x = d * b + r" "0 \<le> r" "r < b" using assms by (simp_all add: d_def r_def)
  have "ret \<le> d \<longleftrightarrow> ret * b \<le> d * b + r"
  proof
    assume "ret \<le> d"
    then have "ret * b \<le> d * b" using assms by (simp add: mult_right_mono)
    with e(2) show "ret * b \<le> d * b + r" by simp
  next
    assume "ret * b \<le> d * b + r"
    with e(3) have "ret * b < (d + 1) * b" by (simp add: distrib_right)
    then show "ret \<le> d" using assms by (simp add: mult_less_cancel_right)
  qed
  with e(1) show ?thesis unfolding d_def [symmetric] by linarith
qed

lemma integer_elements_correct:
  assumes T: "1 \<le> it_bits T" and "elems_ok xs" "0 \<le> ret" "ret \<le> it_max T"
  shows "integer_elements T xs ret =
    (let n = ret * int NB ^ length xs + int (value_of (rev xs)) in if n \<le> it_max T then Inr n else Inl Overflow)"
  using assms(2-)
proof (induction xs arbitrary: ret)
  case (Cons x xs)
  let ?n = "ret * int NB + uint x"
  have n: "0 \<le> ?n" "0 \<le> ret * int NB" using Cons.prems(2) by simp_all
  have test: "it_max T \<ge> uint x \<and> ret \<le> (it_max T - uint x) div uint BASE \<longleftrightarrow> ?n \<le> it_max T"
    unfolding uint_BASE using room_iff [of "int NB" ret "it_max T" "uint x"] n(2) by auto
  have total: "ret * int NB ^ length (x # xs) + int (value_of (rev (x # xs))) =
      ?n * int NB ^ length xs + int (value_of (rev xs))"
    by (simp add: value_of_append algebra_simps)
  show ?case
  proof (cases "?n \<le> it_max T")
    case True
    with Cons.IH [of ?n] Cons.prems(1) n(1) it_cast_id [OF T n(1) True] show ?thesis
      unfolding total integer_elements.simps test by (simp add: uint_BASE)
  next
    case False
    have "?n * 1 \<le> ?n * int NB ^ length xs" using n(1) by (intro mult_left_mono) (simp_all add: Suc_le_eq)
    with False show ?thesis unfolding total integer_elements.simps test by simp
  qed
qed simp

lemma integer_end:
  assumes "dranks_ok R" "INTEGER_RANK R \<noteq> 0"
  shows "FRACTION_END R < SIZE R"
proof -
  have "18 * FRACTION_END R \<le> FRACTION R" by (simp add: FRACTION_END_def DIGITS_PER_ELEMENT_def)
  moreover have "FRACTION R < TOTAL R" using assms by (simp add: INTEGER_RANK_def)
  ultimately show ?thesis using SIZE_split(3) [OF assms(1)] by linarith
qed

lemma integer_part:
  assumes "elems_ok xs" "FRACTION_END R < length xs"
  shows "int (value_of xs div 10 ^ FRACTION R) =
    int (value_of (drop (FRACTION_END R + 1) xs)) * int (unat (FRACTION_OVER R)) + uint (xs ! FRACTION_END R div FRACTION_REMAINDER R)"
proof -
  let ?k = "FRACTION_END R"
  define r k where "r = unat (FRACTION_REMAINDER R)" and "k = unat (FRACTION_OVER R)"
  have s: "10 ^ FRACTION R = NB ^ ?k * r" "NB = r * k" "0 < r" using fraction_split [of R] by (simp_all add: r_def k_def)
  have "value_of xs = value_of (take ?k xs) + NB ^ ?k * value_of (drop ?k xs)"
    using value_of_take_drop [of xs ?k] assms(2) by (simp add: min_absorb2)
  then have "value_of xs div 10 ^ FRACTION R = value_of (drop ?k xs) div r"
    unfolding s(1) div_mult2_eq using value_of_take_less [OF assms(1), of ?k] assms(2) by simp
  also have "value_of (drop ?k xs) = unat (xs ! ?k) + r * (k * value_of (drop (?k + 1) xs))"
    using assms(2) by (simp add: Cons_nth_drop_Suc [symmetric] s(2) mult.assoc)
  also have "\<dots> div r = unat (xs ! ?k) div r + k * value_of (drop (?k + 1) xs)" using s(3) by simp
  finally have "value_of xs div 10 ^ FRACTION R = k * value_of (drop (?k + 1) xs) + unat (xs ! ?k div FRACTION_REMAINDER R)"
    by (simp add: unat_div_distrib r_def)
  then show ?thesis by (simp add: k_def mult.commute)
qed

lemma number_integer_units:
  assumes R: "dranks_ok R" and T: "2 \<le> it_bits T" "it_bits T \<le> 64" and d: "number_ok R d"
  shows "number_integer R T d =
    (let n = int (magnitude d div 10 ^ FRACTION R)
     in if it_max T < n then Inl Overflow
        else if negative d \<and> n \<noteq> 0 \<and> \<not> it_signed T then Inl Sign
        else Inr (if negative d then - n else n))"
proof (cases "INTEGER_RANK R = 0")
  case True
  then have "TOTAL R = FRACTION R" using R by (simp add: INTEGER_RANK_def dranks_ok_def)
  with d have "magnitude d div 10 ^ FRACTION R = 0" by (simp add: number_ok_def)
  moreover have "0 \<le> it_max T" using it_digits10_bound(1) [OF T] by (meson order_trans zero_le_numeral zero_le_power)
  ultimately show ?thesis using True by (simp add: number_integer_def)
next
  case False
  let ?k = "FRACTION_END R" and ?xs = "array d"
  define fo where "fo = unat (FRACTION_OVER R)"
  have max: "0 \<le> it_max T" using it_digits10_bound(1) [OF T] by (meson order_trans zero_le_numeral zero_le_power)
  have k: "?k < SIZE R" using integer_end [OF R False] .
  have ok: "length ?xs = SIZE R" "elems_ok ?xs" using d by (simp_all add: number_ok_def)
  define hi where "hi = int (value_of (drop (?k + 1) ?xs))"
  define part where "part = uint (?xs ! ?k div FRACTION_REMAINDER R)"
  have n: "int (magnitude d div 10 ^ FRACTION R) = hi * int fo + part"
    using integer_part [OF ok(2), of R] k ok(1) unfolding hi_def part_def fo_def magnitude_def by simp
  have fo: "0 < int fo" "uint (FRACTION_OVER R) = int fo"
    using fraction_split(5) [of R] unfolding fo_def by (simp only: of_nat_0_less_iff, simp)
  have pos: "0 \<le> hi" "0 \<le> part" by (simp_all add: hi_def part_def)
  have loop: "integer_elements T (rev (drop (?k + 1) ?xs)) 0 = (if hi \<le> it_max T then Inr hi else Inl Overflow)"
    using integer_elements_correct [of T "rev (drop (?k + 1) ?xs)" 0] T(1) elems_ok_take_drop(2) [OF ok(2), of "?k + 1"] max
    by (simp add: elems_ok_def hi_def)
  have le: "hi \<le> hi * int fo" using pos(1) fo(1) mult_left_mono [of 1 "int fo" hi] by simp
  have test: "it_max T < part \<or> hi > (it_max T - part) div int fo \<longleftrightarrow> it_max T < hi * int fo + part"
    unfolding not_le [symmetric] room_iff [OF fo(1)] using pos(2) mult_nonneg_nonneg [OF pos(1), of "int fo"] by auto
  show ?thesis
  proof (cases "it_max T < hi * int fo + part")
    case True
    with False loop test show ?thesis
      unfolding number_integer_def part_def [symmetric] fo(2) n by (simp add: Let_def)
  next
    case F: False
    then have h: "hi \<le> it_max T" "part \<le> it_max T" using le pos mult_nonneg_nonneg [of hi "int fo"] fo(1) by linarith+
    have c1: "hi * it_cast T (int fo) = hi * int fo"
    proof (cases "hi = 0")
      case False
      then have "1 * int fo \<le> hi * int fo" using pos(1) fo(1) by (intro mult_right_mono) simp_all
      with F pos(2) have "int fo \<le> it_max T" by linarith
      with it_cast_id [of T "int fo"] T(1) show ?thesis by simp
    qed simp
    have c2: "it_cast T part = part" using it_cast_id [of T part] T(1) pos(2) h(2) by simp
    have "number_integer R T d = (let ret = hi * it_cast T (int fo) + it_cast T part
        in if negative d \<and> ret \<noteq> 0 \<and> \<not> it_signed T then Inl Sign else Inr (if negative d then - ret else ret))"
      using False loop test F h(1) unfolding number_integer_def part_def [symmetric] fo(2) by (simp add: Let_def)
    then show ?thesis unfolding c1 c2 n using F by (simp add: Let_def)
  qed
qed

section \<open>Rounding and packed form\<close>

text \<open>The elements below \<open>index\<close> cleared and the digits below \<open>pow\<close> of the element there.\<close>

lemma clear_low:
  assumes "elems_ok xs" "i < length xs" "e < 18"
  defines "p \<equiv> (pow10 e :: uint64)"
  shows "value_of (replicate i 0 @ (xs ! i div p * p) # drop (i + 1) xs) = value_of xs div 10 ^ (18 * i + e) * 10 ^ (18 * i + e)"
    "unat (xs ! i div p * p) \<le> unat (xs ! i)" "unat p = 10 ^ e" "unat (xs ! i div p * p) = unat (xs ! i) div 10 ^ e * 10 ^ e"
proof -
  let ?K = "10 ^ (18 * i + e) :: nat"
  show p: "unat p = 10 ^ e" unfolding p_def using assms(3) by (simp add: pow10_power)
  have le: "unat (xs ! i) div 10 ^ e * 10 ^ e \<le> unat (xs ! i)" by simp
  then show w: "unat (xs ! i div p * p) = unat (xs ! i) div 10 ^ e * 10 ^ e"
    using le_less_trans [OF le unat_less_64] by (subst unat_mult_64) (simp_all add: unat_div_distrib p)
  with le show "unat (xs ! i div p * p) \<le> unat (xs ! i)" by simp
  have K: "?K = NB ^ i * 10 ^ e" by (simp add: power_add power_mult NB_def)
  have N: "NB = 10 ^ e * 10 ^ (18 - e)" unfolding NB_def power_add [symmetric] using assms(3) by simp
  define h where "h = value_of (drop (i + 1) xs)"
  have hd: "value_of (drop i xs) = unat (xs ! i) + NB * h"
    using assms(2) by (simp add: h_def Cons_nth_drop_Suc [symmetric])
  have "value_of xs = value_of (take i xs) + NB ^ i * (unat (xs ! i) + NB * h)"
    using value_of_take_drop [of xs i] assms(2) hd by (simp add: min_absorb2)
  then have "value_of xs div ?K = (unat (xs ! i) + NB * h) div 10 ^ e"
    unfolding K div_mult2_eq using value_of_take_less [OF assms(1), of i] assms(2) by simp
  also have "unat (xs ! i) + NB * h = unat (xs ! i) + 10 ^ e * (10 ^ (18 - e) * h)" by (simp add: N)
  also have "\<dots> div 10 ^ e = unat (xs ! i) div 10 ^ e + 10 ^ (18 - e) * h" by simp
  finally have "value_of xs div ?K * ?K = NB ^ i * (unat (xs ! i) div 10 ^ e * 10 ^ e + NB * h)"
    unfolding K by (simp add: N algebra_simps)
  then show "value_of (replicate i 0 @ (xs ! i div p * p) # drop (i + 1) xs) = value_of xs div ?K * ?K"
    by (simp add: value_of_append w h_def)
qed

lemma number_floor_units:
  fixes f :: nat
  assumes R: "dranks_ok R" and d: "number_ok R d"
  defines "k \<equiv> 10 ^ (FRACTION R - f)"
  shows "number_ok R (number_floor R f d)" "magnitude (number_floor R f d) = magnitude d div k * k"
    "negative (number_floor R f d) = negative d"
proof -
  have ok: "length (array d) = SIZE R" "elems_ok (array d)" "magnitude d < 10 ^ TOTAL R" using d by (simp_all add: number_ok_def)
  have "magnitude d div k * k \<le> magnitude d" by simp
  then have lim: "magnitude d div k * k < 10 ^ TOTAL R" using ok(3) by linarith
  show "negative (number_floor R f d) = negative d" by (simp add: number_floor_def Let_def)
  have "length (array (number_floor R f d)) = SIZE R \<and> elems_ok (array (number_floor R f d)) \<and>
      magnitude (number_floor R f d) = magnitude d div k * k"
  proof (cases "FRACTION R \<le> f")
    case True
    then show ?thesis using ok by (auto simp: number_floor_def k_def)
  next
    case False
    define i e where "i = (FRACTION R - f) div 18" and "e = (FRACTION R - f) mod 18"
    have ie: "FRACTION R - f = 18 * i + e" "e < 18" by (simp_all add: i_def e_def)
    have le: "18 * i + e \<le> TOTAL R" using ie(1) R unfolding dranks_ok_def by linarith
    have i: "i \<le> SIZE R" using le SIZE_split(3) [OF R] by linarith
    show ?thesis
    proof (cases "i < SIZE R")
      case T: True
      let ?x = "array d ! i" and ?p = "pow10 e :: uint64"
      have c: "value_of (replicate i 0 @ (?x div ?p * ?p) # drop (i + 1) (array d)) = magnitude d div k * k"
        "unat (?x div ?p * ?p) \<le> unat ?x"
        using clear_low(1,2) [OF ok(2) _ ie(2), of i] T ok(1) by (simp_all add: k_def ie(1) magnitude_def)
      have same: "?x mod ?p = 0 \<Longrightarrow> ?x div ?p * ?p = ?x" by (metis add.right_neutral div_mult_mod_eq)
      have xs: "(replicate i 0 @ drop i (array d)) ! i = ?x" "replicate i 0 @ drop i (array d) = replicate i 0 @ ?x # drop (i + 1) (array d)"
        using T ok(1) by (simp_all add: nth_append Cons_nth_drop_Suc)
      have "array (number_floor R f d) = replicate i 0 @ (?x div ?p * ?p) # drop (i + 1) (array d)"
        using False T same unfolding number_floor_def DIGITS_PER_ELEMENT_def i_def [symmetric] e_def [symmetric] Let_def xs(1)
        by (auto simp: xs(2) list_update_append)
      moreover have "unat (?x div ?p * ?p) < NB" using c(2) elems_ok_nth [OF ok(2), of i] T ok(1) by simp
      ultimately show ?thesis using c(1) ok T elems_ok_take_drop(2) [OF ok(2)] by (simp add: magnitude_def)
    next
      case F: False
      then have s: "i = SIZE R" using i by simp
      have "18 * SIZE R = TOTAL R" using le s SIZE_split(3) [OF R] ie(2) by linarith
      then have "k = 10 ^ TOTAL R" using le s by (simp add: k_def ie(1))
      then have "magnitude d div k = 0" using ok(3) by simp
      moreover have "array (number_floor R f d) = replicate (SIZE R) 0"
        using False F s ok(1) unfolding number_floor_def DIGITS_PER_ELEMENT_def i_def [symmetric] Let_def by simp
      ultimately show ?thesis by (simp add: magnitude_def)
    qed
  qed
  with lim show "number_ok R (number_floor R f d)" "magnitude (number_floor R f d) = magnitude d div k * k"
    by (simp_all add: number_ok_def)
qed

lemma ceil_carry_correct:
  assumes "elems_ok xs" "ceil_carry xs = (over, zs)"
  shows "length zs = length xs \<and> elems_ok zs \<and> value_of zs + NB ^ length xs * of_bool over = value_of xs + 1"
  using assms
proof (induction xs arbitrary: zs)
  case (Cons x xs)
  have x: "unat x < NB" "elems_ok xs" using Cons.prems(1) by simp_all
  have B: "unat (BASE - 1) = NB - 1" by (simp add: BASE_def Pow10_def DIGITS_PER_ELEMENT_def NB_def)
  show ?case
  proof (cases "x < BASE - 1")
    case True
    then have "unat x < NB - 1" by (simp add: word_less_nat_alt B)
    moreover have "unat (x + 1) = unat x + 1" using x(1) NB_bound(1) by (subst unat_add_64) simp_all
    ultimately show ?thesis using True Cons.prems x(2) by auto
  next
    case False
    then have "unat x = NB - 1" using x(1) by (simp add: word_less_nat_alt B)
    then have u: "unat x + 1 = NB" by simp
    obtain ys where ys: "ceil_carry xs = (over, ys)" "zs = 0 # ys" using Cons.prems(2) False by (auto split: prod.splits)
    from Cons.IH [OF x(2) ys(1)] have IH: "length ys = length xs" "elems_ok ys"
      "value_of ys + NB ^ length xs * of_bool over = value_of xs + 1" by simp_all
    from arg_cong [OF IH(3), of "\<lambda>v. NB * v"] u have "NB * value_of ys + NB * NB ^ length xs * of_bool over = unat x + NB * value_of xs + 1"
      by (simp add: algebra_simps)
    with IH(1,2) show ?thesis by (simp add: ys(2))
  qed
qed simp

text \<open>One unit of the place \<open>10 ^ (18 * i + e)\<close> added behind cleared digits.\<close>

definition bump :: "uint64 list \<Rightarrow> nat \<Rightarrow> uint64 \<Rightarrow> bool \<times> uint64 list" where
  "bump xs i p =
     (let res = (xs ! i div p + 1) * p
      in if res < BASE then (False, replicate i 0 @ res # drop (i + 1) xs)
         else case ceil_carry (drop (i + 1) xs) of (over, high) \<Rightarrow> (over, replicate i 0 @ 0 # high))"

lemma bump_correct:
  assumes xs: "elems_ok xs" "i < length xs" and e: "e < 18" and b: "bump xs i (pow10 e) = (over, zs)"
  shows "length zs = length xs \<and> elems_ok zs \<and>
    value_of zs + NB ^ length xs * of_bool over = (value_of xs div 10 ^ (18 * i + e) + 1) * 10 ^ (18 * i + e)"
proof -
  let ?K = "10 ^ (18 * i + e) :: nat" and ?p = "pow10 e :: uint64" and ?x = "xs ! i"
  note c = clear_low [OF xs e]
  define q where "q = unat ?x div 10 ^ e"
  define h where "h = value_of (drop (i + 1) xs)"
  have K: "?K = NB ^ i * 10 ^ e" by (simp add: power_add power_mult NB_def)
  have N: "NB = 10 ^ (18 - e) * 10 ^ e" unfolding NB_def power_add [symmetric] using e by simp
  have x: "unat ?x < NB" using elems_ok_nth [OF xs] .
  have q: "q < 10 ^ (18 - e)" unfolding q_def using x N by (simp add: div_less_iff_less_mult)
  have up: "(q + 1) * 10 ^ e \<le> NB" unfolding N using q by (intro mult_le_mono1) simp
  have "unat (?x div ?p) = q" by (simp add: unat_div_distrib c(3) q_def)
  moreover have "q < NB" unfolding q_def using x by (rule le_less_trans [OF div_le_dividend])
  ultimately have "unat (?x div ?p + 1) = q + 1" using NB_bound(1) by (subst unat_add_64) simp_all
  then have res: "unat ((?x div ?p + 1) * ?p) = (q + 1) * 10 ^ e"
    using up NB_bound(1) by (subst unat_mult_64) (simp_all add: c(3))
  have low: "value_of xs div ?K * ?K = NB ^ i * (q * 10 ^ e + NB * h)"
    using c(1) unfolding c(4) value_of_append by (simp add: c(4) q_def h_def)
  have goal: "(value_of xs div ?K + 1) * ?K = NB ^ i * ((q + 1) * 10 ^ e + NB * h)"
    using low unfolding K by (simp add: algebra_simps)
  show ?thesis
  proof (cases "(?x div ?p + 1) * ?p < BASE")
    case True
    then have "(q + 1) * 10 ^ e < NB" by (simp only: word_less_nat_alt res unat_BASE)
    then show ?thesis
      using True b goal xs elems_ok_take_drop(2) [OF xs(1)] by (auto simp: bump_def Let_def value_of_append res h_def)
  next
    case False
    then have full: "(q + 1) * 10 ^ e = NB" using up by (simp only: word_less_nat_alt res unat_BASE not_less)
    obtain high where high: "ceil_carry (drop (i + 1) xs) = (over, high)" "zs = replicate i 0 @ 0 # high"
      using b False by (auto simp: bump_def Let_def split: prod.splits)
    from ceil_carry_correct [OF elems_ok_take_drop(2) [OF xs(1)] high(1)] have hi: "length high = length xs - (i + 1)" "elems_ok high"
      "value_of high + NB ^ (length xs - (i + 1)) * of_bool over = h + 1" by (simp_all add: h_def)
    have "NB ^ (i + 1 + (length xs - (i + 1))) = NB ^ i * NB * NB ^ (length xs - (i + 1))" by (simp only: power_add power_one_right)
    moreover have "i + 1 + (length xs - (i + 1)) = length xs" using xs(2) by simp
    ultimately have pw: "NB ^ length xs = NB ^ i * NB * NB ^ (length xs - (i + 1))" by (simp only:)
    have "value_of zs + NB ^ length xs * of_bool over = NB ^ i * (NB * (value_of high + NB ^ (length xs - (i + 1)) * of_bool over))"
      unfolding pw high(2) by (simp add: value_of_append algebra_simps)
    with hi xs(2) show ?thesis unfolding goal full by (simp add: high(2))
  qed
qed

lemma low_digits:
  assumes "elems_ok xs" "i < length xs" "e < 18"
  shows "value_of xs mod (NB ^ i * 10 ^ e) = value_of (take i xs) + NB ^ i * (unat (xs ! i) mod 10 ^ e)"
proof -
  have N: "NB = 10 ^ e * 10 ^ (18 - e)" unfolding NB_def power_add [symmetric] using assms(3) by simp
  have "value_of (drop i xs) = unat (xs ! i) + 10 ^ e * (10 ^ (18 - e) * value_of (drop (i + 1) xs))"
    using assms(2) by (simp add: Cons_nth_drop_Suc [symmetric] N)
  then have "value_of (drop i xs) mod 10 ^ e = unat (xs ! i) mod 10 ^ e" by simp
  moreover have "value_of xs = value_of (take i xs) + NB ^ i * value_of (drop i xs)"
    using value_of_take_drop [of xs i] assms(2) by (simp add: min_absorb2)
  ultimately show ?thesis
    unfolding mod_mult2_eq using value_of_take_less [OF assms(1), of i] assms(2) by simp
qed

lemma number_ceil_bump:
  assumes R: "dranks_ok R" and d: "number_ok R d" and f: "f < FRACTION R" and i: "(FRACTION R - f) div 18 < SIZE R"
  defines "k \<equiv> FRACTION R - f"
  shows "number_ceil R f d =
    (if magnitude d mod 10 ^ k = 0 then Inr (number_floor R f d)
     else case bump (array d) (k div 18) (pow10 (k mod 18)) of (over, zs) \<Rightarrow>
       if over \<or> zs ! (SIZE R - 1) \<ge> INTEGER_MAX_OVER R then Inl Overflow else Inr (d\<lparr>array := zs\<rparr>))"
proof -
  define i e where "i = k div 18" and "e = k mod 18"
  have ie: "k = 18 * i + e" "e < 18" by (simp_all add: i_def e_def)
  have ok: "length (array d) = SIZE R" "elems_ok (array d)" using d by (simp_all add: number_ok_def)
  have il: "i < length (array d)" using i ok(1) by (simp add: i_def k_def)
  let ?x = "array d ! i" and ?p = "pow10 e :: uint64"
  note c = clear_low [OF ok(2) il ie(2)]
  have xs: "(replicate i 0 @ drop i (array d)) ! i = ?x" "replicate i 0 @ drop i (array d) = replicate i 0 @ ?x # drop (i + 1) (array d)"
    using il by (simp_all add: nth_append Cons_nth_drop_Suc)
  have low: "list_ex (\<lambda>x. x \<noteq> 0) (take i (array d)) \<longleftrightarrow> value_of (take i (array d)) \<noteq> 0"
    unfolding value_of_zero_iff by (simp add: list_ex_iff list_all_iff)
  have pm: "?x mod ?p = 0 \<longleftrightarrow> unat ?x mod 10 ^ e = 0" by (simp only: word_unat_eq_iff unat_mod_distrib c(3) unat_0)
  have K: "(10 :: nat) ^ k = NB ^ i * 10 ^ e" by (simp add: ie(1) power_add power_mult NB_def)
  have m: "magnitude d mod 10 ^ k = value_of (take i (array d)) + NB ^ i * (unat ?x mod 10 ^ e)"
    unfolding K magnitude_def by (rule low_digits [OF ok(2) il ie(2)])
  then have z: "magnitude d mod 10 ^ k = 0 \<longleftrightarrow> \<not> (list_ex (\<lambda>x. x \<noteq> 0) (take i (array d)) \<or> ?x mod ?p \<noteq> 0)"
    unfolding low pm by auto
  have flo: "number_floor R f d = d\<lparr>array := replicate i 0 @ drop i (array d)\<rparr>" if "?x mod ?p = 0"
    using that f il ok(1) xs unfolding number_floor_def DIGITS_PER_ELEMENT_def k_def [symmetric] i_def [symmetric] e_def [symmetric] Let_def
    by simp
  have ce: "number_ceil R f d = (case (if list_ex (\<lambda>x. x \<noteq> 0) (take i (array d)) \<or> ?x mod ?p \<noteq> 0
      then (case bump (array d) i ?p of (over, zs) \<Rightarrow> (over \<or> zs ! (SIZE R - 1) \<ge> INTEGER_MAX_OVER R, zs))
      else (list_ex (\<lambda>x. x \<noteq> 0) (take i (array d)), replicate i 0 @ drop i (array d))) of
        (over, zs) \<Rightarrow> if over then Inl Overflow else Inr (d\<lparr>array := zs\<rparr>))"
    using f il ok(1) unfolding number_ceil_def DIGITS_PER_ELEMENT_def k_def [symmetric] i_def [symmetric] e_def [symmetric] Let_def xs(1) unfolding xs(2)
    by (cases "ceil_carry (drop (i + 1) (array d))") (simp add: bump_def Let_def list_update_append)
  show ?thesis
    unfolding i_def [symmetric] e_def [symmetric] z ce using flo by (auto split: prod.split)
qed

lemma number_ceil_units:
  fixes f :: nat
  assumes R: "dranks_ok R" and d: "number_ok R d"
  defines "c \<equiv> rounded_quotient DMR_CEIL (magnitude d) (10 ^ (FRACTION R - f)) * 10 ^ (FRACTION R - f)"
  shows "if c < 10 ^ TOTAL R
    then \<exists>r. number_ceil R f d = Inr r \<and> number_ok R r \<and> magnitude r = c \<and> negative r = negative d
    else number_ceil R f d = Inl Overflow"
proof (cases "FRACTION R \<le> f")
  case True
  then have "c = magnitude d" by (simp add: c_def rounded_quotient_def)
  then show ?thesis using True d by (auto simp: number_ceil_def number_ok_def)
next
  case False
  define k where "k = FRACTION R - f"
  let ?K = "10 ^ k :: nat"
  have ok: "length (array d) = SIZE R" "elems_ok (array d)" "magnitude d < 10 ^ TOTAL R" using d by (simp_all add: number_ok_def)
  have c: "c = (magnitude d div ?K + (if magnitude d mod ?K \<noteq> 0 then 1 else 0)) * ?K"
    unfolding c_def k_def [symmetric] using rounded_quotient_step [of ?K DMR_CEIL "magnitude d"] by simp
  have kT: "k \<le> TOTAL R" using R unfolding k_def dranks_ok_def by linarith
  show ?thesis
  proof (cases "k div 18 < SIZE R")
    case i: True
    show ?thesis
    proof (cases "magnitude d mod ?K = 0")
      case True
      have e: "magnitude d div ?K * ?K = magnitude d" using True by (metis add.right_neutral div_mult_mod_eq)
      moreover have "c = magnitude d div ?K * ?K" unfolding c using True by simp
      ultimately show ?thesis
        using number_ceil_bump [OF R d, of f] False i True number_floor_units [OF R d, of f] ok(3)
        unfolding k_def [symmetric] by simp
    next
      case m: False
      obtain over zs where b: "bump (array d) (k div 18) (pow10 (k mod 18)) = (over, zs)" by fastforce
      have il: "k div 18 < length (array d)" using i ok(1) by simp
      from bump_correct [OF ok(2) il _ b] have z: "length zs = SIZE R" "elems_ok zs" "value_of zs + NB ^ SIZE R * of_bool over = c"
        using m ok(1) by (simp_all add: c magnitude_def)
      have "over \<or> zs ! (SIZE R - 1) \<ge> INTEGER_MAX_OVER R \<longleftrightarrow> 10 ^ TOTAL R \<le> c"
        unfolding number_limit [OF R z(1,2)] using z(3) value_of_size [of R] by (cases over) auto
      then show ?thesis
        using number_ceil_bump [OF R d, of f] False i m b z unfolding k_def [symmetric] by (auto simp: number_ok_def magnitude_def)
    qed
  next
    case F: False
    have e: "k = 18 * SIZE R" "TOTAL R = 18 * SIZE R" using F kT SIZE_split(3) [OF R] by linarith+
    then have "magnitude d div ?K = 0" "magnitude d mod ?K = magnitude d" using ok(3) by simp_all
    then have c: "c = (if magnitude d = 0 then 0 else 10 ^ TOTAL R)" unfolding c using e by simp
    have "number_ceil R f d = (if list_ex (\<lambda>x. x \<noteq> 0) (array d) then Inl Overflow else Inr (d\<lparr>array := replicate (SIZE R) 0\<rparr>))"
      using False F e ok(1) unfolding number_ceil_def DIGITS_PER_ELEMENT_def k_def [symmetric] Let_def by simp
    moreover have "list_ex (\<lambda>x. x \<noteq> 0) (array d) \<longleftrightarrow> magnitude d \<noteq> 0"
      unfolding magnitude_def value_of_zero_iff by (simp add: list_ex_iff list_all_iff)
    ultimately show ?thesis unfolding c by (simp add: number_ok_def magnitude_def)
  qed
qed

lemma element_roundtrip: "element_of (element_bytes x) = x" "length (element_bytes x) = 8"
  using unpack_bytes [of x] by (simp_all add: element_of_def element_bytes_def)

lemma take_drop_concat:
  assumes "i < length xs"
  shows "take 8 (drop (8 * i) (concat (map element_bytes xs) @ ys)) = element_bytes (xs ! i)"
  using assms
proof (induction xs arbitrary: i)
  case (Cons x xs)
  show ?case
  proof (cases i)
    case (Suc j)
    have "drop (8 * i) (concat (map element_bytes (x # xs)) @ ys) = drop (8 * j) (concat (map element_bytes xs) @ ys)"
      by (simp add: Suc element_roundtrip)
    with Cons.IH [of j] Cons.prems Suc show ?thesis by (simp only: nth_Cons_Suc length_Cons Suc_less_eq)
  qed (simp add: element_roundtrip)
qed simp

lemma length_packed: "length (concat (map element_bytes xs)) = 8 * length xs"
  by (induction xs) (simp_all add: element_roundtrip)

lemma number_unpack_pack:
  assumes "length (array d) = SIZE R"
  shows "number_unpack R (number_pack d) = d" "length (number_pack d) = 8 * SIZE R + 1"
proof -
  have "map (\<lambda>i. element_of (take 8 (drop (8 * i) (number_pack d)))) [0..<SIZE R] = array d"
    by (rule nth_equalityI) (simp_all only: assms number_pack_def take_drop_concat element_roundtrip
        length_map length_upt nth_map nth_upt minus_nat.diff_0 add_0 refl)
  moreover have "number_pack d ! (SIZE R * 8) = (if negative d then 1 else 0)"
    by (simp add: number_pack_def nth_append length_packed assms)
  ultimately show "number_unpack R (number_pack d) = d" by (simp add: number_unpack_def)
  show "length (number_pack d) = 8 * SIZE R + 1" by (simp add: number_pack_def length_packed assms)
qed

end
