(* ===== verification/Number_Text.thy ===== *)
theory Number_Text
  imports Decimal_String
begin

text \<open>
  The text form of \<^verbatim>\<open>Generics::Decimal\<close>: the digits of the elements, what \<open>number_construct_text\<close> accepts and the
  number it gives, the round trip from \<open>number_str\<close>, and the properties of the class \<^verbatim>\<open>Decimal\<close>.
\<close>

section \<open>Digits of elements\<close>

definition digits_value :: "nat list \<Rightarrow> nat" where
  "digits_value = foldl (\<lambda>v d. v * 10 + d) 0"

definition digits_ok :: "nat list \<Rightarrow> bool" where
  "digits_ok num \<longleftrightarrow> list_all (\<lambda>d. d < 10) num"

lemma foldl_digits: "foldl (\<lambda>v d. v * 10 + d) v num = v * 10 ^ length num + digits_value num"
proof (induction num arbitrary: v)
  case (Cons d num)
  from Cons [of "v * 10 + d"] Cons [of d] show ?case by (simp add: digits_value_def algebra_simps)
qed (simp add: digits_value_def)

lemma digits_value_append: "digits_value (xs @ ys) = digits_value xs * 10 ^ length ys + digits_value ys"
  using foldl_digits [of "digits_value xs" ys] by (simp add: digits_value_def)

lemma digits_value_simps [simp]:
  "digits_value [] = 0" "digits_value (replicate n 0) = 0"
  "digits_value (d # ds) = d * 10 ^ length ds + digits_value ds"
proof -
  show "digits_value []  = 0" by (simp add: digits_value_def)
  show c: "digits_value (d # ds) = d * 10 ^ length ds + digits_value ds" for d ds
    using foldl_digits [of d ds] by (simp add: digits_value_def)
  show "digits_value (replicate n 0) = 0" by (induction n) (simp_all add: c digits_value_def)
qed

lemma digits_ok_simps [simp]:
  "digits_ok []" "digits_ok (d # ds) \<longleftrightarrow> d < 10 \<and> digits_ok ds" "digits_ok (xs @ ys) \<longleftrightarrow> digits_ok xs \<and> digits_ok ys"
  "digits_ok (replicate n 0)"
  by (auto simp: digits_ok_def list_all_iff)

lemma digits_ok_take_drop: "digits_ok num \<Longrightarrow> digits_ok (take n num)" "digits_ok num \<Longrightarrow> digits_ok (drop n num)"
  by (auto simp: digits_ok_def list_all_iff dest: in_set_takeD in_set_dropD)

lemma digits_value_less: "digits_ok num \<Longrightarrow> digits_value num < 10 ^ length num"
proof (induction num)
  case (Cons d num)
  then have "digits_value num < 10 ^ length num" "d \<le> 9" by simp_all
  moreover from this(2) have "d * 10 ^ length num \<le> 9 * 10 ^ length num" by (rule mult_le_mono1)
  ultimately have "d * 10 ^ length num + digits_value num < 10 * 10 ^ length num" by linarith
  then show ?case by simp
qed simp

lemma digits_value_inject:
  "length xs = length ys \<Longrightarrow> digits_ok xs \<Longrightarrow> digits_ok ys \<Longrightarrow> digits_value xs = digits_value ys \<Longrightarrow> xs = ys"
proof (induction xs ys rule: list_induct2)
  case (Cons x xs y ys)
  have less: "digits_value xs < 10 ^ length ys" "digits_value ys < 10 ^ length ys"
    using digits_value_less [of xs] digits_value_less [of ys] Cons by simp_all
  have eq: "x * 10 ^ length ys + digits_value xs = y * 10 ^ length ys + digits_value ys" using Cons by simp
  have "x = y" using arg_cong [OF eq, of "\<lambda>v. v div 10 ^ length ys"] less by simp
  with eq Cons show ?case by simp
qed simp

lemma assemble_decimal_value:
  assumes "n \<le> length num" "digits_ok num" "unat ret * 10 ^ n + 10 ^ n \<le> 2 ^ 64"
  shows "unat (assemble_decimal n num ret) = unat ret * 10 ^ n + digits_value (take n num)"
  using assms
proof (induction n arbitrary: num ret)
  case (Suc n)
  obtain d num' where num: "num = d # num'" using Suc.prems(1) by (cases num) auto
  have d: "d < 10" "digits_ok num'" using Suc.prems(2) num by simp_all
  have "(unat ret * 10 + 10) * 10 ^ n \<le> 2 ^ 64" using Suc.prems(3) by (simp add: algebra_simps)
  moreover have "(unat ret * 10 + 10) * 1 \<le> (unat ret * 10 + 10) * 10 ^ n" by (intro mult_le_mono2) simp
  ultimately have lim: "unat ret * 10 + 10 \<le> 2 ^ 64" unfolding mult_1_right by (rule order_trans [rotated])
  have w: "unat (word_of_nat d :: uint64) = d" using d(1) by (simp add: unat_of_nat_64)
  have "unat (ret * 10) = unat ret * 10" using lim by (subst unat_mult_64) simp_all
  then have r: "unat (ret * 10 + word_of_nat d) = unat ret * 10 + d"
    using lim d(1) by (subst unat_add_64) (simp_all add: w)
  have "(unat ret * 10 + d + 1) * 10 ^ n \<le> (unat ret * 10 + 10) * 10 ^ n" using d(1) by (intro mult_le_mono1) simp
  then have p: "unat (ret * 10 + word_of_nat d) * 10 ^ n + 10 ^ n \<le> 2 ^ 64"
    unfolding r using \<open>(unat ret * 10 + 10) * 10 ^ n \<le> 2 ^ 64\<close> by (simp only: distrib_right mult_1)
  have n: "n \<le> length num'" using Suc.prems(1) num by simp
  from Suc.IH [OF n d(2) p] n show ?case unfolding r by (simp add: num distrib_right min_absorb2)
qed simp

lemma assemble_elements_value:
  assumes "n \<le> 18 * k" "n \<le> length num" "digits_ok num"
  shows "length (assemble_elements k n num) = k \<and> elems_ok (assemble_elements k n num) \<and>
    value_of (assemble_elements k n num) = digits_value (take n num)"
  using assms(1,2)
proof (induction k arbitrary: n)
  case (Suc k)
  define m where "m = (if n \<ge> 18 then 18 else n)"
  have m: "m \<le> n" "m \<le> 18" "n < 18 \<Longrightarrow> n - m = 0" "n - m \<le> 18 * k" using Suc.prems(1) by (auto simp: m_def)
  let ?x = "assemble_decimal m (drop (n - m) num) 0"
  have "(10 :: nat) ^ m \<le> 10 ^ 18" using m(2) by (intro power_increasing) simp_all
  then have x: "unat ?x = digits_value (take m (drop (n - m) num))"
    using assemble_decimal_value [of m "drop (n - m) num" 0] m(1) Suc.prems(2) digits_ok_take_drop(2) [OF assms(3)] by simp
  moreover have "digits_value (take m (drop (n - m) num)) < 10 ^ m"
    using digits_value_less [OF digits_ok_take_drop(1) [OF digits_ok_take_drop(2) [OF assms(3)]], of m "n - m"] m(1) Suc.prems(2) by simp
  ultimately have lim: "unat ?x < NB" using \<open>10 ^ m \<le> 10 ^ 18\<close> by (simp add: NB_def)
  have "take n num = take (n - m) num @ take m (drop (n - m) num)"
    using take_add [of "n - m" m num] m(1) by simp
  then have "digits_value (take n num) = digits_value (take (n - m) num) * 10 ^ m + unat ?x"
    using digits_value_append x m(1) Suc.prems(2) by simp
  moreover have "digits_value (take (n - m) num) * 10 ^ m = NB * digits_value (take (n - m) num)"
    using m(3) by (cases "n < 18") (simp_all add: m_def NB_def)
  moreover have "assemble_elements (Suc k) n num = ?x # assemble_elements k (n - m) num"
    by (simp add: DIGITS_PER_ELEMENT_def m_def Let_def)
  ultimately show ?case using Suc.IH [OF m(4)] Suc.prems(2) lim by simp
qed simp

lemma disassemble_decimal_value:
  "length (disassemble_decimal n x) = n \<and> digits_ok (disassemble_decimal n x) \<and>
    digits_value (disassemble_decimal n x) = unat x mod 10 ^ n"
proof (induction n arbitrary: x)
  case (Suc n)
  have "unat (x div 10) = unat x div 10" "unat (x mod 10) = unat x mod 10" by (simp_all add: unat_div_distrib unat_mod_distrib)
  moreover have "unat x mod (10 * 10 ^ n) = 10 * (unat x div 10 mod 10 ^ n) + unat x mod 10" by (rule mod_mult2_eq)
  ultimately show ?case using Suc [of "x div 10"] by (simp add: digits_value_append)
qed simp

lemma disassemble_elements_value:
  assumes "elems_ok xs" "xs \<noteq> []" "18 * (length xs - 1) \<le> n" "value_of xs < 10 ^ n"
  shows "length (disassemble_elements n xs) = n \<and> digits_ok (disassemble_elements n xs) \<and>
    digits_value (disassemble_elements n xs) = value_of xs"
  using assms
proof (induction xs arbitrary: n)
  case (Cons x xs)
  note d = disassemble_decimal_value [of _ x]
  show ?case
  proof (cases "xs = []")
    case True
    with Cons.prems d [of n] show ?thesis by simp
  next
    case False
    then have len: "18 \<le> n" "18 * (length xs - 1) \<le> n - 18" using Cons.prems(3) by (cases xs; simp)+
    have x: "unat x < NB" "elems_ok xs" using Cons.prems(1) by simp_all
    have "(10 :: nat) ^ n = NB * 10 ^ (n - 18)" unfolding NB_def power_add [symmetric] using len(1) by simp
    then have "NB * value_of xs < NB * 10 ^ (n - 18)" using Cons.prems(4) unfolding value_of.simps by linarith
    then have v: "value_of xs < 10 ^ (n - 18)" by simp
    from Cons.IH [OF x(2) False len(2) v] d [of 18] x(1) len(1) False show ?thesis
      by (simp add: DIGITS_PER_ELEMENT_def digits_value_append NB_def)
  qed
qed simp

section \<open>Reading\<close>

abbreviation zero_char :: byte where
  "zero_char \<equiv> 48"

abbreviation point :: byte where
  "point \<equiv> 46"

definition strip_zeros :: "bytes \<Rightarrow> bytes" where
  "strip_zeros cs = dropWhile (\<lambda>c. c = zero_char) cs"

lemma byte_facts [simp]: "digit_of zero_char = 0" "\<not> is_digit point"
  by (simp_all add: digit_of_def)

lemma trim_zeros_rev: "trim_zeros cs = rev (strip_zeros (rev cs))"
  by (simp add: trim_zeros_def strip_zeros_def)

lemma text_parts_point:
  "text_parts cs =
     (if point \<in> set cs then
        if last (trim_zeros cs) = point then (butlast (trim_zeros cs), [], butlast (trim_zeros cs) = [])
        else (takeWhile (\<lambda>c. c \<noteq> point) (trim_zeros cs),
              drop (length (takeWhile (\<lambda>c. c \<noteq> point) (trim_zeros cs)) + 1) (trim_zeros cs), trim_zeros cs = [])
      else (cs, [], cs = []))"
  by (simp add: text_parts_def Let_def)

lemma all_digits_text_simps [simp]:
  "all_digits []" "all_digits (c # cs) \<longleftrightarrow> is_digit c \<and> all_digits cs" "all_digits (as @ bs) \<longleftrightarrow> all_digits as \<and> all_digits bs"
  by (auto simp: all_digits_def)

lemma all_digits_no_point: "all_digits ds \<Longrightarrow> point \<notin> set ds"
  by (auto simp: all_digits_def)

text \<open>Leading and trailing zeros, and the number of the digits.\<close>

abbreviation text_value :: "bytes \<Rightarrow> nat" where
  "text_value cs \<equiv> digits_value (map digit_of cs)"

lemma strip_zeros_split:
  obtains n where "cs = replicate n zero_char @ strip_zeros cs"
proof -
  have "takeWhile (\<lambda>c. c = zero_char) cs = replicate (length (takeWhile (\<lambda>c. c = zero_char) cs)) zero_char"
    by (rule replicate_length_same [symmetric]) (auto dest: set_takeWhileD)
  then show ?thesis using that unfolding strip_zeros_def by (metis takeWhile_dropWhile_id)
qed

lemma trim_zeros_split:
  obtains n where "cs = trim_zeros cs @ replicate n zero_char"
proof -
  obtain n where "rev cs = replicate n zero_char @ strip_zeros (rev cs)" by (rule strip_zeros_split)
  then have "cs = rev (strip_zeros (rev cs)) @ replicate n zero_char" by (metis rev_append rev_replicate rev_rev_ident)
  then show ?thesis using that unfolding trim_zeros_rev by blast
qed

lemma strip_zeros_digits: "all_digits (strip_zeros ds) \<longleftrightarrow> all_digits ds" "text_value (strip_zeros ds) = text_value ds"
proof -
  obtain n where n: "ds = replicate n zero_char @ strip_zeros ds" by (rule strip_zeros_split)
  have z: "all_digits (replicate n zero_char)" by (auto simp: all_digits_def)
  show "all_digits (strip_zeros ds) \<longleftrightarrow> all_digits ds" by (subst (2) n) (simp add: z)
  have "digits_value (replicate n 0 @ xs) = digits_value xs" for xs by (simp add: digits_value_append)
  then show "text_value (strip_zeros ds) = text_value ds" by (subst (2) n) simp
qed

lemma trim_zeros_digits:
  "all_digits (trim_zeros es) \<longleftrightarrow> all_digits es"
  "text_value es = text_value (trim_zeros es) * 10 ^ (length es - length (trim_zeros es))" "length (trim_zeros es) \<le> length es"
proof -
  obtain n where n: "es = trim_zeros es @ replicate n zero_char" by (rule trim_zeros_split)
  have z: "all_digits (replicate n zero_char)" by (auto simp: all_digits_def)
  show "all_digits (trim_zeros es) \<longleftrightarrow> all_digits es" by (subst (2) n) (simp add: z)
  have l: "length es = length (trim_zeros es) + n" by (subst n) simp
  then show "length (trim_zeros es) \<le> length es" by simp
  have "text_value es = text_value (trim_zeros es) * 10 ^ n" by (subst n) (simp add: digits_value_append)
  with l show "text_value es = text_value (trim_zeros es) * 10 ^ (length es - length (trim_zeros es))" by simp
qed

lemma trim_zeros_last: "trim_zeros es \<noteq> [] \<Longrightarrow> last (trim_zeros es) \<noteq> zero_char"
  unfolding trim_zeros_rev strip_zeros_def using hd_dropWhile [of "\<lambda>c. c = zero_char" "rev es"] by (simp add: last_rev)

lemma trim_zeros_append:
  "trim_zeros (as @ bs) = (if trim_zeros bs = [] then trim_zeros as else as @ trim_zeros bs)"
proof -
  have "dropWhile P (xs @ ys) = (if dropWhile P xs = [] then dropWhile P ys else dropWhile P xs @ ys)" for P :: "byte \<Rightarrow> bool" and xs ys
    by (induction xs) simp_all
  then show ?thesis by (simp add: trim_zeros_rev strip_zeros_def)
qed

lemma text_parts_digits:
  assumes "decimal_text_of cs ds es"
  shows "text_parts (strip_zeros cs) = (strip_zeros ds, trim_zeros es, strip_zeros ds = [] \<and> trim_zeros es = [])"
proof -
  have d: "all_digits ds" "all_digits es" using assms by (simp_all add: decimal_text_of_def)
  have np: "point \<notin> set (strip_zeros ds)" using d(1) by (intro all_digits_no_point) (simp add: strip_zeros_digits)
  from assms consider "cs = ds" "es = []" | "cs = ds @ point # es" by (auto simp: decimal_text_of_def)
  then show ?thesis
  proof cases
    case 1
    with np show ?thesis by (simp add: text_parts_point trim_zeros_rev strip_zeros_def)
  next
    case 2
    have s: "strip_zeros cs = strip_zeros ds @ point # es"
      unfolding 2 strip_zeros_def by (induction ds) simp_all
    have t: "trim_zeros (strip_zeros cs) = strip_zeros ds @ point # trim_zeros es"
    proof (cases "trim_zeros es = []")
      case True
      have "trim_zeros [point] = [point]" by (simp add: trim_zeros_rev strip_zeros_def)
      with True trim_zeros_append [of "strip_zeros ds @ [point]" es] trim_zeros_append [of "strip_zeros ds" "[point]"]
      show ?thesis by (simp add: s)
    next
      case False
      with trim_zeros_append [of "strip_zeros ds @ [point]" es] show ?thesis by (simp add: s)
    qed
    show ?thesis
    proof (cases "trim_zeros es = []")
      case True
      then show ?thesis unfolding text_parts_point t by (simp add: s)
    next
      case False
      have "is_digit (last (trim_zeros es))"
        using d(2) trim_zeros_digits(1) [of es] last_in_set [OF False] unfolding all_digits_def by blast
      then have "last (trim_zeros es) \<noteq> point" by (metis byte_facts(2))
      moreover have "takeWhile (\<lambda>c. c \<noteq> point) (strip_zeros ds @ point # trim_zeros es) = strip_zeros ds"
        using np by (simp add: takeWhile_append)
      ultimately show ?thesis using False unfolding text_parts_point t by (simp add: s)
    qed
  qed
qed

lemma drop_takeWhile: "drop (length (takeWhile P xs) + 1) xs = tl (dropWhile P xs)"
  by (induction xs) simp_all

text \<open>Conversely the parts have a character that is no digit when the text has one.\<close>

lemma text_parts_form:
  assumes "text_parts (strip_zeros cs) = (integer, fraction, nothing)" "all_digits integer" "all_digits fraction"
  shows "\<exists>ds es. decimal_text_of cs ds es"
proof -
  let ?t = "strip_zeros cs"
  obtain n where n: "cs = replicate n zero_char @ ?t" by (rule strip_zeros_split)
  have z: "all_digits (replicate k zero_char)" for k by (auto simp: all_digits_def)
  show ?thesis
  proof (cases "point \<in> set ?t")
    case False
    with assms have "all_digits cs" by (subst n) (simp add: text_parts_point z)
    then show ?thesis by (intro exI [of _ cs] exI [of _ "[]"]) (simp add: decimal_text_of_def)
  next
    case True
    obtain m where m: "?t = trim_zeros ?t @ replicate m zero_char" by (rule trim_zeros_split)
    have pt: "point \<in> set (trim_zeros ?t)" using True by (subst (asm) m) (auto split: if_splits)
    then have ne: "trim_zeros ?t \<noteq> []" by auto
    have "\<exists>es. ?t = integer @ point # es \<and> all_digits es"
    proof (cases "last (trim_zeros ?t) = point")
      case l: True
      then have "integer = butlast (trim_zeros ?t)" using assms(1) True by (simp add: text_parts_point)
      then have "trim_zeros ?t = integer @ [point]" using ne l by (metis append_butlast_last_id)
      then show ?thesis using z [of m] by (subst m) (intro exI [of _ "replicate m zero_char"], simp)
    next
      case l: False
      then have p: "integer = takeWhile (\<lambda>c. c \<noteq> point) (trim_zeros ?t)" "fraction = drop (length integer + 1) (trim_zeros ?t)"
        using assms(1) True by (auto simp: text_parts_point)
      have "dropWhile (\<lambda>c. c \<noteq> point) (trim_zeros ?t) = point # fraction"
      proof -
        have nn: "dropWhile (\<lambda>c. c \<noteq> point) (trim_zeros ?t) \<noteq> []" unfolding dropWhile_eq_Nil_conv using pt by blast
        have "fraction = tl (dropWhile (\<lambda>c. c \<noteq> point) (trim_zeros ?t))"
          unfolding p(2) p(1) by (rule drop_takeWhile)
        moreover have "hd (dropWhile (\<lambda>c. c \<noteq> point) (trim_zeros ?t)) = point" using hd_dropWhile [OF nn] by simp
        ultimately show ?thesis using hd_Cons_tl [OF nn] by simp
      qed
      with p(1) have "trim_zeros ?t = integer @ point # fraction" by (metis takeWhile_dropWhile_id)
      then show ?thesis using z [of m] assms(3) by (subst m) (intro exI [of _ "fraction @ replicate m zero_char"], simp)
    qed
    then obtain es where "?t = integer @ point # es" "all_digits es" by blast
    then show ?thesis
      using z [of n] assms(2) by (intro exI [of _ "replicate n zero_char @ integer"] exI [of _ es]) (subst n, simp add: decimal_text_of_def)
  qed
qed

lemma number_digits_value:
  assumes R: "dranks_ok R" and d: "all_digits ds" "all_digits es"
  shows "if length es \<le> FRACTION R \<and> length ds \<le> INTEGER_RANK R
    then \<exists>num. number_digits R ds es = Inr num \<and> length num = TOTAL R \<and> digits_ok num \<and>
      digits_value num = text_value ds * 10 ^ FRACTION R + text_value es * 10 ^ (FRACTION R - length es)
    else number_digits R ds es = Inl Overflow"
proof (cases "length es \<le> FRACTION R \<and> length ds \<le> INTEGER_RANK R")
  case True
  let ?num = "replicate (INTEGER_RANK R - length ds) 0 @ map digit_of ds @ map digit_of es @ replicate (FRACTION R - length es) 0"
  have "digits_ok (map digit_of xs)" if "all_digits xs" for xs
    using that unfolding digits_ok_def all_digits_def list_all_iff by fastforce
  then have "digits_ok ?num" using d by simp
  moreover have "length ?num = INTEGER_RANK R + FRACTION R" using True by simp
  moreover have "INTEGER_RANK R + FRACTION R = TOTAL R" using R by (simp add: INTEGER_RANK_def dranks_ok_def)
  moreover have "digits_value ?num = text_value ds * 10 ^ FRACTION R + text_value es * 10 ^ (FRACTION R - length es)"
    using True by (simp add: digits_value_append distrib_right power_add [symmetric] mult.assoc)
  moreover have "number_digits R ds es = Inr ?num"
    using True d unfolding number_digits_def all_digits_def list_all_iff by auto
  ultimately show ?thesis using True by auto
next
  case False
  then show ?thesis by (auto simp: number_digits_def)
qed

text \<open>The sign in front of a text.\<close>

lemma construct_text_sign:
  assumes "sign_text sg" "cs \<noteq> []" "sg = [] \<Longrightarrow> hd cs \<noteq> ch CHR ''-'' \<and> hd cs \<noteq> ch CHR ''+''"
  shows "number_construct_text R (sg @ cs) =
    (case text_parts (strip_zeros cs) of (integer, fraction, nothing) \<Rightarrow>
       if nothing then Inr \<lparr>negative = sg = [ch CHR ''-''], array = replicate (SIZE R) 0\<rparr>
       else rmap (\<lambda>num. \<lparr>negative = sg = [ch CHR ''-''], array = assemble_elements (SIZE R) (TOTAL R) num\<rparr>)
              (number_digits R integer fraction))"
  using assms by (auto simp: sign_text_def number_construct_text_def strip_zeros_def Let_def split: prod.split)

lemma text_hd:
  assumes "decimal_text_of cs ds es" "cs \<noteq> []"
  shows "hd cs \<noteq> ch CHR ''-'' \<and> hd cs \<noteq> ch CHR ''+''"
proof -
  have "is_digit (hd cs) \<or> hd cs = point" using assms by (cases ds) (auto simp: decimal_text_of_def)
  moreover have "\<not> is_digit 45" "\<not> is_digit 43" by (simp_all add: digit_of_def)
  ultimately show ?thesis by auto
qed

lemma read_number:
  assumes R: "dranks_ok R" and "sign_text sg" and t: "decimal_text_of cs ds es" "cs \<noteq> []"
  shows "if length (trim_zeros es) \<le> FRACTION R \<and> length (strip_zeros ds) \<le> INTEGER_RANK R
    then \<exists>c. number_construct_text R (sg @ cs) = Inr c \<and> number_ok R c \<and> negative c = (sg = [ch CHR ''-'']) \<and>
      magnitude c * 10 ^ length es = text_value (ds @ es) * 10 ^ FRACTION R
    else number_construct_text R (sg @ cs) = Inl Overflow"
proof -
  let ?d = "strip_zeros ds" and ?e = "trim_zeros es"
  have d: "all_digits ?d" "all_digits ?e" "all_digits ds" "all_digits es"
    using t(1) by (simp_all add: decimal_text_of_def strip_zeros_digits trim_zeros_digits)
  have c: "number_construct_text R (sg @ cs) =
      (if ?d = [] \<and> ?e = [] then Inr \<lparr>negative = sg = [ch CHR ''-''], array = replicate (SIZE R) 0\<rparr>
       else rmap (\<lambda>num. \<lparr>negative = sg = [ch CHR ''-''], array = assemble_elements (SIZE R) (TOTAL R) num\<rparr>) (number_digits R ?d ?e))"
    unfolding construct_text_sign [OF assms(2) t(2) text_hd [OF t]] text_parts_digits [OF t(1)] by simp
  have val: "text_value (ds @ es) = text_value ?d * 10 ^ length es + text_value ?e * 10 ^ (length es - length ?e)"
    using strip_zeros_digits(2) [of ds] trim_zeros_digits(2) [of es] by (simp add: digits_value_append)
  show ?thesis
  proof (cases "?d = [] \<and> ?e = []")
    case True
    then show ?thesis unfolding c val by (simp add: number_ok_def)
  next
    case False
    then have c: "number_construct_text R (sg @ cs) = rmap (\<lambda>num. \<lparr>negative = sg = [ch CHR ''-''],
        array = assemble_elements (SIZE R) (TOTAL R) num\<rparr>) (number_digits R ?d ?e)" unfolding c by (rule if_not_P)
    show ?thesis
    proof (cases "length ?e \<le> FRACTION R \<and> length ?d \<le> INTEGER_RANK R")
      case T: True
      with number_digits_value [OF R d(1,2)] obtain num where num: "number_digits R ?d ?e = Inr num" "length num = TOTAL R" "digits_ok num"
        "digits_value num = text_value ?d * 10 ^ FRACTION R + text_value ?e * 10 ^ (FRACTION R - length ?e)" by auto
      have "TOTAL R \<le> 18 * SIZE R" using SIZE_split(3) [OF R] by simp
      from assemble_elements_value [OF this _ num(3)] num(2) have a: "length (assemble_elements (SIZE R) (TOTAL R) num) = SIZE R"
        "elems_ok (assemble_elements (SIZE R) (TOTAL R) num)" "value_of (assemble_elements (SIZE R) (TOTAL R) num) = digits_value num" by simp_all
      have less: "digits_value num < 10 ^ TOTAL R" using digits_value_less [OF num(3)] num(2) by simp
      have p: "(10 :: nat) ^ (FRACTION R - length ?e) * 10 ^ length es = 10 ^ (length es - length ?e) * 10 ^ FRACTION R"
        unfolding power_add [symmetric] using T trim_zeros_digits(3) [of es] by simp
      have "digits_value num * 10 ^ length es = text_value (ds @ es) * 10 ^ FRACTION R"
        unfolding num(4) val distrib_right mult.assoc p by (simp add: mult_ac)
      with T a less num(1) show ?thesis unfolding c by (simp add: number_ok_def)
    next
      case F: False
      with number_digits_value [OF R d(1,2)] show ?thesis unfolding c if_not_P [OF F] by simp
    qed
  qed
qed

text \<open>Only such texts are read.\<close>

lemma read_number_form:
  assumes "number_construct_text R s = Inr c"
  shows "\<exists>sg cs ds es. s = sg @ cs \<and> sign_text sg \<and> cs \<noteq> [] \<and> decimal_text_of cs ds es"
proof -
  define sg where "sg = (if s \<noteq> [] \<and> (hd s = ch CHR ''-'' \<or> hd s = ch CHR ''+'') then [hd s] else [])"
  define cs where "cs = (if s \<noteq> [] \<and> (hd s = ch CHR ''-'' \<or> hd s = ch CHR ''+'') then tl s else s)"
  have s: "s = sg @ cs" "sign_text sg" by (auto simp: sg_def cs_def sign_text_def)
  have ne: "cs \<noteq> []" using assms by (auto simp: number_construct_text_def cs_def Let_def split: if_splits)
  have h: "sg = [] \<Longrightarrow> hd cs \<noteq> ch CHR ''-'' \<and> hd cs \<noteq> ch CHR ''+''" using ne by (auto simp: sg_def cs_def split: if_splits)
  obtain integer fraction nothing where p: "text_parts (strip_zeros cs) = (integer, fraction, nothing)" by (metis surj_pair)
  note c = construct_text_sign [OF s(2) ne h, of R, folded s(1), unfolded p prod.case]
  have "all_digits integer \<and> all_digits fraction"
  proof (cases nothing)
    case True
    then show ?thesis using p by (auto simp: text_parts_point trim_zeros_rev split: if_splits)
  next
    case False
    with assms c obtain num where "number_digits R integer fraction = Inr num" by (cases "number_digits R integer fraction") auto
    then show ?thesis by (auto simp: number_digits_def all_digits_def list_all_iff split: if_splits)
  qed
  with text_parts_form [OF p] s ne show ?thesis by blast
qed

section \<open>Writing\<close>

lemma digit_char_digit:
  assumes "d < 10"
  shows "digit_of (digit_char d) = d" "is_digit (digit_char d)" "digit_char d = zero_char \<longleftrightarrow> d = 0"
proof -
  have "d \<in> set [0..<10]" using assms by simp
  then have "digit_of (digit_char d) = d"
    by (simp add: upt_rec digit_char_def digit_of_def) (elim disjE; simp)
  then show v: "digit_of (digit_char d) = d" "is_digit (digit_char d)" using assms by simp_all
  show "digit_char d = zero_char \<longleftrightarrow> d = 0"
  proof
    assume "digit_char d = zero_char"
    with v(1) show "d = 0" by simp
  qed (simp add: digit_char_def)
qed

lemma map_digit_char:
  assumes "digits_ok num"
  shows "map digit_of (map digit_char num) = num" "all_digits (map digit_char num)"
  using assms by (induction num) (simp_all add: digit_char_digit)

lemma dropWhile_zeros:
  fixes num :: "nat list"
  obtains n where "num = replicate n 0 @ dropWhile (\<lambda>x. x = 0) num"
proof -
  have "takeWhile (\<lambda>x. x = 0) num = replicate (length (takeWhile (\<lambda>x. x = 0) num)) 0"
    by (rule replicate_length_same [symmetric]) (auto dest: set_takeWhileD)
  then show ?thesis using that by (metis takeWhile_dropWhile_id)
qed

text \<open>The text of the integer part.\<close>

lemma integer_digits_text:
  fixes num :: "nat list"
  assumes "digits_ok num"
  defines "ds \<equiv> (if dropWhile (\<lambda>x. x = 0) num = [] then [ch CHR ''0''] else map digit_char (dropWhile (\<lambda>x. x = 0) num))"
  shows "all_digits ds" "text_value ds = digits_value num" "length (strip_zeros ds) \<le> length num" "ds \<noteq> []"
    "length ds \<le> max 1 (length num)"
proof -
  let ?i = "dropWhile (\<lambda>x. x = 0) num"
  obtain n where n: "num = replicate n 0 @ ?i" by (rule dropWhile_zeros)
  have i: "digits_ok ?i" using assms(1) by (subst (asm) n) simp
  have v: "digits_value num = digits_value ?i" by (subst n) (simp add: digits_value_append)
  have le: "length ?i \<le> length num" by (rule length_dropWhile_le)
  have "all_digits [ch CHR ''0'']" "text_value [ch CHR ''0''] = 0" by (simp_all add: digit_of_def)
  then show "all_digits ds" "text_value ds = digits_value num" "ds \<noteq> []" "length ds \<le> max 1 (length num)"
    unfolding ds_def v using map_digit_char [OF i] le
    by (cases "?i = []"; simp add: max_def del: dropWhile_eq_Nil_conv)+
  have "length (strip_zeros (map digit_char ?i)) \<le> length ?i"
    using length_dropWhile_le [of _ "map digit_char ?i"] by (simp add: strip_zeros_def)
  moreover have "strip_zeros [ch CHR ''0''] = []" by (simp add: strip_zeros_def)
  ultimately show "length (strip_zeros ds) \<le> length num"
    unfolding ds_def using le by (cases "?i = []"; simp del: dropWhile_eq_Nil_conv)
qed

text \<open>The text of the fraction, at least one digit of it.\<close>

lemma fraction_digits_text:
  fixes num :: "nat list"
  assumes "digits_ok num" "num \<noteq> []"
  defines "k \<equiv> rev (dropWhile (\<lambda>x. x = 0) (rev num))"
  defines "es \<equiv> map digit_char (if k = [] then take 1 num else k)"
  shows "all_digits es" "text_value es * 10 ^ (length num - length es) = digits_value num" "length es \<le> length num"
proof -
  obtain n where "rev num = replicate n 0 @ dropWhile (\<lambda>x. x = 0) (rev num)" by (rule dropWhile_zeros)
  then have n: "num = k @ replicate n 0" unfolding k_def by (metis rev_append rev_replicate rev_rev_ident)
  have k: "digits_ok k" using assms(1) by (subst (asm) n) simp
  have ok: "digits_ok (if k = [] then take 1 num else k)" using k digits_ok_take_drop(1) [OF assms(1)] by simp
  show "all_digits es" unfolding es_def by (rule map_digit_char(2) [OF ok])
  have len: "length num = length k + n" by (subst n) simp
  then show "length es \<le> length num" using assms(2) by (auto simp: es_def)
  have v: "text_value es = digits_value (if k = [] then take 1 num else k)" unfolding es_def map_digit_char(1) [OF ok] ..
  show "text_value es * 10 ^ (length num - length es) = digits_value num"
  proof (cases "k = []")
    case True
    then have z: "num = replicate n 0" using n by simp
    then have "digits_value (take 1 num) = 0" by (simp add: take_replicate del: One_nat_def)
    moreover have "digits_value num = 0" by (subst z) simp
    ultimately show ?thesis using v True by simp
  next
    case False
    then have "length es = length k" by (simp add: es_def)
    moreover have "digits_value num = digits_value k * 10 ^ n" by (subst n) (simp add: digits_value_append)
    ultimately show ?thesis using v False len by simp
  qed
qed

definition canonical_number :: "Decimal \<Rightarrow> Decimal" where
  "canonical_number d = d\<lparr>negative := negative d \<and> magnitude d \<noteq> 0\<rparr>"

lemma number_str_text:
  assumes R: "dranks_ok R" and d: "number_ok R d"
  shows "\<exists>sg cs ds es. number_str R d = Inr (sg @ cs) \<and> sign_text sg \<and> (sg = [ch CHR ''-''] \<longleftrightarrow> negative d \<and> magnitude d \<noteq> 0) \<and>
    cs \<noteq> [] \<and> decimal_text_of cs ds es \<and> length (sg @ cs) \<le> TOTAL R + 2 + (if INTEGER_RANK R = 0 then 1 else 0) \<and>
    length (strip_zeros ds) \<le> INTEGER_RANK R \<and> length es \<le> FRACTION R \<and>
    text_value (ds @ es) * 10 ^ FRACTION R = magnitude d * 10 ^ length es"
proof -
  define num where "num = disassemble_elements (TOTAL R) (array d)"
  have ok: "length (array d) = SIZE R" "elems_ok (array d)" "value_of (array d) < 10 ^ TOTAL R"
    using d by (simp_all add: number_ok_def magnitude_def)
  have S: "array d \<noteq> []" "18 * (length (array d) - 1) \<le> TOTAL R" using SIZE_split(1,4) [OF R] ok(1) by auto
  from disassemble_elements_value [OF ok(2) S ok(3)] have num: "length num = TOTAL R" "digits_ok num" "digits_value num = magnitude d"
    by (simp_all add: num_def magnitude_def)
  let ?I = "INTEGER_RANK R" and ?F = "FRACTION R"
  have T: "?I + ?F = TOTAL R" using R by (simp add: INTEGER_RANK_def dranks_ok_def)
  define fr where "fr = take ?F (drop ?I num)"
  have fr: "fr = drop ?I num" "length fr = ?F" "length (take ?I num) = ?I" using num(1) T by (simp_all add: fr_def)
  have digs: "digits_ok (take ?I num)" "digits_ok fr" using digits_ok_take_drop [OF num(2)] fr(1) by simp_all
  have "digits_value (take ?I num @ drop ?I num) = magnitude d" using num(3) by simp
  then have val: "magnitude d = digits_value (take ?I num) * 10 ^ ?F + digits_value fr"
    unfolding digits_value_append using fr by simp
  define ds where "ds = (if dropWhile (\<lambda>x. x = 0) (take ?I num) = [] then [ch CHR ''0''] else map digit_char (dropWhile (\<lambda>x. x = 0) (take ?I num)))"
  note i = integer_digits_text [OF digs(1), folded ds_def, unfolded fr(3)]
  define k where "k = rev (dropWhile (\<lambda>x. x = 0) (rev fr))"
  define es where "es = (if ?F \<noteq> 0 then map digit_char (if k = [] then take 1 fr else k) else [])"
  have f: "all_digits es" "text_value es * 10 ^ (?F - length es) = digits_value fr" "length es \<le> ?F"
  proof -
    have "?F \<noteq> 0 \<Longrightarrow> fr \<noteq> []" using fr(2) by auto
    then show "all_digits es" "text_value es * 10 ^ (?F - length es) = digits_value fr" "length es \<le> ?F"
      using fraction_digits_text [OF digs(2)] fr(2) unfolding es_def k_def by (cases "?F = 0"; simp)+
  qed
  define sg where "sg = (if negative d \<and> list_ex (\<lambda>x. x \<noteq> 0) (array d) then [ch CHR ''-''] else [])"
  define cs where "cs = (if ?F \<noteq> 0 then ds @ point # es else ds)"
  have nn: "list_ex (\<lambda>x. x \<noteq> 0) (array d) \<longleftrightarrow> magnitude d \<noteq> 0"
    unfolding magnitude_def value_of_zero_iff by (simp add: list_ex_iff list_all_iff)
  have room: "length ds + ?F \<le> TOTAL R + (if ?I = 0 then 1 else 0)" using i(5) T by (auto simp: max_def split: if_splits)
  have "number_str R d = Inr (sg @ cs)"
    using room fr(2) unfolding number_str_def Let_def num_def [symmetric] fr_def [symmetric] k_def [symmetric] sg_def [symmetric] ds_def [symmetric]
    by (cases "?I = 0") (auto simp: cs_def es_def sg_def)
  moreover have "decimal_text_of cs ds es" using i(1) f(1) by (auto simp: decimal_text_of_def cs_def es_def)
  moreover have "text_value (ds @ es) * 10 ^ ?F = magnitude d * 10 ^ length es"
  proof -
    have "(10 :: nat) ^ ?F = 10 ^ (?F - length es) * 10 ^ length es" unfolding power_add [symmetric] using f(3) by simp
    then have "digits_value fr * 10 ^ length es = text_value es * 10 ^ ?F" unfolding f(2) [symmetric] by (simp only: mult.assoc)
    moreover have "text_value (ds @ es) * 10 ^ ?F = text_value ds * 10 ^ ?F * 10 ^ length es + text_value es * 10 ^ ?F"
      by (simp add: digits_value_append) (simp add: algebra_simps)
    ultimately show ?thesis unfolding val distrib_right i(2) by simp
  qed
  moreover have "length (sg @ cs) \<le> TOTAL R + 2 + (if ?I = 0 then 1 else 0)"
    using room f(3) by (auto simp: sg_def cs_def)
  moreover have "sign_text sg" "sg = [ch CHR ''-''] \<longleftrightarrow> negative d \<and> magnitude d \<noteq> 0" unfolding sg_def nn by (simp_all add: sign_text_def)
  moreover have "cs \<noteq> []" using i(4) by (simp add: cs_def)
  ultimately show ?thesis using i(3) f(3) by blast
qed

lemma number_eqI:
  assumes "number_ok R c" "number_ok R d" "magnitude c = magnitude d" "negative c = negative d"
  shows "c = d"
proof -
  have "array c = array d"
    using value_of_inject [of "array c" "array d"] assms(1-3) by (simp add: number_ok_def magnitude_def)
  with assms(4) show ?thesis by simp
qed

lemma canonical_number_simps [simp]:
  "magnitude (canonical_number d) = magnitude d" "number_ok R (canonical_number d) = number_ok R d" "number_units (canonical_number d) = number_units d"
  "negative (canonical_number d) \<longleftrightarrow> negative d \<and> magnitude d \<noteq> 0"
  by (auto simp: canonical_number_def magnitude_def number_ok_def number_units_def)

text \<open>What \<open>number_str\<close> writes can be read with other ranks when they have room for the digits.\<close>

lemma number_convert_units:
  assumes R: "dranks_ok R" and D: "dranks_ok D" "number_ok D d" and F: "FRACTION D \<le> FRACTION R"
  shows "\<exists>s c. number_str D d = Inr s \<and> number_convert R D d = number_construct_text R s \<and>
    length s \<le> TOTAL D + 2 + (if INTEGER_RANK D = 0 then 1 else 0) \<and>
    (INTEGER_RANK D \<le> INTEGER_RANK R \<longrightarrow> number_construct_text R s = Inr c \<and> number_ok R c \<and>
      negative c = negative (canonical_number d) \<and> magnitude c = magnitude d * 10 ^ (FRACTION R - FRACTION D))"
proof -
  from number_str_text [OF D] obtain sg cs ds es where
    s: "number_str D d = Inr (sg @ cs)" "sign_text sg" "sg = [ch CHR ''-''] \<longleftrightarrow> negative d \<and> magnitude d \<noteq> 0" "cs \<noteq> []"
    "decimal_text_of cs ds es" "length (sg @ cs) \<le> TOTAL D + 2 + (if INTEGER_RANK D = 0 then 1 else 0)"
    "length (strip_zeros ds) \<le> INTEGER_RANK D" "length es \<le> FRACTION D"
    "text_value (ds @ es) * 10 ^ FRACTION D = magnitude d * 10 ^ length es" by blast
  have conv: "number_convert R D d = number_construct_text R (sg @ cs)" by (simp add: number_convert_def s(1))
  show ?thesis
  proof (cases "INTEGER_RANK D \<le> INTEGER_RANK R")
    case True
    have "length (trim_zeros es) \<le> FRACTION R" using trim_zeros_digits(3) [of es] s(8) F by linarith
    with read_number [OF R s(2,5,4)] s(7) True obtain c where
      c: "number_construct_text R (sg @ cs) = Inr c" "number_ok R c" "negative c = (sg = [ch CHR ''-''])"
      "magnitude c * 10 ^ length es = text_value (ds @ es) * 10 ^ FRACTION R" by auto
    have p: "(10 :: nat) ^ FRACTION R = 10 ^ FRACTION D * 10 ^ (FRACTION R - FRACTION D)" unfolding power_add [symmetric] using F by simp
    have "magnitude c * 10 ^ length es = magnitude d * 10 ^ (FRACTION R - FRACTION D) * 10 ^ length es"
      unfolding c(4) p mult.assoc [symmetric] s(9) by (simp only: mult_ac)
    then have "magnitude c = magnitude d * 10 ^ (FRACTION R - FRACTION D)" by simp
    with conv s c show ?thesis by (intro exI [of _ "sg @ cs"] exI [of _ c]) simp
  next
    case False
    with conv s show ?thesis by (intro exI [of _ "sg @ cs"]) simp
  qed
qed

end
