(* ===== verification/Number_Properties.thy ===== *)
theory Number_Properties
  imports Number_Text
begin

text \<open>
  The properties of the class \<^verbatim>\<open>Decimal\<close> of \<^verbatim>\<open>Generics/Decimal.hpp\<close> and \<^verbatim>\<open>Decimal.tpp\<close>, over the lemmas of
  \<open>Decimal_Number\<close>, \<open>Decimal_Division\<close>, \<open>Decimal_String\<close> and \<open>Number_Text\<close>, and the inputs on which the class
  departs from what its documentation says.
\<close>

section \<open>Constants and types\<close>




text \<open>A number of the class, or \<open>Overflow\<close>.\<close>

definition number_result :: "ranks \<Rightarrow> Decimal result \<Rightarrow> bool" where
  "number_result R r = (case r of Inr c \<Rightarrow> number_ok R c | Inl e \<Rightarrow> e = Overflow)"

lemma number_result_simps [simp]: "number_result R (Inr c) = number_ok R c" "number_result R (Inl e) \<longleftrightarrow> e = Overflow"
  by (simp_all add: number_result_def)


lemma number_text_errors:
  assumes R: "dranks_ok R"
  shows "case number_construct_text R s of Inr c \<Rightarrow> number_ok R c | Inl e \<Rightarrow> e = NotNumber \<or> e = Overflow"
proof (cases "number_construct_text R s")
  case (Inl e)
  then show ?thesis
    by (auto simp: number_construct_text_def number_digits_def Let_def split: if_splits prod.splits)
next
  case (Inr c)
  from read_number_form [OF this] obtain sg cs ds es where
    "s = sg @ cs" "sign_text sg" "decimal_text_of cs ds es" "cs \<noteq> []" by blast
  with read_number [OF R this(2-4)] Inr show ?thesis by (auto split: if_splits)
qed

subsection \<open>Texts of the documented format\<close>

lemma read_numeral:
  assumes R: "dranks_ok R" and n: "numeral_text s neg ds es"
  shows "length (trim_zeros es) \<le> FRACTION R \<Longrightarrow> length (strip_zeros ds) \<le> INTEGER_RANK R \<Longrightarrow>
      number_construct_text R s = Inr c \<longleftrightarrow> number_ok R c \<and> negative c = neg \<and>
        magnitude c * 10 ^ length es = text_value (ds @ es) * 10 ^ FRACTION R"
    "\<not> (length (trim_zeros es) \<le> FRACTION R \<and> length (strip_zeros ds) \<le> INTEGER_RANK R) \<Longrightarrow>
      number_construct_text R s = Inl Overflow"
proof -
  obtain sg cs where s: "s = sg @ cs" "sign_text sg" "neg = (sg = [ch CHR ''-''])" "decimal_text_of cs ds es" "ds \<noteq> []"
    using n unfolding numeral_text_def by (elim exE conjE) (rule that)
  have "cs \<noteq> []" using s(4,5) by (auto simp: decimal_text_of_def)
  note r = read_number [OF R s(2,4) this, folded s(1,3)]
  show "number_construct_text R s = Inl Overflow"
    if "\<not> (length (trim_zeros es) \<le> FRACTION R \<and> length (strip_zeros ds) \<le> INTEGER_RANK R)"
    using r unfolding if_not_P [OF that] .
  assume l: "length (trim_zeros es) \<le> FRACTION R" "length (strip_zeros ds) \<le> INTEGER_RANK R"
  from r [unfolded if_P [OF conjI [OF l]]] obtain c' where c': "number_construct_text R s = Inr c'" "number_ok R c'" "negative c' = neg"
    "magnitude c' * 10 ^ length es = text_value (ds @ es) * 10 ^ FRACTION R" by blast
  have "c = c'" if "number_ok R c" "negative c = neg" "magnitude c * 10 ^ length es = text_value (ds @ es) * 10 ^ FRACTION R"
  proof -
    have "magnitude c * 10 ^ length es = magnitude c' * 10 ^ length es" using that(3) c'(4) by simp
    then have "magnitude c = magnitude c'" by simp
    with that c' show ?thesis by (intro number_eqI) simp_all
  qed
  with c' show "number_construct_text R s = Inr c \<longleftrightarrow> number_ok R c \<and> negative c = neg \<and>
      magnitude c * 10 ^ length es = text_value (ds @ es) * 10 ^ FRACTION R" by auto
qed

lemma read_numeral_form:
  assumes "\<forall>sg cs. s = sg @ ch CHR ''.'' # cs \<longrightarrow> \<not> sign_text sg" "number_construct_text R s = Inr c"
  shows "\<exists>neg ds es. numeral_text s neg ds es"
proof -
  from read_number_form [OF assms(2)] obtain sg cs ds es where
    s: "s = sg @ cs" "sign_text sg" "cs \<noteq> []" "decimal_text_of cs ds es" by blast
  have "ds \<noteq> []" using s assms(1) by (auto simp: decimal_text_of_def)
  with s show ?thesis unfolding numeral_text_def by blast
qed

lemma read_numeral_iff:
  assumes R: "dranks_ok R" and p: "\<forall>sg cs. s = sg @ ch CHR ''.'' # cs \<longrightarrow> \<not> sign_text sg"
  shows "number_construct_text R s = Inr c \<longleftrightarrow>
    (\<exists>ds es. numeral_text s (negative c) ds es \<and> length (trim_zeros es) \<le> FRACTION R \<and>
      length (strip_zeros ds) \<le> INTEGER_RANK R \<and> number_ok R c \<and>
      magnitude c * 10 ^ length es = text_value (ds @ es) * 10 ^ FRACTION R)" (is "_ \<longleftrightarrow> ?rhs")
proof
  assume c: "number_construct_text R s = Inr c"
  from read_numeral_form [OF p c] obtain neg ds es where n: "numeral_text s neg ds es" by blast
  have l: "length (trim_zeros es) \<le> FRACTION R" "length (strip_zeros ds) \<le> INTEGER_RANK R"
    using read_numeral(2) [OF R n] c by fastforce+
  from c [unfolded read_numeral(1) [OF R n l]] l n show ?rhs by (intro exI [of _ ds] exI [of _ es]) simp
next
  assume ?rhs
  then obtain ds es where n: "numeral_text s (negative c) ds es" and l: "length (trim_zeros es) \<le> FRACTION R"
    "length (strip_zeros ds) \<le> INTEGER_RANK R" and c: "number_ok R c"
    "magnitude c * 10 ^ length es = text_value (ds @ es) * 10 ^ FRACTION R" by (elim exE conjE) (rule that)
  from c show "number_construct_text R s = Inr c" unfolding read_numeral(1) [OF R n l] by simp
qed

lemma numeral_text_chars:
  assumes "numeral_text s neg ds es"
  shows "\<forall>c\<in>set s. is_digit c \<or> c = ch CHR ''-'' \<or> c = ch CHR ''+'' \<or> c = ch CHR ''.''"
  using assms by (auto simp: numeral_text_def decimal_text_of_def sign_text_def all_digits_def)

lemma text_parts_length:
  assumes "text_parts cs = (integer, fraction, nothing)"
  shows "length integer \<le> length cs" "length fraction \<le> length cs"
proof -
  have t: "length (trim_zeros cs) \<le> length cs" unfolding trim_zeros_def by (metis length_dropWhile_le length_rev)
  have "length (takeWhile P (trim_zeros cs)) \<le> length cs" for P
    using t length_takeWhile_le [of P "trim_zeros cs"] by simp
  with t assms show "length integer \<le> length cs" "length fraction \<le> length cs"
    by (auto simp: text_parts_def Let_def split: if_splits)
qed

lemma read_overflow_length:
  assumes "number_construct_text R s = Inl Overflow"
  shows "FRACTION R < length s \<or> INTEGER_RANK R < length s"
proof -
  define cs where "cs = (if hd s = ch CHR ''-'' \<or> hd s = ch CHR ''+'' then tl s else s)"
  obtain integer fraction nothing where
    p: "text_parts (dropWhile (\<lambda>c. c = ch CHR ''0'') cs) = (integer, fraction, nothing)" by (metis surj_pair)
  have "number_digits R integer fraction = Inl Overflow"
    using assms [unfolded number_construct_text_def Let_def, folded cs_def, unfolded p prod.case]
    by (cases "number_digits R integer fraction") (auto split: if_splits)
  then have "FRACTION R < length fraction \<or> INTEGER_RANK R < length integer" by (auto simp: number_digits_def split: if_splits)
  moreover have "length (dropWhile (\<lambda>c. c = ch CHR ''0'') cs) \<le> length s"
    using length_dropWhile_le [of "\<lambda>c. c = ch CHR ''0''" cs] by (auto simp: cs_def)
  ultimately show ?thesis using text_parts_length [OF p] by linarith
qed

section \<open>Properties\<close>

text \<open>
  C27: addition and subtraction on arrays of elements of 18 digits are those of the integers: they
  return the exact sum and difference, well formed, when it has at most \<^verbatim>\<open>TOTAL_RANK\<close> digits and throw
  \<open>Overflow\<close> otherwise, without an out of bounds access or a failed assertion; a sum that was returned
  less one summand is the other summand; and the comparison operators are those of the integers.
\<close>

theorem number_add_sub_correct:
  assumes "dranks_ok R" "number_ok R a" "number_ok R b"
  shows "(case decimal_add R a b of
      Inr c \<Rightarrow> number_ok R c \<and> number_units c = number_units a + number_units b \<and>
        (\<exists>d. decimal_sub R c b = Inr d \<and> number_units d = number_units a)
    | Inl e \<Rightarrow> e = Overflow \<and> 10 ^ TOTAL R \<le> \<bar>number_units a + number_units b\<bar>) \<and>
    (case decimal_sub R a b of
      Inr c \<Rightarrow> number_ok R c \<and> number_units c = number_units a - number_units b
    | Inl e \<Rightarrow> e = Overflow \<and> 10 ^ TOTAL R \<le> \<bar>number_units a - number_units b\<bar>) \<and>
    (decimal_equal a b \<longleftrightarrow> number_units a = number_units b) \<and> (decimal_not_equal a b \<longleftrightarrow> number_units a \<noteq> number_units b) \<and>
    (decimal_lt R a b \<longleftrightarrow> number_units a < number_units b) \<and> (decimal_not_lt R a b \<longleftrightarrow> number_units a \<ge> number_units b) \<and>
    (decimal_gt R a b \<longleftrightarrow> number_units a > number_units b) \<and> (decimal_not_gt R a b \<longleftrightarrow> number_units a \<le> number_units b)"
proof (intro conjI)
  show "case decimal_add R a b of
      Inr c \<Rightarrow> number_ok R c \<and> number_units c = number_units a + number_units b \<and>
        (\<exists>d. decimal_sub R c b = Inr d \<and> number_units d = number_units a)
    | Inl e \<Rightarrow> e = Overflow \<and> 10 ^ TOTAL R \<le> \<bar>number_units a + number_units b\<bar>"
    using decimal_add_units [OF assms] fixed_point.minus_plus [OF number_fixed_point [OF assms(1)] assms(2,3)]
    by (cases "decimal_add R a b") auto
  show "case decimal_sub R a b of
      Inr c \<Rightarrow> number_ok R c \<and> number_units c = number_units a - number_units b
    | Inl e \<Rightarrow> e = Overflow \<and> 10 ^ TOTAL R \<le> \<bar>number_units a - number_units b\<bar>" by (rule decimal_sub_units [OF assms])
qed (simp_all add: number_units_order [OF assms] number_units_order [OF assms(1,3,2)] not_less
      decimal_not_equal_def decimal_not_lt_def decimal_gt_def decimal_not_gt_def)

text \<open>\<^verbatim>\<open>Decimal<uint64_t, 38, 18>\<close>: a borrow through two elements.\<close>

theorem number_add_sub_witness:
  "case decimal_sub \<lparr>TOTAL = 38, FRACTION = 18\<rparr> \<lparr>negative = False, array = [0, 0, 1]\<rparr> \<lparr>negative = False, array = [1, 0, 0]\<rparr> of
      Inr c \<Rightarrow> number_units c = 10 ^ 36 - 1 | Inl e \<Rightarrow> False"
proof -
  let ?R = "\<lparr>TOTAL = 38, FRACTION = 18\<rparr>" and ?a = "\<lparr>negative = False, array = [0, 0, 1]\<rparr>" and ?b = "\<lparr>negative = False, array = [1, 0, 0]\<rparr>"
  have ok: "dranks_ok ?R" "number_ok ?R ?a" "number_ok ?R ?b"
    by (simp_all add: dranks_ok_def number_ok_def SIZE_def DIGITS_PER_ELEMENT_def NB_def)
  have "number_units ?a = 10 ^ 36" "number_units ?b = 1" by (simp_all add: number_units_def NB_def)
  with number_add_sub_correct [OF ok] show ?thesis by (auto split: sum.splits)
qed

text \<open>
  C28: multiplication is exact rational arithmetic rounded once: the magnitude of the product is
  \<open>|a| * |b| / 10^FRACTION\<close> rounded down, to the nearest (halves up) or up, the sign is negative when
  the signs differ, and \<open>Overflow\<close> is thrown precisely when the rounded product has more than
  \<^verbatim>\<open>TOTAL_RANK\<close> digits, although the intermediate array has up to twice as many and loses its top
  digits.  Rounding up looks at one element of the fraction only, which is right for fractions of
  at most 18 digits.
\<close>

theorem number_mul_correct:
  assumes "dranks_ok R" "number_ok R a" "number_ok R b" "dmr = DMR_CEIL \<longrightarrow> FRACTION R \<le> 18"
  shows "let p = rounded_quotient dmr (magnitude a * magnitude b) (10 ^ FRACTION R)
    in if p < 10 ^ TOTAL R
       then \<exists>c. decimal_mul R a b dmr = Inr c \<and> number_ok R c \<and> magnitude c = p \<and> negative c = (negative a \<noteq> negative b)
       else decimal_mul R a b dmr = Inl Overflow"
  unfolding Let_def using assms(4) by (intro decimal_mul_units [OF assms(1-3) _ refl]) simp

text \<open>The smallest unit times one and a half is rounded up to two units.\<close>

theorem number_mul_witness:
  "\<exists>c. decimal_mul \<lparr>TOTAL = 38, FRACTION = 18\<rparr> \<lparr>negative = True, array = [1, 0, 0]\<rparr>
      \<lparr>negative = False, array = [500000000000000000, 1, 0]\<rparr> DMR_ROUND = Inr c \<and> magnitude c = 2 \<and> negative c"
proof -
  let ?R = "\<lparr>TOTAL = 38, FRACTION = 18\<rparr>" and ?a = "\<lparr>negative = True, array = [1, 0, 0]\<rparr>"
    and ?b = "\<lparr>negative = False, array = [500000000000000000, 1, 0]\<rparr>"
  have ok: "dranks_ok ?R" "number_ok ?R ?a" "number_ok ?R ?b"
    by (simp_all add: dranks_ok_def number_ok_def SIZE_def DIGITS_PER_ELEMENT_def NB_def)
  have p: "rounded_quotient DMR_ROUND (magnitude ?a * magnitude ?b) (10 ^ FRACTION ?R) = 2"
    by (simp add: rounded_quotient_def NB_def)
  from number_mul_correct [OF ok, of DMR_ROUND] show ?thesis unfolding p by auto
qed

text \<open>
  C29: division returns for all operands: the correction of each estimated quotient digit stops, and no
  assertion, array bound or hardware division fails on the way.  The quotient has the magnitude
  \<open>|a| * 10^FRACTION / |b|\<close>, rounded down or up, and a negative sign when the signs differ; \<open>Overflow\<close> is
  thrown precisely for a zero divisor or a quotient of more than \<^verbatim>\<open>TOTAL_RANK\<close> digits.  Division with
  a remainder returns whenever the quotient fits, and the remainder is what quotient times
  divisor, rounded down, leaves of the dividend.
\<close>

theorem number_div_correct:
  assumes "dranks_ok R" "number_ok R a" "number_ok R b"
  shows "(let q = rounded_quotient (mul_mode ddr) (magnitude a * 10 ^ FRACTION R) (magnitude b)
      in if magnitude b \<noteq> 0 \<and> q < 10 ^ TOTAL R
         then \<exists>c. decimal_div R a b ddr = Some (Inr c) \<and> number_ok R c \<and> magnitude c = q \<and>
           negative c = (negative a \<noteq> negative b)
         else decimal_div R a b ddr = Some (Inl Overflow)) \<and>
    (let q = magnitude a * 10 ^ FRACTION R div magnitude b
      in if magnitude b \<noteq> 0 \<and> q < 10 ^ TOTAL R
         then \<exists>c p r. decimal_div_remainder R a b = Some (Inr (c, r)) \<and> number_ok R c \<and> magnitude c = q \<and>
           negative c = (negative a \<noteq> negative b) \<and> decimal_mul R c b DMR_FLOOR = Inr p \<and> number_ok R r \<and>
           number_units a = number_units p + number_units r \<and> magnitude p \<le> magnitude a \<and>
           magnitude r * 10 ^ FRACTION R < magnitude b + 10 ^ FRACTION R
         else decimal_div_remainder R a b = Some (Inl Overflow))"
  unfolding Let_def by (intro conjI decimal_div_units [OF assms] decimal_div_remainder_units [OF assms])

text \<open>A dividend of four elements by a divisor of two.\<close>

theorem number_div_witness:
  "\<exists>c. decimal_div \<lparr>TOTAL = 38, FRACTION = 18\<rparr> \<lparr>negative = False, array = [0, 0, 7]\<rparr>
      \<lparr>negative = True, array = [5, 2, 0]\<rparr> DDR_CEIL = Some (Inr c) \<and> negative c \<and> magnitude c = 3499999999999999991250000000000000022"
proof -
  let ?R = "\<lparr>TOTAL = 38, FRACTION = 18\<rparr>" and ?a = "\<lparr>negative = False, array = [0, 0, 7]\<rparr>"
    and ?b = "\<lparr>negative = True, array = [5, 2, 0]\<rparr>"
  have ok: "dranks_ok ?R" "number_ok ?R ?a" "number_ok ?R ?b"
    by (simp_all add: dranks_ok_def number_ok_def SIZE_def DIGITS_PER_ELEMENT_def NB_def)
  have q: "rounded_quotient (mul_mode DDR_CEIL) (magnitude ?a * 10 ^ FRACTION ?R) (magnitude ?b) =
      3499999999999999991250000000000000022"
    by (simp add: rounded_quotient_def NB_def mul_mode_def)
  from number_div_correct [OF ok, of DDR_CEIL] show ?thesis unfolding q by (auto simp: NB_def)
qed

text \<open>
  C30: on every text that does not begin, behind its sign, with a point, the constructor from a text accepts
  exactly the documented format \<^verbatim>\<open>[+|-]abcd[.[efg]]\<close> with at most \<^verbatim>\<open>FRACTION_RANK\<close> fraction digits without
  the last zeros and at most \<^verbatim>\<open>INTEGER_RANK\<close> integer digits without the first zeros, and the number is
  the well formed one that the text denotes, exactly, negative when the sign is a minus.  A text of the
  format with more digits throws \<open>Overflow\<close>; any other text throws \<open>NotNumber\<close> or, when it is
  longer than one of the ranks, perhaps \<open>Overflow\<close>.  (A text that begins with a point is not of the format,
  and the code accepts some of them: \<open>point_is_zero\<close>.)
\<close>

theorem number_text_read:
  assumes "dranks_ok R" "\<forall>sg cs. s = sg @ ch CHR ''.'' # cs \<longrightarrow> \<not> sign_text sg"
  shows "(number_construct_text R s = Inr c \<longleftrightarrow>
      (\<exists>ds es. numeral_text s (negative c) ds es \<and> length (trim_zeros es) \<le> FRACTION R \<and>
        length (strip_zeros ds) \<le> INTEGER_RANK R \<and> number_ok R c \<and>
        magnitude c * 10 ^ length es = text_value (ds @ es) * 10 ^ FRACTION R)) \<and>
    (\<forall>neg ds es. numeral_text s neg ds es \<and>
      \<not> (length (trim_zeros es) \<le> FRACTION R \<and> length (strip_zeros ds) \<le> INTEGER_RANK R) \<longrightarrow>
      number_construct_text R s = Inl Overflow) \<and>
    ((\<nexists>neg ds es. numeral_text s neg ds es) \<longrightarrow>
      number_construct_text R s = Inl NotNumber \<or>
      number_construct_text R s = Inl Overflow \<and> (FRACTION R < length s \<or> INTEGER_RANK R < length s))"
proof (intro conjI allI impI)
  show "number_construct_text R s = Inr c \<longleftrightarrow>
      (\<exists>ds es. numeral_text s (negative c) ds es \<and> length (trim_zeros es) \<le> FRACTION R \<and>
        length (strip_zeros ds) \<le> INTEGER_RANK R \<and> number_ok R c \<and>
        magnitude c * 10 ^ length es = text_value (ds @ es) * 10 ^ FRACTION R)"
    by (rule read_numeral_iff [OF assms])
  show "number_construct_text R s = Inl Overflow" if "numeral_text s neg ds es \<and>
      \<not> (length (trim_zeros es) \<le> FRACTION R \<and> length (strip_zeros ds) \<le> INTEGER_RANK R)" for neg ds es
    using read_numeral(2) [OF assms(1)] that by blast
  show "number_construct_text R s = Inl NotNumber \<or>
      number_construct_text R s = Inl Overflow \<and> (FRACTION R < length s \<or> INTEGER_RANK R < length s)"
    if "\<nexists>neg ds es. numeral_text s neg ds es"
    using number_text_errors [OF assms(1), of s] that read_numeral_form [OF assms(2)] read_overflow_length [of R s]
    by (cases "number_construct_text R s") auto
qed

text \<open>The texts \<^verbatim>\<open>-012.50\<close> and \<^verbatim>\<open>1x\<close>.\<close>

theorem number_text_read_witness:
  "number_construct_text \<lparr>TOTAL = 20, FRACTION = 2\<rparr> (map ch ''-012.50'') = Inr \<lparr>negative = True, array = [1250, 0]\<rparr> \<and>
   number_construct_text \<lparr>TOTAL = 20, FRACTION = 2\<rparr> (map ch ''1x'') = Inl NotNumber"
proof
  let ?R = "\<lparr>TOTAL = 20, FRACTION = 2\<rparr>" and ?c = "\<lparr>negative = True, array = [1250, 0]\<rparr>"
  have R: "dranks_ok ?R" by (simp add: dranks_ok_def)
  have "decimal_text_of (map ch ''012.50'') (map ch ''012'') (map ch ''50'')"
    by (simp add: decimal_text_of_def digit_of_def)
  then have n: "numeral_text (map ch ''-012.50'') True (map ch ''012'') (map ch ''50'')"
    unfolding numeral_text_def sign_text_def by (intro conjI exI [of _ "[45]"] exI [of _ "map ch ''012.50''"]) simp_all
  have p: "\<forall>sg cs. map ch ''-012.50'' = sg @ ch CHR ''.'' # cs \<longrightarrow> \<not> sign_text sg"
    "\<forall>sg cs. map ch ''1x'' = sg @ ch CHR ''.'' # cs \<longrightarrow> \<not> sign_text sg" by (auto simp: sign_text_def)
  have "length (trim_zeros (map ch ''50'')) \<le> 2" "length (strip_zeros (map ch ''012'')) \<le> 18"
    "text_value (map ch ''012'' @ map ch ''50'') = 1250"
    by (simp_all add: trim_zeros_def strip_zeros_def digit_of_def digits_value_def)
  moreover have "number_ok ?R ?c" by (simp add: number_ok_def SIZE_def DIGITS_PER_ELEMENT_def NB_def)
  ultimately have "\<exists>ds es. numeral_text (map ch ''-012.50'') (negative ?c) ds es \<and> length (trim_zeros es) \<le> FRACTION ?R \<and>
      length (strip_zeros ds) \<le> INTEGER_RANK ?R \<and> number_ok ?R ?c \<and>
      magnitude ?c * 10 ^ length es = text_value (ds @ es) * 10 ^ FRACTION ?R" using n
    by (intro exI [of _ "map ch ''012''"] exI [of _ "map ch ''50''"]) (simp add: INTEGER_RANK_def NB_def)
  with number_text_read [OF R p(1), of ?c] show "number_construct_text ?R (map ch ''-012.50'') = Inr ?c" by blast
  have "\<nexists>neg ds es. numeral_text (map ch ''1x'') neg ds es"
  proof (intro notI, elim exE)
    fix neg ds es
    assume "numeral_text (map ch ''1x'') neg ds es"
    then have "\<forall>c\<in>set (map ch ''1x''). is_digit c \<or> c = ch CHR ''-'' \<or> c = ch CHR ''+'' \<or> c = ch CHR ''.''"
      by (rule numeral_text_chars)
    then show False by (simp add: digit_of_def)
  qed
  with number_text_read [OF R p(2), of ?c] show "number_construct_text ?R (map ch ''1x'') = Inl NotNumber"
    by (auto simp: INTEGER_RANK_def)
qed

text \<open>
  C31: \<^verbatim>\<open>str\<close> stays within its buffer, and the constructor reads the text back as the same number,
  with the sign of zero dropped; converting to a class with ranks that are not shorter keeps the
  number, exactly; and \<^verbatim>\<open>unpack\<close> reads back what \<^verbatim>\<open>pack\<close> writes, in 8 bytes for each element and one.
\<close>

theorem number_text_roundtrip:
  assumes "dranks_ok R" "number_ok R d" "dranks_ok R'" "FRACTION R \<le> FRACTION R'" "INTEGER_RANK R \<le> INTEGER_RANK R'"
  shows "\<exists>s c. number_str R d = Inr s \<and> length s \<le> TOTAL R + 2 + (if INTEGER_RANK R = 0 then 1 else 0) \<and>
    number_construct_text R s = Inr (canonical_number d) \<and> number_units (canonical_number d) = number_units d \<and>
    number_convert R' R d = Inr c \<and> number_ok R' c \<and>
    number_units c = number_units d * 10 ^ (FRACTION R' - FRACTION R) \<and>
    number_unpack R (number_pack d) = d \<and> length (number_pack d) = 8 * SIZE R + 1"
proof -
  from number_convert_units [OF assms(1,1,2)] obtain s c where
    s: "number_str R d = Inr s" "length s \<le> TOTAL R + 2 + (if INTEGER_RANK R = 0 then 1 else 0)" and
    c: "number_construct_text R s = Inr c" "number_ok R c" "negative c = negative (canonical_number d)" "magnitude c = magnitude d"
    by auto
  have "c = canonical_number d" by (rule number_eqI) (use c assms(2) in simp_all)
  moreover from number_convert_units [OF assms(3,1,2,4)] assms(5) obtain c' where
    "number_convert R' R d = Inr c'" "number_ok R' c'" "negative c' = negative (canonical_number d)"
    "magnitude c' = magnitude d * 10 ^ (FRACTION R' - FRACTION R)" by (auto simp del: canonical_number_simps)
  moreover from this(3,4) have "number_units c' = number_units d * 10 ^ (FRACTION R' - FRACTION R)"
    by (auto simp: number_units_def)
  moreover have "number_unpack R (number_pack d) = d" "length (number_pack d) = 8 * SIZE R + 1"
    using number_unpack_pack [of d R] assms(2) by (simp_all add: number_ok_def)
  ultimately show ?thesis using s c(1) by auto
qed

text \<open>A number of ranks 20 and 18 as one of ranks 38 and 19.\<close>

theorem number_text_roundtrip_witness:
  "\<exists>s. number_str \<lparr>TOTAL = 20, FRACTION = 18\<rparr> \<lparr>negative = True, array = [25, 1]\<rparr> = Inr s \<and>
     number_construct_text \<lparr>TOTAL = 20, FRACTION = 18\<rparr> s = Inr \<lparr>negative = True, array = [25, 1]\<rparr>"
  using number_text_roundtrip [of "\<lparr>TOTAL = 20, FRACTION = 18\<rparr>" "\<lparr>negative = True, array = [25, 1]\<rparr>" "\<lparr>TOTAL = 38, FRACTION = 19\<rparr>"]
  by (auto simp: dranks_ok_def number_ok_def SIZE_def DIGITS_PER_ELEMENT_def NB_def INTEGER_RANK_def canonical_number_def)



text \<open>
  Conversions: the constructor from an integer and a fraction, for ranks where the top element is
  looked at, gives \<open>v + f / 10^FRACTION\<close> or throws \<open>Overflow\<close> precisely when a part has too many digits;
  the constructor from an integer and a power of ten gives \<open>v / 10^pow\<close> rounded down;
  \<^verbatim>\<open>integer\<close> returns the integer part with its sign when the type can hold it, and throws \<open>Overflow\<close> when
  not and \<open>Sign\<close> for a negative value of an unsigned type; \<^verbatim>\<open>floor\<close> and \<^verbatim>\<open>ceil\<close> move the magnitude down
  or up to a multiple of the place asked for and keep the sign.
\<close>

lemma number_conversions:
  assumes "dranks_ok R" "number_ok R d" "parts_checked R" "0 \<le> v" "0 \<le> f" "f < 2 ^ 64"
    "2 \<le> it_bits T" "it_bits T \<le> 64" "(if it_signed T then - it_max T else 0) \<le> w" "w \<le> it_max T" "pow < it_digits10 T + FRACTION R"
    "rational_checked R (FRACTION R - pow)"
  shows "(if f < 10 ^ FRACTION R \<and> v < 10 ^ INTEGER_RANK R
      then \<exists>c. number_construct_parts R neg v f = Inr c \<and> number_ok R c \<and> negative c = neg \<and>
        int (magnitude c) = v * 10 ^ FRACTION R + f
      else number_construct_parts R neg v f = Inl Overflow) \<and>
    (let m = \<bar>w\<bar> * 10 ^ FRACTION R div 10 ^ pow
     in if m < 10 ^ TOTAL R
        then \<exists>c. number_construct_rational R T w pow = Inr c \<and> number_ok R c \<and> int (magnitude c) = m \<and> negative c = (w < 0)
        else number_construct_rational R T w pow = Inl Overflow) \<and>
    (let n = int (magnitude d div 10 ^ FRACTION R)
     in number_integer R T d =
        (if it_max T < n then Inl Overflow else if negative d \<and> n \<noteq> 0 \<and> \<not> it_signed T then Inl Sign
         else Inr (if negative d then - n else n))) \<and>
    (let k = 10 ^ (FRACTION R - p); up = rounded_quotient DMR_CEIL (magnitude d) k * k
     in magnitude (number_floor R p d) = magnitude d div k * k \<and> negative (number_floor R p d) = negative d \<and>
        (if up < 10 ^ TOTAL R
         then \<exists>c. number_ceil R p d = Inr c \<and> number_ok R c \<and> magnitude c = up \<and> negative c = negative d
         else number_ceil R p d = Inl Overflow))"
  using number_construct_parts_units [OF assms(1,3-6)] number_construct_rational_units [OF assms(1,7-12), unfolded scaled_def]
    number_integer_units [OF assms(1,7,8,2)] number_floor_units(2,3) [OF assms(1,2)] number_ceil_units [OF assms(1,2)]
  unfolding Let_def by blast

lemma number_conversions_example:
  "\<exists>c. number_construct_parts \<lparr>TOTAL = 38, FRACTION = 18\<rparr> True 12 345 = Inr c \<and> magnitude c = 12000000000000000345 \<and> negative c"
proof -
  let ?R = "\<lparr>TOTAL = 38, FRACTION = 18\<rparr>"
  have "dranks_ok ?R" "number_ok ?R \<lparr>negative = False, array = [0, 0, 0]\<rparr>" "parts_checked ?R" "rational_checked ?R (FRACTION ?R - 0)"
    by (simp_all add: dranks_ok_def number_ok_def SIZE_def DIGITS_PER_ELEMENT_def parts_checked_def FRACTION_END_def rational_checked_def)
  note c = number_conversions [OF this(1-3), of 12 345 uint64_type 0 0, THEN conjunct1, OF _ _ _ _ _ _ _ _ this(4), of True]
  have "\<exists>c. number_construct_parts ?R True 12 345 = Inr c \<and> number_ok ?R c \<and> negative c \<and>
      int (magnitude c) = 12 * 10 ^ 18 + 345"
    using c by (simp add: uint64_type_def it_max_def INTEGER_RANK_def)
  then show ?thesis by (auto simp: nat_eq_iff2)
qed

section \<open>Departures\<close>

text \<open>
  Ranks 10 and 2 need one element, and the constructors from parts and from a rational do not look at
  its limit: twelve digits are stored, and the number is larger than \<^verbatim>\<open>MAXIMUM\<close>.
\<close>

lemma parts_unchecked:
  "number_construct_parts \<lparr>TOTAL = 10, FRACTION = 2\<rparr> False (10 ^ 12) 0 = Inr \<lparr>negative = False, array = [10 ^ 14]\<rparr>"
  "number_construct_rational \<lparr>TOTAL = 10, FRACTION = 2\<rparr> uint64_type (10 ^ 12) 0 = Inr \<lparr>negative = False, array = [10 ^ 14]\<rparr>"
  "number_maximum \<lparr>TOTAL = 10, FRACTION = 2\<rparr> = \<lparr>negative = False, array = [9999999999]\<rparr>"
  by (simp_all add: number_construct_parts_def number_construct_rational_def rational_elements_def number_maximum_def
      SIZE_def FRACTION_END_def FRACTION_REMAINDER_def FRACTION_OVER_def INTEGER_MAX_OVER_def INTEGER_RANK_def
      DIGITS_PER_ELEMENT_def BASE_def Pow10_power exceeds_def uint64_type_def split_integer_def it_max_def it_digits10_def
      power_10_simps Let_def)

text \<open>
  Where \<^verbatim>\<open>TOTAL_RANK\<close> and \<^verbatim>\<open>FRACTION_RANK\<close> are one multiple of 18 the constructor of \<^verbatim>\<open>ZERO\<close> writes
  behind the array.
\<close>

lemma zero_out_of_bounds: "number_construct_parts \<lparr>TOTAL = 18, FRACTION = 18\<rparr> False 0 0 = Inl OutOfBounds"
  by (simp add: number_construct_parts_def SIZE_def FRACTION_END_def FRACTION_REMAINDER_def
      DIGITS_PER_ELEMENT_def BASE_def Pow10_power exceeds_def)

text \<open>Rounding up misses what is below the last element of the fraction.\<close>

lemma ceil_misses_low_digits:
  "decimal_mul \<lparr>TOTAL = 40, FRACTION = 36\<rparr> (decimal_epsilon \<lparr>TOTAL = 40, FRACTION = 36\<rparr>)
     (decimal_epsilon \<lparr>TOTAL = 40, FRACTION = 36\<rparr>) DMR_CEIL = Inr \<lparr>negative = False, array = [0, 0, 0]\<rparr>"
proof -
  let ?R = "\<lparr>TOTAL = 40, FRACTION = 36\<rparr>"
  have s: "SIZE ?R = 3" "TMP_SIZE ?R = 5" "FRACTION_END ?R = 2" "FRACTION_REMAINDER ?R = 1" "TMP_INTEGER_MAX_OVER ?R = 10000"
    "BASE = 1000000000000000000" "MAX_SUM = 18"
    by (simp_all add: SIZE_def TMP_SIZE_def TMP_TOTAL_RANK_def FRACTION_END_def FRACTION_REMAINDER_def TMP_INTEGER_MAX_OVER_def
        INTEGER_RANK_def MAX_SUM_def DIGITS_PER_ELEMENT_def BASE_def Pow10_power power_10_simps)
  have m: "mul_elements 1 1 = Some (1, 0)" by (simp add: mul_elements_def mul_elem_def mulq_def divq_def s)
  have z: "replicate 5 0 = [0, 0, 0, 0, 0 :: uint64]" "replicate 2 0 = [0, 0 :: uint64]" by (simp_all add: numeral_eq_Suc)
  have a: "tmp_add ?R 1 0 [0, 0, 0, 0, 0] = Inr (False, [1, 0, 0, 0, 0])"
    by (simp add: tmp_add_def s carry_loop.simps [of ?R "[1, 0, 0, 0, 0]" "Suc 0" 0])
  have "dranks_ok ?R" by (simp add: dranks_ok_def)
  from decimal_epsilon_value [OF this] show ?thesis by (simp add: decimal_mul_def s m z a tmp_ceil_def tmp_export_def)
qed

text \<open>\<^verbatim>\<open>operator +=\<close> has changed the object when it throws.\<close>

lemma plus_assign_overwrites:
  "decimal_plus_assign \<lparr>TOTAL = 18, FRACTION = 2\<rparr> \<lparr>negative = False, array = [999999999999999999]\<rparr> \<lparr>negative = False, array = [1]\<rparr> =
     (\<lparr>negative = False, array = [0]\<rparr>, Inl Overflow)"
  by code_simp

text \<open>A point alone is read as zero.\<close>

lemma point_is_zero:
  "number_construct_text \<lparr>TOTAL = 18, FRACTION = 2\<rparr> [ch CHR ''.''] = Inr \<lparr>negative = False, array = [0]\<rparr>"
  by (simp add: number_construct_text_def text_parts_def trim_zeros_def SIZE_def DIGITS_PER_ELEMENT_def)

text \<open>Zero is not nonpositive, minus zero is not nonnegative.\<close>

lemma sign_only: "\<not> is_nonpositive \<lparr>negative = False, array = [0]\<rparr>" "\<not> is_nonnegative \<lparr>negative = True, array = [0]\<rparr>"
  by (simp_all add: is_nonpositive_def is_nonnegative_def)

end
