(* ===== verification/Punycode.thy ===== *)
theory Punycode
  imports Ascii_String_Manip Utf8_Handler
begin

text \<open>
  \<^verbatim>\<open>punycode_encode\<close> and \<^verbatim>\<open>punycode_decode\<close> of \<^verbatim>\<open>src/src/String/StringManip.cpp\<close>, which write a wide string
  in the letters, digits and hyphens of a host name and read it back.  The values of type \<^verbatim>\<open>wchar_t\<close>
  are integers; \<open>wch\<close> is the wrap-around of that type, applied after every operation that can leave
  its range.  The loops that may run on without an end are partial functions with the value \<open>None\<close>
  there; reading outside the table of digits and dividing by zero are errors.
\<close>

section \<open>Operations\<close>

definition wch :: "int \<Rightarrow> int" where
  "wch x = signed_take_bit 31 x"

definition c_div :: "int \<Rightarrow> int \<Rightarrow> int result" where
  "c_div a b = (if b = 0 then Inl DivisionByZero else Inr (a sdiv b))"

definition PUNYCODE_DECODE :: "int list" where
  "PUNYCODE_DECODE =
     [26, 27, 28, 29, 30, 31, 32, 33, 34, 35, 36, 36, 36, 36, 36,
      36, 36,  0,  1,  2,  3,  4,  5,  6,  7,  8,  9, 10, 11, 12,
      13, 14, 15, 16, 17, 18, 19, 20, 21, 22, 23, 24, 25, 36, 36,
      36, 36, 36, 36,  0,  1,  2,  3,  4,  5,  6,  7,  8,  9, 10,
      11, 12, 13, 14, 15, 16, 17, 18, 19, 20, 21, 22, 23, 24, 25]"

definition PUNYCODE_ENCODE :: bytes where
  "PUNYCODE_ENCODE = chars ''abcdefghijklmnopqrstuvwxyz0123456789'' @ [0]"

definition MAX_WCHAR_T :: int where
  "MAX_WCHAR_T = 2 ^ 31 - 1"

fun adapt_loop :: "int \<Rightarrow> int \<Rightarrow> int \<times> int" where
  "adapt_loop delta k = (if delta > 455 then adapt_loop (delta div 35) (wch (k + 36)) else (delta, k))"

declare adapt_loop.simps [simp del]

definition adapt :: "int \<Rightarrow> int \<Rightarrow> bool \<Rightarrow> int result" where
  "adapt delta numpoints firsttime =
     (let delta = (if firsttime then delta sdiv 700 else drop_bit 1 delta)
      in rbind (c_div delta numpoints) (\<lambda>d.
        let (delta, k) = adapt_loop (wch (delta + d)) 0
        in rmap (\<lambda>r. wch (k + r)) (c_div (wch (36 * delta)) (wch (delta + 38)))))"

definition threshold :: "int \<Rightarrow> int \<Rightarrow> int" where
  "threshold k bias = (if k \<le> bias then 1 else if k \<ge> wch (bias + 26) then 26 else wch (k - bias))"

subsection \<open>Encoding\<close>

text \<open>The first loop; \<open>False\<close> where the function gives up.\<close>

fun encode_basic :: "int list \<Rightarrow> bytes \<Rightarrow> bool \<times> bytes" where
  "encode_basic [] out = (True, out)"
| "encode_basic (WCH # input) out =
     (if WCH < 0 then (False, out)
      else encode_basic input (if WCH < 0x80 then out @ [to_lower (word_of_int WCH)] else out))"

definition encode_digit :: "int \<Rightarrow> byte result" where
  "encode_digit i = (if 0 \<le> i \<and> i < 37 then Inr (PUNYCODE_ENCODE ! nat i) else Inl OutOfBounds)"

text \<open>The digits of a number of variable length.\<close>

partial_function (option) put_integer :: "int \<Rightarrow> int \<Rightarrow> int \<Rightarrow> bytes result option" where
  "put_integer q k bias =
     (let t = threshold k bias
      in if q < t then Some (rmap (\<lambda>d. [d]) (encode_digit q))
         else then_do (Some (encode_digit (t + (q - t) smod (36 - t)))) (\<lambda>d.
                then_do (put_integer ((q - t) sdiv (36 - t)) (wch (k + 36)) bias) (\<lambda>ds. Some (Inr (d # ds)))))"

record encoder =
  e_delta :: int
  e_bias :: int
  e_handled :: nat
  e_firsttime :: bool
  e_encoded :: bytes

definition least_found :: "int \<Rightarrow> int list \<Rightarrow> int" where
  "least_found not_less_than input =
     foldl (\<lambda>least c. if c \<ge> not_less_than \<and> c < least then c else least) MAX_WCHAR_T input"

text \<open>One pass over the input, for the characters equal to \<open>not_less_than\<close>.\<close>

fun encode_pass :: "int \<Rightarrow> int list \<Rightarrow> encoder \<Rightarrow> encoder result option" where
  "encode_pass not_less_than [] e = Some (Inr e)"
| "encode_pass not_less_than (c # input) e =
     (if c < not_less_than then encode_pass not_less_than input (e\<lparr>e_delta := wch (e_delta e + 1)\<rparr>)
      else if c = not_less_than then
        then_do (put_integer (e_delta e) 36 (e_bias e)) (\<lambda>digits.
          then_do (Some (adapt (e_delta e) (wch (int (e_handled e + 1))) (e_firsttime e))) (\<lambda>b.
            encode_pass not_less_than input
              \<lparr>e_delta = 0, e_bias = b, e_handled = e_handled e + 1, e_firsttime = False, e_encoded = e_encoded e @ digits\<rparr>))
      else encode_pass not_less_than input e)"

partial_function (option) encode_loop :: "int list \<Rightarrow> int \<Rightarrow> encoder \<Rightarrow> encoder result option" where
  "encode_loop input not_less_than e =
     (if e_handled e < length input then
        let least = least_found not_less_than input;
            e = e\<lparr>e_delta := wch (e_delta e + wch (wch (least - not_less_than) * wch (int (e_handled e + 1))))\<rparr>
        in then_do (encode_pass least input e) (\<lambda>e.
             encode_loop input (wch (least + 1)) (e\<lparr>e_delta := wch (e_delta e + 1)\<rparr>))
      else Some (Inr e))"

definition punycode_encode :: "wchar list \<Rightarrow> (bool \<times> bytes) result option" where
  "punycode_encode input =
     (let (ok, out) = encode_basic (map sint input) []
      in if \<not> ok then Some (Inr (False, out))
         else then_do (encode_loop (map sint input) 0x80
                \<lparr>e_delta = 0, e_bias = 72, e_handled = length out, e_firsttime = True,
                 e_encoded = if out \<noteq> [] then out @ [ch CHR ''-''] else out\<rparr>)
              (\<lambda>e. Some (Inr (True, e_encoded e))))"

subsection \<open>Decoding\<close>

text \<open>The digits of one number: \<^verbatim>\<open>out\<close> with the number added and the characters behind it.\<close>

fun take_integer :: "bytes \<Rightarrow> int \<Rightarrow> int \<Rightarrow> int \<Rightarrow> int \<Rightarrow> (int \<times> bytes) option" where
  "take_integer [] out w k bias = None"
| "take_integer (c # input) out w k bias =
     (let digit = sint c - 48;
          digit = (if 0 \<le> digit \<and> digit \<le> 74 then PUNYCODE_DECODE ! nat digit else 36)
      in if digit \<ge> 36 then None
         else
           let out = (out + wch (digit * w)) mod 2 ^ 64; t = threshold k bias
           in if digit < t then Some (out, input) else take_integer input out (wch (w * (36 - t))) (wch (k + 36)) bias)"

lemma take_integer_shorter: "take_integer input out w k b = Some (out', rest) \<Longrightarrow> length rest < length input"
proof (induction input arbitrary: out w k)
  case (Cons c input)
  then show ?case by (force simp: Let_def intro: less_SucI split: if_splits)
qed simp

text \<open>The character \<open>decoded\<close> at position \<open>out\<close>, behind which \<^verbatim>\<open>memmove\<close> has moved the rest by one place.\<close>

definition insert_decoded :: "nat \<Rightarrow> int \<Rightarrow> wchar list \<Rightarrow> wchar list" where
  "insert_decoded out decoded output =
     (take out output @ take 1 (drop out output) @ take (length output - 1 - out) (drop out output))
       [out := word_of_int decoded]"

function decode_loop :: "bytes \<Rightarrow> int \<Rightarrow> int \<Rightarrow> int \<Rightarrow> wchar list \<Rightarrow> (bool \<times> wchar list) result" where
  "decode_loop input out decoded bias output =
     (if input = [] then Inr (True, output)
      else
        case take_integer input out 1 36 bias of
          None \<Rightarrow> Inr (False, output)
        | Some (out', input) \<Rightarrow>
            let output = output @ [0]; n = int (length output)
            in rbind (adapt (wch (out' - out)) (wch n) (out = 0)) (\<lambda>bias.
                 let decoded = wch (decoded + out' div n); pos = out' mod n
                 in decode_loop input (pos + 1) decoded bias (insert_decoded (nat pos) decoded output)))"
  by pat_completeness auto
termination by (relation "measure (\<lambda>(input, out, decoded, bias, output). length input)") (auto dest: take_integer_shorter)

declare decode_loop.simps [simp del]

text \<open>The characters before the last hyphen, as far as they are below 0x80, and whether all are.\<close>

fun decode_basic :: "bytes \<Rightarrow> bool \<times> wchar list" where
  "decode_basic [] = (True, [])"
| "decode_basic (c # input) =
     (if c AND 0x80 \<noteq> 0 then (False, []) else let (ok, output) = decode_basic input in (ok, ucast c # output))"

definition punycode_decode :: "bytes \<Rightarrow> (bool \<times> wchar list) result" where
  "punycode_decode input =
     (let digits = rev (takeWhile (\<lambda>c. c \<noteq> ch CHR ''-'') (rev input));
          basic = take (length input - length digits - 1) input;
          (ok, output) = (if ch CHR ''-'' \<in> set input then decode_basic basic else (True, []))
      in if \<not> ok then Inr (False, output) else decode_loop digits 0 0x80 72 output)"

section \<open>Arithmetic without wrap-around\<close>

lemma wch_id: "- (2 ^ 31) \<le> x \<Longrightarrow> x < 2 ^ 31 \<Longrightarrow> wch x = x"
  by (simp add: wch_def signed_take_bit_int_eq_self)

lemma wch_small: "0 \<le> x \<Longrightarrow> x < 2 ^ 31 \<Longrightarrow> wch x = x"
  by (rule wch_id) simp_all

lemma wch_mod: "wch x = (x + 2 ^ 31) mod 2 ^ 32 - 2 ^ 31"
  by (simp add: wch_def signed_take_bit_eq_take_bit_shift take_bit_eq_mod)

lemma wch_mult: "wch (d * wch w) = wch (d * w)"
proof -
  define c where "c = (w + 2 ^ 31) div 2 ^ 32"
  have *: "wch w = w - 2 ^ 32 * c" unfolding wch_mod c_def minus_mult_div_eq_mod [symmetric] by simp
  have "d * wch w + 2 ^ 31 = d * w + 2 ^ 31 + 2 ^ 32 * (- (d * c))" unfolding * by (simp add: right_diff_distrib)
  then have "(d * wch w + 2 ^ 31) mod 2 ^ 32 = (d * w + 2 ^ 31) mod 2 ^ 32" by (simp only: mod_mult_self2)
  then show ?thesis unfolding wch_mod [of "d * wch w"] wch_mod [of "d * w"] by simp
qed

lemma adapt_loop_bounds:
  "0 \<le> x \<Longrightarrow> 0 \<le> k \<Longrightarrow> k + x div 10 \<le> 2 ^ 29 \<Longrightarrow>
   \<exists>x' k'. adapt_loop x k = (x', k') \<and> 0 \<le> x' \<and> x' \<le> 455 \<and> 0 \<le> k' \<and> k' \<le> 2 ^ 29"
proof (induction x k rule: adapt_loop.induct)
  case (1 x k)
  show ?case
  proof (cases "x > 455")
    case True
    then have "x div 35 div 10 + 36 \<le> x div 10" by linarith
    moreover from this 1(4) 1(2,3) have "wch (k + 36) = k + 36" by (intro wch_small) auto
    ultimately show ?thesis using 1 True by (auto simp: adapt_loop.simps [of x k])
  next
    case False
    with 1 show ?thesis by (auto simp: adapt_loop.simps [of x k])
  qed
qed

lemma adapt_bounds:
  assumes "0 \<le> d" "d < 2 ^ 31" "0 < n" "n < 2 ^ 31"
  shows "\<exists>b. adapt d n f = Inr b \<and> 0 \<le> b \<and> b \<le> 2 ^ 30"
proof -
  define x where "x = (if f then d div 700 else d div 2)"
  have x: "0 \<le> x" "x < 2 ^ 30" using assms(1,2) by (auto simp: x_def)
  have dx: "(if f then d sdiv 700 else drop_bit 1 d) = x" using assms(1) by (simp add: x_def drop_bit_eq_div sdiv_nonneg)
  have q: "x sdiv n = x div n" "0 \<le> x div n" "x div n \<le> x"
    using x(1) assms(3) zdiv_mono2 [of x 1 n] by (simp_all add: pos_imp_zdiv_nonneg_iff)
  have "(x + x div n) div 10 \<le> 2 ^ 29" using x q by simp
  then obtain x' k where l: "adapt_loop (x + x div n) 0 = (x', k)" "0 \<le> x'" "x' \<le> 455" "0 \<le> k" "k \<le> 2 ^ 29"
    using adapt_loop_bounds [of "x + x div n" 0] x q by auto
  have w: "wch (x + x div n) = x + x div n" "wch (36 * x') = 36 * x'" "wch (x' + 38) = x' + 38"
    using x q l by (intro wch_small; simp)+
  have r: "(36 * x') sdiv (x' + 38) = 36 * x' div (x' + 38)" "0 \<le> 36 * x' div (x' + 38)"
    using l by (simp_all add: pos_imp_zdiv_nonneg_iff sdiv_nonneg)
  have r': "36 * x' div (x' + 38) \<le> 36" using l zdiv_mono1 [of "36 * x'" "36 * (x' + 38)" "x' + 38"]
    by (simp only: nonzero_mult_div_cancel_right) simp
  have "wch (k + 36 * x' div (x' + 38)) = k + 36 * x' div (x' + 38)" using l r r' by (intro wch_small) simp_all
  then show ?thesis unfolding adapt_def Let_def dx using assms(3) l q w r r'
    by (simp add: c_div_def)
qed

lemma threshold_bounds:
  assumes "0 \<le> k" "k \<le> 2 ^ 30" "0 \<le> b" "b \<le> 2 ^ 30"
  shows "1 \<le> threshold k b" "threshold k b \<le> 26"
proof -
  have "wch (b + 26) = b + 26" "k > b \<Longrightarrow> wch (k - b) = k - b" using assms by (simp_all add: wch_small)
  then show "1 \<le> threshold k b" "threshold k b \<le> 26" by (auto simp: threshold_def)
qed

section \<open>Numbers of variable length\<close>

definition digit_decodes :: "nat \<Rightarrow> bool" where
  "digit_decodes i \<longleftrightarrow> (let d = PUNYCODE_ENCODE ! i; x = sint d - 48
     in 0 \<le> x \<and> x \<le> 74 \<and> PUNYCODE_DECODE ! nat x = int i)"

lemma encode_digit_decode:
  assumes "0 \<le> i" "i < 36"
  obtains d where "encode_digit i = Inr d" "0 \<le> sint d - 48" "sint d - 48 \<le> 74" "PUNYCODE_DECODE ! nat (sint d - 48) = i"
proof -
  have "list_all digit_decodes [0..<36]" by code_simp
  then have "digit_decodes (nat i)" using assms unfolding list_all_iff by auto
  then show ?thesis using assms that [of "PUNYCODE_ENCODE ! nat i"] by (simp add: digit_decodes_def encode_digit_def Let_def)
qed

text \<open>The digits of \<open>q\<close> are read as \<open>q\<close>, although the weights may wrap around.\<close>

definition host_digits :: "bytes \<Rightarrow> bool" where
  "host_digits ds \<longleftrightarrow> list_all (\<lambda>d. 48 \<le> sint d \<and> sint d \<le> 122) ds"

lemma host_digits_simps [simp]:
  "host_digits []" "host_digits (d # ds) \<longleftrightarrow> 48 \<le> sint d \<and> sint d \<le> 122 \<and> host_digits ds"
  "host_digits (xs @ ys) \<longleftrightarrow> host_digits xs \<and> host_digits ys"
  by (simp_all add: host_digits_def)

definition puts :: "bytes \<Rightarrow> int \<Rightarrow> int \<Rightarrow> int \<Rightarrow> bool" where
  "puts ds q k b \<longleftrightarrow> ds \<noteq> [] \<and> host_digits ds \<and>
     (\<forall>rest out w. 0 \<le> out \<longrightarrow> 0 \<le> w \<longrightarrow> q * w < 2 ^ 31 \<longrightarrow> out + q * w < 2 ^ 64 \<longrightarrow>
        take_integer (ds @ rest) out (wch w) k b = Some (out + q * w, rest))"

lemma puts_take:
  "puts ds q k b \<Longrightarrow> 0 \<le> out \<Longrightarrow> 0 \<le> w \<Longrightarrow> q * w < 2 ^ 31 \<Longrightarrow> out + q * w < 2 ^ 64 \<Longrightarrow>
   take_integer (ds @ rest) out (wch w) k b = Some (out + q * w, rest)"
  by (simp add: puts_def)

lemma wch_digit:
  assumes "0 \<le> d" "0 \<le> w" "d * w \<le> q * w" "q * w < 2 ^ 31" "0 \<le> out" "out + q * w < 2 ^ 64"
  shows "(out + wch (d * wch w)) mod 2 ^ 64 = out + d * w"
proof -
  have "0 \<le> d * w" using assms(1,2) by simp
  then have w: "wch (d * w) = d * w" using assms(3,4) by (intro wch_small) simp_all
  show ?thesis unfolding wch_mult w using assms \<open>0 \<le> d * w\<close> by (intro mod_pos_pos_trivial) simp_all
qed

lemma puts_last:
  assumes t: "t = threshold k b" "t \<le> 26" and q: "0 \<le> q" "q < t"
  shows "\<exists>ds. put_integer q k b = Some (Inr ds) \<and> puts ds q k b"
proof -
  from encode_digit_decode [OF q(1)] q t obtain d where
    d: "encode_digit q = Inr d" "0 \<le> sint d - 48" "sint d - 48 \<le> 74" "PUNYCODE_DECODE ! nat (sint d - 48) = q" by auto
  have "take_integer ([d] @ rest) out (wch w) k b = Some (out + q * w, rest)"
    if "0 \<le> out" "0 \<le> w" "q * w < 2 ^ 31" "out + q * w < 2 ^ 64" for rest out w
    using wch_digit [OF q(1) that(2) order_refl that(3,1,4)] d q t by (simp add: Let_def)
  then have "puts [d] q k b" using d(2,3) by (simp add: puts_def)
  moreover have "put_integer q k b = Some (Inr [d])" using q t(1) d(1) by (subst put_integer.simps) (simp add: Let_def)
  ultimately show ?thesis by blast
qed

lemma puts_step:
  assumes t: "t = threshold k b" "1 \<le> t" "t \<le> 26" and q: "t \<le> q" and q': "q' = (q - t) div (36 - t)"
    and ds: "put_integer q' (wch (k + 36)) b = Some (Inr ds)" "puts ds q' (wch (k + 36)) b"
  shows "\<exists>ds. put_integer q k b = Some (Inr ds) \<and> puts ds q k b"
proof -
  define i where "i = t + (q - t) mod (36 - t)"
  have m: "0 \<le> (q - t) mod (36 - t)" "(q - t) mod (36 - t) < 36 - t" using t by simp_all
  then have i: "0 \<le> i" "i < 36" "t \<le> i" using t(2,3) unfolding i_def by linarith+
  have q0: "0 \<le> q'" unfolding q' using t q by (simp add: pos_imp_zdiv_nonneg_iff)
  have split: "q = i + q' * (36 - t)" unfolding i_def q' using div_mult_mod_eq [of "q - t" "36 - t"] by linarith
  from encode_digit_decode [OF i(1,2)] obtain d where
    d: "encode_digit i = Inr d" "0 \<le> sint d - 48" "sint d - 48 \<le> 74" "PUNYCODE_DECODE ! nat (sint d - 48) = i" by auto
  have "take_integer ((d # ds) @ rest) out (wch w) k b = Some (out + q * w, rest)"
    if *: "0 \<le> out" "0 \<le> w" "q * w < 2 ^ 31" "out + q * w < 2 ^ 64" for rest out w
  proof -
    have qw: "q * w = i * w + q' * (w * (36 - t))" unfolding split by (simp add: algebra_simps)
    have nn: "0 \<le> i * w" "0 \<le> q' * (w * (36 - t))" using i q0 *(2) t by simp_all
    have le: "i * w \<le> q * w" using qw nn by linarith
    have "0 \<le> w * (36 - t)" using *(2) t by simp
    then have r: "0 \<le> out + i * w" "0 \<le> w * (36 - t)" "q' * (w * (36 - t)) < 2 ^ 31" "out + i * w + q' * (w * (36 - t)) < 2 ^ 64"
      using nn qw * by linarith+
    have "take_integer ((d # ds) @ rest) out (wch w) k b =
        take_integer (ds @ rest) ((out + wch (i * wch w)) mod 2 ^ 64) (wch (wch w * (36 - t))) (wch (k + 36)) b"
      using d i t(1) by (simp add: Let_def)
    also have "\<dots> = take_integer (ds @ rest) (out + i * w) (wch (w * (36 - t))) (wch (k + 36)) b"
      unfolding wch_digit [OF i(1) *(2) le *(3,1,4)] using wch_mult [of "36 - t" w] by (simp only: mult.commute)
    also have "\<dots> = Some (out + i * w + q' * (w * (36 - t)), rest)"
      by (rule puts_take [OF ds(2) r])
    finally show ?thesis unfolding qw by simp
  qed
  then have "puts (d # ds) q k b" using d(2,3) ds(2) by (simp add: puts_def)
  moreover have "put_integer q k b = Some (Inr (d # ds))"
    using q t d(1) ds(1) by (subst put_integer.simps) (simp add: Let_def i_def q')
  ultimately show ?thesis by blast
qed

lemma put_integer_ok:
  "0 \<le> q \<Longrightarrow> q < 10 ^ m \<Longrightarrow> 0 \<le> k \<Longrightarrow> k + 36 * int m \<le> 2 ^ 30 \<Longrightarrow> 0 \<le> b \<Longrightarrow> b \<le> 2 ^ 30 \<Longrightarrow>
   \<exists>ds. put_integer q k b = Some (Inr ds) \<and> puts ds q k b"
proof (induction m arbitrary: q k)
  case 0
  have "1 \<le> threshold k b" "threshold k b \<le> 26" using threshold_bounds [of k b] 0 by simp_all
  with 0 show ?case by (intro puts_last [OF refl]) simp_all
next
  case (Suc m)
  define t where "t = threshold k b"
  have t: "1 \<le> t" "t \<le> 26" using threshold_bounds [of k b] Suc.prems by (simp_all add: t_def)
  show ?case
  proof (cases "q < t")
    case True
    with Suc.prems t show ?thesis by (intro puts_last [OF t_def])
  next
    case False
    define q' where "q' = (q - t) div (36 - t)"
    have "q' \<le> (q - t) div 10" unfolding q'_def using False t by (intro zdiv_mono2) simp_all
    then have q': "q' < 10 ^ m" using Suc.prems(2) t by simp
    have "0 \<le> q'" unfolding q'_def using False t by (simp add: pos_imp_zdiv_nonneg_iff)
    moreover have "wch (k + 36) = k + 36" using Suc.prems by (intro wch_small) simp_all
    ultimately obtain ds where "put_integer q' (wch (k + 36)) b = Some (Inr ds)" "puts ds q' (wch (k + 36)) b"
      using Suc.IH [of q' "wch (k + 36)"] Suc.prems q' by auto
    from puts_step [OF t_def t _ q'_def this] False show ?thesis by simp
  qed
qed

section \<open>The encoder and the decoder in step\<close>

text \<open>The characters are kept, except that ASCII letters become small.\<close>

definition low :: "int \<Rightarrow> wchar" where
  "low c = (if c < 0x80 then ucast (to_lower (word_of_int c)) else word_of_int c)"

lemma insert_decoded_eq:
  assumes "p \<le> length xs"
  shows "insert_decoded p d (xs @ [0]) = take p xs @ word_of_int d # drop p xs"
proof -
  have "insert_decoded p d (xs @ [0]) = take p xs @ word_of_int d # take (length xs - p) (drop p xs @ [0])"
    using assms by (cases "drop p xs") (simp_all add: insert_decoded_def list_update_append)
  then show ?thesis by simp
qed

text \<open>
  The encoder stands at the code \<open>n\<close> before a place with \<open>p\<close> characters of the decoded string in front,
  of \<open>L\<close>; the decoder stands at the code \<open>n'\<close> and the place \<open>i\<close>.  The difference is the delta that the
  encoder has counted.
\<close>

definition in_step :: "int \<Rightarrow> nat \<Rightarrow> nat \<Rightarrow> encoder \<Rightarrow> int \<Rightarrow> int \<Rightarrow> bool" where
  "in_step n p L e n' i \<longleftrightarrow> e_handled e = L \<and> p \<le> L \<and> 0 \<le> n' \<and> 0 \<le> i \<and> 0 \<le> e_delta e \<and>
     n' * int (L + 1) + i + e_delta e = n * int (L + 1) + int p \<and>
     e_firsttime e = (i = 0) \<and> 0 \<le> e_bias e \<and> e_bias e \<le> 2 ^ 30"

text \<open>The size of the input that keeps all counts below the limit of \<^verbatim>\<open>wchar_t\<close>.\<close>

definition fits :: "int \<Rightarrow> nat \<Rightarrow> bool" where
  "fits n L \<longleftrightarrow> 0 \<le> n \<and> n * int (L + 1) + int L < 2 ^ 31 - 1"

lemma in_step_delta:
  assumes "in_step n p L e n' i" "fits n L"
  shows "e_delta e < 2 ^ 31 - 1" "i + e_delta e < 2 ^ 64"
proof -
  have "0 \<le> n' * int (L + 1)" using assms by (simp add: in_step_def)
  moreover have "n' * int (L + 1) + i + e_delta e = n * int (L + 1) + int p" "0 \<le> i" "int p \<le> int L"
    using assms(1) by (simp_all only: in_step_def of_nat_le_iff)
  moreover have "n * int (L + 1) + int L < 2 ^ 31 - 1" using assms(2) by (simp only: fits_def)
  moreover have "(2 :: int) ^ 31 - 1 < 2 ^ 64" by simp
  ultimately show "e_delta e < 2 ^ 31 - 1" "i + e_delta e < 2 ^ 64" by linarith+
qed

lemma decode_step:
  assumes s: "in_step n p (length xs) e n' i" "fits n (length xs)" and ds: "puts ds (e_delta e) 36 (e_bias e)"
    and b: "adapt (e_delta e) (wch (int (length xs + 1))) (e_firsttime e) = Inr b" and n: "n < 2 ^ 31"
  shows "decode_loop (ds @ rest) i n' (e_bias e) xs =
    decode_loop rest (int p + 1) n b (take p xs @ word_of_int n # drop p xs)"
proof -
  let ?L = "int (length xs + 1)"
  note d = in_step_delta [OF s]
  have S: "p \<le> length xs" "0 \<le> i" "0 \<le> e_delta e" "n' * ?L + (i + e_delta e) = n * ?L + int p" "e_firsttime e = (i = 0)"
    using s(1) by (simp_all add: in_step_def algebra_simps)
  have t: "take_integer (ds @ rest) i 1 36 (e_bias e) = Some (i + e_delta e, rest)"
    using puts_take [OF ds S(2), of 1 rest] d by (simp add: wch_small)
  have "i + e_delta e = int p + (n - n') * ?L" using S(4) by (simp add: algebra_simps)
  then have q: "(i + e_delta e) div ?L = n - n'" "(i + e_delta e) mod ?L = int p" using S(1) by simp_all
  have w: "wch (e_delta e) = e_delta e" "wch n = n" using S(3) d s(2) n by (simp_all add: wch_small fits_def)
  have ne: "ds @ rest \<noteq> []" using ds by (simp add: puts_def)
  show ?thesis
    unfolding decode_loop.simps [of "ds @ rest"] if_not_P [OF ne] t option.case prod.case Let_def
    using q w S(5) b insert_decoded_eq [OF S(1)] by simp
qed

abbreviation upto_code :: "int \<Rightarrow> int list \<Rightarrow> int list" where
  "upto_code n \<equiv> filter (\<lambda>c. c \<le> n)"

abbreviation below_code :: "int \<Rightarrow> int list \<Rightarrow> int list" where
  "below_code n \<equiv> filter (\<lambda>c. c < n)"

lemma fits_mono: "fits n M \<Longrightarrow> L \<le> M \<Longrightarrow> fits n L"
  unfolding fits_def using mult_left_mono [of "int (L + 1)" "int (M + 1)" n] by auto

lemma in_step_count:
  assumes s: "in_step n p L e n' i" "fits n L" and p: "p < L"
  shows "in_step n (p + 1) L (e\<lparr>e_delta := wch (e_delta e + 1)\<rparr>) n' i"
proof -
  have "wch (e_delta e + 1) = e_delta e + 1" using in_step_delta [OF s] s(1) by (intro wch_small) (simp_all add: in_step_def)
  then show ?thesis using s p by (auto simp: in_step_def)
qed

text \<open>The encoder writes a delta, and the decoder inserts the character.\<close>

lemma in_step_put:
  assumes s: "in_step n p (length xs) e n' i" "fits n (length xs)" and n: "0 \<le> n" "n < 2 ^ 31"
  shows "\<exists>ds b. put_integer (e_delta e) 36 (e_bias e) = Some (Inr ds) \<and>
    adapt (e_delta e) (wch (int (length xs + 1))) (e_firsttime e) = Inr b \<and> host_digits ds \<and>
    in_step n (p + 1) (length xs + 1)
      \<lparr>e_delta = 0, e_bias = b, e_handled = length xs + 1, e_firsttime = False, e_encoded = e_encoded e @ ds\<rparr> n (int p + 1) \<and>
    (\<forall>rest. decode_loop (ds @ rest) i n' (e_bias e) xs =
      decode_loop rest (int p + 1) n b (take p xs @ word_of_int n # drop p xs))"
proof -
  have S: "0 \<le> e_delta e" "0 \<le> e_bias e" "e_bias e \<le> 2 ^ 30" "p \<le> length xs" using s(1) by (simp_all add: in_step_def)
  have d: "e_delta e < 10 ^ 10" "e_delta e < 2 ^ 31" using in_step_delta [OF s] by simp_all
  have "0 \<le> n * int (length xs + 1)" using n by simp
  then have L: "0 < int (length xs + 1)" "int (length xs + 1) < 2 ^ 31" using s(2) unfolding fits_def by linarith+
  then have w: "wch (int (length xs + 1)) = int (length xs + 1)" by (intro wch_small) simp_all
  from put_integer_ok [of "e_delta e" 10 36 "e_bias e"] S d obtain ds where
    ds: "put_integer (e_delta e) 36 (e_bias e) = Some (Inr ds)" "puts ds (e_delta e) 36 (e_bias e)" by auto
  from adapt_bounds [OF S(1) d(2) L, of "e_firsttime e"] obtain b where
    b: "adapt (e_delta e) (wch (int (length xs + 1))) (e_firsttime e) = Inr b" "0 \<le> b" "b \<le> 2 ^ 30" unfolding w by auto
  have "host_digits ds" using ds(2) by (simp add: puts_def)
  moreover have "in_step n (p + 1) (length xs + 1)
      \<lparr>e_delta = 0, e_bias = b, e_handled = length xs + 1, e_firsttime = False, e_encoded = e_encoded e @ ds\<rparr> n (int p + 1)"
    using b n S(4) by (simp add: in_step_def)
  ultimately show ?thesis using ds(1) b(1) decode_step [OF s ds(2) b(1) n(2)] by blast
qed

text \<open>A character equal to \<open>n\<close>.\<close>

lemma pass_put:
  assumes n: "0x80 \<le> n" "n < 2 ^ 31" and f: "fits n (length (upto_code n pre @ below_code n suf))"
    and s: "in_step n (length (upto_code n pre)) (length (upto_code n pre @ below_code n suf)) e n' i"
  defines "p \<equiv> int (length (upto_code n pre))"
  shows "\<exists>e1 ds. encode_pass n (n # suf) e = encode_pass n suf e1 \<and> e_encoded e1 = e_encoded e @ ds \<and> host_digits ds \<and>
    in_step n (length (upto_code n (pre @ [n]))) (length (upto_code n (pre @ [n]) @ below_code n suf)) e1 n (p + 1) \<and>
    (\<forall>rest. decode_loop (ds @ rest) i n' (e_bias e) (map low (upto_code n pre @ below_code n suf)) =
      decode_loop rest (p + 1) n (e_bias e1) (map low (upto_code n (pre @ [n]) @ below_code n suf)))"
proof -
  let ?p = "length (upto_code n pre)" and ?xs = "map low (upto_code n pre @ below_code n suf)"
  have L: "length ?xs = length (upto_code n pre @ below_code n suf)" by (rule length_map)
  from in_step_put [of n ?p ?xs e n' i] s f n obtain ds b where
    put: "put_integer (e_delta e) 36 (e_bias e) = Some (Inr ds)"
      "adapt (e_delta e) (wch (int (length ?xs + 1))) (e_firsttime e) = Inr b" "host_digits ds" and
    step: "in_step n (?p + 1) (length ?xs + 1)
      \<lparr>e_delta = 0, e_bias = b, e_handled = length ?xs + 1, e_firsttime = False, e_encoded = e_encoded e @ ds\<rparr> n (int ?p + 1)" and
    dec: "\<And>rest. decode_loop (ds @ rest) i n' (e_bias e) ?xs = decode_loop rest (int ?p + 1) n b (take ?p ?xs @ word_of_int n # drop ?p ?xs)"
    unfolding L by auto
  define e1 where "e1 = \<lparr>e_delta = 0, e_bias = b, e_handled = length ?xs + 1, e_firsttime = False, e_encoded = e_encoded e @ ds\<rparr>"
  have "e_handled e = length ?xs" using s unfolding L in_step_def by blast
  then have "encode_pass n (n # suf) e = encode_pass n suf e1" using put by (simp add: e1_def)
  moreover have "take ?p ?xs @ word_of_int n # drop ?p ?xs = map low (upto_code n (pre @ [n]) @ below_code n suf)"
    using n by (simp add: low_def)
  moreover have "in_step n (length (upto_code n (pre @ [n]))) (length (upto_code n (pre @ [n]) @ below_code n suf)) e1 n (p + 1)"
    using step unfolding e1_def [symmetric] p_def by simp
  ultimately show ?thesis using put(3) dec by (intro exI [of _ e1] exI [of _ ds]) (simp add: e1_def p_def)
qed

lemma encode_pass_in_step:
  assumes n: "0x80 \<le> n" "n < 2 ^ 31" and f: "fits n (length pre + length suf)"
    and s: "in_step n (length (upto_code n pre)) (length (upto_code n pre @ below_code n suf)) e n' i"
  shows "\<exists>e' ds n2 i2. encode_pass n suf e = Some (Inr e') \<and> e_encoded e' = e_encoded e @ ds \<and> host_digits ds \<and>
    in_step n (length (upto_code n (pre @ suf))) (length (upto_code n (pre @ suf))) e' n2 i2 \<and>
    (\<forall>rest. decode_loop (ds @ rest) i n' (e_bias e) (map low (upto_code n pre @ below_code n suf)) =
      decode_loop rest i2 n2 (e_bias e') (map low (upto_code n (pre @ suf))))"
  using f s
proof (induction suf arbitrary: pre e n' i)
  case Nil
  then show ?case by (intro exI [of _ e] exI [of _ "[]"] exI [of _ n'] exI [of _ i]) simp
next
  case (Cons c suf)
  have "length (upto_code n pre @ below_code n (c # suf)) \<le> length pre + length (c # suf)"
    by (simp add: add_mono length_filter_le le_SucI)
  note fit = fits_mono [OF Cons.prems(1) this]
  have f': "fits n (length (pre @ [c]) + length suf)" using Cons.prems(1) by simp
  consider "c < n" | "c = n" | "n < c" by linarith
  then show ?case
  proof cases
    case 1
    from in_step_count [OF Cons.prems(2) fit] 1
    have "in_step n (length (upto_code n (pre @ [c]))) (length (upto_code n (pre @ [c]) @ below_code n suf))
        (e\<lparr>e_delta := wch (e_delta e + 1)\<rparr>) n' i" by simp
    from Cons.IH [OF f' this] 1 show ?thesis by simp
  next
    case 3
    with Cons.prems(2) Cons.IH [OF f', of e n' i] show ?thesis by simp
  next
    case 2
    with pass_put [OF n, of pre suf e n' i] fit Cons.prems(2) obtain e1 ds where
      e1: "encode_pass n (c # suf) e = encode_pass n suf e1" "e_encoded e1 = e_encoded e @ ds" "host_digits ds"
      "in_step n (length (upto_code n (pre @ [c]))) (length (upto_code n (pre @ [c]) @ below_code n suf)) e1 n (int (length (upto_code n pre)) + 1)"
      "\<And>rest. decode_loop (ds @ rest) i n' (e_bias e) (map low (upto_code n pre @ below_code n suf)) =
        decode_loop rest (int (length (upto_code n pre)) + 1) n (e_bias e1) (map low (upto_code n (pre @ [c]) @ below_code n suf))"
      by auto
    from Cons.IH [OF f' e1(4)] obtain e' ds' n2 i2 where
      r: "encode_pass n suf e1 = Some (Inr e')" "e_encoded e' = e_encoded e1 @ ds'" "host_digits ds'"
      "in_step n (length (upto_code n ((pre @ [c]) @ suf))) (length (upto_code n ((pre @ [c]) @ suf))) e' n2 i2"
      "\<And>rest. decode_loop (ds' @ rest) (int (length (upto_code n pre)) + 1) n (e_bias e1) (map low (upto_code n (pre @ [c]) @ below_code n suf)) =
        decode_loop rest i2 n2 (e_bias e') (map low (upto_code n ((pre @ [c]) @ suf)))" by blast
    then show ?thesis using e1 2
      by (intro exI [of _ e'] exI [of _ "ds @ ds'"] exI [of _ n2] exI [of _ i2]) simp
  qed
qed

lemma least_loop:
  fixes input :: "int list"
  defines "step \<equiv> \<lambda>n least c. if c \<ge> n \<and> c < least then c else least"
  shows "foldl (step n) m input \<le> m \<and> (foldl (step n) m input = m \<or> foldl (step n) m input \<in> set input \<and> n \<le> foldl (step n) m input) \<and>
    (\<forall>c\<in>set input. n \<le> c \<longrightarrow> foldl (step n) m input \<le> c)"
proof (induction input arbitrary: m)
  case (Cons c input)
  from Cons [of "step n m c"] show ?case by (force simp: step_def split: if_splits)
qed simp

lemma least_found_least:
  assumes "c \<in> set input" "n \<le> c" "\<forall>c\<in>set input. c < MAX_WCHAR_T"
  shows "least_found n input \<in> set input" "n \<le> least_found n input" "below_code (least_found n input) input = below_code n input"
proof -
  let ?m = "least_found n input"
  note l = least_loop [of n MAX_WCHAR_T input, folded least_found_def]
  have "?m \<le> c" using l assms(1,2) by blast
  then have "?m \<noteq> MAX_WCHAR_T" using assms(1,3) by force
  then show m: "?m \<in> set input" "n \<le> ?m" using l by blast+
  show "below_code ?m input = below_code n input"
    by (rule filter_cong) (use l m(2) in \<open>force simp: not_less\<close>)+
qed

lemma in_step_next:
  assumes s: "in_step n L L e n' i" "fits n L"
  shows "in_step (n + 1) 0 L (e\<lparr>e_delta := wch (e_delta e + 1)\<rparr>) n' i"
proof -
  have "wch (e_delta e + 1) = e_delta e + 1" using in_step_delta [OF s] s(1) by (intro wch_small) (simp_all add: in_step_def)
  then show ?thesis using s(1) by (auto simp: in_step_def algebra_simps)
qed

lemma in_step_skip:
  assumes s: "in_step n 0 L e n' i" and m: "n \<le> m" "0 \<le> n" "fits m L" "m < 2 ^ 31"
  shows "in_step m 0 L (e\<lparr>e_delta := wch (e_delta e + wch (wch (m - n) * wch (int (e_handled e + 1))))\<rparr>) n' i"
proof -
  let ?L = "int (L + 1)"
  have S: "e_handled e = L" "0 \<le> e_delta e" "n' * ?L + i + e_delta e = n * ?L" "0 \<le> n' * ?L" "0 \<le> i" using s by (simp_all add: in_step_def)
  have lim: "m * ?L + int L < 2 ^ 31 - 1" using m(3) by (simp add: fits_def)
  have x: "(m - n) * ?L = m * ?L - n * ?L" by (simp add: left_diff_distrib)
  have nn: "0 \<le> n * ?L" "0 \<le> (m - n) * ?L" "0 \<le> m * ?L" using m by simp_all
  have w: "wch (m - n) = m - n" "wch ?L = ?L" using m lim nn by (intro wch_small; linarith)+
  have "wch ((m - n) * ?L) = (m - n) * ?L" using nn lim unfolding x by (intro wch_small) linarith+
  moreover have "wch (e_delta e + (m - n) * ?L) = e_delta e + (m - n) * ?L" using nn lim S unfolding x by (intro wch_small) linarith+
  ultimately have e: "wch (e_delta e + wch (wch (m - n) * wch (int (e_handled e + 1)))) = e_delta e + (m * ?L - n * ?L)"
    unfolding S(1) w x by simp
  have "n' * ?L + i + (e_delta e + (m * ?L - n * ?L)) = m * ?L" "0 \<le> e_delta e + (m * ?L - n * ?L)"
    using S nn unfolding x by linarith+
  then show ?thesis unfolding e using s by (simp add: in_step_def)
qed

lemma fits_code:
  assumes "fits M K" "0 \<le> m" "m \<le> M" "L \<le> K"
  shows "fits m L"
proof -
  have "m * int (L + 1) \<le> M * int (L + 1)" using assms(3) by (intro mult_right_mono) simp_all
  with fits_mono [OF assms(1,4)] assms(2) show ?thesis unfolding fits_def by linarith
qed

text \<open>One round of the loop: the encoder goes to the next code and writes all of its characters.\<close>

lemma encode_round:
  assumes c: "\<forall>c\<in>set cs. 0 \<le> c \<and> c \<le> M" and M: "fits M (length cs)" "M < 2 ^ 31 - 1"
    and n: "0x80 \<le> n" and s: "in_step n 0 (length (below_code n cs)) e n' i" and "c0 \<in> set cs" "n \<le> c0"
  defines "m \<equiv> least_found n cs"
  shows "\<exists>e2 ds n2 i2. encode_loop cs n e = encode_loop cs (m + 1) e2 \<and> e_encoded e2 = e_encoded e @ ds \<and> host_digits ds \<and>
    in_step (m + 1) 0 (length (below_code (m + 1) cs)) e2 n2 i2 \<and>
    (\<forall>rest. decode_loop (ds @ rest) i n' (e_bias e) (map low (below_code n cs)) =
      decode_loop rest i2 n2 (e_bias e2) (map low (below_code (m + 1) cs)))"
proof -
  have "\<forall>c\<in>set cs. c < MAX_WCHAR_T" using c M(2) by (force simp: MAX_WCHAR_T_def)
  note m = least_found_least [OF assms(6,7) this, folded m_def]
  have mM: "m \<le> M" "m < 2 ^ 31" "0 \<le> m" "0 \<le> n" using m n c M(2) by force+
  note fit = fits_code [OF M(1) mM(3,1)]
  define e1 where "e1 = e\<lparr>e_delta := wch (e_delta e + wch (wch (m - n) * wch (int (e_handled e + 1))))\<rparr>"
  have "in_step m 0 (length (below_code m cs)) e1 n' i"
    unfolding e1_def m(3) by (rule in_step_skip [OF s m(2) mM(4) fit mM(2)]) simp
  then have "in_step m (length (upto_code m [])) (length (upto_code m [] @ below_code m cs)) e1 n' i" by simp
  from encode_pass_in_step [OF _ mM(2) _ this] fit [of "length cs"] n m obtain e2 ds n2 i2 where
    p: "encode_pass m cs e1 = Some (Inr e2)" "e_encoded e2 = e_encoded e1 @ ds" "host_digits ds"
    "in_step m (length (upto_code m cs)) (length (upto_code m cs)) e2 n2 i2"
    "\<And>rest. decode_loop (ds @ rest) i n' (e_bias e1) (map low (below_code m cs)) = decode_loop rest i2 n2 (e_bias e2) (map low (upto_code m cs))"
    by auto
  have b: "below_code (m + 1) cs = upto_code m cs" by (rule filter_cong) auto
  have "in_step (m + 1) 0 (length (below_code (m + 1) cs)) (e2\<lparr>e_delta := wch (e_delta e2 + 1)\<rparr>) n2 i2"
    unfolding b by (intro in_step_next p(4) fit) simp
  moreover have "e_handled e < length cs"
    using s length_filter_less [of c0 cs "\<lambda>c. c < n"] assms(6,7) by (simp add: in_step_def)
  moreover have "wch (m + 1) = m + 1" using mM M(2) by (intro wch_small) simp_all
  ultimately show ?thesis using p m(3) b
    by (intro exI [of _ "e2\<lparr>e_delta := wch (e_delta e2 + 1)\<rparr>"] exI [of _ ds] exI [of _ n2] exI [of _ i2])
      (simp add: encode_loop.simps [of cs n e] Let_def e1_def m_def)
qed

lemma encode_loop_in_step:
  assumes c: "\<forall>c\<in>set cs. 0 \<le> c \<and> c \<le> M" and M: "fits M (length cs)" "M < 2 ^ 31 - 1"
  shows "0x80 \<le> n \<Longrightarrow> in_step n 0 (length (below_code n cs)) e n' i \<Longrightarrow>
    \<exists>e' ds. encode_loop cs n e = Some (Inr e') \<and> e_encoded e' = e_encoded e @ ds \<and> host_digits ds \<and>
      decode_loop ds i n' (e_bias e) (map low (below_code n cs)) = Inr (True, map low cs)"
proof (induction "length (filter (\<lambda>c. n \<le> c) cs)" arbitrary: n e n' i rule: less_induct)
  case (less n e n' i)
  show ?case
  proof (cases "\<exists>c0\<in>set cs. n \<le> c0")
    case False
    then have "below_code n cs = cs" by (intro filter_True) force
    moreover from this have "\<not> e_handled e < length cs" using less.prems(2) by (simp add: in_step_def)
    ultimately show ?thesis
      by (intro exI [of _ e] exI [of _ "[]"]) (simp add: encode_loop.simps [of cs n e] decode_loop.simps [of "[]"])
  next
    case True
    then obtain c0 where c0: "c0 \<in> set cs" "n \<le> c0" by blast
    define m where "m = least_found n cs"
    have "\<forall>c\<in>set cs. c < MAX_WCHAR_T" using c M(2) by (force simp: MAX_WCHAR_T_def)
    note m = least_found_least [OF c0 this, folded m_def]
    from encode_round [OF c M less.prems c0, folded m_def] obtain e2 ds n2 i2 where
      p: "encode_loop cs n e = encode_loop cs (m + 1) e2" "e_encoded e2 = e_encoded e @ ds" "host_digits ds"
      "in_step (m + 1) 0 (length (below_code (m + 1) cs)) e2 n2 i2"
      "\<And>rest. decode_loop (ds @ rest) i n' (e_bias e) (map low (below_code n cs)) =
        decode_loop rest i2 n2 (e_bias e2) (map low (below_code (m + 1) cs))" by blast
    have "filter (\<lambda>c. m + 1 \<le> c) cs = filter (\<lambda>c. m + 1 \<le> c) (filter (\<lambda>c. n \<le> c) cs)"
      unfolding filter_filter by (rule filter_cong) (use m(2) in auto)
    then have "length (filter (\<lambda>c. m + 1 \<le> c) cs) < length (filter (\<lambda>c. n \<le> c) cs)"
      using length_filter_less [of m "filter (\<lambda>c. n \<le> c) cs" "\<lambda>c. m + 1 \<le> c"] m by simp
    from less.hyps [OF this _ p(4)] less.prems(1) m(2) obtain e3 ds' where
      "encode_loop cs (m + 1) e2 = Some (Inr e3)" "e_encoded e3 = e_encoded e2 @ ds'" "host_digits ds'"
      "decode_loop ds' i2 n2 (e_bias e2) (map low (below_code (m + 1) cs)) = Inr (True, map low cs)" by auto
    then show ?thesis using p by (intro exI [of _ e3] exI [of _ "ds @ ds'"]) simp
  qed
qed

section \<open>Properties\<close>

lemma narrow: "(scast (c :: wchar) :: byte) = ucast c"
  by (rule bit_word_eqI) (simp add: bit_simps)

lemma encode_basic_all:
  "\<forall>c\<in>set cs. 0 \<le> c \<Longrightarrow> encode_basic cs out = (True, out @ map (\<lambda>c. to_lower (word_of_int c)) (below_code 0x80 cs))"
  by (induction cs arbitrary: out) simp_all

lemma to_lower_ascii:
  assumes "0 \<le> c" "c < 0x80"
  shows "to_lower (word_of_int c) AND 0x80 = (0 :: byte)"
proof -
  define b :: byte where "b = word_of_int c"
  have "unat b < 0x80" using assms by (simp add: b_def unsigned_of_int take_bit_int_eq_self)
  then have "unat (to_lower b) < 0x80" by (simp add: to_lower_eq word_le_nat_alt unat_word_ariths)
  moreover have "unat x < 0x80 \<longrightarrow> x AND 0x80 = 0" for x :: byte by (rule all_byteD) code_simp
  ultimately show ?thesis by (simp add: b_def)
qed

lemma decode_basic_all:
  "\<forall>c\<in>set cs. 0 \<le> c \<and> c < 0x80 \<Longrightarrow>
   decode_basic (map (\<lambda>c. to_lower (word_of_int c)) cs) = (True, map low cs)"
  by (induction cs) (simp_all add: to_lower_ascii low_def)

text \<open>The last hyphen is the one behind the basic characters.\<close>

lemma host_digits_ascii:
  assumes "host_digits ds"
  shows "ch CHR ''-'' \<notin> set ds" "\<forall>d\<in>set ds. d AND 0x80 = 0"
proof -
  have "48 \<le> sint d \<and> sint d \<le> 122 \<longrightarrow> d AND 0x80 = 0 \<and> d \<noteq> ch CHR ''-''" for d :: byte
    by (rule all_byteD) code_simp
  then show "ch CHR ''-'' \<notin> set ds" "\<forall>d\<in>set ds. d AND 0x80 = 0" using assms by (auto simp: host_digits_def list_all_iff)
qed

lemma decode_split:
  assumes "host_digits ds" "\<forall>c\<in>set cs. 0 \<le> c \<and> c < 0x80"
  defines "basic \<equiv> map (\<lambda>c. to_lower (word_of_int c)) cs"
  shows "punycode_decode ((if basic \<noteq> [] then basic @ [ch CHR ''-''] else basic) @ ds) = decode_loop ds 0 0x80 72 (map low cs)"
proof -
  note no = host_digits_ascii(1) [OF assms(1)]
  have "takeWhile (\<lambda>c. c \<noteq> ch CHR ''-'') (rev ds @ ch CHR ''-'' # xs) = rev ds" for xs
    using no by (intro takeWhile_append2 [THEN trans]) auto
  moreover have "takeWhile (\<lambda>c. c \<noteq> ch CHR ''-'') (rev ds) = rev ds" using no by (auto simp: takeWhile_eq_all_conv)
  ultimately show ?thesis
    using no decode_basic_all [OF assms(2)] by (simp add: punycode_decode_def basic_def Let_def del: takeWhile_eq_all_conv)
qed

text \<open>
  C33: for a wide string of Unicode codes whose counts stay below the limit of \<^verbatim>\<open>wchar_t\<close>, which holds
  for up to 1926 characters, \<^verbatim>\<open>punycode_encode\<close> returns an ASCII string, and \<^verbatim>\<open>punycode_decode\<close> reads it as the
  same string with the ASCII letters made small: the loops end, no digit outside the table is
  read, no division by zero happens, and the weights of the digits, which may wrap around, do no
  harm.
\<close>

theorem punycode_roundtrip:
  assumes "\<forall>c\<in>set input. 0 \<le> sint c \<and> sint c \<le> 0x10FFFF" "length input \<le> 1926"
  shows "\<exists>out. punycode_encode input = Some (Inr (True, out)) \<and> (\<forall>b\<in>set out. b AND 0x80 = 0) \<and>
    punycode_decode out = Inr (True, map (\<lambda>c. if sint c < 0x80 then ucast (to_lower (ucast c)) else c) input)"
proof -
  define cs where "cs = map sint input"
  define basic where "basic = map (\<lambda>c. to_lower (word_of_int c)) (below_code 0x80 cs)"
  define e where "e = \<lparr>e_delta = 0, e_bias = 72, e_handled = length basic, e_firsttime = True,
    e_encoded = if basic \<noteq> [] then basic @ [ch CHR ''-''] else basic\<rparr>"
  have c: "\<forall>c\<in>set cs. 0 \<le> c \<and> c \<le> 0x10FFFF" using assms(1) by (simp add: cs_def)
  then have b: "\<forall>c\<in>set (below_code 0x80 cs). 0 \<le> c \<and> c < 0x80" by simp
  have "in_step 0x80 0 (length (below_code 0x80 cs)) e 0x80 0" by (simp add: in_step_def e_def basic_def)
  from encode_loop_in_step [OF c _ _ _ this] assms(2) obtain e' ds where
    l: "encode_loop cs 0x80 e = Some (Inr e')" "e_encoded e' = e_encoded e @ ds" "host_digits ds"
    "decode_loop ds 0 0x80 72 (map low (below_code 0x80 cs)) = Inr (True, map low cs)"
    by (auto simp: fits_def cs_def e_def)
  have eb: "encode_basic cs [] = (True, basic)" using encode_basic_all [of cs "[]"] c by (simp add: basic_def)
  have "punycode_encode input = Some (Inr (True, e_encoded e'))"
    unfolding punycode_encode_def cs_def [symmetric] eb Let_def prod.case e_def [symmetric] l(1) by simp
  moreover have "punycode_decode (e_encoded e') = Inr (True, map low cs)"
    using decode_split [OF l(3) b, folded basic_def] l(2,4) by (simp add: e_def)
  moreover have "\<forall>x\<in>set (e_encoded e'). x AND 0x80 = 0"
  proof -
    have "x AND 0x80 = 0" if "x \<in> set basic" for x using that b to_lower_ascii by (auto simp only: basic_def set_map)
    then show ?thesis using host_digits_ascii(2) [OF l(3)] unfolding l(2) e_def by (auto simp: ball_Un)
  qed
  moreover have "map low cs = map (\<lambda>c. if sint c < 0x80 then ucast (to_lower (ucast c)) else c) input"
    using assms(1) by (simp add: cs_def low_def narrow)
  ultimately show ?thesis by metis
qed

text \<open>A German word with a capital letter and an umlaut.\<close>

theorem punycode_roundtrip_witness:
  "\<exists>out. punycode_encode [0x42, 0xFC, 0x63, 0x68] = Some (Inr (True, out)) \<and>
     punycode_decode out = Inr (True, [0x62, 0xFC, 0x63, 0x68])"
  using punycode_roundtrip [of "[0x42, 0xFC, 0x63, 0x68]"] by (auto simp: to_lower_eq)

section \<open>Departures\<close>

text \<open>
  A text whose count wraps around to a negative number makes \<^verbatim>\<open>adapt\<close> divide by zero; a hyphen in
  front, which RFC 3492 refuses, is accepted, and so are codes that are not in Unicode; and a
  wide character near the limit of the type makes the encoder read in front of its table.
\<close>

lemma punycode_decode_divides_by_zero: "punycode_decode (chars ''ml891716a'') = Inl DivisionByZero"
  by code_simp

lemma punycode_decode_leading_hyphen:
  "punycode_decode (chars ''-kva'') = Inr (True, [0x369])" "punycode_decode (chars ''99999b'') = Inr (True, [0x5B54E9])"
  by code_simp+

lemma punycode_encode_out_of_bounds: "punycode_encode [0x61, 0x7FFFFFFF] = Some (Inl OutOfBounds)"
  by (simp add: punycode_encode_def encode_loop.simps [of "[97, 2147483647]"] put_integer.simps [of _ 36] wch_def
      least_found_def MAX_WCHAR_T_def encode_digit_def threshold_def)

end
