(* ===== verification/Crc.thy ===== *)
theory Crc
  imports Prelude
begin

text \<open>
  The checksums of \<^verbatim>\<open>src/src/Generics/CRC.hpp\<close> and \<^verbatim>\<open>CRC.cpp\<close>: CRC-32 with the most significant bit first
  (\<^verbatim>\<open>quick\<close>) and with the least significant bit first (\<^verbatim>\<open>reversed\<close>), both driven by a table.  They are shown to
  divide by the polynomial of CRC-32 one bit at a time, whence what they detect.
\<close>

section \<open>Operations\<close>

type_synonym uint32 = "32 word"

definition CRC_QUICK_TABLE :: "uint32 list" where
  "CRC_QUICK_TABLE =
     [0x00000000, 0x04C11DB7, 0x09823B6E, 0x0D4326D9, 0x130476DC, 0x17C56B6B, 0x1A864DB2, 0x1E475005,
      0x2608EDB8, 0x22C9F00F, 0x2F8AD6D6, 0x2B4BCB61, 0x350C9B64, 0x31CD86D3, 0x3C8EA00A, 0x384FBDBD,
      0x4C11DB70, 0x48D0C6C7, 0x4593E01E, 0x4152FDA9, 0x5F15ADAC, 0x5BD4B01B, 0x569796C2, 0x52568B75,
      0x6A1936C8, 0x6ED82B7F, 0x639B0DA6, 0x675A1011, 0x791D4014, 0x7DDC5DA3, 0x709F7B7A, 0x745E66CD,
      0x9823B6E0, 0x9CE2AB57, 0x91A18D8E, 0x95609039, 0x8B27C03C, 0x8FE6DD8B, 0x82A5FB52, 0x8664E6E5,
      0xBE2B5B58, 0xBAEA46EF, 0xB7A96036, 0xB3687D81, 0xAD2F2D84, 0xA9EE3033, 0xA4AD16EA, 0xA06C0B5D,
      0xD4326D90, 0xD0F37027, 0xDDB056FE, 0xD9714B49, 0xC7361B4C, 0xC3F706FB, 0xCEB42022, 0xCA753D95,
      0xF23A8028, 0xF6FB9D9F, 0xFBB8BB46, 0xFF79A6F1, 0xE13EF6F4, 0xE5FFEB43, 0xE8BCCD9A, 0xEC7DD02D,
      0x34867077, 0x30476DC0, 0x3D044B19, 0x39C556AE, 0x278206AB, 0x23431B1C, 0x2E003DC5, 0x2AC12072,
      0x128E9DCF, 0x164F8078, 0x1B0CA6A1, 0x1FCDBB16, 0x018AEB13, 0x054BF6A4, 0x0808D07D, 0x0CC9CDCA,
      0x7897AB07, 0x7C56B6B0, 0x71159069, 0x75D48DDE, 0x6B93DDDB, 0x6F52C06C, 0x6211E6B5, 0x66D0FB02,
      0x5E9F46BF, 0x5A5E5B08, 0x571D7DD1, 0x53DC6066, 0x4D9B3063, 0x495A2DD4, 0x44190B0D, 0x40D816BA,
      0xACA5C697, 0xA864DB20, 0xA527FDF9, 0xA1E6E04E, 0xBFA1B04B, 0xBB60ADFC, 0xB6238B25, 0xB2E29692,
      0x8AAD2B2F, 0x8E6C3698, 0x832F1041, 0x87EE0DF6, 0x99A95DF3, 0x9D684044, 0x902B669D, 0x94EA7B2A,
      0xE0B41DE7, 0xE4750050, 0xE9362689, 0xEDF73B3E, 0xF3B06B3B, 0xF771768C, 0xFA325055, 0xFEF34DE2,
      0xC6BCF05F, 0xC27DEDE8, 0xCF3ECB31, 0xCBFFD686, 0xD5B88683, 0xD1799B34, 0xDC3ABDED, 0xD8FBA05A,
      0x690CE0EE, 0x6DCDFD59, 0x608EDB80, 0x644FC637, 0x7A089632, 0x7EC98B85, 0x738AAD5C, 0x774BB0EB,
      0x4F040D56, 0x4BC510E1, 0x46863638, 0x42472B8F, 0x5C007B8A, 0x58C1663D, 0x558240E4, 0x51435D53,
      0x251D3B9E, 0x21DC2629, 0x2C9F00F0, 0x285E1D47, 0x36194D42, 0x32D850F5, 0x3F9B762C, 0x3B5A6B9B,
      0x0315D626, 0x07D4CB91, 0x0A97ED48, 0x0E56F0FF, 0x1011A0FA, 0x14D0BD4D, 0x19939B94, 0x1D528623,
      0xF12F560E, 0xF5EE4BB9, 0xF8AD6D60, 0xFC6C70D7, 0xE22B20D2, 0xE6EA3D65, 0xEBA91BBC, 0xEF68060B,
      0xD727BBB6, 0xD3E6A601, 0xDEA580D8, 0xDA649D6F, 0xC423CD6A, 0xC0E2D0DD, 0xCDA1F604, 0xC960EBB3,
      0xBD3E8D7E, 0xB9FF90C9, 0xB4BCB610, 0xB07DABA7, 0xAE3AFBA2, 0xAAFBE615, 0xA7B8C0CC, 0xA379DD7B,
      0x9B3660C6, 0x9FF77D71, 0x92B45BA8, 0x9675461F, 0x8832161A, 0x8CF30BAD, 0x81B02D74, 0x857130C3,
      0x5D8A9099, 0x594B8D2E, 0x5408ABF7, 0x50C9B640, 0x4E8EE645, 0x4A4FFBF2, 0x470CDD2B, 0x43CDC09C,
      0x7B827D21, 0x7F436096, 0x7200464F, 0x76C15BF8, 0x68860BFD, 0x6C47164A, 0x61043093, 0x65C52D24,
      0x119B4BE9, 0x155A565E, 0x18197087, 0x1CD86D30, 0x029F3D35, 0x065E2082, 0x0B1D065B, 0x0FDC1BEC,
      0x3793A651, 0x3352BBE6, 0x3E119D3F, 0x3AD08088, 0x2497D08D, 0x2056CD3A, 0x2D15EBE3, 0x29D4F654,
      0xC5A92679, 0xC1683BCE, 0xCC2B1D17, 0xC8EA00A0, 0xD6AD50A5, 0xD26C4D12, 0xDF2F6BCB, 0xDBEE767C,
      0xE3A1CBC1, 0xE760D676, 0xEA23F0AF, 0xEEE2ED18, 0xF0A5BD1D, 0xF464A0AA, 0xF9278673, 0xFDE69BC4,
      0x89B8FD09, 0x8D79E0BE, 0x803AC667, 0x84FBDBD0, 0x9ABC8BD5, 0x9E7D9662, 0x933EB0BB, 0x97FFAD0C,
      0xAFB010B1, 0xAB710D06, 0xA6322BDF, 0xA2F33668, 0xBCB4666D, 0xB8757BDA, 0xB5365D03, 0xB1F740B4]"

definition CRC_REVERSED_TABLE :: "uint32 list" where
  "CRC_REVERSED_TABLE =
     [0x00000000, 0x77073096, 0xEE0E612C, 0x990951BA, 0x076DC419, 0x706AF48F, 0xE963A535, 0x9E6495A3,
      0x0EDB8832, 0x79DCB8A4, 0xE0D5E91E, 0x97D2D988, 0x09B64C2B, 0x7EB17CBD, 0xE7B82D07, 0x90BF1D91,
      0x1DB71064, 0x6AB020F2, 0xF3B97148, 0x84BE41DE, 0x1ADAD47D, 0x6DDDE4EB, 0xF4D4B551, 0x83D385C7,
      0x136C9856, 0x646BA8C0, 0xFD62F97A, 0x8A65C9EC, 0x14015C4F, 0x63066CD9, 0xFA0F3D63, 0x8D080DF5,
      0x3B6E20C8, 0x4C69105E, 0xD56041E4, 0xA2677172, 0x3C03E4D1, 0x4B04D447, 0xD20D85FD, 0xA50AB56B,
      0x35B5A8FA, 0x42B2986C, 0xDBBBC9D6, 0xACBCF940, 0x32D86CE3, 0x45DF5C75, 0xDCD60DCF, 0xABD13D59,
      0x26D930AC, 0x51DE003A, 0xC8D75180, 0xBFD06116, 0x21B4F4B5, 0x56B3C423, 0xCFBA9599, 0xB8BDA50F,
      0x2802B89E, 0x5F058808, 0xC60CD9B2, 0xB10BE924, 0x2F6F7C87, 0x58684C11, 0xC1611DAB, 0xB6662D3D,
      0x76DC4190, 0x01DB7106, 0x98D220BC, 0xEFD5102A, 0x71B18589, 0x06B6B51F, 0x9FBFE4A5, 0xE8B8D433,
      0x7807C9A2, 0x0F00F934, 0x9609A88E, 0xE10E9818, 0x7F6A0DBB, 0x086D3D2D, 0x91646C97, 0xE6635C01,
      0x6B6B51F4, 0x1C6C6162, 0x856530D8, 0xF262004E, 0x6C0695ED, 0x1B01A57B, 0x8208F4C1, 0xF50FC457,
      0x65B0D9C6, 0x12B7E950, 0x8BBEB8EA, 0xFCB9887C, 0x62DD1DDF, 0x15DA2D49, 0x8CD37CF3, 0xFBD44C65,
      0x4DB26158, 0x3AB551CE, 0xA3BC0074, 0xD4BB30E2, 0x4ADFA541, 0x3DD895D7, 0xA4D1C46D, 0xD3D6F4FB,
      0x4369E96A, 0x346ED9FC, 0xAD678846, 0xDA60B8D0, 0x44042D73, 0x33031DE5, 0xAA0A4C5F, 0xDD0D7CC9,
      0x5005713C, 0x270241AA, 0xBE0B1010, 0xC90C2086, 0x5768B525, 0x206F85B3, 0xB966D409, 0xCE61E49F,
      0x5EDEF90E, 0x29D9C998, 0xB0D09822, 0xC7D7A8B4, 0x59B33D17, 0x2EB40D81, 0xB7BD5C3B, 0xC0BA6CAD,
      0xEDB88320, 0x9ABFB3B6, 0x03B6E20C, 0x74B1D29A, 0xEAD54739, 0x9DD277AF, 0x04DB2615, 0x73DC1683,
      0xE3630B12, 0x94643B84, 0x0D6D6A3E, 0x7A6A5AA8, 0xE40ECF0B, 0x9309FF9D, 0x0A00AE27, 0x7D079EB1,
      0xF00F9344, 0x8708A3D2, 0x1E01F268, 0x6906C2FE, 0xF762575D, 0x806567CB, 0x196C3671, 0x6E6B06E7,
      0xFED41B76, 0x89D32BE0, 0x10DA7A5A, 0x67DD4ACC, 0xF9B9DF6F, 0x8EBEEFF9, 0x17B7BE43, 0x60B08ED5,
      0xD6D6A3E8, 0xA1D1937E, 0x38D8C2C4, 0x4FDFF252, 0xD1BB67F1, 0xA6BC5767, 0x3FB506DD, 0x48B2364B,
      0xD80D2BDA, 0xAF0A1B4C, 0x36034AF6, 0x41047A60, 0xDF60EFC3, 0xA867DF55, 0x316E8EEF, 0x4669BE79,
      0xCB61B38C, 0xBC66831A, 0x256FD2A0, 0x5268E236, 0xCC0C7795, 0xBB0B4703, 0x220216B9, 0x5505262F,
      0xC5BA3BBE, 0xB2BD0B28, 0x2BB45A92, 0x5CB36A04, 0xC2D7FFA7, 0xB5D0CF31, 0x2CD99E8B, 0x5BDEAE1D,
      0x9B64C2B0, 0xEC63F226, 0x756AA39C, 0x026D930A, 0x9C0906A9, 0xEB0E363F, 0x72076785, 0x05005713,
      0x95BF4A82, 0xE2B87A14, 0x7BB12BAE, 0x0CB61B38, 0x92D28E9B, 0xE5D5BE0D, 0x7CDCEFB7, 0x0BDBDF21,
      0x86D3D2D4, 0xF1D4E242, 0x68DDB3F8, 0x1FDA836E, 0x81BE16CD, 0xF6B9265B, 0x6FB077E1, 0x18B74777,
      0x88085AE6, 0xFF0F6A70, 0x66063BCA, 0x11010B5C, 0x8F659EFF, 0xF862AE69, 0x616BFFD3, 0x166CCF45,
      0xA00AE278, 0xD70DD2EE, 0x4E048354, 0x3903B3C2, 0xA7672661, 0xD06016F7, 0x4969474D, 0x3E6E77DB,
      0xAED16A4A, 0xD9D65ADC, 0x40DF0B66, 0x37D83BF0, 0xA9BCAE53, 0xDEBB9EC5, 0x47B2CF7F, 0x30B5FFE9,
      0xBDBDF21C, 0xCABAC28A, 0x53B39330, 0x24B4A3A6, 0xBAD03605, 0xCDD70693, 0x54DE5729, 0x23D967BF,
      0xB3667A2E, 0xC4614AB8, 0x5D681B02, 0x2A6F2B94, 0xB40BBE37, 0xC30C8EA1, 0x5A05DF1B, 0x2D02EF8D]"

fun quick :: "uint32 \<Rightarrow> bytes \<Rightarrow> uint32" where
  "quick crc [] = crc"
| "quick crc (b # udata) =
     quick (push_bit 8 crc XOR CRC_QUICK_TABLE ! unat (ucast (drop_bit 24 crc) XOR b)) udata"

fun reversed_loop :: "uint32 \<Rightarrow> bytes \<Rightarrow> uint32" where
  "reversed_loop crc [] = crc"
| "reversed_loop crc (b # udata) =
     reversed_loop (drop_bit 8 crc XOR CRC_REVERSED_TABLE ! unat (ucast crc XOR b)) udata"

definition reversed :: "uint32 \<Rightarrow> bytes \<Rightarrow> uint32" where
  "reversed crc udata = NOT (reversed_loop (NOT crc) udata)"

section \<open>Division one bit at a time\<close>

definition quick_bit :: "uint32 \<Rightarrow> uint32" where
  "quick_bit crc = push_bit 1 crc XOR (if bit crc 31 then 0x04C11DB7 else 0)"

definition reversed_bit :: "uint32 \<Rightarrow> uint32" where
  "reversed_bit crc = drop_bit 1 crc XOR (if bit crc 0 then 0xEDB88320 else 0)"

fun pairs :: "'a list \<Rightarrow> ('a \<times> 'a) list" where
  "pairs (a # b # xs) = (a, b) # pairs xs"
| "pairs xs = []"

lemma nth_pairs: "2 * k + 1 < length xs \<Longrightarrow> pairs xs ! k = (xs ! (2 * k), xs ! (2 * k + 1)) \<and> k < length (pairs xs)"
proof (induction xs arbitrary: k rule: pairs.induct)
  case (1 a b xs)
  then show ?case by (cases k) simp_all
qed simp_all

lemma top_bit: "bit (x :: uint32) 31 \<longleftrightarrow> \<not> x < 0x80000000"
proof -
  have "unat x < 2 ^ 32" using unsigned_less [of x] by simp
  then have "unat x div 2 ^ 31 = (if unat x < 2 ^ 31 then 0 else 1)" by auto
  moreover have "bit x 31 \<longleftrightarrow> odd (unat x div 2 ^ 31)" 
    using bit_unsigned_iff [where 'a = nat, of x 31] bit_iff_odd [of "unat x" 31] by simp
  ultimately show ?thesis by (simp add: word_less_nat_alt)
qed

lemma quick_bit_less: "quick_bit x = (if x < 0x80000000 then 2 * x else 2 * x XOR 0x04C11DB7)"
  by (simp add: quick_bit_def top_bit push_bit_eq_mult mult.commute)

lemma reversed_bit_odd: "reversed_bit x = (if even x then x div 2 else x div 2 XOR 0xEDB88320)"
  by (simp add: reversed_bit_def drop_bit_eq_div bit_0)

lemma quick_pairs:
  "map fst (pairs CRC_QUICK_TABLE) = map quick_bit (take 128 CRC_QUICK_TABLE)"
  by (simp add: CRC_QUICK_TABLE_def quick_bit_less)

lemma quick_pairs_odd:
  "list_all (\<lambda>(a, b). b = a XOR 0x04C11DB7) (pairs CRC_QUICK_TABLE)"
  by (simp add: CRC_QUICK_TABLE_def)

lemma reversed_pairs:
  "map (\<lambda>(a, b). reversed_bit a) (pairs CRC_REVERSED_TABLE) = take 128 CRC_REVERSED_TABLE"
  by (simp add: CRC_REVERSED_TABLE_def reversed_bit_odd)

lemma reversed_pairs_odd:
  "list_all (\<lambda>(a, b). b = a XOR 0x77073096) (pairs CRC_REVERSED_TABLE)"
  by (simp add: CRC_REVERSED_TABLE_def)

lemma linear_bits:
  "(quick_bit ^^ n) (x XOR y) = (quick_bit ^^ n) x XOR (quick_bit ^^ n) y"
  "(reversed_bit ^^ n) (x XOR y) = (reversed_bit ^^ n) x XOR (reversed_bit ^^ n) y"
proof -
  have "quick_bit (x XOR y) = quick_bit x XOR quick_bit y" for x y
    by (simp add: quick_bit_def push_bit_xor bit_xor_iff) (auto simp: ac_simps)
  then show "(quick_bit ^^ n) (x XOR y) = (quick_bit ^^ n) x XOR (quick_bit ^^ n) y" by (induction n) simp_all
  have "reversed_bit (x XOR y) = reversed_bit x XOR reversed_bit y" for x y
    by (simp add: reversed_bit_def drop_bit_xor bit_xor_iff) (auto simp: ac_simps)
  then show "(reversed_bit ^^ n) (x XOR y) = (reversed_bit ^^ n) x XOR (reversed_bit ^^ n) y" by (induction n) simp_all
qed

text \<open>A zero that is shifted out takes nothing away.\<close>

lemma shift_bits:
  "take_bit (32 - n) x = x \<Longrightarrow> n \<le> 32 \<Longrightarrow> (quick_bit ^^ n) x = push_bit n x"
  "take_bit n x = 0 \<Longrightarrow> (reversed_bit ^^ n) x = drop_bit n x"
proof (induction n)
  case (Suc n)
  {
    case 1
    then have z: "\<not> bit x j" if "31 - n \<le> j" for j using that bit_take_bit_iff [of "32 - Suc n" x j] by auto
    then have "bit (take_bit (32 - n) x) j = bit x j" for j by (cases "j < 32 - n") (auto simp: bit_take_bit_iff)
    then have "take_bit (32 - n) x = x" by (intro bit_word_eqI)
    moreover have "\<not> bit (push_bit n x) 31" using z [of "31 - n"] by (simp add: bit_push_bit_iff)
    ultimately show ?case using Suc.IH(1) 1(2) by (simp add: quick_bit_def push_bit_double ac_simps)
  next
    case 2
    then have z: "\<not> bit x j" if "j \<le> n" for j using that bit_take_bit_iff [of "Suc n" x j] by auto
    then have "take_bit n x = 0" by (intro bit_word_eqI) (auto simp: bit_take_bit_iff)
    then show ?case using Suc.IH(2) z [of n] by (simp add: reversed_bit_def bit_drop_bit_eq drop_bit_drop_bit)
  }
qed simp_all

lemma xor_zero: "x XOR y = 0 \<Longrightarrow> x = y" for x y :: "'a :: len word"
  by (metis xor.assoc xor_self_eq xor.left_neutral xor.right_neutral)

lemma inj_bits: "inj (quick_bit ^^ n)" "inj (reversed_bit ^^ n)"
proof -
  have q: "z = 0" if "quick_bit z = 0" for z
  proof -
    have b: "bit (push_bit 1 z XOR (if bit z 31 then 0x04C11DB7 else 0 :: uint32)) j = bit (0 :: uint32) j" for j
      using that unfolding quick_bit_def by simp
    have t: "\<not> bit z 31" using b [of 0] by (auto simp: bit_0 even_xor_iff)
    then have p: "push_bit 1 z = 0" using that by (simp only: quick_bit_def if_False xor.right_neutral)
    have "bit z j = bit 0 j" if "j < 32" for j
      using arg_cong [OF p, of "\<lambda>w. bit w (Suc j)"] t that
      by (cases "j = 31") (simp_all only: bit_push_bit_iff, simp_all)
    then show ?thesis by (intro bit_word_eqI) simp
  qed
  have r: "z = 0" if "reversed_bit z = 0" for z
  proof -
    have b: "bit (drop_bit 1 z XOR (if bit z 0 then 0xEDB88320 else 0 :: uint32)) j = bit (0 :: uint32) j" for j
      using that unfolding reversed_bit_def by simp
    have t: "\<not> bit z 0" using b [of 31] bit_imp_le_length [of z 32] by (auto simp: bit_simps)
    have "bit z j = bit 0 j" if "j < 32" for j using b [of "j - 1"] t that by (cases "j = 0") (auto simp: bit_simps)
    then show ?thesis by (intro bit_word_eqI) simp
  qed
  have "x = y" if "quick_bit x = quick_bit y" for x y using q [of "x XOR y"] linear_bits(1) [of 1 x y] that by (auto dest: xor_zero)
  then show "inj (quick_bit ^^ n)" by (intro inj_fn injI)
  have "x = y" if "reversed_bit x = reversed_bit y" for x y using r [of "x XOR y"] linear_bits(2) [of 1 x y] that by (auto dest: xor_zero)
  then show "inj (reversed_bit ^^ n)" by (intro inj_fn injI)
qed

section \<open>The tables\<close>

lemma quick_table_step:
  assumes "k < 128"
  shows "CRC_QUICK_TABLE ! (2 * k) = quick_bit (CRC_QUICK_TABLE ! k)"
    "CRC_QUICK_TABLE ! (2 * k + 1) = CRC_QUICK_TABLE ! (2 * k) XOR 0x04C11DB7"
proof -
  have "length CRC_QUICK_TABLE = 256" by (simp add: CRC_QUICK_TABLE_def)
  with assms have p: "pairs CRC_QUICK_TABLE ! k = (CRC_QUICK_TABLE ! (2 * k), CRC_QUICK_TABLE ! (2 * k + 1))"
    "k < length (pairs CRC_QUICK_TABLE)" "k < length (take 128 CRC_QUICK_TABLE)" using nth_pairs [of k CRC_QUICK_TABLE] by simp_all
  from arg_cong [OF quick_pairs, of "\<lambda>xs. xs ! k"] p assms
  show "CRC_QUICK_TABLE ! (2 * k) = quick_bit (CRC_QUICK_TABLE ! k)" by simp
  from quick_pairs_odd p show "CRC_QUICK_TABLE ! (2 * k + 1) = CRC_QUICK_TABLE ! (2 * k) XOR 0x04C11DB7"
    by (auto simp: list_all_length)
qed

lemma reversed_table_step:
  assumes "k < 128"
  shows "reversed_bit (CRC_REVERSED_TABLE ! (2 * k)) = CRC_REVERSED_TABLE ! k"
    "CRC_REVERSED_TABLE ! (2 * k + 1) = CRC_REVERSED_TABLE ! (2 * k) XOR 0x77073096"
proof -
  have "length CRC_REVERSED_TABLE = 256" by (simp add: CRC_REVERSED_TABLE_def)
  with assms have p: "pairs CRC_REVERSED_TABLE ! k = (CRC_REVERSED_TABLE ! (2 * k), CRC_REVERSED_TABLE ! (2 * k + 1))"
    "k < length (pairs CRC_REVERSED_TABLE)" using nth_pairs [of k CRC_REVERSED_TABLE] by simp_all
  from arg_cong [OF reversed_pairs, of "\<lambda>xs. xs ! k"] p assms
  show "reversed_bit (CRC_REVERSED_TABLE ! (2 * k)) = CRC_REVERSED_TABLE ! k" by simp
  from reversed_pairs_odd p show "CRC_REVERSED_TABLE ! (2 * k + 1) = CRC_REVERSED_TABLE ! (2 * k) XOR 0x77073096"
    by (auto simp: list_all_length)
qed

lemma byte_halves:
  assumes "k < 128"
  shows "(word_of_nat (2 * k + 1) :: uint32) = word_of_nat (2 * k) XOR 1" "even (word_of_nat (2 * k) :: uint32)"
    "drop_bit 1 (word_of_nat (2 * k) :: uint32) = word_of_nat k" "push_bit 1 (word_of_nat k :: uint32) = word_of_nat (2 * k)"
proof -
  show e: "even (word_of_nat (2 * k) :: uint32)" by simp
  then show "(word_of_nat (2 * k + 1) :: uint32) = word_of_nat (2 * k) XOR 1" by (simp add: xor_one_eq)
  show "drop_bit 1 (word_of_nat (2 * k) :: uint32) = word_of_nat k"
    unfolding word_unat_eq_iff unat_drop_bit_div using assms by (simp add: unat_of_nat del: of_nat_mult)
  show "push_bit 1 (word_of_nat k :: uint32) = word_of_nat (2 * k)" by simp
qed

lemma quick_table_one: "(quick_bit ^^ 8) (push_bit 24 1) = 0x04C11DB7"
proof -
  have "(quick_bit ^^ 7) 0x1000000 = push_bit 7 0x1000000" by (rule shift_bits(1)) simp_all
  then have "(quick_bit ^^ Suc 7) 0x1000000 = quick_bit (push_bit 7 0x1000000)" by (simp only: funpow.simps o_apply)
  then show ?thesis by (simp add: quick_bit_less)
qed

lemma quick_table: "n < 256 \<Longrightarrow> CRC_QUICK_TABLE ! n = (quick_bit ^^ 8) (push_bit 24 (word_of_nat n))"
proof (induction n rule: less_induct)
  case (less n)
  define k where "k = n div 2"
  have k: "k < 128" using less.prems by (simp add: k_def)
  have e: "CRC_QUICK_TABLE ! (2 * k) = (quick_bit ^^ 8) (push_bit 24 (word_of_nat (2 * k)))"
  proof (cases "k = 0")
    case True
    have "(quick_bit ^^ 8) 0 = push_bit 8 0" by (rule shift_bits(1)) simp_all
    then show ?thesis using True by (simp add: CRC_QUICK_TABLE_def)
  next
    case False
    have "unat (push_bit 24 (word_of_nat k :: uint32)) = k * 2 ^ 24"
      using k by (simp add: push_bit_eq_mult unat_word_ariths unat_of_nat)
    then have "\<not> bit (push_bit 24 (word_of_nat k :: uint32)) 31" using k by (simp add: top_bit word_less_nat_alt)
    then have "push_bit 24 (word_of_nat (2 * k)) = quick_bit (push_bit 24 (word_of_nat k))"
      unfolding byte_halves(4) [OF k, symmetric] quick_bit_def push_bit_push_bit by (simp add: add.commute)
    then show ?thesis using less.IH [of k] k False quick_table_step(1) [OF k] by (simp add: k_def funpow_swap1)
  qed
  have "n = 2 * k \<or> n = 2 * k + 1" by (auto simp: k_def)
  then show ?case
    using e quick_table_step(2) [OF k] quick_table_one linear_bits(1) [of 8 "push_bit 24 (word_of_nat (2 * k))" "push_bit 24 1"]
    by (auto simp only: byte_halves(1) [OF k] push_bit_xor)
qed

lemma eight_times: "(f ^^ 8) x = f (f (f (f (f (f (f (f x)))))))"
  by (simp add: eval_nat_numeral)

lemma reversed_table_one: "(reversed_bit ^^ 8) 1 = 0x77073096"
  by (simp add: eight_times reversed_bit_odd)

lemma reversed_table: "n < 256 \<Longrightarrow> CRC_REVERSED_TABLE ! n = (reversed_bit ^^ 8) (word_of_nat n)"
proof (induction n rule: less_induct)
  case (less n)
  define k where "k = n div 2"
  have k: "k < 128" using less.prems by (simp add: k_def)
  have e: "CRC_REVERSED_TABLE ! (2 * k) = (reversed_bit ^^ 8) (word_of_nat (2 * k))"
  proof (cases "k = 0")
    case True
    have "(reversed_bit ^^ 8) 0 = drop_bit 8 0" by (rule shift_bits(2)) simp_all
    then show ?thesis using True by (simp add: CRC_REVERSED_TABLE_def)
  next
    case False
    have "reversed_bit (word_of_nat (2 * k)) = word_of_nat k"
      unfolding reversed_bit_def byte_halves(3) [OF k] using byte_halves(2) [OF k] by (simp add: bit_0)
    then have "reversed_bit (CRC_REVERSED_TABLE ! (2 * k)) = reversed_bit ((reversed_bit ^^ 8) (word_of_nat (2 * k)))"
      using less.IH [of k] k False reversed_table_step(1) [OF k] by (simp add: k_def funpow_swap1)
    then show ?thesis using inj_bits(2) [of 1] by (simp add: inj_eq)
  qed
  have "n = 2 * k \<or> n = 2 * k + 1" by (auto simp: k_def)
  then show ?case
    using e reversed_table_step(2) [OF k] reversed_table_one linear_bits(2) [of 8 "word_of_nat (2 * k)" 1]
    by (auto simp only: byte_halves(1) [OF k])
qed

section \<open>One byte\<close>

lemma quick_step:
  "push_bit 8 crc XOR CRC_QUICK_TABLE ! unat (ucast (drop_bit 24 crc) XOR b) = (quick_bit ^^ 8) (crc XOR push_bit 24 (ucast b))"
  for b :: byte
proof -
  define i where "i = ucast (drop_bit 24 crc) XOR b"
  have t: "CRC_QUICK_TABLE ! unat i = (quick_bit ^^ 8) (push_bit 24 (ucast i))" by (simp add: quick_table)
  have "crc XOR push_bit 24 (ucast b) = take_bit 24 crc XOR push_bit 24 (ucast i)"
    by (rule bit_word_eqI) (auto simp: i_def bit_simps)
  moreover have "(quick_bit ^^ 8) (take_bit 24 crc) = push_bit 8 (take_bit 24 crc)" by (rule shift_bits(1)) simp_all
  moreover have "push_bit 8 (take_bit 24 crc) = push_bit 8 crc" by (rule bit_word_eqI) (auto simp: bit_simps)
  ultimately show ?thesis unfolding i_def [symmetric] t by (simp add: linear_bits(1))
qed

lemma reversed_step:
  "drop_bit 8 crc XOR CRC_REVERSED_TABLE ! unat (ucast crc XOR b) = (reversed_bit ^^ 8) (crc XOR ucast b)"
  for b :: byte
proof -
  define i where "i = ucast crc XOR b"
  have t: "CRC_REVERSED_TABLE ! unat i = (reversed_bit ^^ 8) (ucast i)" by (simp add: reversed_table)
  have "crc XOR ucast b = push_bit 8 (drop_bit 8 crc) XOR ucast i"
    by (rule bit_word_eqI) (auto simp: i_def bit_simps)
  moreover have "(reversed_bit ^^ 8) (push_bit 8 (drop_bit 8 crc)) = drop_bit 8 (push_bit 8 (drop_bit 8 crc))"
    by (rule shift_bits(2)) (simp add: take_bit_push_bit)
  moreover have "drop_bit 8 (push_bit 8 (drop_bit 8 crc)) = drop_bit 8 crc"
    by (rule bit_word_eqI) (auto simp: bit_simps dest: bit_imp_le_length)
  ultimately show ?thesis unfolding i_def [symmetric] t by (simp add: linear_bits(2))
qed

lemma crc_append: "quick crc (xs @ ys) = quick (quick crc xs) ys" "reversed_loop crc (xs @ ys) = reversed_loop (reversed_loop crc xs) ys"
  by (induction xs arbitrary: crc) simp_all

section \<open>Up to four bytes\<close>

text \<open>The bytes as they are added to the remainder, the first one where the division begins.\<close>

fun quick_word :: "bytes \<Rightarrow> uint32" where
  "quick_word [] = 0"
| "quick_word (b # bs) = push_bit 24 (ucast b) XOR drop_bit 8 (quick_word bs)"

fun reversed_word :: "bytes \<Rightarrow> uint32" where
  "reversed_word [] = 0"
| "reversed_word (b # bs) = ucast b XOR push_bit 8 (reversed_word bs)"

lemma quick_word_low: "length bs \<le> 4 \<Longrightarrow> bit (quick_word bs) j \<Longrightarrow> 32 - 8 * length bs \<le> j"
proof (induction bs arbitrary: j)
  case (Cons b bs)
  then show ?case by (fastforce simp: bit_simps)
qed simp

lemma reversed_word_low: "length bs \<le> 4 \<Longrightarrow> bit (reversed_word bs) j \<Longrightarrow> j < 8 * length bs"
proof (induction bs arbitrary: j)
  case (Cons b bs)
  then show ?case by (fastforce simp: bit_simps dest: bit_imp_le_length)
qed simp

lemma funpow_bytes: "(f ^^ (8 * length (b # bs))) x = (f ^^ (8 * length bs)) ((f ^^ 8) x)"
proof -
  have "8 * length (b # bs) = 8 * length bs + 8" by simp
  then show ?thesis by (simp only: funpow_add o_apply)
qed

lemma quick_bytes: "length bs \<le> 4 \<Longrightarrow> quick crc bs = (quick_bit ^^ (8 * length bs)) (crc XOR quick_word bs)"
proof (induction bs arbitrary: crc)
  case (Cons b bs)
  let ?x = "drop_bit 8 (quick_word bs)"
  have "(quick_bit ^^ 8) ?x = push_bit 8 ?x" by (rule shift_bits(1)) (rule bit_word_eqI, auto simp: bit_simps dest: bit_imp_le_length)
  moreover have "push_bit 8 ?x = quick_word bs"
    using quick_word_low [of bs] Cons.prems by (intro bit_word_eqI) (fastforce simp: bit_simps)
  ultimately have "(quick_bit ^^ 8) (crc XOR quick_word (b # bs)) = (quick_bit ^^ 8) (crc XOR push_bit 24 (ucast b)) XOR quick_word bs"
    by (simp only: quick_word.simps linear_bits(1) xor.assoc)
  then show ?case using Cons.IH [of "(quick_bit ^^ 8) (crc XOR push_bit 24 (ucast b))"] Cons.prems
    unfolding quick.simps quick_step funpow_bytes by simp
qed simp

lemma reversed_bytes: "length bs \<le> 4 \<Longrightarrow> reversed_loop crc bs = (reversed_bit ^^ (8 * length bs)) (crc XOR reversed_word bs)"
proof (induction bs arbitrary: crc)
  case (Cons b bs)
  let ?x = "push_bit 8 (reversed_word bs)"
  have "(reversed_bit ^^ 8) ?x = drop_bit 8 ?x" by (rule shift_bits(2)) (simp add: take_bit_push_bit)
  moreover have "drop_bit 8 ?x = reversed_word bs"
    using reversed_word_low [of bs] Cons.prems by (intro bit_word_eqI) (fastforce simp: bit_simps)
  ultimately have "(reversed_bit ^^ 8) (crc XOR reversed_word (b # bs)) = (reversed_bit ^^ 8) (crc XOR ucast b) XOR reversed_word bs"
    by (simp only: reversed_word.simps linear_bits(2) xor.assoc)
  then show ?case using Cons.IH [of "(reversed_bit ^^ 8) (crc XOR ucast b)"] Cons.prems
    unfolding reversed_loop.simps reversed_step funpow_bytes by simp
qed simp

text \<open>The bytes are in the word.\<close>

lemma xor_cancel: "x XOR y = x XOR z \<Longrightarrow> y = z" for x y z :: "'a :: len word"
  by (metis xor.assoc xor_self_eq xor.left_neutral)

lemma word_head:
  "ucast (drop_bit 24 (quick_word (b # bs))) = b" "ucast (reversed_word (b # bs)) = b"
  by (rule bit_word_eqI, auto simp: bit_simps dest: bit_imp_le_length)+

lemma word_tail:
  assumes "length bs \<le> 3"
  shows "push_bit 8 (drop_bit 8 (quick_word bs)) = quick_word bs" "drop_bit 8 (push_bit 8 (reversed_word bs)) = reversed_word bs"
  using quick_word_low [of bs] reversed_word_low [of bs] assms
  by (intro bit_word_eqI; fastforce simp: bit_simps)+

lemma words_inject:
  "length us = length vs \<Longrightarrow> length us \<le> 4 \<Longrightarrow> quick_word us = quick_word vs \<Longrightarrow> us = vs"
  "length us = length vs \<Longrightarrow> length us \<le> 4 \<Longrightarrow> reversed_word us = reversed_word vs \<Longrightarrow> us = vs"
proof (induction us vs rule: list_induct2)
  case (Cons u us v vs)
  {
    case 1
    then have len: "length us \<le> 3" "length vs \<le> 3" using Cons.hyps by simp_all
    from 1 have u: "u = v" using word_head(1) [of u us] word_head(1) [of v vs] by (simp only:)
    then have "drop_bit 8 (quick_word us) = drop_bit 8 (quick_word vs)" using 1 by (auto dest: xor_cancel)
    then have "quick_word us = quick_word vs" using word_tail(1) len by metis
    then show ?case using Cons.IH(1) len u by simp
  next
    case 2
    then have len: "length us \<le> 3" "length vs \<le> 3" using Cons.hyps by simp_all
    from 2 have u: "u = v" using word_head(2) [of u us] word_head(2) [of v vs] by (simp only:)
    then have "push_bit 8 (reversed_word us) = push_bit 8 (reversed_word vs)" using 2 by (auto dest: xor_cancel)
    then have "reversed_word us = reversed_word vs" using word_tail(2) len by metis
    then show ?case using Cons.IH(2) len u by simp
  }
qed simp_all

text \<open>The rest of the data keeps a difference.\<close>

lemma crc_keeps_difference: "quick c s = quick d s \<longleftrightarrow> c = d" "reversed_loop c s = reversed_loop d s \<longleftrightarrow> c = d"
proof -
  have x: "a XOR x = b XOR x \<longleftrightarrow> a = b" for a b x :: uint32 using xor_cancel [of x a b] by (auto simp: xor.commute)
  show "quick c s = quick d s \<longleftrightarrow> c = d"
    by (induction s arbitrary: c d) (simp_all add: quick_step inj_eq [OF inj_bits(1)] x)
  show "reversed_loop c s = reversed_loop d s \<longleftrightarrow> c = d"
    by (induction s arbitrary: c d) (simp_all add: reversed_step inj_eq [OF inj_bits(2)] x)
qed

section \<open>Properties\<close>

text \<open>
  C39: \<^verbatim>\<open>quick\<close> and \<^verbatim>\<open>reversed\<close>, which look up a whole byte in a table of 256 words, give the remainder of the
  division by the polynomial of CRC-32 one bit at a time, with the most or the least significant
  bit first.
\<close>

theorem crc_bitwise:
  "quick crc udata = foldl (\<lambda>c b. (quick_bit ^^ 8) (c XOR push_bit 24 (ucast b))) crc udata \<and>
   reversed crc udata = NOT (foldl (\<lambda>c b. (reversed_bit ^^ 8) (c XOR ucast b)) (NOT crc) udata)"
proof -
  have "quick crc udata = foldl (\<lambda>c b. (quick_bit ^^ 8) (c XOR push_bit 24 (ucast b))) crc udata" for crc
    by (induction udata arbitrary: crc) (simp_all add: quick_step)
  moreover have "reversed_loop crc udata = foldl (\<lambda>c b. (reversed_bit ^^ 8) (c XOR ucast b)) crc udata" for crc
    by (induction udata arbitrary: crc) (simp_all add: reversed_step)
  ultimately show ?thesis by (simp add: reversed_def)
qed

text \<open>
  C40: every change that is confined to four consecutive bytes, in particular every burst of at most
  32 bits that begins at a byte, changes both checksums, wherever it happens in the data; and a
  checksum can be continued over the next block of data.
\<close>

theorem crc_detects_bursts:
  assumes "length us = length vs" "length us \<le> 4"
  shows "(quick crc (prefix @ us @ rest) = quick crc (prefix @ vs @ rest) \<longleftrightarrow> us = vs) \<and>
    (reversed crc (prefix @ us @ rest) = reversed crc (prefix @ vs @ rest) \<longleftrightarrow> us = vs) \<and>
    quick crc (us @ rest) = quick (quick crc us) rest \<and> reversed crc (us @ rest) = reversed (reversed crc us) rest"
proof -
  have "quick c us = quick c vs \<longleftrightarrow> us = vs" "reversed_loop c us = reversed_loop c vs \<longleftrightarrow> us = vs" for c
    using assms words_inject [OF assms] quick_bytes [of us c] quick_bytes [of vs c] reversed_bytes [of us c] reversed_bytes [of vs c]
    by (auto simp: inj_eq [OF inj_bits(1)] inj_eq [OF inj_bits(2)] dest: xor_cancel)
  then show ?thesis by (simp add: reversed_def crc_append crc_keeps_difference)
qed

theorem crc_detects_bursts_witness:
  "reversed 0 (chars ''amount=100'') \<noteq> reversed 0 (chars ''amount=900'')"
  using crc_detects_bursts [of "chars ''1''" "chars ''9''" 0 "chars ''amount=''" "chars ''00''"] by simp

end
