(* ===== verification/Sub_String.thy ===== *)
theory Sub_String
  imports Ascii_String_Manip
begin

text \<open>
  \<^verbatim>\<open>BasicSubString\<close> of \<^verbatim>\<open>src/src/String/SubString.hpp\<close>, \<^verbatim>\<open>SubString.tpp\<close> and \<^verbatim>\<open>SubStringFind.tpp\<close>, in its
  instance \<^verbatim>\<open>String::SubString\<close>: a pointer and a length, without checks (\<^verbatim>\<open>CheckerNone\<close>).  A substring
  is the list of its characters; \<open>OutOfBounds\<close> marks a view or a read that leaves them, which the
  class does not prevent.  Positions are 64 bit values (written as numbers below \<open>NPOS\<close>) and a
  search returns \<open>None\<close> for \<open>NPOS\<close>.  The searches are shown to find the first and the last match,
  and the order of \<open>compare\<close> to be the lexicographic one.
\<close>

section \<open>Positions and views\<close>

definition NPOS :: nat where
  "NPOS = 2 ^ 64 - 1"

text \<open>\<^verbatim>\<open>std::min(count, length_ - pos)\<close>, with the wrap-around of the difference.\<close>

definition get_available_length :: "bytes \<Rightarrow> nat \<Rightarrow> nat \<Rightarrow> nat" where
  "get_available_length s pos count =
     min count (if pos \<le> length s then length s - pos else length s + 2 ^ 64 - pos)"

definition sub_substr :: "bytes \<Rightarrow> nat \<Rightarrow> nat \<Rightarrow> bytes result" where
  "sub_substr s pos count =
     (if length s < pos then Inl OutOfBounds
      else Inr (take (get_available_length s pos count) (drop pos s)))"

definition sub_at :: "bytes \<Rightarrow> nat \<Rightarrow> byte result" where
  "sub_at s pos = rd s pos"

definition erase_front :: "bytes \<Rightarrow> nat \<Rightarrow> bytes" where
  "erase_front s count = (let count = min count (length s) in drop count s)"

definition erase_back :: "bytes \<Rightarrow> nat \<Rightarrow> bytes" where
  "erase_back s count = take (length s - min count (length s)) s"

text \<open>\<^verbatim>\<open>copy\<close> returns the number of characters written and the buffer.\<close>

definition sub_copy :: "bytes \<Rightarrow> bytes \<Rightarrow> nat \<Rightarrow> nat \<Rightarrow> (nat \<times> bytes) result" where
  "sub_copy s ptr count pos =
     (let count = get_available_length s pos count
      in if count = 0 then Inr (0, ptr)
         else if length s < pos + count \<or> length ptr < count then Inl OutOfBounds
         else Inr (count, take count (drop pos s) @ drop count ptr))"

section \<open>Comparison\<close>

text \<open>\<^verbatim>\<open>char_traits<char>::lt\<close> compares as \<^verbatim>\<open>unsigned char\<close>, which is the order of words.\<close>

fun traits_compare :: "bytes \<Rightarrow> bytes \<Rightarrow> nat \<Rightarrow> int result" where
  "traits_compare str1 str2 0 = Inr 0"
| "traits_compare (a # str1) (b # str2) (Suc n) =
     (if a \<noteq> b then Inr (if a < b then -1 else 1) else traits_compare str1 str2 n)"
| "traits_compare _ _ (Suc n) = Inl OutOfBounds"

definition sub_compare :: "bytes \<Rightarrow> bytes \<Rightarrow> int result" where
  "sub_compare s str =
     (let LEN = min (length s) (length str)
      in rbind (traits_compare s str LEN) (\<lambda>RESULT.
           Inr (if RESULT \<noteq> 0 then RESULT
                else if length s = length str then 0
                else if length s < length str then -1 else 1)))"

definition sub_compare_range :: "bytes \<Rightarrow> nat \<Rightarrow> nat \<Rightarrow> bytes \<Rightarrow> int result" where
  "sub_compare_range s pos1 count1 str =
     rbind (sub_substr s pos1 count1) (\<lambda>sub. sub_compare sub str)"

definition sub_compare_ranges :: "bytes \<Rightarrow> nat \<Rightarrow> nat \<Rightarrow> bytes \<Rightarrow> nat \<Rightarrow> nat \<Rightarrow> int result" where
  "sub_compare_ranges s pos1 count1 str pos2 count2 =
     rbind (sub_substr s pos1 count1) (\<lambda>sub.
     rbind (sub_substr str pos2 count2) (\<lambda>sub2. sub_compare sub sub2))"

text \<open>\<open>sub_compare_cstr\<close> and \<open>sub_equal_cstr\<close> read the memory of a C string with its terminator.\<close>

fun sub_compare_cstr :: "bytes \<Rightarrow> bytes \<Rightarrow> int result" where
  "sub_compare_cstr _ [] = Inl OutOfBounds"
| "sub_compare_cstr [] (CH # str) = Inr (if CH = 0 then 0 else -1)"
| "sub_compare_cstr (CH2 # s) (CH # str) =
     (if CH = 0 then Inr (-1)
      else if CH2 \<noteq> CH then Inr (if CH2 < CH then -1 else 1)
      else sub_compare_cstr s str)"

fun sub_equal_cstr :: "bytes \<Rightarrow> bytes \<Rightarrow> bool result" where
  "sub_equal_cstr _ [] = Inl OutOfBounds"
| "sub_equal_cstr [] (CH # str) = Inr (CH = 0)"
| "sub_equal_cstr (CH2 # s) (CH # str) =
     (if CH = 0 \<or> CH2 \<noteq> CH then Inr False else sub_equal_cstr s str)"

definition sub_equal :: "bytes \<Rightarrow> bytes \<Rightarrow> bool result" where
  "sub_equal s str =
     (if length str \<noteq> length s then Inr False
      else rmap (\<lambda>c. c = 0) (traits_compare s str (length s)))"

section \<open>Searches\<close>

text \<open>\<^verbatim>\<open>CharTraits::find\<close> in the range of \<open>size\<close> characters from \<open>str\<close>.\<close>

fun traits_find :: "bytes \<Rightarrow> byte \<Rightarrow> nat option" where
  "traits_find [] c = None"
| "traits_find (x # str) c = (if x = c then Some 0 else map_option Suc (traits_find str c))"

definition sub_find :: "bytes \<Rightarrow> byte \<Rightarrow> nat \<Rightarrow> nat option" where
  "sub_find s c pos =
     (if pos < length s then map_option ((+) pos) (traits_find (drop pos s) c) else None)"

text \<open>\<^verbatim>\<open>std::search\<close>: the first position at which the pattern stands, or the end.\<close>

fun std_search :: "bytes \<Rightarrow> bytes \<Rightarrow> nat" where
  "std_search [] p = 0"
| "std_search (c # cs) p = (if take (length p) (c # cs) = p then 0 else Suc (std_search cs p))"

definition sub_find_str :: "bytes \<Rightarrow> bytes \<Rightarrow> nat \<Rightarrow> nat option result" where
  "sub_find_str s str pos =
     (if str = [] then Inr (if length s \<le> pos then None else Some 0)
      else let len = get_available_length s pos (length s)
        in if len < length str then Inr None
           else if length s < pos then Inl OutOfBounds
           else let FOUND = pos + std_search (drop pos s) str
             in Inr (if FOUND \<noteq> length s then Some FOUND else None))"

fun rfind_loop :: "(nat \<Rightarrow> bool) \<Rightarrow> nat \<Rightarrow> nat option" where
  "rfind_loop hit 0 = (if hit 0 then Some 0 else None)"
| "rfind_loop hit (Suc last') = (if hit (Suc last') then Some (Suc last') else rfind_loop hit last')"

definition sub_rfind :: "bytes \<Rightarrow> byte \<Rightarrow> nat \<Rightarrow> nat option" where
  "sub_rfind s c pos =
     (if s \<noteq> [] then rfind_loop (\<lambda>i. s ! i = c) (min (length s - 1) pos) else None)"

definition sub_rfind_str :: "bytes \<Rightarrow> bytes \<Rightarrow> nat \<Rightarrow> nat option" where
  "sub_rfind_str s str pos =
     (if length s < length str then None
      else let pos = (if length s < pos then length s else pos)
        in if str = [] then Some pos
           else let pos = (if length s - length str < pos then length s - length str else pos)
             in rfind_loop (\<lambda>i. traits_compare (drop i s) str (length str) = Inr 0) pos)"

fun first_loop :: "(byte \<Rightarrow> bool) \<Rightarrow> bytes \<Rightarrow> nat \<Rightarrow> nat option" where
  "first_loop hit [] pos = None"
| "first_loop hit (c # cs) pos = (if hit c then Some pos else first_loop hit cs (pos + 1))"

definition find_first_of :: "bytes \<Rightarrow> bytes \<Rightarrow> nat \<Rightarrow> nat option" where
  "find_first_of s str pos = first_loop (\<lambda>c. traits_find str c \<noteq> None) (drop pos s) pos"

definition find_first_not_of_char :: "bytes \<Rightarrow> byte \<Rightarrow> nat \<Rightarrow> nat option" where
  "find_first_not_of_char s c pos = first_loop (\<lambda>x. x \<noteq> c) (drop pos s) pos"

definition find_first_not_of :: "bytes \<Rightarrow> bytes \<Rightarrow> nat \<Rightarrow> nat option" where
  "find_first_not_of s str pos = first_loop (\<lambda>c. traits_find str c = None) (drop pos s) pos"

definition find_last_of :: "bytes \<Rightarrow> bytes \<Rightarrow> nat \<Rightarrow> nat option" where
  "find_last_of s str pos =
     (if s \<noteq> [] \<and> str \<noteq> []
      then rfind_loop (\<lambda>i. traits_find str (s ! i) \<noteq> None) (if length s \<le> pos then length s - 1 else pos)
      else None)"

definition find_last_not_of :: "bytes \<Rightarrow> bytes \<Rightarrow> nat \<Rightarrow> nat option" where
  "find_last_not_of s str pos =
     (if s \<noteq> [] \<and> str \<noteq> []
      then rfind_loop (\<lambda>i. traits_find str (s ! i) = None) (if length s \<le> pos then length s - 1 else pos)
      else None)"

section \<open>What the searches find\<close>

text \<open>A position at which the pattern stands.\<close>

definition occurs :: "bytes \<Rightarrow> bytes \<Rightarrow> nat \<Rightarrow> bool" where
  "occurs s p i \<longleftrightarrow> i + length p \<le> length s \<and> take (length p) (drop i s) = p"

lemma get_available_length_inside [simp]: "pos \<le> length s \<Longrightarrow> get_available_length s pos count = min count (length s - pos)"
  by (simp add: get_available_length_def)

lemma sub_substr_inside [simp]: "pos \<le> length s \<Longrightarrow> sub_substr s pos count = Inr (take count (drop pos s))"
  by (simp add: sub_substr_def min_def)

lemma rfind_loop_iff:
  "rfind_loop hit n = Some i \<longleftrightarrow> i \<le> n \<and> hit i \<and> (\<forall>j. i < j \<and> j \<le> n \<longrightarrow> \<not> hit j)"
proof (induction n)
  case (Suc n)
  show ?case
  proof (cases "hit (Suc n)")
    case True
    then show ?thesis by (auto elim!: le_SucE simp: less_Suc_eq_le)
  next
    case False
    then show ?thesis using Suc by (auto simp: le_Suc_eq)
  qed
qed auto

lemma first_loop_iff:
  "first_loop hit cs pos = Some i \<longleftrightarrow>
     pos \<le> i \<and> i - pos < length cs \<and> hit (cs ! (i - pos)) \<and> (\<forall>j. pos \<le> j \<and> j < i \<longrightarrow> \<not> hit (cs ! (j - pos)))"
proof (induction cs arbitrary: pos)
  case (Cons c cs)
  show ?case
  proof (cases "hit c")
    case True
    then show ?thesis 
      using le_neq_implies_less [of pos i] by (auto simp: nth_Cons')
  next
    case False
    have shift: "(c # cs) ! (j - pos) = cs ! (j - Suc pos)" if "Suc pos \<le> j" for j
      using that by (simp add: nth_Cons')
    show ?thesis
    proof (cases "Suc pos \<le> i")
      case True
      then have "(\<forall>j. pos \<le> j \<and> j < i \<longrightarrow> \<not> hit ((c # cs) ! (j - pos))) \<longleftrightarrow>
          (\<forall>j. Suc pos \<le> j \<and> j < i \<longrightarrow> \<not> hit (cs ! (j - Suc pos)))"
        using False shift by (metis Suc_leI diff_self_eq_0 le_neq_implies_less nth_Cons_0 Suc_leD)
      then show ?thesis using False True Cons [of "Suc pos"] shift [OF True] by auto
    next
      case outside: False
      then show ?thesis using False Cons [of "Suc pos"] by (cases "i = pos") auto
    qed
  qed
qed simp

lemma traits_find_None: "traits_find str c = None \<longleftrightarrow> c \<notin> set str"
  by (induction str) auto

lemma first_loop_drop:
  "first_loop hit (drop pos s) pos = Some i \<longleftrightarrow>
     pos \<le> i \<and> i < length s \<and> hit (s ! i) \<and> (\<forall>j. pos \<le> j \<and> j < i \<longrightarrow> \<not> hit (s ! j))"
proof (cases "pos \<le> i \<and> i < length s")
  case True
  then show ?thesis unfolding first_loop_iff by (auto simp: less_diff_conv2)
next
  case False
  then show ?thesis unfolding first_loop_iff by auto
qed

lemma traits_find_first: "map_option ((+) pos) (traits_find cs c) = first_loop (\<lambda>x. x = c) cs pos"
  by (induction cs arbitrary: pos) (auto simp: option.map_comp comp_def simp flip: add_Suc)

lemma sub_find_iff:
  "sub_find s c pos = Some i \<longleftrightarrow> pos \<le> i \<and> i < length s \<and> s ! i = c \<and> (\<forall>j. pos \<le> j \<and> j < i \<longrightarrow> s ! j \<noteq> c)"
proof (cases "pos < length s")
  case True
  then show ?thesis by (simp add: sub_find_def traits_find_first first_loop_drop)
qed (auto simp: sub_find_def)

lemma sub_rfind_iff:
  "sub_rfind s c pos = Some i \<longleftrightarrow> i \<le> pos \<and> i < length s \<and> s ! i = c \<and> (\<forall>j. i < j \<and> j \<le> pos \<and> j < length s \<longrightarrow> s ! j \<noteq> c)"
  by (cases s) (auto simp: sub_rfind_def rfind_loop_iff less_Suc_eq_le)

text \<open>The search for a pattern stops at the first position where it stands.\<close>

lemma std_search_le: "std_search s p \<le> length s"
  by (induction s) auto

lemma std_search_hit:
  assumes "p \<noteq> []" "std_search s p < length s"
  shows "occurs s p (std_search s p)"
  using assms(2)
proof (induction s)
  case (Cons c s)
  show ?case
  proof (cases "take (length p) (c # s) = p")
    case True
    then have "length p \<le> length (c # s)" by (metis length_take min.absorb_iff1 min.commute)
    then show ?thesis using True by (simp add: occurs_def)
  next
    case False
    then show ?thesis using Cons by (auto simp: occurs_def)
  qed
qed simp

lemma std_search_before: "j < std_search s p \<Longrightarrow> \<not> occurs s p j"
proof (induction s arbitrary: j)
  case (Cons c s)
  then show ?case by (cases j) (auto simp: occurs_def split: if_splits)
qed simp

lemma occurs_drop: "pos \<le> length s \<Longrightarrow> occurs (drop pos s) p i \<longleftrightarrow> occurs s p (pos + i)"
  by (auto simp: occurs_def add.commute add.assoc)

lemma sub_find_str_iff:
  assumes "str \<noteq> []" "pos \<le> length s"
  shows "\<exists>r. sub_find_str s str pos = Inr r \<and>
    (\<forall>i. r = Some i \<longleftrightarrow> pos \<le> i \<and> occurs s str i \<and> (\<forall>j. pos \<le> j \<and> j < i \<longrightarrow> \<not> occurs s str j))"
proof (cases "length s - pos < length str")
  case True
  then show ?thesis using assms by (auto simp: sub_find_str_def occurs_def)
next
  case False
  let ?k = "std_search (drop pos s) str"
  let ?r = "if pos + ?k \<noteq> length s then Some (pos + ?k) else None"
  have r: "sub_find_str s str pos = Inr ?r"
    using assms False by (simp add: sub_find_str_def Let_def)
  have before: "\<not> occurs s str j" if "pos \<le> j" "j < pos + ?k" for j
    using std_search_before [of "j - pos" "drop pos s" str] that occurs_drop [OF assms(2), of str "j - pos"] by simp
  have hit: "occurs s str (pos + ?k)" if "pos + ?k \<noteq> length s"
    using std_search_hit [OF assms(1), of "drop pos s"] std_search_le [of "drop pos s" str] that assms(2)
    by (simp add: occurs_drop)
  have none: "i < pos + ?k" if "pos + ?k = length s" "occurs s str i" for i
    using that assms(1) by (cases str) (auto simp: occurs_def)
  have "?r = Some i \<longleftrightarrow> pos \<le> i \<and> occurs s str i \<and> (\<forall>j. pos \<le> j \<and> j < i \<longrightarrow> \<not> occurs s str j)" for i
  proof (cases "pos + ?k = length s")
    case True
    then show ?thesis using none [OF True] before by auto
  next
    case False
    then show ?thesis using hit before by (auto simp: not_less_iff_gr_or_eq) (metis le_add1 linorder_neqE_nat)
  qed
  then show ?thesis using r by blast
qed

lemma traits_compare_eq:
  "n \<le> length a \<Longrightarrow> n \<le> length b \<Longrightarrow> \<exists>r. traits_compare a b n = Inr r \<and> (r = 0 \<longleftrightarrow> take n a = take n b)"
  by (induction a b n rule: traits_compare.induct) auto

lemma traits_compare_occurs:
  assumes "i + length p \<le> length s"
  shows "traits_compare (drop i s) p (length p) = Inr 0 \<longleftrightarrow> occurs s p i"
  using traits_compare_eq [of "length p" "drop i s" p] assms by (auto simp: occurs_def)

lemma sub_rfind_str_iff:
  assumes "str \<noteq> []"
  shows "sub_rfind_str s str pos = Some i \<longleftrightarrow>
    i \<le> pos \<and> occurs s str i \<and> (\<forall>j. i < j \<and> j \<le> pos \<longrightarrow> \<not> occurs s str j)"
proof (cases "length s < length str")
  case True
  then show ?thesis by (auto simp: sub_rfind_str_def occurs_def)
next
  case False
  let ?m = "length s - length str"
  have m: "sub_rfind_str s str pos =
      rfind_loop (\<lambda>i. traits_compare (drop i s) str (length str) = Inr 0) (min ?m pos)"
  proof -
    have "length s - length str < length s" using False assms by (cases str) auto
    then show ?thesis using False assms by (simp add: sub_rfind_str_def Let_def min_def)
  qed
  have le: "occurs s str j \<Longrightarrow> j \<le> ?m" for j unfolding occurs_def by arith
  have hit: "traits_compare (drop j s) str (length str) = Inr 0 \<longleftrightarrow> occurs s str j" if "j \<le> min ?m pos" for j
  proof (rule traits_compare_occurs)
    from that have "j \<le> ?m" by simp
    then show "j + length str \<le> length s" using False by arith
  qed
  show ?thesis
  proof (cases "i \<le> min ?m pos")
    case True
    have "(\<forall>j. i < j \<and> j \<le> min ?m pos \<longrightarrow> traits_compare (drop j s) str (length str) \<noteq> Inr 0) \<longleftrightarrow>
        (\<forall>j. i < j \<and> j \<le> pos \<longrightarrow> \<not> occurs s str j)"
      using hit le by auto
    then show ?thesis unfolding m rfind_loop_iff using True hit [OF True] by auto
  next
    case False
    then show ?thesis unfolding m rfind_loop_iff using le [of i] by auto
  qed
qed

lemma find_first_iff:
  "find_first_of s str pos = Some i \<longleftrightarrow>
     pos \<le> i \<and> i < length s \<and> s ! i \<in> set str \<and> (\<forall>j. pos \<le> j \<and> j < i \<longrightarrow> s ! j \<notin> set str)"
  "find_first_not_of s str pos = Some i \<longleftrightarrow>
     pos \<le> i \<and> i < length s \<and> s ! i \<notin> set str \<and> (\<forall>j. pos \<le> j \<and> j < i \<longrightarrow> s ! j \<in> set str)"
  by (simp_all add: find_first_of_def find_first_not_of_def first_loop_drop traits_find_None)

lemma find_last_iff:
  assumes "str \<noteq> []"
  shows "find_last_of s str pos = Some i \<longleftrightarrow>
      i \<le> pos \<and> i < length s \<and> s ! i \<in> set str \<and> (\<forall>j. i < j \<and> j \<le> pos \<and> j < length s \<longrightarrow> s ! j \<notin> set str)"
    and "find_last_not_of s str pos = Some i \<longleftrightarrow>
      i \<le> pos \<and> i < length s \<and> s ! i \<notin> set str \<and> (\<forall>j. i < j \<and> j \<le> pos \<and> j < length s \<longrightarrow> s ! j \<in> set str)"
proof -
  have last: "rfind_loop hit (if length s \<le> pos then length s - 1 else pos) = Some i \<longleftrightarrow>
      i \<le> pos \<and> i < length s \<and> hit i \<and> (\<forall>j. i < j \<and> j \<le> pos \<and> j < length s \<longrightarrow> \<not> hit j)"
    if "s \<noteq> []" for hit
    using that by (cases s) (auto simp: rfind_loop_iff less_Suc_eq_le)
  show "find_last_of s str pos = Some i \<longleftrightarrow>
      i \<le> pos \<and> i < length s \<and> s ! i \<in> set str \<and> (\<forall>j. i < j \<and> j \<le> pos \<and> j < length s \<longrightarrow> s ! j \<notin> set str)"
    using assms by (cases "s = []") (simp_all add: find_last_of_def last traits_find_None)
  show "find_last_not_of s str pos = Some i \<longleftrightarrow>
      i \<le> pos \<and> i < length s \<and> s ! i \<notin> set str \<and> (\<forall>j. i < j \<and> j \<le> pos \<and> j < length s \<longrightarrow> s ! j \<in> set str)"
    using assms by (cases "s = []") (simp_all add: find_last_not_of_def last traits_find_None)
qed

section \<open>The order\<close>

text \<open>\<open>three_way\<close> is what a comparison function promises of an order.\<close>

definition three_way :: "('a \<Rightarrow> 'a \<Rightarrow> bool) \<Rightarrow> 'a \<Rightarrow> 'a \<Rightarrow> int" where
  "three_way lt a b = (if lt a b then -1 else if lt b a then 1 else 0)"

lemma three_way_Cons:
  "three_way ord_class.lexordp (a # s) (b # t) = (if a \<noteq> b then three_way (<) a b else three_way ord_class.lexordp s t)"
  for a b :: byte
  by (auto simp: three_way_def)

lemma sub_compare_Cons:
  "sub_compare (a # s) (b # t) = (if a \<noteq> b then Inr (three_way (<) a b) else sub_compare s t)"
  by (auto simp: sub_compare_def three_way_def)

lemma sub_compare_lexordp: "sub_compare s t = Inr (three_way ord_class.lexordp s t)"
proof (induction s t rule: list_induct2')
  case (4 a s b t)
  then show ?case by (simp add: sub_compare_Cons three_way_Cons)
qed (auto simp: sub_compare_def three_way_def)

lemma sub_equal_iff: "sub_equal s t = Inr (s = t)"
  using traits_compare_eq [of "length s" s t] by (auto simp: sub_equal_def)

text \<open>With a C string the order is right except where the string is a proper prefix.\<close>

lemma sub_compare_cstr_order:
  assumes "0 \<notin> set t"
  shows "sub_compare_cstr s (t @ 0 # m) =
    Inr (if length t < length s \<and> take (length t) s = t then -1 else three_way ord_class.lexordp s t)"
  using assms
proof (induction s t rule: list_induct2')
  case (4 a s b t)
  then show ?case by (auto simp: three_way_Cons) (auto simp: three_way_def)
qed (auto simp: three_way_def)

lemma sub_equal_cstr_iff: "0 \<notin> set t \<Longrightarrow> sub_equal_cstr s (t @ 0 # m) = Inr (s = t)"
  by (induction s t rule: list_induct2') auto

text \<open>
  A substring compares below a C string that is its proper prefix, in both directions of the
  comparison of the two as substrings.
\<close>

lemma compare_prefix_reversed:
  "sub_compare_cstr (chars ''ab'') (chars ''a'' @ [0]) = Inr (-1)"
  "sub_compare (chars ''ab'') (chars ''a'') = Inr 1"
  by (simp_all add: sub_compare_def)

text \<open>
  Searching for a pattern from behind the end leaves the text; searching for the empty pattern
  gives a position before the one asked for; and nothing is found that is not in the empty set.
\<close>

lemma find_behind_end: "sub_find_str (chars ''ab'') (chars ''a'') 3 = Inl OutOfBounds"
  by (simp add: sub_find_str_def get_available_length_def)

lemma find_empty_before_position: "sub_find_str (chars ''ab'') [] 1 = Inr (Some 0)"
  by (simp add: sub_find_str_def)

lemma find_last_not_of_empty: "find_last_not_of (chars ''ab'') [] NPOS = None"
  by (simp add: find_last_not_of_def)

section \<open>Properties\<close>

text \<open>
  The searches for a pattern are correct: from every position of the text \<^verbatim>\<open>find\<close> returns the
  first place at or behind it where the pattern stands and \<^verbatim>\<open>rfind\<close> the last place at or before it
  (and \<^verbatim>\<open>NPOS\<close> precisely if there is none), without reading outside of the text.
\<close>

lemma substring_search:
  assumes "str \<noteq> []" "pos \<le> length s"
  shows "(\<exists>r. sub_find_str s str pos = Inr r \<and>
      (\<forall>i. r = Some i \<longleftrightarrow> pos \<le> i \<and> occurs s str i \<and> (\<forall>j. pos \<le> j \<and> j < i \<longrightarrow> \<not> occurs s str j))) \<and>
    (\<forall>i. sub_rfind_str s str pos = Some i \<longleftrightarrow>
      i \<le> pos \<and> occurs s str i \<and> (\<forall>j. i < j \<and> j \<le> pos \<longrightarrow> \<not> occurs s str j))"
  using sub_find_str_iff [OF assms] sub_rfind_str_iff [OF assms(1)] by blast

lemma substring_search_example:
  "chars ''an'' \<noteq> [] \<and> 2 \<le> length (chars ''banana'') \<and>
   sub_find_str (chars ''banana'') (chars ''an'') 2 = Inr (Some 3) \<and>
   sub_rfind_str (chars ''banana'') (chars ''an'') 2 = Some 1"
proof -
  have hyp: "chars ''an'' \<noteq> []" "2 \<le> length (chars ''banana'')" by simp_all
  have f: "sub_find_str (chars ''banana'') (chars ''an'') 2 = Inr (Some 3)"
    by (simp add: sub_find_str_def get_available_length_def)
  have "occurs (chars ''banana'') (chars ''an'') 1"
    "\<forall>j. 1 < j \<and> j \<le> 2 \<longrightarrow> \<not> occurs (chars ''banana'') (chars ''an'') j"
  proof -
    show "occurs (chars ''banana'') (chars ''an'') 1" by (simp add: occurs_def)
    have "\<not> occurs (chars ''banana'') (chars ''an'') 2" by (simp add: occurs_def)
    moreover have "j = 2" if "1 < j \<and> j \<le> 2" for j :: nat using that by simp
    ultimately show "\<forall>j. 1 < j \<and> j \<le> 2 \<longrightarrow> \<not> occurs (chars ''banana'') (chars ''an'') j"
      by blast
  qed
  then show ?thesis using substring_search [OF hyp] hyp f by simp
qed

end
