(* ===== verification/Url_Address.thy ===== *)
theory Url_Address
  imports Sub_String Tokenizer
begin

text \<open>
  The general part of \<^verbatim>\<open>src/src/HTTP/UrlAddress.hpp\<close> and \<^verbatim>\<open>UrlAddress.cpp\<close>: the character categories of
  RFC 3986, \<^verbatim>\<open>UrlParts\<close> and its splitter \<^verbatim>\<open>ExtendedUrlParts::split_url\<close>, the checks of \<^verbatim>\<open>URLPartsChecker\<close>
  and the class \<^verbatim>\<open>URLAddress\<close>.

  A part is the list of its characters with the flag that tells whether it is there.  A check
  returns \<open>None\<close> or the text of its error; an exception \<^verbatim>\<open>InvalidURL\<close> carries that text, without the
  name of the function the code puts in front of it.  \<open>AssertionFailed\<close> and \<open>OutOfBounds\<close> are the
  failing \<^verbatim>\<open>assert\<close> and a read outside of the text in the splitter; they are shown not to happen.
\<close>

section \<open>Categories\<close>

definition UNRESERVED :: category where
  "UNRESERVED = char_table_union2 ALPHA_NUM (char_table (Some (chars ''-._~'')) False)"

definition SUB_DELIMS :: category where
  "SUB_DELIMS = char_table (Some (chars ''!$&'' @ [0x27] @ chars ''()*+,;='')) False"

definition PCHAR :: category where
  "PCHAR = char_table_union3 UNRESERVED SUB_DELIMS (char_table (Some (chars '':@'')) False)"

definition NON_COMPLIANT :: category where
  "NON_COMPLIANT = char_table (Some (chars ''{}|^~[]'' @ [0x60])) False"

definition URL_PARSER_SCHEME_END :: category where
  "URL_PARSER_SCHEME_END = char_table (Some (chars '':/?#'')) False"

definition URL_PARSER_AUTORITY_END :: category where
  "URL_PARSER_AUTORITY_END = char3 (ch CHR ''/'') (ch CHR ''?'') (ch CHR ''#'')"

definition URL_PARSER_PATH_END :: category where
  "URL_PARSER_PATH_END = char2 (ch CHR ''?'') (ch CHR ''#'')"

definition URL_PARSER_QUERY_END :: category where
  "URL_PARSER_QUERY_END = char1 (ch CHR ''#'')"

definition SCHEME_FIRST :: category where
  "SCHEME_FIRST = ALPHA"

definition SCHEME_NOT_FIRST :: category where
  "SCHEME_NOT_FIRST = char_table_union2 ALPHA_NUM (char_table (Some (chars ''-+.'')) False)"

definition USER_INFO :: category where
  "USER_INFO = char_table_union3 UNRESERVED SUB_DELIMS (char_table (Some (chars '':'')) False)"

definition HOST :: category where
  "HOST = char_table_union2 UNRESERVED SUB_DELIMS"

definition PORT :: category where
  "PORT = NUMBER"

definition PATH :: category where
  "PATH = char_table_union3 NON_COMPLIANT PCHAR (char_table (Some (chars ''/'')) False)"

definition QUERY :: category where
  "QUERY = char_table_union3 NON_COMPLIANT PCHAR (char_table (Some (chars ''/?'')) False)"

definition FRAGMENT :: category where
  "FRAGMENT = char_table_union3 NON_COMPLIANT PCHAR (char_table (Some (chars ''/?'')) False)"

definition MAX_HOSTNAME_LABEL_SIZE :: nat where
  "MAX_HOSTNAME_LABEL_SIZE = 63"

definition MAX_HOSTNAME_SIZE :: nat where
  "MAX_HOSTNAME_SIZE = 255"

definition LABEL_FIRST_LAST :: category where
  "LABEL_FIRST_LAST = char_table_union2 ALPHA_NUM (char_table (Some (chars ''_'')) False)"

definition LABEL_MIDDLE :: category where
  "LABEL_MIDDLE = char_table_union2 ALPHA_NUM (char_table (Some (chars ''-_'')) False)"

section \<open>Checking characters\<close>

definition is_valid_chars :: "bytes \<Rightarrow> category \<Rightarrow> bool" where
  "is_valid_chars str category \<longleftrightarrow> find_nonowned category str = length str"

text \<open>The offset of the first character that is neither owned nor part of an escape.\<close>

function find_invalid :: "category \<Rightarrow> bytes \<Rightarrow> nat" where
  "find_invalid category str =
     (let k = find_nonowned category str
      in if k = length str then k
         else let cur = drop k str
           in if cur ! 0 \<noteq> ch CHR ''%'' then k
              else if length cur < 3 \<or> \<not> HEX_NUMBER (cur ! 1) \<or> \<not> HEX_NUMBER (cur ! 2) then k
              else k + 3 + find_invalid category (drop 3 cur))"
  by pat_completeness auto
termination
proof (relation "measure (\<lambda>(category, str). length str)", goal_cases)
  case (2 category str k cur)
  then show ?case by auto
qed simp

declare find_invalid.simps [simp del]

definition is_valid_encoded :: "bytes \<Rightarrow> category \<Rightarrow> bool" where
  "is_valid_encoded encoded_str category \<longleftrightarrow> find_invalid category encoded_str = length encoded_str"

definition make_invalid :: "string \<Rightarrow> bytes \<Rightarrow> bytes" where
  "make_invalid type url = chars ''invalid '' @ chars type @ [ch CHR '' '', 0x27] @ url @ [0x27]"

section \<open>UrlParts\<close>

record UrlParts =
  has_scheme :: bool
  up_scheme :: bytes
  has_userinfo :: bool
  up_userinfo :: bytes
  has_host :: bool
  up_host :: bytes
  has_port :: bool
  up_port :: bytes
  has_path :: bool
  up_path :: bytes
  has_query :: bool
  up_query :: bytes
  has_fragment :: bool
  up_fragment :: bytes

record ExtendedUrlParts = UrlParts +
  up_authority :: bytes

definition url_parts :: "bytes \<Rightarrow> bytes \<Rightarrow> bytes \<Rightarrow> bytes \<Rightarrow> bytes \<Rightarrow> bytes \<Rightarrow> bytes \<Rightarrow> UrlParts" where
  "url_parts scheme userinfo host port path query fragment =
     \<lparr>has_scheme = scheme \<noteq> [], up_scheme = scheme, has_userinfo = userinfo \<noteq> [], up_userinfo = userinfo,
      has_host = host \<noteq> [], up_host = host, has_port = port \<noteq> [], up_port = port,
      has_path = path \<noteq> [], up_path = path, has_query = query \<noteq> [], up_query = query,
      has_fragment = fragment \<noteq> [], up_fragment = fragment\<rparr>"

definition extended_clear :: ExtendedUrlParts where
  "extended_clear =
     \<lparr>has_scheme = False, up_scheme = [], has_userinfo = False, up_userinfo = [],
      has_host = False, up_host = [], has_port = False, up_port = [],
      has_path = False, up_path = [], has_query = False, up_query = [],
      has_fragment = False, up_fragment = [], up_authority = []\<rparr>"

subsection \<open>split_url\<close>

text \<open>The steps of the splitter from the last to the first; \<open>cur\<close> is the text from the position on.\<close>

definition split_fragment :: "ExtendedUrlParts \<Rightarrow> bytes \<Rightarrow> ExtendedUrlParts result" where
  "split_fragment parts cur =
     rbind (rd cur 0) (\<lambda>c.
       if c \<noteq> ch CHR ''#'' then Inl AssertionFailed
       else Inr (parts\<lparr>has_fragment := True, up_fragment := drop 1 cur\<rparr>))"

definition split_query :: "ExtendedUrlParts \<Rightarrow> bytes \<Rightarrow> ExtendedUrlParts result" where
  "split_query parts cur =
     rbind (rd cur 0) (\<lambda>c.
       if c = ch CHR ''?''
       then let cur = drop 1 cur; stop = find_owned URL_PARSER_QUERY_END cur;
                parts = parts\<lparr>has_query := True, up_query := take stop cur\<rparr>
            in if stop = length cur then Inr parts else split_fragment parts (drop stop cur)
       else split_fragment parts cur)"

definition split_path :: "ExtendedUrlParts \<Rightarrow> bytes \<Rightarrow> ExtendedUrlParts result" where
  "split_path parts cur =
     (let stop = find_owned URL_PARSER_PATH_END cur;
          parts = parts\<lparr>has_path := True, up_path := take stop cur\<rparr>
      in if stop = length cur then Inr parts else split_query parts (drop stop cur))"

definition split_hierarchy :: "ExtendedUrlParts \<Rightarrow> bytes \<Rightarrow> ExtendedUrlParts result" where
  "split_hierarchy parts cur =
     rbind (rd cur 0) (\<lambda>c.
       if c \<noteq> ch CHR ''?'' \<and> c \<noteq> ch CHR ''#''
       then if c = ch CHR ''/'' \<and> 1 \<noteq> length cur \<and> cur ! 1 = ch CHR ''/''
            then let cur = drop 2 cur
              in if cur = [] then Inr parts
                 else let stop = find_owned URL_PARSER_AUTORITY_END cur;
                          parts = parts\<lparr>up_authority := take stop cur\<rparr>
                   in if stop = length cur then Inr parts else split_path parts (drop stop cur)
            else split_path parts cur
       else split_query parts cur)"

definition split_main :: "bytes \<Rightarrow> ExtendedUrlParts result" where
  "split_main url =
     (let parts = extended_clear; stop = find_owned URL_PARSER_SCHEME_END url
      in if stop = length url then Inr (parts\<lparr>has_path := True, up_path := url\<rparr>)
         else if url ! stop = ch CHR '':''
         then let parts = parts\<lparr>has_scheme := True, up_scheme := take stop url\<rparr>; cur = drop (stop + 1) url
           in if cur = [] then Inr parts else split_hierarchy parts cur
         else split_hierarchy parts url)"

definition split_authority :: "ExtendedUrlParts \<Rightarrow> ExtendedUrlParts result" where
  "split_authority parts =
     (let authority = up_authority parts
      in if authority = [] then Inr parts
         else let (parts, host_begin) =
                (case sub_find authority (ch CHR ''@'') 0 of
                   Some host_begin \<Rightarrow>
                     (if host_begin \<noteq> 0
                      then parts\<lparr>has_userinfo := True, up_userinfo := take host_begin authority\<rparr>
                      else parts, host_begin + 1)
                 | None \<Rightarrow> (parts, 0));
              host_end =
                (case sub_rfind authority (ch CHR '':'') NPOS of
                   Some host_end \<Rightarrow> if host_begin \<noteq> 0 \<and> host_end < host_begin then None else Some host_end
                 | None \<Rightarrow> None)
           in rbind
                (case host_end of
                   Some host_end \<Rightarrow>
                     if host_end \<noteq> length authority - 1
                     then rmap (\<lambda>p. (parts\<lparr>has_port := True, up_port := p\<rparr>, host_end))
                            (sub_substr authority (host_end + 1) (length authority - host_end))
                     else Inr (parts, host_end)
                 | None \<Rightarrow> Inr (parts, length authority))
                (\<lambda>(parts, host_end).
                   rmap (\<lambda>h. parts\<lparr>has_host := True, up_host := h\<rparr>)
                     (sub_substr authority host_begin (host_end - host_begin))))"

definition split_url :: "bytes \<Rightarrow> ExtendedUrlParts result" where
  "split_url url = rbind (split_main url) split_authority"

section \<open>URLPartsChecker\<close>

text \<open>One label of a host name; the checker goes through the labels until one of them is wrong.\<close>

definition check_label :: "bytes \<Rightarrow> bytes \<Rightarrow> bytes option" where
  "check_label url label =
     (if length label = 0 \<or> MAX_HOSTNAME_LABEL_SIZE < length label
      then Some (make_invalid ''length of host's label in url'' url)
      else if \<not> LABEL_FIRST_LAST (label ! 0) \<or>
        (1 < length label \<and> \<not> LABEL_FIRST_LAST (label ! (length label - 1))) \<or>
        (2 < length label \<and> \<not> is_valid_chars (take (length label - 2) (drop 1 label)) LABEL_MIDDLE)
      then Some (make_invalid ''characters in host's label in url'' url)
      else None)"

fun check_labels :: "bytes \<Rightarrow> bytes list \<Rightarrow> bytes option" where
  "check_labels url [] = None"
| "check_labels url (label # labels) =
     (case check_label url label of Some e \<Rightarrow> Some e | None \<Rightarrow> check_labels url labels)"

definition host_labels :: "bytes \<Rightarrow> bytes list" where
  "host_labels host =
     (let str = (if host ! (length host - 1) = ch CHR ''.'' then take (length host - 1) host else host)
      in fst (get_tokens (Suc (length str)) True
           (splitter_state str (char_splitter_category (char1 (ch CHR ''.''))))))"

definition check_scheme :: "bytes \<Rightarrow> 'a UrlParts_scheme \<Rightarrow> bytes option" where
  "check_scheme url parts =
     (let scheme = up_scheme parts
      in if (if scheme = [] then has_scheme parts
             else \<not> SCHEME_FIRST (scheme ! 0) \<or> \<not> is_valid_chars (drop 1 scheme) SCHEME_NOT_FIRST)
         then Some (make_invalid ''scheme in url'' url) else None)"

definition check_host :: "bytes \<Rightarrow> 'a UrlParts_scheme \<Rightarrow> bytes option" where
  "check_host url parts =
     (let host = up_host parts
      in if host \<noteq> []
         then if MAX_HOSTNAME_SIZE < length host \<or> \<not> is_valid_chars host HOST
              then Some (make_invalid ''host in url'' url)
              else check_labels url (host_labels host)
         else if up_userinfo parts \<noteq> [] \<or> up_port parts \<noteq> []
         then Some (make_invalid ''empty host in url'' url)
         else None)"

definition check_path :: "bytes \<Rightarrow> 'a UrlParts_scheme \<Rightarrow> bytes option" where
  "check_path url parts =
     (let path = up_path parts
      in if path \<noteq> [] \<and>
           ((if up_host parts \<noteq> [] then path ! 0 \<noteq> ch CHR ''/''
             else path ! 0 = ch CHR ''/'' \<and> 1 < length path \<and> path ! 1 = ch CHR ''/'') \<or>
            \<not> is_valid_encoded path PATH)
         then Some (make_invalid ''path in url'' url) else None)"

text \<open>The checks run in the order of the code and stop at the first error.\<close>

fun first_error :: "bytes option list \<Rightarrow> bytes option" where
  "first_error [] = None"
| "first_error (e # es) = (case e of Some m \<Rightarrow> Some m | None \<Rightarrow> first_error es)"

definition url_parts_checker :: "bytes \<Rightarrow> 'a UrlParts_scheme \<Rightarrow> bytes option" where
  "url_parts_checker url parts =
     first_error
       [check_scheme url parts,
        if up_userinfo parts \<noteq> [] \<and> \<not> is_valid_encoded (up_userinfo parts) USER_INFO
        then Some (make_invalid ''userinfo in url'' url) else None,
        check_host url parts,
        if up_port parts \<noteq> [] \<and> \<not> is_valid_chars (up_port parts) PORT
        then Some (make_invalid ''port in url'' url) else None,
        check_path url parts,
        if up_query parts \<noteq> [] \<and> \<not> is_valid_encoded (up_query parts) QUERY
        then Some (make_invalid ''query in url'' url) else None,
        if up_fragment parts \<noteq> [] \<and> \<not> is_valid_encoded (up_fragment parts) FRAGMENT
        then Some (make_invalid ''fragment in url'' url) else None]"

definition url_checker :: "bytes \<Rightarrow> bool result" where
  "url_checker url = rmap (\<lambda>parts. url_parts_checker url parts = None) (split_url url)"

section \<open>URLAddress\<close>

record URLAddress =
  ua_url :: bytes
  ua_parts :: ExtendedUrlParts

definition url_address_empty :: URLAddress where
  "url_address_empty = \<lparr>ua_url = [], ua_parts = extended_clear\<rparr>"

definition has_authority :: "'a UrlParts_scheme \<Rightarrow> bool" where
  "has_authority parts \<longleftrightarrow> has_userinfo parts \<or> up_host parts \<noteq> [] \<or> has_port parts"

definition assemble_authority :: "'a UrlParts_scheme \<Rightarrow> bytes" where
  "assemble_authority parts =
     (if has_userinfo parts then up_userinfo parts @ chars ''@'' else []) @ up_host parts @
     (if has_port parts then chars '':'' @ up_port parts else [])"

definition assemble_url :: "'a UrlParts_scheme \<Rightarrow> bytes" where
  "assemble_url parts =
     (if up_scheme parts \<noteq> [] then up_scheme parts @ chars '':'' else []) @
     (if has_authority parts then chars ''//'' @ assemble_authority parts else []) @
     up_path parts @
     (if has_query parts then chars ''?'' @ up_query parts else []) @
     (if has_fragment parts then chars ''#'' @ up_fragment parts else [])"

text \<open>
  Setting the parts to ranges of the new text: \<open>parts\<close> is what the caller passed, as it is read
  after \<^verbatim>\<open>parts_\<close> has been cleared, \<open>authority\<close> and \<open>authority_size\<close> are local variables of the code
  computed before.  The functions return the parts and the position behind what they set.
\<close>

definition adjust_scheme :: "bytes \<Rightarrow> 'a UrlParts_scheme \<Rightarrow> ExtendedUrlParts \<times> nat" where
  "adjust_scheme url parts =
     (if up_scheme parts \<noteq> []
      then (extended_clear\<lparr>has_scheme := True, up_scheme := take (length (up_scheme parts)) url\<rparr>,
            length (up_scheme parts) + 1)
      else (extended_clear, 0))"

definition adjust_authority ::
  "bytes \<Rightarrow> 'a UrlParts_scheme \<Rightarrow> bool \<Rightarrow> nat \<Rightarrow> ExtendedUrlParts \<times> nat \<Rightarrow> (ExtendedUrlParts \<times> nat) result" where
  "adjust_authority url parts authority authority_size = (\<lambda>(this, ptr).
     if \<not> authority then Inr (this, ptr)
     else let ptr = ptr + 2;
              this = this\<lparr>up_authority := take authority_size (drop ptr url)\<rparr>;
              ptr = ptr + length (up_authority this);
              host_begin = length (up_userinfo parts) + (if has_userinfo parts then 1 else 0)
       in rbind (if has_userinfo parts
                 then rmap (\<lambda>userinfo. this\<lparr>has_userinfo := True, up_userinfo := userinfo\<rparr>)
                        (sub_substr (up_authority this) 0 (length (up_userinfo parts)))
                 else Inr this) (\<lambda>this.
             rbind (if up_host parts \<noteq> []
                    then rmap (\<lambda>host. this\<lparr>has_host := True, up_host := host\<rparr>)
                           (sub_substr (up_authority this) host_begin (length (up_host parts)))
                    else Inr this) (\<lambda>this.
             rbind (if has_port parts
                    then rmap (\<lambda>port. this\<lparr>has_port := True, up_port := port\<rparr>)
                           (sub_substr (up_authority this)
                              (length (up_authority this) - length (up_port parts)) (length (up_port parts)))
                    else Inr this) (\<lambda>this. Inr (this, ptr)))))"

definition adjust_rest :: "bytes \<Rightarrow> 'a UrlParts_scheme \<Rightarrow> ExtendedUrlParts \<times> nat \<Rightarrow> ExtendedUrlParts" where
  "adjust_rest url parts = (\<lambda>(this, ptr).
     let this = this\<lparr>has_path := True, up_path := take (length (up_path parts)) (drop ptr url)\<rparr>;
         ptr = ptr + length (up_path parts);
         (this, ptr) =
           (if has_query parts
            then (this\<lparr>has_query := True, up_query := take (length (up_query parts)) (drop (ptr + 1) url)\<rparr>,
                  ptr + 1 + length (up_query parts))
            else (this, ptr))
     in if has_fragment parts
        then this\<lparr>has_fragment := True, up_fragment := take (length (up_fragment parts)) (drop (ptr + 1) url)\<rparr>
        else this)"

definition adjust_parts :: "bytes \<Rightarrow> 'a UrlParts_scheme \<Rightarrow> bool \<Rightarrow> nat \<Rightarrow> ExtendedUrlParts result" where
  "adjust_parts url parts authority authority_size =
     rmap (adjust_rest url parts) (adjust_authority url parts authority authority_size (adjust_scheme url parts))"

definition assign_url_parts :: "'a UrlParts_scheme \<Rightarrow> bool \<Rightarrow> URLAddress result" where
  "assign_url_parts parts check =
     (let new_url = assemble_url parts
      in case (if check then url_parts_checker new_url parts else None) of
           Some error \<Rightarrow> Inl (InvalidURL error)
         | None \<Rightarrow> rmap (\<lambda>p. \<lparr>ua_url = new_url, ua_parts = p\<rparr>)
             (adjust_parts new_url parts (has_authority parts) (length (assemble_authority parts))))"

text \<open>
  \<^verbatim>\<open>operator =\<close> passes the parts of the other object.  When an object is assigned to itself these are
  the parts that \<^verbatim>\<open>assign_url_parts_\<close> has cleared before it reads them again.
\<close>

definition url_address_copy :: "URLAddress \<Rightarrow> URLAddress result" where
  "url_address_copy another = assign_url_parts (ua_parts another) False"

definition url_address_assign_self :: "URLAddress \<Rightarrow> URLAddress result" where
  "url_address_assign_self this =
     (let parts = ua_parts this; new_url = assemble_url parts
      in rmap (\<lambda>p. \<lparr>ua_url = new_url, ua_parts = p\<rparr>)
           (adjust_parts new_url extended_clear (has_authority parts) (length (assemble_authority parts))))"

definition url_address_parts ::
  "bytes \<Rightarrow> bytes \<Rightarrow> bytes \<Rightarrow> bytes \<Rightarrow> bytes \<Rightarrow> bytes \<Rightarrow> bytes \<Rightarrow> URLAddress result" where
  "url_address_parts scheme userinfo host port path query fragment =
     assign_url_parts (url_parts scheme userinfo host port path query fragment) True"

definition url_without_check :: "bytes \<Rightarrow> URLAddress result" where
  "url_without_check val =
     (if val = [] then Inr url_address_empty
      else rmap (\<lambda>p. \<lparr>ua_url = val, ua_parts = p\<rparr>) (split_url val))"

text \<open>\<^verbatim>\<open>assign_\<close>, with the virtual \<^verbatim>\<open>specific_checks_\<close> as an argument; that of \<^verbatim>\<open>URLAddress\<close> does nothing.\<close>

definition url_assign :: "(URLAddress \<Rightarrow> URLAddress result) \<Rightarrow> bytes \<Rightarrow> URLAddress result" where
  "url_assign specific_checks val =
     rbind (url_without_check val) (\<lambda>this.
     rbind (specific_checks this) (\<lambda>this.
       case url_parts_checker (ua_url this) (ua_parts this) of
         Some error \<Rightarrow> Inl (InvalidURL error)
       | None \<Rightarrow> Inr this))"

definition url_address :: "bytes \<Rightarrow> URLAddress result" where
  "url_address val = url_assign Inr val"

section \<open>What the categories own\<close>

lemmas url_categories =
  UNRESERVED_def SUB_DELIMS_def PCHAR_def NON_COMPLIANT_def URL_PARSER_SCHEME_END_def
  URL_PARSER_AUTORITY_END_def URL_PARSER_PATH_END_def URL_PARSER_QUERY_END_def SCHEME_FIRST_def
  SCHEME_NOT_FIRST_def USER_INFO_def HOST_def PORT_def PATH_def QUERY_def FRAGMENT_def
  LABEL_FIRST_LAST_def LABEL_MIDDLE_def ALPHA_NUM_def char_table_union2_def char_table_union3_def
  char_table_simps char1_def char2_def char3_def category_simps

lemma separators_of_parser [simp]:
  "URL_PARSER_SCHEME_END c \<longleftrightarrow> c = 0x3A \<or> c = 0x2F \<or> c = 0x3F \<or> c = 0x23"
  "URL_PARSER_AUTORITY_END c \<longleftrightarrow> c = 0x2F \<or> c = 0x3F \<or> c = 0x23"
  "URL_PARSER_PATH_END c \<longleftrightarrow> c = 0x3F \<or> c = 0x23"
  "URL_PARSER_QUERY_END c \<longleftrightarrow> c = 0x23"
  by (auto simp: url_categories)

lemma scheme_not_separator: "SCHEME_FIRST c \<or> SCHEME_NOT_FIRST c \<Longrightarrow> \<not> URL_PARSER_SCHEME_END c"
  by (auto simp: url_categories)

lemma userinfo_not_separator: "USER_INFO c \<or> c = 0x25 \<Longrightarrow> c \<noteq> 0x40 \<and> \<not> URL_PARSER_AUTORITY_END c"
  by (auto simp: url_categories)

lemma host_not_separator: "HOST c \<Longrightarrow> c \<noteq> 0x3A \<and> c \<noteq> 0x40 \<and> \<not> URL_PARSER_AUTORITY_END c"
  by (auto simp: url_categories)

lemma port_not_separator: "PORT c \<Longrightarrow> c \<noteq> 0x3A \<and> c \<noteq> 0x40 \<and> \<not> URL_PARSER_AUTORITY_END c"
  by (auto simp: url_categories)

lemma path_not_separator: "PATH c \<or> c = 0x25 \<Longrightarrow> \<not> URL_PARSER_PATH_END c"
  by (auto simp: url_categories)

lemma query_not_separator: "QUERY c \<or> c = 0x25 \<Longrightarrow> \<not> URL_PARSER_QUERY_END c"
  by (auto simp: url_categories)

lemma hex_owned: "HEX_NUMBER c \<Longrightarrow> USER_INFO c \<and> PATH c \<and> QUERY c \<and> FRAGMENT c"
  by (auto simp: url_categories intro: order_trans)

lemma FRAGMENT_eq_QUERY: "FRAGMENT = QUERY"
  by (simp add: FRAGMENT_def QUERY_def)

lemma path_query: "PATH c \<Longrightarrow> QUERY c" "QUERY c \<Longrightarrow> c \<noteq> 0x3F \<Longrightarrow> PATH c"
  by (auto simp: url_categories)

lemma percent_not_owned: "\<not> USER_INFO 0x25" "\<not> PATH 0x25" "\<not> QUERY 0x25"
  by (simp_all add: url_categories)

section \<open>The grammar of encoded text\<close>

text \<open>Owned characters and escapes of a percent sign with two hexadecimal digits.\<close>

fun encoded_text :: "category \<Rightarrow> bytes \<Rightarrow> bool" where
  "encoded_text p [] \<longleftrightarrow> True"
| "encoded_text p (c # s) \<longleftrightarrow>
     (if p c then encoded_text p s
      else c = ch CHR ''%'' \<and>
        (case s of a # b # r \<Rightarrow> HEX_NUMBER a \<and> HEX_NUMBER b \<and> encoded_text p r | _ \<Rightarrow> False))"

lemma find_nonowned_eq_length: "find_nonowned p s = length s \<longleftrightarrow> (\<forall>c\<in>set s. p c)"
  by (induction s) auto

lemma is_valid_chars_iff: "is_valid_chars s p \<longleftrightarrow> (\<forall>c\<in>set s. p c)"
  by (simp add: is_valid_chars_def find_nonowned_eq_length)

lemma find_owned_append [simp]:
  "\<forall>c\<in>set a. \<not> p c \<Longrightarrow> find_owned p (a @ b) = length a + find_owned p b"
  by (induction a) auto

lemma find_owned_none [simp]: "\<forall>c\<in>set a. \<not> p c \<Longrightarrow> find_owned p a = length a"
  by (induction a) auto

lemma find_nonowned_append: "\<forall>c\<in>set a. p c \<Longrightarrow> find_nonowned p (a @ b) = length a + find_nonowned p b"
  by (induction a) auto

lemma find_invalid_Nil [simp]: "find_invalid p [] = 0"
  by (simp add: find_invalid.simps [of p "[]"])

lemma find_invalid_Cons:
  "find_invalid p (c # s) =
     (if p c then Suc (find_invalid p s)
      else if c = ch CHR ''%'' then
        (case s of a # b # r \<Rightarrow> if HEX_NUMBER a \<and> HEX_NUMBER b then 3 + find_invalid p r else 0 | _ \<Rightarrow> 0)
      else 0)"
proof (cases "p c")
  case True
  then show ?thesis
    by (simp add: find_invalid.simps [of p "c # s"] find_invalid.simps [of p s] Let_def)
next
  case False
  then show ?thesis
    by (simp add: find_invalid.simps [of p "c # s"] Let_def split: list.split)
qed

lemma find_invalid_le: "find_invalid p s \<le> length s"
  by (induction p s rule: encoded_text.induct) (auto simp: find_invalid_Cons split: list.splits if_splits)

lemma is_valid_encoded_iff: "is_valid_encoded s p \<longleftrightarrow> encoded_text p s"
  unfolding is_valid_encoded_def
  by (induction p s rule: encoded_text.induct) (auto simp: find_invalid_Cons split: list.splits if_splits)

lemma encoded_text_set:
  assumes "encoded_text p s" "\<And>c. HEX_NUMBER c \<Longrightarrow> p c"
  shows "\<forall>c\<in>set s. p c \<or> c = 0x25"
  using assms
proof (induction p s rule: encoded_text.induct)
  case (2 p c s)
  show ?case
  proof (cases "p c")
    case True
    then show ?thesis using 2 by simp
  next
    case False
    then obtain a b r where "s = a # b # r" "c = 0x25" "HEX_NUMBER a" "HEX_NUMBER b" "encoded_text p r"
      using 2(3) by (auto split: list.splits)
    then show ?thesis using False 2(2) [of a _ b r] 2(4) by simp
  qed
qed simp

lemma encoded_text_append: "encoded_text p s \<Longrightarrow> encoded_text p (s @ t) \<longleftrightarrow> encoded_text p t"
  by (induction p s rule: encoded_text.induct) (auto split: if_splits list.splits)

section \<open>Assembling and splitting\<close>

text \<open>What an object holds after its parts have been assigned; only the flag of the path may differ.\<close>

definition extended_of :: "'a UrlParts_scheme \<Rightarrow> bool \<Rightarrow> ExtendedUrlParts" where
  "extended_of parts path_flag =
     \<lparr>has_scheme = up_scheme parts \<noteq> [], up_scheme = up_scheme parts,
      has_userinfo = has_userinfo parts, up_userinfo = up_userinfo parts,
      has_host = up_host parts \<noteq> [], up_host = up_host parts, has_port = has_port parts, up_port = up_port parts,
      has_path = path_flag, up_path = up_path parts, has_query = has_query parts, up_query = up_query parts,
      has_fragment = has_fragment parts, up_fragment = up_fragment parts,
      up_authority = (if has_authority parts then assemble_authority parts else [])\<rparr>"

text \<open>A part that is not there is empty.\<close>

definition consistent :: "'a UrlParts_scheme \<Rightarrow> bool" where
  "consistent parts \<longleftrightarrow>
     (\<not> has_userinfo parts \<longrightarrow> up_userinfo parts = []) \<and> (\<not> has_port parts \<longrightarrow> up_port parts = []) \<and>
     (\<not> has_query parts \<longrightarrow> up_query parts = []) \<and> (\<not> has_fragment parts \<longrightarrow> up_fragment parts = [])"

definition scheme_text :: "'a UrlParts_scheme \<Rightarrow> bytes" where
  "scheme_text parts = (if up_scheme parts \<noteq> [] then up_scheme parts @ chars '':'' else [])"

definition authority_text :: "'a UrlParts_scheme \<Rightarrow> bytes" where
  "authority_text parts = (if has_authority parts then chars ''//'' @ assemble_authority parts else [])"

definition fragment_text :: "'a UrlParts_scheme \<Rightarrow> bytes" where
  "fragment_text parts = (if has_fragment parts then chars ''#'' @ up_fragment parts else [])"

definition query_text :: "'a UrlParts_scheme \<Rightarrow> bytes" where
  "query_text parts = (if has_query parts then chars ''?'' @ up_query parts else []) @ fragment_text parts"

lemma assemble_url_texts:
  "assemble_url parts = scheme_text parts @ authority_text parts @ up_path parts @ query_text parts"
  by (simp add: assemble_url_def scheme_text_def authority_text_def query_text_def fragment_text_def)

lemma adjust_scheme_assembled:
  "adjust_scheme (scheme_text parts @ r) parts =
     (extended_clear\<lparr>has_scheme := up_scheme parts \<noteq> [], up_scheme := up_scheme parts\<rparr>, length (scheme_text parts))"
  by (simp add: adjust_scheme_def scheme_text_def extended_clear_def)

lemma adjust_authority_assembled:
  assumes "consistent parts"
  shows "adjust_authority (s @ authority_text parts @ r) parts (has_authority parts)
      (length (assemble_authority parts))
      (extended_clear\<lparr>has_scheme := hs, up_scheme := sc\<rparr>, length s) =
    Inr (extended_clear\<lparr>has_scheme := hs, up_scheme := sc, has_userinfo := has_userinfo parts,
       up_userinfo := up_userinfo parts, has_host := up_host parts \<noteq> [], up_host := up_host parts,
       has_port := has_port parts, up_port := up_port parts,
       up_authority := (if has_authority parts then assemble_authority parts else [])\<rparr>,
     length (s @ authority_text parts))"
proof (cases "has_authority parts")
  case True
  then show ?thesis using assms
    by (cases "has_userinfo parts"; cases "has_port parts"; cases "up_host parts = []")
      (simp_all add: adjust_authority_def authority_text_def assemble_authority_def consistent_def
        extended_clear_def Let_def)
next
  case False
  then show ?thesis using assms
    by (auto simp: adjust_authority_def authority_text_def has_authority_def consistent_def extended_clear_def)
qed

lemma adjust_rest_assembled:
  assumes "consistent parts"
  shows "adjust_rest (s @ up_path parts @ query_text parts) parts (this, length s) =
    this\<lparr>has_path := True, up_path := up_path parts,
       has_query := has_query parts \<or> has_query this, up_query := (if has_query parts then up_query parts else up_query this),
       has_fragment := has_fragment parts \<or> has_fragment this,
       up_fragment := (if has_fragment parts then up_fragment parts else up_fragment this)\<rparr>"
  by (simp add: adjust_rest_def query_text_def fragment_text_def Let_def)

lemma adjust_parts_assembled:
  assumes "consistent parts"
  shows "adjust_parts (assemble_url parts) parts (has_authority parts) (length (assemble_authority parts)) =
    Inr (extended_of parts True)"
proof -
  have "adjust_authority (assemble_url parts) parts (has_authority parts) (length (assemble_authority parts))
      (adjust_scheme (assemble_url parts) parts) =
    Inr (extended_clear\<lparr>has_scheme := up_scheme parts \<noteq> [], up_scheme := up_scheme parts,
       has_userinfo := has_userinfo parts, up_userinfo := up_userinfo parts,
       has_host := up_host parts \<noteq> [], up_host := up_host parts,
       has_port := has_port parts, up_port := up_port parts,
       up_authority := (if has_authority parts then assemble_authority parts else [])\<rparr>,
     length (scheme_text parts @ authority_text parts))"
    unfolding assemble_url_texts adjust_scheme_assembled by (rule adjust_authority_assembled [OF assms])
  moreover have "assemble_url parts = (scheme_text parts @ authority_text parts) @ up_path parts @ query_text parts"
    by (simp add: assemble_url_texts)
  ultimately show ?thesis using assms
    by (simp only: adjust_parts_def rmap_simps adjust_rest_assembled [OF assms])
      (simp add: extended_of_def extended_clear_def consistent_def)
qed

lemma assign_url_parts_assembled:
  assumes "consistent parts"
  shows "assign_url_parts parts check =
    (case (if check then url_parts_checker (assemble_url parts) parts else None) of
       Some error \<Rightarrow> Inl (InvalidURL error)
     | None \<Rightarrow> Inr \<lparr>ua_url = assemble_url parts, ua_parts = extended_of parts True\<rparr>)"
  by (simp only: assign_url_parts_def Let_def adjust_parts_assembled [OF assms] rmap_simps)

subsection \<open>Splitting what was assembled\<close>

definition set_tail :: "'a UrlParts_scheme \<Rightarrow> ExtendedUrlParts \<Rightarrow> ExtendedUrlParts" where
  "set_tail parts p =
     (let p = (if has_query parts then p\<lparr>has_query := True, up_query := up_query parts\<rparr> else p)
      in if has_fragment parts then p\<lparr>has_fragment := True, up_fragment := up_fragment parts\<rparr> else p)"

lemma split_fragment_text: "split_fragment p (0x23 # f) = Inr (p\<lparr>has_fragment := True, up_fragment := f\<rparr>)"
  by (simp add: split_fragment_def)

lemma split_query_text:
  assumes "\<forall>c\<in>set (up_query parts). c \<noteq> 0x23" "query_text parts \<noteq> []"
  shows "split_query p (query_text parts) = Inr (set_tail parts p)"
  using assms
  by (cases "has_query parts"; cases "has_fragment parts")
    (simp_all add: split_query_def query_text_def fragment_text_def set_tail_def Let_def split_fragment_text)

lemma split_path_text:
  assumes "\<forall>c\<in>set (up_path parts). c \<noteq> 0x3F \<and> c \<noteq> 0x23" "\<forall>c\<in>set (up_query parts). c \<noteq> 0x23"
  shows "split_path p (up_path parts @ query_text parts) =
    Inr (set_tail parts (p\<lparr>has_path := True, up_path := up_path parts\<rparr>))"
proof (cases "query_text parts = []")
  case True
  then show ?thesis using assms by (simp add: split_path_def set_tail_def query_text_def fragment_text_def split: if_splits)
next
  case False
  have "find_owned URL_PARSER_PATH_END (query_text parts) = 0"
    using False by (auto simp: query_text_def fragment_text_def)
  then show ?thesis using assms False by (simp add: split_path_def Let_def split_query_text)
qed

lemma sub_find_append:
  assumes "c \<notin> set a"
  shows "sub_find (a @ c # b) c 0 = Some (length a)"
proof -
  have "(a @ c # b) ! j \<noteq> c" if "j < length a" for j
    using that assms nth_mem [of j a] by (auto simp: nth_append)
  then show ?thesis by (simp add: sub_find_iff)
qed

lemma sub_find_absent: "c \<notin> set a \<Longrightarrow> sub_find a c pos = None"
  using nth_mem [of _ a] by (cases "sub_find a c pos") (auto simp: sub_find_iff)

lemma sub_rfind_append:
  assumes "c \<notin> set b" "length a \<le> pos"
  shows "sub_rfind (a @ c # b) c pos = Some (length a)"
proof -
  have "(a @ c # b) ! j \<noteq> c" if "length a < j" "j < length (a @ c # b)" for j
    using that assms(1) nth_mem [of "j - Suc (length a)" b] by (auto simp: nth_append nth_Cons')
  then show ?thesis using assms(2) by (simp add: sub_rfind_iff)
qed

lemma sub_rfind_before:
  assumes "c \<notin> set b" "sub_rfind (a @ b) c pos = Some i"
  shows "i < length a"
proof (rule ccontr)
  assume "\<not> i < length a"
  then have "b ! (i - length a) = c" "i - length a < length b"
    using assms(2) by (auto simp: sub_rfind_iff nth_append)
  then show False using assms(1) nth_mem [of "i - length a" b] by simp
qed

text \<open>Where the separators are: no part has a character that ends it.\<close>

definition separable :: "'a UrlParts_scheme \<Rightarrow> bool" where
  "separable parts \<longleftrightarrow> consistent parts \<and>
     (\<forall>c\<in>set (up_scheme parts). \<not> URL_PARSER_SCHEME_END c) \<and>
     (\<forall>c\<in>set (up_userinfo parts). c \<noteq> 0x40 \<and> \<not> URL_PARSER_AUTORITY_END c) \<and>
     (\<forall>c\<in>set (up_host parts @ up_port parts). c \<noteq> 0x3A \<and> c \<noteq> 0x40 \<and> \<not> URL_PARSER_AUTORITY_END c) \<and>
     (\<forall>c\<in>set (up_path parts). \<not> URL_PARSER_PATH_END c) \<and>
     (\<forall>c\<in>set (up_query parts). \<not> URL_PARSER_QUERY_END c) \<and>
     (has_userinfo parts \<longrightarrow> up_userinfo parts \<noteq> []) \<and> (has_port parts \<longrightarrow> up_port parts \<noteq> []) \<and>
     (if up_host parts \<noteq> [] then up_path parts = [] \<or> up_path parts ! 0 = 0x2F
      else \<not> has_userinfo parts \<and> \<not> has_port parts \<and>
        \<not> (\<exists>r. up_path parts = 0x2F # 0x2F # r))"

definition set_authority :: "'a UrlParts_scheme \<Rightarrow> ExtendedUrlParts \<Rightarrow> ExtendedUrlParts" where
  "set_authority parts p =
     (let p = (if has_userinfo parts then p\<lparr>has_userinfo := True, up_userinfo := up_userinfo parts\<rparr> else p);
          p = (if has_port parts then p\<lparr>has_port := True, up_port := up_port parts\<rparr> else p)
      in p\<lparr>has_host := True, up_host := up_host parts\<rparr>)"

lemma split_authority_text:
  assumes "separable parts" "up_host parts \<noteq> []" "up_authority p = assemble_authority parts"
    and "length (assemble_authority parts) \<le> NPOS"
  shows "split_authority p = Inr (set_authority parts p)"
proof -
  let ?u = "if has_userinfo parts then up_userinfo parts @ [0x40] else []"
  let ?a = "assemble_authority parts"
  have a: "?a = ?u @ up_host parts @ (if has_port parts then 0x3A # up_port parts else [])"
    by (simp add: assemble_authority_def)
  have no: "0x40 \<notin> set (up_userinfo parts)" "0x40 \<notin> set (up_host parts)" "0x40 \<notin> set (up_port parts)"
    "0x3A \<notin> set (up_host parts)" "0x3A \<notin> set (up_port parts)"
    using assms(1) by (auto simp: separable_def)
  have at: "sub_find ?a 0x40 0 = (if has_userinfo parts then Some (length (up_userinfo parts)) else None)"
    using no sub_find_append [of "0x40" "up_userinfo parts"] by (auto simp: a sub_find_absent)
  have port: "sub_rfind ?a 0x3A NPOS = Some (length (?u @ up_host parts))" if "has_port parts"
    using that no(5) sub_rfind_append [of "0x3A" "up_port parts" "?u @ up_host parts" NPOS] assms(4) by (simp add: a)
  have noport: "i < length ?u" if "\<not> has_port parts" "sub_rfind ?a 0x3A NPOS = Some i" for i
    using that no(4) sub_rfind_before [of "0x3A" "up_host parts" ?u NPOS i] by (simp add: a)
  have ne: "has_userinfo parts \<longrightarrow> up_userinfo parts \<noteq> []" "has_port parts \<longrightarrow> up_port parts \<noteq> []"
    using assms(1) by (auto simp: separable_def)
  show ?thesis
  proof (cases "has_port parts")
    case True
    then show ?thesis using ne assms(2) at port [OF True] unfolding split_authority_def assms(3)
      by (cases "has_userinfo parts") (simp_all add: a set_authority_def Let_def)
  next
    case False
    then consider "sub_rfind ?a 0x3A NPOS = None"
      | e where "sub_rfind ?a 0x3A NPOS = Some e" "has_userinfo parts" "e < Suc (length (up_userinfo parts))"
      using noport by (cases "sub_rfind ?a 0x3A NPOS"; cases "has_userinfo parts") fastforce+
    then show ?thesis
    proof cases
      case 1
      then show ?thesis using False ne assms(2) at unfolding split_authority_def assms(3)
        by (cases "has_userinfo parts") (simp_all add: a set_authority_def Let_def)
    next
      case 2
      then show ?thesis using False ne assms(2) at unfolding split_authority_def assms(3)
        by (simp add: a set_authority_def Let_def)
    qed
  qed
qed

lemma query_text_first: "query_text parts = c # r \<Longrightarrow> c = 0x3F \<or> c = 0x23"
  by (auto simp: query_text_def fragment_text_def split: if_splits)

lemma set_tail_none: "query_text parts = [] \<Longrightarrow> set_tail parts q = q"
  by (cases "has_query parts"; cases "has_fragment parts")
    (simp_all add: query_text_def fragment_text_def set_tail_def)

lemma separable_path:
  assumes "separable parts"
  shows "split_path q (up_path parts @ query_text parts) =
    Inr (set_tail parts (q\<lparr>has_path := True, up_path := up_path parts\<rparr>))"
proof (rule split_path_text)
  show "\<forall>c\<in>set (up_path parts). c \<noteq> 0x3F \<and> c \<noteq> 0x23" "\<forall>c\<in>set (up_query parts). c \<noteq> 0x23"
    using assms unfolding separable_def separators_of_parser by blast+
qed

lemma separable_authority:
  assumes "separable parts"
  shows "\<forall>c\<in>set (assemble_authority parts). \<not> URL_PARSER_AUTORITY_END c"
proof -
  have "\<forall>c\<in>set (up_userinfo parts). \<not> URL_PARSER_AUTORITY_END c"
    "\<forall>c\<in>set (up_host parts @ up_port parts). \<not> URL_PARSER_AUTORITY_END c"
    using assms unfolding separable_def by blast+
  moreover have "\<not> URL_PARSER_AUTORITY_END 0x40" "\<not> URL_PARSER_AUTORITY_END 0x3A" by simp_all
  ultimately show ?thesis
    by (auto simp: assemble_authority_def simp del: separators_of_parser split: if_splits)
qed

lemma separable_start:
  assumes "separable parts" "up_host parts \<noteq> []"
  shows "find_owned URL_PARSER_AUTORITY_END (up_path parts @ query_text parts) = 0"
proof (cases "up_path parts")
  case Nil
  show ?thesis using query_text_first [of parts] Nil by (cases "query_text parts") auto
next
  case (Cons c r)
  then have "c = 0x2F" using assms by (simp add: separable_def)
  then show ?thesis using Cons by simp
qed

text \<open>Without an authority the path does not look like one.\<close>

lemma split_hierarchy_path:
  assumes "separable parts" "up_host parts = []" "up_path parts = c # r"
  shows "split_hierarchy p (up_path parts @ query_text parts) = split_path p (up_path parts @ query_text parts)"
proof -
  let ?t = "query_text parts"
  have c: "c \<noteq> 0x3F" "c \<noteq> 0x23" and slashes: "\<not> (\<exists>r'. c # r = 0x2F # 0x2F # r')"
    using assms by (simp_all add: separable_def)
  have "\<not> (c = 0x2F \<and> Suc 0 \<noteq> length (up_path parts @ ?t) \<and> (up_path parts @ ?t) ! Suc 0 = 0x2F)"
  proof (cases r)
    case Nil
    then show ?thesis using assms(3) query_text_first [of parts] by (cases ?t) auto
  next
    case (Cons d ds)
    then show ?thesis using slashes assms(3) by simp
  qed
  then show ?thesis using assms(3) c by (auto simp: split_hierarchy_def)
qed

text \<open>The parts after the scheme, the path and the tail have been set.\<close>

definition split_state :: "'a UrlParts_scheme \<Rightarrow> ExtendedUrlParts \<Rightarrow> bool \<Rightarrow> ExtendedUrlParts" where
  "split_state parts p flag = set_tail parts
     (p\<lparr>up_authority := (if has_authority parts then assemble_authority parts else up_authority p),
        has_path := flag \<or> has_path p, up_path := (if flag then up_path parts else up_path p)\<rparr>)"

lemma split_hierarchy_authority:
  assumes "separable parts" "has_authority parts"
  shows "\<exists>flag. split_hierarchy p (authority_text parts @ up_path parts @ query_text parts) =
    Inr (split_state parts p flag) \<and> (flag \<or> up_path parts = [])"
proof -
  let ?t = "query_text parts"
  have host: "up_host parts \<noteq> []"
  proof
    assume "up_host parts = []"
    then show False using assms by (simp add: separable_def has_authority_def)
  qed
  then have ne: "assemble_authority parts \<noteq> []" by (simp add: assemble_authority_def)
  have whole: "split_hierarchy p (authority_text parts @ up_path parts @ ?t) =
      (if up_path parts @ ?t = [] then Inr (p\<lparr>up_authority := assemble_authority parts\<rparr>)
       else split_path (p\<lparr>up_authority := assemble_authority parts\<rparr>) (up_path parts @ ?t))"
    using assms(2) ne separable_authority [OF assms(1)] separable_start [OF assms(1) host]
    by (simp add: split_hierarchy_def authority_text_def Let_def)
  show ?thesis
  proof (cases "up_path parts @ ?t = []")
    case True
    then show ?thesis using assms(2) whole set_tail_none [of parts]
      by (intro exI [of _ False]) (simp add: split_state_def)
  next
    case False
    show ?thesis unfolding whole if_not_P [OF False] separable_path [OF assms(1)] split_state_def
      using assms(2) by (intro exI [of _ True]) simp
  qed
qed

lemma split_hierarchy_text:
  assumes "separable parts" "authority_text parts @ up_path parts @ query_text parts \<noteq> []"
  shows "\<exists>flag. split_hierarchy p (authority_text parts @ up_path parts @ query_text parts) =
    Inr (split_state parts p flag) \<and> (flag \<or> up_path parts = [])"
proof (cases "has_authority parts")
  case True
  then show ?thesis by (rule split_hierarchy_authority [OF assms(1)])
next
  case no: False
  let ?t = "query_text parts"
  show ?thesis
  proof (cases "up_path parts")
    case Nil
    then have t: "?t \<noteq> []" using assms(2) no by (simp add: authority_text_def)
    then have "split_hierarchy p ?t = split_query p ?t"
      using query_text_first [of parts] by (cases ?t) (auto simp: split_hierarchy_def)
    then show ?thesis using Nil no t assms(1) split_query_text [of parts p]
      by (intro exI [of _ False]) (simp add: authority_text_def separable_def split_state_def)
  next
    case (Cons c r)
    have host: "up_host parts = []" using no by (simp add: has_authority_def)
    have "split_hierarchy p (up_path parts @ ?t) = split_path p (up_path parts @ ?t)"
      by (rule split_hierarchy_path [OF assms(1) host Cons])
    then show ?thesis using no separable_path [OF assms(1), of p]
      by (intro exI [of _ True]) (simp add: authority_text_def split_state_def)
  qed
qed

text \<open>The parts with which the splitter goes on behind the scheme.\<close>

definition scheme_state :: "'a UrlParts_scheme \<Rightarrow> ExtendedUrlParts" where
  "scheme_state parts = extended_clear\<lparr>has_scheme := up_scheme parts \<noteq> [], up_scheme := up_scheme parts\<rparr>"

lemma split_main_scheme:
  assumes "separable parts" "up_scheme parts \<noteq> [] \<or> up_host parts \<noteq> []"
  shows "split_main (assemble_url parts) =
    (let h = authority_text parts @ up_path parts @ query_text parts
     in if h = [] then Inr (scheme_state parts) else split_hierarchy (scheme_state parts) h)"
proof (cases "up_scheme parts = []")
  case True
  then have "has_authority parts" using assms(2) by (simp add: has_authority_def)
  then show ?thesis using True
    by (simp add: split_main_def assemble_url_texts scheme_text_def authority_text_def extended_clear_def
        scheme_state_def Let_def)
next
  case False
  have "\<forall>c\<in>set (up_scheme parts). \<not> URL_PARSER_SCHEME_END c"
    using assms(1) unfolding separable_def by blast
  then show ?thesis using False
    by (simp add: split_main_def assemble_url_texts scheme_text_def Let_def extended_clear_def scheme_state_def
        del: separators_of_parser) (simp add: nth_append)
qed

lemma split_main_assembled:
  assumes "separable parts" "up_scheme parts \<noteq> [] \<or> up_host parts \<noteq> []"
  shows "\<exists>flag. split_main (assemble_url parts) = Inr (split_state parts (scheme_state parts) flag) \<and>
    (flag \<or> up_path parts = [])"
proof (cases "authority_text parts @ up_path parts @ query_text parts = []")
  case True
  then have "split_state parts (scheme_state parts) False = scheme_state parts" "up_path parts = []"
    by (auto simp: split_state_def set_tail_none authority_text_def split: if_splits)
  then show ?thesis unfolding split_main_scheme [OF assms] Let_def if_P [OF True]
    by (intro exI [of _ False]) simp
next
  case False
  then show ?thesis unfolding split_main_scheme [OF assms] Let_def if_not_P [OF False]
    by (rule split_hierarchy_text [OF assms(1)])
qed

lemma split_state_authority:
  "up_authority (split_state parts (scheme_state parts) flag) =
     (if has_authority parts then assemble_authority parts else [])"
  by (simp add: split_state_def scheme_state_def set_tail_def Let_def extended_clear_def)

lemmas split_states = split_state_def scheme_state_def set_tail_def extended_of_def extended_clear_def Let_def

lemma split_authority_assembled:
  assumes "separable parts" "flag \<or> up_path parts = []" "length (assemble_url parts) \<le> NPOS"
  shows "split_authority (split_state parts (scheme_state parts) flag) = Inr (extended_of parts flag)"
proof -
  let ?q = "split_state parts (scheme_state parts) flag"
  have con: "consistent parts" using assms(1) unfolding separable_def by blast
  show ?thesis
  proof (cases "up_host parts = []")
    case True
    then have no: "\<not> has_userinfo parts" "\<not> has_port parts" "\<not> has_authority parts"
      using assms(1) by (simp_all add: separable_def has_authority_def)
    then have "split_authority ?q = Inr ?q" by (simp add: split_authority_def split_state_authority)
    moreover have "?q = extended_of parts flag"
      using no True assms(2) con by (auto simp: split_states consistent_def)
    ultimately show ?thesis by simp
  next
    case False
    then have h: "has_authority parts" by (simp add: has_authority_def)
    have "length (assemble_authority parts) \<le> NPOS"
      using assms(3) h by (simp add: assemble_url_texts authority_text_def)
    then have "split_authority ?q = Inr (set_authority parts ?q)"
      using split_authority_text [OF assms(1) False] split_state_authority [of parts flag] h by simp
    also have "set_authority parts ?q = extended_of parts flag"
      using assms(2) False h con by (auto simp: set_authority_def split_states consistent_def)
    finally show ?thesis .
  qed
qed

lemma split_url_assembled:
  assumes "separable parts" "up_scheme parts \<noteq> [] \<or> up_host parts \<noteq> []" "length (assemble_url parts) \<le> NPOS"
  shows "\<exists>flag. split_url (assemble_url parts) = Inr (extended_of parts flag)"
  using split_main_assembled [OF assms(1,2)] split_authority_assembled [OF assms(1) _ assms(3)]
  by (auto simp: split_url_def)

section \<open>The grammar the checker accepts\<close>

definition valid_label :: "bytes \<Rightarrow> bool" where
  "valid_label l \<longleftrightarrow> l \<noteq> [] \<and> length l \<le> 63 \<and> LABEL_FIRST_LAST (hd l) \<and> LABEL_FIRST_LAST (last l) \<and>
     (\<forall>c\<in>set l. LABEL_MIDDLE c)"

fun join_labels :: "bytes list \<Rightarrow> bytes" where
  "join_labels [] = []"
| "join_labels [l] = l"
| "join_labels (l # ls) = l @ ch CHR ''.'' # join_labels ls"

text \<open>A dot alone, or labels between dots with up to two dots at the end.\<close>

definition host_name :: "bytes \<Rightarrow> bool" where
  "host_name h \<longleftrightarrow> h = chars ''.'' \<or>
     (\<exists>ls. ls \<noteq> [] \<and> (\<forall>l\<in>set ls. valid_label l) \<and>
        (h = join_labels ls \<or> h = join_labels ls @ chars ''.'' \<or> h = join_labels ls @ chars ''..''))"

definition valid_url_parts :: "'a UrlParts_scheme \<Rightarrow> bool" where
  "valid_url_parts parts \<longleftrightarrow>
     (if up_scheme parts = [] then \<not> has_scheme parts
      else SCHEME_FIRST (hd (up_scheme parts)) \<and> (\<forall>c\<in>set (up_scheme parts). SCHEME_NOT_FIRST c)) \<and>
     encoded_text USER_INFO (up_userinfo parts) \<and>
     (if up_host parts = [] then up_userinfo parts = [] \<and> up_port parts = []
      else length (up_host parts) \<le> 255 \<and> host_name (up_host parts)) \<and>
     (\<forall>c\<in>set (up_port parts). NUMBER c) \<and>
     (if up_host parts = [] then \<not> (\<exists>r. up_path parts = chars ''//'' @ r)
      else up_path parts = [] \<or> (\<exists>r. up_path parts = chars ''/'' @ r)) \<and>
     encoded_text PATH (up_path parts) \<and> encoded_text QUERY (up_query parts) \<and> encoded_text FRAGMENT (up_fragment parts)"

lemma label_categories:
  "LABEL_FIRST_LAST c \<Longrightarrow> LABEL_MIDDLE c" "LABEL_MIDDLE c \<Longrightarrow> c \<noteq> 0x2E" "LABEL_MIDDLE c \<Longrightarrow> HOST c" "HOST 0x2E"
  "SCHEME_FIRST c \<Longrightarrow> SCHEME_NOT_FIRST c"
  by (auto simp: url_categories)

lemma check_label_iff: "check_label url l = None \<longleftrightarrow> valid_label l"
proof (cases l)
  case (Cons a r)
  show ?thesis
  proof (cases r rule: rev_cases)
    case Nil
    then show ?thesis using Cons label_categories(1) [of a]
      by (auto simp: check_label_def valid_label_def MAX_HOSTNAME_LABEL_SIZE_def)
  next
    case (snoc m b)
    have "take (length m) (m @ [b]) = m" by simp
    then show ?thesis using Cons snoc label_categories(1) [of a] label_categories(1) [of b]
      by (cases "m = []") (auto simp: check_label_def valid_label_def MAX_HOSTNAME_LABEL_SIZE_def is_valid_chars_iff nth_append)
  qed
qed (simp add: check_label_def valid_label_def)

lemma check_labels_iff: "check_labels url ls = None \<longleftrightarrow> (\<forall>l\<in>set ls. valid_label l)"
proof (induction ls)
  case (Cons l ls)
  then show ?case using check_label_iff [of url l] by (auto split: option.split)
qed simp

lemma valid_label_no_dot: "valid_label l \<Longrightarrow> \<forall>c\<in>set l. \<not> char1 0x2E c"
  using label_categories(2) by (auto simp: valid_label_def char1_def)

lemma split_ref_label:
  assumes "\<forall>c\<in>set l. \<not> p c" "l \<noteq> []"
  shows "split_ref p l = [l]"
proof -
  have "takeWhile (\<lambda>c. \<not> p c) l = l" "dropWhile (\<lambda>c. \<not> p c) l = []"
    using assms(1) by (simp_all add: takeWhile_eq_all_conv dropWhile_eq_Nil_conv)
  then show ?thesis using assms(2) by (simp add: split_ref.simps [of p l])
qed

lemma split_ref_dot:
  assumes "\<forall>c\<in>set l. \<not> p c" "p d"
  shows "split_ref p (l @ d # r) = l # split_ref p r"
proof -
  have "takeWhile (\<lambda>c. \<not> p c) (l @ d # r) = l" "dropWhile (\<lambda>c. \<not> p c) (l @ d # r) = d # r"
    using assms by (simp_all add: takeWhile_append2 dropWhile_append2)
  then show ?thesis by (simp add: split_ref.simps [of p "l @ d # r"] split_ref.simps [of p "[]"])
qed

lemma split_ref_join:
  assumes "ls \<noteq> []" "\<forall>l\<in>set ls. valid_label l"
  shows "split_ref (char1 0x2E) (join_labels ls @ (if dot then [0x2E] else [])) = ls"
  using assms
proof (induction ls rule: join_labels.induct)
  case (2 l)
  then have l: "\<forall>c\<in>set l. \<not> char1 0x2E c" "l \<noteq> []" using valid_label_no_dot [of l] by (auto simp: valid_label_def)
  show ?case using split_ref_label [OF l] split_ref_dot [OF l(1), of "0x2E" "[]"]
    by (simp add: split_ref.simps [of _ "[]"] char1_def)
next
  case (3 l l' ls)
  then have "\<forall>c\<in>set l. \<not> char1 0x2E c" by (intro valid_label_no_dot) simp
  from split_ref_dot [OF this, of "0x2E" "join_labels (l' # ls) @ (if dot then [0x2E] else [])"] 3
  show ?case by (simp add: char1_def)
qed simp

lemma split_ref_labels:
  assumes "s \<noteq> []" "\<forall>l\<in>set (split_ref (char1 0x2E) s). valid_label l"
  shows "\<exists>ls dot. ls \<noteq> [] \<and> (\<forall>l\<in>set ls. valid_label l) \<and> s = join_labels ls @ (if dot then [0x2E] else [])"
  using assms
proof (induction "length s" arbitrary: s rule: less_induct)
  case less
  let ?p = "char1 0x2E" and ?t = "takeWhile (\<lambda>c. \<not> char1 0x2E c) s" and ?r = "dropWhile (\<lambda>c. \<not> char1 0x2E c) s"
  have tr: "s = ?t @ ?r" by simp
  have t: "valid_label ?t" using less.prems by (simp add: split_ref.simps [of ?p s])
  show ?case
  proof (cases ?r)
    case Nil
    then have "s = ?t" using tr by (metis append_Nil2)
    then show ?thesis using t by (intro exI [of _ "[?t]"] exI [of _ False]) simp
  next
    case (Cons d r)
    have "?p d" using hd_dropWhile [of "\<lambda>c. \<not> ?p c" s] Cons by simp
    then have "d = 0x2E" by (simp add: char1_def)
    then have s: "s = ?t @ 0x2E # r" using tr Cons by metis
    show ?thesis
    proof (cases "r = []")
      case True
      then show ?thesis using t s by (intro exI [of _ "[?t]"] exI [of _ True]) simp
    next
      case False
      have "\<forall>l\<in>set (split_ref ?p r). valid_label l"
        using less.prems Cons by (simp add: split_ref.simps [of ?p s])
      moreover have "length r < length s" using length_dropWhile_le [of "\<lambda>c. \<not> ?p c" s] Cons by simp
      ultimately obtain ls dot where ls: "ls \<noteq> []" "\<forall>l\<in>set ls. valid_label l"
        "r = join_labels ls @ (if dot then [0x2E] else [])"
        using less.hyps [OF _ False] by blast
      then have "join_labels (?t # ls) @ (if dot then [0x2E] else []) = ?t @ 0x2E # r" by (cases ls) simp_all
      then show ?thesis using t s ls(1,2)
        by (intro exI [of _ "?t # ls"] exI [of _ dot]) (auto simp del: join_labels.simps)
    qed
  qed
qed

lemma split_ref_valid_iff:
  "(\<forall>l\<in>set (split_ref (char1 0x2E) s). valid_label l) \<longleftrightarrow> s = [] \<or>
     (\<exists>ls. ls \<noteq> [] \<and> (\<forall>l\<in>set ls. valid_label l) \<and> (s = join_labels ls \<or> s = join_labels ls @ [0x2E]))"
  (is "?valid \<longleftrightarrow> s = [] \<or> ?labels")
proof
  assume ?valid
  show "s = [] \<or> ?labels"
  proof (cases "s = []")
    case False
    then obtain ls dot where "ls \<noteq> []" "\<forall>l\<in>set ls. valid_label l" "s = join_labels ls @ (if dot then [0x2E] else [])"
      using split_ref_labels \<open>?valid\<close> by blast
    then show ?thesis by (cases dot) auto
  qed simp
next
  assume "s = [] \<or> ?labels"
  then consider "s = []"
    | ls where "ls \<noteq> []" "\<forall>l\<in>set ls. valid_label l" "s = join_labels ls \<or> s = join_labels ls @ [0x2E]" by blast
  then show ?valid
  proof cases
    case 1
    then show ?thesis by (simp add: split_ref.simps [of _ "[]"])
  next
    case 2
    then have "split_ref (char1 0x2E) s = ls"
      using split_ref_join [OF 2(1,2), of False] split_ref_join [OF 2(1,2), of True] by auto
    then show ?thesis using 2(2) by simp
  qed
qed

lemma tokens_ref: "fst (get_tokens (Suc (length s)) True (splitter_state s (char_splitter_category p))) = split_ref p s"
  using get_tokens_True [of p "splitter_state s (char_splitter_category p)" "Suc (length s)"]
  by (auto simp: splits_by_def splitter_state_def)

lemma host_labels_snoc: "host_labels (s @ [d]) = split_ref (char1 0x2E) (if d = 0x2E then s else s @ [d])"
  unfolding host_labels_def Let_def tokens_ref by simp

lemma join_labels_last:
  assumes "ls \<noteq> []" "\<forall>l\<in>set ls. valid_label l"
  shows "join_labels ls \<noteq> [] \<and> LABEL_FIRST_LAST (last (join_labels ls))"
  using assms
proof (induction ls rule: join_labels.induct)
  case (3 l l' ls)
  then show ?case by (auto simp: valid_label_def)
qed (simp_all add: valid_label_def)

lemma join_labels_no_dot: "ls \<noteq> [] \<Longrightarrow> \<forall>l\<in>set ls. valid_label l \<Longrightarrow> join_labels ls \<noteq> s @ [0x2E]"
  using join_labels_last [of ls] label_categories(1) [of "0x2E"] label_categories(2) [of "0x2E"] by auto

lemma host_labels_iff:
  assumes "h \<noteq> []"
  shows "(\<forall>l\<in>set (host_labels h). valid_label l) \<longleftrightarrow> host_name h"
proof (cases h rule: rev_cases)
  case (snoc s d)
  show ?thesis
  proof (cases "d = 0x2E")
    case True
    have "h \<noteq> join_labels ls" if "ls \<noteq> []" "\<forall>l\<in>set ls. valid_label l" for ls
      using join_labels_no_dot [OF that, of s] snoc True by metis
    then have "host_name h \<longleftrightarrow> s = [] \<or>
        (\<exists>ls. ls \<noteq> [] \<and> (\<forall>l\<in>set ls. valid_label l) \<and> (s = join_labels ls \<or> s = join_labels ls @ [0x2E]))"
      unfolding host_name_def using snoc True by auto
    then show ?thesis using snoc True by (simp add: host_labels_snoc split_ref_valid_iff)
  next
    case False
    have "host_name h \<longleftrightarrow> (\<exists>ls. ls \<noteq> [] \<and> (\<forall>l\<in>set ls. valid_label l) \<and> h = join_labels ls)"
      using snoc False unfolding host_name_def by auto
    then show ?thesis using snoc False by (simp add: host_labels_snoc split_ref_valid_iff)
  qed
qed (use assms in simp)

lemma join_labels_set: "c \<in> set (join_labels ls) \<Longrightarrow> c = 0x2E \<or> (\<exists>l\<in>set ls. c \<in> set l)"
  by (induction ls rule: join_labels.induct) auto

lemma host_name_chars:
  assumes "host_name h" "c \<in> set h"
  shows "HOST c"
proof -
  have "c = 0x2E \<or> (\<exists>l. valid_label l \<and> c \<in> set l)"
    using assms by (auto simp: host_name_def dest!: join_labels_set)
  then show ?thesis using label_categories(3,4) by (auto simp: valid_label_def)
qed

lemma first_error_None: "first_error es = None \<longleftrightarrow> (\<forall>e\<in>set es. e = None)"
  by (induction es) (auto split: option.split)

lemma check_scheme_iff:
  "check_scheme url parts = None \<longleftrightarrow>
     (if up_scheme parts = [] then \<not> has_scheme parts
      else SCHEME_FIRST (hd (up_scheme parts)) \<and> (\<forall>c\<in>set (up_scheme parts). SCHEME_NOT_FIRST c))"
  using label_categories(5) by (cases "up_scheme parts") (auto simp: check_scheme_def is_valid_chars_iff Let_def)

lemma check_host_iff:
  "check_host url parts = None \<longleftrightarrow>
     (if up_host parts = [] then up_userinfo parts = [] \<and> up_port parts = []
      else length (up_host parts) \<le> 255 \<and> host_name (up_host parts))"
proof (cases "up_host parts = []")
  case False
  have "(\<forall>c\<in>set (up_host parts). HOST c) \<and> host_name (up_host parts) \<longleftrightarrow> host_name (up_host parts)"
    using host_name_chars by blast
  then show ?thesis using False host_labels_iff [OF False]
    by (auto simp: check_host_def Let_def is_valid_chars_iff check_labels_iff MAX_HOSTNAME_SIZE_def)
qed (simp add: check_host_def)

lemma check_path_iff:
  "check_path url parts = None \<longleftrightarrow>
     (if up_host parts = [] then \<not> (\<exists>r. up_path parts = chars ''//'' @ r)
      else up_path parts = [] \<or> (\<exists>r. up_path parts = chars ''/'' @ r)) \<and>
     encoded_text PATH (up_path parts)"
proof (cases "up_path parts")
  case (Cons a r)
  then show ?thesis by (cases r) (auto simp: check_path_def Let_def is_valid_encoded_iff)
qed (simp add: check_path_def)

lemma url_parts_checker_iff: "url_parts_checker url parts = None \<longleftrightarrow> valid_url_parts parts"
proof -
  have if_None: "(if b then Some e else None) = None \<longleftrightarrow> \<not> b" for b and e :: bytes by simp
  have encoded: "\<not> (s \<noteq> [] \<and> \<not> is_valid_encoded s p) \<longleftrightarrow> encoded_text p s" for s p
    by (cases s) (simp_all add: is_valid_encoded_iff del: encoded_text.simps(2))
  have port: "\<not> (s \<noteq> [] \<and> \<not> is_valid_chars s PORT) \<longleftrightarrow> (\<forall>c\<in>set s. NUMBER c)" for s
    by (auto simp: is_valid_chars_iff PORT_def)
  show ?thesis
    unfolding url_parts_checker_def first_error_None list.set ball_simps if_None encoded port
      check_scheme_iff check_host_iff check_path_iff valid_url_parts_def
    by blast
qed

lemma valid_separable:
  assumes "valid_url_parts parts" "consistent parts"
    and "has_userinfo parts \<Longrightarrow> up_userinfo parts \<noteq> []" "has_port parts \<Longrightarrow> up_port parts \<noteq> []"
  shows "separable parts"
proof -
  note valid = assms(1) [unfolded valid_url_parts_def]
  have scheme: "\<forall>c\<in>set (up_scheme parts). \<not> URL_PARSER_SCHEME_END c"
    using valid scheme_not_separator by (cases "up_scheme parts = []") auto
  have userinfo: "\<forall>c\<in>set (up_userinfo parts). c \<noteq> 0x40 \<and> \<not> URL_PARSER_AUTORITY_END c"
    using valid encoded_text_set [of USER_INFO "up_userinfo parts"] hex_owned userinfo_not_separator by blast
  have host: "\<forall>c\<in>set (up_host parts). c \<noteq> 0x3A \<and> c \<noteq> 0x40 \<and> \<not> URL_PARSER_AUTORITY_END c"
    using valid host_name_chars [of "up_host parts"] host_not_separator by (cases "up_host parts = []") auto
  have port: "\<forall>c\<in>set (up_port parts). c \<noteq> 0x3A \<and> c \<noteq> 0x40 \<and> \<not> URL_PARSER_AUTORITY_END c"
    using valid port_not_separator unfolding PORT_def by blast
  have path: "\<forall>c\<in>set (up_path parts). \<not> URL_PARSER_PATH_END c"
    using valid encoded_text_set [of PATH "up_path parts"] hex_owned path_not_separator by blast
  have query: "\<forall>c\<in>set (up_query parts). \<not> URL_PARSER_QUERY_END c"
    using valid encoded_text_set [of QUERY "up_query parts"] hex_owned query_not_separator by blast
  have slash: "if up_host parts \<noteq> [] then up_path parts = [] \<or> up_path parts ! 0 = 0x2F
      else \<not> has_userinfo parts \<and> \<not> has_port parts \<and> \<not> (\<exists>r. up_path parts = 0x2F # 0x2F # r)"
    using valid assms(3,4) by (cases "up_host parts = []") auto
  show ?thesis unfolding separable_def set_append
    using assms(2-4) scheme userinfo host port path query slash by blast
qed

section \<open>Splitting any text\<close>

text \<open>Only query and fragment differ; only user, host and port differ.\<close>

definition sets_tail :: "ExtendedUrlParts \<Rightarrow> ExtendedUrlParts \<Rightarrow> bool" where
  "sets_tail p q \<longleftrightarrow> q\<lparr>has_query := has_query p, up_query := up_query p,
     has_fragment := has_fragment p, up_fragment := up_fragment p\<rparr> = p"

definition no_tail :: "ExtendedUrlParts \<Rightarrow> bool" where
  "no_tail p \<longleftrightarrow> \<not> has_query p \<and> up_query p = [] \<and> \<not> has_fragment p \<and> up_fragment p = []"

definition sets_host :: "ExtendedUrlParts \<Rightarrow> ExtendedUrlParts \<Rightarrow> bool" where
  "sets_host p q \<longleftrightarrow> q\<lparr>has_userinfo := has_userinfo p, up_userinfo := up_userinfo p,
     has_host := has_host p, up_host := up_host p, has_port := has_port p, up_port := up_port p\<rparr> = p"

lemma find_owned_cases:
  "find_owned p s = length s \<or> (\<exists>a c b. s = a @ c # b \<and> find_owned p s = length a \<and> p c)"
proof (induction s)
  case (Cons x s)
  show ?case
  proof (cases "p x")
    case True
    then show ?thesis by (intro disjI2 exI [of _ "[]"] exI [of _ x] exI [of _ s]) simp
  next
    case False
    from Cons show ?thesis
    proof
      assume "\<exists>a c b. s = a @ c # b \<and> find_owned p s = length a \<and> p c"
      then obtain a c b where "s = a @ c # b" "find_owned p s = length a" "p c" by blast
      then show ?thesis using False by (intro disjI2 exI [of _ "x # a"] exI [of _ c] exI [of _ b]) simp
    qed (use False in simp)
  qed
qed simp

lemma split_query_total:
  assumes "c = 0x3F \<or> c = 0x23" "no_tail p"
  shows "\<exists>q. split_query p (c # r) = Inr q \<and> sets_tail p q \<and> c # r = query_text q"
proof (cases "c = 0x3F")
  case True
  consider (all) "find_owned URL_PARSER_QUERY_END r = length r"
    | (hit) a b where "r = a @ 0x23 # b" "find_owned URL_PARSER_QUERY_END r = length a"
    using find_owned_cases [of URL_PARSER_QUERY_END r] by auto
  then show ?thesis
  proof cases
    case all
    let ?q = "p\<lparr>has_query := True, up_query := r\<rparr>"
    have "split_query p (c # r) = Inr ?q" using True all by (simp add: split_query_def)
    moreover have "sets_tail p ?q" by (simp add: sets_tail_def)
    moreover have "c # r = query_text ?q" using True assms(2) by (simp add: query_text_def fragment_text_def no_tail_def)
    ultimately show ?thesis by blast
  next
    case hit
    let ?q = "p\<lparr>has_query := True, up_query := a, has_fragment := True, up_fragment := b\<rparr>"
    have "split_query p (c # r) = Inr ?q" using True hit by (simp add: split_query_def split_fragment_text)
    moreover have "sets_tail p ?q" by (simp add: sets_tail_def)
    moreover have "c # r = query_text ?q" using True hit by (simp add: query_text_def fragment_text_def)
    ultimately show ?thesis by blast
  qed
next
  case False
  let ?q = "p\<lparr>has_fragment := True, up_fragment := r\<rparr>"
  have "split_query p (c # r) = Inr ?q" using False assms(1) by (simp add: split_query_def split_fragment_def)
  moreover have "sets_tail p ?q" by (simp add: sets_tail_def)
  moreover have "c # r = query_text ?q"
    using False assms by (simp add: query_text_def fragment_text_def no_tail_def)
  ultimately show ?thesis by blast
qed

lemma split_path_total:
  assumes "no_tail p"
  shows "\<exists>a q. split_path p cur = Inr q \<and> sets_tail (p\<lparr>has_path := True, up_path := a\<rparr>) q \<and> cur = a @ query_text q"
proof -
  consider (all) "find_owned URL_PARSER_PATH_END cur = length cur"
    | (hit) a c b where "cur = a @ c # b" "find_owned URL_PARSER_PATH_END cur = length a" "c = 0x3F \<or> c = 0x23"
    using find_owned_cases [of URL_PARSER_PATH_END cur] unfolding separators_of_parser by blast
  then show ?thesis
  proof cases
    case all
    let ?p = "p\<lparr>has_path := True, up_path := cur\<rparr>"
    have "split_path p cur = Inr ?p" using all by (simp add: split_path_def)
    moreover have "sets_tail ?p ?p" by (simp add: sets_tail_def)
    moreover have "query_text ?p = []" using assms by (simp add: query_text_def fragment_text_def no_tail_def)
    ultimately show ?thesis by (intro exI [of _ cur] exI [of _ ?p]) simp
  next
    case hit
    let ?p = "p\<lparr>has_path := True, up_path := a\<rparr>"
    have "no_tail ?p" using assms by (simp add: no_tail_def)
    from split_query_total [OF hit(3) this, of b] obtain q
      where "split_query ?p (c # b) = Inr q" "sets_tail ?p q" "c # b = query_text q" by blast
    moreover have "split_path p cur = split_query ?p (c # b)" using hit(1,2) by (simp add: split_path_def Let_def)
    ultimately show ?thesis using hit(1) by (intro exI [of _ a] exI [of _ q]) simp
  qed
qed

text \<open>
  What the splitter has found when it is past the scheme \<open>p\<close>: the text is an authority (with its two
  slashes, also where it is empty), the path, the query and the fragment.
\<close>

definition splits_to :: "ExtendedUrlParts \<Rightarrow> bytes \<Rightarrow> ExtendedUrlParts \<Rightarrow> bool" where
  "splits_to p cur q \<longleftrightarrow> (\<exists>a. cur = a @ up_path q @ query_text q \<and>
     (a = [] \<and> up_authority q = [] \<or> a = chars ''//'' @ up_authority q) \<and>
     has_scheme q = has_scheme p \<and> up_scheme q = up_scheme p \<and>
     (\<not> has_path q \<longrightarrow> up_path q = []))"

lemma sets_tail_front:
  "sets_tail p q \<Longrightarrow> up_path q = up_path p \<and> has_path q = has_path p \<and> up_authority q = up_authority p \<and>
     has_scheme q = has_scheme p \<and> up_scheme q = up_scheme p"
  by (cases p; cases q) (simp add: sets_tail_def)

lemma split_path_splits:
  assumes "no_tail p" "a = [] \<and> up_authority p = [] \<or> a = chars ''//'' @ up_authority p"
  shows "\<exists>q. split_path p cur = Inr q \<and> splits_to p (a @ cur) q"
proof -
  obtain b q where "split_path p cur = Inr q" "sets_tail (p\<lparr>has_path := True, up_path := b\<rparr>) q" "cur = b @ query_text q"
    using split_path_total [OF assms(1)] by blast
  moreover from sets_tail_front [OF this(2)] this(3) have "splits_to p (a @ cur) q"
    using assms(2) unfolding splits_to_def by (intro exI [of _ a]) auto
  ultimately show ?thesis by blast
qed

lemma split_authority_begin:
  assumes "no_tail p" "up_authority p = []" "\<not> has_path p" "up_path p = []"
  shows "\<exists>q. split_hierarchy p (0x2F # 0x2F # cur) = Inr q \<and> splits_to p (0x2F # 0x2F # cur) q"
proof (cases "cur = []")
  case True
  then show ?thesis using assms
    by (intro exI [of _ p]) (simp add: split_hierarchy_def splits_to_def query_text_def fragment_text_def no_tail_def)
next
  case ne: False
  let ?k = "find_owned URL_PARSER_AUTORITY_END cur"
  let ?p = "p\<lparr>up_authority := take ?k cur\<rparr>"
  have step: "split_hierarchy p (0x2F # 0x2F # cur) =
      (if ?k = length cur then Inr ?p else split_path ?p (drop ?k cur))"
    using ne by (simp add: split_hierarchy_def Let_def)
  have tail: "no_tail ?p" using assms(1) by (simp add: no_tail_def)
  show ?thesis
  proof (cases "?k = length cur")
    case True
    then show ?thesis using step assms tail
      by (intro exI [of _ ?p]) (simp add: splits_to_def query_text_def fragment_text_def no_tail_def)
  next
    case False
    obtain q where "split_path ?p (drop ?k cur) = Inr q" "splits_to ?p ((chars ''//'' @ take ?k cur) @ drop ?k cur) q"
      using split_path_splits [OF tail, of "chars ''//'' @ take ?k cur" "drop ?k cur"] by auto
    then show ?thesis using step False by (intro exI [of _ q]) (simp add: splits_to_def)
  qed
qed

lemma split_hierarchy_total:
  assumes "cur \<noteq> []" "no_tail p" "up_authority p = []" "\<not> has_path p" "up_path p = []"
  shows "\<exists>q. split_hierarchy p cur = Inr q \<and> splits_to p cur q"
proof -
  obtain c r where cur: "cur = c # r" using assms(1) by (cases cur) auto
  have "split_hierarchy p cur = split_path p cur" if "\<not> (c = 0x3F \<or> c = 0x23)" "\<nexists>r'. cur = 0x2F # 0x2F # r'"
    using that cur by (cases r) (auto simp: split_hierarchy_def)
  then consider (tail) "c = 0x3F \<or> c = 0x23" | (auth) r' where "cur = 0x2F # 0x2F # r'"
    | (path) "split_hierarchy p cur = split_path p cur"
    by blast
  then show ?thesis
  proof cases
    case tail
    then obtain q where "split_query p cur = Inr q" "sets_tail p q" "cur = query_text q"
      using split_query_total [OF tail assms(2), of r] cur by auto
    moreover have "split_hierarchy p cur = split_query p cur" using tail cur by (auto simp: split_hierarchy_def)
    ultimately show ?thesis using sets_tail_front [of p q] assms(3-5)
      by (intro exI [of _ q]) (simp add: splits_to_def)
  next
    case auth
    then show ?thesis using split_authority_begin [OF assms(2-5)] by simp
  next
    case path
    then show ?thesis using split_path_splits [OF assms(2), of "[]" cur] assms(3) by simp
  qed
qed

lemma sets_host_rest:
  "sets_host p q \<Longrightarrow> up_path q = up_path p \<and> up_authority q = up_authority p \<and>
     has_scheme q = has_scheme p \<and> up_scheme q = up_scheme p \<and> query_text q = query_text p"
  by (cases p; cases q) (simp add: sets_host_def query_text_def fragment_text_def)

lemma split_authority_total: "\<exists>q. split_authority p = Inr q \<and> sets_host p q"
proof (cases "up_authority p = []")
  case True
  then show ?thesis by (simp add: split_authority_def sets_host_def)
next
  case False
  let ?a = "up_authority p"
  have find: "Suc n \<le> length ?a" if "sub_find ?a c pos = Some n" for c pos n
    using that by (simp add: sub_find_iff)
  have rfind: "Suc n \<le> length ?a" if "sub_rfind ?a c pos = Some n" for c pos n
    using that by (simp add: sub_rfind_iff)
  show ?thesis
    using False find [of "0x40" 0] rfind [of "0x3A" NPOS]
    by (cases "sub_find ?a 0x40 0"; cases "sub_rfind ?a 0x3A NPOS")
      (simp_all add: split_authority_def Let_def sets_host_def)
qed

definition recomposes :: "bytes \<Rightarrow> ExtendedUrlParts \<Rightarrow> bool" where
  "recomposes url q \<longleftrightarrow> (\<exists>a. url = (if has_scheme q then up_scheme q @ chars '':'' else []) @ a @ up_path q @ query_text q \<and>
     (a = [] \<and> up_authority q = [] \<or> a = chars ''//'' @ up_authority q))"

lemma splits_recomposes:
  "splits_to p cur q \<Longrightarrow> recomposes ((if has_scheme p then up_scheme p @ chars '':'' else []) @ cur) q"
  by (auto simp: splits_to_def recomposes_def)

lemma split_main_total: "\<exists>q. split_main url = Inr q \<and> recomposes url q"
proof -
  let ?k = "find_owned URL_PARSER_SCHEME_END url"
  have clear: "no_tail extended_clear" "up_authority extended_clear = []" "\<not> has_path extended_clear"
    "up_path extended_clear = []" "\<not> has_scheme extended_clear"
    by (simp_all add: no_tail_def extended_clear_def)
  consider (path) "?k = length url" | (hit) a c b where "url = a @ c # b" "?k = length a"
    using find_owned_cases [of URL_PARSER_SCHEME_END url] by blast
  then show ?thesis
  proof cases
    case path
    then show ?thesis by (simp add: split_main_def recomposes_def extended_clear_def query_text_def fragment_text_def)
  next
    case hit
    let ?p = "extended_clear\<lparr>has_scheme := True, up_scheme := a\<rparr>"
    have main: "split_main url = (if c = 0x3A then if b = [] then Inr ?p else split_hierarchy ?p b
        else split_hierarchy extended_clear url)"
      using hit by (simp add: split_main_def Let_def)
    have p: "no_tail ?p" "up_authority ?p = []" "\<not> has_path ?p" "up_path ?p = []"
      using clear by (simp_all add: no_tail_def)
    have whole: "\<exists>q. split_hierarchy extended_clear url = Inr q \<and> recomposes url q"
      using split_hierarchy_total [OF _ clear(1-4), of url] splits_recomposes [of extended_clear url] hit clear(5) by auto
    have "\<exists>q. split_hierarchy ?p b = Inr q \<and> recomposes (a @ 0x3A # b) q" if "b \<noteq> []"
      using split_hierarchy_total [OF that p] splits_recomposes [of ?p b] by auto
    moreover have "recomposes (a @ [0x3A]) ?p"
      by (simp add: recomposes_def extended_clear_def query_text_def fragment_text_def)
    ultimately show ?thesis using main whole hit by (cases "c = 0x3A"; cases "b = []") auto
  qed
qed

lemma split_url_total: "\<exists>q. split_url url = Inr q \<and> recomposes url q"
proof -
  obtain p where "split_main url = Inr p" "recomposes url p" using split_main_total by blast
  moreover obtain q where "split_authority p = Inr q" "sets_host p q" using split_authority_total by blast
  ultimately show ?thesis using sets_host_rest [of p q] by (auto simp: split_url_def recomposes_def)
qed

section \<open>Addresses built from parts\<close>

lemma url_parts_fields [simp]:
  "consistent (url_parts sc us ho po pa qu fr)"
  "up_scheme (url_parts sc us ho po pa qu fr) = sc" "up_userinfo (url_parts sc us ho po pa qu fr) = us"
  "up_host (url_parts sc us ho po pa qu fr) = ho" "up_port (url_parts sc us ho po pa qu fr) = po"
  "up_path (url_parts sc us ho po pa qu fr) = pa" "up_query (url_parts sc us ho po pa qu fr) = qu"
  "up_fragment (url_parts sc us ho po pa qu fr) = fr"
  "has_scheme (url_parts sc us ho po pa qu fr) \<longleftrightarrow> sc \<noteq> []" "has_userinfo (url_parts sc us ho po pa qu fr) \<longleftrightarrow> us \<noteq> []"
  "has_port (url_parts sc us ho po pa qu fr) \<longleftrightarrow> po \<noteq> []" "has_query (url_parts sc us ho po pa qu fr) \<longleftrightarrow> qu \<noteq> []"
  "has_fragment (url_parts sc us ho po pa qu fr) \<longleftrightarrow> fr \<noteq> []"
  by (simp_all add: url_parts_def consistent_def)

lemma url_address_parts_iff:
  "url_address_parts sc us ho po pa qu fr = Inr a \<longleftrightarrow>
     valid_url_parts (url_parts sc us ho po pa qu fr) \<and>
     a = \<lparr>ua_url = assemble_url (url_parts sc us ho po pa qu fr),
          ua_parts = extended_of (url_parts sc us ho po pa qu fr) True\<rparr>"
proof -
  let ?p = "url_parts sc us ho po pa qu fr"
  have "url_parts_checker (assemble_url ?p) ?p = None \<longleftrightarrow> valid_url_parts ?p" by (rule url_parts_checker_iff)
  then show ?thesis
    by (auto simp: url_address_parts_def assign_url_parts_assembled split: option.splits)
qed

lemma valid_extended_of: "has_scheme parts = (up_scheme parts \<noteq> []) \<Longrightarrow> valid_url_parts (extended_of parts flag) = valid_url_parts parts"
  by (simp add: valid_url_parts_def extended_of_def)

text \<open>A copy is the same address; assigned to itself, an address keeps its text and loses its parts.\<close>

lemma url_address_copy_same:
  assumes "url_address_parts sc us ho po pa qu fr = Inr a"
  shows "url_address_copy a = Inr a"
proof -
  let ?p = "url_parts sc us ho po pa qu fr"
  have a: "a = \<lparr>ua_url = assemble_url ?p, ua_parts = extended_of ?p True\<rparr>"
    using assms by (simp add: url_address_parts_iff)
  have same: "assemble_url (extended_of q True) = assemble_url q" "extended_of (extended_of q True) True = extended_of q True"
    for q :: UrlParts
    by (simp_all add: extended_of_def assemble_url_def assemble_authority_def has_authority_def)
  have "consistent (extended_of ?p True)" by (simp add: consistent_def extended_of_def)
  from assign_url_parts_assembled [OF this, of False] show ?thesis
    by (simp add: url_address_copy_def a same)
qed

lemma self_assignment_clears:
  "url_address_assign_self \<lparr>ua_url = chars ''http://h/'',
     ua_parts = extended_of (url_parts (chars ''http'') [] (chars ''h'') [] (chars ''/'') [] []) True\<rparr> =
   Inr \<lparr>ua_url = chars ''http://h/'', ua_parts = extended_clear\<lparr>has_path := True, up_authority := chars ''t''\<rparr>\<rparr>"
  by (simp add: url_address_assign_self_def Let_def extended_of_def url_parts_def assemble_url_def has_authority_def
      assemble_authority_def adjust_parts_def adjust_scheme_def adjust_authority_def adjust_rest_def extended_clear_def)

text \<open>The label behind the last but one dot is not looked at.\<close>

lemma host_two_dots: "check_host url (url_parts (chars ''http'') [] (chars ''a..'') [] [] [] []) = None"
proof -
  have "valid_label (chars ''a'')" by (simp add: valid_label_def url_categories)
  then have "host_name (chars ''a..'')" unfolding host_name_def by (intro disjI2 exI [of _ "[chars ''a'']"]) simp
  then show ?thesis by (simp add: check_host_iff)
qed

section \<open>Properties\<close>

text \<open>
  C34: an address that was built from its parts, among them a scheme or a host that is not empty, is
  read back from its text: parsing the text of the address succeeds and gives all parts the
  constructor was called with and the authority, and only the flag of an empty path may differ.
  (Without a scheme and a host the path may be taken for them: \<open>path_read_as_scheme\<close>.)  The text is at
  most as long as a substring can be.
\<close>

theorem url_parts_roundtrip:
  assumes "url_address_parts scheme userinfo host port path query fragment = Inr a"
    and "scheme \<noteq> [] \<or> host \<noteq> []" "length (ua_url a) \<le> NPOS"
  shows "\<exists>b. url_address (ua_url a) = Inr b \<and> ua_url b = ua_url a \<and> (ua_parts b)\<lparr>has_path := True\<rparr> = ua_parts a \<and>
    up_scheme (ua_parts b) = scheme \<and> up_userinfo (ua_parts b) = userinfo \<and> up_host (ua_parts b) = host \<and>
    up_port (ua_parts b) = port \<and> up_path (ua_parts b) = path \<and> up_query (ua_parts b) = query \<and>
    up_fragment (ua_parts b) = fragment"
proof -
  let ?p = "url_parts scheme userinfo host port path query fragment"
  have valid: "valid_url_parts ?p" and a: "a = \<lparr>ua_url = assemble_url ?p, ua_parts = extended_of ?p True\<rparr>"
    using assms(1) by (simp_all add: url_address_parts_iff)
  have "separable ?p" by (rule valid_separable [OF valid]) simp_all
  from split_url_assembled [OF this] obtain flag where split: "split_url (assemble_url ?p) = Inr (extended_of ?p flag)"
    using assms(2,3) a by auto
  have ne: "assemble_url ?p \<noteq> []" using assms(2) by (auto simp: assemble_url_def has_authority_def)
  have "url_parts_checker (assemble_url ?p) (extended_of ?p flag) = None"
    using valid by (simp add: url_parts_checker_iff valid_extended_of)
  then have "url_address (ua_url a) = Inr \<lparr>ua_url = ua_url a, ua_parts = extended_of ?p flag\<rparr>"
    using split ne by (simp add: url_address_def url_assign_def url_without_check_def a)
  then show ?thesis by (simp add: a extended_of_def)
qed

theorem url_parts_roundtrip_witness:
  "\<exists>b. url_address (chars ''http://u@h.org:8/p?q#f'') = Inr b \<and> up_userinfo (ua_parts b) = chars ''u'' \<and>
     up_host (ua_parts b) = chars ''h.org'' \<and> up_port (ua_parts b) = chars ''8'' \<and> up_query (ua_parts b) = chars ''q''"
proof -
  let ?p = "url_parts (chars ''http'') (chars ''u'') (chars ''h.org'') (chars ''8'') (chars ''/p'') (chars ''q'') (chars ''f'')"
  have "valid_label (chars ''h'')" "valid_label (chars ''org'')" by (simp_all add: valid_label_def url_categories)
  then have host: "host_name (chars ''h.org'')"
    unfolding host_name_def by (intro disjI2 exI [of _ "[chars ''h'', chars ''org'']"]) simp
  have "valid_url_parts ?p" using host by (simp add: valid_url_parts_def) (simp add: url_categories)
  moreover have url: "assemble_url ?p = chars ''http://u@h.org:8/p?q#f''"
    by (simp add: assemble_url_def assemble_authority_def has_authority_def)
  ultimately have "url_address_parts (chars ''http'') (chars ''u'') (chars ''h.org'') (chars ''8'') (chars ''/p'')
      (chars ''q'') (chars ''f'') = Inr \<lparr>ua_url = chars ''http://u@h.org:8/p?q#f'', ua_parts = extended_of ?p True\<rparr>"
    by (simp only: url_address_parts_iff simp_thms)
  from url_parts_roundtrip [OF this] show ?thesis by (auto simp: NPOS_def)
qed

text \<open>The address of the path \<^verbatim>\<open>a:b\<close> alone is read back with a scheme.\<close>

lemma path_read_as_scheme:
  "rmap ua_url (url_address_parts [] [] [] [] (chars ''a:b'') [] []) = Inr (chars ''a:b'')"
  "rmap (\<lambda>b. (up_scheme (ua_parts b), up_path (ua_parts b))) (url_address (chars ''a:b'')) = Inr (chars ''a'', chars ''b'')"
  by code_simp+

text \<open>
  C35: \<^verbatim>\<open>split_url\<close> returns for every text (its \<^verbatim>\<open>assert\<close> holds and it reads nothing outside of the text)
  and loses nothing: scheme, authority with its slashes, path, query and fragment with their
  separators are the text again.
\<close>

theorem split_url_lossless:
  "\<exists>q a. split_url url = Inr q \<and>
     url = (if has_scheme q then up_scheme q @ chars '':'' else []) @ a @ up_path q @
       (if has_query q then chars ''?'' @ up_query q else []) @
       (if has_fragment q then chars ''#'' @ up_fragment q else []) \<and>
     (a = [] \<and> up_authority q = [] \<or> a = chars ''//'' @ up_authority q)"
  using split_url_total [of url] by (auto simp: recomposes_def query_text_def fragment_text_def)

text \<open>
  C36: \<^verbatim>\<open>URLPartsChecker\<close> accepts exactly the parts of the grammar: scheme, user, port, path, query and
  fragment of their characters and escapes, and a host name of labels of at most 63 characters
  in at most 255 (with up to two dots at its end).
\<close>

theorem url_checker_exact: "url_parts_checker url parts = None \<longleftrightarrow> valid_url_parts parts"
  by (rule url_parts_checker_iff)

end
