(* ===== verification/Http_Address.thy ===== *)
theory Http_Address
  imports Url_Address Int_To_Str
begin

text \<open>
  The HTTP part of \<^verbatim>\<open>src/src/HTTP/UrlAddress.cpp\<close> and \<^verbatim>\<open>.hpp\<close>: the helpers that repair a part
  (\<^verbatim>\<open>http_fix_part\<close>) and read escapes (\<^verbatim>\<open>unmime\<close>, \<^verbatim>\<open>unmime_all\<close>), \<^verbatim>\<open>HTTPChecker\<close> and \<^verbatim>\<open>HTTPAddress\<close>.

  The virtual functions are those of \<^verbatim>\<open>HTTPAddress\<close> and \<^verbatim>\<open>HTTPChecker\<close> themselves; the derived classes for
  browsers convert host names with the Unicode tables and are not modelled.  The members of the
  base class are a field.  A failing constructor leaves no object.
\<close>

section \<open>Helpers\<close>

definition HTTP_SCHEME :: Caseless where
  "HTTP_SCHEME = \<lparr>caseless_str = chars ''http''\<rparr>"

definition HTTPS_SCHEME :: Caseless where
  "HTTPS_SCHEME = \<lparr>caseless_str = chars ''https''\<rparr>"

definition HTTP_PREFIX :: Caseless where
  "HTTP_PREFIX = \<lparr>caseless_str = chars ''http:''\<rparr>"

definition HTTPS_PREFIX :: Caseless where
  "HTTPS_PREFIX = \<lparr>caseless_str = chars ''https:''\<rparr>"

definition WWW :: Caseless where
  "WWW = \<lparr>caseless_str = chars ''www.''\<rparr>"

definition check_http_url_components :: "bytes \<Rightarrow> bytes \<Rightarrow> bytes \<Rightarrow> bool \<Rightarrow> bytes option" where
  "check_http_url_components url scheme host strict =
     (if \<not> caseless_equal HTTP_SCHEME scheme \<and> \<not> caseless_equal HTTPS_SCHEME scheme \<and> (strict \<or> scheme \<noteq> [])
      then Some (make_invalid ''unexpected protocol in url'' url)
      else if host = [] then Some (make_invalid ''empty server name in url'' url)
      else None)"

definition http_url_needs_prefix :: "bytes \<Rightarrow> bytes \<Rightarrow> bool" where
  "http_url_needs_prefix scheme host \<longleftrightarrow>
     host = [] \<and> \<not> caseless_equal HTTP_SCHEME scheme \<and> \<not> caseless_equal HTTPS_SCHEME scheme"

definition http_add_scheme :: "bytes \<Rightarrow> bytes" where
  "http_add_scheme url = caseless_str HTTP_SCHEME @ chars ''://'' @ url"

text \<open>The loop of \<^verbatim>\<open>http_fix_part\<close>, at a character that has to be escaped.\<close>

function fix_part_loop :: "bytes \<Rightarrow> bytes" where
  "fix_part_loop [] = []"
| "fix_part_loop (CH # OLD) =
     (let k = find_invalid QUERY OLD
      in [ch CHR ''%'', HEX_DIGITS ! unat (drop_bit 4 CH AND 0x0F), HEX_DIGITS ! unat (CH AND 0x0F)] @
         take k OLD @ (if k = length OLD then [] else fix_part_loop (drop k OLD)))"
  by pat_completeness auto
termination
  by (relation "measure length") auto

declare fix_part_loop.simps(2) [simp del]

definition http_fix_part :: "bytes \<Rightarrow> category \<Rightarrow> bytes option" where
  "http_fix_part part checker =
     (let k = find_invalid checker part
      in if k = length part then None else Some (take k part @ fix_part_loop (drop k part)))"

text \<open>\<^verbatim>\<open>unmime\<close> asserts that the text is encoded, except for the second digit of an escape.\<close>

fun unmime :: "category \<Rightarrow> bytes \<Rightarrow> bytes result" where
  "unmime valid [] = Inr []"
| "unmime valid (c # str) =
     (if c = ch CHR ''%'' then
        (case str of
           a # b # r \<Rightarrow>
             if \<not> HEX_NUMBER a then Inl AssertionFailed
             else let c = hex_to_char a b
               in rmap ((@) (if valid c then [to_lower c] else [ch CHR ''%'', to_lower a, to_lower b])) (unmime valid r)
         | _ \<Rightarrow> Inl AssertionFailed)
      else rmap ((#) (to_lower c)) (unmime valid str))"

fun unmime_all :: "bytes \<Rightarrow> bytes" where
  "unmime_all [] = []"
| "unmime_all (c # src) =
     (case src of
        a # b # r \<Rightarrow>
          if c = ch CHR ''%'' \<and> HEX_NUMBER a \<and> HEX_NUMBER b then hex_to_char a b # unmime_all r
          else c # unmime_all src
      | _ \<Rightarrow> c # unmime_all src)"

section \<open>HTTPChecker\<close>

definition http_process_parts :: "ExtendedUrlParts \<Rightarrow> bool \<Rightarrow> ExtendedUrlParts" where
  "http_process_parts parts strict =
     (if \<not> strict
      then parts\<lparr>has_userinfo := False, up_userinfo := [], has_path := False, up_path := [],
             has_query := False, up_query := [], has_fragment := False, up_fragment := []\<rparr>
      else parts)"

text \<open>The result is \<open>None\<close> for a valid text, or the error.\<close>

definition http_checker :: "bytes \<Rightarrow> bool \<Rightarrow> bytes option result" where
  "http_checker url strict =
     (if url = [] then Inr (Some (chars ''url is null''))
      else rbind (split_url url) (\<lambda>parts.
           rbind (if \<not> strict \<and> http_url_needs_prefix (up_scheme parts) (up_host parts)
                  then split_url (http_add_scheme url) else Inr parts) (\<lambda>parts.
             let parts = http_process_parts parts strict
             in Inr (first_error
                  [check_http_url_components url (up_scheme parts) (up_host parts) strict,
                   url_parts_checker url parts]))))"

section \<open>HTTPAddress\<close>

record HTTPAddress =
  ha_base :: URLAddress
  ha_strict :: bool
  ha_port_number :: "16 word"
  ha_secure :: bool
  ha_default_port :: bool

definition http_new :: "bool \<Rightarrow> HTTPAddress" where
  "http_new strict =
     \<lparr>ha_base = url_address_empty, ha_strict = strict, ha_port_number = 0, ha_secure = False, ha_default_port = True\<rparr>"

definition get_default_port :: "bool \<Rightarrow> 16 word" where
  "get_default_port secure = (if secure then 443 else 80)"

definition fixed_part :: "bytes \<Rightarrow> category \<Rightarrow> bytes" where
  "fixed_part part checker = (case http_fix_part part checker of None \<Rightarrow> part | Some new_part \<Rightarrow> new_part)"

text \<open>\<^verbatim>\<open>specific_checks_\<close>, first from the check of the components on.\<close>

definition http_check_and_fix :: "bool \<Rightarrow> URLAddress \<Rightarrow> URLAddress result" where
  "http_check_and_fix strict this =
      (let parts = ua_parts this
       in case check_http_url_components (ua_url this) (up_scheme parts) (up_host parts) strict of
            Some error \<Rightarrow> Inl (InvalidURL error)
          | None \<Rightarrow>
              if strict then Inr this
              else let new_parts = parts\<lparr>up_userinfo := fixed_part (up_userinfo parts) USER_INFO,
                         up_path := fixed_part (up_path parts) PATH,
                         up_query := fixed_part (up_query parts) QUERY,
                         up_fragment := fixed_part (up_fragment parts) FRAGMENT\<rparr>;
                       rebuild = (http_fix_part (up_userinfo parts) USER_INFO \<noteq> None \<or>
                         http_fix_part (up_path parts) PATH \<noteq> None \<or>
                         http_fix_part (up_query parts) QUERY \<noteq> None \<or>
                         http_fix_part (up_fragment parts) FRAGMENT \<noteq> None)
                in if rebuild then assign_url_parts new_parts False else Inr this)"

definition http_specific_checks :: "bool \<Rightarrow> URLAddress \<Rightarrow> URLAddress result" where
  "http_specific_checks strict this =
     rbind (if \<not> strict \<and> http_url_needs_prefix (up_scheme (ua_parts this)) (up_host (ua_parts this))
            then url_without_check (http_add_scheme (ua_url this)) else Inr this) (http_check_and_fix strict)"

definition ushort :: int_type where
  "ushort = \<lparr>it_signed = False, it_bits = 16\<rparr>"

definition default_path :: "URLAddress \<Rightarrow> URLAddress" where
  "default_path this =
     (if up_path (ua_parts this) = [] then this\<lparr>ua_parts := (ua_parts this)\<lparr>up_path := chars ''/''\<rparr>\<rparr> else this)"

definition http_assign :: "bool \<Rightarrow> bytes \<Rightarrow> HTTPAddress result" where
  "http_assign strict http_url =
     (if http_url = [] then Inl (InvalidURL (chars ''url is nil''))
      else rbind (url_assign (http_specific_checks strict) http_url) (\<lambda>this.
        let parts = ua_parts this;
            secure = caseless_equal HTTPS_SCHEME (up_scheme parts);
            port_str = up_port parts
        in rbind
             (if port_str \<noteq> []
              then (case str_to_int ushort port_str of
                      None \<Rightarrow> Inl (InvalidURL (chars ''invalid port value='' @ port_str))
                    | Some port \<Rightarrow> Inr (word_of_int port, False))
              else Inr (get_default_port secure, True)) (\<lambda>(port, default).
           Inr \<lparr>ha_base = default_path this,
                ha_strict = strict, ha_port_number = port, ha_secure = secure, ha_default_port = default\<rparr>)))"

definition http_address :: "bytes \<Rightarrow> bool \<Rightarrow> HTTPAddress result" where
  "http_address url strict = (if url \<noteq> [] then http_assign strict url else Inr (http_new strict))"

text \<open>\<^verbatim>\<open>set_\<close> is called by the constructor from parts on a new object; \<^verbatim>\<open>%hu\<close> prints the decimal digits.\<close>

definition http_set :: "bool \<Rightarrow> bytes \<Rightarrow> bytes \<Rightarrow> 16 word \<Rightarrow> bytes \<Rightarrow> bytes \<Rightarrow> bytes \<Rightarrow> HTTPAddress \<Rightarrow> HTTPAddress result" where
  "http_set secure userinfo host port path query fragment this =
     (if host = [] then Inr (this\<lparr>ha_default_port := True, ha_port_number := 0\<rparr>)
      else let this = this\<lparr>ha_secure := secure, ha_port_number := port,
                 ha_default_port := (port = get_default_port secure)\<rparr>;
               parts = url_parts (caseless_str (if secure then HTTPS_SCHEME else HTTP_SCHEME)) userinfo host
                 (if ha_default_port this then [] else convert_unsigned (unat (ha_port_number this)))
                 (if path = [] then chars ''/'' else path) query fragment
        in rmap (\<lambda>base. this\<lparr>ha_base := base\<rparr>) (assign_url_parts parts True))"

definition http_address_parts :: "bytes \<Rightarrow> bytes \<Rightarrow> bytes \<Rightarrow> bytes \<Rightarrow> 16 word \<Rightarrow> bool \<Rightarrow> bytes \<Rightarrow> HTTPAddress result" where
  "http_address_parts host path query fragment port secure userinfo =
     http_set secure userinfo host (if port \<noteq> 0 then port else get_default_port secure) path query fragment
       (http_new False)"

definition create_address :: "bytes \<Rightarrow> HTTPAddress result" where
  "create_address url =
     (if url = [] then Inl (InvalidURL (chars ''url is empty''))
      else if caseless_start HTTP_PREFIX url \<or> caseless_start HTTPS_PREFIX url then http_address url True
      else Inl (InvalidURL (chars ''unsupported protocol in url '' @ url)))"

subsection \<open>Views\<close>

definition VW_PROTOCOL :: "64 word" where "VW_PROTOCOL = 0x01"
definition VW_HOSTNAME :: "64 word" where "VW_HOSTNAME = 0x02"
definition VW_HOSTNAME_WWW :: "64 word" where "VW_HOSTNAME_WWW = VW_HOSTNAME + 0x100"
definition VW_PORT :: "64 word" where "VW_PORT = 0x04"
definition VW_NDEF_PORT :: "64 word" where "VW_NDEF_PORT = 0x08"
definition VW_PATH :: "64 word" where "VW_PATH = 0x10"
definition VW_QUERY :: "64 word" where "VW_QUERY = 0x20"
definition VW_STRIP_PATH :: "64 word" where "VW_STRIP_PATH = VW_PATH + 0x40"
definition VW_FRAGMENT :: "64 word" where "VW_FRAGMENT = 0x80"

definition VW_FULL :: "64 word" where
  "VW_FULL = VW_PROTOCOL OR VW_HOSTNAME OR VW_NDEF_PORT OR VW_PATH OR VW_QUERY OR VW_FRAGMENT"

definition view_path :: "bytes \<Rightarrow> 64 word \<Rightarrow> bytes result" where
  "view_path path flags =
     (if flags AND VW_STRIP_PATH = VW_STRIP_PATH
      then if path = [] then Inl OutOfBounds
           else Inr (if path ! (length path - 1) = ch CHR ''/'' then take (length path - 1) path else path)
      else Inr path)"

definition get_view :: "HTTPAddress \<Rightarrow> 64 word \<Rightarrow> bytes result" where
  "get_view this flags =
     (let parts = ua_parts (ha_base this);
          protocol =
            (if flags AND VW_PROTOCOL \<noteq> 0
             then (if has_scheme parts then caseless_str (if ha_secure this then HTTPS_PREFIX else HTTP_PREFIX) else []) @
               chars ''//''
             else []);
          hostname =
            (if flags AND VW_HOSTNAME \<noteq> 0
             then (if flags AND VW_HOSTNAME_WWW = VW_HOSTNAME_WWW \<and> \<not> caseless_start WWW (up_host parts)
                   then caseless_str WWW else []) @ up_host parts
             else []);
          port =
            (if flags AND VW_PORT \<noteq> 0 \<or> (\<not> ha_default_port this \<and> flags AND VW_NDEF_PORT \<noteq> 0)
             then chars '':'' @ convert_unsigned (unat (ha_port_number this)) else [])
      in rbind (if flags AND VW_PATH \<noteq> 0 then view_path (up_path parts) flags else Inr []) (\<lambda>path.
           Inr (protocol @ hostname @ port @ path @
             (if flags AND VW_QUERY \<noteq> 0 \<and> has_query parts then chars ''?'' @ up_query parts else []) @
             (if flags AND VW_FRAGMENT \<noteq> 0 \<and> has_fragment parts then chars ''#'' @ up_fragment parts else []))))"

section \<open>Repairing a part\<close>

definition escape :: "byte \<Rightarrow> bytes" where
  "escape c = [0x25, HEX_DIGITS ! unat (drop_bit 4 c), HEX_DIGITS ! unat (c AND 0x0F)]"

lemma fix_part_loop_Cons:
  "fix_part_loop (c # s) =
     (let k = find_invalid QUERY s in escape c @ take k s @ (if k = length s then [] else fix_part_loop (drop k s)))"
proof -
  have "drop_bit 4 c AND 0x0F = drop_bit 4 (c :: byte)"
    by (rule bit_word_eqI, simp add: bit_simps) (auto simp: less_Suc_eq numeral_eq_Suc dest: bit_imp_le_length)
  then show ?thesis by (simp add: fix_part_loop.simps(2) escape_def Let_def)
qed

lemma hex_digit_hex: "HEX_NUMBER (HEX_DIGITS ! unat (drop_bit 4 c))" "HEX_NUMBER (HEX_DIGITS ! unat (c AND 0x0F))"
  for c :: byte
proof -
  have "unat (drop_bit 4 c) < 16" by (simp only: unat_drop_bit_div) (simp add: less_mult_imp_div_less)
  moreover have "unat (c AND 0x0F) < 16" using word_and_mask_unat [of c 4] by (simp add: mask_eq_decr_exp)
  ultimately show "HEX_NUMBER (HEX_DIGITS ! unat (drop_bit 4 c))" "HEX_NUMBER (HEX_DIGITS ! unat (c AND 0x0F))"
    by (simp_all add: hex_digit_roundtrip)
qed

lemma encoded_escape: "\<not> p 0x25 \<Longrightarrow> encoded_text p (escape c @ s) \<longleftrightarrow> encoded_text p s"
  by (simp add: escape_def hex_digit_hex)

lemma unmime_all_escape: "unmime_all (escape c @ s) = c # unmime_all s"
  by (simp add: escape_def hex_digit_hex hex_to_char_digits)

text \<open>At a character the search passes it, passes an escape or stops.\<close>

definition starts_escape :: "bytes \<Rightarrow> bool" where
  "starts_escape s \<longleftrightarrow> (\<exists>x y r. s = 0x25 # x # y # r \<and> HEX_NUMBER x \<and> HEX_NUMBER y)"

lemma find_invalid_cases:
  obtains (owned) "p c" "find_invalid p (c # s) = Suc (find_invalid p s)"
  | (escaped) x y r where "\<not> p c" "c = 0x25" "s = x # y # r" "HEX_NUMBER x" "HEX_NUMBER y"
      "find_invalid p (c # s) = Suc (Suc (Suc (find_invalid p r)))"
  | (bad) "\<not> p c" "find_invalid p (c # s) = 0" "\<not> starts_escape (c # s)"
proof (cases "p c")
  case True
  then show ?thesis using owned by (simp add: find_invalid_Cons)
next
  case no: False
  show ?thesis
  proof (cases "starts_escape (c # s)")
    case True
    then obtain x y r where "c = 0x25" "s = x # y # r" "HEX_NUMBER x" "HEX_NUMBER y" by (auto simp: starts_escape_def)
    then show ?thesis using escaped [of x y r] no by (simp add: find_invalid_Cons)
  next
    case False
    moreover from this no have "find_invalid p (c # s) = 0"
      by (cases s; cases "tl s") (auto simp: find_invalid_Cons starts_escape_def)
    ultimately show ?thesis using bad no by blast
  qed
qed

lemma unmime_all_other: "\<not> starts_escape (c # s) \<Longrightarrow> unmime_all (c # s) = c # unmime_all s"
  unfolding unmime_all.simps(2) [of c s]
  by (cases s; cases "tl s") (auto simp: starts_escape_def simp del: unmime_all.simps(2))

lemma unmime_all_owned: "p c \<Longrightarrow> \<not> p 0x25 \<Longrightarrow> unmime_all (c # s) = c # unmime_all s"
  by (rule unmime_all_other) (auto simp: starts_escape_def)

lemma unmime_all_Nil: "unmime_all s = [] \<longleftrightarrow> s = []"
proof (cases s)
  case (Cons c t)
  then show ?thesis unfolding Cons unmime_all.simps(2) by (simp split: list.split)
qed simp

text \<open>
  What stands before the position of \<^verbatim>\<open>find_invalid\<close> is encoded and read on its own, and what stands
  there is read as it is.
\<close>

lemma encoded_take_invalid: "encoded_text p (take (find_invalid p s) s)"
proof (induction "length s" arbitrary: s rule: less_induct)
  case less
  show ?case
  proof (cases s)
    case (Cons c t)
    show ?thesis
    proof (cases rule: find_invalid_cases [of p c t])
      case owned
      then show ?thesis using less [of t] Cons by simp
    next
      case (escaped x y r)
      then show ?thesis using less [of r] Cons by simp
    next
      case bad
      then show ?thesis using Cons by simp
    qed
  qed simp
qed

lemma unmime_all_append:
  assumes "encoded_text p a" "\<not> p 0x25"
  shows "unmime_all (a @ b) = unmime_all a @ unmime_all b"
  using assms(1)
proof (induction "length a" arbitrary: a rule: less_induct)
  case less
  show ?case
  proof (cases a)
    case (Cons c t)
    show ?thesis
    proof (cases rule: find_invalid_cases [of p c t])
      case owned
      then show ?thesis using less Cons assms(2) unmime_all_owned [OF owned(1) assms(2)] by simp
    next
      case (escaped x y r)
      then show ?thesis using less Cons by simp
    next
      case bad
      then have "\<not> encoded_text p a" using Cons is_valid_encoded_iff [of a p] by (simp add: is_valid_encoded_def)
      then show ?thesis using less.prems by contradiction
    qed
  qed simp
qed

lemma find_invalid_stop:
  assumes "find_invalid p s < length s"
  shows "\<not> starts_escape (drop (find_invalid p s) s)"
  using assms
proof (induction "length s" arbitrary: s rule: less_induct)
  case less
  show ?case
  proof (cases s)
    case (Cons c t)
    show ?thesis
    proof (cases rule: find_invalid_cases [of p c t])
      case owned
      then show ?thesis using less Cons by simp
    next
      case (escaped x y r)
      then show ?thesis using less Cons by simp
    next
      case bad
      then show ?thesis using Cons by simp
    qed
  qed (use less.prems in simp)
qed

lemma fix_part_loop_correct:
  assumes "s \<noteq> []" "\<not> starts_escape s"
  shows "encoded_text QUERY (fix_part_loop s) \<and> unmime_all (fix_part_loop s) = unmime_all s"
  using assms
proof (induction "length s" arbitrary: s rule: less_induct)
  case less
  then obtain c t where s: "s = c # t" by (cases s) auto
  let ?k = "find_invalid QUERY t" and ?a = "take (find_invalid QUERY t) t" and ?b = "drop (find_invalid QUERY t) t"
  let ?r = "if ?k = length t then [] else fix_part_loop ?b"
  have r: "encoded_text QUERY ?r \<and> unmime_all ?r = unmime_all ?b"
  proof (cases "?k = length t")
    case False
    then have "?k < length t" using find_invalid_le [of QUERY t] by simp
    then show ?thesis using less.hyps [of ?b] find_invalid_stop [of QUERY t] s by auto
  qed simp
  have a: "encoded_text QUERY ?a" by (rule encoded_take_invalid)
  have "encoded_text QUERY (fix_part_loop s)"
    using r a by (simp only: s fix_part_loop_Cons Let_def encoded_escape [of QUERY, OF percent_not_owned(3)] encoded_text_append [OF a])
  moreover have "unmime_all (fix_part_loop s) = c # unmime_all (?a @ ?b)"
    using r by (simp only: s fix_part_loop_Cons Let_def unmime_all_escape unmime_all_append [OF a percent_not_owned(3)])
  moreover have "unmime_all s = c # unmime_all t" using less.prems s unmime_all_other by simp
  ultimately show ?case by simp
qed

text \<open>Except for the question mark a path may have what a query may have.\<close>

lemma encoded_query_path: "encoded_text QUERY s \<Longrightarrow> 0x3F \<notin> set s \<Longrightarrow> encoded_text PATH s"
proof (induction "length s" arbitrary: s rule: less_induct)
  case less
  show ?case
  proof (cases s)
    case (Cons c t)
    show ?thesis
    proof (cases rule: find_invalid_cases [of QUERY c t])
      case owned
      then have "PATH c" using less.prems(2) Cons path_query(2) by auto
      then show ?thesis using owned less Cons by simp
    next
      case (escaped x y r)
      then show ?thesis using less Cons percent_not_owned(2) by simp
    next
      case bad
      then have "\<not> encoded_text QUERY s" using Cons is_valid_encoded_iff [of s QUERY] by (simp add: is_valid_encoded_def)
      then show ?thesis using less.prems(1) by contradiction
    qed
  qed simp
qed

lemma encoded_path_query: "encoded_text PATH s \<Longrightarrow> encoded_text QUERY s"
proof (induction "length s" arbitrary: s rule: less_induct)
  case less
  show ?case
  proof (cases s)
    case (Cons c t)
    show ?thesis
    proof (cases rule: find_invalid_cases [of PATH c t])
      case owned
      then show ?thesis using less Cons path_query(1) by simp
    next
      case (escaped x y r)
      then show ?thesis using less Cons percent_not_owned(3) by simp
    next
      case bad
      then have "\<not> encoded_text PATH s" using Cons is_valid_encoded_iff [of s PATH] by (simp add: is_valid_encoded_def)
      then show ?thesis using less.prems(1) by contradiction
    qed
  qed simp
qed

lemma hex_digits_no_query: "0x3F \<notin> set (escape c)"
  using hex_digit_hex [of c] by (auto simp: escape_def category_simps)

lemma fix_part_loop_set: "0x3F \<notin> set (tl s) \<Longrightarrow> 0x3F \<notin> set (fix_part_loop s)"
proof (induction "length s" arbitrary: s rule: less_induct)
  case less
  show ?case
  proof (cases s)
    case (Cons c t)
    let ?k = "find_invalid QUERY t"
    have "0x3F \<notin> set (fix_part_loop (drop ?k t))"
    proof (rule less.hyps)
      have "tl (drop ?k t) = drop (Suc ?k) t" by (simp add: drop_Suc tl_drop)
      then show "0x3F \<notin> set (tl (drop ?k t))" using less.prems Cons in_set_dropD [of "0x3F" "Suc ?k" t] by auto
    qed (use Cons in simp)
    then show ?thesis using less.prems Cons hex_digits_no_query [of c]
      by (auto simp: fix_part_loop_Cons Let_def dest: in_set_takeD)
  qed simp
qed

lemma http_fix_part_None: "http_fix_part part p = None \<longleftrightarrow> encoded_text p part"
  by (simp add: http_fix_part_def Let_def is_valid_encoded_def flip: is_valid_encoded_iff)

lemma http_fix_part_read:
  assumes "http_fix_part part p = Some new" "\<not> p 0x25"
  shows "unmime_all new = unmime_all part"
proof -
  let ?k = "find_invalid p part"
  have k: "?k < length part" and new: "new = take ?k part @ fix_part_loop (drop ?k part)"
    using assms(1) find_invalid_le [of p part] by (auto simp: http_fix_part_def Let_def split: if_splits)
  have "unmime_all new = unmime_all (take ?k part) @ unmime_all (fix_part_loop (drop ?k part))"
    unfolding new by (rule unmime_all_append [of p, OF encoded_take_invalid assms(2)])
  also have "\<dots> = unmime_all (take ?k part) @ unmime_all (drop ?k part)"
    using fix_part_loop_correct [of "drop ?k part"] find_invalid_stop [OF k] k by simp
  also have "\<dots> = unmime_all part"
    using unmime_all_append [of p, OF encoded_take_invalid assms(2), of part "drop ?k part"] by simp
  finally show ?thesis .
qed

lemma http_fix_part_query:
  assumes "http_fix_part part QUERY = Some new"
  shows "encoded_text QUERY new"
proof -
  let ?k = "find_invalid QUERY part"
  have k: "?k < length part" and new: "new = take ?k part @ fix_part_loop (drop ?k part)"
    using assms(1) find_invalid_le [of QUERY part] by (auto simp: http_fix_part_def Let_def split: if_splits)
  show ?thesis unfolding new encoded_text_append [OF encoded_take_invalid]
    using fix_part_loop_correct [of "drop ?k part"] find_invalid_stop [OF k] k by simp
qed

lemma http_fix_part_path:
  assumes "http_fix_part part PATH = Some new" "0x3F \<notin> set part"
  shows "encoded_text PATH new"
proof (rule encoded_query_path)
  let ?k = "find_invalid PATH part"
  have k: "?k < length part" and new: "new = take ?k part @ fix_part_loop (drop ?k part)"
    using assms(1) find_invalid_le [of PATH part] by (auto simp: http_fix_part_def Let_def split: if_splits)
  show "encoded_text QUERY new"
    unfolding new encoded_text_append [OF encoded_path_query [OF encoded_take_invalid]]
    using fix_part_loop_correct [of "drop ?k part"] find_invalid_stop [OF k] k by simp
  have "tl (drop ?k part) = drop (Suc ?k) part" by (simp add: drop_Suc tl_drop)
  then have "0x3F \<notin> set (tl (drop ?k part))" using assms(2) in_set_dropD [of "0x3F" "Suc ?k" part] by auto
  then show "0x3F \<notin> set new" using fix_part_loop_set [of "drop ?k part"] assms(2) by (auto simp: new dest: in_set_takeD)
qed

section \<open>The parts of a split text\<close>

lemma split_query_keeps:
  assumes "split_query p cur = Inr q" "consistent p"
  shows "consistent q \<and> up_path q = up_path p \<and> up_authority q = up_authority p \<and> up_host q = up_host p"
proof -
  have fragment: "consistent q' \<and> up_path q' = up_path p' \<and> up_authority q' = up_authority p' \<and> up_host q' = up_host p'"
    if "split_fragment p' cur' = Inr q'" "consistent p'" for p' cur' q'
    using that by (auto simp: split_fragment_def consistent_def split: if_splits)
  let ?c = "drop 1 cur" and ?k = "find_owned URL_PARSER_QUERY_END (drop 1 cur)"
  let ?p = "p\<lparr>has_query := True, up_query := take ?k ?c\<rparr>"
  have "consistent ?p" using assms(2) by (simp add: consistent_def)
  moreover have "q = ?p \<or> split_fragment ?p (drop ?k ?c) = Inr q \<or> split_fragment p cur = Inr q"
    using assms(1) by (auto simp: split_query_def Let_def split: if_splits)
  ultimately show ?thesis using fragment [of ?p "drop ?k ?c" q] fragment [of p cur q] assms(2) by auto
qed

lemma split_path_keeps:
  assumes "split_path p cur = Inr q" "consistent p"
  shows "consistent q \<and> up_path q = take (find_owned URL_PARSER_PATH_END cur) cur \<and>
    up_authority q = up_authority p \<and> up_host q = up_host p"
proof -
  let ?k = "find_owned URL_PARSER_PATH_END cur"
  let ?p = "p\<lparr>has_path := True, up_path := take ?k cur\<rparr>"
  have "consistent ?p" using assms(2) by (simp add: consistent_def)
  moreover have "q = ?p \<or> split_query ?p (drop ?k cur) = Inr q"
    using assms(1) by (auto simp: split_path_def Let_def split: if_splits)
  ultimately show ?thesis using split_query_keeps [of ?p "drop ?k cur" q] by auto
qed

text \<open>A path has no question mark and begins with a slash where it follows an authority.\<close>

definition path_split :: "ExtendedUrlParts \<Rightarrow> bool" where
  "path_split p \<longleftrightarrow> consistent p \<and> 0x3F \<notin> set (up_path p) \<and>
     (up_authority p \<noteq> [] \<longrightarrow> up_path p = [] \<or> up_path p ! 0 = 0x2F)"

lemma find_path_end: "0x3F \<notin> set (take (find_owned URL_PARSER_PATH_END cur) cur)"
  by (auto simp: scan.find_own_takeWhile dest: set_takeWhileD)

lemma path_after_authority:
  assumes "k = find_owned URL_PARSER_AUTORITY_END s" "t = drop k s"
  shows "take (find_owned URL_PARSER_PATH_END t) t = [] \<or> take (find_owned URL_PARSER_PATH_END t) t ! 0 = 0x2F"
proof (cases t)
  case (Cons c r)
  then have "k < length s" using assms(2) by (cases "k < length s") simp_all
  then have "URL_PARSER_AUTORITY_END (s ! k)" using scan.find_own_hit assms(1) by blast
  moreover have "s ! k = c" using Cons assms(2) \<open>k < length s\<close> by (simp add: Cons_nth_drop_Suc [symmetric])
  ultimately show ?thesis using Cons by auto
qed simp

lemma split_hierarchy_cases:
  "(if a then if b then if c then x1 else if d then x2 else x3 else x4 else x5) = y \<Longrightarrow>
     y = x1 \<or> y = x2 \<or> y = x3 \<or> y = x4 \<or> y = x5"
  by (auto split: if_splits)

lemma split_hierarchy_keeps:
  assumes "split_hierarchy p cur = Inr q" "consistent p" "up_authority p = []" "up_path p = []"
  shows "path_split q \<and> up_host q = up_host p"
proof -
  let ?s = "drop 2 cur" and ?k = "find_owned URL_PARSER_AUTORITY_END (drop 2 cur)"
  let ?p = "p\<lparr>up_authority := take ?k ?s\<rparr>"
  have con: "consistent ?p" using assms(2) by (simp add: consistent_def)
  have "Inr q = (Inr p :: ExtendedUrlParts result) \<or> Inr q = (Inr ?p :: ExtendedUrlParts result) \<or> Inr q = split_path ?p (drop ?k ?s) \<or> Inr q = split_path p cur \<or>
      Inr q = split_query p cur"
    using assms(1) unfolding split_hierarchy_def Let_def rbind_eq_Inr
    by (elim exE conjE) (erule split_hierarchy_cases)
  then consider "q = p" | "q = ?p" | "split_path ?p (drop ?k ?s) = Inr q" | "split_path p cur = Inr q"
    | "split_query p cur = Inr q"
    unfolding sum.inject by metis
  then show ?thesis
  proof cases
    case 3
    then show ?thesis using split_path_keeps [OF 3 con] find_path_end [of "drop ?k ?s"]
        path_after_authority [OF refl refl, of ?s] by (simp add: path_split_def)
  next
    case 4
    then show ?thesis using split_path_keeps [OF 4 assms(2)] find_path_end [of cur] assms(3) by (simp add: path_split_def)
  next
    case 5
    then show ?thesis using split_query_keeps [OF 5 assms(2)] assms(3,4) by (simp add: path_split_def)
  qed (use assms con in \<open>simp_all add: path_split_def\<close>)
qed

lemma split_main_keeps:
  assumes "split_main url = Inr q"
  shows "path_split q \<and> up_host q = []"
proof -
  let ?k = "find_owned URL_PARSER_SCHEME_END url"
  let ?p = "extended_clear\<lparr>has_scheme := True, up_scheme := take ?k url\<rparr>"
  have clear: "consistent extended_clear" "up_authority extended_clear = []" "up_path extended_clear = []"
    "up_host extended_clear = []"
    by (simp_all add: consistent_def extended_clear_def)
  have p: "consistent ?p" "up_authority ?p = []" "up_path ?p = []" using clear by (simp_all add: consistent_def)
  show ?thesis
  proof (cases "?k = length url")
    case True
    then have "\<forall>c\<in>set url. \<not> URL_PARSER_SCHEME_END c" using scan.find_own_eq_length by blast
    moreover have "q = extended_clear\<lparr>has_path := True, up_path := url\<rparr>"
      using assms True by (simp add: split_main_def)
    ultimately show ?thesis using clear by (auto simp: path_split_def consistent_def)
  next
    case False
    then have "q = ?p \<or> split_hierarchy ?p (drop (?k + 1) url) = Inr q \<or> split_hierarchy extended_clear url = Inr q"
      using assms unfolding split_main_def Let_def by (auto split: if_splits)
    then show ?thesis
      using split_hierarchy_keeps [OF _ p] split_hierarchy_keeps [OF _ clear(1-3)] p clear by (auto simp: path_split_def)
  qed
qed

lemma split_authority_consistent:
  assumes "split_authority p = Inr q" "consistent p"
  shows "consistent q \<and> (up_authority p = [] \<longrightarrow> q = p)"
proof (cases "up_authority p = []")
  case False
  let ?a = "up_authority p"
  have find: "Suc n \<le> length ?a" if "sub_find ?a c pos = Some n" for c pos n
    using that by (simp add: sub_find_iff)
  have rfind: "Suc n \<le> length ?a" if "sub_rfind ?a c pos = Some n" for c pos n
    using that by (simp add: sub_rfind_iff)
  have "\<exists>q. split_authority p = Inr q \<and> consistent q"
    using False assms(2) find [of "0x40" 0] rfind [of "0x3A" NPOS]
    by (cases "sub_find ?a 0x40 0"; cases "sub_rfind ?a 0x3A NPOS")
      (simp_all add: split_authority_def Let_def consistent_def)
  then show ?thesis using assms(1) False by simp
qed (use assms in \<open>simp add: split_authority_def\<close>)

lemma split_url_keeps:
  assumes "split_url url = Inr q"
  shows "path_split q" "up_host q \<noteq> [] \<Longrightarrow> up_authority q \<noteq> []"
proof -
  obtain p where main: "split_main url = Inr p" and auth: "split_authority p = Inr q"
    using assms by (auto simp: split_url_def)
  have p: "path_split p" "up_host p = []" using split_main_keeps [OF main] by auto
  then have c: "consistent q \<and> (up_authority p = [] \<longrightarrow> q = p)"
    using split_authority_consistent [OF auth] by (simp add: path_split_def)
  have "sets_host p q" using split_authority_total [of p] auth by auto
  then have same: "up_path q = up_path p" "up_authority q = up_authority p" using sets_host_rest by blast+
  show "path_split q" using p(1) c same by (simp add: path_split_def)
  show "up_authority q \<noteq> []" if "up_host q \<noteq> []" using that c p(2) same(2) by auto
qed

section \<open>What an address is\<close>

text \<open>The parts after the repair, and what the repair promises of each of them.\<close>

definition fixed_parts :: "ExtendedUrlParts \<Rightarrow> ExtendedUrlParts" where
  "fixed_parts p = p\<lparr>up_userinfo := fixed_part (up_userinfo p) USER_INFO, up_path := fixed_part (up_path p) PATH,
     up_query := fixed_part (up_query p) QUERY, up_fragment := fixed_part (up_fragment p) FRAGMENT\<rparr>"

lemma fixed_part_encoded: "encoded_text p part \<Longrightarrow> fixed_part part p = part"
  using http_fix_part_None [of part p] by (simp add: fixed_part_def)

lemma fixed_part_read: "\<not> p 0x25 \<Longrightarrow> unmime_all (fixed_part part p) = unmime_all part"
  by (auto simp: fixed_part_def http_fix_part_read split: option.split)

lemma fixed_part_valid:
  "encoded_text QUERY (fixed_part part QUERY)" "0x3F \<notin> set part \<Longrightarrow> encoded_text PATH (fixed_part part PATH)"
  using http_fix_part_None [of part QUERY] http_fix_part_query [of part]
    http_fix_part_None [of part PATH] http_fix_part_path [of part]
  by (auto simp: fixed_part_def split: option.split)

lemma fixed_part_path_start: "\<exists>r. fixed_part (0x2F # t) PATH = 0x2F # r"
proof -
  have "PATH 0x2F" by (simp add: url_categories)
  then have "find_invalid PATH (0x2F # t) = Suc (find_invalid PATH t)" by (simp add: find_invalid_Cons)
  then show ?thesis by (simp add: fixed_part_def http_fix_part_def Let_def split: option.split)
qed

lemma fixed_parts_same:
  assumes "http_fix_part (up_userinfo p) USER_INFO = None" "http_fix_part (up_path p) PATH = None"
    and "http_fix_part (up_query p) QUERY = None" "http_fix_part (up_fragment p) FRAGMENT = None"
  shows "fixed_parts p = p"
  using assms by (simp add: fixed_parts_def fixed_part_def)

lemma fixed_parts_consistent: "consistent p \<Longrightarrow> consistent (fixed_parts p)"
proof -
  have "fixed_part [] c = []" for c by (rule fixed_part_encoded) simp
  then show "consistent p \<Longrightarrow> consistent (fixed_parts p)" by (auto simp: consistent_def fixed_parts_def)
qed

lemma http_check_and_fix_result:
  assumes "consistent (ua_parts this)"
  shows "http_check_and_fix strict this =
    (case check_http_url_components (ua_url this) (up_scheme (ua_parts this)) (up_host (ua_parts this)) strict of
       Some error \<Rightarrow> Inl (InvalidURL error)
     | None \<Rightarrow> if strict \<or> http_fix_part (up_userinfo (ua_parts this)) USER_INFO = None \<and>
           http_fix_part (up_path (ua_parts this)) PATH = None \<and>
           http_fix_part (up_query (ua_parts this)) QUERY = None \<and>
           http_fix_part (up_fragment (ua_parts this)) FRAGMENT = None
         then Inr this
         else Inr \<lparr>ua_url = assemble_url (fixed_parts (ua_parts this)),
                    ua_parts = extended_of (fixed_parts (ua_parts this)) True\<rparr>)"
  using assign_url_parts_assembled [OF fixed_parts_consistent [OF assms], of False]
  by (auto simp: http_check_and_fix_def Let_def fixed_parts_def split: option.split)

lemma url_without_check_consistent: "url_without_check v = Inr t \<Longrightarrow> consistent (ua_parts t)"
  using split_url_keeps(1) [of v]
  by (auto simp: url_without_check_def url_address_empty_def path_split_def consistent_def extended_clear_def split: if_splits)

lemma check_components_None: "check_http_url_components url scheme host strict = None \<Longrightarrow> host \<noteq> []"
  by (simp add: check_http_url_components_def split: if_splits)

lemma http_check_and_fix_host:
  assumes "consistent (ua_parts this)" "http_check_and_fix strict this = Inr b"
  shows "up_host (ua_parts b) \<noteq> []"
  using assms(2) check_components_None
  by (auto simp: http_check_and_fix_result [OF assms(1)] extended_of_def fixed_parts_def split: option.splits if_splits)

lemma url_assign_http_valid:
  assumes "url_assign (http_specific_checks strict) url = Inr b"
  shows "valid_url_parts (ua_parts b) \<and> up_host (ua_parts b) \<noteq> []"
proof -
  obtain t c where t: "url_without_check url = Inr t" and c: "http_specific_checks strict t = Inr c"
    and valid: "url_parts_checker (ua_url c) (ua_parts c) = None" "b = c"
    using assms by (auto simp: url_assign_def split: option.splits)
  obtain d where d: "d = t \<or> url_without_check (http_add_scheme (ua_url t)) = Inr d"
    and fix_d: "http_check_and_fix strict d = Inr c"
    using c by (auto simp: http_specific_checks_def split: if_splits)
  have "consistent (ua_parts d)" using d t url_without_check_consistent by blast
  then have "up_host (ua_parts c) \<noteq> []" using fix_d by (rule http_check_and_fix_host)
  then show ?thesis using valid by (simp add: url_parts_checker_iff)
qed

lemma str_to_int_port:
  assumes "str_to_int ushort s = Some v" "\<forall>c\<in>set s. NUMBER c"
  shows "uint (word_of_int v :: 16 word) = v" "v = decimal_value 0 s"
proof -
  obtain ds where v: "0 \<le> v" "v \<le> 65535" and ds: "(s = ds \<or> s = 0x2B # ds) \<and> v = decimal_value 0 ds"
    using assms(1) str_to_int_iff [of ushort s v] by (auto simp: ushort_def it_max_def it_min_def)
  have "s = ds" using ds assms(2) by (auto simp: category_simps)
  then show "v = decimal_value 0 s" using ds by simp
  show "uint (word_of_int v :: 16 word) = v" using v by (simp add: uint_word_of_int take_bit_eq_mod)
qed

lemma to_lower_ALPHA: "ALPHA (to_lower c) \<Longrightarrow> ALPHA c"
  by (cases "0x41 \<le> c \<and> c \<le> 0x5A") (simp_all add: to_lower_eq ALPHA_iff)

lemma http_scheme_valid:
  assumes "caseless_equal HTTP_SCHEME s \<or> caseless_equal HTTPS_SCHEME s"
  shows "s \<noteq> [] \<and> SCHEME_FIRST (hd s) \<and> (\<forall>c\<in>set s. SCHEME_NOT_FIRST c)"
proof -
  have "map to_lower s = chars ''http'' \<or> map to_lower s = chars ''https''"
    using assms by (simp add: caseless_equal_iff HTTP_SCHEME_def HTTPS_SCHEME_def to_lower_eq)
  then have letters: "s \<noteq> [] \<and> (\<forall>c\<in>set (map to_lower s). ALPHA c)" by (auto simp: ALPHA_iff)
  then have "\<forall>c\<in>set s. ALPHA c" using to_lower_ALPHA by simp
  then show ?thesis using letters label_categories(5) by (auto simp: SCHEME_FIRST_def)
qed

lemma valid_fixed_parts:
  assumes "path_split p" "up_authority p \<noteq> []" "up_host p \<noteq> []"
    and "caseless_equal HTTP_SCHEME (up_scheme p) \<or> caseless_equal HTTPS_SCHEME (up_scheme p)"
    and "encoded_text USER_INFO (up_userinfo p)" "length (up_host p) \<le> 255" "host_name (up_host p)"
    and "\<forall>c\<in>set (up_port p). NUMBER c"
  shows "valid_url_parts (fixed_parts p)"
proof -
  have path: "encoded_text PATH (fixed_part (up_path p) PATH)"
    using fixed_part_valid(2) assms(1) by (simp add: path_split_def)
  have start: "fixed_part (up_path p) PATH = [] \<or> (\<exists>r. fixed_part (up_path p) PATH = 0x2F # r)"
  proof (cases "up_path p")
    case (Cons c t)
    then show ?thesis using assms(1,2) fixed_part_path_start [of t] by (simp add: path_split_def)
  qed (simp add: fixed_part_encoded)
  show ?thesis
    using http_scheme_valid [OF assms(4)] assms(3,5-8) path start fixed_part_valid(1)
    by (simp add: valid_url_parts_def fixed_parts_def fixed_part_encoded FRAGMENT_eq_QUERY)
qed

lemma lenient_url_assign:
  assumes "split_url url = Inr p" "up_host p \<noteq> []"
    and "caseless_equal HTTP_SCHEME (up_scheme p) \<or> caseless_equal HTTPS_SCHEME (up_scheme p)"
    and "encoded_text USER_INFO (up_userinfo p)" "length (up_host p) \<le> 255" "host_name (up_host p)"
    and "\<forall>c\<in>set (up_port p). NUMBER c"
  shows "\<exists>b. url_assign (http_specific_checks False) url = Inr b \<and>
    (ua_parts b = fixed_parts p \<or> ua_parts b = extended_of (fixed_parts p) True)"
proof -
  note keeps = split_url_keeps [OF assms(1)]
  have con: "consistent p" using keeps(1) by (simp add: path_split_def)
  have ne: "url \<noteq> []" using assms(1,2) by (auto simp: split_url_def split_main_def split_authority_def extended_clear_def)
  have valid: "valid_url_parts (fixed_parts p)" by (rule valid_fixed_parts) (use keeps assms in auto)
  have ext: "valid_url_parts (extended_of (fixed_parts p) True)"
  proof -
    have "up_scheme (fixed_parts p) \<noteq> []" using http_scheme_valid [OF assms(3)] by (simp add: fixed_parts_def)
    then have "valid_url_parts (extended_of (fixed_parts p) True) = valid_url_parts (fixed_parts p)"
      by (simp add: valid_url_parts_def extended_of_def)
    then show ?thesis using valid by simp
  qed
  let ?first = "\<lparr>ua_url = url, ua_parts = p\<rparr>"
  have start: "url_without_check url = Inr ?first" using ne assms(1) by (simp add: url_without_check_def)
  have checks: "http_specific_checks False ?first = http_check_and_fix False ?first"
    using assms(2) by (simp add: http_specific_checks_def http_url_needs_prefix_def)
  have "check_http_url_components url (up_scheme p) (up_host p) False = None"
    using assms(2,3) by (auto simp: check_http_url_components_def)
  then obtain b where b: "http_check_and_fix False ?first = Inr b"
    "ua_parts b = fixed_parts p \<or> ua_parts b = extended_of (fixed_parts p) True"
    using http_check_and_fix_result [of ?first False] con fixed_parts_same [of p] by (auto split: if_splits)
  then have "url_parts_checker (ua_url b) (ua_parts b) = None"
    using valid ext by (auto simp: url_parts_checker_iff)
  then show ?thesis using start checks b by (intro exI [of _ b]) (simp add: url_assign_def)
qed

text \<open>The parts of an address built from parts.\<close>

definition set_parts :: "bool \<Rightarrow> bytes \<Rightarrow> bytes \<Rightarrow> 16 word \<Rightarrow> bytes \<Rightarrow> bytes \<Rightarrow> bytes \<Rightarrow> UrlParts" where
  "set_parts secure userinfo host port path query fragment =
     url_parts (if secure then chars ''https'' else chars ''http'') userinfo host
       (if port = get_default_port secure then [] else convert_unsigned (unat port))
       (if path = [] then chars ''/'' else path) query fragment"

lemma http_set_Inr:
  assumes "host \<noteq> []"
  shows "http_set secure userinfo host port path query fragment t = Inr a \<longleftrightarrow>
    valid_url_parts (set_parts secure userinfo host port path query fragment) \<and>
    a = t\<lparr>ha_secure := secure, ha_port_number := port, ha_default_port := (port = get_default_port secure),
      ha_base := \<lparr>ua_url = assemble_url (set_parts secure userinfo host port path query fragment),
        ua_parts = extended_of (set_parts secure userinfo host port path query fragment) True\<rparr>\<rparr>"
proof -
  let ?p = "set_parts secure userinfo host port path query fragment"
  have "http_set secure userinfo host port path query fragment t =
      rmap (\<lambda>base. t\<lparr>ha_secure := secure, ha_port_number := port, ha_default_port := (port = get_default_port secure),
        ha_base := base\<rparr>) (assign_url_parts ?p True)"
    using assms by (simp add: http_set_def set_parts_def Let_def HTTP_SCHEME_def HTTPS_SCHEME_def)
  moreover have "assign_url_parts ?p True = Inr b \<longleftrightarrow>
      valid_url_parts ?p \<and> b = \<lparr>ua_url = assemble_url ?p, ua_parts = extended_of ?p True\<rparr>" for b
    using url_address_parts_iff unfolding set_parts_def url_address_parts_def by blast
  ultimately show ?thesis unfolding rmap_eq_Inr by auto
qed

lemma lenient_address:
  assumes "split_url url = Inr p" "up_host p \<noteq> []"
    and "(\<forall>c\<in>set (up_port p). NUMBER c) \<and> (up_port p \<noteq> [] \<longrightarrow> str_to_int ushort (up_port p) \<noteq> None)"
    and "caseless_equal HTTP_SCHEME (up_scheme p) \<or> caseless_equal HTTPS_SCHEME (up_scheme p)"
    and "encoded_text USER_INFO (up_userinfo p)" "length (up_host p) \<le> 255" "host_name (up_host p)"
  shows "\<exists>a. http_address url False = Inr a \<and> up_host (ua_parts (ha_base a)) = up_host p \<and>
    up_userinfo (ua_parts (ha_base a)) = up_userinfo p \<and> up_scheme (ua_parts (ha_base a)) = up_scheme p \<and>
    unmime_all (up_path (ua_parts (ha_base a))) = (if up_path p = [] then chars ''/'' else unmime_all (up_path p)) \<and>
    unmime_all (up_query (ua_parts (ha_base a))) = unmime_all (up_query p) \<and>
    unmime_all (up_fragment (ua_parts (ha_base a))) = unmime_all (up_fragment p)"
proof -
  obtain b where b: "url_assign (http_specific_checks False) url = Inr b"
    and parts: "ua_parts b = fixed_parts p \<or> ua_parts b = extended_of (fixed_parts p) True"
    using lenient_url_assign [OF assms(1,2,4-7)] assms(3) by auto
  have ne: "url \<noteq> []" using assms(1,2) by (auto simp: split_url_def split_main_def split_authority_def extended_clear_def)
  have fields: "up_scheme (ua_parts b) = up_scheme p" "up_host (ua_parts b) = up_host p" "up_port (ua_parts b) = up_port p"
    "up_userinfo (ua_parts b) = up_userinfo p" "up_path (ua_parts b) = fixed_part (up_path p) PATH"
    "up_query (ua_parts b) = fixed_part (up_query p) QUERY" "up_fragment (ua_parts b) = fixed_part (up_fragment p) QUERY"
    using parts assms(3,5) by (auto simp: fixed_parts_def extended_of_def fixed_part_encoded FRAGMENT_eq_QUERY)
  have path: "fixed_part (up_path p) PATH = [] \<longleftrightarrow> up_path p = []"
    using fixed_part_read [of PATH, OF percent_not_owned(2), of "up_path p"]
      unmime_all_Nil [of "up_path p"] unmime_all_Nil [of "fixed_part (up_path p) PATH"] by simp
  have "\<exists>a. http_address url False = Inr a \<and> ha_base a = default_path b"
  proof (cases "up_port p = []")
    case True
    then show ?thesis using ne b fields(3) by (simp add: http_address_def http_assign_def Let_def)
  next
    case False
    then obtain n where "str_to_int ushort (up_port p) = Some n" using assms(3) by auto
    then show ?thesis using False ne b fields(3) by (simp add: http_address_def http_assign_def Let_def)
  qed
  then obtain a where "http_address url False = Inr a" "ha_base a = default_path b" by blast
  then show ?thesis using fields path fixed_part_read percent_not_owned
    by (intro exI [of _ a]) (simp add: default_path_def)
qed

text \<open>An address with a space and a brace in its path.\<close>

lemma example_host: "host_name (chars ''h'')"
proof -
  have "valid_label (chars ''h'')" by (simp add: valid_label_def url_categories)
  then show ?thesis unfolding host_name_def by (intro disjI2 exI [of _ "[chars ''h'']"]) simp
qed

lemma example_split:
  "\<exists>p. split_url (chars ''http://h/a b?c'') = Inr p \<and> up_scheme p = chars ''http'' \<and> up_userinfo p = [] \<and>
     up_host p = chars ''h'' \<and> up_port p = [] \<and> up_path p = chars ''/a b'' \<and> up_query p = chars ''c''"
  by (simp add: split_url_def split_main_def split_hierarchy_def split_path_def split_query_def split_authority_def
      extended_clear_def sub_find_def sub_rfind_def Let_def)

lemma example_scheme: "caseless_equal HTTP_SCHEME (chars ''http'')"
  by (simp add: caseless_equal_iff HTTP_SCHEME_def)

lemma example_address: "\<exists>a. http_address (chars ''http://h/a b?c'') False = Inr a"
  using lenient_address example_split example_scheme example_host by fastforce

section \<open>Departures\<close>

text \<open>
  After the first repair the rest of a user part is checked as if it were a query, so that the
  result may still be invalid; asking for a path without its last slash reads before an
  empty path; and an explicit port is never the default port, unless the address is built from parts.
\<close>

lemma userinfo_repair_incomplete:
  "http_fix_part (chars ''a b{'') USER_INFO = Some (chars ''a%20b{'')" "\<not> encoded_text USER_INFO (chars ''a%20b{'')"
  by (simp_all add: http_fix_part_def find_invalid_Cons fix_part_loop.simps(2) HEX_DIGITS_def url_categories)

lemma strip_empty_path: "get_view (http_new True) VW_STRIP_PATH = Inl OutOfBounds"
  by (simp add: get_view_def view_path_def VW_STRIP_PATH_def VW_PATH_def http_new_def url_address_empty_def
      extended_clear_def Let_def)

lemma explicit_port_not_default:
  assumes "http_assign strict url = Inr a" "up_port (ua_parts (ha_base a)) \<noteq> []"
  shows "\<not> ha_default_port a"
  using assms by (auto simp: http_assign_def default_path_def Let_def split: if_splits option.splits)

lemma parts_port_default: "http_set secure us ho (get_default_port secure) pa qu fr t = Inr a \<Longrightarrow> ha_default_port a"
  by (auto simp: http_set_def Let_def split: if_splits)

section \<open>Properties\<close>

text \<open>
  C37: an HTTP address that was read from a text that is not empty, strictly or not, is valid: all its
  parts are in the grammar, it has a host and a path that begins with a slash, and its port number is
  the one of the text or, where the text has none, the default one of its scheme.  Unless the text
  itself writes the default port (\<open>explicit_port_not_default\<close>), \<^verbatim>\<open>is_default_port\<close> tells exactly whether the
  port is the default one for the scheme, and it never calls another port the default one.
\<close>

theorem http_address_valid:
  assumes "http_address url strict = Inr a" "url \<noteq> []"
  shows "valid_url_parts (ua_parts (ha_base a)) \<and> up_host (ua_parts (ha_base a)) \<noteq> [] \<and>
    (\<exists>r. up_path (ua_parts (ha_base a)) = chars ''/'' @ r) \<and>
    ha_secure a = caseless_equal HTTPS_SCHEME (up_scheme (ua_parts (ha_base a))) \<and>
    (if up_port (ua_parts (ha_base a)) = [] then ha_port_number a = (if ha_secure a then 443 else 80)
     else uint (ha_port_number a) = decimal_value 0 (up_port (ua_parts (ha_base a)))) \<and>
    (ha_default_port a \<longrightarrow> ha_port_number a = (if ha_secure a then 443 else 80)) \<and>
    (up_port (ua_parts (ha_base a)) = [] \<or> ha_port_number a \<noteq> (if ha_secure a then 443 else 80) \<longrightarrow>
      (ha_default_port a \<longleftrightarrow> ha_port_number a = (if ha_secure a then 443 else 80)))"
proof -
  obtain b where b: "url_assign (http_specific_checks strict) url = Inr b"
    using assms by (auto simp: http_address_def http_assign_def split: if_splits)
  let ?p = "ua_parts b"
  have valid: "valid_url_parts ?p" "up_host ?p \<noteq> []" using url_assign_http_valid [OF b] by auto
  then have digits: "\<forall>c\<in>set (up_port ?p). NUMBER c" and path: "up_path ?p = [] \<or> (\<exists>r. up_path ?p = 0x2F # r)"
    by (simp_all add: valid_url_parts_def)
  have slash: "encoded_text PATH [0x2F]" by (simp add: url_categories)
  let ?base = "default_path b"
  have base: "valid_url_parts (ua_parts ?base)" "up_host (ua_parts ?base) \<noteq> []" "\<exists>r. up_path (ua_parts ?base) = 0x2F # r"
    "up_scheme (ua_parts ?base) = up_scheme ?p" "up_port (ua_parts ?base) = up_port ?p"
    using valid path slash by (auto simp: default_path_def valid_url_parts_def)
  show ?thesis
  proof (cases "up_port ?p = []")
    case True
    then have "a = \<lparr>ha_base = ?base, ha_strict = strict, ha_port_number = get_default_port (caseless_equal HTTPS_SCHEME (up_scheme ?p)),
        ha_secure = caseless_equal HTTPS_SCHEME (up_scheme ?p), ha_default_port = True\<rparr>"
      using assms b by (simp add: http_address_def http_assign_def Let_def)
    then show ?thesis using base True by (simp add: get_default_port_def)
  next
    case False
    then obtain v where v: "str_to_int ushort (up_port ?p) = Some v"
      and a: "a = \<lparr>ha_base = ?base, ha_strict = strict, ha_port_number = word_of_int v,
        ha_secure = caseless_equal HTTPS_SCHEME (up_scheme ?p), ha_default_port = False\<rparr>"
      using assms b by (auto simp: http_address_def http_assign_def Let_def split: option.splits)
    show ?thesis using base False a str_to_int_port [OF v digits] by simp
  qed
qed

theorem http_address_valid_witness:
  "\<exists>a. http_address (chars ''http://h/a b?c'') False = Inr a \<and> valid_url_parts (ua_parts (ha_base a)) \<and>
     up_host (ua_parts (ha_base a)) \<noteq> []"
proof -
  obtain a where a: "http_address (chars ''http://h/a b?c'') False = Inr a" using example_address by blast
  have "chars ''http://h/a b?c'' \<noteq> []" by simp
  from http_address_valid [OF a this] show ?thesis using a by blast
qed

text \<open>
  C38: an address that is not strict repairs its path, query and fragment: if scheme, user, host
  and port of a text are right, the address can be made, whatever the rest of the text is, and
  reading the escapes of its path, query and fragment gives what those of the text give.
\<close>

theorem http_lenient_repairs:
  assumes "split_url url = Inr p" "up_host p \<noteq> []"
    and "(\<forall>c\<in>set (up_port p). NUMBER c) \<and> (up_port p \<noteq> [] \<longrightarrow> str_to_int ushort (up_port p) \<noteq> None)"
    and "caseless_equal HTTP_SCHEME (up_scheme p) \<or> caseless_equal HTTPS_SCHEME (up_scheme p)"
    and "encoded_text USER_INFO (up_userinfo p)" "length (up_host p) \<le> 255" "host_name (up_host p)"
  shows "\<exists>a. http_address url False = Inr a \<and> up_host (ua_parts (ha_base a)) = up_host p \<and>
    up_userinfo (ua_parts (ha_base a)) = up_userinfo p \<and> up_scheme (ua_parts (ha_base a)) = up_scheme p \<and>
    unmime_all (up_path (ua_parts (ha_base a))) = (if up_path p = [] then chars ''/'' else unmime_all (up_path p)) \<and>
    unmime_all (up_query (ua_parts (ha_base a))) = unmime_all (up_query p) \<and>
    unmime_all (up_fragment (ua_parts (ha_base a))) = unmime_all (up_fragment p)"
  using assms by (rule lenient_address)

theorem http_lenient_repairs_witness:
  "\<exists>a. http_address (chars ''http://h/a b?c'') False = Inr a \<and> up_host (ua_parts (ha_base a)) = chars ''h'' \<and>
     unmime_all (up_path (ua_parts (ha_base a))) = chars ''/a b''"
proof -
  obtain p where p: "split_url (chars ''http://h/a b?c'') = Inr p" "up_scheme p = chars ''http''" "up_userinfo p = []"
    "up_host p = chars ''h''" "up_port p = []" "up_path p = chars ''/a b''"
    using example_split by blast
  have "unmime_all (chars ''/a b'') = chars ''/a b''" by simp
  then show ?thesis using http_lenient_repairs [OF p(1)] p example_scheme example_host by auto
qed

text \<open>
  The full view of an address built from its parts is its text, when it has no user.
\<close>

lemma http_view_full:
  assumes "http_address_parts host path query fragment port secure [] = Inr a" "host \<noteq> []"
  shows "get_view a VW_FULL = Inr (ua_url (ha_base a))"
proof -
  define pt where "pt = (if port \<noteq> 0 then port else get_default_port secure)"
  have a: "a = (http_new False)\<lparr>ha_secure := secure, ha_port_number := pt, ha_default_port := (pt = get_default_port secure),
      ha_base := \<lparr>ua_url = assemble_url (set_parts secure [] host pt path query fragment),
        ua_parts = extended_of (set_parts secure [] host pt path query fragment) True\<rparr>\<rparr>"
    using assms unfolding http_address_parts_def http_set_Inr [OF assms(2)] pt_def by blast
  have ne: "convert_unsigned n \<noteq> []" for n by (simp add: convert_unsigned_rev)
  have flags: "VW_FULL AND VW_PROTOCOL \<noteq> 0" "VW_FULL AND VW_HOSTNAME \<noteq> 0" "VW_FULL AND VW_HOSTNAME_WWW \<noteq> VW_HOSTNAME_WWW"
    "VW_FULL AND VW_PORT = 0" "VW_FULL AND VW_NDEF_PORT \<noteq> 0" "VW_FULL AND VW_PATH \<noteq> 0"
    "VW_FULL AND VW_STRIP_PATH \<noteq> VW_STRIP_PATH" "VW_FULL AND VW_QUERY \<noteq> 0" "VW_FULL AND VW_FRAGMENT \<noteq> 0"
    by (simp_all add: VW_FULL_def VW_PROTOCOL_def VW_HOSTNAME_def VW_HOSTNAME_WWW_def VW_PORT_def VW_NDEF_PORT_def
        VW_PATH_def VW_STRIP_PATH_def VW_QUERY_def VW_FRAGMENT_def)
  show ?thesis using assms(2) ne
    by (simp add: a get_view_def set_parts_def Let_def flags view_path_def extended_of_def assemble_url_def
        assemble_authority_def has_authority_def HTTP_PREFIX_def HTTPS_PREFIX_def http_new_def)
qed

lemma http_view_full_example:
  "\<exists>a. http_address_parts (chars ''h.org'') (chars ''/p'') (chars ''q'') [] 8080 False [] = Inr a \<and>
     get_view a VW_FULL = Inr (ua_url (ha_base a))"
proof -
  have "valid_label (chars ''h'')" "valid_label (chars ''org'')" by (simp_all add: valid_label_def url_categories)
  then have host: "host_name (chars ''h.org'')"
    unfolding host_name_def by (intro disjI2 exI [of _ "[chars ''h'', chars ''org'']"]) simp
  have digits: "convert_unsigned 8080 = chars ''8080''" by (simp add: convert_unsigned_rev digits_loop.simps)
  have valid: "valid_url_parts (set_parts False [] (chars ''h.org'') 8080 (chars ''/p'') (chars ''q'') [])"
    using host by (simp add: valid_url_parts_def set_parts_def get_default_port_def digits) (simp add: url_categories)
  have ne: "chars ''h.org'' \<noteq> []" by simp
  obtain a where a: "http_address_parts (chars ''h.org'') (chars ''/p'') (chars ''q'') [] 8080 False [] = Inr a"
    using valid unfolding http_address_parts_def http_set_Inr [OF ne] by auto
  show ?thesis using a http_view_full [OF a ne] by blast
qed

end
