(* ===== verification/Spec2Isabelle.thy ===== *)
theory Spec2Isabelle
  imports Base64 Xml_Codec Js_Codec String_Misc Int_To_Str Tokenizer Unicode_Symbol Compressed_Set
    Time_Format Planner Task_Runner Bounded_Map Number_Properties Punycode Crc Http_Address
begin

text \<open>
  Verification of UnixCommons, a C++ library of helper classes for Unix servers.  Paths are
  below \<^verbatim>\<open>src/src/\<close>.  Each theory holds the definitions of one part of the library in the order of
  its code, the lemmas about them, and at its end the properties, each under its label.

  \<^bold>\<open>The parts and how they interact.\<close>  \<^verbatim>\<open>String\<close> works on octets: character categories and caseless
  comparison (\<^verbatim>\<open>AsciiStringManip\<close>), UTF-8 (\<^verbatim>\<open>UTF8Handler\<close>, \<^verbatim>\<open>UnicodeSymbol\<close>), the codecs and edits of
  \<^verbatim>\<open>StringManip\<close>, which search with the categories and step through text with the UTF-8 functions,
  and the \<^verbatim>\<open>Tokenizer\<close>, a splitter over a category; all of them take texts as a \<^verbatim>\<open>SubString\<close>.  \<^verbatim>\<open>HTTP\<close>
  builds addresses on them (\<^verbatim>\<open>UrlAddress\<close>), which are split, checked with the categories, repaired and printed.  \<^verbatim>\<open>Generics\<close> has times (\<^verbatim>\<open>Time\<close>), whose parser uses
  the caseless names and whose formatter uses \<^verbatim>\<open>int_to_str\<close>; fixed point numbers (\<^verbatim>\<open>SimpleDecimal\<close> of one
  element, \<^verbatim>\<open>Decimal\<close> of several, over the helpers of \<^verbatim>\<open>CommonDecimal\<close>); containers (\<^verbatim>\<open>CompressedSet\<close>,
  \<^verbatim>\<open>BoundedMap\<close>); and active objects: the \<^verbatim>\<open>Planner\<close>, which delivers goals at their time, and the
  \<^verbatim>\<open>TaskRunner\<close>, which executes tasks on a pool of threads, both run by \<^verbatim>\<open>ActiveObjectCommonImpl\<close> and
  \<^verbatim>\<open>ThreadRunner\<close>, and \<^verbatim>\<open>CompositeActiveObject\<close>, which controls several of them as one.

  \<^bold>\<open>Theories and sources.\<close>
  \<^item> \<open>Prelude\<close>: errors as values (\<open>error\<close>, \<open>result\<close>), octets as 8 bit words, collections of
    simplification rules, facts on words, the locale of codecs that work symbol by symbol.
  \<^item> \<open>Ascii_String_Manip\<close>: \<^verbatim>\<open>String/AsciiStringManip.hpp\<close> and \<^verbatim>\<open>.cpp\<close>.
  \<^item> \<open>Utf8_Handler\<close>, \<open>Unicode_Symbol\<close>: \<^verbatim>\<open>String/UTF8Handler.hpp\<close>, \<^verbatim>\<open>String/UnicodeSymbol.hpp\<close>, \<^verbatim>\<open>.cpp\<close>.
  \<^item> \<open>Base64\<close>, \<open>Mime_Url\<close>, \<open>Utf8_Convert\<close>, \<open>Xml_Codec\<close>, \<open>Js_Codec\<close>, \<open>String_Misc\<close>, \<open>Int_To_Str\<close>, \<open>Punycode\<close>:
    \<^verbatim>\<open>String/StringManip.cpp\<close>, \<^verbatim>\<open>.hpp\<close>, \<^verbatim>\<open>.ipp\<close>, \<^verbatim>\<open>.tpp\<close>.
  \<^item> \<open>Tokenizer\<close>: \<^verbatim>\<open>String/Tokenizer.hpp\<close>; \<open>Sub_String\<close>: \<^verbatim>\<open>String/SubString.tpp\<close>, \<^verbatim>\<open>SubStringFind.tpp\<close>.
  \<^item> \<open>Url_Address\<close> (parts, splitter, checker, \<^verbatim>\<open>URLAddress\<close>), \<open>Http_Address\<close> (\<^verbatim>\<open>HTTPChecker\<close>, \<^verbatim>\<open>HTTPAddress\<close>):
    \<^verbatim>\<open>HTTP/UrlAddress.hpp\<close>, \<^verbatim>\<open>.cpp\<close>.
  \<^item> \<open>Compressed_Set\<close>: \<^verbatim>\<open>Generics/CompressedSet.hpp\<close>, \<^verbatim>\<open>safe_next\<close> of \<^verbatim>\<open>Generics/TypeTraits.hpp\<close>.
  \<^item> \<open>Time_Model\<close>, \<open>Gm_Calendar\<close>, \<open>Time_Format\<close>: \<^verbatim>\<open>Generics/Time.hpp\<close>, \<^verbatim>\<open>Time.cpp\<close>.
  \<^item> \<open>Runs\<close>: what holds at last in every run of a step relation (\<open>inevitably\<close>), for the two theories below.
  \<^item> \<open>Planner\<close>: \<^verbatim>\<open>Generics/Scheduler.cpp\<close>.
  \<^item> \<open>Active_Object\<close>: \<^verbatim>\<open>Generics/ActiveObject.cpp\<close>, \<^verbatim>\<open>CompositeActiveObject.hpp\<close>, \<^verbatim>\<open>ThreadRunner.cpp\<close>.
  \<^item> \<open>Task_Runner\<close>: \<^verbatim>\<open>Generics/TaskRunner.cpp\<close> with \<^verbatim>\<open>ActiveObjectCommonImpl\<close> and \<^verbatim>\<open>Sync/Semaphore.hpp\<close>.
  \<^item> \<open>Bounded_Map\<close>: \<^verbatim>\<open>Generics/BoundedMap.hpp\<close>; \<open>Crc\<close>: \<^verbatim>\<open>Generics/CRC.hpp\<close>, \<^verbatim>\<open>.cpp\<close>.
  \<^item> \<open>Common_Decimal\<close>: \<^verbatim>\<open>Generics/CommonDecimal.hpp\<close>, \<^verbatim>\<open>.cpp\<close>; \<open>Simple_Decimal\<close>, \<open>Decimal_Text\<close>:
    \<^verbatim>\<open>Generics/SimpleDecimal.hpp\<close>, \<^verbatim>\<open>.tpp\<close>.
  \<^item> \<open>Decimal_Number\<close> (order, sum, product), \<open>Decimal_Division\<close> (long division), \<open>Decimal_String\<close>
    (construction, conversion, text, rounding): \<^verbatim>\<open>Generics/Decimal.hpp\<close>, \<^verbatim>\<open>.tpp\<close>; \<open>Number_Text\<close> and
    \<open>Number_Properties\<close> hold the lemmas on its texts and its properties.

  \<^bold>\<open>State and operations.\<close>  A class is a record with its members and a member function is a
  function from the record to the record, with the result in front; an exception is a left value
  of the result.  A text or a buffer is the list of its octets; code that works in place or
  reads a terminator has it in the list, and reading outside of it is an error.  Machine words
  keep their width where code depends on it (octets, wide characters, hashes, packed times, the
  sizes and counters of the bounded map, the counter of unused threads, the factors of times, the
  elements of decimals); \<^verbatim>\<open>time_t\<close>, the \<^verbatim>\<open>int\<close> fields of a split time and the integer types of the number
  parser are integers that are cut to their width (\<open>time_t\<close>, \<open>c_int\<close>) or have their limits written out.  The clock, the result of thread
  creation, the size policy, \<^verbatim>\<open>mktime\<close> and \<^verbatim>\<open>localtime_r\<close> are arguments.

  The \<^verbatim>\<open>Planner\<close> and the \<^verbatim>\<open>TaskRunner\<close> run in several threads.  Their theories give every section under
  the mutex, and every operation of a semaphore, as a function, and a step relation
  (\<open>planner_step\<close>, \<open>runner_step\<close>) interleaves the steps of clients, worker threads, the clock and the
  calls that control the object in any order.  Invariants are proved by rule induction over the
  reachable states; histories of what was put in and taken out are part of the state.  Progress is
  shown for the steps of the worker alone (\<open>worker_step\<close>, whose wait returns only for an event or after its
  time limit) and of the threads alone (\<open>thread_step\<close>, with the signals that are still owed to them): in
  every run of these steps, whatever their order, what is due happens (\<open>inevitably\<close>).

  \<^bold>\<open>Interfaces.\<close>  \<open>stream_codec\<close> (in \<open>Prelude\<close>) gives round trips from the law of one symbol and is
  interpreted for the codecs that work symbol by symbol; \<open>search_category\<close> (in
  \<open>Ascii_String_Manip\<close>) is what clients of a character category rely on; \<open>base64_alphabet\<close> and
  \<open>base64_codec\<close> cover both base64 alphabets; \<open>interval_operation\<close> (in \<open>Compressed_Set\<close>) covers adding
  and removing intervals; \<open>timed_queue\<close> (in \<open>Planner\<close>) is the queue of planned messages;
  \<open>active_object\<close> (in \<open>Active_Object\<close>) is the contract a composite relies on, interpreted for simple
  objects and for composites of them, so that composites can be nested; \<open>fixed_point\<close> (in
  \<open>Common_Decimal\<close>) is what both decimal classes promise of sums and differences; \<open>progress\<close> (in \<open>Runs\<close>) gives
  what happens inevitably from a measure that every step lowers.

  \<^bold>\<open>What the lemmas show.\<close>  Codecs: decoding gives back what was encoded, encoders write safe
  characters only, in-place decoding equals decoding, checks accept exactly the well-formed texts;
  punycode of Unicode texts is read back; the checksums are the division by the polynomial of
  CRC-32 and notice every change within four bytes.  Addresses: the splitter returns for every
  text and loses nothing, the checker accepts exactly a grammar, an address built from parts is
  read back if it has a scheme or a host, an HTTP address is valid, and repairing its parts does not change what they mean.
  Numbers: the parser accepts exactly the numerals in range.  Decimals: arithmetic is that of the
  rational numbers, rounded once, with \<open>Overflow\<close> precisely where the result does not fit; the
  hardware instructions for 128 bit products and quotients do not fault, and the long division
  returns; the constructors from texts accept exactly the documented format where its digits fit, and
  written texts are read back.  Times: arithmetic is that of microseconds as long as the C types
  hold them, the calendar is the Gregorian one from the epoch up to 2099, printed times are read back.
  Containers: the interval set implements sets, the bounded map keeps its bound and evicts
  outdated elements only, the least recently used ones first and no more than it must.  Active objects: no message or task is lost, delivered
  twice or early, no wake-up is lost, queues keep their bounds, activation of a composite whose
  children do not fail when they are stopped is all or nothing.  Where the code departs from this, a lemma shows the departure on an example:
  \<open>utf8_check_skips_third_octet\<close>, \<open>symbol_incr_overflows\<close>, \<open>js_unicode_decode_refuses_D700\<close>,
  \<open>js_unicode_decode_overread\<close>, \<open>concat_drops_last_digit\<close>, \<open>cset_remove_misses_maximum\<close>,
  \<open>wchar_to_hex_overflow\<close>, \<open>gm_calendar_2100\<close>, \<open>gm_calendar_before_epoch\<close>, \<open>composite_rollback_incomplete\<close>,
  \<open>wait_race\<close>, \<open>trailing_point_one_digit\<close>, \<open>no_integer_rank_text\<close>, \<open>not_a_number_overflow\<close>, \<open>minus_zero_sign\<close>,
  \<open>rational_twenty_digits\<close>, \<open>parts_unchecked\<close>, \<open>zero_out_of_bounds\<close>, \<open>ceil_misses_low_digits\<close>,
  \<open>plus_assign_overwrites\<close>, \<open>point_is_zero\<close>, \<open>sign_only\<close>, \<open>punycode_decode_divides_by_zero\<close>,
  \<open>punycode_decode_leading_hyphen\<close>, \<open>punycode_encode_out_of_bounds\<close>, \<open>compare_prefix_reversed\<close>, \<open>find_behind_end\<close>,
  \<open>find_empty_before_position\<close>, \<open>find_last_not_of_empty\<close>, \<open>self_assignment_clears\<close>, \<open>host_two_dots\<close>,
  \<open>userinfo_repair_incomplete\<close>, \<open>strip_empty_path\<close>, \<open>explicit_port_not_default\<close>, \<open>path_read_as_scheme\<close>,
  \<open>throw_overflow_no_integer\<close>, \<open>cset_remove_self\<close>, \<open>statistics_reset_imbalance\<close>, \<open>gm_calendar_int_year\<close>,
  \<open>time_mul_least_int\<close>.

  \<^bold>\<open>Bounds.\<close>  All functions are total; loops recurse on their input or have a measure, and there is
  no fuel.  The loop that corrects a quotient digit of the long division (\<open>guess_loop\<close>) is a partial
  function whose value is \<open>None\<close> where it does not return; it is shown to return.  So are the loops of
  the punycode encoder (\<open>put_integer\<close>, \<open>encode_loop\<close>), which return for texts of up to 1926 Unicode
  characters, below which no number of theirs overflows.  A wait that cannot return by itself is \<open>None\<close> in \<open>Active_Object\<close> and a step that is not
  enabled in \<open>Planner\<close> and \<open>Task_Runner\<close>.  Properties that need a limit name it: the sizes of the
  bounded map are below two to the 63 and its calls fewer than two to the 31, times lie from the epoch to
  the year 9999 where they are printed, an address is no longer than a position can be, texts of
  decimals belong to ranks with at least one integer digit.  Liveness is stated for all runs of the object's own steps
  from every reachable state; that the system lets them run is not modelled.

  \<^bold>\<open>Not modelled.\<close>  Input and output streams, memory management and reference counting have no
  counterpart.  Generated Unicode tables with case folding and normalisation, wrappers of other
  libraries (PCRE, iconv, OpenSSL, Xerces, net-snmp, TAO, Apache), command line tools and tests
  are left out.  In the modelled parts these are left out: iostream operators, floating point
  conversions, dumps, failing
  allocation except in \<^verbatim>\<open>enqueue_task\<close>, failing semaphores and mutexes, the window between the last
  join of \<^verbatim>\<open>ThreadRunner::wait_for_completion\<close> and the reset of its counter, removable children of
  composites, destructors, the state an address is left in by an exception, the substrings with checks.
  Addresses of browsers need the Unicode tables; cookies, templates, identifiers and the storage blocks
  of \<^verbatim>\<open>PlainStorage\<close> are small or bound to streams and files and are left out.
\<close>

end
